(* ===== verification/Prelude.thy ===== *)
theory Prelude
  imports Main "HOL-Library.Word"
begin

text \<open>
  Shared vocabulary of the development: names for the machine types of the C code, the
  collections of rewrite rules the component theories add to, and the operations on C
  arrays (bit flips, \<open>memcpy\<close>) with the lemmas every component uses.

  A C array that holds one bit per \<open>unsigned char\<close> is a \<open>nat list\<close> whose entries are below
  256; \<open>bits\<close> says that every entry is 0 or 1. Values that the code treats as machine
  words are words of their width.
\<close>

unbundle bit_operations_syntax

type_synonym u8 = "8 word"
type_synonym u16 = "16 word"
type_synonym u32 = "32 word"
type_synonym u64 = "64 word"

type_synonym bit_array = "nat list"

named_theorems table_simps "evaluation of the constant tables of the source"
named_theorems len_simps "lengths of arrays after the operations of the source"

section \<open>Bit arrays\<close>

definition bits :: "bit_array \<Rightarrow> bool" where
  "bits xs \<longleftrightarrow> (\<forall>x \<in> set xs. x < 2)"

definition flip_at :: "nat \<Rightarrow> bit_array \<Rightarrow> bit_array" where
  "flip_at p xs = xs[p := (xs ! p) XOR 1]"

primrec flips :: "nat list \<Rightarrow> bit_array \<Rightarrow> bit_array" where
  "flips [] xs = xs"
| "flips (p # ps) xs = flips ps (flip_at p xs)"

definition positions :: "nat \<Rightarrow> nat list \<Rightarrow> bool" where
  "positions n ps \<longleftrightarrow> sorted_wrt (<) ps \<and> (\<forall>p \<in> set ps. p < n)"

lemma bits_nth: "bits xs \<Longrightarrow> i < length xs \<Longrightarrow> xs ! i < 2"
  by (simp add: bits_def)

lemma bits_Nil [simp]: "bits []"
  by (simp add: bits_def)

lemma bits_Cons [simp]: "bits (x # xs) \<longleftrightarrow> x < 2 \<and> bits xs"
  by (simp add: bits_def)

lemma bits_append [simp]: "bits (xs @ ys) \<longleftrightarrow> bits xs \<and> bits ys"
  by (auto simp: bits_def)

lemma bits_replicate [simp]: "x < 2 \<Longrightarrow> bits (replicate n x)"
  by (simp add: bits_def)

lemma bits_take [simp]: "bits xs \<Longrightarrow> bits (take n xs)"
  by (auto simp: bits_def dest: in_set_takeD)

lemma bits_drop [simp]: "bits xs \<Longrightarrow> bits (drop n xs)"
  by (auto simp: bits_def dest: in_set_dropD)

lemma bits_update: "bits xs \<Longrightarrow> v < 2 \<Longrightarrow> bits (xs[i := v])"
  by (auto simp: bits_def dest!: set_update_subset_insert [THEN subsetD])

lemma xor_one_bit: "x < 2 \<Longrightarrow> (x XOR Suc 0 :: nat) = 1 - x"
  by (cases x rule: nat.exhaust) (auto simp: less_Suc_eq numeral_2_eq_2)

lemma and_one_bit: "x < 2 \<Longrightarrow> (x AND Suc 0 :: nat) = x"
  by (cases x rule: nat.exhaust) (auto simp: less_Suc_eq numeral_2_eq_2)

lemma length_flip_at [simp, len_simps]: "length (flip_at p xs) = length xs"
  by (simp add: flip_at_def)

lemma length_flips [simp, len_simps]: "length (flips ps xs) = length xs"
  by (induction ps arbitrary: xs) auto

lemma bits_flip_at [simp]: "bits xs \<Longrightarrow> bits (flip_at p xs)"
  by (cases "p < length xs")
    (auto simp: flip_at_def xor_one_bit bits_nth list_update_beyond intro!: bits_update)

lemma bits_flips [simp]: "bits xs \<Longrightarrow> bits (flips ps xs)"
  by (induction ps arbitrary: xs) auto

lemma nth_flip_at: "i < length xs \<Longrightarrow> flip_at p xs ! i = (if i = p then xs ! i XOR 1 else xs ! i)"
  by (simp add: flip_at_def nth_list_update)

lemma xor_one_twice [simp]: "(x XOR Suc 0) XOR Suc 0 = (x :: nat)"
  by (simp add: xor.assoc)

lemma flip_at_flip_at [simp]: "flip_at p (flip_at p xs) = xs"
  by (rule nth_equalityI) (auto simp: nth_flip_at)

lemma flip_at_commute: "flip_at p (flip_at q xs) = flip_at q (flip_at p xs)"
  by (rule nth_equalityI) (auto simp: nth_flip_at)

lemma flips_flip_at: "flips ps (flip_at p xs) = flip_at p (flips ps xs)"
proof (induction ps arbitrary: xs)
  case Nil
  show ?case by simp
next
  case (Cons q ps)
  have "flips (q # ps) (flip_at p xs) = flips ps (flip_at q (flip_at p xs))" by simp
  also have "\<dots> = flips ps (flip_at p (flip_at q xs))" by (simp only: flip_at_commute [of q p])
  also have "\<dots> = flip_at p (flips ps (flip_at q xs))" by (rule Cons.IH)
  finally show ?case by simp
qed

lemma flips_flips [simp]: "flips ps (flips ps xs) = xs"
  by (induction ps arbitrary: xs) (simp_all add: flips_flip_at)

lemma nth_flips_other: "i < length xs \<Longrightarrow> i \<notin> set ps \<Longrightarrow> flips ps xs ! i = xs ! i"
  by (induction ps arbitrary: xs) (auto simp: nth_flip_at)

lemma positions_Nil [simp]: "positions n []"
  by (simp add: positions_def)

lemma positions_single [simp]: "positions n [p] \<longleftrightarrow> p < n"
  by (simp add: positions_def)

lemma positions_distinct: "positions n ps \<Longrightarrow> distinct ps"
  by (simp add: positions_def strict_sorted_iff)

lemma positions_Cons:
  "positions n (p # ps) \<longleftrightarrow> p < n \<and> (\<forall>q \<in> set ps. p < q) \<and> positions n ps"
  by (auto simp: positions_def)

lemma positions_eqI: "positions n ps \<Longrightarrow> positions n qs \<Longrightarrow> set ps = set qs \<Longrightarrow> ps = qs"
  by (auto simp: positions_def intro: strict_sorted_equal)

section \<open>Copying between arrays\<close>

text \<open>\<open>memcpy(&dst[off], src, length src)\<close>, for a source that fits.\<close>

definition copy_into :: "'a list \<Rightarrow> nat \<Rightarrow> 'a list \<Rightarrow> 'a list" where
  "copy_into dst off src = take off dst @ src @ drop (off + length src) dst"

lemma length_copy_into [len_simps]:
  "off + length src \<le> length dst \<Longrightarrow> length (copy_into dst off src) = length dst"
  by (simp add: copy_into_def)

lemma copy_into_all: "length src = length dst \<Longrightarrow> copy_into dst 0 src = src"
  by (simp add: copy_into_def)

section \<open>Arrays filled by a loop\<close>

lemma length_fold_writes [simp]: "length (fold (\<lambda>i out. out[f i := g i]) js xs) = length xs"
  by (induction js arbitrary: xs) simp_all

lemma fold_writes_outside: "y \<notin> f ` set js \<Longrightarrow> fold (\<lambda>i out. out[f i := g i]) js xs ! y = xs ! y"
  by (induction js arbitrary: xs) simp_all

lemma fold_writes_nth:
  assumes "distinct (map f js)" "j \<in> set js" "f j < length xs"
  shows "fold (\<lambda>i out. out[f i := g i]) js xs ! f j = g j"
  using assms
proof (induction js arbitrary: xs)
  case (Cons i js)
  show ?case
  proof (cases "j = i")
    case True
    then show ?thesis using Cons.prems fold_writes_outside [of "f i" f js g "xs[f i := g i]"] by simp
  next
    case False
    then show ?thesis using Cons.IH [of "xs[f i := g i]"] Cons.prems by simp
  qed
qed simp

section \<open>Parity of sums\<close>

lemma odd_sum_add:
  "odd (\<Sum>j \<in> A. f j + g j :: nat) \<longleftrightarrow> odd (\<Sum>j \<in> A. f j) \<noteq> odd (\<Sum>j \<in> A. g j)"
  by (simp add: sum.distrib)

lemma odd_sum_cong:
  "(\<And>j. j \<in> A \<Longrightarrow> odd (f j :: nat) = odd (g j)) \<Longrightarrow> odd (\<Sum>j \<in> A. f j) = odd (\<Sum>j \<in> A. g j)"
proof (induction A rule: infinite_finite_induct)
  case (insert x F)
  then have "odd (f x) = odd (g x)" and "odd (sum f F) = odd (sum g F)" by auto
  with insert.hyps show ?case by simp
qed simp_all

lemma sum_lessThan_split: "(\<Sum>j<k + r. f j) = (\<Sum>j<k. f j) + (\<Sum>l<(r::nat). f (k + l) :: nat)"
  by (induction r) simp_all

section \<open>Runs\<close>

text \<open>
  The interface of a component as a set of operations on its state with an invariant every
  operation keeps: the invariant then holds along every sequence of operations.
\<close>

locale run_invariant =
  fixes exec :: "'c \<Rightarrow> 's \<Rightarrow> 's" and inv :: "'s \<Rightarrow> bool"
  assumes keeps: "inv s \<Longrightarrow> inv (exec c s)"
begin

lemma run: "inv s \<Longrightarrow> inv (fold exec cs s)"
  by (induction cs arbitrary: s) (simp_all add: keeps)

lemma run_prefix: "inv s \<Longrightarrow> \<forall>n. inv (fold exec (take n cs) s)"
  by (simp add: run)

end

section \<open>Searching and updating tables\<close>

lemma find_upt_Some: "find P [0..<n] = Some i \<Longrightarrow> i < n \<and> P i"
  by (auto simp: find_Some_iff)

lemma find_upt_None: "find P [0..<n] = None \<longleftrightarrow> (\<forall>i < n. \<not> P i)"
  by (auto simp: find_None_iff)

lemma length_filter_update:
  assumes "i < length xs"
  shows "int (length (filter P (xs[i := x]))) = int (length (filter P xs)) - of_bool (P (xs ! i)) + of_bool (P x)"
proof -
  have xs: "xs = take i xs @ xs ! i # drop (Suc i) xs" using assms by (rule id_take_nth_drop)
  have "length (filter P xs) = length (filter P (take i xs @ xs ! i # drop (Suc i) xs))"
    by (rule arg_cong [where f = "\<lambda>zs. length (filter P zs)"]) (rule xs)
  then show ?thesis using assms by (simp add: upd_conv_take_nth_drop)
qed

lemma map_update_same: "i < length xs \<Longrightarrow> f x = f (xs ! i) \<Longrightarrow> map f (xs[i := x]) = map f xs"
  by (metis list_update_id map_update)

end
