(* ===== verification/Syndrome_Code.thy ===== *)
theory Syndrome_Code
  imports Prelude
begin

text \<open>
  Syndrome decoding as \<open>fec.c\<close> does it, for any parity check matrix. The matrix is the flat
  array of the source (\<open>H[n * row + column]\<close>), the syndrome is the number whose most
  significant bit is the parity of row 0, and the correction tables are indexed by it.

  The locale \<open>syndrome_code\<close> holds what a 0/1 matrix alone gives: the syndrome of a word
  with flipped bits is the syndrome of the word xor the columns of the flipped positions.
  The locale \<open>systematic_code\<close> adds the shape \<open>[A | I]\<close> of every matrix of the source and
  a minimum distance, checked by the executable \<open>min_distance\<close>, and derives that error
  patterns of few bits have different syndromes. The locale \<open>correcting_code\<close> is the
  contract the decoders offer to their clients.
\<close>

section \<open>Syndrome computation\<close>

definition row_parity :: "nat \<Rightarrow> nat list \<Rightarrow> nat \<Rightarrow> bit_array \<Rightarrow> nat" where
  "row_parity n H i rx = (\<Sum>j\<leftarrow>[0..<n]. rx ! j * H ! (n * i + j)) mod 2"

definition syndrome_index :: "nat \<Rightarrow> nat \<Rightarrow> nat list \<Rightarrow> bit_array \<Rightarrow> nat" where
  "syndrome_index n r H rx = (\<Sum>i\<leftarrow>[0..<r]. push_bit (r - 1 - i) (row_parity n H i rx))"

text \<open>The syndrome of a set of message columns, as the table initialisers compute it.\<close>

definition pattern_index :: "nat \<Rightarrow> nat \<Rightarrow> nat list \<Rightarrow> nat list \<Rightarrow> nat" where
  "pattern_index n r H ps =
     (\<Sum>i\<leftarrow>[0..<r]. push_bit (r - 1 - i) ((\<Sum>p\<leftarrow>ps. H ! (n * i + p)) mod 2))"

definition column_index :: "nat \<Rightarrow> nat \<Rightarrow> nat list \<Rightarrow> nat \<Rightarrow> nat" where
  "column_index n r H p = (\<Sum>i\<leftarrow>[0..<r]. push_bit (r - 1 - i) (H ! (n * i + p)))"

lemma bit_double_add: "b < 2 \<Longrightarrow> bit (2 * a + b :: nat) q \<longleftrightarrow> (if q = 0 then b = 1 else bit a (q - 1))"
proof -
  assume "b < 2"
  then consider "b = 0" | "b = 1" by linarith
  then show ?thesis
    by cases (cases q; simp add: bit_0 bit_Suc)+
qed

lemma sum_push_bit_Suc:
  "(\<Sum>i\<leftarrow>[0..<Suc r]. push_bit (Suc r - 1 - i) (f i)) =
     2 * (\<Sum>i\<leftarrow>[0..<r]. push_bit (r - 1 - i) (f i)) + (f r :: nat)"
proof -
  have "(\<Sum>i\<leftarrow>[0..<r]. push_bit (r - i) (f i)) = (\<Sum>i\<leftarrow>[0..<r]. 2 * push_bit (r - 1 - i) (f i))"
  proof (rule arg_cong [where f = sum_list], rule map_cong [OF refl])
    fix i assume "i \<in> set [0..<r]"
    then have "r - i = Suc (r - 1 - i)" by auto
    then show "push_bit (r - i) (f i) = 2 * push_bit (r - 1 - i) (f i)"
      by (simp add: push_bit_eq_mult)
  qed
  then show ?thesis by (simp add: sum_list_const_mult)
qed

lemma bit_sum_push_bit:
  "(\<And>i. i < r \<Longrightarrow> f i < 2) \<Longrightarrow>
     bit (\<Sum>i\<leftarrow>[0..<r]. push_bit (r - 1 - i) (f i) :: nat) q \<longleftrightarrow> q < r \<and> f (r - 1 - q) = 1"
proof (induction r arbitrary: q)
  case 0
  show ?case by simp
next
  case (Suc r)
  from Suc.prems have "f r < 2" by simp
  moreover have "\<And>q. bit (\<Sum>i\<leftarrow>[0..<r]. push_bit (r - 1 - i) (f i)) q \<longleftrightarrow> q < r \<and> f (r - 1 - q) = 1"
    using Suc by simp
  ultimately show ?case
    unfolding sum_push_bit_Suc by (cases q) (auto simp: bit_double_add)
qed

lemma bit_syndrome_index: "bit (syndrome_index n r H rx) q \<longleftrightarrow> q < r \<and> row_parity n H (r - 1 - q) rx = 1"
  unfolding syndrome_index_def by (rule bit_sum_push_bit) (simp add: row_parity_def)

lemma bit_pattern_index:
  "bit (pattern_index n r H ps) q \<longleftrightarrow> q < r \<and> odd (\<Sum>p\<leftarrow>ps. H ! (n * (r - 1 - q) + p))"
  unfolding pattern_index_def odd_iff_mod_2_eq_one by (rule bit_sum_push_bit) simp

lemma index_less_power: "(\<And>q. bit s q \<Longrightarrow> q < r) \<Longrightarrow> (s :: nat) < 2 ^ r"
proof -
  assume "\<And>q. bit s q \<Longrightarrow> q < r"
  then have "take_bit r s = s"
    by (auto intro!: bit_eqI simp: bit_take_bit_iff)
  then show ?thesis by (simp add: take_bit_nat_eq_self_iff)
qed

lemma syndrome_index_less: "syndrome_index n r H rx < 2 ^ r"
  by (rule index_less_power) (simp add: bit_syndrome_index)

lemma pattern_index_less: "pattern_index n r H ps < 2 ^ r"
  by (rule index_less_power) (simp add: bit_pattern_index)

lemma pattern_index_Nil [simp]: "pattern_index n r H [] = 0"
  by (rule bit_eqI) (simp add: bit_pattern_index)

lemma row_parity_odd: "row_parity n H i rx = 1 \<longleftrightarrow> odd (\<Sum>j<n. rx ! j * H ! (n * i + j))"
  by (simp add: row_parity_def odd_iff_mod_2_eq_one interv_sum_list_conv_sum_set_nat
      atLeast0LessThan)

lemma syndrome_index_cong:
  "(\<And>j. j < n \<Longrightarrow> rx ! j = ry ! j) \<Longrightarrow> syndrome_index n r H rx = syndrome_index n r H ry"
  by (rule bit_eqI) (auto simp: bit_syndrome_index row_parity_odd simp del: One_nat_def)

section \<open>The effect of flipped bits\<close>

lemma row_parity_flip_at:
  assumes "bits rx" "length rx = n" "p < n"
  shows "row_parity n H i (flip_at p rx) = 1 \<longleftrightarrow> (row_parity n H i rx = 1) \<noteq> odd (H ! (n * i + p))"
proof -
  have "odd (\<Sum>j<n. flip_at p rx ! j * H ! (n * i + j)) =
      odd (\<Sum>j<n. rx ! j * H ! (n * i + j) + (if j = p then H ! (n * i + j) else 0))"
    using assms by (intro odd_sum_cong) (auto simp: nth_flip_at even_xor_iff simp del: One_nat_def)
  also have "\<dots> \<longleftrightarrow> odd (\<Sum>j<n. rx ! j * H ! (n * i + j)) \<noteq> odd (H ! (n * i + p))"
    using \<open>p < n\<close> by (simp only: odd_sum_add sum.delta finite_lessThan lessThan_iff if_True)
  finally show ?thesis by (simp only: row_parity_odd)
qed

lemma syndrome_index_flips:
  assumes "bits rx" "length rx = n" "\<forall>p \<in> set ps. p < n"
  shows "syndrome_index n r H (flips ps rx) = syndrome_index n r H rx XOR pattern_index n r H ps"
  using assms
proof (induction ps arbitrary: rx)
  case Nil
  show ?case by simp
next
  case (Cons p ps)
  have "syndrome_index n r H (flips (p # ps) rx) =
      syndrome_index n r H (flip_at p rx) XOR pattern_index n r H ps"
    using Cons by simp
  also have "\<dots> = syndrome_index n r H rx XOR pattern_index n r H (p # ps)"
    using Cons.prems
    by (intro bit_eqI)
      (auto simp: bit_xor_iff bit_syndrome_index bit_pattern_index row_parity_flip_at
        simp del: One_nat_def)
  finally show ?case .
qed

lemma pattern_index_append:
  "pattern_index n r H (ps @ qs) = pattern_index n r H ps XOR pattern_index n r H qs"
  by (rule bit_eqI) (auto simp: bit_xor_iff bit_pattern_index)

lemma column_index_pattern:
  "(\<And>i. i < r \<Longrightarrow> H ! (n * i + p) < 2) \<Longrightarrow> column_index n r H p = pattern_index n r H [p]"
  unfolding column_index_def pattern_index_def
  by (intro arg_cong [where f = sum_list] map_cong refl) (simp add: atLeast_upt)

section \<open>Minimum distance, executable\<close>

text \<open>
  \<open>min_distance gs d\<close> enumerates the non-zero combinations of the message columns \<open>gs\<close> and
  checks that the number of columns used plus the weight of their sum is at least \<open>d\<close>;
  an enumeration branch stops as soon as enough columns are in use.
\<close>

fun xor_bools :: "bool list \<Rightarrow> bool list \<Rightarrow> bool list" where
  "xor_bools (a # as) (b # bs) = (a \<noteq> b) # xor_bools as bs"
| "xor_bools as bs = []"

fun weight_ge :: "bool list \<Rightarrow> nat \<Rightarrow> bool" where
  "weight_ge v 0 = True"
| "weight_ge [] (Suc w) = False"
| "weight_ge (x # v) (Suc w) = (if x then weight_ge v w else weight_ge v (Suc w))"

fun distance_ge :: "bool list list \<Rightarrow> nat \<Rightarrow> bool list \<Rightarrow> bool" where
  "distance_ge gs 0 v = True"
| "distance_ge [] (Suc w) v = weight_ge v (Suc w)"
| "distance_ge (g # gs) (Suc w) v = (distance_ge gs (Suc w) v \<and> distance_ge gs w (xor_bools v g))"

fun min_distance :: "bool list list \<Rightarrow> nat \<Rightarrow> bool" where
  "min_distance [] d = True"
| "min_distance (g # gs) d = (distance_ge gs (d - 1) g \<and> min_distance gs d)"

fun combine :: "bool list \<Rightarrow> bool list list \<Rightarrow> bool list \<Rightarrow> bool list" where
  "combine (b # m) (g # gs) v = combine m gs (if b then xor_bools v g else v)"
| "combine m gs v = v"

abbreviation weight :: "bool list \<Rightarrow> nat" where
  "weight v \<equiv> length (filter (\<lambda>x. x) v)"

lemma length_xor_bools [simp, len_simps]: "length (xor_bools as bs) = min (length as) (length bs)"
  by (induction as bs rule: xor_bools.induct) auto

lemma nth_xor_bools: "i < length as \<Longrightarrow> i < length bs \<Longrightarrow> xor_bools as bs ! i = (as ! i \<noteq> bs ! i)"
  by (induction as bs arbitrary: i rule: xor_bools.induct) (auto simp: nth_Cons')

lemma xor_bools_zero: "length g = r \<Longrightarrow> xor_bools (replicate r False) g = g"
  by (rule nth_equalityI) (auto simp: nth_xor_bools)

lemma weight_ge_weight: "weight_ge v w \<Longrightarrow> w \<le> weight v"
  by (induction v w rule: weight_ge.induct) (auto split: if_splits)

lemma distance_ge_weight:
  "distance_ge gs w v \<Longrightarrow> length m = length gs \<Longrightarrow> w \<le> weight m + weight (combine m gs v)"
proof (induction gs w v arbitrary: m rule: distance_ge.induct)
  case (1 gs v)
  show ?case by simp
next
  case (2 w v)
  then show ?case by (auto dest: weight_ge_weight)
next
  case (3 g gs w v)
  then obtain b m' where m: "m = b # m'" "length m' = length gs" by (cases m) auto
  show ?case
    using 3(1) [of m'] 3(2) [of m'] 3(3) m by (cases b) auto
qed

lemma min_distance_weight:
  "min_distance gs d \<Longrightarrow> length m = length gs \<Longrightarrow> \<forall>g \<in> set gs. length g = r \<Longrightarrow> True \<in> set m \<Longrightarrow>
     d \<le> weight m + weight (combine m gs (replicate r False))"
proof (induction gs d arbitrary: m rule: min_distance.induct)
  case (1 d)
  then show ?case by simp
next
  case (2 g gs d)
  then obtain b m' where m: "m = b # m'" "length m' = length gs" by (cases m) auto
  show ?case
  proof (cases b)
    case True
    from 2 m have "d - 1 \<le> weight m' + weight (combine m' gs g)"
      by (auto intro!: distance_ge_weight)
    with True m 2(4) show ?thesis by (simp add: xor_bools_zero)
  next
    case False
    with 2 m show ?thesis by auto
  qed
qed

lemma length_combine [len_simps]:
  "\<forall>g \<in> set gs. length g = r \<Longrightarrow> length v = r \<Longrightarrow> length (combine m gs v) = r"
  by (induction m gs v rule: combine.induct) auto

lemma combine_nth:
  "length m = length gs \<Longrightarrow> \<forall>g \<in> set gs. length g = r \<Longrightarrow> length v = r \<Longrightarrow> i < r \<Longrightarrow>
     combine m gs v ! i = (v ! i \<noteq> odd (\<Sum>j<length gs. of_bool (m ! j \<and> gs ! j ! i) :: nat))"
proof (induction m gs v rule: combine.induct)
  case (1 b m g gs v)
  have "length (if b then xor_bools v g else v) = r" using 1(3,4) by simp
  then have "combine m gs (if b then xor_bools v g else v) ! i =
        ((if b then xor_bools v g else v) ! i \<noteq> odd (\<Sum>j<length gs. of_bool (m ! j \<and> gs ! j ! i) :: nat))"
    using 1 by simp
  moreover have "(if b then xor_bools v g else v) ! i = (v ! i \<noteq> (b \<and> g ! i))"
    using 1(3-5) by (simp add: nth_xor_bools)
  ultimately show ?case by (auto simp: sum.lessThan_Suc_shift simp del: sum.lessThan_Suc)
qed simp_all

section \<open>Systematic codes\<close>

definition message_columns :: "nat \<Rightarrow> nat \<Rightarrow> nat \<Rightarrow> nat list \<Rightarrow> bool list list" where
  "message_columns n r k H = map (\<lambda>p. map (\<lambda>i. H ! (n * i + p) = 1) [0..<r]) [0..<k]"

definition identity_part :: "nat \<Rightarrow> nat \<Rightarrow> nat \<Rightarrow> nat list \<Rightarrow> bool" where
  "identity_part n r k H \<longleftrightarrow>
     (\<forall>i \<in> set [0..<r]. \<forall>l \<in> set [0..<r]. H ! (n * i + (k + l)) = (if l = i then 1 else 0))"

definition codeword :: "nat \<Rightarrow> nat \<Rightarrow> nat list \<Rightarrow> bit_array \<Rightarrow> bool" where
  "codeword n r H c \<longleftrightarrow> length c = n \<and> bits c \<and> syndrome_index n r H c = 0"

lemma syndrome_of_errors:
  "codeword n r H c \<Longrightarrow> \<forall>p \<in> set ps. p < n \<Longrightarrow>
     syndrome_index n r H (flips ps c) = pattern_index n r H ps"
  by (simp add: codeword_def syndrome_index_flips)

lemma odd_pattern_sum:
  assumes "positions n ps"
  shows "odd (\<Sum>p\<leftarrow>ps. h p :: nat) \<longleftrightarrow> odd (\<Sum>j<n. if j \<in> set ps then h j else 0)"
proof -
  have "(\<Sum>p\<leftarrow>ps. h p) = (\<Sum>p \<in> set ps. h p)"
    using assms positions_distinct by (auto intro: sum_list_distinct_conv_sum_set)
  also have "\<dots> = (\<Sum>j<n. if j \<in> set ps then h j else 0)"
    using assms by (auto simp: positions_def intro!: sum.mono_neutral_cong_left)
  finally show ?thesis by simp
qed

text \<open>
  Parameters: block length \<open>n\<close>, check bits \<open>r\<close>, message bits \<open>k\<close>, the matrix and its
  minimum distance \<open>d\<close>.
\<close>

locale systematic_code =
  fixes n r k :: nat and H :: "nat list" and d :: nat
  assumes n_eq: "n = k + r"
    and H_len: "length H = n * r" and H_bits: "bits H"
    and ident: "identity_part n r k H"
    and dist: "min_distance (message_columns n r k H) d"
begin

lemma H_entry: "i < r \<Longrightarrow> p < n \<Longrightarrow> H ! (n * i + p) < 2"
proof -
  assume "i < r" "p < n"
  then have "n * i + p < n * Suc i" by simp
  also have "\<dots> \<le> n * r" using \<open>i < r\<close> by (intro mult_le_mono2) simp
  finally show ?thesis using H_bits by (simp add: bits_nth H_len)
qed

lemma parity_column: "i < r \<Longrightarrow> l < r \<Longrightarrow> H ! (n * i + (k + l)) = (if l = i then 1 else 0)"
  using ident by (auto simp: identity_part_def)

lemma column_index_eq: "p < n \<Longrightarrow> column_index n r H p = pattern_index n r H [p]"
  by (rule column_index_pattern) (simp add: H_entry)

lemma pattern_index_parity: "l < r \<Longrightarrow> pattern_index n r H [k + l] = push_bit (r - 1 - l) 1"
  by (rule bit_eqI) (auto simp: bit_pattern_index parity_column bit_push_bit_iff bit_exp_iff)

text \<open>A set of positions whose columns sum to zero is empty or has at least \<open>d\<close> elements.\<close>

lemma zero_sum_small:
  fixes E :: "nat set"
  assumes E: "E \<subseteq> {..<n}" and small: "card E < d"
    and zero: "\<And>i. i < r \<Longrightarrow> even (\<Sum>j<n. if j \<in> E then H ! (n * i + j) else 0)"
  shows "E = {}"
proof -
  define m where "m = map (\<lambda>j. j \<in> E) [0..<k]"
  define gs where "gs = message_columns n r k H"
  define v where "v = combine m gs (replicate r False)"
  have len: "length m = length gs" "length gs = k" "\<forall>g \<in> set gs. length g = r"
    by (auto simp: m_def gs_def message_columns_def)
  have lenv: "length v = r"
    using len(3) by (simp add: v_def length_combine)
  have odd_msg: "odd (\<Sum>j<k. if j \<in> E then H ! (n * i + j) else 0) \<longleftrightarrow> k + i \<in> E" if "i < r" for i
  proof -
    have "(\<Sum>j<n. if j \<in> E then H ! (n * i + j) else 0) =
        (\<Sum>j<k. if j \<in> E then H ! (n * i + j) else 0) +
        (\<Sum>l<r. if k + l \<in> E then H ! (n * i + (k + l)) else 0)"
      unfolding n_eq by (rule sum_lessThan_split)
    also have "(\<Sum>l<r. if k + l \<in> E then H ! (n * i + (k + l)) else 0) = (\<Sum>l<r. if l = i then of_bool (k + i \<in> E) else 0)"
      using that by (intro sum.cong) (auto simp: parity_column)
    also have "\<dots> = of_bool (k + i \<in> E)" using that by simp
    finally show ?thesis using zero [OF that] by (auto split: if_splits)
  qed
  have v_nth: "v ! i \<longleftrightarrow> k + i \<in> E" if "i < r" for i
  proof -
    have "v ! i \<longleftrightarrow> odd (\<Sum>j<k. of_bool (m ! j \<and> gs ! j ! i) :: nat)"
      using combine_nth [OF len(1,3), of "replicate r False" i] that len(2) by (simp add: v_def)
    also have "\<dots> \<longleftrightarrow> odd (\<Sum>j<k. if j \<in> E then H ! (n * i + j) else 0)"
    proof (rule odd_sum_cong)
      fix j assume "j \<in> {..<k}"
      then have "H ! (n * i + j) < 2" using that by (intro H_entry) (simp_all add: n_eq)
      with \<open>j \<in> {..<k}\<close> that show "odd (of_bool (m ! j \<and> gs ! j ! i) :: nat) =
          odd (if j \<in> E then H ! (n * i + j) else 0)"
        by (auto simp: m_def gs_def message_columns_def less_2_cases_iff)
    qed
    finally show ?thesis by (simp add: odd_msg that)
  qed
  have "weight m = card (E \<inter> {..<k})"
    by (auto simp: m_def length_filter_conv_card intro!: arg_cong [where f = card])
  moreover have "weight v = card (E \<inter> {k..<n})"
  proof -
    have "weight v = card {i. i < r \<and> k + i \<in> E}"
      by (auto simp: length_filter_conv_card lenv v_nth intro!: arg_cong [where f = card])
    also have "\<dots> = card ((+) k ` {i. i < r \<and> k + i \<in> E})"
      by (simp add: card_image)
    also have "(+) k ` {i. i < r \<and> k + i \<in> E} = E \<inter> {k..<n}"
      by (auto simp: n_eq image_iff) (metis add_less_cancel_left le_add_diff_inverse)
    finally show ?thesis .
  qed
  moreover have "card (E \<inter> {..<k}) + card (E \<inter> {k..<n}) = card E"
  proof -
    have "E = (E \<inter> {..<k}) \<union> (E \<inter> {k..<n})" using E by auto
    moreover have "(E \<inter> {..<k}) \<inter> (E \<inter> {k..<n}) = {}" by auto
    moreover have "finite E" using E finite_subset by blast
    ultimately show ?thesis by (metis card_Un_disjoint finite_Int)
  qed
  ultimately have "True \<notin> set m"
    using min_distance_weight [OF dist [folded gs_def] len(1,3)] small by (auto simp: v_def)
  then have msg: "j \<notin> E" if "j < k" for j
    using that by (auto simp: m_def)
  then have "k + i \<notin> E" if "i < r" for i
    using odd_msg [OF that] by simp
  with msg E show ?thesis
    by (auto simp: n_eq subset_iff) (metis add_less_cancel_left le_add_diff_inverse not_less)
qed

theorem pattern_unique:
  assumes ps: "positions n ps" and qs: "positions n qs"
    and small: "length ps + length qs < d"
    and eq: "pattern_index n r H ps = pattern_index n r H qs"
  shows "ps = qs"
proof -
  define E where "E = (set ps - set qs) \<union> (set qs - set ps)"
  have "E \<subseteq> {..<n}" using ps qs by (auto simp: E_def positions_def)
  moreover have "card E \<le> length ps + length qs"
  proof -
    have "card E \<le> card (set ps) + card (set qs)"
      unfolding E_def by (rule order_trans [OF card_Un_le])
        (simp add: add_mono card_mono)
    then show ?thesis using card_length [of ps] card_length [of qs] by linarith
  qed
  moreover have "even (\<Sum>j<n. if j \<in> E then H ! (n * i + j) else 0)" if "i < r" for i
  proof -
    let ?h = "\<lambda>S j. if j \<in> S then H ! (n * i + j) else 0"
    have "bit (pattern_index n r H ps) (r - 1 - i) = bit (pattern_index n r H qs) (r - 1 - i)"
      using eq by simp
    then have "odd (\<Sum>j<n. ?h (set ps) j) = odd (\<Sum>j<n. ?h (set qs) j)"
      using that by (simp add: bit_pattern_index odd_pattern_sum [OF ps] odd_pattern_sum [OF qs])
    then have "even (\<Sum>j<n. ?h (set ps) j + ?h (set qs) j)"
      by (simp add: sum.distrib)
    moreover have "odd (\<Sum>j<n. ?h (set ps) j + ?h (set qs) j) = odd (\<Sum>j<n. ?h E j)"
      by (rule odd_sum_cong) (auto simp: E_def)
    ultimately show ?thesis by blast
  qed
  ultimately have "E = {}" using small by (intro zero_sum_small) auto
  then have "set ps = set qs" by (auto simp: E_def)
  with ps qs show ?thesis by (rule positions_eqI)
qed

end

section \<open>The contract of a block decoder\<close>

text \<open>
  What a client of a block code may rely on: an in-place decoder over blocks of \<open>n\<close> bits
  restores a codeword that was hit by at most \<open>t\<close> bit errors and reports success.
\<close>

locale correcting_code =
  fixes n t :: nat and cw :: "bit_array \<Rightarrow> bool" and decode :: "bit_array \<Rightarrow> bool \<times> bit_array"
  assumes cw_len: "cw c \<Longrightarrow> length c = n" and cw_bits: "cw c \<Longrightarrow> bits c"
    and corrects: "cw c \<Longrightarrow> positions n ps \<Longrightarrow> length ps \<le> t \<Longrightarrow> decode (flips ps c) = (True, c)"
begin

lemma decode_clean: "cw c \<Longrightarrow> decode c = (True, c)"
  using corrects [of c "[]"] by simp

text \<open>Balls of radius \<open>t\<close> around two codewords do not meet: decoding is unambiguous.\<close>

lemma unambiguous:
  assumes "cw c" "cw c'" "positions n ps" "positions n qs" "length ps \<le> t" "length qs \<le> t"
    and "flips ps c = flips qs c'"
  shows "c = c'"
  using corrects [OF assms(1,3,5)] corrects [OF assms(2,4,6)] assms(7) by simp

end

end
