(* ===== verification/Hamming.thy ===== *)
theory Hamming
  imports Syndrome_Code
begin

text \<open>
  The Hamming codes of \<open>src/fec/fec.c\<close>: (7,4), (12,8), (13,9), (15,11) and (16,11,4), with
  their parity check matrices, the correction tables the \<open>*_init\<close> functions build and the
  decoders. A correction table is an argument of the decoder that uses it, since the source
  keeps it in a static array that \<open>InitAllFecFunction\<close> fills.

  The block decoders take \<open>nbCodewords\<close> blocks from one buffer. (13,9), (15,11) and
  (16,11,4) stop at the first uncorrectable block and leave the output unwritten from there
  on, and their output pointer may be null (\<open>None\<close>); (12,8) goes on and copies the
  information bits of an uncorrectable block as received.
\<close>

section \<open>Matrices and correction tables\<close>

definition Hamming_7_4_m_H :: "nat list" where
  "Hamming_7_4_m_H =
    [1, 1, 1, 0, 1, 0, 0,
     0, 1, 1, 1, 0, 1, 0,
     1, 1, 0, 1, 0, 0, 1]"

definition Hamming_7_4_init :: "nat list" where
  "Hamming_7_4_init =
    (replicate 8 0xFF)
      [5 := 0, 7 := 1, 6 := 2, 3 := 3, 4 := 4, 2 := 5, 1 := 6]"

definition Hamming_12_8_m_H :: "nat list" where
  "Hamming_12_8_m_H =
    [1, 0, 1, 0, 1, 1, 0, 0, 1, 0, 0, 0,
     1, 1, 0, 1, 0, 1, 1, 0, 0, 1, 0, 0,
     1, 1, 1, 0, 1, 0, 1, 1, 0, 0, 1, 0,
     0, 1, 0, 1, 1, 0, 0, 1, 0, 0, 0, 1]"

definition Hamming_12_8_init :: "nat list" where
  "Hamming_12_8_init =
    (replicate 16 0xFF)
      [14 := 0, 7 := 1, 10 := 2, 5 := 3, 11 := 4, 12 := 5, 6 := 6, 3 := 7,
       8 := 8, 4 := 9, 2 := 10, 1 := 11]"

definition Hamming_13_9_m_H :: "nat list" where
  "Hamming_13_9_m_H =
    [1, 1, 0, 1, 0, 1, 1, 0, 0, 1, 0, 0, 0,
     1, 1, 1, 0, 1, 0, 1, 1, 0, 0, 1, 0, 0,
     1, 1, 1, 1, 0, 1, 0, 1, 1, 0, 0, 1, 0,
     1, 0, 1, 0, 1, 1, 0, 0, 1, 0, 0, 0, 1]"

definition Hamming_13_9_init :: "nat list" where
  "Hamming_13_9_init =
    (replicate 16 0xFF)
      [15 := 0, 14 := 1, 7 := 2, 10 := 3, 5 := 4, 11 := 5, 12 := 6, 6 := 7,
       3 := 8, 8 := 9, 4 := 10, 2 := 11, 1 := 12]"

definition Hamming_15_11_m_H :: "nat list" where
  "Hamming_15_11_m_H =
    [1, 1, 1, 1, 0, 1, 0, 1, 1, 0, 0, 1, 0, 0, 0,
     0, 1, 1, 1, 1, 0, 1, 0, 1, 1, 0, 0, 1, 0, 0,
     0, 0, 1, 1, 1, 1, 0, 1, 0, 1, 1, 0, 0, 1, 0,
     1, 1, 1, 0, 1, 0, 1, 1, 0, 0, 1, 0, 0, 0, 1]"

definition Hamming_15_11_init :: "nat list" where
  "Hamming_15_11_init =
    (replicate 16 0xFF)
      [9 := 0, 13 := 1, 15 := 2, 14 := 3, 7 := 4, 10 := 5, 5 := 6, 11 := 7,
       12 := 8, 6 := 9, 3 := 10, 8 := 11, 4 := 12, 2 := 13, 1 := 14]"

definition Hamming_16_11_4_m_H :: "nat list" where
  "Hamming_16_11_4_m_H =
    [1, 1, 1, 1, 0, 1, 0, 1, 1, 0, 0, 1, 0, 0, 0, 0,
     0, 1, 1, 1, 1, 0, 1, 0, 1, 1, 0, 0, 1, 0, 0, 0,
     0, 0, 1, 1, 1, 1, 0, 1, 0, 1, 1, 0, 0, 1, 0, 0,
     1, 1, 1, 0, 1, 0, 1, 1, 0, 0, 1, 0, 0, 0, 1, 0,
     1, 0, 1, 0, 0, 1, 1, 0, 1, 1, 1, 0, 0, 0, 0, 1]"

definition Hamming_16_11_4_init :: "nat list" where
  "Hamming_16_11_4_init =
    (replicate 32 0xFF)
      [19 := 0, 26 := 1, 31 := 2, 28 := 3, 14 := 4, 21 := 5, 11 := 6, 22 := 7,
       25 := 8, 13 := 9, 7 := 10, 16 := 11, 8 := 12, 4 := 13, 2 := 14, 1 := 15]"

section \<open>Decoders\<close>

text \<open>The correction of one word in place, common to all five decoders.\<close>

definition correct_word :: "nat \<Rightarrow> nat \<Rightarrow> nat list \<Rightarrow> nat list \<Rightarrow> bit_array \<Rightarrow> bool \<times> bit_array" where
  "correct_word n r H corr rx =
     (let s = syndrome_index n r H rx
      in if s > 0 then if corr ! s = 0xFF then (False, rx) else (True, flip_at (corr ! s) rx)
         else (True, rx))"

definition Hamming_7_4_decode :: "nat list \<Rightarrow> bit_array \<Rightarrow> bool \<times> bit_array" where
  "Hamming_7_4_decode corr rxBits =
     (let syndromeI = syndrome_index 7 3 Hamming_7_4_m_H rxBits
      in if syndromeI > 0
         then if corr ! syndromeI = 0xFF then (False, rxBits)
              else (True, flip_at (corr ! syndromeI) rxBits)
         else (True, rxBits))"

text \<open>
  The loop over \<open>ic\<close> of the decoders that stop at an uncorrectable block; the number of
  blocks still to do is the recursion argument.
\<close>

primrec block_loop_break ::
  "nat \<Rightarrow> nat \<Rightarrow> nat \<Rightarrow> nat list \<Rightarrow> nat list \<Rightarrow> nat \<Rightarrow> nat \<Rightarrow> bit_array \<Rightarrow> bit_array option
     \<Rightarrow> bool \<times> bit_array \<times> bit_array option" where
  "block_loop_break n r k H corr 0 ic rxBits decodedBits = (True, rxBits, decodedBits)"
| "block_loop_break n r k H corr (Suc todo) ic rxBits decodedBits =
     (let syndromeI = syndrome_index n r H (drop (n * ic) rxBits)
      in if syndromeI > 0 \<and> corr ! syndromeI = 0xFF then (False, rxBits, decodedBits)
         else let rx = (if syndromeI > 0 then flip_at (n * ic + corr ! syndromeI) rxBits else rxBits)
              in block_loop_break n r k H corr todo (Suc ic) rx
                   (map_option (\<lambda>out. copy_into out (k * ic) (take k (drop (n * ic) rx))) decodedBits))"

primrec block_loop_continue ::
  "nat \<Rightarrow> nat \<Rightarrow> nat \<Rightarrow> nat list \<Rightarrow> nat list \<Rightarrow> nat \<Rightarrow> nat \<Rightarrow> bool \<Rightarrow> bit_array \<Rightarrow> bit_array
     \<Rightarrow> bool \<times> bit_array \<times> bit_array" where
  "block_loop_continue n r k H corr 0 ic correctable rxBits decodedBits = (correctable, rxBits, decodedBits)"
| "block_loop_continue n r k H corr (Suc todo) ic correctable rxBits decodedBits =
     (let syndromeI = syndrome_index n r H (drop (n * ic) rxBits);
          bad = (syndromeI > 0 \<and> corr ! syndromeI = 0xFF);
          rx = (if syndromeI > 0 \<and> \<not> bad then flip_at (n * ic + corr ! syndromeI) rxBits else rxBits)
      in block_loop_continue n r k H corr todo (Suc ic) (correctable \<and> \<not> bad) rx
           (copy_into decodedBits (k * ic) (take k (drop (n * ic) rx))))"

definition Hamming_12_8_decode :: "nat list \<Rightarrow> bit_array \<Rightarrow> bit_array \<Rightarrow> int \<Rightarrow> bool \<times> bit_array \<times> bit_array" where
  "Hamming_12_8_decode corr rxBits decodedBits nbCodewords =
     block_loop_continue 12 4 8 Hamming_12_8_m_H corr (nat nbCodewords) 0 True rxBits decodedBits"

definition Hamming_13_9_decode ::
  "nat list \<Rightarrow> bit_array \<Rightarrow> bit_array option \<Rightarrow> int \<Rightarrow> bool \<times> bit_array \<times> bit_array option" where
  "Hamming_13_9_decode corr rxBits decodedBits nbCodewords =
     block_loop_break 13 4 9 Hamming_13_9_m_H corr (nat nbCodewords) 0 rxBits decodedBits"

definition Hamming_15_11_decode ::
  "nat list \<Rightarrow> bit_array \<Rightarrow> bit_array option \<Rightarrow> int \<Rightarrow> bool \<times> bit_array \<times> bit_array option" where
  "Hamming_15_11_decode corr rxBits decodedBits nbCodewords =
     block_loop_break 15 4 11 Hamming_15_11_m_H corr (nat nbCodewords) 0 rxBits decodedBits"

definition Hamming_16_11_4_decode ::
  "nat list \<Rightarrow> bit_array \<Rightarrow> bit_array option \<Rightarrow> int \<Rightarrow> bool \<times> bit_array \<times> bit_array option" where
  "Hamming_16_11_4_decode corr rxBits decodedBits nbCodewords =
     block_loop_break 16 5 11 Hamming_16_11_4_m_H corr (nat nbCodewords) 0 rxBits decodedBits"

section \<open>Single error correction\<close>

definition table_complete :: "nat \<Rightarrow> nat \<Rightarrow> nat list \<Rightarrow> nat list \<Rightarrow> bool" where
  "table_complete n r H corr \<longleftrightarrow>
     (\<forall>p \<in> set [0..<n]. 0 < pattern_index n r H [p] \<and> corr ! pattern_index n r H [p] = p)"

definition table_sound :: "nat \<Rightarrow> nat \<Rightarrow> nat list \<Rightarrow> nat list \<Rightarrow> bool" where
  "table_sound n r H corr \<longleftrightarrow>
     (\<forall>s \<in> set [1..<2 ^ r]. corr ! s = 0xFF \<or> (corr ! s < n \<and> pattern_index n r H [corr ! s] = s))"

text \<open>
  A correction table that lists every column of its matrix (complete) and nothing else
  (sound).
\<close>

locale hamming_code =
  fixes n r k :: nat and H corr :: "nat list"
  assumes small: "n < 0xFF" and k_le: "k \<le> n"
    and complete: "table_complete n r H corr" and sound: "table_sound n r H corr"
begin

lemma entry_complete: "p < n \<Longrightarrow> 0 < pattern_index n r H [p] \<and> corr ! pattern_index n r H [p] = p"
  using complete by (simp add: table_complete_def)

lemma entry_sound:
  "0 < s \<Longrightarrow> s < 2 ^ r \<Longrightarrow> corr ! s \<noteq> 0xFF \<Longrightarrow> corr ! s < n \<and> pattern_index n r H [corr ! s] = s"
  using sound by (auto simp: table_sound_def)

lemma correct_word_errors:
  assumes "codeword n r H c" "positions n ps" "length ps \<le> 1"
  shows "correct_word n r H corr (flips ps c) = (True, c)"
proof (cases ps)
  case Nil
  with assms show ?thesis by (simp add: correct_word_def codeword_def Let_def)
next
  case (Cons p qs)
  with assms have ps: "ps = [p]" and p: "p < n" by (auto simp: positions_def)
  with assms have "syndrome_index n r H (flips ps c) = pattern_index n r H [p]"
    using syndrome_of_errors [of n r H c "[p]"] by simp
  with entry_complete [OF p] p small ps show ?thesis by (simp add: correct_word_def Let_def)
qed

text \<open>Whatever the decoder accepts has a zero syndrome: it never reports success on a non-codeword.\<close>

lemma correct_word_accepts:
  assumes "bits rx" "length rx = n" "correct_word n r H corr rx = (True, c)"
  shows "codeword n r H c"
proof (cases "syndrome_index n r H rx = 0")
  case True
  with assms show ?thesis by (simp add: correct_word_def codeword_def Let_def)
next
  case False
  let ?s = "syndrome_index n r H rx"
  from False assms(3) have ok: "corr ! ?s \<noteq> 0xFF" and c: "c = flip_at (corr ! ?s) rx"
    by (auto simp: correct_word_def Let_def split: if_splits)
  from False ok have "corr ! ?s < n" "pattern_index n r H [corr ! ?s] = ?s"
    using entry_sound [of ?s] syndrome_index_less by auto
  with assms c syndrome_index_flips [of rx n "[corr ! ?s]" r H] show ?thesis
    by (simp add: codeword_def)
qed

sublocale correcting_code n 1 "codeword n r H" "correct_word n r H corr"
  using correct_word_errors by unfold_locales (simp_all add: codeword_def)

lemma syndrome_index_append: "length xs = n \<Longrightarrow> syndrome_index n r H (xs @ ys) = syndrome_index n r H xs"
  by (rule syndrome_index_cong) (simp add: nth_append)

lemma flip_at_middle:
  "p < length xs \<Longrightarrow> flip_at (length pre + p) (pre @ xs @ post) = pre @ flip_at p xs @ post"
  by (simp add: flip_at_def nth_append list_update_append)

text \<open>One turn of the loop corrects one block and copies its information bits.\<close>

lemma block_loop_break_step:
  assumes "syndrome_index n r H (drop (n * ic) rx) = s" "\<not> (s > 0 \<and> corr ! s = 0xFF)"
    and "(if s > 0 then flip_at (n * ic + corr ! s) rx else rx) = rx'"
    and "copy_into out (k * ic) (take k (drop (n * ic) rx')) = out'"
  shows "block_loop_break n r k H corr (Suc todo) ic rx (Some out) =
    block_loop_break n r k H corr todo (Suc ic) rx' (Some out')"
  using assms(2,4) unfolding block_loop_break.simps Let_def assms(1,3) by auto

lemma block_loop_corrects:
  assumes "\<forall>(c, ps) \<in> set es. codeword n r H c \<and> positions n ps \<and> length ps \<le> 1"
    and "length pre = n * ic" "length opre = k * ic" "length blk = k * length es"
  shows "block_loop_break n r k H corr (length es) ic
           (pre @ concat (map (\<lambda>(c, ps). flips ps c) es) @ post) (Some (opre @ blk @ opost)) =
         (True, pre @ concat (map fst es) @ post,
          Some (opre @ concat (map (\<lambda>(c, ps). take k c) es) @ opost))"
  using assms
proof (induction es arbitrary: ic pre opre blk)
  case Nil
  then show ?case by simp
next
  case (Cons e es)
  obtain c ps where e: "e = (c, ps)" by (cases e)
  from Cons.prems(1) e have cw: "codeword n r H c" "positions n ps" "length ps \<le> 1" by auto
  then have len: "length c = n" by (simp add: codeword_def)
  let ?rest = "concat (map (\<lambda>(c, ps). flips ps c) es) @ post"
  let ?s = "syndrome_index n r H (flips ps c)"
  have s: "syndrome_index n r H (drop (n * ic) (pre @ flips ps c @ ?rest)) = ?s"
    using Cons.prems(2) len by (simp add: syndrome_index_append)
  from correct_word_errors [OF cw] have ok: "\<not> (?s > 0 \<and> corr ! ?s = 0xFF)"
    and fl: "(if ?s > 0 then flip_at (corr ! ?s) (flips ps c) else flips ps c) = c"
    by (auto simp: correct_word_def Let_def split: if_splits)
  have "?s > 0 \<Longrightarrow> corr ! ?s < n"
    using entry_sound [of ?s] ok syndrome_index_less by auto
  then have rx: "(if ?s > 0 then flip_at (n * ic + corr ! ?s) (pre @ flips ps c @ ?rest)
      else pre @ flips ps c @ ?rest) = pre @ c @ ?rest"
    using fl len Cons.prems(2) flip_at_middle [of "corr ! ?s" "flips ps c" pre ?rest]
    by (auto split: if_splits)
  obtain b1 b2 where blk: "blk = b1 @ b2" "length b1 = k" "length b2 = k * length es"
    using Cons.prems(4) that [of "take k blk" "drop k blk"] by simp
  have out: "copy_into (opre @ blk @ opost) (k * ic) (take k (drop (n * ic) (pre @ c @ ?rest))) =
      (opre @ take k c) @ b2 @ opost"
    using Cons.prems(2,3) blk len k_le by (simp add: copy_into_def)
  have "block_loop_break n r k H corr (length es) (Suc ic) ((pre @ c) @ ?rest)
      (Some ((opre @ take k c) @ b2 @ opost)) =
    (True, (pre @ c) @ concat (map fst es) @ post,
     Some ((opre @ take k c) @ concat (map (\<lambda>(c, ps). take k c) es) @ opost))"
    using Cons.prems blk len k_le by (intro Cons.IH) (auto simp: e)
  with block_loop_break_step [OF s ok rx out] show ?case by (simp add: e)
qed

text \<open>A block whose syndrome is not in the table ends the loop with failure and without output.\<close>

lemma block_loop_uncorrectable:
  assumes "length rx = n" "syndrome_index n r H rx = s" "0 < s" "corr ! s = 0xFF"
  shows "block_loop_break n r k H corr (Suc todo) 0 rx out = (False, rx, out)"
  using assms by simp

end

section \<open>The codes of the source\<close>

lemmas hamming_matrices [table_simps] =
  Hamming_7_4_m_H_def Hamming_12_8_m_H_def Hamming_13_9_m_H_def Hamming_15_11_m_H_def Hamming_16_11_4_m_H_def

lemmas hamming_tables [table_simps] =
  Hamming_7_4_init_def Hamming_12_8_init_def Hamming_13_9_init_def Hamming_15_11_init_def Hamming_16_11_4_init_def

lemma Hamming_7_4_table:
  "table_complete 7 3 Hamming_7_4_m_H Hamming_7_4_init" "table_sound 7 3 Hamming_7_4_m_H Hamming_7_4_init"
  by code_simp+

interpretation h7: hamming_code 7 3 4 Hamming_7_4_m_H Hamming_7_4_init
  by unfold_locales (simp_all add: Hamming_7_4_table)

lemma Hamming_12_8_table:
  "table_complete 12 4 Hamming_12_8_m_H Hamming_12_8_init" "table_sound 12 4 Hamming_12_8_m_H Hamming_12_8_init"
  by code_simp+

interpretation h12: hamming_code 12 4 8 Hamming_12_8_m_H Hamming_12_8_init
  by unfold_locales (simp_all add: Hamming_12_8_table)

lemma Hamming_13_9_table:
  "table_complete 13 4 Hamming_13_9_m_H Hamming_13_9_init" "table_sound 13 4 Hamming_13_9_m_H Hamming_13_9_init"
  by code_simp+

interpretation h13: hamming_code 13 4 9 Hamming_13_9_m_H Hamming_13_9_init
  by unfold_locales (simp_all add: Hamming_13_9_table)

lemma Hamming_15_11_table:
  "table_complete 15 4 Hamming_15_11_m_H Hamming_15_11_init" "table_sound 15 4 Hamming_15_11_m_H Hamming_15_11_init"
  by code_simp+

interpretation h15: hamming_code 15 4 11 Hamming_15_11_m_H Hamming_15_11_init
  by unfold_locales (simp_all add: Hamming_15_11_table)

lemma Hamming_16_11_4_table:
  "table_complete 16 5 Hamming_16_11_4_m_H Hamming_16_11_4_init" "table_sound 16 5 Hamming_16_11_4_m_H Hamming_16_11_4_init"
  by code_simp+

interpretation h16: hamming_code 16 5 11 Hamming_16_11_4_m_H Hamming_16_11_4_init
  by unfold_locales (simp_all add: Hamming_16_11_4_table)

lemma Hamming_7_4_decode_eq: "Hamming_7_4_decode corr = correct_word 7 3 Hamming_7_4_m_H corr"
  by (rule ext) (simp add: Hamming_7_4_decode_def correct_word_def)

lemma loop_continue_from_break:
  "block_loop_break n r k H corr todo ic rx (Some out) = (True, rx', Some out') \<Longrightarrow>
     block_loop_continue n r k H corr todo ic True rx out = (True, rx', out')"
  by (induction todo arbitrary: ic rx out) (auto simp: Let_def split: if_splits)

section \<open>Properties\<close>

text \<open>
  The (7,4) decoder, on the table its initialiser builds, accepts every seven-bit word,
  turns it into a codeword and changes at most one bit: the code is perfect, and a codeword
  with one flipped bit is restored.
\<close>

lemma Hamming_7_4_nearest:
  assumes "bits rx" "length rx = 7"
  shows "\<exists>c ps. Hamming_7_4_decode Hamming_7_4_init rx = (True, c)
      \<and> codeword 7 3 Hamming_7_4_m_H c \<and> positions 7 ps \<and> length ps \<le> 1 \<and> rx = flips ps c"
proof -
  let ?s = "syndrome_index 7 3 Hamming_7_4_m_H rx"
  have all: "\<forall>s \<in> set [1..<8]. Hamming_7_4_init ! s \<noteq> 0xFF \<and> Hamming_7_4_init ! s < 7" by code_simp
  have range: "?s < 8" using syndrome_index_less [of 7 3] by simp
  obtain c where c: "Hamming_7_4_decode Hamming_7_4_init rx = (True, c)"
      "rx = c \<or> (\<exists>p < 7. rx = flip_at p c)"
  proof (cases "?s = 0")
    case True
    then show ?thesis by (intro that [of rx]) (simp_all add: Hamming_7_4_decode_def)
  next
    case False
    with all range have "Hamming_7_4_init ! ?s \<noteq> 0xFF" "Hamming_7_4_init ! ?s < 7" by auto
    with False show ?thesis
      by (intro that [of "flip_at (Hamming_7_4_init ! ?s) rx"])
        (auto simp: Hamming_7_4_decode_def Let_def)
  qed
  moreover from c(1) have "codeword 7 3 Hamming_7_4_m_H c"
    using assms by (simp add: Hamming_7_4_decode_eq h7.correct_word_accepts)
  moreover from c(2) have "\<exists>ps. positions 7 ps \<and> length ps \<le> 1 \<and> rx = flips ps c"
    by (metis flips.simps le_numeral_extra(4) length_Cons list.size(3) One_nat_def
        positions_Nil positions_single zero_le)
  ultimately show ?thesis by blast
qed

text \<open>
  The (13,9) block decoder restores every block of a buffer in which each block is a
  codeword with at most one flipped bit, writes the nine information bits of each block to
  the output in order, leaves what follows both buffers alone and reports success.
\<close>

lemma Hamming_13_9_blocks:
  assumes "\<forall>(c, ps) \<in> set es. codeword 13 4 Hamming_13_9_m_H c \<and> positions 13 ps \<and> length ps \<le> 1"
    and "length blk = 9 * length es"
  shows "Hamming_13_9_decode Hamming_13_9_init (concat (map (\<lambda>(c, ps). flips ps c) es) @ post)
           (Some (blk @ opost)) (int (length es)) =
         (True, concat (map fst es) @ post, Some (concat (map (\<lambda>(c, ps). take 9 c) es) @ opost))"
  using h13.block_loop_corrects [of es "[]" 0 "[]" blk post opost] assms
  by (simp add: Hamming_13_9_decode_def)

text \<open>
  The (16,11,4) decoder detects every double error: a codeword with two flipped bits is
  rejected, and neither the received word nor the output is touched.
\<close>

lemma Hamming_16_11_4_pairs:
  "\<forall>p \<in> set [0..<16]. \<forall>q \<in> set [p+1..<16].
     0 < pattern_index 16 5 Hamming_16_11_4_m_H [p, q] \<and>
     Hamming_16_11_4_init ! pattern_index 16 5 Hamming_16_11_4_m_H [p, q] = 0xFF"
  by code_simp

lemma Hamming_16_11_4_double_error:
  assumes "codeword 16 5 Hamming_16_11_4_m_H c" "p < q" "q < 16"
  shows "Hamming_16_11_4_decode Hamming_16_11_4_init (flips [p, q] c) out 1 = (False, flips [p, q] c, out)"
proof -
  from assms have len: "length c = 16" by (simp add: codeword_def)
  from assms have "syndrome_index 16 5 Hamming_16_11_4_m_H (flips [p, q] c) =
      pattern_index 16 5 Hamming_16_11_4_m_H [p, q]"
    by (intro syndrome_of_errors) auto
  moreover from assms Hamming_16_11_4_pairs
  have "0 < pattern_index 16 5 Hamming_16_11_4_m_H [p, q]"
    "Hamming_16_11_4_init ! pattern_index 16 5 Hamming_16_11_4_m_H [p, q] = 0xFF" by auto
  ultimately show ?thesis
    using len h16.block_loop_uncorrectable [of "flips [p, q] c" _ 0 out]
    by (simp add: Hamming_16_11_4_decode_def del: block_loop_break.simps)
qed

end
