(* ===== verification/Golay.thy ===== *)
theory Golay
  imports Syndrome_Code
begin

text \<open>
  The codes of \<open>src/fec/fec.c\<close> that correct several bits: Golay (20,8), extended Golay
  (24,12) and the quadratic residue code (16,7,6). Their initialisers enumerate the error
  patterns of up to three (two) bits in nested loops and store each pattern in the row of
  its syndrome; a later pattern overwrites an earlier one. The decoders flip the bits
  listed in the row of the received syndrome up to the first free entry (\<open>0xFF\<close>).
\<close>

section \<open>Matrices\<close>

definition Golay_20_8_m_H :: "nat list" where
  "Golay_20_8_m_H =
    [0, 1, 0, 0, 1, 1, 1, 1, 1, 0, 0, 0, 0, 0, 0, 0, 0, 0, 0, 0,
     0, 1, 1, 0, 1, 0, 0, 0, 0, 1, 0, 0, 0, 0, 0, 0, 0, 0, 0, 0,
     1, 0, 1, 1, 0, 1, 0, 0, 0, 0, 1, 0, 0, 0, 0, 0, 0, 0, 0, 0,
     1, 1, 0, 1, 1, 0, 1, 0, 0, 0, 0, 1, 0, 0, 0, 0, 0, 0, 0, 0,
     1, 1, 1, 0, 1, 1, 0, 1, 0, 0, 0, 0, 1, 0, 0, 0, 0, 0, 0, 0,
     1, 0, 1, 1, 1, 0, 0, 1, 0, 0, 0, 0, 0, 1, 0, 0, 0, 0, 0, 0,
     0, 0, 0, 1, 0, 0, 1, 1, 0, 0, 0, 0, 0, 0, 1, 0, 0, 0, 0, 0,
     1, 1, 0, 0, 0, 1, 1, 0, 0, 0, 0, 0, 0, 0, 0, 1, 0, 0, 0, 0,
     1, 1, 1, 0, 0, 0, 1, 1, 0, 0, 0, 0, 0, 0, 0, 0, 1, 0, 0, 0,
     0, 0, 1, 1, 1, 1, 1, 0, 0, 0, 0, 0, 0, 0, 0, 0, 0, 1, 0, 0,
     1, 0, 0, 1, 1, 1, 1, 1, 0, 0, 0, 0, 0, 0, 0, 0, 0, 0, 1, 0,
     0, 1, 1, 1, 0, 1, 0, 1, 0, 0, 0, 0, 0, 0, 0, 0, 0, 0, 0, 1]"

definition Golay_24_12_m_G :: "nat list" where
  "Golay_24_12_m_G =
    [1, 0, 0, 0, 0, 0, 0, 0, 0, 0, 0, 0, 1, 1, 0, 0, 0, 1, 1, 1, 0, 1, 0, 1,
     0, 1, 0, 0, 0, 0, 0, 0, 0, 0, 0, 0, 0, 1, 1, 0, 0, 0, 1, 1, 1, 0, 1, 1,
     0, 0, 1, 0, 0, 0, 0, 0, 0, 0, 0, 0, 1, 1, 1, 1, 0, 1, 1, 0, 1, 0, 0, 0,
     0, 0, 0, 1, 0, 0, 0, 0, 0, 0, 0, 0, 0, 1, 1, 1, 1, 0, 1, 1, 0, 1, 0, 0,
     0, 0, 0, 0, 1, 0, 0, 0, 0, 0, 0, 0, 0, 0, 1, 1, 1, 1, 0, 1, 1, 0, 1, 0,
     0, 0, 0, 0, 0, 1, 0, 0, 0, 0, 0, 0, 1, 1, 0, 1, 1, 0, 0, 1, 1, 0, 0, 1,
     0, 0, 0, 0, 0, 0, 1, 0, 0, 0, 0, 0, 0, 1, 1, 0, 1, 1, 0, 0, 1, 1, 0, 1,
     0, 0, 0, 0, 0, 0, 0, 1, 0, 0, 0, 0, 0, 0, 1, 1, 0, 1, 1, 0, 0, 1, 1, 1,
     0, 0, 0, 0, 0, 0, 0, 0, 1, 0, 0, 0, 1, 1, 0, 1, 1, 1, 0, 0, 0, 1, 1, 0,
     0, 0, 0, 0, 0, 0, 0, 0, 0, 1, 0, 0, 1, 0, 1, 0, 1, 0, 0, 1, 0, 1, 1, 1,
     0, 0, 0, 0, 0, 0, 0, 0, 0, 0, 1, 0, 1, 0, 0, 1, 0, 0, 1, 1, 1, 1, 1, 0,
     0, 0, 0, 0, 0, 0, 0, 0, 0, 0, 0, 1, 1, 0, 0, 0, 1, 1, 1, 0, 1, 0, 1, 1]"

definition Golay_24_12_m_H :: "nat list" where
  "Golay_24_12_m_H =
    [1, 0, 1, 0, 0, 1, 0, 0, 1, 1, 1, 1, 1, 0, 0, 0, 0, 0, 0, 0, 0, 0, 0, 0,
     1, 1, 1, 1, 0, 1, 1, 0, 1, 0, 0, 0, 0, 1, 0, 0, 0, 0, 0, 0, 0, 0, 0, 0,
     0, 1, 1, 1, 1, 0, 1, 1, 0, 1, 0, 0, 0, 0, 1, 0, 0, 0, 0, 0, 0, 0, 0, 0,
     0, 0, 1, 1, 1, 1, 0, 1, 1, 0, 1, 0, 0, 0, 0, 1, 0, 0, 0, 0, 0, 0, 0, 0,
     0, 0, 0, 1, 1, 1, 1, 0, 1, 1, 0, 1, 0, 0, 0, 0, 1, 0, 0, 0, 0, 0, 0, 0,
     1, 0, 1, 0, 1, 0, 1, 1, 1, 0, 0, 1, 0, 0, 0, 0, 0, 1, 0, 0, 0, 0, 0, 0,
     1, 1, 1, 1, 0, 0, 0, 1, 0, 0, 1, 1, 0, 0, 0, 0, 0, 0, 1, 0, 0, 0, 0, 0,
     1, 1, 0, 1, 1, 1, 0, 0, 0, 1, 1, 0, 0, 0, 0, 0, 0, 0, 0, 1, 0, 0, 0, 0,
     0, 1, 1, 0, 1, 1, 1, 0, 0, 0, 1, 1, 0, 0, 0, 0, 0, 0, 0, 0, 1, 0, 0, 0,
     1, 0, 0, 1, 0, 0, 1, 1, 1, 1, 1, 0, 0, 0, 0, 0, 0, 0, 0, 0, 0, 1, 0, 0,
     0, 1, 0, 0, 1, 0, 0, 1, 1, 1, 1, 1, 0, 0, 0, 0, 0, 0, 0, 0, 0, 0, 1, 0,
     1, 1, 0, 0, 0, 1, 1, 1, 0, 1, 0, 1, 0, 0, 0, 0, 0, 0, 0, 0, 0, 0, 0, 1]"

definition QR_16_7_6_m_H :: "nat list" where
  "QR_16_7_6_m_H =
    [0, 1, 1, 1, 1, 0, 0, 1, 0, 0, 0, 0, 0, 0, 0, 0,
     0, 0, 1, 1, 1, 1, 0, 0, 1, 0, 0, 0, 0, 0, 0, 0,
     1, 0, 0, 1, 1, 1, 1, 0, 0, 1, 0, 0, 0, 0, 0, 0,
     0, 0, 1, 1, 0, 1, 1, 0, 0, 0, 1, 0, 0, 0, 0, 0,
     0, 1, 1, 0, 0, 0, 1, 0, 0, 0, 0, 1, 0, 0, 0, 0,
     1, 1, 0, 0, 1, 0, 0, 0, 0, 0, 0, 0, 1, 0, 0, 0,
     1, 1, 1, 0, 0, 1, 0, 0, 0, 0, 0, 0, 0, 1, 0, 0,
     1, 1, 1, 1, 0, 0, 1, 0, 0, 0, 0, 0, 0, 0, 1, 0,
     1, 0, 1, 0, 1, 1, 1, 0, 0, 0, 0, 0, 0, 0, 0, 1]"

lemmas golay_matrices [table_simps] =
  Golay_20_8_m_H_def Golay_24_12_m_G_def Golay_24_12_m_H_def QR_16_7_6_m_H_def

section \<open>Correction tables\<close>

text \<open>Writing the first entries of a row: \<open>corr[s][0] = p0; corr[s][1] = p1; ...\<close>\<close>

definition set_row :: "nat \<Rightarrow> nat list \<Rightarrow> nat list list \<Rightarrow> nat list list" where
  "set_row s ps corr = corr[s := ps @ drop (length ps) (corr ! s)]"

text \<open>
  \<open>Golay_20_8_init\<close> and \<open>Golay_24_12_init\<close> are the same loops over different matrices;
  \<open>k\<close> is the number of message bits and there are twelve check bits.
\<close>

definition golay_loops :: "nat \<Rightarrow> nat \<Rightarrow> nat list \<Rightarrow> nat list list \<Rightarrow> nat list list" where
  "golay_loops n k H corr0 =
     (let corr1 =
        fold (\<lambda>i1 corr.
          let corr =
                fold (\<lambda>i2 corr.
                  let corr =
                        fold (\<lambda>i3 corr. set_row (pattern_index n 12 H [i1, i2, i3]) [i1, i2, i3] corr)
                          [i2 + 1..<k] corr;
                      syndromeI = pattern_index n 12 H [i1, i2];
                      corr = set_row syndromeI [i1, i2] corr
                  in fold (\<lambda>ip corr. set_row (syndromeI XOR push_bit (11 - ip) 1) [i1, i2, k + ip] corr)
                       [0..<12] corr)
                  [i1 + 1..<k] corr;
              syndromeI = column_index n 12 H i1;
              corr = set_row syndromeI [i1] corr
          in fold (\<lambda>ip1 corr.
               let syndromeIP1 = syndromeI XOR push_bit (11 - ip1) 1;
                   corr = set_row syndromeIP1 [i1, k + ip1] corr
               in fold (\<lambda>ip2 corr. set_row (syndromeIP1 XOR push_bit (11 - ip2) 1) [i1, k + ip1, k + ip2] corr)
                    [ip1 + 1..<12] corr)
               [0..<12] corr)
          [0..<k] corr0
      in fold (\<lambda>ip1 corr.
           let syndromeIP1 = push_bit (11 - ip1) 1;
               corr = set_row syndromeIP1 [k + ip1] corr
           in fold (\<lambda>ip2 corr.
                let syndromeIP2 = syndromeIP1 XOR push_bit (11 - ip2) 1;
                    corr = set_row syndromeIP2 [k + ip1, k + ip2] corr
                in fold (\<lambda>ip3 corr. set_row (syndromeIP2 XOR push_bit (11 - ip3) 1)
                                  [k + ip1, k + ip2, k + ip3] corr)
                     [ip2 + 1..<12] corr)
                [ip1 + 1..<12] corr)
           [0..<12] corr1)"

definition Golay_20_8_init :: "nat list list" where
  "Golay_20_8_init = golay_loops 20 8 Golay_20_8_m_H (replicate 4096 (replicate 3 0xFF))"

definition Golay_24_12_init :: "nat list list" where
  "Golay_24_12_init = golay_loops 24 12 Golay_24_12_m_H (replicate 4096 (replicate 3 0xFF))"

definition QR_16_7_6_init :: "nat list list" where
  "QR_16_7_6_init =
     (let corr1 =
        fold (\<lambda>i1 corr.
          let corr = fold (\<lambda>i2 corr. set_row (pattern_index 16 9 QR_16_7_6_m_H [i1, i2]) [i1, i2] corr)
                       [i1 + 1..<7] corr;
              syndromeI = column_index 16 9 QR_16_7_6_m_H i1;
              corr = set_row syndromeI [i1] corr
          in fold (\<lambda>ip corr. set_row (syndromeI XOR push_bit (8 - ip) 1) [i1, 7 + ip] corr) [0..<9] corr)
          [0..<7] (replicate 512 (replicate 2 0xFF))
      in fold (\<lambda>ip1 corr.
           let syndromeIP1 = push_bit (8 - ip1) 1;
               corr = set_row syndromeIP1 [7 + ip1] corr
           in fold (\<lambda>ip2 corr. set_row (syndromeIP1 XOR push_bit (8 - ip2) 1) [7 + ip1, 7 + ip2] corr)
                [ip1 + 1..<9] corr)
           [0..<9] corr1)"

section \<open>Encoder and decoders\<close>

text \<open>The encoder accumulates in \<open>unsigned char\<close>, so every addition is modulo 256.\<close>

definition Golay_24_12_encode :: "bit_array \<Rightarrow> bit_array" where
  "Golay_24_12_encode origBits =
     map (\<lambda>j. fold (\<lambda>i acc. (acc + origBits ! i * Golay_24_12_m_G ! (24 * i + j)) mod 256) [0..<12] 0 mod 2)
       [0..<24]"

text \<open>
  The loop over the entries of a row: the number of corrections made and the corrected
  word.
\<close>

primrec correction_loop :: "nat list \<Rightarrow> bit_array \<Rightarrow> nat \<times> bit_array" where
  "correction_loop [] rxBits = (0, rxBits)"
| "correction_loop (e # es) rxBits =
     (if e = 0xFF then (0, rxBits)
      else let (i, rx) = correction_loop es (flip_at e rxBits) in (Suc i, rx))"

definition Golay_20_8_decode :: "nat list list \<Rightarrow> bit_array \<Rightarrow> bool \<times> bit_array" where
  "Golay_20_8_decode corr rxBits =
     (let syndromeI = syndrome_index 20 12 Golay_20_8_m_H rxBits
      in if syndromeI > 0
         then let (correction, rx) = correction_loop (corr ! syndromeI) rxBits
              in if correction = 0 then (False, rx)
                 else if correction > 2 then (False, rx)
                 else (True, rx)
         else (True, rxBits))"

definition Golay_24_12_decode :: "nat list list \<Rightarrow> bit_array \<Rightarrow> bool \<times> bit_array" where
  "Golay_24_12_decode corr rxBits =
     (let syndromeI = syndrome_index 24 12 Golay_24_12_m_H rxBits
      in if syndromeI > 0
         then let (i, rx) = correction_loop (corr ! syndromeI) rxBits in (i \<noteq> 0, rx)
         else (True, rxBits))"

definition QR_16_7_6_decode :: "nat list list \<Rightarrow> bit_array \<Rightarrow> bool \<times> bit_array" where
  "QR_16_7_6_decode corr rxBits =
     (let syndromeI = syndrome_index 16 9 QR_16_7_6_m_H rxBits
      in if syndromeI > 0
         then let (i, rx) = correction_loop (corr ! syndromeI) rxBits in (i \<noteq> 0, rx)
         else (True, rxBits))"

section \<open>Tables as sequences of writes\<close>

abbreviation store :: "nat \<times> nat list \<Rightarrow> nat list list \<Rightarrow> nat list list" where
  "store e \<equiv> set_row (fst e) (snd e)"

definition pair_writes :: "nat \<Rightarrow> nat \<Rightarrow> nat list \<Rightarrow> nat \<Rightarrow> nat \<Rightarrow> (nat \<times> nat list) list" where
  "pair_writes n k H i1 i2 =
     map (\<lambda>i3. (pattern_index n 12 H [i1, i2, i3], [i1, i2, i3])) [i2 + 1..<k]
     @ (pattern_index n 12 H [i1, i2], [i1, i2])
     # map (\<lambda>ip. (pattern_index n 12 H [i1, i2] XOR push_bit (11 - ip) 1, [i1, i2, k + ip])) [0..<12]"

definition single_writes :: "nat \<Rightarrow> nat \<Rightarrow> nat list \<Rightarrow> nat \<Rightarrow> (nat \<times> nat list) list" where
  "single_writes n k H i1 =
     (column_index n 12 H i1, [i1])
     # concat (map (\<lambda>ip1.
         (column_index n 12 H i1 XOR push_bit (11 - ip1) 1, [i1, k + ip1])
         # map (\<lambda>ip2. ((column_index n 12 H i1 XOR push_bit (11 - ip1) 1) XOR push_bit (11 - ip2) 1,
                      [i1, k + ip1, k + ip2])) [ip1 + 1..<12])
         [0..<12])"

definition parity_writes :: "nat \<Rightarrow> (nat \<times> nat list) list" where
  "parity_writes k =
     concat (map (\<lambda>ip1.
       (push_bit (11 - ip1) 1, [k + ip1])
       # concat (map (\<lambda>ip2.
           (push_bit (11 - ip1) 1 XOR push_bit (11 - ip2) 1, [k + ip1, k + ip2])
           # map (\<lambda>ip3. ((push_bit (11 - ip1) 1 XOR push_bit (11 - ip2) 1) XOR push_bit (11 - ip3) 1,
                        [k + ip1, k + ip2, k + ip3])) [ip2 + 1..<12])
           [ip1 + 1..<12]))
       [0..<12])"

definition golay_writes :: "nat \<Rightarrow> nat \<Rightarrow> nat list \<Rightarrow> (nat \<times> nat list) list" where
  "golay_writes n k H =
     concat (map (\<lambda>i1. concat (map (pair_writes n k H i1) [i1 + 1..<k]) @ single_writes n k H i1) [0..<k])
     @ parity_writes k"

lemmas write_lists = pair_writes_def single_writes_def parity_writes_def

lemma set_golay_writes:
  "set (golay_writes n k H) =
     (\<Union>i1 < k. (\<Union>i2 \<in> {i1<..<k}. set (pair_writes n k H i1 i2)) \<union> set (single_writes n k H i1))
     \<union> set (parity_writes k)"
  by (simp add: golay_writes_def atLeast0LessThan atLeastSucLessThan_greaterThanLessThan)

lemma golay_writesI:
  "i1 < i2 \<Longrightarrow> i2 < k \<Longrightarrow> e \<in> set (pair_writes n k H i1 i2) \<Longrightarrow> e \<in> set (golay_writes n k H)"
  "i1 < k \<Longrightarrow> e \<in> set (single_writes n k H i1) \<Longrightarrow> e \<in> set (golay_writes n k H)"
  "e \<in> set (parity_writes k) \<Longrightarrow> e \<in> set (golay_writes n k H)"
  by (force simp: set_golay_writes)+

definition qr_writes :: "(nat \<times> nat list) list" where
  "qr_writes =
     concat (map (\<lambda>i1.
       map (\<lambda>i2. (pattern_index 16 9 QR_16_7_6_m_H [i1, i2], [i1, i2])) [i1 + 1..<7]
       @ (column_index 16 9 QR_16_7_6_m_H i1, [i1])
       # map (\<lambda>ip. (column_index 16 9 QR_16_7_6_m_H i1 XOR push_bit (8 - ip) 1, [i1, 7 + ip])) [0..<9])
       [0..<7])
     @ concat (map (\<lambda>ip1.
         (push_bit (8 - ip1) 1, [7 + ip1])
         # map (\<lambda>ip2. (push_bit (8 - ip1) 1 XOR push_bit (8 - ip2) 1, [7 + ip1, 7 + ip2])) [ip1 + 1..<9])
         [0..<9])"

lemma fold_concat_map: "fold f (concat (map g xs)) = fold (\<lambda>x. fold f (g x)) xs"
  by (induction xs) (simp_all add: fun_eq_iff)

lemma golay_loops_writes: "golay_loops n k H = fold store (golay_writes n k H)"
  by (rule ext)
    (simp add: golay_loops_def golay_writes_def write_lists Let_def fold_concat_map fold_map comp_def)

lemma QR_16_7_6_init_writes: "QR_16_7_6_init = fold store qr_writes (replicate 512 (replicate 2 0xFF))"
  by (simp add: QR_16_7_6_init_def qr_writes_def Let_def fold_concat_map fold_map comp_def)

section \<open>What the writes are\<close>

definition writes_sound :: "nat \<Rightarrow> nat \<Rightarrow> nat list \<Rightarrow> nat \<Rightarrow> (nat \<times> nat list) list \<Rightarrow> bool" where
  "writes_sound n r H w ws \<longleftrightarrow>
     (\<forall>(s, ps) \<in> set ws. positions n ps \<and> ps \<noteq> [] \<and> length ps \<le> w \<and> s = pattern_index n r H ps)"

definition writes_complete :: "nat \<Rightarrow> nat \<Rightarrow> nat list \<Rightarrow> nat \<Rightarrow> (nat \<times> nat list) list \<Rightarrow> bool" where
  "writes_complete n r H w ws \<longleftrightarrow>
     (\<forall>ps. positions n ps \<longrightarrow> ps \<noteq> [] \<longrightarrow> length ps \<le> w \<longrightarrow> (pattern_index n r H ps, ps) \<in> set ws)"

lemma short_lists:
  assumes "ps \<noteq> []" "length ps \<le> 3"
  obtains a where "ps = [a]" | a b where "ps = [a, b]" | a b c where "ps = [a, b, c]"
  using assms by (cases ps rule: list.exhaust; cases "tl ps"; cases "tl (tl ps)"; cases "tl (tl (tl ps))") auto

context systematic_code
begin

lemma pattern_index_snoc1:
  "l < r \<Longrightarrow> pattern_index n r H [a, k + l] = pattern_index n r H [a] XOR push_bit (r - 1 - l) 1"
  using pattern_index_append [of n r H "[a]" "[k + l]"] by (simp only: pattern_index_parity append.simps)

lemma pattern_index_snoc2:
  "l < r \<Longrightarrow> pattern_index n r H [a, b, k + l] = pattern_index n r H [a, b] XOR push_bit (r - 1 - l) 1"
  using pattern_index_append [of n r H "[a, b]" "[k + l]"] by (simp only: pattern_index_parity append.simps)

lemma message_position: "i < k \<Longrightarrow> i < n" and parity_position: "l < r \<Longrightarrow> k + l < n"
  by (simp_all add: n_eq)

lemma column_index_snoc:
  "i < k \<Longrightarrow> column_index n r H i = pattern_index n r H [i]"
  by (simp add: column_index_eq message_position)

lemma message_or_parity:
  assumes "p < n"
  obtains "p < k" | l where "p = k + l" "l < r"
  using assms n_eq by (metis add_less_cancel_left le_add_diff_inverse not_less)

lemmas pattern_indices = pattern_index_snoc1 pattern_index_snoc2 pattern_index_parity column_index_snoc

end

text \<open>The Golay loops store exactly the patterns of one, two or three positions.\<close>

locale golay_code = systematic_code n 12 k H d for n k H d
begin

lemmas golay_indices = pattern_indices [simplified]

lemma golay_writes_sound: "writes_sound n 12 H 3 (golay_writes n k H)"
  unfolding writes_sound_def set_golay_writes
  by (auto simp: write_lists positions_Cons golay_indices message_position parity_position)

lemma golay_writes_message:
  assumes "i1 < i2" "i2 < k" "i2 < p" "p < n"
  shows "(pattern_index n 12 H [i1, i2, p], [i1, i2, p]) \<in> set (pair_writes n k H i1 i2)"
  using assms(4)
proof (cases rule: message_or_parity)
  case 1
  with assms show ?thesis by (simp add: pair_writes_def image_iff)
next
  case (2 l)
  with assms show ?thesis by (simp add: pair_writes_def image_iff golay_indices)
qed

lemma golay_writes_1:
  assumes "positions n [a]"
  shows "(pattern_index n 12 H [a], [a]) \<in> set (golay_writes n k H)"
proof -
  from assms have "a < n" by simp
  then show ?thesis
  proof (cases rule: message_or_parity)
    case 1
    then show ?thesis by (intro golay_writesI(2)) (auto simp: single_writes_def golay_indices)
  next
    case (2 l)
    then show ?thesis by (intro golay_writesI(3)) (force simp: parity_writes_def golay_indices)
  qed
qed

lemma golay_writes_2:
  assumes "positions n [a, b]"
  shows "(pattern_index n 12 H [a, b], [a, b]) \<in> set (golay_writes n k H)"
proof -
  from assms have ab: "a < n" "b < n" "a < b" by (auto simp: positions_Cons)
  show ?thesis
  proof (cases "b < k")
    case True
    with ab show ?thesis by (intro golay_writesI(1) [of a b]) (simp_all add: pair_writes_def)
  next
    case False
    then obtain l where l: "b = k + l" "l < 12" using ab(2) by (elim message_or_parity) auto
    show ?thesis
    proof (cases "a < k")
      case True
      with l show ?thesis
        by (intro golay_writesI(2) [of a]) (auto simp: single_writes_def golay_indices image_iff)
    next
      case False
      then obtain h where "a = k + h" "h < 12" using ab(1) by (elim message_or_parity) auto
      with l ab(3) show ?thesis
        by (intro golay_writesI(3)) (auto simp: parity_writes_def golay_indices image_iff Suc_le_eq)
    qed
  qed
qed

lemma golay_writes_3:
  assumes "positions n [a, b, c]"
  shows "(pattern_index n 12 H [a, b, c], [a, b, c]) \<in> set (golay_writes n k H)"
proof -
  from assms have abc: "a < n" "b < n" "c < n" "a < b" "b < c" by (auto simp: positions_Cons)
  show ?thesis
  proof (cases "b < k")
    case True
    with abc show ?thesis by (intro golay_writesI(1) [of a b] golay_writes_message) simp_all
  next
    case False
    then obtain i where i: "b = k + i" "i < 12" using abc(2) by (elim message_or_parity) auto
    from False abc obtain l where l: "c = k + l" "l < 12" "i < l"
      using abc(3) i by (elim message_or_parity) auto
    show ?thesis
    proof (cases "a < k")
      case True
      with i l show ?thesis
        by (intro golay_writesI(2) [of a])
          (auto simp: single_writes_def golay_indices image_iff Suc_le_eq)
    next
      case False
      then obtain h where "a = k + h" "h < 12" using abc(1) by (elim message_or_parity) auto
      with i l abc(4) show ?thesis
        by (intro golay_writesI(3)) (auto simp: parity_writes_def golay_indices image_iff Suc_le_eq)
    qed
  qed
qed

lemma golay_writes_complete: "writes_complete n 12 H 3 (golay_writes n k H)"
  unfolding writes_complete_def
proof (intro allI impI)
  fix ps :: "nat list"
  assume "positions n ps" "ps \<noteq> []" "length ps \<le> 3"
  then show "(pattern_index n 12 H ps, ps) \<in> set (golay_writes n k H)"
    by (elim short_lists [of ps]) (auto intro: golay_writes_1 golay_writes_2 golay_writes_3)
qed

end

section \<open>Reading a table back\<close>

lemma length_store [len_simps]: "length (fold store ws corr) = length corr"
  by (induction ws arbitrary: corr) (auto simp: set_row_def)

lemma fold_store_other: "\<forall>(s', ps) \<in> set ws. s' \<noteq> s \<Longrightarrow> fold store ws corr ! s = corr ! s"
  by (induction ws arbitrary: corr) (auto simp: set_row_def)

lemma fold_store_kept:
  assumes "\<forall>(s', ps') \<in> set ws. s' = s \<longrightarrow> ps' = ps"
    and "s < length corr" "corr ! s = ps @ rest"
  shows "fold store ws corr ! s = ps @ rest"
  using assms
proof (induction ws arbitrary: corr)
  case (Cons e ws)
  then have "store e corr ! s = ps @ rest"
    by (cases e; cases "fst e = s") (auto simp: set_row_def)
  with Cons show ?case by (auto simp: set_row_def)
qed simp

lemma fold_store_unique:
  assumes "(s, ps) \<in> set ws" "\<forall>(s', ps') \<in> set ws. s' = s \<longrightarrow> ps' = ps"
    and "s < length corr" "corr ! s = replicate w v" "length ps \<le> w"
  shows "fold store ws corr ! s = ps @ replicate (w - length ps) v"
  using assms
proof (induction ws arbitrary: corr)
  case (Cons e ws)
  obtain s' ps' where e: "e = (s', ps')" by (cases e)
  show ?case
  proof (cases "s' = s")
    case True
    with Cons.prems e have row: "set_row s ps corr ! s = ps @ replicate (w - length ps) v"
      by (simp add: set_row_def)
    have "fold store ws (set_row s ps corr) ! s = ps @ replicate (w - length ps) v"
      using Cons.prems row by (intro fold_store_kept) (auto simp: set_row_def)
    with True e Cons.prems(2) show ?thesis by auto
  next
    case False
    with Cons.prems e have "fold store ws (set_row s' ps' corr) ! s = ps @ replicate (w - length ps) v"
      by (intro Cons.IH) (auto simp: set_row_def)
    with e show ?thesis by simp
  qed
qed simp

text \<open>If all patterns stored in a row fill it, the row holds one of them.\<close>

lemma fold_store_full:
  assumes "\<forall>(s', ps') \<in> set ws. s' = s \<longrightarrow> length ps' = w"
    and "s < length corr" "length (corr ! s) = w"
  shows "(\<exists>ps. (s, ps) \<in> set ws \<and> fold store ws corr ! s = ps) \<or>
    (\<forall>ps. (s, ps) \<notin> set ws) \<and> fold store ws corr ! s = corr ! s"
  using assms
proof (induction ws rule: rev_induct)
  case (snoc e ws)
  obtain s' ps' where e: "e = (s', ps')" by (cases e)
  have len: "length (fold store ws corr ! s) = w"
    using snoc by auto
  show ?case
  proof (cases "s' = s")
    case True
    with snoc.prems e len have "fold store (ws @ [e]) corr ! s = ps'"
      by (simp add: set_row_def length_store)
    with True e show ?thesis by auto
  next
    case False
    then have "fold store (ws @ [e]) corr ! s = fold store ws corr ! s"
      by (simp add: e set_row_def)
    with False e snoc show ?thesis by auto
  qed
qed simp

lemma correction_loop_row:
  "\<forall>p \<in> set ps. p < 0xFF \<Longrightarrow> correction_loop (ps @ replicate m 0xFF) rx = (length ps, flips ps rx)"
proof (induction ps arbitrary: rx)
  case Nil
  show ?case by (cases m) simp_all
qed auto

section \<open>Codes with a pattern table\<close>

text \<open>
  \<open>w\<close> is the width of a row, \<open>ws\<close> the writes of the initialiser. Patterns of up to \<open>w\<close>
  positions that the distance keeps apart from every stored pattern own their row.
\<close>

locale pattern_table = systematic_code +
  fixes w :: nat and ws :: "(nat \<times> nat list) list"
  assumes n_byte: "n < 0xFF"
    and ws_sound: "writes_sound n r H w ws" and ws_complete: "writes_complete n r H w ws"
begin

abbreviation corr :: "nat list list" where
  "corr \<equiv> fold store ws (replicate (2 ^ r) (replicate w 0xFF))"

lemma write_pattern:
  "(s, ps) \<in> set ws \<Longrightarrow> positions n ps \<and> ps \<noteq> [] \<and> length ps \<le> w \<and> s = pattern_index n r H ps"
  using ws_sound by (auto simp: writes_sound_def)

lemma row_of_pattern:
  assumes "positions n ps" "ps \<noteq> []" "length ps \<le> w" "length ps + w < d"
  shows "corr ! pattern_index n r H ps = ps @ replicate (w - length ps) 0xFF"
proof (rule fold_store_unique)
  show "(pattern_index n r H ps, ps) \<in> set ws"
    using ws_complete assms by (simp add: writes_complete_def)
  show "\<forall>(s', ps') \<in> set ws. s' = pattern_index n r H ps \<longrightarrow> ps' = ps"
  proof (clarify)
    fix ps' assume "(pattern_index n r H ps, ps') \<in> set ws"
    from write_pattern [OF this] assms show "ps' = ps"
      by (intro pattern_unique) auto
  qed
qed (simp_all add: pattern_index_less assms)

lemma row_absent:
  assumes "positions n ps" "w < length ps" "length ps + w < d"
  shows "corr ! pattern_index n r H ps = replicate w 0xFF"
proof -
  have "\<forall>(s', ps') \<in> set ws. s' \<noteq> pattern_index n r H ps"
  proof (clarify)
    fix ps' assume "(pattern_index n r H ps, ps') \<in> set ws"
    from write_pattern [OF this] assms have "ps' = ps"
      by (intro pattern_unique) auto
    with write_pattern [OF \<open>(pattern_index n r H ps, ps') \<in> set ws\<close>] assms(2) show False by simp
  qed
  then show ?thesis by (simp add: fold_store_other pattern_index_less)
qed

lemma pattern_nonzero:
  assumes "positions n ps" "ps \<noteq> []" "length ps < d"
  shows "0 < pattern_index n r H ps"
proof (rule ccontr)
  assume "\<not> 0 < pattern_index n r H ps"
  then have "ps = []" using assms by (intro pattern_unique [of ps "[]"]) simp_all
  with assms show False by simp
qed

text \<open>A full pattern is stored in its row, or another full pattern of the same syndrome is.\<close>

lemma row_full:
  assumes "positions n ps" "length ps = w" "w \<noteq> 0" "2 * w \<le> d"
  shows "\<exists>qs. corr ! pattern_index n r H ps = qs \<and> length qs = w \<and> (\<forall>q \<in> set qs. q < 0xFF)"
proof -
  let ?s = "pattern_index n r H ps"
  have mem: "(?s, ps) \<in> set ws"
    using ws_complete assms by (auto simp: writes_complete_def)
  have full: "\<forall>(s', ps') \<in> set ws. s' = ?s \<longrightarrow> length ps' = w"
  proof (clarify, rule ccontr)
    fix ps' assume e: "(?s, ps') \<in> set ws" "length ps' \<noteq> w"
    from write_pattern [OF e(1)] e(2) assms have "ps' = ps"
      by (intro pattern_unique) auto
    with e(2) assms(2) show False by simp
  qed
  have "(\<exists>qs. (?s, qs) \<in> set ws \<and> corr ! ?s = qs) \<or>
      (\<forall>qs. (?s, qs) \<notin> set ws) \<and> corr ! ?s = replicate (2 ^ r) (replicate w 0xFF) ! ?s"
    by (rule fold_store_full [OF full]) (simp_all add: pattern_index_less)
  with mem obtain qs where qs: "(?s, qs) \<in> set ws" "corr ! ?s = qs" by blast
  from write_pattern [OF qs(1)] full qs n_byte show ?thesis
    by (fastforce simp: positions_def)
qed

lemma correction_restores:
  assumes "codeword n r H c" "positions n ps" "ps \<noteq> []" "length ps \<le> w" "length ps + w < d"
  shows "correction_loop (corr ! syndrome_index n r H (flips ps c)) (flips ps c) = (length ps, c)"
    and "0 < syndrome_index n r H (flips ps c)"
proof -
  have "\<forall>p \<in> set ps. p < n" using assms by (auto simp: positions_def)
  then have "\<forall>p \<in> set ps. p < 0xFF" using n_byte by auto
  moreover from \<open>\<forall>p \<in> set ps. p < n\<close>
  have s: "syndrome_index n r H (flips ps c) = pattern_index n r H ps"
    using assms by (simp add: syndrome_of_errors)
  ultimately show "correction_loop (corr ! syndrome_index n r H (flips ps c)) (flips ps c) = (length ps, c)"
    using assms by (simp add: row_of_pattern correction_loop_row)
  show "0 < syndrome_index n r H (flips ps c)"
    using s assms by (simp add: pattern_nonzero)
qed

lemma correction_detects:
  assumes "codeword n r H c" "positions n ps" "w < length ps" "length ps + w < d"
  shows "correction_loop (corr ! syndrome_index n r H (flips ps c)) (flips ps c) = (0, flips ps c)"
    and "0 < syndrome_index n r H (flips ps c)"
proof -
  have s: "syndrome_index n r H (flips ps c) = pattern_index n r H ps"
    using assms by (simp add: syndrome_of_errors positions_def)
  then show "correction_loop (corr ! syndrome_index n r H (flips ps c)) (flips ps c) = (0, flips ps c)"
    using assms correction_loop_row [of "[]" w "flips ps c"] by (simp add: row_absent)
  show "0 < syndrome_index n r H (flips ps c)"
    using s assms by (auto intro!: pattern_nonzero)
qed

end

section \<open>The codes of the source\<close>

lemma golay20_checks:
  "length Golay_20_8_m_H = 240" "bits Golay_20_8_m_H" "identity_part 20 12 8 Golay_20_8_m_H"
  "min_distance (message_columns 20 12 8 Golay_20_8_m_H) 6"
  unfolding bits_def by code_simp+

lemma golay24_checks:
  "length Golay_24_12_m_H = 288" "bits Golay_24_12_m_H" "identity_part 24 12 12 Golay_24_12_m_H"
  "min_distance (message_columns 24 12 12 Golay_24_12_m_H) 8"
  unfolding bits_def by code_simp+

lemma qr_checks:
  "length QR_16_7_6_m_H = 144" "bits QR_16_7_6_m_H" "identity_part 16 9 7 QR_16_7_6_m_H"
  "min_distance (message_columns 16 9 7 QR_16_7_6_m_H) 6"
  unfolding bits_def by code_simp+

interpretation g20: golay_code 20 8 Golay_20_8_m_H 6
  by unfold_locales (simp_all add: golay20_checks)

interpretation g24: golay_code 24 12 Golay_24_12_m_H 8
  by unfold_locales (simp_all add: golay24_checks)

interpretation qr: systematic_code 16 9 7 QR_16_7_6_m_H 6
  by unfold_locales (simp_all add: qr_checks)

lemma qr_writes_sound: "writes_sound 16 9 QR_16_7_6_m_H 2 qr_writes"
  unfolding writes_sound_def qr_writes_def
  by (auto simp: positions_Cons qr.pattern_indices [simplified])

lemma qr_writes_complete: "writes_complete 16 9 QR_16_7_6_m_H 2 qr_writes"
  unfolding writes_complete_def
proof (intro allI impI)
  fix ps :: "nat list"
  assume ps: "positions 16 ps" "ps \<noteq> []" "length ps \<le> 2"
  then consider a where "ps = [a]" "a < 16" | a b where "ps = [a, b]" "a < b" "b < 16"
    by (elim short_lists [of ps]) (auto simp: positions_Cons)
  then show "(pattern_index 16 9 QR_16_7_6_m_H ps, ps) \<in> set qr_writes"
  proof cases
    case 1
    from 1(2) show ?thesis
    proof (cases rule: qr.message_or_parity)
      case 1
      with \<open>ps = [a]\<close> show ?thesis
        by (auto simp: qr_writes_def qr.pattern_indices [simplified])
    next
      case (2 l)
      with \<open>ps = [a]\<close> show ?thesis
        by (force simp: qr_writes_def qr.pattern_indices [simplified])
    qed
  next
    case 2
    show ?thesis
    proof (cases "b < 7")
      case True
      with 2 show ?thesis by (auto simp: qr_writes_def image_iff intro!: bexI [of _ a])
    next
      case False
      then obtain l where l: "b = 7 + l" "l < 9" using 2(3) by (elim qr.message_or_parity) auto
      have "a < 16" using 2 by simp
      then show ?thesis
      proof (cases rule: qr.message_or_parity)
        case 1
        with 2 l show ?thesis
          by (auto simp: qr_writes_def image_iff qr.pattern_indices [simplified] intro!: bexI [of _ a])
      next
        case (2 h)
        with \<open>a < b\<close> \<open>ps = [a, b]\<close> l show ?thesis
          by (auto simp: qr_writes_def image_iff qr.pattern_indices [simplified])
      qed
    qed
  qed
qed

interpretation t20: pattern_table 20 12 8 Golay_20_8_m_H 6 3 "golay_writes 20 8 Golay_20_8_m_H"
  by unfold_locales (simp_all add: g20.golay_writes_sound g20.golay_writes_complete)

interpretation t24: pattern_table 24 12 12 Golay_24_12_m_H 8 3 "golay_writes 24 12 Golay_24_12_m_H"
  by unfold_locales (simp_all add: g24.golay_writes_sound g24.golay_writes_complete)

interpretation tqr: pattern_table 16 9 7 QR_16_7_6_m_H 6 2 qr_writes
  by unfold_locales (simp_all add: qr_writes_sound qr_writes_complete)

lemma Golay_20_8_table: "Golay_20_8_init = t20.corr"
  by (simp add: Golay_20_8_init_def golay_loops_writes)

lemma Golay_24_12_table: "Golay_24_12_init = t24.corr"
  by (simp add: Golay_24_12_init_def golay_loops_writes)

lemma QR_16_7_6_table: "QR_16_7_6_init = tqr.corr"
  by (simp add: QR_16_7_6_init_writes)

lemma Golay_24_12_corrects:
  assumes "codeword 24 12 Golay_24_12_m_H c" "positions 24 ps" "length ps \<le> 3"
  shows "Golay_24_12_decode Golay_24_12_init (flips ps c) = (True, c)"
proof (cases "ps = []")
  case True
  with assms show ?thesis by (simp add: Golay_24_12_decode_def codeword_def)
next
  case False
  with assms t24.correction_restores [of c ps] show ?thesis
    by (simp add: Golay_24_12_decode_def Golay_24_12_table Let_def)
qed

lemma Golay_20_8_corrects:
  assumes "codeword 20 12 Golay_20_8_m_H c" "positions 20 ps" "length ps \<le> 2"
  shows "Golay_20_8_decode Golay_20_8_init (flips ps c) = (True, c)"
proof (cases "ps = []")
  case True
  with assms show ?thesis by (simp add: Golay_20_8_decode_def codeword_def)
next
  case False
  with assms t20.correction_restores [of c ps] show ?thesis
    by (simp add: Golay_20_8_decode_def Golay_20_8_table Let_def)
qed

lemma QR_16_7_6_corrects:
  assumes "codeword 16 9 QR_16_7_6_m_H c" "positions 16 ps" "length ps \<le> 2"
  shows "QR_16_7_6_decode QR_16_7_6_init (flips ps c) = (True, c)"
proof (cases "ps = []")
  case True
  with assms show ?thesis by (simp add: QR_16_7_6_decode_def codeword_def)
next
  case False
  with assms tqr.correction_restores [of c ps] show ?thesis
    by (simp add: QR_16_7_6_decode_def QR_16_7_6_table Let_def)
qed

interpretation c24: correcting_code 24 3 "codeword 24 12 Golay_24_12_m_H" "Golay_24_12_decode Golay_24_12_init"
  by unfold_locales (auto simp: codeword_def intro: Golay_24_12_corrects [unfolded codeword_def])

interpretation c20: correcting_code 20 2 "codeword 20 12 Golay_20_8_m_H" "Golay_20_8_decode Golay_20_8_init"
  by unfold_locales (auto simp: codeword_def intro: Golay_20_8_corrects [unfolded codeword_def])

interpretation cqr: correcting_code 16 2 "codeword 16 9 QR_16_7_6_m_H" "QR_16_7_6_decode QR_16_7_6_init"
  by unfold_locales (auto simp: codeword_def intro: QR_16_7_6_corrects [unfolded codeword_def])

section \<open>The encoder\<close>

lemma mod_256_add: "(x mod 256 + y) mod 2 = (x + y) mod (2 :: nat)"
proof -
  have "x mod 256 mod 2 = x mod 2" by (simp add: mod_mod_cancel)
  then show ?thesis by (metis mod_add_left_eq)
qed

lemma fold_mod_256: "fold (\<lambda>i acc. (acc + f i) mod 256) xs a mod 2 = (a + (\<Sum>i\<leftarrow>xs. f i)) mod (2 :: nat)"
proof (induction xs arbitrary: a)
  case (Cons x xs)
  then have "fold (\<lambda>i acc. (acc + f i) mod 256) (x # xs) a mod 2 = ((a + f x) mod 256 + (\<Sum>i\<leftarrow>xs. f i)) mod 2"
    by simp
  then show ?case by (simp only: mod_256_add) (simp add: add.assoc)
qed simp

lemma length_encode [simp, len_simps]: "length (Golay_24_12_encode m) = 24"
  by (simp add: Golay_24_12_encode_def)

lemma encode_nth: "j < 24 \<Longrightarrow> Golay_24_12_encode m ! j = (\<Sum>i<12. m ! i * Golay_24_12_m_G ! (24 * i + j)) mod 2"
  by (simp add: Golay_24_12_encode_def fold_mod_256 interv_sum_list_conv_sum_set_nat atLeast0LessThan)

lemma bits_encode [simp]: "bits (Golay_24_12_encode m)"
  by (auto simp: bits_def in_set_conv_nth encode_nth)

text \<open>Rows of a flat matrix, and the parity of a dot product, for kernel evaluation.\<close>

primrec rows_of :: "nat \<Rightarrow> nat \<Rightarrow> nat list \<Rightarrow> nat list list" where
  "rows_of n 0 xs = []"
| "rows_of n (Suc m) xs = take n xs # rows_of n m (drop n xs)"

fun dot_odd :: "nat list \<Rightarrow> nat list \<Rightarrow> bool" where
  "dot_odd (a # as) (b # bs) = ((a = 1 \<and> b = 1) \<noteq> dot_odd as bs)"
| "dot_odd as bs = False"

lemma rows_of_nth: "i < m \<Longrightarrow> length xs = n * m \<Longrightarrow>
    rows_of n m xs ! i = map (\<lambda>j. xs ! (n * i + j)) [0..<n]"
proof (induction m arbitrary: i xs)
  case (Suc m)
  show ?case
  proof (cases i)
    case 0
    with Suc.prems show ?thesis by (auto intro!: nth_equalityI)
  next
    case (Suc i')
    with Suc.prems Suc.IH [of i' "drop n xs"] show ?thesis by (simp add: add.assoc)
  qed
qed simp

lemma length_rows_of [len_simps]: "length (rows_of n m xs) = m"
  by (induction m arbitrary: xs) simp_all

lemma dot_odd_sum:
  "length as = length bs \<Longrightarrow> bits as \<Longrightarrow> bits bs \<Longrightarrow> dot_odd as bs \<longleftrightarrow> odd (\<Sum>j<length as. as ! j * bs ! j)"
proof (induction as bs rule: dot_odd.induct)
  case (1 a as b bs)
  then show ?case
    by (auto simp: sum.lessThan_Suc_shift less_2_cases_iff simp del: sum.lessThan_Suc)
qed simp_all

lemma generator_orthogonal_rows:
  "\<forall>g \<in> set (rows_of 24 12 Golay_24_12_m_G). \<forall>h \<in> set (rows_of 24 12 Golay_24_12_m_H). \<not> dot_odd g h"
  by code_simp

lemma golay_generator: "length Golay_24_12_m_G = 288" "bits Golay_24_12_m_G"
  unfolding bits_def by code_simp+

lemma generator_orthogonal:
  assumes "l < 12" "i < 12"
  shows "even (\<Sum>j<24. Golay_24_12_m_G ! (24 * l + j) * Golay_24_12_m_H ! (24 * i + j))"
proof -
  let ?g = "rows_of 24 12 Golay_24_12_m_G ! l" and ?h = "rows_of 24 12 Golay_24_12_m_H ! i"
  have g: "?g = map (\<lambda>j. Golay_24_12_m_G ! (24 * l + j)) [0..<24]"
    and h: "?h = map (\<lambda>j. Golay_24_12_m_H ! (24 * i + j)) [0..<24]"
    using assms by (simp_all add: rows_of_nth golay_generator golay24_checks)
  have "\<not> dot_odd ?g ?h"
    using generator_orthogonal_rows assms by (simp add: length_rows_of)
  moreover have "bits ?g" "bits ?h"
    unfolding g h using assms golay_generator golay24_checks
    by (auto simp: bits_def)
  ultimately show ?thesis using dot_odd_sum [of ?g ?h] by (simp add: g h)
qed

lemma generator_identity:
  "\<forall>l \<in> set [0..<12]. \<forall>j \<in> set [0..<12]. Golay_24_12_m_G ! (24 * l + j) = (if l = j then 1 else 0)"
  by code_simp

lemma encode_codeword: "codeword 24 12 Golay_24_12_m_H (Golay_24_12_encode m)"
proof -
  have "even (\<Sum>j<24. Golay_24_12_encode m ! j * Golay_24_12_m_H ! (24 * i + j))" if "i < 12" for i
  proof -
    let ?G = "\<lambda>l j. Golay_24_12_m_G ! (24 * l + j)" and ?H = "\<lambda>j. Golay_24_12_m_H ! (24 * i + j)"
    have "odd (\<Sum>j<24. Golay_24_12_encode m ! j * ?H j) = odd (\<Sum>j<24. \<Sum>l<12. m ! l * (?G l j * ?H j))"
      by (rule odd_sum_cong) (simp add: encode_nth flip: sum_distrib_right mult.assoc)
    also have "(\<Sum>j<24. \<Sum>l<12. m ! l * (?G l j * ?H j)) = (\<Sum>l<12. m ! l * (\<Sum>j<24. ?G l j * ?H j))"
      unfolding sum_distrib_left by (rule sum.swap)
    finally show ?thesis
      using generator_orthogonal that by (auto intro!: dvd_sum)
  qed
  then have "syndrome_index 24 12 Golay_24_12_m_H (Golay_24_12_encode m) = 0"
    by (intro bit_eqI) (simp add: bit_syndrome_index row_parity_odd del: One_nat_def)
  then show ?thesis by (simp add: codeword_def)
qed

lemma encode_systematic: "bits m \<Longrightarrow> length m = 12 \<Longrightarrow> take 12 (Golay_24_12_encode m) = m"
proof (rule nth_equalityI)
  fix j assume m: "bits m" "length m = 12" and "j < length (take 12 (Golay_24_12_encode m))"
  then have j: "j < 12" by simp
  have "(\<Sum>i<12. m ! i * Golay_24_12_m_G ! (24 * i + j)) = (\<Sum>i<12. if i = j then m ! i else 0)"
    using generator_identity j by (intro sum.cong) auto
  also have "\<dots> = m ! j" using j by simp
  finally show "take 12 (Golay_24_12_encode m) ! j = m ! j"
    using j m bits_nth [of m j] by (simp add: encode_nth)
qed simp

lemma Golay_20_8_rejects:
  assumes "codeword 20 12 Golay_20_8_m_H c" "positions 20 ps" and three: "length ps = 3"
  shows "\<not> fst (Golay_20_8_decode Golay_20_8_init (flips ps c))"
proof -
  from assms have s: "syndrome_index 20 12 Golay_20_8_m_H (flips ps c) = pattern_index 20 12 Golay_20_8_m_H ps"
    by (intro syndrome_of_errors) (auto simp: positions_def)
  from assms three obtain qs where qs: "t20.corr ! pattern_index 20 12 Golay_20_8_m_H ps = qs"
      "length qs = 3" "\<forall>q \<in> set qs. q < 0xFF"
    using t20.row_full [of ps] by auto
  moreover have "0 < pattern_index 20 12 Golay_20_8_m_H ps"
    using assms three by (intro t20.pattern_nonzero) auto
  ultimately show ?thesis
    using correction_loop_row [of qs 0 "flips ps c"]
    by (simp add: Golay_20_8_decode_def Golay_20_8_table s Let_def)
qed

section \<open>Properties\<close>

text \<open>
  C1. Extended Golay (24,12): whatever twelve message bits are encoded and whichever at most
  three of the twenty-four bits are flipped on the way, the decoder on the table built by
  its initialiser reports success and restores the encoded word, whose first twelve bits
  are the message.
\<close>

theorem Golay_24_12_roundtrip:
  assumes "bits m" "length m = 12" "positions 24 ps" "length ps \<le> 3"
  shows "Golay_24_12_decode Golay_24_12_init (flips ps (Golay_24_12_encode m)) = (True, Golay_24_12_encode m)
    \<and> take 12 (Golay_24_12_encode m) = m"
  using assms by (simp_all add: Golay_24_12_corrects encode_codeword encode_systematic)

theorem Golay_24_12_roundtrip_witness:
  "Golay_24_12_decode Golay_24_12_init (flips [0, 7, 23] (Golay_24_12_encode [1, 0, 1, 1, 0, 0, 1, 0, 1, 1, 1, 0]))
     = (True, Golay_24_12_encode [1, 0, 1, 1, 0, 0, 1, 0, 1, 1, 1, 0])
   \<and> take 12 (Golay_24_12_encode [1, 0, 1, 1, 0, 0, 1, 0, 1, 1, 1, 0]) = [1, 0, 1, 1, 0, 0, 1, 0, 1, 1, 1, 0]"
  by (rule Golay_24_12_roundtrip) (simp_all add: positions_def)

text \<open>
  Four errors in a (24,12) codeword are always detected: the decoder reports failure and
  leaves the received word as it is, so it never miscorrects a four-bit error.
\<close>

lemma Golay_24_12_four_errors:
  assumes "codeword 24 12 Golay_24_12_m_H c" "positions 24 ps" "length ps = 4"
  shows "Golay_24_12_decode Golay_24_12_init (flips ps c) = (False, flips ps c)"
  using assms t24.correction_detects [of c ps]
  by (simp add: Golay_24_12_decode_def Golay_24_12_table Let_def)

text \<open>
  Golay (20,8) as the slot type decoder uses it: up to two errors are corrected, and a
  word with three errors is always rejected, although the table may hold a different
  three-bit pattern for its syndrome.
\<close>

lemma Golay_20_8_two_and_three_errors:
  assumes "codeword 20 12 Golay_20_8_m_H c" "positions 20 ps"
  shows "(length ps \<le> 2 \<longrightarrow> Golay_20_8_decode Golay_20_8_init (flips ps c) = (True, c)) \<and>
    (length ps = 3 \<longrightarrow> \<not> fst (Golay_20_8_decode Golay_20_8_init (flips ps c)))"
  using assms by (auto intro: Golay_20_8_corrects dest: Golay_20_8_rejects)

text \<open>
  The (16,7,6) code of the embedded signalling: up to two errors are corrected, three
  errors are detected and leave the received word unchanged.
\<close>

lemma QR_16_7_6_two_and_three_errors:
  assumes "codeword 16 9 QR_16_7_6_m_H c" "positions 16 ps"
  shows "(length ps \<le> 2 \<longrightarrow> QR_16_7_6_decode QR_16_7_6_init (flips ps c) = (True, c)) \<and>
    (length ps = 3 \<longrightarrow> QR_16_7_6_decode QR_16_7_6_init (flips ps c) = (False, flips ps c))"
  using assms tqr.correction_detects [of c ps]
  by (simp add: QR_16_7_6_corrects) (simp add: QR_16_7_6_decode_def QR_16_7_6_table Let_def)

end
