(* ===== verification/Fec_Tables.thy ===== *)
theory Fec_Tables
  imports Hamming Golay
begin

text \<open>
  The static correction tables of \<open>src/fec/fec.c\<close> as one record and the initialiser
  \<open>InitAllFecFunction\<close> that fills them all. Components above the block codes take the
  record as an argument.
\<close>

record fec_tables =
  Hamming_7_4_m_corr :: "nat list"
  Hamming_12_8_m_corr :: "nat list"
  Hamming_13_9_m_corr :: "nat list"
  Hamming_15_11_m_corr :: "nat list"
  Hamming_16_11_4_m_corr :: "nat list"
  Golay_20_8_m_corr :: "nat list list"
  Golay_24_12_m_corr :: "nat list list"
  QR_16_7_6_m_corr :: "nat list list"

definition InitAllFecFunction :: fec_tables where
  "InitAllFecFunction =
     \<lparr>Hamming_7_4_m_corr = Hamming_7_4_init, Hamming_12_8_m_corr = Hamming_12_8_init,
      Hamming_13_9_m_corr = Hamming_13_9_init, Hamming_15_11_m_corr = Hamming_15_11_init,
      Hamming_16_11_4_m_corr = Hamming_16_11_4_init, Golay_20_8_m_corr = Golay_20_8_init,
      Golay_24_12_m_corr = Golay_24_12_init, QR_16_7_6_m_corr = QR_16_7_6_init\<rparr>"

lemma InitAllFecFunction_simps [simp]:
  "Hamming_7_4_m_corr InitAllFecFunction = Hamming_7_4_init"
  "Hamming_12_8_m_corr InitAllFecFunction = Hamming_12_8_init"
  "Hamming_13_9_m_corr InitAllFecFunction = Hamming_13_9_init"
  "Hamming_15_11_m_corr InitAllFecFunction = Hamming_15_11_init"
  "Hamming_16_11_4_m_corr InitAllFecFunction = Hamming_16_11_4_init"
  "Golay_20_8_m_corr InitAllFecFunction = Golay_20_8_init"
  "Golay_24_12_m_corr InitAllFecFunction = Golay_24_12_init"
  "QR_16_7_6_m_corr InitAllFecFunction = QR_16_7_6_init"
  by (simp_all add: InitAllFecFunction_def)

end
