(* ===== verification/Bptc.thy ===== *)
theory Bptc
  imports Fec_Tables
begin

text \<open>
  The block product turbo codes of \<open>src/fec/bptc.c\<close>. A matrix is a list of rows. Local
  buffers that the C code declares without initialiser (\<open>line_corrected\<close>,
  \<open>col_corrected\<close>, \<open>LineCorrected\<close>) are arguments: a Hamming decoder that fails leaves
  them as they were, so what they hold before a call can matter.
\<close>

section \<open>Index tables\<close>

definition BPTCDeInterleavingIndex :: "nat list" where
  "BPTCDeInterleavingIndex =
    [0, 13, 26, 39, 52, 65, 78, 91, 104, 117, 130, 143, 156, 169, 182, 195,
     12, 25, 38, 51, 64, 77, 90, 103, 116, 129, 142, 155, 168, 181, 194, 11,
     24, 37, 50, 63, 76, 89, 102, 115, 128, 141, 154, 167, 180, 193, 10, 23,
     36, 49, 62, 75, 88, 101, 114, 127, 140, 153, 166, 179, 192, 9, 22, 35,
     48, 61, 74, 87, 100, 113, 126, 139, 152, 165, 178, 191, 8, 21, 34, 47,
     60, 73, 86, 99, 112, 125, 138, 151, 164, 177, 190, 7, 20, 33, 46, 59,
     72, 85, 98, 111, 124, 137, 150, 163, 176, 189, 6, 19, 32, 45, 58, 71,
     84, 97, 110, 123, 136, 149, 162, 175, 188, 5, 18, 31, 44, 57, 70, 83,
     96, 109, 122, 135, 148, 161, 174, 187, 4, 17, 30, 43, 56, 69, 82, 95,
     108, 121, 134, 147, 160, 173, 186, 3, 16, 29, 42, 55, 68, 81, 94, 107,
     120, 133, 146, 159, 172, 185, 2, 15, 28, 41, 54, 67, 80, 93, 106, 119,
     132, 145, 158, 171, 184, 1, 14, 27, 40, 53, 66, 79, 92, 105, 118, 131,
     144, 157, 170, 183]"

definition DeInterleaveReverseChannelBptc :: "nat list" where
  "DeInterleaveReverseChannelBptc =
    [0, 17, 2, 19, 4, 21, 6, 23, 8, 25, 10, 27, 12, 29, 14, 31,
     16, 1, 18, 3, 20, 5, 22, 7, 24, 9, 26, 11, 28, 13, 30, 15]"

definition DeInterleaveReverseChannelBptcPlacement :: "nat list" where
  "DeInterleaveReverseChannelBptcPlacement =
    [0, 16, 1, 17, 2, 18, 3, 19, 4, 20, 5, 21, 6, 22, 7, 23,
     8, 24, 9, 25, 10, 26, 11, 27, 12, 28, 13, 29, 14, 30, 15, 31]"

section \<open>BPTC (196,96)\<close>

definition BPTCDeInterleaveDMRData :: "bit_array \<Rightarrow> bit_array \<Rightarrow> bit_array" where
  "BPTCDeInterleaveDMRData Input Output =
     fold (\<lambda>i out. out[BPTCDeInterleavingIndex ! i := Input ! i AND 1]) [0..<196] Output"




definition col_step ::
  "fec_tables \<Rightarrow> nat \<Rightarrow> nat list list \<times> nat list \<times> nat \<Rightarrow> nat list list \<times> nat list \<times> nat" where
  "col_step T i = (\<lambda>(matrix, col_corrected, errors).
     let col_uncorrected = map (\<lambda>j. matrix ! j ! i) [0..<13];
         (ok, _, cc) = Hamming_13_9_decode (Hamming_13_9_m_corr T) col_uncorrected (Some col_corrected) 1;
         col = the cc
     in (map (\<lambda>j. if j < 9 then (matrix ! j)[i := col ! j] else matrix ! j) [0..<13],
         col, if ok then errors else errors + 1))"




section \<open>BPTC (128,77)\<close>

text \<open>A row that the Hamming decoder rejects keeps its received bits.\<close>

definition lc_row_step ::
  "fec_tables \<Rightarrow> nat \<Rightarrow> nat list list \<times> nat list \<times> nat \<Rightarrow> nat list list \<times> nat list \<times> nat" where
  "lc_row_step T i = (\<lambda>(matrix, LineCorrected, errors).
     let LineUncorrected = map (\<lambda>j. matrix ! i ! j) [0..<16];
         (ok, _, lc) = Hamming_16_11_4_decode (Hamming_16_11_4_m_corr T) LineUncorrected (Some LineCorrected) 1;
         line = the lc
     in if ok
        then (matrix[i := map (\<lambda>j. if j < 11 then line ! j else matrix ! i ! j) [0..<16]], line, errors)
        else (matrix, line, errors + 1))"

definition BPTC_128x77_Extract_Data :: "fec_tables \<Rightarrow> nat list \<Rightarrow> nat list list \<Rightarrow> nat \<times> bit_array" where
  "BPTC_128x77_Extract_Data T LineCorrected InputDataMatrix =
     (let matrix0 = map (\<lambda>i. map (\<lambda>j. InputDataMatrix ! i ! j AND 1) [0..<16]) [0..<8];
          (matrix, _, HammingIrrecoverableErrorNb) = fold (lc_row_step T) [0..<7] (matrix0, LineCorrected, 0);
          DMRDataExtracted =
            concat (map (\<lambda>i. map (\<lambda>j. matrix ! i ! j) [0..<11]) [0..<2])
            @ concat (map (\<lambda>i. map (\<lambda>j. matrix ! i ! j) [0..<10]) [2..<7])
            @ map (\<lambda>i. matrix ! i ! 10) [2..<7];
          ParityCheckErrorNb =
            length (filter (\<lambda>i. (\<Sum>j\<leftarrow>[0..<7]. matrix ! j ! i) mod 2 \<noteq> matrix ! 7 ! i) [0..<16])
      in (HammingIrrecoverableErrorNb + ParityCheckErrorNb, DMRDataExtracted))"

section \<open>BPTC (16,2)\<close>

definition BPTC_16x2_Extract_Data ::
  "fec_tables \<Rightarrow> nat list \<Rightarrow> bit_array \<Rightarrow> bit_array \<Rightarrow> bool \<Rightarrow> nat \<times> bit_array" where
  "BPTC_16x2_Extract_Data T LineCorrected0 DataMatrix0 InputInterleavedData ParityCheckTypeOdd =
     (let DataMatrix =
            fold (\<lambda>i m. m[DeInterleaveReverseChannelBptcPlacement ! (DeInterleaveReverseChannelBptc ! i)
                           := InputInterleavedData ! i AND 1]) [0..<32] DataMatrix0;
          LineUncorrected = map (\<lambda>i. DataMatrix ! i AND 1) [0..<16];
          (ok, _, lc) = Hamming_16_11_4_decode (Hamming_16_11_4_m_corr T) LineUncorrected (Some LineCorrected0) 1;
          LineCorrected = the lc;
          HammingIrrecoverableErrorNb = (if ok then 0 else 1);
          DMRDataExtracted =
            map (\<lambda>i. if i < 11 then LineCorrected ! i AND 1 else DataMatrix ! i AND 1) [0..<32];
          ParityCheckOddErrorNb =
            length (filter (\<lambda>i. DMRDataExtracted ! i AND 1 = DMRDataExtracted ! (i + 16) AND 1) [0..<16]);
          ParityCheckEvenErrorNb =
            length (filter (\<lambda>i. DMRDataExtracted ! i AND 1 \<noteq> DMRDataExtracted ! (i + 16) AND 1) [0..<16])
      in (HammingIrrecoverableErrorNb
            + (if ParityCheckTypeOdd then ParityCheckOddErrorNb else ParityCheckEvenErrorNb),
          DMRDataExtracted))"

section \<open>De-interleaving\<close>

lemma BPTCDeInterleavingIndex_formula: "BPTCDeInterleavingIndex = map (\<lambda>i. (13 * i) mod 196) [0..<196]"
  by (simp add: BPTCDeInterleavingIndex_def upt_rec [of 0] upt_rec [of "Suc 0"] upt_rec_numeral
      flip: numeral_2_eq_2)

lemma deinterleaving_index: "i < 196 \<Longrightarrow> BPTCDeInterleavingIndex ! i = (13 * i) mod 196"
  by (simp add: BPTCDeInterleavingIndex_formula)

lemma index_inverse: "i < 196 \<Longrightarrow> (181 * ((13 * i) mod 196)) mod 196 = (i :: nat)"
proof -
  have "(181 * ((13 * i) mod 196)) mod 196 = (181 * (13 * i)) mod 196" by (simp only: mod_mult_right_eq)
  also have "\<dots> = (i + 196 * (12 * i)) mod 196" by simp
  finally show "i < 196 \<Longrightarrow> ?thesis" by (simp only: mod_mult_self2 mod_less)
qed

lemma index_inverse': "j < 196 \<Longrightarrow> (13 * ((181 * j) mod 196)) mod 196 = (j :: nat)"
proof -
  have "(13 * ((181 * j) mod 196)) mod 196 = (13 * (181 * j)) mod 196" by (simp only: mod_mult_right_eq)
  also have "\<dots> = (j + 196 * (12 * j)) mod 196" by simp
  finally show "j < 196 \<Longrightarrow> ?thesis" by (simp only: mod_mult_self2 mod_less)
qed

section \<open>Product codewords and errors\<close>

text \<open>
  A matrix of the (196,96) product code: the first nine rows are Hamming (15,11) codewords
  and all fifteen columns are Hamming (13,9) codewords.
\<close>

definition column :: "nat list list \<Rightarrow> nat \<Rightarrow> nat list" where
  "column M j = map (\<lambda>i. M ! i ! j) [0..<13]"






definition near :: "nat \<Rightarrow> nat \<Rightarrow> nat list \<Rightarrow> bit_array \<Rightarrow> bit_array \<Rightarrow> bool" where
  "near n r H c v \<longleftrightarrow> codeword n r H c \<and> (\<exists>ps. positions n ps \<and> length ps \<le> 1 \<and> v = flips ps c)"


lemma near_self: "codeword n r H c \<Longrightarrow> near n r H c c"
  by (auto simp: near_def intro!: exI [of _ "[]"])


lemma Hamming_13_9_decode_near:
  assumes "near 13 4 Hamming_13_9_m_H c col" "length cc = 9"
  shows "Hamming_13_9_decode Hamming_13_9_init col (Some cc) 1 = (True, c, Some (take 9 c))"
proof -
  from assms obtain ps where "codeword 13 4 Hamming_13_9_m_H c" "positions 13 ps" "length ps \<le> 1" "col = flips ps c"
    by (auto simp: near_def)
  with assms(2) h13.block_loop_corrects [of "[(c, ps)]" "[]" 0 "[]" cc "[]" "[]"] show ?thesis
    by (simp add: Hamming_13_9_decode_def)
qed


lemma near_length: "near n r H c v \<Longrightarrow> length c = n \<and> length v = n"
  by (auto simp: near_def codeword_def)

section \<open>The two passes\<close>


lemma col_step_near:
  assumes "near 13 4 Hamming_13_9_m_H c (column m i)" "length cc = 9"
  shows "col_step InitAllFecFunction i (m, cc, e) =
    (map (\<lambda>j. if j < 9 then (m ! j)[i := c ! j] else m ! j) [0..<13], take 9 c, e)"
  using Hamming_13_9_decode_near [OF assms] unfolding column_def
  by (simp add: col_step_def Let_def cong: if_cong)

text \<open>A loop over rows whose turns each replace their own row.\<close>

lemma fold_row_steps:
  assumes step: "\<And>m lc i. i < k \<Longrightarrow> length lc = w \<Longrightarrow> m ! i = m0 ! i \<Longrightarrow>
      \<exists>lc'. length lc' = w \<and> step i (m, lc, 0 :: nat) = (m[i := f i], lc', 0)"
    and "length m0 = n" "length lc = w" "k \<le> n"
  shows "\<exists>lc'. length lc' = w \<and>
    fold step [0..<k] (m0, lc, 0) = (map (\<lambda>i. if i < k then f i else m0 ! i) [0..<n], lc', 0)"
  using assms(1,4)
proof (induction k)
  case 0
  have "map (\<lambda>i. m0 ! i) [0..<n] = m0" using assms(2) by (auto intro!: nth_equalityI)
  with assms(3) show ?case by simp
next
  case (Suc k)
  let ?m = "map (\<lambda>i. if i < k then f i else m0 ! i) [0..<n]"
  have "\<exists>lc'. length lc' = w \<and> fold step [0..<k] (m0, lc, 0) = (?m, lc', 0)"
    using Suc.prems(2) by (intro Suc.IH Suc.prems(1)) simp_all
  then obtain lc1 where lc1: "length lc1 = w" "fold step [0..<k] (m0, lc, 0) = (?m, lc1, 0)" by blast
  moreover obtain lc2 where "length lc2 = w" "step k (?m, lc1, 0) = (?m[k := f k], lc2, 0)"
    using Suc.prems(1) [of k lc1 ?m] Suc.prems(2) lc1 by auto
  moreover have "?m[k := f k] = map (\<lambda>i. if i < Suc k then f i else m0 ! i) [0..<n]"
    using Suc.prems(2) by (auto simp: nth_list_update less_Suc_eq intro!: nth_equalityI)
  ultimately show ?case by auto
qed









section \<open>The (196,96) decoder on a damaged codeword\<close>















section \<open>Properties\<close>

text \<open>
  The de-interleaver is the permutation \<open>i \<mapsto> 13 * i mod 196\<close> of the standard: every
  cell of the output is written, cell \<open>j\<close> holds the low bit of input bit \<open>181 * j mod 196\<close>,
  and nothing of the former content of the output buffer is left.
\<close>

lemma BPTCDeInterleaveDMRData_permutation:
  assumes "length Output = 196" "j < 196"
  shows "BPTCDeInterleaveDMRData Input Output ! j = Input ! ((181 * j) mod 196) AND 1"
proof -
  let ?i = "(181 * j) mod 196"
  have inj: "inj_on (\<lambda>i. BPTCDeInterleavingIndex ! i) {0..<196}"
    by (rule inj_on_inverseI [where g = "\<lambda>j. (181 * j) mod 196"])
      (simp add: deinterleaving_index index_inverse)
  have "BPTCDeInterleaveDMRData Input Output ! (BPTCDeInterleavingIndex ! ?i) = Input ! ?i AND 1"
    unfolding BPTCDeInterleaveDMRData_def
    using inj assms by (intro fold_writes_nth) (auto simp: distinct_map deinterleaving_index)
  moreover have "BPTCDeInterleavingIndex ! ?i = j"
    using assms(2) by (simp add: deinterleaving_index index_inverse')
  ultimately show ?thesis by simp
qed




text \<open>
  A column that the (13,9) decoder rejects is overwritten with the corrected bits of the
  column before it: the decoder leaves \<open>col_corrected\<close> as it was, and the column pass copies
  it into the matrix all the same. The (128,77) decoder guards against exactly this.
\<close>

lemma bptc_cols_copy_stale_column:
  assumes "near 13 4 Hamming_13_9_m_H c (column m i)" "i < 14" "length cc = 9"
    and "\<forall>j < 9. length (m ! j) = 15"
    and "0 < syndrome_index 13 4 Hamming_13_9_m_H (column m (i + 1))"
    and "Hamming_13_9_init ! syndrome_index 13 4 Hamming_13_9_m_H (column m (i + 1)) = 0xFF"
    and step: "col_step InitAllFecFunction (i + 1) (col_step InitAllFecFunction i (m, cc, e)) = (m', cc', e')"
  shows "e' = e + 1 \<and> (\<forall>j < 9. m' ! j ! (i + 1) = c ! j)"
proof -
  let ?m1 = "map (\<lambda>j. if j < 9 then (m ! j)[i := c ! j] else m ! j) [0..<13]"
  have first: "col_step InitAllFecFunction i (m, cc, e) = (?m1, take 9 c, e)"
    using assms by (intro col_step_near)
  have "column ?m1 (i + 1) = column m (i + 1)" by (auto simp: column_def)
  then have col: "map (\<lambda>j. ?m1 ! j ! Suc i) [0..<13] = column m (Suc i)" by (simp add: column_def)
  have "length (column m (Suc i)) = 13" by (simp add: column_def)
  with assms(5,6) have bad: "Hamming_13_9_decode Hamming_13_9_init (column m (Suc i)) out 1 =
      (False, column m (Suc i), out)" for out
    unfolding Hamming_13_9_decode_def using h13.block_loop_uncorrectable [of "column m (Suc i)" _ 0 out]
    by (simp del: block_loop_break.simps)
  have "map (\<lambda>j. if j < 9 then (?m1 ! j)[Suc i := c ! j] else ?m1 ! j) [0..<13] = m'" "e' = e + 1"
    using step unfolding first by (simp_all add: col_step_def Let_def col bad cong: if_cong)
  then show ?thesis using assms(2,4) near_length [OF assms(1)] by auto
qed

text \<open>
  In the witness the received data bit in row 0 of column 1 is 0 and both its errors are in
  check bits; the pass replaces it by the 1 of column 0.
\<close>

section \<open>The (128,77) decoder\<close>

lemma Hamming_16_11_4_decode_near:
  assumes "near 16 5 Hamming_16_11_4_m_H c row" "length lc = 11"
  shows "Hamming_16_11_4_decode Hamming_16_11_4_init row (Some lc) 1 = (True, c, Some (take 11 c))"
proof -
  from assms obtain ps where "codeword 16 5 Hamming_16_11_4_m_H c" "positions 16 ps" "length ps \<le> 1" "row = flips ps c"
    by (auto simp: near_def)
  with assms(2) h16.block_loop_corrects [of "[(c, ps)]" "[]" 0 "[]" lc "[]" "[]"] show ?thesis
    by (simp add: Hamming_16_11_4_decode_def)
qed

lemma lc_row_step_near:
  assumes "near 16 5 Hamming_16_11_4_m_H c (m ! i)" "length lc = 11"
  shows "lc_row_step InitAllFecFunction i (m, lc, e) = (m[i := take 11 c @ drop 11 (m ! i)], take 11 c, e)"
proof -
  have len: "length c = 16" "length (m ! i) = 16" using near_length [OF assms(1)] by simp_all
  then have "map (\<lambda>j. m ! i ! j) [0..<16] = m ! i" by (auto intro!: nth_equalityI)
  moreover have "map (\<lambda>j. if j < 11 then c ! j else m ! i ! j) [0..<16] = take 11 c @ drop 11 (m ! i)"
    using len by (auto simp: nth_append intro!: nth_equalityI)
  ultimately show ?thesis
    using Hamming_16_11_4_decode_near [OF assms] by (simp add: lc_row_step_def Let_def cong: if_cong)
qed

lemma lc_rows_near:
  assumes "length m = 8" "length lc = 11"
    and near: "\<And>i. i < 7 \<Longrightarrow> near 16 5 Hamming_16_11_4_m_H (C i) (m ! i)"
    and check: "\<And>i. i < 7 \<Longrightarrow> drop 11 (m ! i) = drop 11 (C i)"
  shows "\<exists>lc'. fold (lc_row_step InitAllFecFunction) [0..<7] (m, lc, 0) =
    (map (\<lambda>i. if i < 7 then C i else m ! i) [0..<8], lc', 0)"
proof -
  have "\<exists>lc'. length lc' = 11 \<and> fold (lc_row_step InitAllFecFunction) [0..<7] (m, lc, 0) =
      (map (\<lambda>i. if i < 7 then C i else m ! i) [0..<8], lc', 0)"
  proof (rule fold_row_steps)
    fix m' :: "nat list list" and lc' :: "nat list" and i :: nat
    assume i: "i < 7" "length lc' = 11" "m' ! i = m ! i"
    have "take 11 (C i) @ drop 11 (m ! i) = C i" by (simp add: check [OF i(1)])
    with i near [OF i(1)] show "\<exists>lc''. length lc'' = 11 \<and>
        lc_row_step InitAllFecFunction i (m', lc', 0) = (m'[i := C i], lc'', 0)"
      using lc_row_step_near [of "C i" m' i lc' 0] near_length [OF near [OF i(1)]]
      by (intro exI [of _ "take 11 (C i)"]) simp
  qed (use assms in simp_all)
  then show ?thesis by blast
qed

text \<open>
  An embedded link control matrix: seven Hamming (16,11,4) rows and a last row that makes
  every column even.
\<close>

definition lc_codeword :: "nat list list \<Rightarrow> bool" where
  "lc_codeword M \<longleftrightarrow> length M = 8 \<and> length (M ! 7) = 16 \<and> bits (M ! 7) \<and>
     (\<forall>i \<in> {..<7}. codeword 16 5 Hamming_16_11_4_m_H (M ! i)) \<and>
     (\<forall>j \<in> {..<16}. (\<Sum>i\<leftarrow>[0..<7]. M ! i ! j) mod 2 = M ! 7 ! j)"

definition lc_payload :: "nat list list \<Rightarrow> bit_array" where
  "lc_payload M =
     concat (map (\<lambda>i. map (\<lambda>j. M ! i ! j) [0..<11]) [0..<2])
     @ concat (map (\<lambda>i. map (\<lambda>j. M ! i ! j) [0..<10]) [2..<7])
     @ map (\<lambda>i. M ! i ! 10) [2..<7]"

text \<open>
  The (128,77) decoder restores the payload and reports no error when every one of the
  seven coded rows carries at most one error, in its eleven data bits; \<open>err i\<close> is the
  position of the error in row \<open>i\<close>, if any.
\<close>

lemma BPTC_128x77_corrects:
  assumes M: "lc_codeword M" and lc: "length lc = 11"
    and err: "\<forall>i \<in> {..<7}. case err i of None \<Rightarrow> True | Some p \<Rightarrow> p < 11"
    and input: "\<forall>i \<in> {..<7}. input ! i = (case err i of None \<Rightarrow> M ! i | Some p \<Rightarrow> flip_at p (M ! i))"
      "input ! 7 = M ! 7"
  shows "BPTC_128x77_Extract_Data InitAllFecFunction lc input = (0, lc_payload M)"
proof -
  let ?ps = "\<lambda>i. case err i of None \<Rightarrow> [] | Some p \<Rightarrow> [p]"
  let ?m0 = "map (\<lambda>i. map (\<lambda>j. input ! i ! j AND 1) [0..<16]) [0..<8]"
  have cw: "codeword 16 5 Hamming_16_11_4_m_H (M ! i)" if "i < 7" for i
    using M that by (simp add: lc_codeword_def)
  have in_flips: "input ! i = flips (?ps i) (M ! i)" if "i < 7" for i
    using input(1) that by (auto split: option.splits)
  have in_bits: "bits (input ! i) \<and> length (input ! i) = 16" if "i < 8" for i
    using that cw [of i] in_flips [of i] M input(2)
    by (cases "i = 7") (auto simp: codeword_def lc_codeword_def)
  have m0: "?m0 ! i = input ! i" if "i < 8" for i
    using that in_bits [OF that] by (auto simp: and_one_bit bits_nth intro!: nth_equalityI)
  have near: "near 16 5 Hamming_16_11_4_m_H (M ! i) (?m0 ! i)" if "i < 7" for i
  proof -
    have "case err i of None \<Rightarrow> True | Some p \<Rightarrow> p < 11" using err that by blast
    then have "positions 16 (?ps i) \<and> length (?ps i) \<le> 1" by (auto split: option.splits)
    then show ?thesis
      unfolding near_def using that cw [OF that] in_flips [OF that] m0 [of i] by auto
  qed
  have check: "drop 11 (?m0 ! i) = drop 11 (M ! i)" if "i < 7" for i
    using that err m0 [of i] in_flips [OF that]
    by (auto simp: flip_at_def drop_update_cancel split: option.splits)
  obtain lc' where fold: "fold (lc_row_step InitAllFecFunction) [0..<7] (?m0, lc, 0) =
      (map (\<lambda>i. if i < 7 then M ! i else ?m0 ! i) [0..<8], lc', 0)"
    using lc_rows_near [of ?m0 lc "(!) M", OF _ lc near check] by auto
  have "map (\<lambda>i. if i < 7 then M ! i else ?m0 ! i) [0..<8] = M"
  proof (rule nth_equalityI)
    fix i assume "i < length (map (\<lambda>i. if i < 7 then M ! i else ?m0 ! i) [0..<8])"
    then have "i < 7 \<or> i = 7" by auto
    then show "map (\<lambda>i. if i < 7 then M ! i else ?m0 ! i) [0..<8] ! i = M ! i"
      using m0 [of 7] input(2) by auto
  qed (use M in \<open>simp add: lc_codeword_def\<close>)
  moreover have "filter (\<lambda>i. (\<Sum>j\<leftarrow>[0..<7]. M ! j ! i) mod 2 \<noteq> M ! 7 ! i) [0..<16] = []"
    using M by (simp add: lc_codeword_def filter_empty_conv)
  ultimately show ?thesis
    using fold by (simp add: BPTC_128x77_Extract_Data_def lc_payload_def Let_def)
qed

end
