(* ===== verification/Bit_Words.thy ===== *)
theory Bit_Words
  imports Prelude
begin

text \<open>
  Words read from and written to sequences of bits, most significant bit first, as the
  source does everywhere a protocol field is assembled: \<open>msb_word\<close> is the loop
  \<open>x = (x << 1) | bit\<close>, \<open>msb_bits\<close> the bits of a field, and the two are inverse.
\<close>

definition msb_bits :: "nat \<Rightarrow> 'a::len word \<Rightarrow> bool list" where
  "msb_bits w r = map (\<lambda>i. bit r (w - 1 - i)) [0..<w]"

definition msb_shift :: "bool \<Rightarrow> 'a::len word \<Rightarrow> 'a word" where
  "msb_shift b x = push_bit 1 x OR of_bool b"

definition msb_word :: "bool list \<Rightarrow> 'a::len word" where
  "msb_word bs = fold msb_shift bs 0"

lemma length_msb_bits [simp, len_simps]: "length (msb_bits w r) = w"
  by (simp add: msb_bits_def)

lemma msb_bits_nth: "i < w \<Longrightarrow> msb_bits w r ! i = bit r (w - 1 - i)"
  by (simp add: msb_bits_def)

lemma bit_shift_left: "bit (push_bit 1 r) i \<longleftrightarrow> 0 < i \<and> i < LENGTH('a) \<and> bit (r::'a::len word) (i - 1)"
  by (auto simp only: bit_push_bit_iff possible_bit_word Suc_le_eq One_nat_def)

lemma bit_msb_shift:
  "bit (msb_shift b r) i \<longleftrightarrow> (if i = 0 then b else i < LENGTH('a) \<and> bit (r::'a::len word) (i - 1))"
  unfolding msb_shift_def bit_or_iff bit_shift_left by (auto simp: bit_of_bool_iff)

lemma msb_word_snoc: "msb_word (bs @ [b]) = msb_shift b (msb_word bs)"
  by (simp add: msb_word_def)

lemma bit_msb_word:
  "bit (msb_word bs :: 'a::len word) i \<longleftrightarrow> i < length bs \<and> i < LENGTH('a) \<and> bs ! (length bs - 1 - i)"
proof (induction bs arbitrary: i rule: rev_induct)
  case Nil
  then show ?case by (simp add: msb_word_def)
next
  case (snoc b bs)
  show ?case
  proof (cases i)
    case 0
    then show ?thesis by (simp add: msb_word_snoc bit_msb_shift)
  next
    case (Suc k)
    have "bit (msb_word (bs @ [b]) :: 'a word) i \<longleftrightarrow> i < LENGTH('a) \<and> bit (msb_word bs :: 'a word) k"
      by (simp add: msb_word_snoc bit_msb_shift Suc)
    also have "\<dots> \<longleftrightarrow> i < LENGTH('a) \<and> k < length bs \<and> bs ! (length bs - 1 - k)"
      using snoc.IH [of k] Suc by auto
    finally show ?thesis using Suc by (auto simp: nth_append)
  qed
qed

lemma msb_word_msb_bits: "msb_word (msb_bits w r) = take_bit w (r::'a::len word)"
  by (rule bit_eqI) (auto simp: bit_msb_word msb_bits_nth bit_take_bit_iff possible_bit_word)

lemma msb_bits_msb_word: "length bs \<le> LENGTH('a) \<Longrightarrow> msb_bits (length bs) (msb_word bs :: 'a::len word) = bs"
  by (rule nth_equalityI) (auto simp: bit_msb_word msb_bits_nth)

lemma msb_word_inj: "length xs = length ys \<Longrightarrow> length ys \<le> LENGTH('a) \<Longrightarrow>
   (msb_word xs :: 'a::len word) = msb_word ys \<longleftrightarrow> xs = ys"
  using msb_bits_msb_word [where 'a = 'a, of xs] msb_bits_msb_word [where 'a = 'a, of ys] by metis

text \<open>The loop bodies of the source: or-ing or adding a bit into the shifted accumulator.\<close>

lemma or_bit_shift: "x < 2 \<Longrightarrow> push_bit 1 c OR of_nat x = msb_shift (x = 1) (c::'a::len word)"
  by (auto simp: msb_shift_def less_2_cases_iff)

lemma add_bit_shift: "x < 2 \<Longrightarrow> push_bit 1 c + of_nat x = msb_shift (x = 1) (c::'a::len word)"
proof -
  assume x: "x < 2"
  have "bit (of_nat x :: 'a word) n \<Longrightarrow> n = 0" for n
    using x by (auto simp: less_2_cases_iff bit_1_iff)
  then have "push_bit 1 c AND of_nat x = 0"
    by (intro bit_eqI) (auto simp only: bit_and_iff bit_shift_left bit_0_eq bot_apply bot_bool_def)
  then have "push_bit 1 c + of_nat x = push_bit 1 c OR of_nat x" by (simp only: disjunctive_add_eq_or)
  then show ?thesis by (simp only: or_bit_shift [OF x])
qed

lemma fold_shift_msb:
  assumes "\<And>i c. i \<in> set is \<Longrightarrow> f i c = msb_shift (g i) (c::'a::len word)"
  shows "fold f is c = fold msb_shift (map g is) c"
  using assms by (induction "is" arbitrary: c) auto

lemma and_one_of_bool: "x AND 1 = of_bool (bit (x::'a::len word) 0)"
  by (rule bit_eqI) (auto simp: bit_and_iff bit_1_iff bit_of_bool_iff)

end
