(* ===== verification/Crc.thy ===== *)
theory Crc
  imports Bit_Words
begin

text \<open>
  Cyclic redundancy checks. \<open>crc_step\<close> is one clock of a feedback shift register of \<open>w\<close> bits
  held in a machine word; the bit-serial checksums of the source are shown to be runs of
  it, and so are the ones that divide a buffer of bits by a list of coefficients. The
  locale \<open>crc_register\<close> proves once what a checksum promises: the register is a linear
  function of the message, appending the register clears it, and an error confined to
  \<open>w\<close> consecutive bits always changes it.
\<close>

section \<open>The shift register\<close>

definition crc_step :: "nat \<Rightarrow> 'a::len word \<Rightarrow> bool \<Rightarrow> 'a word \<Rightarrow> 'a word" where
  "crc_step w P b r = push_bit 1 r XOR (if bit r (w - 1) \<noteq> b then P else 0)"

definition crc_feed :: "nat \<Rightarrow> 'a::len word \<Rightarrow> bool list \<Rightarrow> 'a word \<Rightarrow> 'a word" where
  "crc_feed w P bs r = fold (crc_step w P) bs r"

text \<open>A frame: a message followed by its checksum, which is inverted by the mask \<open>M\<close>.\<close>

definition crc_frame :: "nat \<Rightarrow> 'a::len word \<Rightarrow> 'a word \<Rightarrow> 'a word \<Rightarrow> bool list \<Rightarrow> bool" where
  "crc_frame w P r M bs \<longleftrightarrow> w \<le> length bs \<and>
     drop (length bs - w) bs = msb_bits w (crc_feed w P (take (length bs - w) bs) r XOR M)"

lemma crc_feed_Nil [simp]: "crc_feed w P [] r = r"
  by (simp add: crc_feed_def)

lemma crc_feed_Cons [simp]: "crc_feed w P (b # bs) r = crc_feed w P bs (crc_step w P b r)"
  by (simp add: crc_feed_def)

lemma crc_feed_append [simp]: "crc_feed w P (bs @ cs) r = crc_feed w P cs (crc_feed w P bs r)"
  by (simp add: crc_feed_def)

text \<open>The bitwise sum of two messages of equal length.\<close>

definition xor_bits :: "bool list \<Rightarrow> bool list \<Rightarrow> bool list" where
  "xor_bits xs ys = map2 (\<noteq>) xs ys"

lemma length_xor_bits [simp, len_simps]: "length xs = length ys \<Longrightarrow> length (xor_bits xs ys) = length ys"
  by (simp add: xor_bits_def)

lemma xor_bits_simps [simp]:
  "xor_bits [] [] = []" "xor_bits (x # xs) (y # ys) = (x \<noteq> y) # xor_bits xs ys"
  by (simp_all add: xor_bits_def)

lemma crc_step_linear:
  "crc_step w P b r XOR crc_step w P c s = crc_step w P (b \<noteq> c) (r XOR s)"
  by (auto simp: crc_step_def bit_xor_iff push_bit_xor ac_simps)

lemma crc_feed_linear:
  "length bs = length cs \<Longrightarrow> crc_feed w P bs r XOR crc_feed w P cs s = crc_feed w P (xor_bits bs cs) (r XOR s)"
  by (induction bs cs arbitrary: r s rule: list_induct2) (simp_all add: crc_step_linear)

locale crc_register =
  fixes w :: nat and P :: "'a::len word"
  assumes w_pos: "0 < w" and w_len: "w \<le> LENGTH('a)" and P_odd: "bit P 0"
begin

text \<open>Two registers agree when their low \<open>w\<close> bits do.\<close>

lemma agree_iff: "take_bit w r = take_bit w s \<longleftrightarrow> (\<forall>i < w. bit r i = bit (s::'a word) i)"
proof -
  have "take_bit w r = take_bit w s \<longleftrightarrow> (\<forall>i < LENGTH('a). (i < w \<and> bit r i) = (i < w \<and> bit s i))"
    by (simp add: bit_eq_iff bit_take_bit_iff possible_bit_word)
  also have "\<dots> \<longleftrightarrow> (\<forall>i < w. bit r i = bit s i)"
    using w_len by (meson order.strict_trans2)
  finally show ?thesis .
qed

lemma clear_iff: "take_bit w r = (0::'a word) \<longleftrightarrow> (\<forall>i < w. \<not> bit r i)"
  using agree_iff [of r 0] by simp

lemma bit_step_0: "bit (crc_step w P b r) 0 \<longleftrightarrow> bit r (w - 1) \<noteq> b"
  using P_odd by (simp add: crc_step_def bit_xor_iff bit_shift_left del: One_nat_def)

lemma step_shift: "bit r (w - 1) = b \<Longrightarrow> crc_step w P b r = push_bit 1 r"
  by (simp add: crc_step_def)

lemma feed_clear_low:
  "take_bit w (crc_feed w P bs r) = 0 \<Longrightarrow> i < w - length bs \<Longrightarrow> \<not> bit r i"
proof (induction bs arbitrary: r i)
  case Nil
  then show ?case by (simp add: clear_iff)
next
  case (Cons b bs)
  let ?s = "crc_step w P b r"
  have low: "\<not> bit ?s j" if "j < w - length bs" for j
    using Cons.IH [of ?s j] Cons.prems that by simp
  have "\<not> bit ?s 0" using low [of 0] Cons.prems(2) by simp
  then have "?s = push_bit 1 r" by (simp add: bit_step_0 step_shift)
  moreover have "Suc i < LENGTH('a)" using Cons.prems(2) w_len by simp
  moreover have "\<not> bit ?s (Suc i)" using low [of "Suc i"] Cons.prems(2) by simp
  ultimately show ?case by (simp add: bit_shift_left del: One_nat_def)
qed

lemma feed_single_clear: "take_bit w (crc_step w P False r) = 0 \<Longrightarrow> take_bit w r = 0"
proof -
  assume clear: "take_bit w (crc_step w P False r) = 0"
  have "\<not> bit r i" if "i < w" for i
  proof (cases "i = w - 1")
    case True
    then show ?thesis using clear w_pos bit_step_0 [of False r] by (simp add: clear_iff)
  next
    case False
    then show ?thesis using feed_clear_low [of "[False]" r i] clear that by simp
  qed
  then show ?thesis by (simp add: clear_iff)
qed

lemma agree_xor: "take_bit w r = take_bit w s \<longleftrightarrow> take_bit w (r XOR s) = (0::'a word)"
  unfolding agree_iff clear_iff by (simp add: bit_xor_iff)

text \<open>A common suffix never hides a difference.\<close>

lemma feed_inj: "take_bit w (crc_feed w P bs r) = take_bit w (crc_feed w P bs s) \<Longrightarrow> take_bit w r = take_bit w s"
proof (induction bs arbitrary: r s)
  case (Cons b bs)
  then have "take_bit w (crc_step w P b r XOR crc_step w P b s) = 0" by (simp add: agree_xor)
  then have "take_bit w (r XOR s) = 0" using feed_single_clear [of "r XOR s"] by (simp only: crc_step_linear simp_thms)
  then show ?case by (simp add: agree_xor)
qed simp

lemma feed_short_nonzero:
  assumes "length bs \<le> w" "True \<in> set bs"
  shows "take_bit w (crc_feed w P bs 0) \<noteq> 0"
proof -
  obtain xs ys where bs: "bs = xs @ True # ys" "True \<notin> set xs"
    using assms(2) split_list_first by metis
  have "set xs \<subseteq> {False}" using bs(2) by (metis (full_types) insertCI subsetI)
  then have zeros: "crc_feed w P xs 0 = 0"
    by (induction xs) (auto simp: crc_step_def)
  have "bit P 0" by (rule P_odd)
  then show ?thesis
    using feed_clear_low [of ys "crc_step w P True 0" 0] bs(1) zeros assms(1) by (auto simp: crc_step_def)
qed

lemma xor_bits_differ: "length xs = length ys \<Longrightarrow> xs \<noteq> ys \<Longrightarrow> True \<in> set (xor_bits xs ys)"
  by (induction xs ys rule: list_induct2) auto

text \<open>An error burst of at most \<open>w\<close> bits, wherever it lies, changes the register.\<close>

theorem burst_detected:
  assumes "length xs = length ys" "length ys \<le> w" "xs \<noteq> ys"
  shows "take_bit w (crc_feed w P (pre @ xs @ suf) r) \<noteq> take_bit w (crc_feed w P (pre @ ys @ suf) r)"
proof
  assume "take_bit w (crc_feed w P (pre @ xs @ suf) r) = take_bit w (crc_feed w P (pre @ ys @ suf) r)"
  then have "take_bit w (crc_feed w P xs (crc_feed w P pre r)) = take_bit w (crc_feed w P ys (crc_feed w P pre r))"
    by (simp only: crc_feed_append) (rule feed_inj)
  then have "take_bit w (crc_feed w P (xor_bits xs ys) 0) = 0"
    by (simp only: agree_xor crc_feed_linear [OF assms(1)] xor_self_eq)
  then show False using feed_short_nonzero [of "xor_bits xs ys"] xor_bits_differ assms by simp
qed

text \<open>Feeding a register its own bits clears it, so a message followed by its checksum is recognised.\<close>

lemma feed_own_bits: "n \<le> w \<Longrightarrow> crc_feed w P (take n (msb_bits w r)) r = push_bit n r"
proof (induction n)
  case (Suc n)
  have "bit (push_bit n r) (w - 1) = bit r (w - 1 - n)"
    using Suc.prems w_len w_pos by (auto simp: bit_push_bit_iff possible_bit_word)
  then show ?case
    using Suc by (simp add: take_Suc_conv_app_nth msb_bits_nth step_shift)
qed simp

theorem feed_append_self: "take_bit w (crc_feed w P (msb_bits w r) r) = 0"
  using feed_own_bits [of w r] w_len by (simp add: clear_iff bit_push_bit_iff)

lemma msb_bits_xor: "msb_bits w (r XOR s) = xor_bits (msb_bits w r) (msb_bits w (s::'a word))"
  by (rule nth_equalityI) (simp_all add: msb_bits_nth xor_bits_def bit_xor_iff)

text \<open>With the checksum inverted by \<open>M\<close>, a complete frame always leaves the residue of \<open>M\<close>.\<close>

theorem feed_append_masked:
  "take_bit w (crc_feed w P (bs @ msb_bits w (crc_feed w P bs r XOR M)) r) =
   take_bit w (crc_feed w P (msb_bits w M) 0)"
proof -
  let ?c = "crc_feed w P bs r"
  have "crc_feed w P (msb_bits w (?c XOR M)) ?c =
      crc_feed w P (msb_bits w ?c) ?c XOR crc_feed w P (msb_bits w M) 0"
    by (simp add: crc_feed_linear msb_bits_xor)
  then show ?thesis using feed_append_self [of ?c] by (simp add: take_bit_xor)
qed

lemma frame_residue:
  "crc_frame w P r M bs \<Longrightarrow> take_bit w (crc_feed w P bs r) = take_bit w (crc_feed w P (msb_bits w M) 0)"
  using feed_append_masked [of "take (length bs - w) bs" r M] append_take_drop_id [of "length bs - w" bs]
  unfolding crc_frame_def by metis

text \<open>No frame is turned into another frame by an error burst of at most \<open>w\<close> bits.\<close>

theorem frame_burst:
  assumes "crc_frame w P r M (pre @ xs @ suf)" "length xs = length ys" "length ys \<le> w" "xs \<noteq> ys"
  shows "\<not> crc_frame w P r M (pre @ ys @ suf)"
  using frame_residue assms burst_detected [OF assms(2-4), of pre suf r] by metis

end

section \<open>The loops of the source\<close>

lemma xor_right_cancel: "a XOR m = b XOR m \<longleftrightarrow> a = (b::'a::len word)"
proof
  assume "a XOR m = b XOR m"
  then have "(a XOR m) XOR m = (b XOR m) XOR m" by simp
  then show "a = b" by (simp add: xor.assoc)
qed simp

lemma of_nat_and_one: "of_nat x AND 1 = (of_bool (odd x) :: 'a::len word)"
  by (simp add: and_one_of_bool bit_0 even_of_nat_iff)

lemma feedback_bit:
  "((drop_bit k r AND 1) XOR (of_nat x AND 1) = (0 :: 'a::len word)) \<longleftrightarrow> bit r k = odd x"
  by (cases "bit r k"; cases "odd x")
    (simp_all only: of_nat_and_one, simp_all add: and_one_of_bool bit_drop_bit_eq)

lemma crc_loop_feed:
  assumes "\<And>i r. i \<in> set is \<Longrightarrow> f i r = crc_step w P (g i) r"
  shows "fold f is r = crc_feed w P (map g is) r"
  using assms by (induction "is" arbitrary: r) auto

lemma map_odd_take: "n \<le> length xs \<Longrightarrow> map (\<lambda>i. odd (xs ! i)) [0..<n] = map odd (take n xs)"
  by (rule nth_equalityI) auto

lemma bits_odd: "bits xs \<Longrightarrow> map (\<lambda>x. x = 1) xs = map odd xs"
  by (auto simp: bits_def less_2_cases_iff)

lemma msb_word_eq_field:
  assumes "length bs = w" "w \<le> LENGTH('a)"
  shows "msb_word bs = take_bit w (c::'a::len word) \<longleftrightarrow> bs = msb_bits w c"
  using msb_word_inj [where 'a = 'a, of bs "msb_bits w c"] assms by (simp add: msb_word_msb_bits)

text \<open>Reading a field of the buffer, or-ing or adding each bit into the accumulator.\<close>

lemma read_field_or:
  assumes "bits xs" "off + n \<le> length xs"
  shows "fold (\<lambda>i c. push_bit 1 c OR of_nat (xs ! (i + off))) [0..<n] 0 =
    (msb_word (map odd (take n (drop off xs))) :: 'a::len word)"
proof -
  have "fold (\<lambda>i c. push_bit 1 c OR of_nat (xs ! (i + off))) [0..<n] 0 =
      fold msb_shift (map (\<lambda>i. odd (xs ! (i + off))) [0..<n]) (0 :: 'a word)"
  proof (rule fold_shift_msb)
    fix i and c :: "'a word" assume "i \<in> set [0..<n]"
    then have "xs ! (i + off) < 2" using assms bits_nth by simp
    then show "push_bit 1 c OR of_nat (xs ! (i + off)) = msb_shift (odd (xs ! (i + off))) c"
      by (simp only: or_bit_shift) (auto simp: less_2_cases_iff)
  qed
  also have "map (\<lambda>i. odd (xs ! (i + off))) [0..<n] = map odd (take n (drop off xs))"
    using assms(2) by (intro nth_equalityI) (auto simp: add.commute)
  finally show ?thesis by (simp add: msb_word_def)
qed

section \<open>Division of a bit buffer\<close>

text \<open>
  The loop that the buffer-based checksums share: wherever the current bit is set, the
  coefficients of the polynomial are xor-ed into the buffer from that bit on.
\<close>

definition xor_poly :: "nat list \<Rightarrow> nat \<Rightarrow> nat list \<Rightarrow> nat list" where
  "xor_poly poly i buf = fold (\<lambda>j buf. buf[i + j := buf ! (i + j) XOR poly ! j]) [0..<length poly] buf"

definition poly_divide :: "nat list \<Rightarrow> nat \<Rightarrow> nat list \<Rightarrow> nat list" where
  "poly_divide poly len buf = fold (\<lambda>i buf. if buf ! i \<noteq> 0 then xor_poly poly i buf else buf) [0..<len] buf"

lemma xor_poly_prefix:
  assumes "i + n \<le> length buf"
  shows "length (fold (\<lambda>j buf. buf[i + j := buf ! (i + j) XOR poly ! j]) [0..<n] buf) = length buf \<and>
    (\<forall>k < length buf. fold (\<lambda>j buf. buf[i + j := buf ! (i + j) XOR poly ! j]) [0..<n] buf ! k =
      (if i \<le> k \<and> k < i + n then buf ! k XOR poly ! (k - i) else buf ! k))"
  using assms
proof (induction n)
  case (Suc n)
  then show ?case by (auto simp: nth_list_update less_Suc_eq)
qed auto

lemma length_xor_poly [simp, len_simps]: "i + length poly \<le> length buf \<Longrightarrow> length (xor_poly poly i buf) = length buf"
  using xor_poly_prefix [of i "length poly" buf poly] by (simp add: xor_poly_def)

lemma xor_poly_nth:
  "i + length poly \<le> length buf \<Longrightarrow> k < length buf \<Longrightarrow> xor_poly poly i buf ! k =
   (if i \<le> k \<and> k < i + length poly then buf ! k XOR poly ! (k - i) else buf ! k)"
  using xor_poly_prefix [of i "length poly" buf poly] by (simp add: xor_poly_def)

locale crc_divider = crc_register +
  fixes poly :: "nat list"
  assumes poly: "poly = 1 # map of_bool (msb_bits w P)"
begin

lemma length_poly: "length poly = Suc w"
  by (simp add: poly)

lemma poly_Suc: "j < w \<Longrightarrow> poly ! Suc j = of_bool (bit P (w - 1 - j))"
  by (simp add: poly msb_bits_nth)

text \<open>After \<open>i\<close> rounds the window at \<open>i\<close> is the register xor the message.\<close>

definition window :: "(nat \<Rightarrow> bool) \<Rightarrow> nat \<Rightarrow> 'a word \<Rightarrow> nat list \<Rightarrow> bool" where
  "window m i r buf \<longleftrightarrow> (\<forall>k < length buf. i \<le> k \<longrightarrow>
     buf ! k = of_bool (if k < i + w then bit r (w - 1 - (k - i)) \<noteq> m k else m k))"

lemma window_step:
  assumes "window m i r buf" "i + Suc w \<le> length buf"
  shows "window m (Suc i) (crc_step w P (m i) r) (if buf ! i \<noteq> 0 then xor_poly poly i buf else buf)"
proof -
  have head: "buf ! i \<noteq> 0 \<longleftrightarrow> bit r (w - 1) \<noteq> m i"
    using assms w_pos unfolding window_def by auto
  have shift: "bit (crc_step w P (m i) r) (w - 1 - j) \<longleftrightarrow>
      (Suc j < w \<and> bit r (w - 1 - Suc j)) \<noteq> (buf ! i \<noteq> 0 \<and> bit P (w - 1 - j))" if "j < w" for j
    using that w_len unfolding crc_step_def bit_xor_iff bit_shift_left head by auto
  have old: "buf ! k = of_bool ((Suc j < w \<and> bit r (w - 1 - Suc j)) \<noteq> m k)"
    if "k < length buf" "k = Suc i + j" "j < w" for k j
    using assms(1) that unfolding window_def by (cases "Suc j < w") auto
  show ?thesis
    unfolding window_def
  proof (intro allI impI)
    fix k assume k: "k < length (if buf ! i \<noteq> 0 then xor_poly poly i buf else buf)" "Suc i \<le> k"
    then have len: "k < length buf" using assms(2) by (simp add: length_poly split: if_splits)
    show "(if buf ! i \<noteq> 0 then xor_poly poly i buf else buf) ! k =
        of_bool (if k < Suc i + w then bit (crc_step w P (m i) r) (w - 1 - (k - Suc i)) \<noteq> m k else m k)"
    proof (cases "k < Suc i + w")
      case True
      then obtain j where j: "k = Suc i + j" "j < w" using k(2) by (metis le_Suc_ex nat_add_left_cancel_less)
      then show ?thesis
        using old [OF len j] shift [OF j(2)] len assms(2) poly_Suc [OF j(2)]
        by (auto simp: xor_poly_nth length_poly)
    next
      case False
      then show ?thesis
        using assms len by (auto simp: xor_poly_nth length_poly window_def)
    qed
  qed
qed

lemma window_divide:
  assumes "window m 0 r buf" "len + w \<le> length buf"
  shows "length (poly_divide poly len buf) = length buf \<and>
    window m len (crc_feed w P (map m [0..<len]) r) (poly_divide poly len buf)"
  using assms(2)
proof (induction len)
  case (Suc len)
  then show ?case
    using window_step [of m len "crc_feed w P (map m [0..<len]) r" "poly_divide poly len buf"]
    by (auto simp: poly_divide_def length_poly)
qed (use assms(1) in \<open>simp add: poly_divide_def\<close>)

theorem poly_divide_remainder:
  assumes "bits msg" "len \<le> length msg" "len + w \<le> N" "j < w"
  shows "poly_divide poly len (take len msg @ replicate (N - len) 0) ! (len + j) =
    of_bool (bit (crc_feed w P (map (\<lambda>x. x = 1) (take len msg)) 0) (w - 1 - j))"
proof -
  let ?buf = "take len msg @ replicate (N - len) 0"
  define m where "m k \<longleftrightarrow> k < len \<and> msg ! k = 1" for k
  have len: "length ?buf = N" using assms by simp
  have "msg ! k = of_bool (msg ! k = 1)" if "k < len" for k
    using bits_nth [OF assms(1), of k] that assms(2) by (simp add: less_2_cases_iff) auto
  then have "?buf ! k = of_bool (m k)" if "k < N" for k
    using assms(2,3) that by (simp add: m_def nth_append)
  then have "window m 0 0 ?buf" unfolding window_def len by simp
  moreover have "map m [0..<len] = map (\<lambda>x. x = 1) (take len msg)"
    using assms(2) by (intro nth_equalityI) (auto simp: m_def)
  ultimately show ?thesis
    using window_divide [of m 0 ?buf len] assms len by (auto simp: window_def m_def)
qed

theorem poly_divide_read:
  fixes msg :: bit_array and len :: nat
  defines "rem \<equiv> take_bit w (crc_feed w P (map odd (take len msg)) 0)"
  assumes "bits msg" "len \<le> length msg" "len + w \<le> N"
  shows "fold (\<lambda>i c. push_bit 1 c + of_nat (poly_divide poly len (take len msg @ replicate (N - len) 0) ! (len + i)))
      [0..<w] 0 = rem"
    and "fold (\<lambda>i c. push_bit 1 c OR of_nat (poly_divide poly len (take len msg @ replicate (N - len) 0) ! (len + i)))
      [0..<w] 0 = rem"
proof -
  let ?r = "crc_feed w P (map odd (take len msg)) 0"
  have rem: "poly_divide poly len (take len msg @ replicate (N - len) 0) ! (len + i) = of_bool (bit ?r (w - 1 - i))"
    if "i \<in> set [0..<w]" for i
    using poly_divide_remainder [OF assms(2-4), of i] that
    unfolding bits_odd [OF bits_take [OF assms(2)]] by (simp only: set_upt atLeastLessThan_iff)
  have word: "fold msb_shift (map (\<lambda>i. bit ?r (w - 1 - i)) [0..<w]) 0 = take_bit w ?r"
    using msb_word_msb_bits [of w ?r] by (simp add: msb_word_def msb_bits_def)
  have bit: "(of_bool b :: nat) < 2" "((of_bool b :: nat) = 1) = b" for b by simp_all
  show "fold (\<lambda>i c. push_bit 1 c + of_nat (poly_divide poly len (take len msg @ replicate (N - len) 0) ! (len + i)))
      [0..<w] 0 = rem"
    unfolding rem_def word [symmetric]
    by (rule fold_shift_msb) (simp only: rem add_bit_shift [OF bit(1)] bit(2))
  show "fold (\<lambda>i c. push_bit 1 c OR of_nat (poly_divide poly len (take len msg @ replicate (N - len) 0) ! (len + i)))
      [0..<w] 0 = rem"
    unfolding rem_def word [symmetric]
    by (rule fold_shift_msb) (simp only: rem or_bit_shift [OF bit(1)] bit(2))
qed

end

end
