(* ===== verification/Late_Entry.thy ===== *)
theory Late_Entry
  imports Fec_Tables Crc
begin

text \<open>
  DMR late entry, \<open>src/fec/dmr_late_entry.c\<close>: the message indicator and its CRC-4 travel as
  three Golay (24,12) words scattered over the voice frames of a superframe. The decoder
  collects the nibbles, corrects the three words and checks the CRC. Fragments are 64-bit
  words of which the low four bits count.
\<close>

section \<open>Model\<close>

definition dmr_late_entry_pack_fragments :: "u64 list \<Rightarrow> nat \<Rightarrow> u64" where
  "dmr_late_entry_pack_fragments fragments vc_base =
     fold (\<lambda>col packed. fold (\<lambda>row packed.
         push_bit 4 packed OR (fragments ! ((vc_base + row) * 3 + col) AND 0x0F)) [0..<3] packed) [0..<3] 0"

definition crc4_polynomial :: "nat list" where
  "crc4_polynomial = [1, 0, 0, 1, 1]"

definition dsd_dmr_crc4 :: "bit_array option \<Rightarrow> nat \<Rightarrow> u8" where
  "dsd_dmr_crc4 bs len =
     (case bs of
        None \<Rightarrow> 0
      | Some bs \<Rightarrow>
          if len > 256 - 4 then 0
          else let work = poly_divide crc4_polynomial len (take len bs @ replicate (256 - len) 0)
               in fold (\<lambda>i crc. push_bit 1 crc OR of_nat (work ! (len + i))) [0..<4] 0 XOR 0x0F)"

record late_entry_result =
  mi :: u32
  crc_ok :: bool

text \<open>The received word of a triplet: twelve information bits and twelve parity bits.\<close>

definition late_entry_codeword :: "u64 \<Rightarrow> u64 \<Rightarrow> nat \<Rightarrow> bit_array" where
  "late_entry_codeword mi_codewords parity_codewords triplet =
     map (\<lambda>b. unat (drop_bit 35 (push_bit (b + triplet * 12) mi_codewords AND 0x800000000)) mod 256) [0..<12] @
     map (\<lambda>b. unat (drop_bit 35 (push_bit (b + triplet * 12) parity_codewords AND 0x800000000)) mod 256) [0..<12]"

definition late_entry_step ::
  "fec_tables \<Rightarrow> u64 \<Rightarrow> u64 \<Rightarrow> nat \<Rightarrow> bit_array \<times> bool \<Rightarrow> bit_array \<times> bool" where
  "late_entry_step fec mi_codewords parity_codewords triplet st =
     (case st of (mi_bits, all_golay_pass) \<Rightarrow>
        let (ok, codeword) = Golay_24_12_decode (Golay_24_12_m_corr fec)
              (late_entry_codeword mi_codewords parity_codewords triplet)
        in (copy_into mi_bits (triplet * 12) (take 12 codeword), if ok then all_golay_pass else False))"

definition dsd_dmr_late_entry_decode ::
  "fec_tables \<Rightarrow> u64 list option \<Rightarrow> bool \<times> late_entry_result option" where
  "dsd_dmr_late_entry_decode fec fragments =
     (case fragments of
        None \<Rightarrow> (False, None)
      | Some fragments \<Rightarrow>
          let mi_codewords = dmr_late_entry_pack_fragments fragments 1;
              parity_codewords = dmr_late_entry_pack_fragments fragments 4;
              (mi_bits, all_golay_pass) =
                fold (late_entry_step fec mi_codewords parity_codewords) [0..<3] (replicate 36 0, True);
              mi = fold (\<lambda>i mi. push_bit 1 mi OR of_nat (mi_bits ! i)) [0..<32] 0;
              extracted_crc = fold (\<lambda>i crc. push_bit 1 crc OR of_nat (mi_bits ! i)) [32..<36] 0
          in (all_golay_pass, Some \<lparr>mi = mi, crc_ok = (extracted_crc = dsd_dmr_crc4 (Some mi_bits) 32)\<rparr>))"

section \<open>Correctness\<close>

interpretation c4: crc_divider 4 "0x3 :: u8" crc4_polynomial
  by unfold_locales (simp_all add: crc4_polynomial_def msb_bits_def upt_rec)

lemma dsd_dmr_crc4_feed:
  assumes "bits bs" "len \<le> length bs" "len \<le> 252"
  shows "dsd_dmr_crc4 (Some bs) len = take_bit 4 (crc_feed 4 0x3 (map odd (take len bs)) 0) XOR 0x0F"
  using assms c4.poly_divide_read(2) [of bs len 256] by (simp add: dsd_dmr_crc4_def)

text \<open>The bits of an array as a number.\<close>

definition bits_of :: "nat \<Rightarrow> 'a::len word \<Rightarrow> bit_array" where
  "bits_of w x = map of_bool (msb_bits w x)"

lemma bits_bits_of [simp]: "bits (bits_of w x)"
  by (auto simp: bits_def bits_of_def)

lemma length_bits_of [simp, len_simps]: "length (bits_of w x) = w"
  by (simp add: bits_of_def)

lemma odd_bits_of [simp]: "map odd (bits_of w x) = msb_bits w x"
  by (simp add: bits_of_def comp_def)

text \<open>
  How a message indicator travels, written down without the decoder's packing: its thirty-two bits
  and the four check bits \<open>k\<close>, the highest first, are the information of three Golay words of
  twelve; bit \<open>b\<close> of word \<open>t\<close> (information first, then parity) is bit \<open>3 - b mod 4\<close> of the nibble in
  fragment \<open>t\<close> of the voice frame \<open>1 + b div 4\<close>, where each voice frame has three fragments. Frame 0
  carries none of it.
\<close>

definition late_entry_sent :: "u32 \<Rightarrow> u8 \<Rightarrow> nat \<Rightarrow> bit_array" where
  "late_entry_sent m k t =
     Golay_24_12_encode (map of_bool (take 12 (drop (12 * t) (msb_bits 32 m @ msb_bits 4 k))))"

definition late_entry_received :: "u64 list \<Rightarrow> nat \<Rightarrow> bit_array" where
  "late_entry_received fragments t =
     map (\<lambda>b. of_bool (bit (fragments ! (3 * (1 + b div 4) + t)) (3 - b mod 4))) [0..<24]"

lemma top_bit_read:
  assumes "s < 36"
  shows "unat (drop_bit 35 (push_bit s x) AND 1) mod 256 = of_bool (bit (x :: u64) (35 - s))"
proof -
  have "drop_bit 35 (push_bit s x) AND 1 = of_bool (bit (push_bit s x) 35)"
    by (simp only: and_one_eq mod_2_eq_odd bit_iff_odd_drop_bit)
  also have "bit (push_bit s x) 35 = bit x (35 - s)" using assms by (simp add: bit_push_bit_iff)
  finally show ?thesis by simp
qed

lemma nibbles_bit:
  "length xs \<le> 16 \<Longrightarrow> j < 4 * length xs \<Longrightarrow>
   bit (fold (\<lambda>x packed. push_bit 4 packed OR (x AND 0x0F)) xs (0 :: u64)) j = bit (xs ! (length xs - 1 - j div 4)) (j mod 4)"
proof (induction xs arbitrary: j rule: rev_induct)
  case (snoc x xs)
  have low: "bit (x AND 0x0F) j \<longleftrightarrow> j < 4 \<and> bit x j" using bit_mask_iff [of 4 j, where 'a = u64] by (auto simp: bit_and_iff mask_eq_exp_minus_1)
  show ?case
  proof (cases "j < 4")
    case True
    then show ?thesis using low by (simp add: bit_or_iff bit_push_bit_iff)
  next
    case False
    then have "j div 4 = Suc ((j - 4) div 4)" "j mod 4 = (j - 4) mod 4" by (simp_all add: le_div_geq le_mod_geq)
    moreover have "(j - 4) div 4 < length xs" using False snoc.prems by auto
    ultimately show ?thesis
      using False low snoc.prems snoc.IH [of "j - 4"] by (auto simp: bit_or_iff bit_push_bit_iff nth_append)
  qed
qed simp

lemma pack_nibbles:
  "dmr_late_entry_pack_fragments f v =
   fold (\<lambda>x packed. push_bit 4 packed OR (x AND 0x0F)) (map (\<lambda>n. f ! ((v + n mod 3) * 3 + n div 3)) [0..<9]) 0"
  by (simp add: dmr_late_entry_pack_fragments_def upt_rec)

lemma pack_bit:
  assumes "t < 3" "b < 12"
  shows "bit (dmr_late_entry_pack_fragments f v) (35 - (b + t * 12)) = bit (f ! ((v + b div 4) * 3 + t)) (3 - b mod 4)"
proof -
  have d: "b div 4 < 3" "b mod 4 < 4" using assms(2) by auto
  define n where "n = 3 * t + b div 4"
  have n: "n < 9" "n mod 3 = b div 4" "n div 3 = t" using assms(1) d(1) by (auto simp: n_def)
  have "b + t * 12 = 4 * n + b mod 4" by (simp add: n_def)
  then have j: "35 - (b + t * 12) = 4 * (8 - n) + (3 - b mod 4)" using n(1) d(2) by linarith
  have q: "(35 - (b + t * 12)) div 4 = 8 - n" "(35 - (b + t * 12)) mod 4 = 3 - b mod 4" using d(2) unfolding j by (simp_all del: add_diff_assoc add_diff_assoc2 diff_add_assoc diff_add_assoc2)
  show ?thesis
    using n d(2) by (simp add: pack_nibbles nibbles_bit q nth_append del: upt_Suc upt_rec_numeral)
qed

lemma codeword_received:
  assumes "t < 3"
  shows "late_entry_codeword (dmr_late_entry_pack_fragments f 1) (dmr_late_entry_pack_fragments f 4) t = late_entry_received f t"
proof (rule nth_equalityI)
  fix b
  assume "b < length (late_entry_codeword (dmr_late_entry_pack_fragments f 1) (dmr_late_entry_pack_fragments f 4) t)"
  then have b: "b < 24" by (simp add: late_entry_codeword_def)
  have "late_entry_codeword (dmr_late_entry_pack_fragments f 1) (dmr_late_entry_pack_fragments f 4) t ! b =
      of_bool (if b < 12 then bit (dmr_late_entry_pack_fragments f 1) (35 - (b + t * 12))
        else bit (dmr_late_entry_pack_fragments f 4) (35 - (b - 12 + t * 12)))"
    using assms b by (simp add: late_entry_codeword_def nth_append top_bit_read del: upt_rec_numeral)
  also have "\<dots> = late_entry_received f t ! b"
  proof (cases "b < 12")
    case True
    then show ?thesis using assms b by (simp add: late_entry_received_def pack_bit ac_simps del: upt_rec_numeral)
  next
    case False
    define c where "c = b - 12"
    have c: "b = 12 + c" "c < 12" using b False by (simp_all add: c_def)
    have q: "b div 4 = 3 + c div 4" "b mod 4 = c mod 4" using mod_mult_self2 [of c 4 3] by (simp_all add: c(1) add.commute)
    show ?thesis using pack_bit [OF assms c(2), of f 4] False b
      by (simp add: late_entry_received_def q c_def [symmetric] ac_simps del: upt_rec_numeral)
  qed
  finally show "late_entry_codeword (dmr_late_entry_pack_fragments f 1) (dmr_late_entry_pack_fragments f 4) t ! b =
      late_entry_received f t ! b" .
qed (simp add: late_entry_codeword_def late_entry_received_def)

lemma take_bit_word_below_16: "k < 16 \<Longrightarrow> take_bit 4 k = (k :: u8)"
  using less_mask_eq [of k 4] by (simp add: take_bit_eq_mask mask_eq_exp_minus_1)

lemma late_entry_step_corrects:
  assumes "late_entry_codeword a b t = flips ps (Golay_24_12_encode m)" "bits m" "length m = 12"
    "positions 24 ps" "length ps \<le> 3"
  shows "late_entry_step InitAllFecFunction a b t (mi_bits, pass) = (copy_into mi_bits (t * 12) m, pass)"
  using c24.corrects [OF encode_codeword assms(4,5), of m] assms
  by (simp add: late_entry_step_def encode_systematic)

lemma copy_three:
  assumes "length x = 12" "length y = 12" "length z = 12"
  shows "copy_into (copy_into (copy_into (replicate 36 0) 0 x) 12 y) 24 z = x @ y @ (z :: nat list)"
  using assms by (simp add: copy_into_def)

lemma dsd_dmr_crc4_prefix:
  "32 \<le> length bs \<Longrightarrow> dsd_dmr_crc4 (Some (bs @ cs)) 32 = dsd_dmr_crc4 (Some bs) 32"
  by (simp add: dsd_dmr_crc4_def)

text \<open>
  C24. A message indicator sent with any four check bits, as three Golay words laid over the voice
  frames of a superframe, is recovered, whatever at most three bits of each word are wrong. The check
  is confirmed exactly when the four bits are the inverted CRC of the indicator under
  \<open>x^4 + x + 1\<close>.
\<close>

theorem late_entry_decodes:
  assumes "k < 16"
    and "\<forall>t < 3. positions 24 (e t) \<and> length (e t) \<le> 3 \<and>
      late_entry_received fragments t = flips (e t) (late_entry_sent m k t)"
  shows "dsd_dmr_late_entry_decode InitAllFecFunction (Some fragments) =
    (True, Some \<lparr>mi = m, crc_ok = (k = take_bit 4 (crc_feed 4 0x3 (msb_bits 32 m) 0) XOR 0x0F)\<rparr>)"
proof -
  let ?a = "dmr_late_entry_pack_fragments fragments 1" and ?b = "dmr_late_entry_pack_fragments fragments 4"
  let ?bs = "bits_of 32 m @ bits_of 4 k"
  define x where "x t = take 12 (drop (12 * t) ?bs)" for t
  have x: "length (x t) = 12" "bits (x t)" "late_entry_sent m k t = Golay_24_12_encode (x t)" if "t < 3" for t
    using that by (auto simp: x_def late_entry_sent_def bits_of_def bits_def take_map drop_map
        dest!: in_set_takeD in_set_dropD)
  have up: "[0..<3] = [0, 1, 2]" by (simp add: upt_rec)
  have step: "late_entry_step InitAllFecFunction ?a ?b t (mi_bits, pass) = (copy_into mi_bits (t * 12) (x t), pass)"
    if "t < 3" for t mi_bits pass
    using that assms(2) x codeword_received [OF that, of fragments]
    by (intro late_entry_step_corrects [where ps = "e t"]) simp_all
  have bs: "x 0 @ x 1 @ x 2 = ?bs" "bits ?bs" by (simp_all add: x_def del: append_assoc flip: append_assoc take_add)
  have loop: "fold (late_entry_step InitAllFecFunction ?a ?b) [0..<3] (replicate 36 0, True) = (?bs, True)"
    unfolding up using copy_three [of "x 0" "x 1" "x 2"] x(1) bs(1) by (simp add: step del: One_nat_def)
  have "fold (\<lambda>i mi. push_bit 1 mi OR of_nat (?bs ! i)) [0..<32] 0 = (msb_word (map odd (take 32 ?bs)) :: u32)"
    using read_field_or [OF bs(2), of 0 32] by simp
  then have mi: "fold (\<lambda>i mi. push_bit 1 mi OR of_nat (?bs ! i)) [0..<32] 0 = m"
    by (simp add: msb_word_msb_bits take_bit_word_eq_self)
  have up4: "[32..<36] = map (\<lambda>i. i + 32) [0..<4]" by (simp add: upt_rec)
  have "fold (\<lambda>i crc. push_bit 1 crc OR of_nat (?bs ! i)) [32..<36] 0 =
      fold (\<lambda>i crc. push_bit 1 crc OR of_nat (?bs ! (i + 32))) [0..<4] (0::u8)"
    unfolding up4 fold_map comp_def ..
  also have "\<dots> = msb_word (map odd (take 4 (drop 32 ?bs)))"
    using read_field_or [OF bs(2), of 32 4] by simp
  also have "\<dots> = k" using assms(1) by (simp add: msb_word_msb_bits take_bit_word_below_16)
  finally have k: "fold (\<lambda>i crc. push_bit 1 crc OR of_nat (?bs ! i)) [32..<36] 0 = k" .
  have "dsd_dmr_crc4 (Some ?bs) 32 = take_bit 4 (crc_feed 4 0x3 (msb_bits 32 m) 0) XOR 0x0F"
    using dsd_dmr_crc4_feed [OF bs(2), of 32] by simp
  then show ?thesis
    unfolding dsd_dmr_late_entry_decode_def option.case Let_def loop prod.case mi k by simp
qed

lemma late_entry_example:
  "Golay_24_12_encode [1, 0, 0, 0, 0, 0, 0, 0, 0, 0, 0, 0] = [1, 0, 0, 0, 0, 0, 0, 0, 0, 0, 0, 0, 1, 1, 0, 0, 0, 1, 1, 1, 0, 1, 0, 1]"
  "Golay_24_12_encode [0, 0, 0, 0, 0, 0, 0, 0, 0, 0, 0, 0] = [0, 0, 0, 0, 0, 0, 0, 0, 0, 0, 0, 0, 0, 0, 0, 0, 0, 0, 0, 0, 0, 0, 0, 0]"
  "Golay_24_12_encode [0, 0, 0, 0, 0, 0, 0, 1, 1, 0, 1, 0] = [0, 0, 0, 0, 0, 0, 0, 1, 1, 0, 1, 0, 0, 1, 1, 1, 1, 0, 0, 1, 1, 1, 1, 1]"
  by (simp_all add: Golay_24_12_encode_def Golay_24_12_m_G_def upt_rec)

theorem late_entry_decodes_witness:
  "dsd_dmr_late_entry_decode InitAllFecFunction
     (Some [0, 0, 0, 0, 0, 0, 0, 4, 1, 0, 0, 10, 8, 0, 7, 7, 0, 9, 7, 0, 15]) =
   (True, Some \<lparr>mi = 0x80000001, crc_ok = True\<rparr>)"
proof -
  let ?f = "[0, 0, 0, 0, 0, 0, 0, 4, 1, 0, 0, 10, 8, 0, 7, 7, 0, 9, 7, 0, 15]"
  let ?e = "(\<lambda>_. [] :: nat list)(0 := [0, 13, 22], Suc 0 := [5])"
  have "positions 24 (?e t) \<and> length (?e t) \<le> 3 \<and>
      late_entry_received ?f t = flips (?e t) (late_entry_sent 0x80000001 0xA t)" if "t < 3" for t
  proof -
    from that consider "t = 0" | "t = Suc 0" | "t = 2" by linarith
    then show ?thesis
      by cases (simp_all add: late_entry_received_def late_entry_sent_def msb_bits_def upt_rec positions_def flip_at_def
          late_entry_example [simplified One_nat_def])
  qed
  then have "\<forall>t < 3. positions 24 (?e t) \<and> length (?e t) \<le> 3 \<and>
      late_entry_received ?f t = flips (?e t) (late_entry_sent 0x80000001 0xA t)" by blast
  from late_entry_decodes [OF _ this]
  show ?thesis by (simp add: msb_bits_def upt_rec crc_feed_def crc_step_def)
qed

end
