(* ===== verification/Rs_Field.thy ===== *)
theory Rs_Field
  imports Prelude
begin

text \<open>
  The field GF(256) of the Reed-Solomon decoder, \<open>src/fec/rs-12-9.c\<close>: the exponent and
  logarithm tables, multiplication and inversion. A byte is a natural below 256. The
  tables are shown to be the powers of the generator modulo \<open>0x11D\<close> and their inverse,
  so that table multiplication is the product of a field whose addition is xor. The
  locale \<open>byte_field\<close> is the interface the decoder's proofs rely on.
\<close>

section \<open>Tables\<close>

definition rs_12_9_galois_exp_table :: "nat list" where
  "rs_12_9_galois_exp_table =
    [1, 2, 4, 8, 16, 32, 64, 128, 29, 58, 116, 232, 205, 135, 19, 38,
     76, 152, 45, 90, 180, 117, 234, 201, 143, 3, 6, 12, 24, 48, 96, 192,
     157, 39, 78, 156, 37, 74, 148, 53, 106, 212, 181, 119, 238, 193, 159, 35,
     70, 140, 5, 10, 20, 40, 80, 160, 93, 186, 105, 210, 185, 111, 222, 161,
     95, 190, 97, 194, 153, 47, 94, 188, 101, 202, 137, 15, 30, 60, 120, 240,
     253, 231, 211, 187, 107, 214, 177, 127, 254, 225, 223, 163, 91, 182, 113, 226,
     217, 175, 67, 134, 17, 34, 68, 136, 13, 26, 52, 104, 208, 189, 103, 206,
     129, 31, 62, 124, 248, 237, 199, 147, 59, 118, 236, 197, 151, 51, 102, 204,
     133, 23, 46, 92, 184, 109, 218, 169, 79, 158, 33, 66, 132, 21, 42, 84,
     168, 77, 154, 41, 82, 164, 85, 170, 73, 146, 57, 114, 228, 213, 183, 115,
     230, 209, 191, 99, 198, 145, 63, 126, 252, 229, 215, 179, 123, 246, 241, 255,
     227, 219, 171, 75, 150, 49, 98, 196, 149, 55, 110, 220, 165, 87, 174, 65,
     130, 25, 50, 100, 200, 141, 7, 14, 28, 56, 112, 224, 221, 167, 83, 166,
     81, 162, 89, 178, 121, 242, 249, 239, 195, 155, 43, 86, 172, 69, 138, 9,
     18, 36, 72, 144, 61, 122, 244, 245, 247, 243, 251, 235, 203, 139, 11, 22,
     44, 88, 176, 125, 250, 233, 207, 131, 27, 54, 108, 216, 173, 71, 142, 1]"

definition rs_12_9_galois_log_table :: "nat list" where
  "rs_12_9_galois_log_table =
    [0, 0, 1, 25, 2, 50, 26, 198, 3, 223, 51, 238, 27, 104, 199, 75,
     4, 100, 224, 14, 52, 141, 239, 129, 28, 193, 105, 248, 200, 8, 76, 113,
     5, 138, 101, 47, 225, 36, 15, 33, 53, 147, 142, 218, 240, 18, 130, 69,
     29, 181, 194, 125, 106, 39, 249, 185, 201, 154, 9, 120, 77, 228, 114, 166,
     6, 191, 139, 98, 102, 221, 48, 253, 226, 152, 37, 179, 16, 145, 34, 136,
     54, 208, 148, 206, 143, 150, 219, 189, 241, 210, 19, 92, 131, 56, 70, 64,
     30, 66, 182, 163, 195, 72, 126, 110, 107, 58, 40, 84, 250, 133, 186, 61,
     202, 94, 155, 159, 10, 21, 121, 43, 78, 212, 229, 172, 115, 243, 167, 87,
     7, 112, 192, 247, 140, 128, 99, 13, 103, 74, 222, 237, 49, 197, 254, 24,
     227, 165, 153, 119, 38, 184, 180, 124, 17, 68, 146, 217, 35, 32, 137, 46,
     55, 63, 209, 91, 149, 188, 207, 205, 144, 135, 151, 178, 220, 252, 190, 97,
     242, 86, 211, 171, 20, 42, 93, 158, 132, 60, 57, 83, 71, 109, 65, 162,
     31, 45, 67, 216, 183, 123, 164, 118, 196, 23, 73, 236, 127, 12, 111, 246,
     108, 161, 59, 82, 41, 157, 85, 170, 251, 96, 134, 177, 187, 204, 62, 90,
     203, 89, 95, 176, 156, 169, 160, 81, 11, 245, 22, 235, 122, 117, 44, 215,
     79, 174, 213, 233, 230, 231, 173, 232, 116, 214, 244, 234, 168, 80, 88, 175]"

section \<open>Field arithmetic\<close>

definition rs_12_9_galois_exp_table_get :: "nat \<Rightarrow> nat" where
  "rs_12_9_galois_exp_table_get pos = rs_12_9_galois_exp_table ! pos"

definition rs_12_9_galois_multiplication :: "nat \<Rightarrow> nat \<Rightarrow> nat" where
  "rs_12_9_galois_multiplication a b =
     (if a = 0 \<or> b = 0 then 0
      else rs_12_9_galois_exp_table ! ((rs_12_9_galois_log_table ! a + rs_12_9_galois_log_table ! b) mod 255))"

definition rs_12_9_galois_inv :: "nat \<Rightarrow> nat" where
  "rs_12_9_galois_inv elt = rs_12_9_galois_exp_table ! (255 - rs_12_9_galois_log_table ! elt)"

section \<open>The tables are powers of the generator\<close>

text \<open>Multiplication by the generator \<open>x\<close> modulo the field polynomial \<open>0x11D\<close>.\<close>

definition xtime :: "nat \<Rightarrow> nat" where
  "xtime a = push_bit 1 a XOR (if bit a 7 then 0x11D else 0)"

lemma xtime_xor: "xtime (a XOR b) = xtime a XOR xtime b"
  by (simp add: xtime_def push_bit_xor bit_xor_iff ac_simps)

lemma xtime_zero [simp]: "xtime 0 = 0"
  by (simp add: xtime_def)

definition xpow :: "nat \<Rightarrow> nat \<Rightarrow> nat" where
  "xpow i a = (xtime ^^ i) a"

lemma xtime_byte: "a < 256 \<Longrightarrow> xtime a = (if a < 128 then 2 * a else (2 * a) XOR 0x11D)"
proof -
  assume "a < 256"
  then have "a div 128 = (if a < 128 then 0 else 1)"
    by (auto intro: div_nat_eqI)
  then have "bit a 7 \<longleftrightarrow> \<not> a < 128" by (simp add: bit_iff_odd)
  then show ?thesis by (simp add: xtime_def mult.commute)
qed

lemma xpow_xor: "xpow i (a XOR b) = xpow i a XOR xpow i b"
  by (induction i) (simp_all add: xpow_def xtime_xor)

lemma xpow_zero [simp]: "xpow i 0 = 0"
  by (induction i) (simp_all add: xpow_def)

lemma xpow_0 [simp]: "xpow 0 a = a"
  by (simp add: xpow_def)

lemma xpow_add: "xpow (i + j) a = xpow i (xpow j a)"
  by (simp add: xpow_def funpow_add)

primrec doubling_chain :: "nat \<Rightarrow> nat list \<Rightarrow> bool" where
  "doubling_chain a [] = True"
| "doubling_chain a (b # bs) =
     ((if a < 128 then b = 2 * a else (2 * a) XOR 0x11D = b) \<and> doubling_chain b bs)"

primrec logs_from :: "nat \<Rightarrow> nat list \<Rightarrow> bool" where
  "logs_from i [] = True"
| "logs_from i (b # bs) = (rs_12_9_galois_log_table ! b = i \<and> logs_from (Suc i) bs)"

lemma exp_table_chain: "doubling_chain 1 (tl rs_12_9_galois_exp_table)"
  by (simp only: rs_12_9_galois_exp_table_def) simp

lemma log_table_inverts: "logs_from 0 (butlast rs_12_9_galois_exp_table)"
  by (simp only: rs_12_9_galois_exp_table_def butlast.simps list.distinct if_False)
    (simp add: rs_12_9_galois_log_table_def)

lemma exp_table_bytes: "\<forall>a \<in> set rs_12_9_galois_exp_table. 0 < a \<and> a < 256"
  by (simp only: rs_12_9_galois_exp_table_def) simp

lemma table_lengths: "length rs_12_9_galois_exp_table = 256" "length rs_12_9_galois_log_table = 256"
  by (simp_all only: rs_12_9_galois_exp_table_def rs_12_9_galois_log_table_def) simp_all

lemma exp_table_hd: "rs_12_9_galois_exp_table = 1 # tl rs_12_9_galois_exp_table"
  by (simp only: rs_12_9_galois_exp_table_def) simp

lemma exp_table_last: "rs_12_9_galois_exp_table ! 255 = 1"
  by (simp only: rs_12_9_galois_exp_table_def) simp

lemma doubling_chain_nth:
  "doubling_chain a bs \<Longrightarrow> \<forall>b \<in> set (a # bs). b < 256 \<Longrightarrow> i \<le> length bs \<Longrightarrow>
   (a # bs) ! i = xpow i a"
proof (induction bs arbitrary: a i)
  case (Cons b bs)
  show ?case
  proof (cases i)
    case (Suc j)
    have "xtime a = b" using Cons.prems by (auto simp: xtime_byte split: if_splits)
    moreover have "(b # bs) ! j = xpow j b" using Cons Suc by auto
    ultimately show ?thesis using Suc by (simp add: xpow_def funpow_swap1)
  qed simp
qed simp

lemma logs_from_nth: "logs_from i bs \<Longrightarrow> j < length bs \<Longrightarrow> rs_12_9_galois_log_table ! (bs ! j) = i + j"
proof (induction bs arbitrary: i j)
  case (Cons b bs)
  then show ?case by (cases j) auto
qed simp

text \<open>The powers of the generator.\<close>

definition gen_pow :: "nat \<Rightarrow> nat" where
  "gen_pow i = xpow i 1"

lemma exp_table_nth: "i \<le> 255 \<Longrightarrow> rs_12_9_galois_exp_table ! i = gen_pow i"
proof -
  assume i: "i \<le> 255"
  have bytes: "\<forall>b \<in> set (1 # tl rs_12_9_galois_exp_table). b < 256"
    using exp_table_bytes by (subst exp_table_hd [symmetric]) blast
  have "i \<le> length (tl rs_12_9_galois_exp_table)" using i by (simp add: table_lengths)
  from doubling_chain_nth [OF exp_table_chain bytes this] show ?thesis
    by (simp only: exp_table_hd [symmetric] gen_pow_def)
qed

lemma gen_pow_0 [simp]: "gen_pow 0 = 1"
  by (simp add: gen_pow_def)

lemma gen_pow_255: "gen_pow 255 = 1"
  using exp_table_nth [of 255] exp_table_last by simp

lemma gen_pow_add: "gen_pow (i + j) = xpow i (gen_pow j)"
  by (simp add: gen_pow_def xpow_add)

lemma gen_pow_period: "gen_pow (i + 255) = gen_pow i"
  by (simp add: gen_pow_add gen_pow_255) (simp add: gen_pow_def)

lemma gen_pow_mod: "gen_pow (i mod 255) = gen_pow i"
proof -
  have "gen_pow (r + 255 * q) = gen_pow r" for r q
  proof (induction q)
    case (Suc q)
    have "r + 255 * Suc q = (r + 255 * q) + 255" by simp
    then show ?case using Suc by (simp only: gen_pow_period)
  qed simp
  from this [of "i mod 255" "i div 255"] show ?thesis by simp
qed


lemma mod_255_less: "i mod 255 < (255::nat)"
  by simp

lemma gen_pow_byte: "0 < gen_pow i \<and> gen_pow i < 256"
proof -
  have i: "i mod 255 < 255" by (rule mod_255_less)
  then have "rs_12_9_galois_exp_table ! (i mod 255) \<in> set rs_12_9_galois_exp_table"
    by (intro nth_mem) (simp add: table_lengths)
  moreover have "rs_12_9_galois_exp_table ! (i mod 255) = gen_pow i"
    using i by (simp add: exp_table_nth gen_pow_mod)
  ultimately show ?thesis using exp_table_bytes by metis
qed

lemma log_gen_pow: "i < 255 \<Longrightarrow> rs_12_9_galois_log_table ! gen_pow i = i"
  using logs_from_nth [OF log_table_inverts, of i] exp_table_nth [of i]
  by (simp add: table_lengths nth_butlast)

lemma gen_pow_inj: "inj_on gen_pow {..<255}"
  by (rule inj_on_inverseI [of _ "(!) rs_12_9_galois_log_table"]) (simp add: log_gen_pow)

lemma gen_pow_surj: "gen_pow ` {..<255} = {1..<256}"
proof (rule card_subset_eq)
  show "gen_pow ` {..<255} \<subseteq> {1..<256}" using gen_pow_byte by (auto simp: Suc_le_eq)
  show "card (gen_pow ` {..<255}) = card {1..<(256::nat)}"
    by (simp add: card_image gen_pow_inj)
qed simp

text \<open>The discrete logarithm of the table.\<close>

definition log_of :: "nat \<Rightarrow> nat" where
  "log_of a = rs_12_9_galois_log_table ! a"

lemma log_of_props: "0 < a \<Longrightarrow> a < 256 \<Longrightarrow> log_of a < 255 \<and> gen_pow (log_of a) = a"
proof -
  assume "0 < a" "a < 256"
  then have "a \<in> gen_pow ` {..<255}" by (simp add: gen_pow_surj)
  then obtain i where "i < 255" "a = gen_pow i" by auto
  then show ?thesis by (simp add: log_of_def log_gen_pow)
qed

lemma log_of_less: "0 < a \<Longrightarrow> a < 256 \<Longrightarrow> log_of a < 255"
  and gen_pow_log: "0 < a \<Longrightarrow> a < 256 \<Longrightarrow> gen_pow (log_of a) = a"
  using log_of_props by blast+

lemma gen_pow_eq_one: "gen_pow i = 1 \<longleftrightarrow> i mod 255 = 0"
proof
  assume "gen_pow i = 1"
  then have "gen_pow (i mod 255) = gen_pow 0" by (simp add: gen_pow_mod)
  then show "i mod 255 = 0" using inj_onD [OF gen_pow_inj, of "i mod 255" 0] by simp
next
  assume "i mod 255 = 0"
  then show "gen_pow i = 1" using gen_pow_mod [of i] by simp
qed

section \<open>Multiplication is the field product\<close>

lemma mul_zero [simp]:
  "rs_12_9_galois_multiplication 0 b = 0" "rs_12_9_galois_multiplication a 0 = 0"
  by (simp_all add: rs_12_9_galois_multiplication_def)

lemma mul_gen_pow: "rs_12_9_galois_multiplication (gen_pow i) (gen_pow j) = gen_pow (i + j)"
proof -
  have l: "rs_12_9_galois_log_table ! gen_pow k = k mod 255" for k
    using log_gen_pow [of "k mod 255"] by (simp add: gen_pow_mod)
  have "rs_12_9_galois_multiplication (gen_pow i) (gen_pow j) =
        rs_12_9_galois_exp_table ! ((i mod 255 + j mod 255) mod 255)"
    using gen_pow_byte [of i] gen_pow_byte [of j] by (simp add: rs_12_9_galois_multiplication_def l)
  also have "\<dots> = rs_12_9_galois_exp_table ! ((i + j) mod 255)" by (simp add: mod_add_eq)
  also have "\<dots> = gen_pow (i + j)"
    using mod_255_less [of "i + j"] by (simp add: exp_table_nth gen_pow_mod)
  finally show ?thesis .
qed

lemma mul_xpow: "0 < a \<Longrightarrow> a < 256 \<Longrightarrow> b < 256 \<Longrightarrow> rs_12_9_galois_multiplication a b = xpow (log_of a) b"
proof (cases "b = 0")
  case False
  assume "0 < a" "a < 256" "b < 256"
  then have "rs_12_9_galois_multiplication (gen_pow (log_of a)) (gen_pow (log_of b)) = xpow (log_of a) (gen_pow (log_of b))"
    by (simp add: mul_gen_pow gen_pow_add)
  then show ?thesis using \<open>0 < a\<close> \<open>a < 256\<close> \<open>b < 256\<close> False by (simp add: gen_pow_log)
qed simp

lemma inv_gen_pow: "i < 255 \<Longrightarrow> rs_12_9_galois_inv (gen_pow i) = gen_pow (255 - i)"
  by (simp add: rs_12_9_galois_inv_def log_gen_pow exp_table_nth)


lemma byte_xor: "a < 256 \<Longrightarrow> b < 256 \<Longrightarrow> a XOR b < (256::nat)"
  using take_bit_xor [of 8 a b] take_bit_nat_eq_self [of a 8] take_bit_nat_eq_self [of b 8]
    take_bit_nat_less_exp [of 8 "a XOR b"] by simp

section \<open>Arithmetic in a field of bytes\<close>

locale byte_field =
  fixes mul :: "nat \<Rightarrow> nat \<Rightarrow> nat" and inv :: "nat \<Rightarrow> nat"
  assumes mul_byte: "a < 256 \<Longrightarrow> b < 256 \<Longrightarrow> mul a b < 256"
    and inv_byte: "0 < a \<Longrightarrow> a < 256 \<Longrightarrow> inv a < 256"
    and mul_comm: "mul a b = mul b a"
    and mul_assoc: "a < 256 \<Longrightarrow> b < 256 \<Longrightarrow> c < 256 \<Longrightarrow> mul (mul a b) c = mul a (mul b c)"
    and mul_one: "b < 256 \<Longrightarrow> mul 1 b = b"
    and mul_null: "mul 0 b = 0"
    and mul_xor: "a < 256 \<Longrightarrow> b < 256 \<Longrightarrow> c < 256 \<Longrightarrow> mul a (b XOR c) = mul a b XOR mul a c"
    and mul_inv: "0 < a \<Longrightarrow> a < 256 \<Longrightarrow> mul a (inv a) = 1"
begin

lemma mul_cancel: "a < 256 \<Longrightarrow> 0 < b \<Longrightarrow> b < 256 \<Longrightarrow> mul (mul a b) (inv b) = a"
  by (simp add: mul_assoc inv_byte mul_inv mul_comm [of a 1] mul_one del: One_nat_def)

lemma mul_eq_zero: "a < 256 \<Longrightarrow> b < 256 \<Longrightarrow> mul a b = 0 \<longleftrightarrow> a = 0 \<or> b = 0"
  using mul_cancel [of a b] mul_null mul_comm by (metis gr0I)

text \<open>Horner evaluation of a message at a point, and its behaviour under a symbol error.\<close>

primrec horner :: "nat \<Rightarrow> nat list \<Rightarrow> nat \<Rightarrow> nat" where
  "horner g [] acc = acc"
| "horner g (c # cs) acc = horner g cs (c XOR mul g acc)"

lemma horner_byte: "g < 256 \<Longrightarrow> acc < 256 \<Longrightarrow> \<forall>c \<in> set cs. c < 256 \<Longrightarrow> horner g cs acc < 256"
  by (induction cs arbitrary: acc) (simp_all add: mul_byte byte_xor)

lemma horner_acc:
  "g < 256 \<Longrightarrow> acc < 256 \<Longrightarrow> e < 256 \<Longrightarrow> \<forall>c \<in> set cs. c < 256 \<Longrightarrow>
   horner g cs (acc XOR e) = horner g cs acc XOR (mul g ^^ length cs) e"
proof (induction cs arbitrary: acc e)
  case (Cons c cs)
  have "c XOR mul g (acc XOR e) = (c XOR mul g acc) XOR mul g e"
    using Cons.prems by (simp add: mul_xor xor.assoc)
  then show ?case using Cons by (simp add: mul_byte byte_xor funpow_swap1)
qed simp

lemma horner_append: "horner g (xs @ ys) acc = horner g ys (horner g xs acc)"
  by (induction xs arbitrary: acc) simp_all

lemma horner_error:
  assumes "g < 256" "\<forall>c \<in> set cs. c < 256" "p < length cs" "e < 256"
  shows "horner g (cs[p := cs ! p XOR e]) 0 = horner g cs 0 XOR (mul g ^^ (length cs - 1 - p)) e"
proof -
  define xs where "xs = take p cs"
  define ys where "ys = drop (Suc p) cs"
  have cs: "cs = xs @ cs ! p # ys" "length xs = p"
    using assms(3) by (simp_all add: xs_def ys_def id_take_nth_drop [symmetric])
  have upd: "cs[p := cs ! p XOR e] = xs @ (cs ! p XOR e) # ys"
    using assms(3) by (simp add: upd_conv_take_nth_drop xs_def ys_def)
  have bytes: "\<forall>c \<in> set xs. c < 256" "cs ! p < 256" "\<forall>c \<in> set ys. c < 256"
    using assms(2,3) by (auto simp: xs_def ys_def dest: in_set_takeD in_set_dropD)
  define acc where "acc = cs ! p XOR mul g (horner g xs 0)"
  have acc: "acc < 256" by (simp add: acc_def assms(1) bytes byte_xor mul_byte horner_byte)
  have "horner g (cs[p := cs ! p XOR e]) 0 = horner g ys (acc XOR e)"
    unfolding upd by (simp add: horner_append acc_def ac_simps)
  also have "\<dots> = horner g ys acc XOR (mul g ^^ length ys) e"
    using assms bytes acc by (simp add: horner_acc)
  also have "horner g ys acc = horner g cs 0"
    using arg_cong [OF cs(1), of "\<lambda>cs. horner g cs 0"] by (simp add: horner_append acc_def)
  finally show ?thesis by (simp add: ys_def)
qed

end

lemma bytes_cases: "a < 256 \<Longrightarrow> a = 0 \<or> (\<exists>i < 255. a = gen_pow i)"
  using log_of_props [of a] by (metis gr0I)

interpretation gf: byte_field rs_12_9_galois_multiplication rs_12_9_galois_inv
proof
  fix a b c :: nat
  show "rs_12_9_galois_multiplication a b = rs_12_9_galois_multiplication b a"
    by (simp add: rs_12_9_galois_multiplication_def add.commute)
  show "rs_12_9_galois_multiplication 0 b = 0" by simp
  { assume "0 < a" "a < 256"
    then obtain i where i: "i < 255" "a = gen_pow i" using bytes_cases [of a] by auto
    then show "rs_12_9_galois_inv a < 256" using gen_pow_byte by (simp add: inv_gen_pow)
    show "rs_12_9_galois_multiplication a (rs_12_9_galois_inv a) = 1"
      using i by (simp add: inv_gen_pow mul_gen_pow gen_pow_255) }
  { assume "b < 256"
    then show "rs_12_9_galois_multiplication 1 b = b"
      using mul_gen_pow [of 0] bytes_cases [of b] by auto
    assume "a < 256"
    then show "rs_12_9_galois_multiplication a b < 256"
      using \<open>b < 256\<close> bytes_cases [of a] bytes_cases [of b] gen_pow_byte by (auto simp: mul_gen_pow)
    assume "c < 256"
    then show "rs_12_9_galois_multiplication (rs_12_9_galois_multiplication a b) c =
        rs_12_9_galois_multiplication a (rs_12_9_galois_multiplication b c)"
      using \<open>a < 256\<close> \<open>b < 256\<close> bytes_cases [of a] bytes_cases [of b] bytes_cases [of c]
      by (auto simp: mul_gen_pow add.assoc)
    show "rs_12_9_galois_multiplication a (b XOR c) =
        rs_12_9_galois_multiplication a b XOR rs_12_9_galois_multiplication a c"
      using \<open>a < 256\<close> \<open>b < 256\<close> \<open>c < 256\<close>
      by (cases "a = 0") (simp_all add: mul_xpow byte_xor xpow_xor) }
qed

end
