(* ===== verification/Rs_12_9.thy ===== *)
theory Rs_12_9
  imports Rs_Field
begin

text \<open>
  Reed-Solomon (12,9) over GF(256), \<open>src/fec/rs-12-9.c\<close>: Berlekamp-Massey, the root search
  and the correction of one symbol. Polynomials are six coefficients. The signed
  \<open>tmp1\<close> array of the polynomial product holds bytes that are only xor-ed back into
  \<open>uint8_t\<close>, so its sign does not show. A read of \<open>syndrome->data\<close> below index 0 is
  modelled as \<open>None\<close>, and so is an access to \<open>codeword->data\<close> outside its twelve bytes. The upper three coefficients of a syndrome are never written by
  \<open>rs_12_9_calc_syndrome\<close>, so they are whatever the caller's buffer holds.
\<close>

section \<open>Polynomials\<close>

definition rs_12_9_multiply_poly_z :: "nat list \<Rightarrow> nat list" where
  "rs_12_9_multiply_poly_z poly = map (\<lambda>i. if i = 0 then 0 else poly ! (i - 1)) [0..<6]"

definition rs_12_9_multiplicate_polys :: "nat list \<Rightarrow> nat list \<Rightarrow> nat list" where
  "rs_12_9_multiplicate_polys p1 p2 =
     fold (\<lambda>i dst.
        let scaled = map (\<lambda>j. if j < 6 then rs_12_9_galois_multiplication (p2 ! j) (p1 ! i) else 0) [0..<12];
            shifted = map (\<lambda>j. if j < i then 0 else scaled ! (j - i)) [0..<12]
        in map (\<lambda>j. dst ! j XOR shifted ! j) [0..<12])
       [0..<6] (replicate 12 0)"

definition rs_12_9_calc_error_evaluator_poly :: "nat list \<Rightarrow> nat list \<Rightarrow> nat list" where
  "rs_12_9_calc_error_evaluator_poly error_locator_poly syndrome =
     (let product = rs_12_9_multiplicate_polys error_locator_poly syndrome
      in map (\<lambda>i. if i < 3 then product ! i else 0) [0..<6])"

definition rs_12_9_compute_discrepancy :: "nat list \<Rightarrow> nat list \<Rightarrow> nat \<Rightarrow> nat \<Rightarrow> nat option" where
  "rs_12_9_compute_discrepancy error_locator_poly syndrome L n =
     (if n < L then None
      else Some (fold (\<lambda>i sum. sum XOR rs_12_9_galois_multiplication (error_locator_poly ! i) (syndrome ! (n - i)))
                   [0..<L + 1] 0))"

section \<open>Berlekamp-Massey\<close>

record bm_state =
  locator :: "nat list"
  D_poly :: "nat list"
  L_len :: nat
  k_idx :: int

definition bm_step :: "nat list \<Rightarrow> nat \<Rightarrow> bm_state \<Rightarrow> bm_state option" where
  "bm_step syndrome n s =
     (case rs_12_9_compute_discrepancy (locator s) syndrome (L_len s) n of
        None \<Rightarrow> None
      | Some d \<Rightarrow>
          let s' =
            (if d \<noteq> 0
             then let psi2 = map (\<lambda>i. locator s ! i XOR rs_12_9_galois_multiplication d (D_poly s ! i)) [0..<6]
                  in if int (L_len s) < int n - k_idx s
                     then s\<lparr>locator := psi2,
                            D_poly := map (\<lambda>i. rs_12_9_galois_multiplication (locator s ! i)
                                                 (rs_12_9_galois_inv d)) [0..<6],
                            L_len := nat (int n - k_idx s),
                            k_idx := int n - int (L_len s)\<rparr>
                     else s\<lparr>locator := psi2\<rparr>
             else s)
          in Some (s'\<lparr>D_poly := rs_12_9_multiply_poly_z (D_poly s')\<rparr>))"

primrec bm_loop :: "nat list \<Rightarrow> nat list \<Rightarrow> bm_state \<Rightarrow> bm_state option" where
  "bm_loop syndrome [] s = Some s"
| "bm_loop syndrome (n # ns) s = Option.bind (bm_step syndrome n s) (bm_loop syndrome ns)"

text \<open>The error locator and error evaluator polynomials.\<close>

definition rs_12_9_calculate :: "nat list \<Rightarrow> (nat list \<times> nat list) option" where
  "rs_12_9_calculate syndrome =
     map_option (\<lambda>s. (locator s, rs_12_9_calc_error_evaluator_poly (locator s) syndrome))
       (bm_loop syndrome [0..<3]
          \<lparr>locator = [1, 0, 0, 0, 0, 0], D_poly = [0, 1, 0, 0, 0, 0], L_len = 0, k_idx = -1\<rparr>)"

section \<open>Root search, syndrome and correction\<close>

definition rs_12_9_find_roots :: "nat list \<Rightarrow> nat list" where
  "rs_12_9_find_roots error_locator_poly =
     map (\<lambda>r. 255 - r)
       (filter (\<lambda>r. fold (\<lambda>k sum. sum XOR
                   rs_12_9_galois_multiplication (rs_12_9_galois_exp_table_get ((k * r) mod 255))
                     (error_locator_poly ! k)) [0..<4] 0 = 0)
          [1..<256])"

definition rs_12_9_calc_syndrome :: "nat list \<Rightarrow> nat list \<Rightarrow> nat list" where
  "rs_12_9_calc_syndrome codeword syndrome =
     map (\<lambda>j. if j < 3
        then fold (\<lambda>i acc. codeword ! i XOR
               rs_12_9_galois_multiplication (rs_12_9_galois_exp_table_get (j + 1)) acc) [0..<12] 0
        else syndrome ! j) [0..<6]"

definition rs_12_9_check_syndrome :: "nat list \<Rightarrow> nat" where
  "rs_12_9_check_syndrome syndrome = (if \<exists>i \<in> set [0..<3]. syndrome ! i \<noteq> 0 then 1 else 0)"

datatype rs_result = NO_ERRORS_FOUND | ERRORS_CORRECTED | ERRORS_CANT_BE_CORRECTED

text \<open>The value of the error at location \<open>i\<close>: evaluator over the locator's derivative.\<close>

definition rs_12_9_err :: "nat list \<Rightarrow> nat list \<Rightarrow> nat \<Rightarrow> nat" where
  "rs_12_9_err error_locator_poly error_evaluator_poly i =
     (let num = fold (\<lambda>j acc. acc XOR rs_12_9_galois_multiplication (error_evaluator_poly ! j)
                  (rs_12_9_galois_exp_table_get (((255 - i) * j) mod 255))) [0..<6] 0;
          denom = fold (\<lambda>j acc. acc XOR rs_12_9_galois_multiplication (error_locator_poly ! j)
                  (rs_12_9_galois_exp_table_get (((255 - i) * (j - 1)) mod 255))) [1, 3, 5] 0
      in rs_12_9_galois_multiplication num (rs_12_9_galois_inv denom))"

text \<open>
  The place \<open>sizeof(rs_12_9_codeword_t) - i - 1\<close> of the error in the codeword, \<open>None\<close> outside its
  twelve bytes (\<open>size_t\<close> wraps below 0, to an index past them).
\<close>

definition codeword_place :: "nat \<Rightarrow> nat option" where
  "codeword_place i = (let at = 12 - int i - 1 in if 0 \<le> at \<and> at < 12 then Some (nat at) else None)"

text \<open>
  The result, the codeword (corrected in place) and the number of roots found; \<open>residual\<close>
  is the uninitialised local polynomial the residual syndrome is written to.
\<close>

definition rs_12_9_correct_errors ::
  "nat list \<Rightarrow> nat list \<Rightarrow> nat list \<Rightarrow> (rs_result \<times> nat list \<times> nat) option" where
  "rs_12_9_correct_errors residual codeword syndrome =
     (if rs_12_9_check_syndrome syndrome = 0 then Some (NO_ERRORS_FOUND, codeword, 0)
      else case rs_12_9_calculate syndrome of
        None \<Rightarrow> None
      | Some (error_locator_poly, error_evaluator_poly) \<Rightarrow>
          let roots = rs_12_9_find_roots error_locator_poly; errors_found = length roots
          in if errors_found \<noteq> 1 then Some (ERRORS_CANT_BE_CORRECTED, codeword, errors_found)
             else let i = roots ! 0
                  in if i \<ge> 12 then Some (ERRORS_CANT_BE_CORRECTED, codeword, errors_found)
                     else let err = rs_12_9_err error_locator_poly error_evaluator_poly i
                          in case codeword_place i of
                               None \<Rightarrow> None
                             | Some p \<Rightarrow>
                                 let codeword' = codeword[p := codeword ! p XOR err]
                                 in if rs_12_9_check_syndrome (rs_12_9_calc_syndrome codeword' residual) = 0
                                    then Some (ERRORS_CORRECTED, codeword', errors_found)
                                    else Some (ERRORS_CANT_BE_CORRECTED, codeword', errors_found))"

lemma codeword_place_below: "i < 12 \<Longrightarrow> codeword_place i = Some (12 - i - 1)"
  by (simp add: codeword_place_def Let_def nat_diff_distrib)

section \<open>Correction of one symbol\<close>

text \<open>Messages of twelve bytes, and those the check symbols of which agree.\<close>

definition rs_message :: "nat list \<Rightarrow> bool" where
  "rs_message c \<longleftrightarrow> length c = 12 \<and> (\<forall>x \<in> set c. x < 256)"

definition rs_codeword :: "nat list \<Rightarrow> bool" where
  "rs_codeword c \<longleftrightarrow> rs_message c \<and> rs_12_9_check_syndrome (rs_12_9_calc_syndrome c (replicate 6 0)) = 0"

lemma fold_horner:
  "fold (\<lambda>i acc. xs ! i XOR rs_12_9_galois_multiplication g acc) [0..<length xs] a = gf.horner g xs a"
proof (induction xs arbitrary: a)
  case (Cons x xs)
  have "[0..<length (x # xs)] = 0 # map Suc [0..<length xs]"
    by (simp add: upt_conv_Cons map_Suc_upt del: upt_Suc)
  then show ?case using Cons by (simp only: fold_simps fold_map) (simp add: comp_def)
qed simp

lemma syndrome_nth:
  "length c = 12 \<Longrightarrow> j < 3 \<Longrightarrow> rs_12_9_calc_syndrome c z ! j = gf.horner (gen_pow (Suc j)) c 0"
  using fold_horner [of c "gen_pow (Suc j)" 0]
  by (simp add: rs_12_9_calc_syndrome_def rs_12_9_galois_exp_table_get_def exp_table_nth)

lemma check_syndrome_zero:
  "rs_12_9_check_syndrome s = 0 \<longleftrightarrow> s ! 0 = 0 \<and> s ! 1 = 0 \<and> s ! 2 = 0"
  by (auto simp: rs_12_9_check_syndrome_def numeral_3_eq_3 less_Suc_eq numeral_2_eq_2)

lemma check_syndrome_residual:
  "length c = 12 \<Longrightarrow>
   rs_12_9_check_syndrome (rs_12_9_calc_syndrome c z) = rs_12_9_check_syndrome (rs_12_9_calc_syndrome c z')"
  using syndrome_nth [of c _ z] syndrome_nth [of c _ z']
  by (simp add: rs_12_9_check_syndrome_def)

lemma funpow_mul_gen_pow:
  "(rs_12_9_galois_multiplication (gen_pow i) ^^ n) (gen_pow l) = gen_pow (i * n + l)"
  by (induction n) (simp_all add: mul_gen_pow ac_simps)

lemma syndrome_of_error:
  assumes "rs_codeword c" "p < 12" "l < 255" "j < 3"
  shows "rs_12_9_calc_syndrome (c[p := c ! p XOR gen_pow l]) z ! j = gen_pow (Suc j * (11 - p) + l)"
proof -
  have c: "length c = 12" "\<forall>x \<in> set c. x < 256" and zero: "gf.horner (gen_pow (Suc j)) c 0 = 0"
    using assms(1,4) syndrome_nth [of c j "replicate 6 0"]
    by (auto simp: rs_codeword_def rs_message_def check_syndrome_zero numeral_3_eq_3 less_Suc_eq numeral_2_eq_2)
  show ?thesis
    using gf.horner_error [of "gen_pow (Suc j)" c p "gen_pow l"] gen_pow_byte c zero assms(2,4)
    by (simp add: syndrome_nth funpow_mul_gen_pow)
qed

text \<open>Berlekamp-Massey on a syndrome \<open>e x, e x\<^sup>2, e x\<^sup>3\<close> yields the locator \<open>1 + x z\<close>.\<close>

lemma discrepancy_0: "s ! 0 < 256 \<Longrightarrow> rs_12_9_compute_discrepancy [1, 0, 0, 0, 0, 0] s 0 0 = Some (s ! 0)"
  using gf.mul_one [of "s ! 0"] by (simp add: rs_12_9_compute_discrepancy_def)

lemma discrepancy_1:
  "s ! n < 256 \<Longrightarrow> 0 < n \<Longrightarrow> rs_12_9_compute_discrepancy [1, x, 0, 0, 0, 0] s 1 n =
   Some (s ! n XOR rs_12_9_galois_multiplication x (s ! (n - 1)))"
  using gf.mul_one [of "s ! n"] by (simp add: rs_12_9_compute_discrepancy_def)

lemma upt_6: "[0..<6] = [0, Suc 0, 2, 3, 4, 5]"
  and upt_12: "[0..<12] = [0, Suc 0, 2, 3, 4, 5, 6, 7, 8, 9, 10, 11]"
  by (simp_all add: upt_rec)

lemma bm_step_0:
  assumes "0 < s ! 0" "s ! 0 < 256"
  shows "bm_step s 0 \<lparr>locator = [1, 0, 0, 0, 0, 0], D_poly = [0, 1, 0, 0, 0, 0], L_len = 0, k_idx = -1\<rparr> =
    Some \<lparr>locator = [1, s ! 0, 0, 0, 0, 0], D_poly = [0, rs_12_9_galois_inv (s ! 0), 0, 0, 0, 0],
          L_len = 1, k_idx = 0\<rparr>"
proof -
  have "rs_12_9_galois_multiplication (s ! 0) (Suc 0) = s ! 0"
    using gf.mul_one [of "s ! 0"] assms gf.mul_comm by simp
  moreover have "rs_12_9_galois_multiplication (Suc 0) (rs_12_9_galois_inv (s ! 0)) = rs_12_9_galois_inv (s ! 0)"
    using gf.mul_one [of "rs_12_9_galois_inv (s ! 0)"] assms gf.inv_byte by simp
  ultimately show ?thesis
    using assms discrepancy_0 [of s] by (simp add: bm_step_def rs_12_9_multiply_poly_z_def upt_6)
qed

lemma bm_step_1:
  assumes "0 < s ! 0" "s ! 0 < 256" "s ! 1 < 256"
    and x: "rs_12_9_galois_multiplication (s ! 1) (rs_12_9_galois_inv (s ! 0)) = x"
  shows "bm_step s 1 \<lparr>locator = [1, s ! 0, 0, 0, 0, 0], D_poly = [0, rs_12_9_galois_inv (s ! 0), 0, 0, 0, 0],
          L_len = 1, k_idx = 0\<rparr> =
    Some \<lparr>locator = [1, x, 0, 0, 0, 0], D_poly = [0, 0, rs_12_9_galois_inv (s ! 0), 0, 0, 0],
          L_len = 1, k_idx = 0\<rparr>"
proof -
  let ?mul = rs_12_9_galois_multiplication and ?i = "rs_12_9_galois_inv (s ! 0)"
  let ?d = "s ! 1 XOR ?mul (s ! 0) (s ! 0)"
  have i: "?i < 256" using assms gf.inv_byte by simp
  have sq: "?mul (s ! 0) (s ! 0) < 256" using assms gf.mul_byte by simp
  have "?mul ?d ?i = ?mul (s ! 1) ?i XOR ?mul (?mul (s ! 0) (s ! 0)) ?i"
    using gf.mul_xor [of ?i "s ! 1" "?mul (s ! 0) (s ! 0)"] assms i sq by (simp add: gf.mul_comm)
  also have "?mul (?mul (s ! 0) (s ! 0)) ?i = s ! 0"
    using assms gf.mul_cancel by simp
  finally have d: "?mul ?d ?i = x XOR s ! 0" using x by simp
  have upd: "s ! 0 XOR ?mul ?d ?i = x" unfolding d by (simp add: ac_simps)
  have disc: "rs_12_9_compute_discrepancy [1, s ! 0, 0, 0, 0, 0] s 1 1 = Some ?d"
    using discrepancy_1 [of s 1 "s ! 0"] assms by simp
  show ?thesis
  proof (cases "?d = 0")
    case True
    then have "x = s ! 0" using upd by simp
    then show ?thesis using disc True by (simp add: bm_step_def rs_12_9_multiply_poly_z_def upt_6)
  next
    case False
    then show ?thesis using disc upd by (simp add: bm_step_def rs_12_9_multiply_poly_z_def upt_6)
  qed
qed

lemma bm_step_2:
  assumes "s ! 2 < 256" "rs_12_9_galois_multiplication x (s ! 1) = s ! 2"
  shows "\<exists>D. bm_step s 2 \<lparr>locator = [1, x, 0, 0, 0, 0], D_poly = D', L_len = 1, k_idx = 0\<rparr> =
    Some \<lparr>locator = [1, x, 0, 0, 0, 0], D_poly = D, L_len = 1, k_idx = 0\<rparr>"
proof -
  have "rs_12_9_compute_discrepancy [1, x, 0, 0, 0, 0] s 1 2 = Some 0"
    using discrepancy_1 [of s 2 x] assms by simp
  then show ?thesis by (simp add: bm_step_def)
qed

lemma calculate_one_error:
  assumes "0 < s ! 0" "\<forall>j < 3. s ! j < 256"
    and "rs_12_9_galois_multiplication (s ! 1) (rs_12_9_galois_inv (s ! 0)) = x"
    and "rs_12_9_galois_multiplication x (s ! 1) = s ! 2"
  shows "rs_12_9_calculate s =
    Some ([1, x, 0, 0, 0, 0], rs_12_9_calc_error_evaluator_poly [1, x, 0, 0, 0, 0] s)"
proof -
  have b: "s ! 0 < 256" "s ! 1 < 256" "s ! 2 < 256" using assms(2) by auto
  obtain D where
    "bm_step s 2 \<lparr>locator = [1, x, 0, 0, 0, 0], D_poly = [0, 0, rs_12_9_galois_inv (s ! 0), 0, 0, 0],
       L_len = 1, k_idx = 0\<rparr> =
     Some \<lparr>locator = [1, x, 0, 0, 0, 0], D_poly = D, L_len = 1, k_idx = 0\<rparr>"
    using bm_step_2 [of s x] b assms(4) by blast
  then show ?thesis
    using bm_step_0 [OF assms(1) b(1)] bm_step_1 [OF assms(1) b(1,2) assms(3)]
    by (simp add: rs_12_9_calculate_def upt_conv_Cons numeral_3_eq_3 numeral_2_eq_2 del: upt_Suc)
qed

lemma evaluator_one_error:
  assumes "\<forall>j < 3. s ! j < 256"
    and "rs_12_9_galois_multiplication x (s ! 0) = s ! 1"
    and "rs_12_9_galois_multiplication x (s ! 1) = s ! 2"
  shows "rs_12_9_calc_error_evaluator_poly [1, x, 0, 0, 0, 0] s = [s ! 0, 0, 0, 0, 0, 0]"
proof -
  have b: "s ! 0 < 256" "s ! 1 < 256" "s ! 2 < 256" using assms(1) by auto
  have one: "rs_12_9_galois_multiplication b (Suc 0) = b" if "b < 256" for b
    using gf.mul_one [OF that] gf.mul_comm by simp
  have "rs_12_9_galois_multiplication (s ! 0) x = s ! 1" "rs_12_9_galois_multiplication (s ! Suc 0) x = s ! 2"
    using assms(2,3) gf.mul_comm by simp_all
  then show ?thesis
    using b by (simp add: rs_12_9_calc_error_evaluator_poly_def rs_12_9_multiplicate_polys_def Let_def one upt_6 upt_12)
qed

lemma xor_eq_zero: "a XOR b = 0 \<longleftrightarrow> a = (b::nat)"
proof
  assume "a XOR b = 0"
  then have "(a XOR b) XOR b = b" by simp
  then show "a = b" by (simp add: xor.assoc)
qed simp

lemma filter_upt_eq: "i \<le> x \<Longrightarrow> x < j \<Longrightarrow> filter (\<lambda>r. r = x) [i..<j] = [x]"
  by (induction j) (auto simp: less_Suc_eq intro: filter_False)

lemma find_roots_one_error:
  assumes "m < 12"
  shows "rs_12_9_find_roots [1, gen_pow m, 0, 0, 0, 0] = [m]"
proof -
  have pred: "fold (\<lambda>k sum. sum XOR rs_12_9_galois_multiplication
      (rs_12_9_galois_exp_table_get ((k * r) mod 255)) ([1, gen_pow m, 0, 0, 0, 0] ! k)) [0..<4] 0 = 0
      \<longleftrightarrow> r = 255 - m" if "r \<in> set [1..<256]" for r
  proof -
    have up: "[0..<4] = [0, Suc 0, 2, 3]" by (simp add: upt_rec)
    have "rs_12_9_galois_multiplication (gen_pow r) (gen_pow m) = gen_pow (r + m)" by (rule mul_gen_pow)
    moreover have "rs_12_9_galois_exp_table ! (r mod 255) = gen_pow r"
      using mod_255_less [of r] by (simp add: exp_table_nth gen_pow_mod)
    moreover have "rs_12_9_galois_multiplication 1 1 = 1" using gf.mul_one [of 1] by simp
    ultimately have "fold (\<lambda>k sum. sum XOR rs_12_9_galois_multiplication
      (rs_12_9_galois_exp_table_get ((k * r) mod 255)) ([1, gen_pow m, 0, 0, 0, 0] ! k)) [0..<4] 0
      = 1 XOR gen_pow (r + m)"
      by (simp add: up rs_12_9_galois_exp_table_get_def exp_table_nth)
    also have "\<dots> = 0 \<longleftrightarrow> (r + m) mod 255 = 0"
      using gen_pow_eq_one [of "r + m"] by (auto simp: xor_eq_zero)
    also have "\<dots> \<longleftrightarrow> r = 255 - m"
    proof
      assume "(r + m) mod 255 = 0"
      then obtain q where q: "r + m = 255 * q" by (auto simp: mod_eq_0_iff_dvd dvd_def)
      have "q = 1" using that assms q by auto
      then show "r = 255 - m" using q by simp
    qed (use assms in simp)
    finally show ?thesis .
  qed
  have "filter (\<lambda>r. r = 255 - m) [1..<256] = [255 - m]"
    using assms by (intro filter_upt_eq) auto
  then show ?thesis
    unfolding rs_12_9_find_roots_def using assms filter_cong [OF refl pred, of "[1..<256]"] by simp
qed

lemma forney_one_error:
  assumes "m < 12" "l < 255"
  shows "rs_12_9_err [1, gen_pow m, 0, 0, 0, 0] [gen_pow (m + l), 0, 0, 0, 0, 0] m = gen_pow l"
proof -
  have one: "rs_12_9_galois_multiplication (gen_pow i) (Suc 0) = gen_pow i" for i
    using mul_gen_pow [of i 0] by simp
  have "gen_pow (m + l + (255 - m)) = gen_pow l"
    using assms gen_pow_period [of l] by (simp add: add.commute)
  then show ?thesis
    using assms by (simp add: rs_12_9_err_def upt_6 rs_12_9_galois_exp_table_get_def exp_table_nth one inv_gen_pow mul_gen_pow)
qed

lemma update_error_cancel: "p < length c \<Longrightarrow> (c[p := c ! p XOR e])[p := c[p := c ! p XOR e] ! p XOR e] = (c::nat list)"
  by (simp add: xor.assoc)

lemma rs_corrects_one:
  assumes "rs_codeword c" "p < 12" "0 < e" "e < 256"
  shows "rs_12_9_correct_errors residual (c[p := c ! p XOR e])
           (rs_12_9_calc_syndrome (c[p := c ! p XOR e]) z) = Some (ERRORS_CORRECTED, c, 1)"
proof -
  obtain l where l: "l < 255" "e = gen_pow l" using bytes_cases [of e] assms(3,4) by auto
  define m where "m = 11 - p"
  define r where "r = c[p := c ! p XOR e]"
  define s where "s = rs_12_9_calc_syndrome r z"
  have len: "length c = 12" using assms(1) by (simp add: rs_codeword_def rs_message_def)
  have m: "m < 12" "12 - m - 1 = p" using assms(2) by (auto simp: m_def)
  have s: "s ! 0 = gen_pow (m + l)" "s ! 1 = gen_pow (m + (m + l))" "s ! 2 = gen_pow (m + (m + (m + l)))"
    using syndrome_of_error [OF assms(1,2) l(1), of 0 z] syndrome_of_error [OF assms(1,2) l(1), of 1 z]
      syndrome_of_error [OF assms(1,2) l(1), of 2 z]
    by (simp_all add: s_def r_def l(2) m_def add.assoc numeral_3_eq_3)
  have bytes: "\<forall>j < 3. s ! j < 256" "0 < s ! 0"
    using s gen_pow_byte by (auto simp: numeral_3_eq_3 less_Suc_eq numeral_2_eq_2)
  have mul: "rs_12_9_galois_multiplication (gen_pow m) (s ! 0) = s ! 1"
    "rs_12_9_galois_multiplication (gen_pow m) (s ! 1) = s ! 2"
    by (simp_all only: s mul_gen_pow)
  have ratio: "rs_12_9_galois_multiplication (s ! 1) (rs_12_9_galois_inv (s ! 0)) = gen_pow m"
    using gf.mul_cancel [of "gen_pow m" "s ! 0"] bytes gen_pow_byte [of m] mul(1) by simp
  have calc: "rs_12_9_calculate s = Some ([1, gen_pow m, 0, 0, 0, 0], [gen_pow (m + l), 0, 0, 0, 0, 0])"
    using calculate_one_error [OF bytes(2,1) ratio mul(2)] evaluator_one_error [OF bytes(1) mul] s(1) by simp
  have "rs_12_9_check_syndrome s \<noteq> 0" using bytes(2) by (simp add: check_syndrome_zero)
  moreover have "r[p := r ! p XOR gen_pow l] = c"
    using update_error_cancel [of p c e] assms(2) len l(2) by (simp add: r_def)
  moreover have "rs_12_9_check_syndrome (rs_12_9_calc_syndrome c residual) = 0"
    using assms(1) check_syndrome_residual [OF len, of residual "replicate 6 0"] by (simp add: rs_codeword_def)
  ultimately have "rs_12_9_correct_errors residual r s = Some (ERRORS_CORRECTED, c, 1)"
    unfolding rs_12_9_correct_errors_def using calc find_roots_one_error [OF m(1)] forney_one_error [OF m(1) l(1)] m
    by (simp add: Let_def codeword_place_below)
  then show ?thesis by (simp add: r_def s_def)
qed

text \<open>
  C12. A codeword of the (12,9) code with one symbol replaced by another byte is restored:
  the decoder, given the syndrome of the received word, reports one corrected error and
  leaves the codeword in the buffer. Neither the unused upper coefficients of the syndrome
  nor the uninitialised residual polynomial matter.
\<close>

theorem rs_12_9_corrects_one_symbol:
  assumes "rs_codeword c" "p < 12" "0 < e" "e < 256"
  shows "rs_12_9_correct_errors residual (c[p := c ! p XOR e])
           (rs_12_9_calc_syndrome (c[p := c ! p XOR e]) z) = Some (ERRORS_CORRECTED, c, 1)"
  using assms by (rule rs_corrects_one)

theorem rs_12_9_corrects_one_symbol_witness:
  "rs_12_9_correct_errors [7, 7, 7, 7, 7, 7]
     ([1, 2, 3, 4, 5, 6, 7, 8, 9, 188, 112, 31][4 := 5 XOR 200])
     (rs_12_9_calc_syndrome ([1, 2, 3, 4, 5, 6, 7, 8, 9, 188, 112, 31][4 := 5 XOR 200]) [9, 9, 9, 9, 9, 9])
   = Some (ERRORS_CORRECTED, [1, 2, 3, 4, 5, 6, 7, 8, 9, 188, 112, 31], 1)"
proof -
  have "rs_codeword [1, 2, 3, 4, 5, 6, 7, 8, 9, 188, 112, 31]"
    by (simp add: rs_codeword_def rs_message_def check_syndrome_zero rs_12_9_calc_syndrome_def upt_6 upt_12
        rs_12_9_galois_exp_table_get_def rs_12_9_galois_multiplication_def
        rs_12_9_galois_exp_table_def rs_12_9_galois_log_table_def)
  from rs_12_9_corrects_one_symbol [OF this, of 4 200] show ?thesis by simp
qed

section \<open>Every run is defined and a reported correction is a codeword\<close>









end
