(* ===== verification/Bit_Packing.thy ===== *)
theory Bit_Packing
  imports Crc
begin

text \<open>
  Bit and byte conversions and the bit-level CRC-CCITT, \<open>src/core/util/bit_packing.c\<close>.
  A pointer is an optional array of bytes, \<open>None\<close> the null pointer; a capacity is passed
  beside the array as in the code. The truncation counter exists only in the test build
  and is not part of the model.
\<close>

section \<open>Bounded conversions\<close>

definition clamp_to_capacity :: "nat \<Rightarrow> nat \<Rightarrow> nat \<Rightarrow> nat" where
  "clamp_to_capacity requested src_limit dst_limit =
     (let count = requested;
          count = (if count > src_limit then src_limit else count);
          count = (if count > dst_limit then dst_limit else count)
      in count)"

definition unpack_octet :: "u8 \<Rightarrow> u8 list" where
  "unpack_octet octet =
     [drop_bit 7 octet AND 1, drop_bit 6 octet AND 1, drop_bit 5 octet AND 1, drop_bit 4 octet AND 1,
      drop_bit 3 octet AND 1, drop_bit 2 octet AND 1, drop_bit 1 octet AND 1, octet AND 1]"

definition unpack_bounded ::
  "u8 list option \<Rightarrow> nat \<Rightarrow> u8 list option \<Rightarrow> nat \<Rightarrow> nat \<Rightarrow> nat \<times> u8 list option" where
  "unpack_bounded input input_capacity_bytes output output_capacity_bits requested_bytes =
     (case (input, output) of
        (Some inp, Some out) \<Rightarrow>
          let count = clamp_to_capacity requested_bytes input_capacity_bytes (output_capacity_bits div 8)
          in (count, Some (fold (\<lambda>i out. copy_into out (i * 8) (unpack_octet (inp ! i))) [0..<count] out))
      | _ \<Rightarrow> (0, output))"

definition pack_octet :: "u8 list \<Rightarrow> u8" where
  "pack_octet bs =
     push_bit 7 (bs ! 0 AND 1) OR push_bit 6 (bs ! 1 AND 1) OR push_bit 5 (bs ! 2 AND 1) OR
     push_bit 4 (bs ! 3 AND 1) OR push_bit 3 (bs ! 4 AND 1) OR push_bit 2 (bs ! 5 AND 1) OR
     push_bit 1 (bs ! 6 AND 1) OR (bs ! 7 AND 1)"

definition pack_bounded ::
  "u8 list option \<Rightarrow> nat \<Rightarrow> u8 list option \<Rightarrow> nat \<Rightarrow> nat \<Rightarrow> nat \<times> u8 list option" where
  "pack_bounded input input_capacity_bits output output_capacity_bytes requested_bytes =
     (case (input, output) of
        (Some inp, Some out) \<Rightarrow>
          let count = clamp_to_capacity requested_bytes (input_capacity_bits div 8) output_capacity_bytes
          in (count, Some (fold (\<lambda>i out. out[i := pack_octet (drop (i * 8) inp)]) [0..<count] out))
      | _ \<Rightarrow> (0, output))"

definition dsd_unpack_bytes_to_bits ::
  "u8 list option \<Rightarrow> nat \<Rightarrow> u8 list option \<Rightarrow> nat \<Rightarrow> nat \<Rightarrow> nat \<times> u8 list option" where
  "dsd_unpack_bytes_to_bits input input_capacity_bytes output output_capacity_bits requested_bytes =
     unpack_bounded input input_capacity_bytes output output_capacity_bits requested_bytes"

definition dsd_unpack_bytes_to_bits_truncating ::
  "u8 list option \<Rightarrow> nat \<Rightarrow> u8 list option \<Rightarrow> nat \<Rightarrow> nat \<Rightarrow> nat \<times> u8 list option" where
  "dsd_unpack_bytes_to_bits_truncating input input_capacity_bytes output output_capacity_bits requested_bytes =
     unpack_bounded input input_capacity_bytes output output_capacity_bits requested_bytes"

definition dsd_pack_bits_to_bytes ::
  "u8 list option \<Rightarrow> nat \<Rightarrow> u8 list option \<Rightarrow> nat \<Rightarrow> nat \<Rightarrow> nat \<times> u8 list option" where
  "dsd_pack_bits_to_bytes input input_capacity_bits output output_capacity_bytes requested_bytes =
     pack_bounded input input_capacity_bits output output_capacity_bytes requested_bytes"

definition dsd_pack_bits_to_bytes_truncating ::
  "u8 list option \<Rightarrow> nat \<Rightarrow> u8 list option \<Rightarrow> nat \<Rightarrow> nat \<Rightarrow> nat \<times> u8 list option" where
  "dsd_pack_bits_to_bytes_truncating input input_capacity_bits output output_capacity_bytes requested_bytes =
     pack_bounded input input_capacity_bits output output_capacity_bytes requested_bytes"

section \<open>Bits into an integer\<close>

definition pack_8_bits_msb :: "u8 list \<Rightarrow> u64" where
  "pack_8_bits_msb bs =
     push_bit 7 (ucast (bs ! 0 AND 1)) OR push_bit 6 (ucast (bs ! 1 AND 1)) OR
     push_bit 5 (ucast (bs ! 2 AND 1)) OR push_bit 4 (ucast (bs ! 3 AND 1)) OR
     push_bit 3 (ucast (bs ! 4 AND 1)) OR push_bit 2 (ucast (bs ! 5 AND 1)) OR
     push_bit 1 (ucast (bs ! 6 AND 1)) OR ucast (bs ! 7 AND 1)"

fun convert_octets :: "u8 list \<Rightarrow> nat \<Rightarrow> u64 \<Rightarrow> u8 list \<times> nat \<times> u64" where
  "convert_octets bs len output =
     (if len \<ge> 8 then convert_octets (drop 8 bs) (len - 8) (push_bit 8 output OR pack_8_bits_msb bs)
      else (bs, len, output))"

declare convert_octets.simps [simp del]

primrec convert_rest :: "u8 list \<Rightarrow> nat \<Rightarrow> u64 \<Rightarrow> u64" where
  "convert_rest bs 0 output = output"
| "convert_rest bs (Suc len) output = convert_rest (tl bs) len (push_bit 1 output OR ucast (hd bs AND 1))"

definition convert_bits_into_output :: "u8 list \<Rightarrow> nat \<Rightarrow> u64" where
  "convert_bits_into_output input len =
     (case convert_octets input len 0 of (bs, len, output) \<Rightarrow> convert_rest bs len output)"

section \<open>CRC-CCITT\<close>

definition dsd_crc_ccitt16_bits :: "bit_array option \<Rightarrow> nat \<Rightarrow> u16" where
  "dsd_crc_ccitt16_bits input bit_count =
     (case input of
        None \<Rightarrow> 0
      | Some inp \<Rightarrow>
          fold (\<lambda>i crc.
             let feedback = (drop_bit 15 crc AND 1) XOR (of_nat (inp ! i) AND 1);
                 crc = push_bit 1 crc
             in if feedback \<noteq> 0 then crc XOR 0x1021 else crc) [0..<bit_count] 0 XOR 0xFFFF)"

section \<open>Lemmas on single bits\<close>

definition lsbs :: "u8 list \<Rightarrow> bool list" where
  "lsbs xs = map (\<lambda>x. bit x 0) xs"

lemma length_lsbs [simp, len_simps]: "length (lsbs xs) = length xs"
  by (simp add: lsbs_def)

lemma lsbs_simps [simp]: "lsbs [] = []" "lsbs (x # xs) = bit x 0 # lsbs xs" "lsbs (xs @ ys) = lsbs xs @ lsbs ys"
  by (simp_all add: lsbs_def)

lemma ucast_of_bool: "ucast (of_bool b :: 'a::len word) = (of_bool b :: 'b::len word)"
  by (cases b) simp_all

lemma fold_msb_shift: "fold msb_shift bs x = push_bit (length bs) x OR msb_word bs"
proof (induction bs rule: rev_induct)
  case (snoc b bs)
  then show ?case
    by (simp add: msb_word_snoc msb_shift_def push_bit_or push_bit_push_bit or.assoc del: One_nat_def) simp
qed (simp add: msb_word_def)

lemma msb_word_8:
  "msb_word [b0, b1, b2, b3, b4, b5, b6, b7] =
     push_bit 7 (of_bool b0) OR push_bit 6 (of_bool b1) OR push_bit 5 (of_bool b2) OR push_bit 4 (of_bool b3) OR
     push_bit 3 (of_bool b4) OR push_bit 2 (of_bool b5) OR push_bit 1 (of_bool b6) OR (of_bool b7 :: 'a::len word)"
  unfolding msb_word_def msb_shift_def fold_simps push_bit_or push_bit_push_bit or.assoc
  by (simp del: push_bit_Suc)

lemma eight_elements: "8 \<le> length xs \<Longrightarrow> take 8 xs = [xs ! 0, xs ! 1, xs ! 2, xs ! 3, xs ! 4, xs ! 5, xs ! 6, xs ! 7]"
  by (rule nth_equalityI) (auto simp: less_Suc_eq eval_nat_numeral)

lemma pack_octet_msb: "8 \<le> length xs \<Longrightarrow> pack_octet xs = msb_word (lsbs (take 8 xs))"
  by (simp only: eight_elements lsbs_simps msb_word_8 pack_octet_def and_one_of_bool)

lemma pack_8_bits_msb: "8 \<le> length xs \<Longrightarrow> pack_8_bits_msb xs = msb_word (lsbs (take 8 xs))"
  by (simp only: eight_elements lsbs_simps msb_word_8 pack_8_bits_msb_def and_one_of_bool ucast_of_bool)

lemma length_unpack_octet [simp, len_simps]: "length (unpack_octet x) = 8"
  by (simp add: unpack_octet_def)

lemma lsbs_unpack_octet: "lsbs (unpack_octet x) = msb_bits 8 x"
  by (simp add: unpack_octet_def and_one_of_bool msb_bits_def bit_drop_bit_eq upt_rec)

lemma pack_unpack_octet: "pack_octet (unpack_octet x) = x"
  by (simp add: pack_octet_msb lsbs_unpack_octet msb_word_msb_bits take_bit_word_eq_self)

section \<open>The conversion loops\<close>

lemma clamp_to_capacity_min [simp]: "clamp_to_capacity r s d = min r (min s d)"
  by (auto simp: clamp_to_capacity_def Let_def)

lemma length_concat_octets [simp, len_simps]: "length (concat (map unpack_octet xs)) = 8 * length xs"
  by (induction xs) simp_all

lemma unpack_loop:
  "count \<le> length inp \<Longrightarrow> 8 * count \<le> length out \<Longrightarrow>
   fold (\<lambda>i out. copy_into out (i * 8) (unpack_octet (inp ! i))) [0..<count] out =
   concat (map unpack_octet (take count inp)) @ drop (8 * count) out"
  by (induction count) (simp_all add: copy_into_def take_Suc_conv_app_nth mult.commute)

lemma pack_loop:
  "count \<le> length out \<Longrightarrow>
   fold (\<lambda>i out. out[i := f i]) [0..<count] out = map f [0..<count] @ drop count out"
  by (induction count) (auto simp: list_update_append Cons_nth_drop_Suc [symmetric])

lemma drop_concat_octets:
  "i < length xs \<Longrightarrow> drop (8 * i) (concat (map unpack_octet xs) @ ys) =
   unpack_octet (xs ! i) @ drop (8 * Suc i) (concat (map unpack_octet xs) @ ys)"
proof (induction xs arbitrary: i)
  case (Cons x xs)
  then show ?case by (cases i) auto
qed simp

lemma pack_octet_append: "length xs = 8 \<Longrightarrow> pack_octet (xs @ ys) = pack_octet xs"
  by (simp add: pack_octet_msb)

text \<open>
  Unpacking bytes into bits and packing the bits again gives the bytes back, whatever
  the request and the capacities: exactly the bytes that fit both buffers are converted,
  the count is reported, and neither conversion touches the rest of its destination.
\<close>

lemma pack_unpack_roundtrip:
  assumes "incap \<le> length inp" "bitcap \<le> length mid" "outcap \<le> length out"
    and "n = min requested (min incap (bitcap div 8))" "n \<le> outcap"
  shows "\<exists>unpacked.
     dsd_unpack_bytes_to_bits (Some inp) incap (Some mid) bitcap requested = (n, Some unpacked) \<and>
     length unpacked = length mid \<and> drop (8 * n) unpacked = drop (8 * n) mid \<and>
     dsd_pack_bits_to_bytes (Some unpacked) bitcap (Some out) outcap n = (n, Some (take n inp @ drop n out))"
proof -
  let ?u = "concat (map unpack_octet (take n inp)) @ drop (8 * n) mid"
  have n: "n \<le> length inp" "n \<le> bitcap div 8" "8 * n \<le> bitcap" using assms by (auto simp: min_def)
  have "pack_octet (drop (i * 8) ?u) = inp ! i" if "i < n" for i
    using drop_concat_octets [of i "take n inp" "drop (8 * n) mid"] that n
    by (simp add: mult.commute pack_octet_append pack_unpack_octet)
  then have "map (\<lambda>i. pack_octet (drop (i * 8) ?u)) [0..<n] = take n inp"
    using n by (intro nth_equalityI) auto
  then have pack: "fold (\<lambda>i out. out[i := pack_octet (drop (i * 8) ?u)]) [0..<n] out = take n inp @ drop n out"
    using assms(3,5) by (simp only: pack_loop [OF order.trans])
  have len: "length ?u = length mid" using n assms(2) by simp
  have clamp: "min requested (min incap (bitcap div 8)) = n" "min n (min (bitcap div 8) outcap) = n"
    using assms(4,5) n(2) by (simp_all only: min_absorb1 min.boundedI)
  have unpack: "fold (\<lambda>i out. copy_into out (i * 8) (unpack_octet (inp ! i))) [0..<n] mid = ?u"
    using n assms(2) by (intro unpack_loop) auto
  show ?thesis
  proof (intro exI [of _ ?u] conjI)
    show "dsd_unpack_bytes_to_bits (Some inp) incap (Some mid) bitcap requested = (n, Some ?u)"
      using unpack by (simp only: dsd_unpack_bytes_to_bits_def unpack_bounded_def clamp_to_capacity_min clamp
          prod.case option.case Let_def)
    show "length ?u = length mid" by (rule len)
    show "drop (8 * n) ?u = drop (8 * n) mid" using n by simp
    show "dsd_pack_bits_to_bytes (Some ?u) bitcap (Some out) outcap n = (n, Some (take n inp @ drop n out))"
      using pack by (simp only: dsd_pack_bits_to_bytes_def pack_bounded_def clamp_to_capacity_min clamp
          prod.case option.case Let_def)
  qed
qed

section \<open>The integer conversion\<close>

lemma convert_octets_msb:
  "len \<le> length bs \<Longrightarrow> convert_octets bs len x =
   (drop (8 * (len div 8)) bs, len mod 8, fold msb_shift (lsbs (take (8 * (len div 8)) bs)) x)"
proof (induction bs len x rule: convert_octets.induct)
  case (1 bs len x)
  show ?case
  proof (cases "len \<ge> 8")
    case True
    then have q: "len div 8 = Suc ((len - 8) div 8)" "(len - 8) mod 8 = len mod 8"
      by (simp_all add: le_div_geq le_mod_geq)
    have len: "8 \<le> length bs" "len - 8 \<le> length (drop 8 bs)" using True 1(2) by auto
    have "take (8 * (len div 8)) bs = take 8 bs @ take (8 * ((len - 8) div 8)) (drop 8 bs)"
      unfolding q(1) by (simp add: take_add)
    moreover have "push_bit 8 x OR pack_8_bits_msb bs = fold msb_shift (lsbs (take 8 bs)) x"
      using len by (simp add: fold_msb_shift pack_8_bits_msb)
    ultimately show ?thesis
      using 1(1) [OF True len(2)] True q by (subst convert_octets.simps) (simp add: add.commute)
  next
    case False
    then show ?thesis by (subst convert_octets.simps) simp
  qed
qed

lemma convert_rest_msb: "len \<le> length bs \<Longrightarrow> convert_rest bs len x = fold msb_shift (lsbs (take len bs)) x"
proof (induction len arbitrary: bs x)
  case (Suc len)
  then show ?case by (cases bs) (simp_all add: and_one_of_bool ucast_of_bool msb_shift_def del: One_nat_def)
qed simp

text \<open>
  The conversion that takes eight bits at a time equals the plain bit-by-bit reading,
  most significant bit first, for every length; up to 64 bits no bit is lost.
\<close>

lemma convert_bits_into_output_msb:
  assumes "len \<le> length inp"
  shows "convert_bits_into_output inp len = msb_word (lsbs (take len inp)) \<and>
    (len \<le> 64 \<longrightarrow> msb_bits len (convert_bits_into_output inp len) = lsbs (take len inp))"
proof -
  have "take len inp = take (8 * (len div 8)) inp @ take (len mod 8) (drop (8 * (len div 8)) inp)"
    by (simp add: take_add [symmetric])
  moreover have "len mod 8 \<le> length (drop (8 * (len div 8)) inp)"
    using assms minus_mod_eq_mult_div [of len 8] by simp
  ultimately have eq: "convert_bits_into_output inp len = msb_word (lsbs (take len inp))"
    using assms convert_octets_msb [of len inp 0] convert_rest_msb [of "len mod 8" "drop (8 * (len div 8)) inp"]
    by (simp add: convert_bits_into_output_def msb_word_def)
  then show ?thesis
    using assms msb_bits_msb_word [where 'a = 64, of "lsbs (take len inp)"] by simp
qed

section \<open>The checksum\<close>

interpretation ccitt: crc_register 16 "0x1021 :: u16"
  by unfold_locales simp_all

lemma dsd_crc_ccitt16_bits_feed:
  assumes "n \<le> length inp"
  shows "dsd_crc_ccitt16_bits (Some inp) n = crc_feed 16 0x1021 (map odd (take n inp)) 0 XOR 0xFFFF"
proof -
  have "fold (\<lambda>i crc. let feedback = (drop_bit 15 crc AND 1) XOR (of_nat (inp ! i) AND 1); crc = push_bit 1 crc
             in if feedback \<noteq> 0 then crc XOR 0x1021 else crc) [0..<n] 0 =
        crc_feed 16 (0x1021::u16) (map (\<lambda>i. odd (inp ! i)) [0..<n]) 0"
    by (rule crc_loop_feed) (simp add: Let_def feedback_bit crc_step_def del: One_nat_def)
  then show ?thesis by (simp add: dsd_crc_ccitt16_bits_def map_odd_take [OF assms])
qed

text \<open>
  Two messages of the same length that differ only inside a window of at most sixteen
  bits never have the same CRC-CCITT.
\<close>

lemma dsd_crc_ccitt16_burst:
  assumes "length xs = length ys" "length ys \<le> 16" "map odd xs \<noteq> map odd ys"
  shows "dsd_crc_ccitt16_bits (Some (pre @ xs @ suf)) (length (pre @ xs @ suf)) \<noteq>
         dsd_crc_ccitt16_bits (Some (pre @ ys @ suf)) (length (pre @ ys @ suf))"
  using ccitt.burst_detected [of "map odd xs" "map odd ys" "map odd pre" "map odd suf" 0] assms
  by (auto simp: dsd_crc_ccitt16_bits_feed xor_right_cancel simp flip: crc_feed_append)

end
