(* ===== verification/Dmr_Utils.thy ===== *)
theory Dmr_Utils
  imports Hamming Rs_12_9 Bit_Packing
begin

text \<open>
  DMR checks, \<open>src/protocol/dmr/dmr_utils.c\<close>: the Hamming (17,12) code of the short link
  control, the checksums CRC-5, 7, 8, 9, 16 and 32, and the Reed-Solomon check of the full
  link control under its CRC mask. The text formatting of burst dumps is not modelled.
\<close>

section \<open>Hamming (17,12)\<close>

text \<open>Pairs of a syndrome and the bit it points at.\<close>

definition kHamming17123Corrections :: "(nat \<times> nat) list" where
  "kHamming17123Corrections =
    [(0x01, 12), (0x02, 13), (0x04, 14), (0x08, 15), (0x10, 16), (0x1B, 0),
     (0x1F, 1), (0x17, 2), (0x07, 3), (0x0E, 4), (0x1C, 5), (0x11, 6),
     (0x0B, 7), (0x16, 8), (0x05, 9), (0x0A, 10), (0x14, 11)]"

fun apply_first_correction :: "(nat \<times> nat) list \<Rightarrow> bit_array \<Rightarrow> nat \<Rightarrow> bool \<times> bit_array" where
  "apply_first_correction [] d syndrome = (False, d)"
| "apply_first_correction ((s, bit_index) # rest) d syndrome =
     (if s = syndrome then (True, d[bit_index := (if d ! bit_index = 0 then 1 else 0)])
      else apply_first_correction rest d syndrome)"

definition dmr_hamming17123_apply_correction :: "bit_array \<Rightarrow> nat \<Rightarrow> bool \<times> bit_array" where
  "dmr_hamming17123_apply_correction d syndrome = apply_first_correction kHamming17123Corrections d syndrome"

definition to_bool :: "nat \<Rightarrow> nat" where
  "to_bool x = (if x = 0 then 0 else 1)"

definition Hamming17123 :: "bit_array \<Rightarrow> bool \<times> bit_array" where
  "Hamming17123 d =
     (let c0 = to_bool (d!0 XOR d!1 XOR d!2 XOR d!3 XOR d!6 XOR d!7 XOR d!9);
          c1 = to_bool (d!0 XOR d!1 XOR d!2 XOR d!3 XOR d!4 XOR d!7 XOR d!8 XOR d!10);
          c2 = to_bool (d!1 XOR d!2 XOR d!3 XOR d!4 XOR d!5 XOR d!8 XOR d!9 XOR d!11);
          c3 = to_bool (d!0 XOR d!1 XOR d!4 XOR d!5 XOR d!7 XOR d!10);
          c4 = to_bool (d!0 XOR d!1 XOR d!2 XOR d!5 XOR d!6 XOR d!8 XOR d!11);
          n = 0x00;
          n = n OR (if c0 \<noteq> d!12 then 0x01 else 0x00);
          n = n OR (if c1 \<noteq> d!13 then 0x02 else 0x00);
          n = n OR (if c2 \<noteq> d!14 then 0x04 else 0x00);
          n = n OR (if c3 \<noteq> d!15 then 0x08 else 0x00);
          n = n OR (if c4 \<noteq> d!16 then 0x10 else 0x00)
      in if n = 0x00 then (True, d) else dmr_hamming17123_apply_correction d n)"

section \<open>Checksums\<close>

definition crc8_poly :: "nat list" where
  "crc8_poly = [1, 0, 0, 0, 0, 0, 1, 1, 1]"

definition crc8 :: "bit_array \<Rightarrow> nat \<Rightarrow> u8" where
  "crc8 bs len =
     (if len + 8 > 256 then 0
      else let buf = poly_divide crc8_poly len (take len bs @ replicate (256 - len) 0)
           in fold (\<lambda>i crc. push_bit 1 crc + of_nat (buf ! (len + i))) [0..<8] 0)"

definition crc8_ok :: "bit_array \<Rightarrow> nat \<Rightarrow> bool" where
  "crc8_ok bs len \<longleftrightarrow>
     fold (\<lambda>i crc. push_bit 1 crc + of_nat (bs ! (len + i))) [0..<8] 0 = (ucast (crc8 bs len) :: u16)"

definition crc7_poly :: "nat list" where
  "crc7_poly = [1, 0, 1, 0, 0, 1, 1, 1]"

definition crc7 :: "bit_array \<Rightarrow> nat \<Rightarrow> u8" where
  "crc7 bs len =
     (if len + 7 > 256 then 0
      else let buf = poly_divide crc7_poly len (take len bs @ replicate (256 - len) 0)
           in fold (\<lambda>i crc. push_bit 1 crc + of_nat (buf ! (len + i))) [0..<7] 0)"

definition ComputeCrcCCITT :: "bit_array \<Rightarrow> u16" where
  "ComputeCrcCCITT DMRData =
     fold (\<lambda>i CRC. if (drop_bit 15 CRC AND 1) XOR (of_nat (DMRData ! i) AND 1) \<noteq> 0
                   then push_bit 1 CRC XOR 0x1021 else push_bit 1 CRC) [0..<80] 0 XOR 0xFFFF"

definition ComputeCrc5Bit :: "bit_array \<Rightarrow> nat" where
  "ComputeCrc5Bit DMRData =
     (let Buffer = map (\<lambda>i. fold (\<lambda>j b. (b * 2) mod 256 OR DMRData ! (8 * i + j)) [0..<8] 0) [0..<9];
          Sum = fold (\<lambda>i s. (s + Buffer ! i) mod 2 ^ 32) [0..<9] 0
      in (Sum mod 31) mod 256)"

definition ComputeCrc9Bit :: "bit_array \<Rightarrow> nat \<Rightarrow> u16" where
  "ComputeCrc9Bit DMRData NbData =
     (fold (\<lambda>i CRC. if (drop_bit 8 CRC AND 1) XOR (of_nat (DMRData ! i) AND 1) \<noteq> 0
                    then push_bit 1 CRC XOR 0x059 else push_bit 1 CRC) [0..<NbData] 0 AND 0x01FF) XOR 0x01FF"

definition ComputeCrc32Bit :: "bit_array \<Rightarrow> nat \<Rightarrow> u32" where
  "ComputeCrc32Bit DMRData NbData =
     (let CRC = fold (\<lambda>i CRC. if (drop_bit 31 CRC AND 1) XOR (of_nat (DMRData ! i) AND 1) \<noteq> 0
                              then push_bit 1 CRC XOR 0x04C11DB7 else push_bit 1 CRC) [0..<NbData] 0;
          a = push_bit 24 (CRC AND 0xFF);
          b = push_bit 16 (drop_bit 8 (CRC AND 0xFF00));
          c = push_bit 8 (drop_bit 16 (CRC AND 0xFF0000));
          d = drop_bit 24 (CRC AND 0xFF000000)
      in a + b + c + d)"

section \<open>Full link control\<close>



section \<open>Full link control: correction\<close>





section \<open>Hamming (17,12): correction\<close>

text \<open>The parity checks as a matrix whose rows are \<open>c4\<close> to \<open>c0\<close>, and the corrections as a table.\<close>

definition hamming17123_H :: "nat list" where
  "hamming17123_H =
    [1, 1, 1, 0, 0, 1, 1, 0, 1, 0, 0, 1,  0, 0, 0, 0, 1,
     1, 1, 0, 0, 1, 1, 0, 1, 0, 0, 1, 0,  0, 0, 0, 1, 0,
     0, 1, 1, 1, 1, 1, 0, 0, 1, 1, 0, 1,  0, 0, 1, 0, 0,
     1, 1, 1, 1, 1, 0, 0, 1, 1, 0, 1, 0,  0, 1, 0, 0, 0,
     1, 1, 1, 1, 0, 0, 1, 1, 0, 1, 0, 0,  1, 0, 0, 0, 0]"

definition hamming17123_corr :: "nat list" where
  "hamming17123_corr =
    [0xFF, 12, 13, 0xFF, 14, 9, 0xFF, 3, 15, 0xFF, 10, 7, 0xFF, 0xFF, 4, 0xFF,
     16, 6, 0xFF, 0xFF, 11, 0xFF, 8, 2, 0xFF, 0xFF, 0xFF, 0, 5, 0xFF, 0xFF, 1]"

lemma hamming17123_tables:
  "table_complete 17 5 hamming17123_H hamming17123_corr" "table_sound 17 5 hamming17123_H hamming17123_corr"
  by code_simp+

interpretation h17: hamming_code 17 5 12 hamming17123_H hamming17123_corr
  by unfold_locales (simp_all add: hamming17123_tables)

lemma xor_bit_sum: "x < 2 \<Longrightarrow> y < 2 \<Longrightarrow> x XOR y = (x + y) mod (2::nat)"
  by (auto simp: less_2_cases_iff)

lemma to_bool_differs: "s < 2 \<Longrightarrow> b < 2 \<Longrightarrow> to_bool s \<noteq> b \<longleftrightarrow> (s + b) mod 2 = 1"
  by (auto simp: to_bool_def less_2_cases_iff)

lemma seventeen:
  assumes "length d = 17"
  obtains d0 d1 d2 d3 d4 d5 d6 d7 d8 d9 d10 d11 d12 d13 d14 d15 d16
  where "d = [d0, d1, d2, d3, d4, d5, d6, d7, d8, d9, d10, d11, d12, d13, d14, d15, d16]"
  using assms by (auto simp: eval_nat_numeral length_Suc_conv)

lemma upt_17: "[0..<17] = [0, 1, 2, 3, 4, 5, 6, 7, 8, 9, 10, 11, 12, 13, 14, 15, 16]"
  and upt_5: "[0..<5] = [0, 1, 2, 3, 4]"
  by (simp_all add: upt_rec)

lemma checks_syndrome:
  assumes "p0 < 2" "p1 < 2" "p2 < 2" "p3 < 2" "p4 < (2::nat)"
  shows "(if p0 = 1 then 0x01 else 0x00) OR (if p1 = 1 then 0x02 else 0x00) OR
    (if p2 = 1 then 0x04 else 0x00) OR (if p3 = 1 then 0x08 else 0x00) OR (if p4 = 1 then 0x10 else 0x00) =
    push_bit 4 p4 + (push_bit 3 p3 + (push_bit 2 p2 + (push_bit 1 p1 + p0)))"
  using assms unfolding less_2_cases_iff by (elim disjE) simp_all

lemma correction_lookup:
  assumes "bits d" "length d = 17" "0 < s" "s < 32"
  shows "dmr_hamming17123_apply_correction d s =
    (if hamming17123_corr ! s = 0xFF then (False, d) else (True, flip_at (hamming17123_corr ! s) d))"
proof -
  have flip: "d[b := if d ! b = 0 then 1 else 0] = flip_at b d" if "b < 17" for b
    using assms(1,2) that bits_nth [of d b] by (auto simp: flip_at_def less_2_cases_iff)
  have "s \<in> set [1..<32]" using assms by simp
  also have "[1..<32] = [1, 2, 3, 4, 5, 6, 7, 8, 9, 10, 11, 12, 13, 14, 15, 16, 17, 18, 19, 20, 21, 22, 23, 24,
      25, 26, 27, 28, 29, 30, 31::nat]" by (simp add: upt_rec)
  finally show ?thesis
    unfolding dmr_hamming17123_apply_correction_def kHamming17123Corrections_def
    by (simp add: flip del: One_nat_def) (elim disjE; simp add: hamming17123_corr_def)
qed

lemma Hamming17123_word:
  assumes "bits d" "length d = 17"
  shows "Hamming17123 d = correct_word 17 5 hamming17123_H hamming17123_corr d"
proof -
  obtain d0 d1 d2 d3 d4 d5 d6 d7 d8 d9 d10 d11 d12 d13 d14 d15 d16
    where d: "d = [d0, d1, d2, d3, d4, d5, d6, d7, d8, d9, d10, d11, d12, d13, d14, d15, d16]" using seventeen [OF assms(2)] .
  define p0 where "p0 = (d0 + d1 + d2 + d3 + d6 + d7 + d9 + d12) mod 2"
  define p1 where "p1 = (d0 + d1 + d2 + d3 + d4 + d7 + d8 + d10 + d13) mod 2"
  define p2 where "p2 = (d1 + d2 + d3 + d4 + d5 + d8 + d9 + d11 + d14) mod 2"
  define p3 where "p3 = (d0 + d1 + d4 + d5 + d7 + d10 + d15) mod 2"
  define p4 where "p4 = (d0 + d1 + d2 + d5 + d6 + d8 + d11 + d16) mod 2"
  have p: "p0 < 2" "p1 < 2" "p2 < 2" "p3 < 2" "p4 < 2" by (simp_all add: p0_def p1_def p2_def p3_def p4_def)
  have syn: "syndrome_index 17 5 hamming17123_H d =
      push_bit 4 p4 + (push_bit 3 p3 + (push_bit 2 p2 + (push_bit 1 p1 + p0)))"
    by (simp add: d syndrome_index_def row_parity_def upt_17 upt_5 hamming17123_H_def
        p0_def p1_def p2_def p3_def p4_def add.assoc)
  have b: "d0 < 2" "d1 < 2" "d2 < 2" "d3 < 2" "d4 < 2" "d5 < 2" "d6 < 2" "d7 < 2" "d8 < 2" "d9 < 2" "d10 < 2"
    "d11 < 2" "d12 < 2" "d13 < 2" "d14 < 2" "d15 < 2" "d16 < 2"
    using assms(1) by (simp_all add: d)
  have e0: "to_bool (d!0 XOR d!1 XOR d!2 XOR d!3 XOR d!6 XOR d!7 XOR d!9) \<noteq> d!12 \<longleftrightarrow> p0 = 1"
    unfolding p0_def
    by (subst to_bool_differs) (simp_all add: d b xor_bit_sum mod_add_left_eq mod_add_right_eq add.assoc)
  have e1: "to_bool (d!0 XOR d!1 XOR d!2 XOR d!3 XOR d!4 XOR d!7 XOR d!8 XOR d!10) \<noteq> d!13 \<longleftrightarrow> p1 = 1"
    unfolding p1_def
    by (subst to_bool_differs) (simp_all add: d b xor_bit_sum mod_add_left_eq mod_add_right_eq add.assoc)
  have e2: "to_bool (d!1 XOR d!2 XOR d!3 XOR d!4 XOR d!5 XOR d!8 XOR d!9 XOR d!11) \<noteq> d!14 \<longleftrightarrow> p2 = 1"
    unfolding p2_def
    by (subst to_bool_differs) (simp_all add: d b xor_bit_sum mod_add_left_eq mod_add_right_eq add.assoc)
  have e3: "to_bool (d!0 XOR d!1 XOR d!4 XOR d!5 XOR d!7 XOR d!10) \<noteq> d!15 \<longleftrightarrow> p3 = 1"
    unfolding p3_def
    by (subst to_bool_differs) (simp_all add: d b xor_bit_sum mod_add_left_eq mod_add_right_eq add.assoc)
  have e4: "to_bool (d!0 XOR d!1 XOR d!2 XOR d!5 XOR d!6 XOR d!8 XOR d!11) \<noteq> d!16 \<longleftrightarrow> p4 = 1"
    unfolding p4_def
    by (subst to_bool_differs) (simp_all add: d b xor_bit_sum mod_add_left_eq mod_add_right_eq add.assoc)
  have "Hamming17123 d = (let n = syndrome_index 17 5 hamming17123_H d
      in if n = 0 then (True, d) else dmr_hamming17123_apply_correction d n)"
    unfolding syn checks_syndrome [OF p, symmetric] Hamming17123_def Let_def
    by (simp only: e0 e1 e2 e3 e4 or.left_neutral or.assoc)
  then show ?thesis
    using correction_lookup [OF assms] syndrome_index_less [of 17 5 hamming17123_H d]
    by (simp add: correct_word_def Let_def)
qed

text \<open>
  The short link control check repairs every single wrong bit of a seventeen-bit word
  and leaves a codeword alone; and whatever word it accepts, the bits it leaves satisfy
  all five parity checks.
\<close>

lemma Hamming17123_corrects:
  assumes "bits d" "length d = 17"
  shows "(codeword 17 5 hamming17123_H d \<longrightarrow> Hamming17123 d = (True, d) \<and>
            (\<forall>p \<in> set [0..<17]. Hamming17123 (flip_at p d) = (True, d))) \<and>
         (fst (Hamming17123 d) \<longrightarrow> codeword 17 5 hamming17123_H (snd (Hamming17123 d)))"
proof (intro conjI impI ballI)
  assume c: "codeword 17 5 hamming17123_H d"
  then show "Hamming17123 d = (True, d)"
    using h17.correct_word_errors [of d "[]"] Hamming17123_word [OF assms] by (simp add: positions_def)
  fix p assume "p \<in> set [0..<17]"
  then show "Hamming17123 (flip_at p d) = (True, d)"
    using h17.correct_word_errors [OF c, of "[p]"] Hamming17123_word [of "flip_at p d"] assms
    by (simp add: positions_def)
next
  assume "fst (Hamming17123 d)"
  then have "correct_word 17 5 hamming17123_H hamming17123_corr d = (True, snd (Hamming17123 d))"
    using Hamming17123_word [OF assms] by (metis prod.collapse)
  then show "codeword 17 5 hamming17123_H (snd (Hamming17123 d))"
    using h17.correct_word_accepts [OF assms] by blast
qed

section \<open>Checksums: detection of errors\<close>

interpretation c8: crc_divider 8 "0x07 :: u8" crc8_poly
  by unfold_locales (simp_all add: crc8_poly_def msb_bits_def upt_rec)

interpretation c7: crc_divider 7 "0x27 :: u8" crc7_poly
  by unfold_locales (simp_all add: crc7_poly_def msb_bits_def upt_rec)

interpretation c9: crc_register 9 "0x059 :: u16"
  by unfold_locales simp_all

interpretation c32: crc_register 32 "0x04C11DB7 :: u32"
  by unfold_locales simp_all

lemma crc8_feed:
  "bits bs \<Longrightarrow> len \<le> length bs \<Longrightarrow> len + 8 \<le> 256 \<Longrightarrow> crc8 bs len = crc_feed 8 0x07 (map odd (take len bs)) 0"
  using c8.poly_divide_read(1) [of bs len 256] by (simp add: crc8_def take_bit_word_eq_self)

lemma crc7_feed:
  "bits bs \<Longrightarrow> len \<le> length bs \<Longrightarrow> len + 7 \<le> 256 \<Longrightarrow>
   crc7 bs len = take_bit 7 (crc_feed 7 0x27 (map odd (take len bs)) 0)"
  using c7.poly_divide_read(1) [of bs len 256] by (simp add: crc7_def)

lemma ComputeCrcCCITT_feed:
  assumes "80 \<le> length buf"
  shows "ComputeCrcCCITT buf = crc_feed 16 0x1021 (map odd (take 80 buf)) 0 XOR 0xFFFF"
proof -
  have "fold (\<lambda>i CRC. if (drop_bit 15 CRC AND 1) XOR (of_nat (buf ! i) AND 1) \<noteq> 0
                   then push_bit 1 CRC XOR 0x1021 else push_bit 1 CRC) [0..<80] 0 =
        crc_feed 16 (0x1021::u16) (map (\<lambda>i. odd (buf ! i)) [0..<80]) 0"
    by (rule crc_loop_feed) (simp add: feedback_bit crc_step_def del: One_nat_def)
  then show ?thesis by (simp only: ComputeCrcCCITT_def map_odd_take [OF assms])
qed

lemma and_mask_9: "x AND 0x01FF = take_bit 9 (x::u16)"
  by (simp add: take_bit_eq_mask mask_eq_exp_minus_1)

lemma ComputeCrc9Bit_feed:
  assumes "n \<le> length buf"
  shows "ComputeCrc9Bit buf n = take_bit 9 (crc_feed 9 0x059 (map odd (take n buf)) 0) XOR 0x01FF"
proof -
  have "fold (\<lambda>i CRC. if (drop_bit 8 CRC AND 1) XOR (of_nat (buf ! i) AND 1) \<noteq> 0
                    then push_bit 1 CRC XOR 0x059 else push_bit 1 CRC) [0..<n] 0 =
        crc_feed 9 (0x059::u16) (map (\<lambda>i. odd (buf ! i)) [0..<n]) 0"
    by (rule crc_loop_feed) (simp add: feedback_bit crc_step_def del: One_nat_def)
  then show ?thesis unfolding ComputeCrc9Bit_def and_mask_9 by (simp only: map_odd_take [OF assms])
qed

text \<open>The byte reversal that ends the CRC-32 loses nothing.\<close>

definition swap_bytes :: "u32 \<Rightarrow> u32" where
  "swap_bytes CRC = push_bit 24 (CRC AND 0xFF) + push_bit 16 (drop_bit 8 (CRC AND 0xFF00)) +
     push_bit 8 (drop_bit 16 (CRC AND 0xFF0000)) + drop_bit 24 (CRC AND 0xFF000000)"

lemma byte_mask_bit:
  "bit (0xFF :: u32) i \<longleftrightarrow> i < 8" "bit (0xFF00 :: u32) i \<longleftrightarrow> 8 \<le> i \<and> i < 16"
  "bit (0xFF0000 :: u32) i \<longleftrightarrow> 16 \<le> i \<and> i < 24" "bit (0xFF000000 :: u32) i \<longleftrightarrow> 24 \<le> i \<and> i < 32"
proof -
  have m: "(0xFF :: u32) = mask 8" "(0xFF00 :: u32) = push_bit 8 (mask 8)" "(0xFF0000 :: u32) = push_bit 16 (mask 8)"
    "(0xFF000000 :: u32) = push_bit 24 (mask 8)"
    by (simp_all add: mask_eq_exp_minus_1)
  show "bit (0xFF :: u32) i \<longleftrightarrow> i < 8" unfolding m by (auto simp: bit_mask_iff possible_bit_word)
  show "bit (0xFF00 :: u32) i \<longleftrightarrow> 8 \<le> i \<and> i < 16"
    unfolding m by (auto simp: bit_push_bit_iff bit_mask_iff possible_bit_word)
  show "bit (0xFF0000 :: u32) i \<longleftrightarrow> 16 \<le> i \<and> i < 24"
    unfolding m by (auto simp: bit_push_bit_iff bit_mask_iff possible_bit_word)
  show "bit (0xFF000000 :: u32) i \<longleftrightarrow> 24 \<le> i \<and> i < 32"
    unfolding m by (auto simp: bit_push_bit_iff bit_mask_iff possible_bit_word)
qed

lemma disjoint_add: "(\<And>i. \<not> (bit a i \<and> bit b i)) \<Longrightarrow> a + b = (a OR b :: 'a::len word)"
  by (intro disjunctive_add_eq_or bit_eqI) (auto simp: bit_and_iff)

lemma swap_bytes_or:
  "swap_bytes x = push_bit 24 (x AND 0xFF) OR push_bit 16 (drop_bit 8 (x AND 0xFF00)) OR
     push_bit 8 (drop_bit 16 (x AND 0xFF0000)) OR drop_bit 24 (x AND 0xFF000000)"
  unfolding swap_bytes_def
  by (subst disjoint_add | subst or.assoc |
      (simp only: bit_push_bit_iff bit_drop_bit_eq bit_and_iff bit_or_iff byte_mask_bit o_apply; linarith))+

lemma bit_swap_bytes:
  "i < 32 \<Longrightarrow> bit (swap_bytes x) i \<longleftrightarrow>
   bit x (if i < 8 then i + 24 else if i < 16 then i + 8 else if i < 24 then i - 8 else i - 24)"
  unfolding swap_bytes_or bit_or_iff bit_push_bit_iff bit_drop_bit_eq bit_and_iff byte_mask_bit o_apply
  by (cases "i < 8"; cases "i < 16"; cases "i < 24") (simp_all add: add.commute, auto)

lemma swap_bytes_inj: "swap_bytes x = swap_bytes y \<Longrightarrow> x = y"
proof (rule bit_word_eqI)
  fix j assume eq: "swap_bytes x = swap_bytes y" and "j < LENGTH(32)"
  then have j: "j < 32" by simp
  define i where "i = (if j < 8 then j + 24 else if j < 16 then j + 8 else if j < 24 then j - 8 else j - 24)"
  have "i < 32" "(if i < 8 then i + 24 else if i < 16 then i + 8 else if i < 24 then i - 8 else i - 24) = j"
    using j by (auto simp: i_def)
  then show "bit x j = bit y j" using bit_swap_bytes [of i x] bit_swap_bytes [of i y] eq by simp
qed

lemma ComputeCrc32Bit_feed:
  assumes "n \<le> length buf"
  shows "ComputeCrc32Bit buf n = swap_bytes (crc_feed 32 0x04C11DB7 (map odd (take n buf)) 0)"
proof -
  have "fold (\<lambda>i CRC. if (drop_bit 31 CRC AND 1) XOR (of_nat (buf ! i) AND 1) \<noteq> 0
                   then push_bit 1 CRC XOR 0x04C11DB7 else push_bit 1 CRC) [0..<n] 0 =
        crc_feed 32 (0x04C11DB7::u32) (map (\<lambda>i. odd (buf ! i)) [0..<n]) 0"
    by (rule crc_loop_feed) (simp add: feedback_bit crc_step_def del: One_nat_def)
  then show ?thesis unfolding ComputeCrc32Bit_def swap_bytes_def Let_def by (simp only: map_odd_take [OF assms])
qed

text \<open>
  Two data blocks of the same length that differ only inside a window of at most nine
  bits have different CRC-9, and inside a window of at most thirty-two bits different
  CRC-32, the reversed byte order included.
\<close>

lemma dmr_data_crc_burst:
  assumes "length xs = length ys" "map odd xs \<noteq> map odd ys" "n = length (pre @ xs @ suf)"
  shows "(length ys \<le> 9 \<longrightarrow> ComputeCrc9Bit (pre @ xs @ suf) n \<noteq> ComputeCrc9Bit (pre @ ys @ suf) n) \<and>
         (length ys \<le> 32 \<longrightarrow> ComputeCrc32Bit (pre @ xs @ suf) n \<noteq> ComputeCrc32Bit (pre @ ys @ suf) n)"
proof (intro conjI impI)
  have le: "n \<le> length (pre @ xs @ suf)" "n \<le> length (pre @ ys @ suf)" using assms by simp_all
  have len: "length (map odd xs) = length (map odd ys)" using assms by simp
  have msgs: "map odd (take n (pre @ xs @ suf)) = map odd pre @ map odd xs @ map odd suf"
    "map odd (take n (pre @ ys @ suf)) = map odd pre @ map odd ys @ map odd suf"
    using assms(1,3) by simp_all
  { assume "length ys \<le> 9"
    then show "ComputeCrc9Bit (pre @ xs @ suf) n \<noteq> ComputeCrc9Bit (pre @ ys @ suf) n"
      unfolding le [THEN ComputeCrc9Bit_feed] msgs xor_right_cancel
      by (intro c9.burst_detected [OF len _ assms(2)]) simp }
  assume "length ys \<le> 32"
  then have "take_bit 32 (crc_feed 32 (0x04C11DB7::u32) (map odd pre @ map odd xs @ map odd suf) 0) \<noteq>
      take_bit 32 (crc_feed 32 0x04C11DB7 (map odd pre @ map odd ys @ map odd suf) 0)"
    by (intro c32.burst_detected [OF len _ assms(2)]) simp
  then show "ComputeCrc32Bit (pre @ xs @ suf) n \<noteq> ComputeCrc32Bit (pre @ ys @ suf) n"
    unfolding le [THEN ComputeCrc32Bit_feed] msgs using swap_bytes_inj by metis
qed

lemma read_field_add:
  assumes "bits xs" "off + n \<le> length xs"
  shows "fold (\<lambda>i c. push_bit 1 c + of_nat (xs ! (off + i))) [0..<n] 0 =
    (msb_word (map odd (take n (drop off xs))) :: 'a::len word)"
proof -
  have "fold (\<lambda>i c. push_bit 1 c + of_nat (xs ! (off + i))) [0..<n] 0 =
      fold msb_shift (map (\<lambda>i. odd (xs ! (off + i))) [0..<n]) (0 :: 'a word)"
  proof (rule fold_shift_msb)
    fix i and c :: "'a word" assume "i \<in> set [0..<n]"
    then have "xs ! (off + i) < 2" using assms bits_nth by simp
    then show "push_bit 1 c + of_nat (xs ! (off + i)) = msb_shift (odd (xs ! (off + i))) c"
      by (simp only: add_bit_shift) (auto simp: less_2_cases_iff)
  qed
  also have "map (\<lambda>i. odd (xs ! (off + i))) [0..<n] = map odd (take n (drop off xs))"
    using assms(2) by (intro nth_equalityI) auto
  finally show ?thesis by (simp add: msb_word_def)
qed

lemma ucast_msb_word: "length bs \<le> 8 \<Longrightarrow> (ucast (msb_word bs :: u8) :: u16) = msb_word bs"
  by (rule bit_eqI) (auto simp: bit_unsigned_iff bit_msb_word)

lemma ucast_u8_eq: "(ucast (a::u8) :: u16) = ucast b \<longleftrightarrow> a = b"
proof
  assume "(ucast a :: u16) = ucast b"
  then have all: "bit (ucast a :: u16) i = bit (ucast b :: u16) i" for i by simp
  have "bit a i = bit b i" if "i < 8" for i
  proof -
    have "i < 16" using that by simp
    then show ?thesis using all [of i] by (simp add: bit_unsigned_iff)
  qed
  then show "a = b" by (intro bit_word_eqI) simp
qed simp

lemma crc8_ok_frame:
  assumes "bits bs" "length bs = len + 8" "len + 8 \<le> 256"
  shows "crc8_ok bs len \<longleftrightarrow> crc_frame 8 (0x07::u8) 0 0 (map odd bs)"
proof -
  let ?c = "crc_feed 8 (0x07::u8) (map odd (take len bs)) 0"
  let ?f = "map odd (drop len bs)"
  have "fold (\<lambda>i crc. push_bit 1 crc + of_nat (bs ! (len + i))) [0..<8] 0 = (ucast (msb_word ?f :: u8) :: u16)"
    using read_field_add [of bs len 8] assms by (simp add: ucast_msb_word)
  then have "crc8_ok bs len \<longleftrightarrow> (msb_word ?f :: u8) = crc8 bs len"
    unfolding crc8_ok_def by (simp only: ucast_u8_eq)
  also have "\<dots> \<longleftrightarrow> msb_word ?f = take_bit 8 ?c"
    using assms by (simp add: crc8_feed take_bit_word_eq_self)
  also have "\<dots> \<longleftrightarrow> ?f = msb_bits 8 ?c" using assms(2) by (intro msb_word_eq_field) simp_all
  finally show ?thesis using assms(2) by (simp add: crc_frame_def take_map drop_map)
qed

lemma bits_odd_inj: "bits xs \<Longrightarrow> bits ys \<Longrightarrow> map odd xs = map odd ys \<Longrightarrow> xs = ys"
proof (induction xs arbitrary: ys)
  case (Cons x xs)
  then show ?case by (cases ys) (auto simp: less_2_cases_iff)
qed simp

text \<open>
  A frame that passes the CRC-8 check does not pass it after an error burst of at most
  eight bits, in the message, in the checksum or across the two.
\<close>

lemma crc8_ok_detects_burst:
  assumes "bits (pre @ xs @ suf)" "bits ys" "length (pre @ xs @ suf) = len + 8" "len + 8 \<le> 256"
    and "length ys = length xs" "length xs \<le> 8" "ys \<noteq> xs" "crc8_ok (pre @ xs @ suf) len"
  shows "\<not> crc8_ok (pre @ ys @ suf) len"
proof -
  have "map odd xs \<noteq> map odd ys" using bits_odd_inj [of xs ys] assms by auto
  moreover have "crc_frame 8 (0x07::u8) 0 0 (map odd pre @ map odd xs @ map odd suf)"
    using assms(8) crc8_ok_frame [OF assms(1,3,4)] by simp
  ultimately have "\<not> crc_frame 8 (0x07::u8) 0 0 (map odd pre @ map odd ys @ map odd suf)"
    using assms by (intro c8.frame_burst) simp_all
  then show ?thesis using crc8_ok_frame [of "pre @ ys @ suf" len] assms by simp
qed

section \<open>CRC-5\<close>

lemma or_bit_add: "even a \<Longrightarrow> x < 2 \<Longrightarrow> a OR x = a + (x::nat)"
  by (auto simp: less_2_cases_iff or_Suc_0_eq)

lemma octet_value:
  assumes "\<And>j. j < 8 \<Longrightarrow> f j < 2" "k \<le> 8"
  shows "fold (\<lambda>j b. (b * 2) mod 256 OR f j) [0..<k] 0 = (\<Sum>j<k. f j * 2 ^ (k - 1 - j) :: nat)
    \<and> (\<Sum>j<k. f j * 2 ^ (k - 1 - j)) < 2 ^ k"
  using assms(2)
proof (induction k)
  case (Suc k)
  let ?s = "\<Sum>j<k. f j * 2 ^ (k - 1 - j)"
  have ih: "fold (\<lambda>j b. (b * 2) mod 256 OR f j) [0..<k] 0 = ?s" "?s < 2 ^ k" using Suc by simp_all
  have fk: "f k < 2" using assms(1) Suc.prems by simp
  have "(2::nat) ^ k \<le> 2 ^ 7" using Suc.prems by (intro power_increasing) simp_all
  then have small: "?s * 2 < 256" using ih(2) by simp
  have "f j * 2 ^ (Suc k - 1 - j) = f j * 2 ^ (k - 1 - j) * 2" if "j < k" for j
    using that by (simp add: Suc_diff_Suc [OF that, symmetric])
  then have "(\<Sum>j<k. f j * 2 ^ (Suc k - 1 - j)) = ?s * 2"
    unfolding sum_distrib_right by (intro sum.cong) simp_all
  then have "(\<Sum>j<Suc k. f j * 2 ^ (Suc k - 1 - j)) = ?s * 2 + f k" by simp
  moreover have "(?s * 2) mod 256 OR f k = ?s * 2 + f k" using small fk by (simp add: or_bit_add)
  ultimately show ?case using ih fk by simp
qed simp

lemma fold_sum_mod: "(\<Sum>i<n. g i) < m \<Longrightarrow> fold (\<lambda>i s. (s + g i) mod m) [0..<n] 0 = (\<Sum>i<n. g i :: nat)"
proof (induction n)
  case (Suc n)
  then have "(\<Sum>i<n. g i) < m" by simp
  then show ?case using Suc by simp
qed simp

lemma ComputeCrc5Bit_value:
  assumes "bits d" "length d = 72"
  shows "ComputeCrc5Bit d = (\<Sum>i<9. \<Sum>j<8. d ! (8 * i + j) * 2 ^ (7 - j)) mod 31"
proof -
  let ?B = "\<lambda>i. \<Sum>j<8. d ! (8 * i + j) * 2 ^ (7 - j)"
  have B: "fold (\<lambda>j b. (b * 2) mod 256 OR d ! (8 * i + j)) [0..<8] 0 = ?B i \<and> ?B i < 256" if "i < 9" for i
    using octet_value [of "\<lambda>j. d ! (8 * i + j)" 8] bits_nth [OF assms(1)] assms(2) that by simp
  have "(\<Sum>i<9. ?B i) \<le> (\<Sum>i<(9::nat). 256)" using B by (intro sum_mono) (simp add: less_imp_le)
  then have small: "(\<Sum>i<9. ?B i) < 2 ^ 32" by simp
  have "fold (\<lambda>i s. (s + map (\<lambda>i. fold (\<lambda>j b. (b * 2) mod 256 OR d ! (8 * i + j)) [0..<8] 0) [0..<9] ! i) mod 2 ^ 32)
      [0..<9] 0 = fold (\<lambda>i s. (s + ?B i) mod 2 ^ 32) [0..<9] 0"
    using B by (intro List.fold_cong) simp_all
  also have "\<dots> = (\<Sum>i<9. ?B i)" using small by (rule fold_sum_mod)
  finally show ?thesis by (simp add: ComputeCrc5Bit_def Let_def)
qed

definition crc5_weight :: "bit_array \<Rightarrow> nat" where
  "crc5_weight d = (\<Sum>i<9. \<Sum>j<8. d ! (8 * i + j) * 2 ^ (7 - j))"

lemma crc5_weight_split:
  assumes "a < 9" "b < 8"
  obtains R where "crc5_weight d = R + d ! (8 * a + b) * 2 ^ (7 - b)"
    "\<And>v. length d = 72 \<Longrightarrow> crc5_weight (d[8 * a + b := v]) = R + v * 2 ^ (7 - b)"
proof -
  define row where "row d i = (\<Sum>j<8. d ! (8 * i + j) * 2 ^ (7 - j) :: nat)" for d :: bit_array and i
  define R where "R = (\<Sum>i \<in> {..<9} - {a}. row d i) + (\<Sum>j \<in> {..<8} - {b}. d ! (8 * a + j) * 2 ^ (7 - j))"
  have split: "crc5_weight d' = (\<Sum>i \<in> {..<9} - {a}. row d' i) +
      (\<Sum>j \<in> {..<8} - {b}. d' ! (8 * a + j) * 2 ^ (7 - j)) + d' ! (8 * a + b) * 2 ^ (7 - b)" for d'
    using assms sum.remove [of "{..<9}" a "row d'"] sum.remove [of "{..<8}" b "\<lambda>j. d' ! (8 * a + j) * 2 ^ (7 - j)"]
    by (simp add: crc5_weight_def row_def)
  show thesis
  proof (rule that [of R])
    show "crc5_weight d = R + d ! (8 * a + b) * 2 ^ (7 - b)" using split [of d] by (simp add: R_def)
    fix v assume len: "length d = 72"
    let ?d = "d[8 * a + b := v]"
    have "8 * i + j \<noteq> 8 * a + b" if "i \<noteq> a" "j < 8" for i j using that assms(2) by auto
    then have "row ?d i = row d i" if "i \<noteq> a" for i
      unfolding row_def using that by (intro sum.cong refl) (metis lessThan_iff nth_list_update_neq)
    then have "(\<Sum>i \<in> {..<9} - {a}. row ?d i) = (\<Sum>i \<in> {..<9} - {a}. row d i)" by (intro sum.cong) auto
    moreover have "(\<Sum>j \<in> {..<8} - {b}. ?d ! (8 * a + j) * 2 ^ (7 - j)) =
        (\<Sum>j \<in> {..<8} - {b}. d ! (8 * a + j) * 2 ^ (7 - j))" by (intro sum.cong) auto
    moreover have "?d ! (8 * a + b) = v" using len assms by simp
    ultimately show "crc5_weight ?d = R + v * 2 ^ (7 - b)" using split [of ?d] by (simp add: R_def)
  qed
qed

lemma weight_not_31: "b < 8 \<Longrightarrow> (R + 2 ^ (7 - b)) mod 31 \<noteq> (R :: nat) mod 31"
proof
  assume b: "b < 8" and "(R + 2 ^ (7 - b)) mod 31 = R mod 31"
  then have "31 dvd (2::nat) ^ (7 - b)" by (metis add_diff_cancel_left' le_add1 mod_eq_dvd_iff_nat)
  moreover have "b \<in> {0, 1, 2, 3, 4, 5, 6, 7}" using b by auto
  ultimately show False by (auto simp: dvd_def) presburger+
qed

text \<open>
  The CRC-5 of a 72-bit voice burst is below 31 and changes when any single bit of
  the burst is flipped.
\<close>

lemma ComputeCrc5Bit_detects_flip:
  assumes "bits d" "length d = 72" "p < 72"
  shows "ComputeCrc5Bit d < 31 \<and> ComputeCrc5Bit (flip_at p d) \<noteq> ComputeCrc5Bit d"
proof -
  define a b where "a = p div 8" and "b = p mod 8"
  have p: "a < 9" "b < 8" "p = 8 * a + b" using assms(3) by (auto simp: a_def b_def)
  obtain R where R: "crc5_weight d = R + d ! (8 * a + b) * 2 ^ (7 - b)"
      "\<And>v. length d = 72 \<Longrightarrow> crc5_weight (d[8 * a + b := v]) = R + v * 2 ^ (7 - b)"
    using crc5_weight_split [OF p(1,2), of d] by blast
  have val: "ComputeCrc5Bit d' = crc5_weight d' mod 31" if "bits d'" "length d' = 72" for d'
    using ComputeCrc5Bit_value [OF that] by (simp add: crc5_weight_def)
  have "d ! p = 0 \<or> d ! p = 1" using bits_nth [OF assms(1), of p] assms(2,3) by auto
  then have "crc5_weight (flip_at p d) mod 31 \<noteq> crc5_weight d mod 31"
    using R(1) R(2) [OF assms(2)] weight_not_31 [OF p(2), of R] by (auto simp: flip_at_def p(3))
  then show ?thesis using val assms by simp
qed

end
