(* ===== verification/P25_Crc.thy ===== *)
theory P25_Crc
  imports Bit_Packing
begin

text \<open>
  The P25 frame checks, \<open>src/protocol/p25/p25_crc.c\<close>: CRC-CCITT over a bit buffer, the CRC-12
  of phase 2 by division of a buffer, and the two bridges that copy a payload of \<open>int\<close> bits
  into a fixed buffer of 190 bytes and compare the checksum that follows the message. The
  results keep the code's \<open>uint16_t\<close>: a mismatch is 65535.
\<close>

section \<open>Model\<close>

definition ComputeCrcCCITT16b :: "bit_array \<Rightarrow> nat \<Rightarrow> u16" where
  "ComputeCrcCCITT16b buf len =
     fold (\<lambda>i CRC. if (drop_bit 15 CRC AND 1) XOR (of_nat (buf ! i) AND 1) \<noteq> 0
                   then push_bit 1 CRC XOR 0x1021 else push_bit 1 CRC) [0..<len] 0 XOR 0xFFFF"

definition crc16_ok :: "bit_array \<Rightarrow> nat \<Rightarrow> nat \<Rightarrow> u16" where
  "crc16_ok bs len cap =
     (if 16 > cap \<or> len > cap \<or> (len + 16) mod 2 ^ 32 > cap then -1
      else let crc = fold (\<lambda>i crc. push_bit 1 crc OR of_nat (bs ! (i + len))) [0..<16] 0;
               check = ComputeCrcCCITT16b bs len
           in if crc = check then 0 else -1)"

definition load_payload :: "int list \<Rightarrow> int \<Rightarrow> bit_array" where
  "load_payload payload tot =
     (let tot = (if tot < 0 then 0 else tot);
          tot = (if tot > 190 then 190 else tot)
      in map (\<lambda>i. if int i < tot then nat (payload ! i mod 256) else 0) [0..<190])"

definition crc16_lb_bridge :: "int list \<Rightarrow> int \<Rightarrow> int" where
  "crc16_lb_bridge payload len =
     (let buf = load_payload payload (len + 16)
      in uint (crc16_ok buf (nat (len mod 2 ^ 32)) 190))"

definition crc12_poly :: "nat list" where
  "crc12_poly = [1, 1, 0, 0, 0, 1, 0, 0, 1, 0, 1, 1, 1]"

definition crc12 :: "bit_array \<Rightarrow> nat \<Rightarrow> u16" where
  "crc12 bs len =
     (if len + 12 > 256 then 0
      else let buf = take len bs @ replicate (256 - len) 0;
               buf = poly_divide crc12_poly len buf
           in fold (\<lambda>i crc. push_bit 1 crc + of_nat (buf ! (len + i))) [0..<12] 0 XOR 0xFFF)"

definition crc12_ok :: "bit_array \<Rightarrow> nat \<Rightarrow> nat \<Rightarrow> u16" where
  "crc12_ok bs len cap =
     (if 12 > cap \<or> len > cap \<or> (len + 12) mod 2 ^ 32 > cap then -1
      else let crc = fold (\<lambda>i crc. push_bit 1 crc OR of_nat (bs ! (i + len))) [0..<12] 0;
               check = crc12 bs len
           in if crc = check then 0 else -1)"

definition crc12_xb_bridge :: "int list \<Rightarrow> int \<Rightarrow> int" where
  "crc12_xb_bridge payload len =
     (let buf = load_payload payload (len + 12)
      in uint (crc12_ok buf (nat (len mod 2 ^ 32)) 190))"

section \<open>The checksums as runs of a shift register\<close>

interpretation c12: crc_divider 12 "0x897 :: u16" crc12_poly
  by unfold_locales (simp_all add: crc12_poly_def msb_bits_def upt_rec)

lemma ComputeCrcCCITT16b_feed:
  assumes "n \<le> length buf"
  shows "ComputeCrcCCITT16b buf n = crc_feed 16 0x1021 (map odd (take n buf)) 0 XOR 0xFFFF"
proof -
  have "fold (\<lambda>i CRC. if (drop_bit 15 CRC AND 1) XOR (of_nat (buf ! i) AND 1) \<noteq> 0
                   then push_bit 1 CRC XOR 0x1021 else push_bit 1 CRC) [0..<n] 0 =
        crc_feed 16 (0x1021::u16) (map (\<lambda>i. odd (buf ! i)) [0..<n]) 0"
    by (rule crc_loop_feed) (simp add: feedback_bit crc_step_def del: One_nat_def)
  then show ?thesis by (simp add: ComputeCrcCCITT16b_def map_odd_take [OF assms])
qed

lemma crc12_feed:
  assumes "bits bs" "len \<le> length bs" "len + 12 \<le> 256"
  shows "crc12 bs len = take_bit 12 (crc_feed 12 0x897 (map odd (take len bs)) 0) XOR 0xFFF"
  using assms c12.poly_divide_read(1) [of bs len 256] by (simp add: crc12_def)

section \<open>Accepted frames\<close>

text \<open>The bits of a payload of zeros and ones.\<close>

definition payload_bits :: "int list \<Rightarrow> bool list" where
  "payload_bits payload = map (\<lambda>x. x = 1) payload"

definition bit_payload :: "int list \<Rightarrow> bool" where
  "bit_payload payload \<longleftrightarrow> (\<forall>x \<in> set payload. x = 0 \<or> x = 1)"

lemma load_payload_bits:
  assumes "bit_payload payload" "length payload = n" "n \<le> 190"
  shows "bits (load_payload payload (int n))" "length (load_payload payload (int n)) = 190"
    "map odd (take n (load_payload payload (int n))) = payload_bits payload"
proof -
  have nth: "load_payload payload (int n) ! i = (if i < n then nat (payload ! i mod 256) else 0)" if "i < 190" for i
    using that assms(3) by (simp add: load_payload_def)
  have bit: "payload ! i = 0 \<or> payload ! i = 1" if "i < n" for i
    using assms(1,2) that by (auto simp: bit_payload_def)
  show len: "length (load_payload payload (int n)) = 190" by (simp add: load_payload_def)
  show "bits (load_payload payload (int n))"
  proof -
    have "load_payload payload (int n) ! i < 2" if "i < 190" for i
      using nth [OF that] bit [of i] by auto
    then show ?thesis by (auto simp: bits_def in_set_conv_nth len)
  qed
  show "map odd (take n (load_payload payload (int n))) = payload_bits payload"
  proof (rule nth_equalityI)
    fix i assume "i < length (map odd (take n (load_payload payload (int n))))"
    then have "i < n" "i < 190" using len assms(3) by auto
    then show "map odd (take n (load_payload payload (int n))) ! i = payload_bits payload ! i"
      using nth [of i] bit [of i] assms(2) len by (auto simp: payload_bits_def)
  qed (use assms len in \<open>simp add: payload_bits_def\<close>)
qed

lemma take_load_payload:
  assumes "bit_payload payload" "length payload = len + w" "len + w \<le> 190"
  shows "map odd (take len (load_payload payload (int (len + w)))) = take len (payload_bits payload)"
    "map odd (take w (drop len (load_payload payload (int (len + w))))) = drop len (payload_bits payload)"
proof -
  let ?b = "load_payload payload (int (len + w))"
  have all: "map odd (take (len + w) ?b) = payload_bits payload" using load_payload_bits(3) [OF assms] .
  show "map odd (take len ?b) = take len (payload_bits payload)"
    by (simp flip: all add: take_map)
  show "map odd (take w (drop len ?b)) = drop len (payload_bits payload)"
    by (simp flip: all add: drop_map drop_take)
qed

lemma uint_minus_one: "uint (- 1 :: u16) = 65535"
  by (simp add: unsigned_minus_1_eq_mask mask_eq_exp_minus_1)

lemma crc16_lb_bridge_frame:
  assumes "bit_payload payload" "length payload = len + 16" "len + 16 \<le> 190"
  shows "crc16_lb_bridge payload (int len) =
    (if crc_frame 16 (0x1021::u16) 0 0xFFFF (payload_bits payload) then 0 else 65535)"
proof -
  let ?b = "load_payload payload (int len + 16)"
  let ?c = "crc_feed 16 0x1021 (take len (payload_bits payload)) 0 XOR (0xFFFF::u16)"
  note load = load_payload_bits [OF assms, unfolded of_nat_add of_nat_numeral]
    take_load_payload [OF assms, unfolded of_nat_add of_nat_numeral]
  have len: "length (payload_bits payload) = len + 16" using assms by (simp add: payload_bits_def)
  have check: "ComputeCrcCCITT16b ?b len = ?c"
    using load assms(3) by (simp add: ComputeCrcCCITT16b_feed)
  have crc: "fold (\<lambda>i crc. push_bit 1 crc OR of_nat (?b ! (i + len))) [0..<16] 0 =
      (msb_word (drop len (payload_bits payload)) :: u16)"
    using load assms(3) read_field_or [of ?b len 16] by simp
  have "crc_frame 16 (0x1021::u16) 0 0xFFFF (payload_bits payload) \<longleftrightarrow>
      msb_word (drop len (payload_bits payload)) = ?c"
    using msb_word_eq_field [of "drop len (payload_bits payload)" 16 ?c]
    by (simp add: crc_frame_def len take_bit_word_eq_self)
  then have "crc16_ok ?b len 190 =
      (if crc_frame 16 (0x1021::u16) 0 0xFFFF (payload_bits payload) then 0 else -1)"
    unfolding crc16_ok_def crc check Let_def using assms(3) by simp
  moreover have "nat (int len mod 2 ^ 32) = len" using assms(3) by simp
  ultimately show ?thesis by (simp add: crc16_lb_bridge_def Let_def uint_minus_one)
qed

lemma crc12_xb_bridge_frame:
  assumes "bit_payload payload" "length payload = len + 12" "len + 12 \<le> 190"
  shows "crc12_xb_bridge payload (int len) =
    (if crc_frame 12 (0x897::u16) 0 0xFFF (payload_bits payload) then 0 else 65535)"
proof -
  let ?b = "load_payload payload (int len + 12)"
  let ?c = "crc_feed 12 0x897 (take len (payload_bits payload)) 0 XOR (0xFFF::u16)"
  note load = load_payload_bits [OF assms, unfolded of_nat_add of_nat_numeral]
    take_load_payload [OF assms, unfolded of_nat_add of_nat_numeral]
  have len: "length (payload_bits payload) = len + 12" using assms by (simp add: payload_bits_def)
  have check: "crc12 ?b len = take_bit 12 ?c"
    using load assms(3) by (simp add: crc12_feed take_bit_xor)
  have crc: "fold (\<lambda>i crc. push_bit 1 crc OR of_nat (?b ! (i + len))) [0..<12] 0 =
      (msb_word (drop len (payload_bits payload)) :: u16)"
    using load assms(3) read_field_or [of ?b len 12] by simp
  have "crc_frame 12 (0x897::u16) 0 0xFFF (payload_bits payload) \<longleftrightarrow>
      msb_word (drop len (payload_bits payload)) = take_bit 12 ?c"
    using msb_word_eq_field [of "drop len (payload_bits payload)" 12 ?c]
    by (simp add: crc_frame_def len)
  then have "crc12_ok ?b len 190 =
      (if crc_frame 12 (0x897::u16) 0 0xFFF (payload_bits payload) then 0 else -1)"
    unfolding crc12_ok_def crc check Let_def using assms(3) by simp
  moreover have "nat (int len mod 2 ^ 32) = len" using assms(3) by simp
  ultimately show ?thesis by (simp add: crc12_xb_bridge_def Let_def uint_minus_one)
qed

lemma bit_payload_append [simp]: "bit_payload (xs @ ys) \<longleftrightarrow> bit_payload xs \<and> bit_payload ys"
  by (auto simp: bit_payload_def)

lemma payload_bits_append [simp]: "payload_bits (xs @ ys) = payload_bits xs @ payload_bits ys"
  by (simp add: payload_bits_def)

lemma payload_bits_eq:
  "bit_payload xs \<Longrightarrow> bit_payload ys \<Longrightarrow> payload_bits xs = payload_bits ys \<longleftrightarrow> xs = ys"
proof (induction xs arbitrary: ys)
  case (Cons x xs)
  then show ?case by (cases ys) (auto simp: bit_payload_def payload_bits_def)
qed (auto simp: payload_bits_def)

lemma length_payload_bits [simp, len_simps]: "length (payload_bits xs) = length xs"
  by (simp add: payload_bits_def)

text \<open>
  A P25 control frame that passes the CRC-16 check does not pass it after any error
  burst of at most sixteen bits, in the message, in the checksum or across the two.
\<close>

lemma crc16_lb_bridge_detects_burst:
  assumes "bit_payload (pre @ xs @ suf)" "bit_payload ys" "length (pre @ xs @ suf) = len + 16" "len + 16 \<le> 190"
    and "length ys = length xs" "length xs \<le> 16" "ys \<noteq> xs"
    and "crc16_lb_bridge (pre @ xs @ suf) (int len) = 0"
  shows "crc16_lb_bridge (pre @ ys @ suf) (int len) = 65535"
proof -
  have "crc_frame 16 (0x1021::u16) 0 0xFFFF (payload_bits pre @ payload_bits xs @ payload_bits suf)"
    using assms(8) crc16_lb_bridge_frame [OF assms(1,3,4)] by (simp split: if_splits)
  then have "\<not> crc_frame 16 (0x1021::u16) 0 0xFFFF (payload_bits pre @ payload_bits ys @ payload_bits suf)"
    using assms by (intro ccitt.frame_burst) (auto simp: payload_bits_eq)
  then show ?thesis
    using assms crc16_lb_bridge_frame [of "pre @ ys @ suf" len] by simp
qed

text \<open>
  The CRC-12 of phase 2, computed by dividing a buffer, equals the shift register of
  polynomial \<open>x\<^sup>1\<^sup>2 + x\<^sup>1\<^sup>1 + x\<^sup>7 + x\<^sup>4 + x\<^sup>2 + x + 1\<close>, and a frame that passes the check never passes it
  after an error burst of at most twelve bits.
\<close>

lemma crc12_xb_bridge_detects_burst:
  assumes "bit_payload (pre @ xs @ suf)" "bit_payload ys" "length (pre @ xs @ suf) = len + 12" "len + 12 \<le> 190"
    and "length ys = length xs" "length xs \<le> 12" "ys \<noteq> xs"
    and "crc12_xb_bridge (pre @ xs @ suf) (int len) = 0"
  shows "crc12_xb_bridge (pre @ ys @ suf) (int len) = 65535 \<and>
    crc12 (load_payload (pre @ ys @ suf) (int len + 12)) len =
      take_bit 12 (crc_feed 12 0x897 (take len (payload_bits (pre @ ys @ suf))) 0) XOR 0xFFF"
proof -
  have "crc_frame 12 (0x897::u16) 0 0xFFF (payload_bits pre @ payload_bits xs @ payload_bits suf)"
    using assms(8) crc12_xb_bridge_frame [OF assms(1,3,4)] by (simp split: if_splits)
  then have no: "\<not> crc_frame 12 (0x897::u16) 0 0xFFF (payload_bits pre @ payload_bits ys @ payload_bits suf)"
    using assms by (intro c12.frame_burst) (auto simp: payload_bits_eq)
  have frame: "bit_payload (pre @ ys @ suf)" "length (pre @ ys @ suf) = len + 12" using assms by auto
  note load = load_payload_bits [OF frame assms(4), unfolded of_nat_add of_nat_numeral]
    take_load_payload [OF frame assms(4), unfolded of_nat_add of_nat_numeral]
  show ?thesis
    using no assms(4) crc12_xb_bridge_frame [OF frame assms(4)] load by (simp add: crc12_feed)
qed

end
