(* ===== verification/Cc_Candidates.thy ===== *)
theory Cc_Candidates
  imports Prelude Complex_Main
begin

text \<open>
  The control-channel candidate list of a trunked system,
  \<open>src/runtime/trunk_cc_candidates.c\<close>: sixteen slots filled in arrival order, the oldest
  dropped when full, and a cursor that hands out candidates round robin, skipping the
  current control channel, candidates without the required flags and candidates that are
  cooling down. A frequency is an integer; a monotonic time is a rational, of which the
  code only compares values. The extension slot of the decoder state that holds the list
  is an optional record, and whether \<open>calloc\<close> succeeds is an argument. A null state pointer
  makes every operation return at once; the model starts past that guard.
\<close>

section \<open>Model\<close>

definition DSD_TRUNK_CC_CANDIDATES_MAX :: nat where
  "DSD_TRUNK_CC_CANDIDATES_MAX = 16"

record trunk_cc_candidates =
  candidates :: "int list"
  flags :: "u8 list"
  count :: int
  idx :: int
  cool_until :: "rat list"
  added :: u32
  used :: u32

record dsd_state =
  trunk_cc_freq :: int
  p25_cc_freq :: int
  ext_cc :: "trunk_cc_candidates option"

definition cc_calloc :: trunk_cc_candidates where
  "cc_calloc = \<lparr>candidates = replicate 16 0, flags = replicate 16 0, count = 0, idx = 0,
     cool_until = replicate 16 0, added = 0, used = 0\<rparr>"

definition dsd_trunk_cc_candidates_clear :: "trunk_cc_candidates \<Rightarrow> trunk_cc_candidates" where
  "dsd_trunk_cc_candidates_clear cc =
     cc\<lparr>count := 0, idx := 0, candidates := map (\<lambda>k. 0) [0..<DSD_TRUNK_CC_CANDIDATES_MAX],
        flags := map (\<lambda>k. 0) [0..<DSD_TRUNK_CC_CANDIDATES_MAX],
        cool_until := map (\<lambda>k. 0) [0..<DSD_TRUNK_CC_CANDIDATES_MAX]\<rparr>"

definition dsd_trunk_cc_candidates_has_valid_count :: "trunk_cc_candidates \<Rightarrow> bool \<times> trunk_cc_candidates" where
  "dsd_trunk_cc_candidates_has_valid_count cc =
     (if count cc \<ge> 0 \<and> count cc \<le> int DSD_TRUNK_CC_CANDIDATES_MAX then (True, cc)
      else (False, dsd_trunk_cc_candidates_clear cc))"

definition dsd_trunk_cc_candidates_drop_oldest :: "trunk_cc_candidates \<Rightarrow> trunk_cc_candidates" where
  "dsd_trunk_cc_candidates_drop_oldest cc =
     (let cc = fold (\<lambda>k cc.
            cc\<lparr>candidates := (candidates cc)[k - 1 := candidates cc ! k],
               flags := (flags cc)[k - 1 := flags cc ! k],
               cool_until := (cool_until cc)[k - 1 := cool_until cc ! k]\<rparr>)
          [1..<DSD_TRUNK_CC_CANDIDATES_MAX] cc
      in if idx cc > 0 then cc\<lparr>idx := idx cc - 1\<rparr> else cc)"

definition dsd_trunk_cc_candidate_is_allowed ::
  "trunk_cc_candidates \<Rightarrow> nat \<Rightarrow> int \<Rightarrow> rat \<Rightarrow> u8 \<Rightarrow> int option" where
  "dsd_trunk_cc_candidate_is_allowed cc i skip_cc_freq now_monotonic_s required_flags =
     (if required_flags \<noteq> 0 \<and> flags cc ! i AND required_flags \<noteq> required_flags then None
      else if candidates cc ! i = 0 \<or> candidates cc ! i = skip_cc_freq then None
      else if cool_until cc ! i > 0 \<and> now_monotonic_s < cool_until cc ! i then None
      else Some (candidates cc ! i))"

definition dsd_trunk_cc_candidates_get :: "bool \<Rightarrow> dsd_state \<Rightarrow> trunk_cc_candidates option \<times> dsd_state" where
  "dsd_trunk_cc_candidates_get calloc_ok state =
     (case ext_cc state of
        Some cc \<Rightarrow> (Some cc, state)
      | None \<Rightarrow> if calloc_ok then (Some cc_calloc, state\<lparr>ext_cc := Some cc_calloc\<rparr>) else (None, state))"

definition dsd_trunk_cc_candidates_peek :: "dsd_state \<Rightarrow> trunk_cc_candidates option" where
  "dsd_trunk_cc_candidates_peek state = ext_cc state"

definition cc_add :: "int \<Rightarrow> bool \<Rightarrow> u8 \<Rightarrow> trunk_cc_candidates \<Rightarrow> nat \<times> trunk_cc_candidates" where
  "cc_add freq_hz bump_added new_flags cc =
     (case find (\<lambda>k. candidates cc ! k = freq_hz) [0..<nat (count cc)] of
        Some k \<Rightarrow> (0, cc\<lparr>flags := (flags cc)[k := flags cc ! k OR new_flags]\<rparr>)
      | None \<Rightarrow>
          let cc = (if count cc < int DSD_TRUNK_CC_CANDIDATES_MAX
                    then cc\<lparr>candidates := (candidates cc)[nat (count cc) := freq_hz],
                            flags := (flags cc)[nat (count cc) := new_flags],
                            cool_until := (cool_until cc)[nat (count cc) := 0],
                            count := count cc + 1\<rparr>
                    else let cc = dsd_trunk_cc_candidates_drop_oldest cc
                         in cc\<lparr>candidates := (candidates cc)[DSD_TRUNK_CC_CANDIDATES_MAX - 1 := freq_hz],
                               flags := (flags cc)[DSD_TRUNK_CC_CANDIDATES_MAX - 1 := new_flags],
                               cool_until := (cool_until cc)[DSD_TRUNK_CC_CANDIDATES_MAX - 1 := 0]\<rparr>)
          in (1, if bump_added then cc\<lparr>added := added cc + 1\<rparr> else cc))"

definition dsd_trunk_cc_candidates_add :: "bool \<Rightarrow> int \<Rightarrow> bool \<Rightarrow> u8 \<Rightarrow> dsd_state \<Rightarrow> nat \<times> dsd_state" where
  "dsd_trunk_cc_candidates_add calloc_ok freq_hz bump_added new_flags state =
     (if freq_hz = 0 then (0, state)
      else case dsd_trunk_cc_candidates_get calloc_ok state of
        (None, state) \<Rightarrow> (0, state)
      | (Some cc, state) \<Rightarrow>
          (case dsd_trunk_cc_candidates_has_valid_count cc of
             (False, cc) \<Rightarrow> (0, state\<lparr>ext_cc := Some cc\<rparr>)
           | (True, cc) \<Rightarrow> (case cc_add freq_hz bump_added new_flags cc of
                (r, cc) \<Rightarrow> (r, state\<lparr>ext_cc := Some cc\<rparr>))))"

text \<open>The round-robin scan: at most \<open>tries\<close> candidates are looked at.\<close>

primrec cc_scan :: "nat \<Rightarrow> int \<Rightarrow> rat \<Rightarrow> u8 \<Rightarrow> trunk_cc_candidates \<Rightarrow> int option \<times> trunk_cc_candidates" where
  "cc_scan 0 skip now req cc = (None, cc)"
| "cc_scan (Suc tries) skip now req cc =
     (let cc = (if idx cc \<ge> count cc then cc\<lparr>idx := 0\<rparr> else cc);
          i = idx cc;
          cc = cc\<lparr>idx := idx cc + 1\<rparr>
      in case dsd_trunk_cc_candidate_is_allowed cc (nat i) skip now req of
           Some f \<Rightarrow> (Some f, cc\<lparr>used := used cc + 1\<rparr>)
         | None \<Rightarrow> cc_scan tries skip now req cc)"

definition dsd_trunk_cc_candidates_next :: "rat \<Rightarrow> u8 \<Rightarrow> dsd_state \<Rightarrow> int option \<times> dsd_state" where
  "dsd_trunk_cc_candidates_next now_monotonic_s required_flags state =
     (case ext_cc state of
        None \<Rightarrow> (None, state)
      | Some cc \<Rightarrow>
          (case dsd_trunk_cc_candidates_has_valid_count cc of
             (False, cc) \<Rightarrow> (None, state\<lparr>ext_cc := Some cc\<rparr>)
           | (True, cc) \<Rightarrow>
               let skip_cc_freq = (if trunk_cc_freq state \<noteq> 0 then trunk_cc_freq state else p25_cc_freq state)
               in (case cc_scan (nat (count cc)) skip_cc_freq now_monotonic_s required_flags cc of
                     (r, cc) \<Rightarrow> (r, state\<lparr>ext_cc := Some cc\<rparr>))))"

definition dsd_trunk_cc_candidates_set_cooldown :: "int \<Rightarrow> rat \<Rightarrow> dsd_state \<Rightarrow> dsd_state" where
  "dsd_trunk_cc_candidates_set_cooldown freq_hz until_monotonic_s state =
     (if freq_hz = 0 then state
      else case ext_cc state of
        None \<Rightarrow> state
      | Some cc \<Rightarrow>
          (case find (\<lambda>i. candidates cc ! i = freq_hz)
                  [0..<min (nat (count cc)) DSD_TRUNK_CC_CANDIDATES_MAX] of
             None \<Rightarrow> state
           | Some i \<Rightarrow> state\<lparr>ext_cc := Some (cc\<lparr>cool_until := (cool_until cc)[i := until_monotonic_s]\<rparr>)\<rparr>))"

definition dsd_trunk_cc_candidates_reset :: "dsd_state \<Rightarrow> dsd_state" where
  "dsd_trunk_cc_candidates_reset state =
     (case ext_cc state of
        None \<Rightarrow> state
      | Some cc \<Rightarrow> state\<lparr>ext_cc := Some ((dsd_trunk_cc_candidates_clear cc)\<lparr>added := 0, used := 0\<rparr>)\<rparr>)"

section \<open>Invariant\<close>

text \<open>The frequencies listed, oldest first.\<close>

definition cc_keys :: "trunk_cc_candidates \<Rightarrow> int list" where
  "cc_keys cc = take (nat (count cc)) (candidates cc)"

definition cc_ok :: "trunk_cc_candidates \<Rightarrow> bool" where
  "cc_ok cc \<longleftrightarrow>
     length (candidates cc) = 16 \<and> length (flags cc) = 16 \<and> length (cool_until cc) = 16 \<and>
     0 \<le> count cc \<and> count cc \<le> 16 \<and> 0 \<le> idx cc \<and> idx cc \<le> count cc \<and>
     distinct (cc_keys cc) \<and> 0 \<notin> set (cc_keys cc)"

lemmas cc_max = DSD_TRUNK_CC_CANDIDATES_MAX_def

lemma cc_ok_calloc: "cc_ok cc_calloc"
  by (simp add: cc_ok_def cc_calloc_def cc_keys_def)

lemma cc_ok_clear: "cc_ok (dsd_trunk_cc_candidates_clear cc)"
  by (simp add: cc_ok_def dsd_trunk_cc_candidates_clear_def cc_keys_def cc_max)

text \<open>Shifting every slot down by one drops the first.\<close>

lemma shift_down: "n \<le> length xs \<Longrightarrow> fold (\<lambda>k xs. xs[k - 1 := xs ! k]) [1..<n] xs =
   (if n \<le> 1 then xs else take (n - 1) (tl xs) @ drop (n - 1) xs)"
proof (induction n)
  case (Suc n)
  show ?case
  proof (cases "n \<le> 1")
    case True
    then show ?thesis using Suc.prems by (cases n; cases xs) (auto simp: take_Suc_conv_app_nth Suc_le_eq)
  next
    case False
    then obtain m where m: "n = Suc m" by (cases n) auto
    have "take n (tl xs) = take m (tl xs) @ [xs ! n]"
      using Suc.prems m by (simp add: take_Suc_conv_app_nth nth_tl)
    then show ?thesis
      using Suc False m by (auto simp: list_update_append nth_append min_def Cons_nth_drop_Suc [symmetric])
  qed
qed simp

lemma shift_down_all: "2 \<le> length xs \<Longrightarrow> fold (\<lambda>k xs. xs[k - 1 := xs ! k]) [1..<length xs] xs = tl xs @ [last xs]"
proof -
  assume "2 \<le> length xs"
  then have "drop (length xs - 1) xs = [last xs]" by (metis One_nat_def append_butlast_last_id append_eq_conv_conj length_butlast list.size(3) not_numeral_le_zero)
  then show ?thesis using \<open>2 \<le> length xs\<close> shift_down [of "length xs" xs] by simp
qed

lemma fold_slots:
  "fold (\<lambda>k cc. cc\<lparr>candidates := f k (candidates cc), flags := g k (flags cc), cool_until := h k (cool_until cc)\<rparr>) ks cc =
   cc\<lparr>candidates := fold f ks (candidates cc), flags := fold g ks (flags cc), cool_until := fold h ks (cool_until cc)\<rparr>"
  by (induction ks arbitrary: cc) simp_all

lemma drop_oldest_eq:
  assumes "length (candidates cc) = 16" "length (flags cc) = 16" "length (cool_until cc) = 16"
  shows "dsd_trunk_cc_candidates_drop_oldest cc =
    cc\<lparr>candidates := tl (candidates cc) @ [last (candidates cc)], flags := tl (flags cc) @ [last (flags cc)],
       cool_until := tl (cool_until cc) @ [last (cool_until cc)],
       idx := (if idx cc > 0 then idx cc - 1 else idx cc)\<rparr>"
  using fold_slots [of "\<lambda>k xs. xs[k - 1 := xs ! k]" "\<lambda>k xs. xs[k - 1 := xs ! k]" "\<lambda>k xs. xs[k - 1 := xs ! k]" "[1..<16]" cc]
    shift_down_all [of "candidates cc"] shift_down_all [of "flags cc"] shift_down_all [of "cool_until cc"] assms
  by (simp add: dsd_trunk_cc_candidates_drop_oldest_def cc_max)

lemma add_keys:
  assumes "cc_ok cc"
  shows "cc_keys (snd (cc_add f b fl cc)) =
    (if f \<in> set (cc_keys cc) then cc_keys cc
     else if length (cc_keys cc) < 16 then cc_keys cc @ [f] else tl (cc_keys cc) @ [f])"
proof -
  have len: "length (candidates cc) = 16" "length (flags cc) = 16" "length (cool_until cc) = 16"
    and c: "0 \<le> count cc" "count cc \<le> 16" using assms by (simp_all add: cc_ok_def)
  have found: "(\<exists>k. find (\<lambda>k. candidates cc ! k = f) [0..<nat (count cc)] = Some k) \<longleftrightarrow> f \<in> set (cc_keys cc)"
  proof -
    have "(find (\<lambda>k. candidates cc ! k = f) [0..<nat (count cc)] = None) \<longleftrightarrow> f \<notin> set (cc_keys cc)"
      using len(1) c by (auto simp: find_None_iff cc_keys_def in_set_conv_nth)
    then show ?thesis by (cases "find (\<lambda>k. candidates cc ! k = f) [0..<nat (count cc)]") auto
  qed
  show ?thesis
  proof (cases "find (\<lambda>k. candidates cc ! k = f) [0..<nat (count cc)]")
    case (Some k)
    then show ?thesis using found by (auto simp: cc_add_def cc_keys_def)
  next
    case None
    then have nf: "f \<notin> set (cc_keys cc)" using found by auto
    show ?thesis
    proof (cases "count cc < 16")
      case True
      then have "nat (count cc) < 16" "nat (count cc + 1) = Suc (nat (count cc))" using c by auto
      then show ?thesis
        using None nf True len by (simp add: cc_add_def cc_keys_def cc_max Let_def take_Suc_conv_app_nth)
    next
      case False
      then have full: "count cc = 16" using c by simp
      have "tl (candidates cc) @ [f] = (tl (candidates cc) @ [last (candidates cc)])[15 := f]"
        using len(1) by (simp add: list_update_append)
      then show ?thesis
        using None nf full len by (simp add: cc_add_def cc_keys_def cc_max Let_def drop_oldest_eq)
    qed
  qed
qed

lemma add_shape:
  assumes "cc_ok cc"
  shows "length (candidates (snd (cc_add f b fl cc))) = 16 \<and> length (flags (snd (cc_add f b fl cc))) = 16 \<and>
    length (cool_until (snd (cc_add f b fl cc))) = 16 \<and> 0 \<le> count (snd (cc_add f b fl cc)) \<and>
    count (snd (cc_add f b fl cc)) \<le> 16 \<and> 0 \<le> idx (snd (cc_add f b fl cc)) \<and>
    idx (snd (cc_add f b fl cc)) \<le> count (snd (cc_add f b fl cc))"
  using assms by (auto simp: cc_ok_def cc_add_def cc_max Let_def drop_oldest_eq split: option.split)

lemma in_set_tlD: "x \<in> set (tl xs) \<Longrightarrow> x \<in> set xs"
  by (cases xs) auto

lemma cc_ok_add: "cc_ok cc \<Longrightarrow> f \<noteq> 0 \<Longrightarrow> cc_ok (snd (cc_add f b fl cc))"
  using add_shape [of cc f b fl] add_keys [of cc f b fl]
  by (auto simp: cc_ok_def distinct_tl dest: in_set_tlD split: if_splits)

section \<open>The round-robin scan\<close>

lemma allowed_idx [simp]:
  "dsd_trunk_cc_candidate_is_allowed (cc\<lparr>idx := i\<rparr>) = dsd_trunk_cc_candidate_is_allowed cc"
  by (intro ext) (simp add: dsd_trunk_cc_candidate_is_allowed_def)

text \<open>The cursor position the scan starts from, and the order in which it visits the slots.\<close>

definition scan_start :: "trunk_cc_candidates \<Rightarrow> nat" where
  "scan_start cc = (if idx cc \<ge> count cc then 0 else nat (idx cc))"

definition scan_order :: "trunk_cc_candidates \<Rightarrow> nat \<Rightarrow> nat list" where
  "scan_order cc n = map (\<lambda>t. (scan_start cc + t) mod nat (count cc)) [0..<n]"

lemma scan_order_Suc:
  assumes "0 \<le> idx cc" "0 < count cc"
  shows "scan_order cc (Suc n) =
    scan_start cc # scan_order (cc\<lparr>idx := int (scan_start cc) + 1\<rparr>) n"
proof -
  let ?c = "nat (count cc)"
  have start: "scan_start cc < ?c" using assms by (auto simp: scan_start_def)
  have next_start: "scan_start (cc\<lparr>idx := int (scan_start cc) + 1\<rparr>) = (scan_start cc + 1) mod ?c"
    using start assms by (auto simp: scan_start_def mod_Suc nat_add_distrib split: if_splits)
  have "scan_order cc (Suc n) = scan_start cc mod ?c # map (\<lambda>t. (scan_start cc + Suc t) mod ?c) [0..<n]"
    by (simp add: scan_order_def map_upt_Suc del: upt_Suc)
  also have "map (\<lambda>t. (scan_start cc + Suc t) mod ?c) [0..<n] =
      map (\<lambda>t. ((scan_start cc + 1) mod ?c + t) mod ?c) [0..<n]"
    by (simp add: mod_add_left_eq mod_Suc_eq flip: add_Suc)
  finally show ?thesis using start next_start by (simp add: scan_order_def)
qed

lemma cc_scan_spec:
  assumes "0 \<le> idx cc" "0 < count cc"
  shows "cc_scan n skip now req cc =
    (case find (\<lambda>i. dsd_trunk_cc_candidate_is_allowed cc i skip now req \<noteq> None) (scan_order cc n) of
       Some i \<Rightarrow> (Some (candidates cc ! i), cc\<lparr>idx := int i + 1, used := used cc + 1\<rparr>)
     | None \<Rightarrow> (None, if n = 0 then cc else cc\<lparr>idx := int (last (scan_order cc n)) + 1\<rparr>))"
  using assms
proof (induction n arbitrary: cc)
  case 0
  then show ?case by (simp add: scan_order_def)
next
  case (Suc n)
  define s where "s = scan_start cc"
  define cc1 where "cc1 = cc\<lparr>idx := int s + 1\<rparr>"
  have step: "cc_scan (Suc n) skip now req cc =
      (case dsd_trunk_cc_candidate_is_allowed cc s skip now req of
         Some f \<Rightarrow> (Some f, cc1\<lparr>used := used cc + 1\<rparr>) | None \<Rightarrow> cc_scan n skip now req cc1)"
    using Suc.prems by (auto simp: Let_def s_def cc1_def scan_start_def split: option.split)
  have order: "scan_order cc (Suc n) = s # scan_order cc1 n"
    using scan_order_Suc [OF Suc.prems] by (simp add: s_def cc1_def)
  have ih: "cc_scan n skip now req cc1 =
    (case find (\<lambda>i. dsd_trunk_cc_candidate_is_allowed cc1 i skip now req \<noteq> None) (scan_order cc1 n) of
       Some i \<Rightarrow> (Some (candidates cc1 ! i), cc1\<lparr>idx := int i + 1, used := used cc1 + 1\<rparr>)
     | None \<Rightarrow> (None, if n = 0 then cc1 else cc1\<lparr>idx := int (last (scan_order cc1 n)) + 1\<rparr>))"
    by (rule Suc.IH) (use Suc.prems in \<open>simp_all add: cc1_def\<close>)
  have allowed: "dsd_trunk_cc_candidate_is_allowed cc1 = dsd_trunk_cc_candidate_is_allowed cc"
    by (simp add: cc1_def)
  have some: "f = candidates cc ! i" if "dsd_trunk_cc_candidate_is_allowed cc i skip now req = Some f" for i f
    using that by (auto simp: dsd_trunk_cc_candidate_is_allowed_def split: if_splits)
  show ?case
  proof (cases "dsd_trunk_cc_candidate_is_allowed cc s skip now req")
    case None
    then have scan: "cc_scan (Suc n) skip now req cc = cc_scan n skip now req cc1" using step by simp
    have found: "find (\<lambda>i. dsd_trunk_cc_candidate_is_allowed cc i skip now req \<noteq> None) (scan_order cc (Suc n)) =
        find (\<lambda>i. dsd_trunk_cc_candidate_is_allowed cc i skip now req \<noteq> None) (scan_order cc1 n)"
      using None by (simp add: order)
    have end_at: "(if n = 0 then cc1 else cc1\<lparr>idx := int (last (scan_order cc1 n)) + 1\<rparr>) =
        cc\<lparr>idx := int (last (scan_order cc (Suc n))) + 1\<rparr>"
    proof (cases "n = 0")
      case True
      then have "scan_order cc1 n = []" by (simp add: scan_order_def)
      then show ?thesis using True unfolding order by (simp add: cc1_def)
    next
      case False
      then have "scan_order cc1 n \<noteq> []" by (simp add: scan_order_def)
      then show ?thesis using False unfolding order by (simp add: cc1_def)
    qed
    show ?thesis
      unfolding scan ih allowed found end_at by (simp add: cc1_def split: option.split)
  next
    case (Some f)
    then show ?thesis unfolding step order using some [OF Some] by (simp add: cc1_def)
  qed
qed

lemma mod_shift_inj: "(s + a) mod c = (s + b) mod c \<Longrightarrow> a < c \<Longrightarrow> b < c \<Longrightarrow> a = (b::nat)"
proof (induction a b rule: linorder_wlog)
  case (le a b)
  then have "c dvd (s + b) - (s + a)" using mod_eq_dvd_iff_nat [of "s + a" "s + b" c] by simp
  then have "b - a = 0" using le nat_dvd_not_less [of "b - a" c] by (cases "b - a = 0") simp_all
  then show ?case using le by simp
qed simp

lemma scan_order_full:
  assumes "0 \<le> idx cc" "0 < count cc"
  shows "set (scan_order cc (nat (count cc))) = {..<nat (count cc)}"
proof -
  let ?c = "nat (count cc)"
  have c: "0 < ?c" using assms by simp
  have "inj_on (\<lambda>t. (scan_start cc + t) mod ?c) {..<?c}"
    by (rule inj_onI) (simp only: lessThan_iff, rule mod_shift_inj)
  then have "card ((\<lambda>t. (scan_start cc + t) mod ?c) ` {..<?c}) = ?c" by (simp add: card_image)
  moreover have "(\<lambda>t. (scan_start cc + t) mod ?c) ` {..<?c} \<subseteq> {..<?c}" using c by auto
  ultimately have "(\<lambda>t. (scan_start cc + t) mod ?c) ` {..<?c} = {..<?c}" by (simp add: card_subset_eq)
  then show ?thesis by (simp add: scan_order_def lessThan_atLeast0)
qed

lemma cc_ok_idx: "cc_ok cc \<Longrightarrow> i < nat (count cc) \<Longrightarrow> cc_ok (cc\<lparr>idx := int i + 1\<rparr>)"
  by (simp add: cc_ok_def cc_keys_def)

lemma cc_ok_used: "cc_ok (cc\<lparr>used := u\<rparr>) = cc_ok cc"
  by (simp add: cc_ok_def cc_keys_def)

lemma cc_ok_scan:
  assumes "cc_ok cc"
  shows "cc_ok (snd (cc_scan (nat (count cc)) skip now req cc))"
proof (cases "count cc = 0")
  case False
  then have c: "0 \<le> idx cc" "0 < count cc" using assms by (auto simp: cc_ok_def)
  note visited = scan_order_full [OF c]
  show ?thesis
  proof (cases "find (\<lambda>i. dsd_trunk_cc_candidate_is_allowed cc i skip now req \<noteq> None) (scan_order cc (nat (count cc)))")
    case None
    have "scan_order cc (nat (count cc)) \<noteq> []" using c by (simp add: scan_order_def)
    then have "last (scan_order cc (nat (count cc))) < nat (count cc)" using visited last_in_set by blast
    then show ?thesis using None assms c by (simp add: cc_scan_spec cc_ok_idx)
  next
    case (Some i)
    then have "i < nat (count cc)" using visited by (auto simp: find_Some_iff)
    then show ?thesis using Some assms c cc_ok_idx [of cc i] cc_ok_used [of _ "cc\<lparr>idx := int i + 1\<rparr>"]
      by (simp add: cc_scan_spec)
  qed
qed (simp add: assms)

section \<open>Bounded lists that drop their oldest entry\<close>

locale bounded_fifo =
  fixes cap :: nat and inv :: "'s \<Rightarrow> bool" and valid :: "'k \<Rightarrow> bool" and keys :: "'s \<Rightarrow> 'k list"
    and ins :: "'k \<Rightarrow> 's \<Rightarrow> 's"
  assumes cap_pos: "0 < cap"
    and inv_ins: "inv s \<Longrightarrow> valid k \<Longrightarrow> inv (ins k s)"
    and keys_bound: "inv s \<Longrightarrow> distinct (keys s) \<and> length (keys s) \<le> cap"
    and keys_ins: "inv s \<Longrightarrow> valid k \<Longrightarrow> keys (ins k s) =
      (if k \<in> set (keys s) then keys s else if length (keys s) < cap then keys s @ [k] else tl (keys s) @ [k])"
begin

lemma ins_present: "inv s \<Longrightarrow> valid k \<Longrightarrow> k \<in> set (keys (ins k s))"
  by (simp add: keys_ins)

lemma inv_seq: "inv s \<Longrightarrow> \<forall>k \<in> set ks. valid k \<Longrightarrow> inv (fold ins ks s)"
  by (induction ks arbitrary: s) (simp_all add: inv_ins)

lemma tail_grows:
  assumes "inv s" "valid x" "keys s = xs @ k # ys" "Suc (length ys) < cap"
  shows "\<exists>xs' ys'. keys (ins x s) = xs' @ k # ys' \<and> length ys' \<le> Suc (length ys)"
proof (cases "x \<in> set (keys s)")
  case True
  then have "keys (ins x s) = xs @ k # ys" using assms by (simp add: keys_ins)
  then show ?thesis by (intro exI [of _ xs] exI [of _ ys]) simp
next
  case False
  show ?thesis
  proof (cases "length (keys s) < cap")
    case True
    then have "keys (ins x s) = xs @ k # (ys @ [x])" using False assms by (simp add: keys_ins)
    then show ?thesis by (intro exI [of _ xs] exI [of _ "ys @ [x]"]) simp
  next
    case full: False
    then have "xs \<noteq> []" using assms(3,4) by auto
    then have "keys (ins x s) = tl xs @ k # (ys @ [x])" using False full assms by (simp add: keys_ins)
    then show ?thesis by (intro exI [of _ "tl xs"] exI [of _ "ys @ [x]"]) simp
  qed
qed

lemma survives_tail:
  "inv s \<Longrightarrow> \<forall>x \<in> set ks. valid x \<Longrightarrow> keys s = xs @ k # ys \<Longrightarrow> length ys + length ks < cap \<Longrightarrow>
   k \<in> set (keys (fold ins ks s))"
proof (induction ks arbitrary: s xs ys)
  case (Cons x ks)
  then obtain xs' ys' where "keys (ins x s) = xs' @ k # ys'" "length ys' \<le> Suc (length ys)"
    using tail_grows [of s x xs k ys] by auto
  then show ?case using Cons.IH [of "ins x s" xs' ys'] Cons.prems by (simp add: inv_ins)
qed simp

text \<open>A key that was not listed stays listed while fewer than \<open>cap\<close> keys are inserted after it.\<close>

theorem survives:
  assumes "inv s" "valid k" "k \<notin> set (keys s)" "\<forall>x \<in> set ks. valid x" "length ks < cap"
  shows "k \<in> set (keys (fold ins ks (ins k s)))"
proof -
  obtain xs where "keys (ins k s) = xs @ k # []"
    using assms keys_ins [of s k] by (cases "length (keys s) < cap") auto
  then show ?thesis using survives_tail [of "ins k s" ks xs k "[]"] assms inv_ins by simp
qed

end

interpretation cc_fifo: bounded_fifo 16 cc_ok "\<lambda>f. f \<noteq> 0" cc_keys "\<lambda>f cc. snd (cc_add f True 0 cc)"
proof
  fix cc :: trunk_cc_candidates and f :: int
  assume ok: "cc_ok cc"
  then show "distinct (cc_keys cc) \<and> length (cc_keys cc) \<le> 16"
    by (auto simp: cc_ok_def cc_keys_def)
  assume "f \<noteq> 0"
  then show "cc_ok (snd (cc_add f True 0 cc))" using ok by (simp add: cc_ok_add)
  show "cc_keys (snd (cc_add f True 0 cc)) =
      (if f \<in> set (cc_keys cc) then cc_keys cc
       else if length (cc_keys cc) < 16 then cc_keys cc @ [f] else tl (cc_keys cc) @ [f])"
    using ok by (rule add_keys)
qed simp

section \<open>Reachable states and properties\<close>

definition state_ok :: "dsd_state \<Rightarrow> bool" where
  "state_ok s \<longleftrightarrow> (\<forall>cc. ext_cc s = Some cc \<longrightarrow> cc_ok cc)"

text \<open>The operations, in any order, and a retune by the rest of the program.\<close>

inductive cc_step :: "dsd_state \<Rightarrow> dsd_state \<Rightarrow> bool" where
  add: "cc_step s (snd (dsd_trunk_cc_candidates_add ok f b fl s))"
| advance: "cc_step s (snd (dsd_trunk_cc_candidates_next now req s))"
| cooldown: "cc_step s (dsd_trunk_cc_candidates_set_cooldown f t s)"
| reset: "cc_step s (dsd_trunk_cc_candidates_reset s)"
| retune: "cc_step s (s\<lparr>trunk_cc_freq := f, p25_cc_freq := g\<rparr>)"

lemma valid_count_ok: "cc_ok cc \<Longrightarrow> dsd_trunk_cc_candidates_has_valid_count cc = (True, cc)"
  by (simp add: dsd_trunk_cc_candidates_has_valid_count_def cc_ok_def cc_max)

lemma add_existing:
  "cc_ok cc \<Longrightarrow> f \<noteq> 0 \<Longrightarrow> ext_cc s = Some cc \<Longrightarrow> dsd_trunk_cc_candidates_add ok f b fl s =
   (fst (cc_add f b fl cc), s\<lparr>ext_cc := Some (snd (cc_add f b fl cc))\<rparr>)"
  by (cases "cc_add f b fl cc")
    (simp add: dsd_trunk_cc_candidates_add_def dsd_trunk_cc_candidates_get_def valid_count_ok)

lemma add_fresh:
  "f \<noteq> 0 \<Longrightarrow> ext_cc s = None \<Longrightarrow> dsd_trunk_cc_candidates_add ok f b fl s =
   (if ok then (fst (cc_add f b fl cc_calloc), s\<lparr>ext_cc := Some (snd (cc_add f b fl cc_calloc))\<rparr>) else (0, s))"
  by (cases "cc_add f b fl cc_calloc")
    (simp add: dsd_trunk_cc_candidates_add_def dsd_trunk_cc_candidates_get_def valid_count_ok cc_ok_calloc)

lemma state_ok_add:
  assumes "state_ok s"
  shows "state_ok (snd (dsd_trunk_cc_candidates_add ok f b fl s))"
proof (cases "f = 0")
  case True
  then show ?thesis using assms by (simp add: dsd_trunk_cc_candidates_add_def)
next
  case False
  show ?thesis
  proof (cases "ext_cc s")
    case None
    then show ?thesis using False cc_ok_add [OF cc_ok_calloc False] by (simp add: add_fresh state_ok_def)
  next
    case (Some cc)
    then have "cc_ok cc" using assms by (simp add: state_ok_def)
    then show ?thesis using Some False cc_ok_add [of cc f] by (simp add: add_existing state_ok_def)
  qed
qed

lemma next_existing:
  "cc_ok cc \<Longrightarrow> ext_cc s = Some cc \<Longrightarrow> dsd_trunk_cc_candidates_next now req s =
   (let r = cc_scan (nat (count cc)) (if trunk_cc_freq s \<noteq> 0 then trunk_cc_freq s else p25_cc_freq s) now req cc
    in (fst r, s\<lparr>ext_cc := Some (snd r)\<rparr>))"
  by (simp add: dsd_trunk_cc_candidates_next_def valid_count_ok Let_def split_beta)

lemma state_ok_next:
  assumes "state_ok s"
  shows "state_ok (snd (dsd_trunk_cc_candidates_next now req s))"
proof (cases "ext_cc s")
  case None
  then show ?thesis using assms by (simp add: dsd_trunk_cc_candidates_next_def)
next
  case (Some cc)
  then have "cc_ok cc" using assms by (simp add: state_ok_def)
  then show ?thesis using Some cc_ok_scan [of cc] unfolding state_ok_def
    by (simp only: next_existing Let_def snd_conv) simp
qed

lemma state_ok_step: "cc_step s s' \<Longrightarrow> state_ok s \<Longrightarrow> state_ok s'"
proof (induction rule: cc_step.induct)
  case (add s ok f b fl)
  then show ?case by (rule state_ok_add)
next
  case (advance s now req)
  then show ?case by (rule state_ok_next)
next
  case (cooldown s f t)
  then show ?case
    by (auto simp: state_ok_def dsd_trunk_cc_candidates_set_cooldown_def cc_ok_def cc_keys_def split: option.splits)
next
  case (reset s)
  then show ?case
    using cc_ok_clear
    by (auto simp: state_ok_def dsd_trunk_cc_candidates_reset_def cc_ok_def cc_keys_def split: option.split)
next
  case (retune s f g)
  then show ?case by (simp add: state_ok_def)
qed

text \<open>
  C25. Whatever sequence of operations runs from a state without a list, the list stays
  well formed: at most sixteen entries, the cursor inside, no frequency listed twice and
  none zero; and an operation that finds a count out of range leaves a well-formed list.
\<close>

theorem cc_candidates_invariant:
  assumes "cc_step\<^sup>*\<^sup>* s0 s" "ext_cc s0 = None"
  shows "(\<forall>cc. ext_cc s = Some cc \<longrightarrow> cc_ok cc) \<and>
    (\<forall>cc. ext_cc s = Some cc \<longrightarrow> length (cc_keys cc) \<le> 16 \<and> distinct (cc_keys cc)) \<and>
    (\<forall>cc. \<not> (0 \<le> count cc \<and> count cc \<le> 16) \<longrightarrow>
       cc_ok (the (ext_cc (snd (dsd_trunk_cc_candidates_next now req (s\<lparr>ext_cc := Some cc\<rparr>))))))"
proof -
  have "state_ok s0" using assms(2) by (simp add: state_ok_def)
  with assms(1) have "state_ok s" by (induction rule: rtranclp_induct) (auto intro: state_ok_step)
  then show ?thesis
    using cc_fifo.keys_bound cc_ok_clear
    by (auto simp: state_ok_def dsd_trunk_cc_candidates_next_def dsd_trunk_cc_candidates_has_valid_count_def cc_max)
qed

theorem cc_candidates_invariant_witness:
  "cc_ok (the (ext_cc (snd (dsd_trunk_cc_candidates_add True 851000000 True 1
     \<lparr>trunk_cc_freq = 0, p25_cc_freq = 0, ext_cc = None\<rparr>))))"
proof -
  let ?init = "\<lparr>trunk_cc_freq = 0, p25_cc_freq = 0, ext_cc = None\<rparr>"
  let ?s = "snd (dsd_trunk_cc_candidates_add True 851000000 True 1 ?init)"
  have "cc_step ?init ?s" by (rule cc_step.add)
  then have "cc_step\<^sup>*\<^sup>* ?init ?s" by (rule r_into_rtranclp)
  then have "\<forall>cc. ext_cc ?s = Some cc \<longrightarrow> cc_ok cc" using cc_candidates_invariant [of ?init ?s] by simp
  moreover have "ext_cc ?s \<noteq> None"
    by (simp add: dsd_trunk_cc_candidates_add_def dsd_trunk_cc_candidates_get_def
        dsd_trunk_cc_candidates_has_valid_count_def cc_calloc_def cc_max split: prod.split)
  ultimately show ?thesis by auto
qed

text \<open>
  The scan hands out the first allowed candidate in round-robin order from the cursor,
  and moves the cursor past it; it fails only when no listed candidate is allowed, so an
  allowed candidate is found within one round. The one handed out is never the current
  control channel, never cooling down and carries all the required flags.
\<close>

lemma cc_candidates_next_round_robin:
  assumes "cc_ok cc" "ext_cc s = Some cc" "0 < count cc"
    and "skip = (if trunk_cc_freq s \<noteq> 0 then trunk_cc_freq s else p25_cc_freq s)"
  shows "(case find (\<lambda>i. dsd_trunk_cc_candidate_is_allowed cc i skip now req \<noteq> None)
                 (scan_order cc (nat (count cc))) of
            Some i \<Rightarrow> dsd_trunk_cc_candidates_next now req s =
                (Some (candidates cc ! i), s\<lparr>ext_cc := Some (cc\<lparr>idx := int i + 1, used := used cc + 1\<rparr>)\<rparr>) \<and>
              candidates cc ! i \<noteq> skip \<and> flags cc ! i AND req = req \<and>
              (cool_until cc ! i > 0 \<longrightarrow> cool_until cc ! i \<le> now)
          | None \<Rightarrow> fst (dsd_trunk_cc_candidates_next now req s) = None \<and>
              (\<forall>i < nat (count cc). dsd_trunk_cc_candidate_is_allowed cc i skip now req = None))"
proof -
  let ?find = "find (\<lambda>i. dsd_trunk_cc_candidate_is_allowed cc i skip now req \<noteq> None) (scan_order cc (nat (count cc)))"
  have c: "0 \<le> idx cc" using assms(1) by (simp add: cc_ok_def)
  have run: "dsd_trunk_cc_candidates_next now req s =
      (case cc_scan (nat (count cc)) skip now req cc of (r, cc) \<Rightarrow> (r, s\<lparr>ext_cc := Some cc\<rparr>))"
    using assms by (simp add: dsd_trunk_cc_candidates_next_def valid_count_ok)
  note scan = cc_scan_spec [OF c assms(3), of "nat (count cc)" skip now req]
  show ?thesis
  proof (cases ?find)
    case None
    then have "\<forall>i \<in> set (scan_order cc (nat (count cc))). dsd_trunk_cc_candidate_is_allowed cc i skip now req = None"
      by (simp add: find_None_iff)
    then show ?thesis using None run scan scan_order_full [OF c assms(3)] by simp
  next
    case (Some i)
    then have "dsd_trunk_cc_candidate_is_allowed cc i skip now req \<noteq> None" by (auto simp: find_Some_iff)
    then have "candidates cc ! i \<noteq> skip" "flags cc ! i AND req = req" "cool_until cc ! i > 0 \<longrightarrow> cool_until cc ! i \<le> now"
      by (auto simp: dsd_trunk_cc_candidate_is_allowed_def split: if_splits)
    then show ?thesis using Some run scan by simp
  qed
qed

definition example_cc :: trunk_cc_candidates where
  "example_cc = cc_calloc\<lparr>candidates := [851, 852, 853] @ replicate 13 0, flags := [1, 1, 0] @ replicate 13 0,
     count := 3, idx := 1, cool_until := [0, 9, 0] @ replicate 13 0\<rparr>"

text \<open>
  Adding refines a bounded first-in first-out set: a listed frequency changes nothing in
  the list, a new one goes to the end, and when all sixteen slots are taken the oldest is
  dropped for it. So a frequency that was not listed before stays listed through any
  fifteen later additions.
\<close>

lemma cc_candidates_add_refines:
  assumes "cc_ok cc" "ext_cc s = Some cc" "f \<noteq> 0" "\<forall>x \<in> set later. x \<noteq> 0" "length later < 16"
  shows "\<exists>cc'. ext_cc (snd (dsd_trunk_cc_candidates_add ok f b fl s)) = Some cc' \<and>
      cc_keys cc' = (if f \<in> set (cc_keys cc) then cc_keys cc
        else if length (cc_keys cc) < 16 then cc_keys cc @ [f] else tl (cc_keys cc) @ [f]) \<and>
      (fst (dsd_trunk_cc_candidates_add ok f b fl s) = 1 \<longleftrightarrow> f \<notin> set (cc_keys cc)) \<and>
      (f \<notin> set (cc_keys cc) \<longrightarrow>
         f \<in> set (cc_keys (fold (\<lambda>x cc. snd (cc_add x True 0 cc)) (f # later) cc)))"
proof -
  have "fst (cc_add f b fl cc) = 1 \<longleftrightarrow> f \<notin> set (cc_keys cc)"
  proof -
    have "(find (\<lambda>k. candidates cc ! k = f) [0..<nat (count cc)] = None) \<longleftrightarrow> f \<notin> set (cc_keys cc)"
      using assms(1) by (auto simp: cc_ok_def find_None_iff cc_keys_def in_set_conv_nth)
    then show ?thesis by (auto simp: cc_add_def Let_def split: option.split)
  qed
  moreover have "f \<notin> set (cc_keys cc) \<longrightarrow>
      f \<in> set (cc_keys (fold (\<lambda>x cc. snd (cc_add x True 0 cc)) later (snd (cc_add f True 0 cc))))"
    using cc_fifo.survives [of cc f later] assms by blast
  ultimately show ?thesis
    using add_existing [OF assms(1,3,2)] add_keys [OF assms(1), of f b fl]
    by (intro exI [of _ "snd (cc_add f b fl cc)"]) simp
qed

end
