(* ===== verification/Enc_Lockout.thy ===== *)
theory Enc_Lockout
  imports Prelude
begin

text \<open>
  The encrypted-target lockout ledger, \<open>src/core/util/enc_lockout.c\<close>: 128 slots keyed by a
  target and its kind, each stamped with the key epoch and a confirmation ticket. The
  decode clock is an argument of the one operation that reads it. Epoch and ticket are
  64-bit words. A null state pointer makes every operation return at once; the model
  starts past that guard. The diagnostic line printed on an eviction is not modelled.
\<close>

section \<open>Model\<close>

definition DSD_ENC_LOCKOUT_MAX :: nat where
  "DSD_ENC_LOCKOUT_MAX = 128"

definition DSD_ENC_LOCKOUT_ALGID_UNKNOWN :: int where
  "DSD_ENC_LOCKOUT_ALGID_UNKNOWN = -1"

record enc_lockout_entry =
  key_epoch :: u64
  last_seq :: u64
  last_seen :: int
  target :: u32
  hits :: u32
  algid :: int
  keyid :: int
  is_group :: bool
  in_use :: bool

record enc_state =
  enc_lockout_entries :: "enc_lockout_entry list"
  enc_lockout_key_epoch :: u64
  enc_lockout_seq :: u64

definition zero_entry :: enc_lockout_entry where
  "zero_entry = \<lparr>key_epoch = 0, last_seq = 0, last_seen = 0, target = 0, hits = 0, algid = 0, keyid = 0,
     is_group = False, in_use = False\<rparr>"

text \<open>The index of the entry of a target; both search functions of the source.\<close>

definition enc_lockout_find :: "enc_state \<Rightarrow> u32 \<Rightarrow> bool \<Rightarrow> nat option" where
  "enc_lockout_find state tgt grp =
     (if tgt = 0 then None
      else find (\<lambda>i. in_use (enc_lockout_entries state ! i) \<and> target (enc_lockout_entries state ! i) = tgt \<and>
                     is_group (enc_lockout_entries state ! i) = grp) [0..<DSD_ENC_LOCKOUT_MAX])"

fun choose_loop :: "enc_state \<Rightarrow> nat list \<Rightarrow> nat option \<Rightarrow> nat option" where
  "choose_loop state [] victim = victim"
| "choose_loop state (i # is) victim =
     (let e = enc_lockout_entries state ! i
      in if \<not> in_use e then Some i
         else let e_stale = (key_epoch e \<noteq> enc_lockout_key_epoch state)
              in choose_loop state is
                   (case victim of
                      None \<Rightarrow> Some i
                    | Some v \<Rightarrow>
                        let ve = enc_lockout_entries state ! v;
                            victim_stale = (key_epoch ve \<noteq> enc_lockout_key_epoch state)
                        in if (e_stale \<and> \<not> victim_stale) \<or> (e_stale = victim_stale \<and> last_seq e < last_seq ve)
                           then Some i else Some v))"

definition enc_lockout_choose_slot :: "enc_state \<Rightarrow> nat option" where
  "enc_lockout_choose_slot state = choose_loop state [0..<DSD_ENC_LOCKOUT_MAX] None"

definition dsd_enc_lockout_note :: "int \<Rightarrow> u32 \<Rightarrow> bool \<Rightarrow> int \<Rightarrow> int \<Rightarrow> enc_state \<Rightarrow> bool \<times> enc_state" where
  "dsd_enc_lockout_note now tgt grp alg kid state =
     (if tgt = 0 then (False, state)
      else case (case enc_lockout_find state tgt grp of
                   Some i \<Rightarrow> Some (i, enc_lockout_entries state ! i,
                       key_epoch (enc_lockout_entries state ! i) \<noteq> enc_lockout_key_epoch state)
                 | None \<Rightarrow> map_option (\<lambda>i. (i, zero_entry\<lparr>target := tgt, is_group := grp,
                       algid := DSD_ENC_LOCKOUT_ALGID_UNKNOWN\<rparr>, True)) (enc_lockout_choose_slot state)) of
        None \<Rightarrow> (False, state)
      | Some (i, e, newly_locking) \<Rightarrow>
          let seq = enc_lockout_seq state + 1;
              e = e\<lparr>key_epoch := enc_lockout_key_epoch state, last_seq := seq, last_seen := now\<rparr>;
              e = (if hits e < 0xFFFFFFFF then e\<lparr>hits := hits e + 1\<rparr> else e);
              e = (if alg \<ge> 0 then e\<lparr>algid := alg mod 256, keyid := kid mod 65536\<rparr> else e);
              e = e\<lparr>in_use := True\<rparr>
          in (newly_locking, state\<lparr>enc_lockout_seq := seq,
                enc_lockout_entries := (enc_lockout_entries state)[i := e]\<rparr>))"

definition dsd_enc_lockout_entry_active :: "enc_state \<Rightarrow> u32 \<Rightarrow> bool \<Rightarrow> bool" where
  "dsd_enc_lockout_entry_active state tgt grp =
     (case enc_lockout_find state tgt grp of
        None \<Rightarrow> False
      | Some i \<Rightarrow> key_epoch (enc_lockout_entries state ! i) = enc_lockout_key_epoch state)"

definition dsd_enc_lockout_is_blocked :: "int \<Rightarrow> enc_state \<Rightarrow> u32 \<Rightarrow> bool \<Rightarrow> bool" where
  "dsd_enc_lockout_is_blocked trunk_tune_enc_calls state tgt grp =
     (if trunk_tune_enc_calls \<noteq> 0 then False else dsd_enc_lockout_entry_active state tgt grp)"

definition dsd_enc_lockout_lookup :: "enc_state \<Rightarrow> u32 \<Rightarrow> bool \<Rightarrow> enc_lockout_entry option" where
  "dsd_enc_lockout_lookup state tgt grp =
     map_option (\<lambda>i. enc_lockout_entries state ! i) (enc_lockout_find state tgt grp)"

definition dsd_enc_lockout_release :: "u32 \<Rightarrow> bool \<Rightarrow> enc_state \<Rightarrow> bool \<times> enc_state" where
  "dsd_enc_lockout_release tgt grp state =
     (case enc_lockout_find state tgt grp of
        None \<Rightarrow> (False, state)
      | Some i \<Rightarrow> (True, state\<lparr>enc_lockout_entries := (enc_lockout_entries state)[i := zero_entry]\<rparr>))"

definition dsd_enc_lockout_bump_key_epoch :: "enc_state \<Rightarrow> enc_state" where
  "dsd_enc_lockout_bump_key_epoch state = state\<lparr>enc_lockout_key_epoch := enc_lockout_key_epoch state + 1\<rparr>"

definition dsd_enc_lockout_clear_all :: "enc_state \<Rightarrow> enc_state" where
  "dsd_enc_lockout_clear_all state =
     state\<lparr>enc_lockout_entries := replicate DSD_ENC_LOCKOUT_MAX zero_entry\<rparr>"

definition dsd_enc_lockout_active_count :: "enc_state \<Rightarrow> nat" where
  "dsd_enc_lockout_active_count state =
     fold (\<lambda>i count. if in_use (enc_lockout_entries state ! i) \<and>
                        key_epoch (enc_lockout_entries state ! i) = enc_lockout_key_epoch state
                     then count + 1 else count) [0..<DSD_ENC_LOCKOUT_MAX] 0"

definition dsd_enc_lockout_init :: "enc_state \<Rightarrow> enc_state" where
  "dsd_enc_lockout_init state =
     state\<lparr>enc_lockout_entries := replicate DSD_ENC_LOCKOUT_MAX zero_entry,
           enc_lockout_key_epoch := 1, enc_lockout_seq := 0\<rparr>"

section \<open>Invariant\<close>

abbreviation entry :: "enc_state \<Rightarrow> nat \<Rightarrow> enc_lockout_entry" where
  "entry s i \<equiv> enc_lockout_entries s ! i"

abbreviation has_key :: "enc_state \<Rightarrow> u32 \<Rightarrow> bool \<Rightarrow> nat \<Rightarrow> bool" where
  "has_key s t g i \<equiv> in_use (entry s i) \<and> target (entry s i) = t \<and> is_group (entry s i) = g"

text \<open>
  Every key is in use at most once, tickets of used slots are distinct and not ahead of the
  counter, and epochs are not ahead of the current one.
\<close>

definition ledger_ok :: "enc_state \<Rightarrow> bool" where
  "ledger_ok s \<longleftrightarrow> length (enc_lockout_entries s) = 128 \<and>
     (\<forall>i < 128. in_use (entry s i) \<longrightarrow> target (entry s i) \<noteq> 0 \<and> last_seq (entry s i) \<le> enc_lockout_seq s \<and>
        key_epoch (entry s i) \<le> enc_lockout_key_epoch s) \<and>
     (\<forall>i < 128. \<forall>j < 128. in_use (entry s i) \<and> in_use (entry s j) \<and> i \<noteq> j \<longrightarrow>
        (target (entry s i), is_group (entry s i)) \<noteq> (target (entry s j), is_group (entry s j)) \<and>
        last_seq (entry s i) \<noteq> last_seq (entry s j))"

lemmas enc_max = DSD_ENC_LOCKOUT_MAX_def

lemma lockout_find_Some:
  "enc_lockout_find s t g = Some i \<Longrightarrow> t \<noteq> 0 \<and> i < 128 \<and> has_key s t g i"
  by (auto simp: enc_lockout_find_def enc_max dest!: find_upt_Some split: if_splits)

lemma lockout_find_None:
  "enc_lockout_find s t g = None \<longleftrightarrow> t = 0 \<or> (\<forall>i < 128. \<not> has_key s t g i)"
  by (auto simp: enc_lockout_find_def enc_max find_upt_None split: if_splits)

lemma ledger_unique:
  "ledger_ok s \<Longrightarrow> i < 128 \<Longrightarrow> j < 128 \<Longrightarrow> has_key s t g i \<Longrightarrow> has_key s t g j \<Longrightarrow> i = j"
  unfolding ledger_ok_def by blast

lemma ledger_keys:
  "ledger_ok s \<Longrightarrow> i < 128 \<Longrightarrow> j < 128 \<Longrightarrow> in_use (entry s i) \<Longrightarrow> in_use (entry s j) \<Longrightarrow> i \<noteq> j \<Longrightarrow>
   target (entry s i) = target (entry s j) \<Longrightarrow> is_group (entry s i) \<noteq> is_group (entry s j)"
  unfolding ledger_ok_def by blast

lemma ledger_length: "ledger_ok s \<Longrightarrow> length (enc_lockout_entries s) = 128"
  and ledger_target: "ledger_ok s \<Longrightarrow> i < 128 \<Longrightarrow> in_use (entry s i) \<Longrightarrow> target (entry s i) \<noteq> 0"
  and ledger_seq: "ledger_ok s \<Longrightarrow> i < 128 \<Longrightarrow> in_use (entry s i) \<Longrightarrow> last_seq (entry s i) \<le> enc_lockout_seq s"
  and ledger_epoch: "ledger_ok s \<Longrightarrow> i < 128 \<Longrightarrow> in_use (entry s i) \<Longrightarrow> key_epoch (entry s i) \<le> enc_lockout_key_epoch s"
  and ledger_seq_inj: "ledger_ok s \<Longrightarrow> i < 128 \<Longrightarrow> j < 128 \<Longrightarrow> in_use (entry s i) \<Longrightarrow> in_use (entry s j) \<Longrightarrow>
    last_seq (entry s i) = last_seq (entry s j) \<Longrightarrow> i = j"
  unfolding ledger_ok_def by blast+

lemma lockout_find_iff:
  assumes "ledger_ok s"
  shows "enc_lockout_find s t g = Some i \<longleftrightarrow> t \<noteq> 0 \<and> i < 128 \<and> has_key s t g i"
proof
  assume r: "t \<noteq> 0 \<and> i < 128 \<and> has_key s t g i"
  then obtain j where j: "enc_lockout_find s t g = Some j" using lockout_find_None [of s t g] by auto
  then have "j < 128 \<and> has_key s t g j" using lockout_find_Some by blast
  then have "j = i" using ledger_unique [OF assms] r by blast
  then show "enc_lockout_find s t g = Some i" using j by simp
qed (use lockout_find_Some in blast)

section \<open>The slot a new target takes\<close>

definition stale :: "enc_state \<Rightarrow> nat \<Rightarrow> bool" where
  "stale s i \<longleftrightarrow> key_epoch (entry s i) \<noteq> enc_lockout_key_epoch s"

text \<open>Slot \<open>j\<close> is to be evicted rather than slot \<open>i\<close>.\<close>

definition rather :: "enc_state \<Rightarrow> nat \<Rightarrow> nat \<Rightarrow> bool" where
  "rather s j i \<longleftrightarrow> (stale s j \<and> \<not> stale s i) \<or> (stale s j = stale s i \<and> last_seq (entry s j) < last_seq (entry s i))"

lemma rather_trans: "\<not> rather s j i \<Longrightarrow> \<not> rather s i k \<Longrightarrow> \<not> rather s j k"
  by (auto simp: rather_def)

lemma rather_flip: "rather s j i \<Longrightarrow> \<not> rather s i j"
  by (auto simp: rather_def)

lemma rather_irrefl: "\<not> rather s i i"
  by (simp add: rather_def)

lemma choose_loop_step:
  "in_use (entry s i) \<Longrightarrow> choose_loop s (i # is) v =
   choose_loop s is (case v of None \<Rightarrow> Some i | Some k \<Rightarrow> if rather s i k then Some i else Some k)"
  by (simp add: Let_def rather_def stale_def split: option.split)

lemma choose_loop_spec:
  "choose_loop s is v = Some r \<Longrightarrow>
   (r \<in> set is \<and> \<not> in_use (entry s r)) \<or>
   ((r \<in> set is \<or> v = Some r) \<and> (\<forall>j \<in> set is. in_use (entry s j) \<and> \<not> rather s j r) \<and>
    (\<forall>k. v = Some k \<longrightarrow> \<not> rather s k r))"
proof (induction "is" arbitrary: v)
  case Nil
  then show ?case by (auto simp: rather_def)
next
  case (Cons i "is")
  show ?case
  proof (cases "in_use (entry s i)")
    case True
    define v' where "v' = (case v of None \<Rightarrow> Some i | Some k \<Rightarrow> if rather s i k then Some i else Some k)"
    have ih: "(r \<in> set is \<and> \<not> in_use (entry s r)) \<or>
      ((r \<in> set is \<or> v' = Some r) \<and> (\<forall>j \<in> set is. in_use (entry s j) \<and> \<not> rather s j r) \<and>
       (\<forall>k. v' = Some k \<longrightarrow> \<not> rather s k r))"
      by (rule Cons.IH) (use Cons.prems in \<open>simp only: choose_loop_step [OF True] v'_def\<close>)
    have "\<exists>k. v' = Some k \<and> (k = i \<or> v = Some k) \<and> \<not> rather s i k \<and> (\<forall>m. v = Some m \<longrightarrow> \<not> rather s m k)"
      by (cases v; cases "rather s i (the v)") (auto simp: v'_def rather_irrefl dest: rather_flip)
    then obtain k where k: "v' = Some k" "k = i \<or> v = Some k" "\<not> rather s i k" "\<forall>m. v = Some m \<longrightarrow> \<not> rather s m k"
      by blast
    then show ?thesis using ih True rather_trans [of s] by auto
  next
    case False
    then show ?thesis using Cons.prems by (simp add: Let_def)
  qed
qed

lemma choose_loop_total: "is \<noteq> [] \<or> v \<noteq> None \<Longrightarrow> choose_loop s is v \<noteq> None"
proof (induction "is" arbitrary: v)
  case (Cons i "is")
  then show ?case by (auto simp: Let_def split: option.split)
qed simp

lemma choose_slot_spec:
  obtains i where "enc_lockout_choose_slot s = Some i" "i < 128"
    "in_use (entry s i) \<longrightarrow> (\<forall>j < 128. in_use (entry s j) \<and> \<not> rather s j i)"
proof -
  obtain i where i: "enc_lockout_choose_slot s = Some i"
    using choose_loop_total [of "[0..<128]" None s] by (auto simp: enc_lockout_choose_slot_def enc_max)
  then show thesis
    using choose_loop_spec [of s "[0..<128]" None i] that [of i] by (auto simp: enc_lockout_choose_slot_def enc_max)
qed

text \<open>What a confirmation does to the ledger: one slot is rewritten for the target.\<close>

lemma note_spec:
  assumes "ledger_ok s" "t \<noteq> 0"
  obtains i e where
    "snd (dsd_enc_lockout_note now t g alg kid s) =
       s\<lparr>enc_lockout_seq := enc_lockout_seq s + 1, enc_lockout_entries := (enc_lockout_entries s)[i := e]\<rparr>"
    "i < 128" "in_use e" "target e = t" "is_group e = g" "key_epoch e = enc_lockout_key_epoch s"
    "last_seq e = enc_lockout_seq s + 1"
    "has_key s t g i \<or> (\<forall>j < 128. \<not> has_key s t g j) \<and>
       (in_use (entry s i) \<longrightarrow> (\<forall>j < 128. in_use (entry s j) \<and> \<not> rather s j i))"
    "fst (dsd_enc_lockout_note now t g alg kid s) \<longleftrightarrow> \<not> (has_key s t g i \<and> \<not> stale s i)"
proof (cases "enc_lockout_find s t g")
  case None
  obtain i where "enc_lockout_choose_slot s = Some i" "i < 128"
    "in_use (entry s i) \<longrightarrow> (\<forall>j < 128. in_use (entry s j) \<and> \<not> rather s j i)" using choose_slot_spec [of s] .
  then show thesis
    using None assms that [of i] lockout_find_None [of s t g]
    by (auto simp: dsd_enc_lockout_note_def Let_def zero_entry_def)
next
  case (Some i)
  then have "i < 128" "has_key s t g i" using lockout_find_Some by blast+
  then show thesis
    using Some assms that [of i] by (auto simp: dsd_enc_lockout_note_def Let_def stale_def)
qed

section \<open>Preservation\<close>

lemma ledger_ok_update:
  assumes "ledger_ok s" "i < 128" "enc_lockout_seq s \<le> q" "enc_lockout_key_epoch s \<le> k"
    and "in_use e \<longrightarrow> target e \<noteq> 0 \<and> last_seq e \<le> q \<and> key_epoch e \<le> k \<and>
      (\<forall>j < 128. j \<noteq> i \<and> in_use (entry s j) \<longrightarrow>
         (target (entry s j), is_group (entry s j)) \<noteq> (target e, is_group e) \<and> last_seq (entry s j) \<noteq> last_seq e)"
  shows "ledger_ok (s\<lparr>enc_lockout_seq := q, enc_lockout_key_epoch := k,
    enc_lockout_entries := (enc_lockout_entries s)[i := e]\<rparr>)"
proof -
  let ?s = "s\<lparr>enc_lockout_seq := q, enc_lockout_key_epoch := k, enc_lockout_entries := (enc_lockout_entries s)[i := e]\<rparr>"
  have len: "length (enc_lockout_entries s) = 128" using assms(1) by (rule ledger_length)
  show ?thesis
    unfolding ledger_ok_def
  proof (intro conjI allI impI)
    show "length (enc_lockout_entries ?s) = 128" using len by simp
  next
    fix j assume j: "j < 128" "in_use (entry ?s j)"
    show "target (entry ?s j) \<noteq> 0" using j assms(5) ledger_target [OF assms(1)] by (simp add: nth_list_update len assms(2) split: if_splits)
    show "last_seq (entry ?s j) \<le> enc_lockout_seq ?s"
      using j assms(3,5) ledger_seq [OF assms(1), of j] by (auto simp: nth_list_update len assms(2) split: if_splits)
    show "key_epoch (entry ?s j) \<le> enc_lockout_key_epoch ?s"
      using j assms(4,5) ledger_epoch [OF assms(1), of j] by (auto simp: nth_list_update len assms(2) split: if_splits)
  next
    fix a b assume ab: "a < 128" "b < 128" "in_use (entry ?s a) \<and> in_use (entry ?s b) \<and> a \<noteq> b"
    show "(target (entry ?s a), is_group (entry ?s a)) \<noteq> (target (entry ?s b), is_group (entry ?s b))"
      using ab assms(5) ledger_keys [OF assms(1) ab(1,2)] by (auto simp: nth_list_update len assms(2) split: if_splits)
    show "last_seq (entry ?s a) \<noteq> last_seq (entry ?s b)"
      using ab assms(5) ledger_seq_inj [OF assms(1) ab(1,2)] by (auto simp: nth_list_update len assms(2) split: if_splits)
  qed
qed

lemma seq_less: "(x::u64) \<noteq> -1 \<Longrightarrow> x < x + 1"
  using inc_less_eq_triv_imp [of x] by (metis not_le)

lemma ledger_ok_note:
  assumes "ledger_ok s" "enc_lockout_seq s \<noteq> -1"
  shows "ledger_ok (snd (dsd_enc_lockout_note now t g alg kid s))"
proof (cases "t = 0")
  case True
  then show ?thesis using assms by (simp add: dsd_enc_lockout_note_def)
next
  case False
  have up: "enc_lockout_seq s < enc_lockout_seq s + 1" using assms(2) by (rule seq_less)
  obtain i e where
    run: "snd (dsd_enc_lockout_note now t g alg kid s) =
       s\<lparr>enc_lockout_seq := enc_lockout_seq s + 1, enc_lockout_entries := (enc_lockout_entries s)[i := e]\<rparr>"
    and e: "i < 128" "in_use e" "target e = t" "is_group e = g" "key_epoch e = enc_lockout_key_epoch s"
      "last_seq e = enc_lockout_seq s + 1"
    and slot: "has_key s t g i \<or> (\<forall>j < 128. \<not> has_key s t g j) \<and>
       (in_use (entry s i) \<longrightarrow> (\<forall>j < 128. in_use (entry s j) \<and> \<not> rather s j i))"
    by (rule note_spec [OF assms(1) False])
  have others: "\<not> has_key s t g j" if "j < 128" "j \<noteq> i" for j
    using slot that e(1) ledger_unique [OF assms(1), of i j t g] by blast
  have "last_seq (entry s j) \<noteq> last_seq e" if "j < 128" "in_use (entry s j)" for j
    using ledger_seq [OF assms(1) that] up e(6) by auto
  then have "ledger_ok (s\<lparr>enc_lockout_seq := enc_lockout_seq s + 1, enc_lockout_key_epoch := enc_lockout_key_epoch s,
      enc_lockout_entries := (enc_lockout_entries s)[i := e]\<rparr>)"
    using e others False up by (intro ledger_ok_update [OF assms(1)]) auto
  then show ?thesis by (simp add: run)
qed

lemma ledger_ok_release: "ledger_ok s \<Longrightarrow> ledger_ok (snd (dsd_enc_lockout_release t g s))"
proof (cases "enc_lockout_find s t g")
  case (Some i)
  assume ok: "ledger_ok s"
  have "i < 128" using lockout_find_Some [OF Some] by simp
  then have "ledger_ok (s\<lparr>enc_lockout_seq := enc_lockout_seq s, enc_lockout_key_epoch := enc_lockout_key_epoch s,
      enc_lockout_entries := (enc_lockout_entries s)[i := zero_entry]\<rparr>)"
    by (intro ledger_ok_update [OF ok]) (simp_all add: zero_entry_def)
  then show ?thesis using Some by (simp add: dsd_enc_lockout_release_def)
qed (simp add: dsd_enc_lockout_release_def)

lemma ledger_ok_bump:
  assumes "ledger_ok s" "enc_lockout_key_epoch s \<noteq> -1"
  shows "ledger_ok (dsd_enc_lockout_bump_key_epoch s)"
proof -
  have up: "enc_lockout_key_epoch s \<le> enc_lockout_key_epoch s + 1"
    using seq_less [OF assms(2)] by (rule less_imp_le)
  have "ledger_ok (s\<lparr>enc_lockout_seq := enc_lockout_seq s, enc_lockout_key_epoch := enc_lockout_key_epoch s + 1,
      enc_lockout_entries := (enc_lockout_entries s)[0 := entry s 0]\<rparr>)"
  proof (rule ledger_ok_update [OF assms(1) _ order_refl up])
    show "in_use (entry s 0) \<longrightarrow> target (entry s 0) \<noteq> 0 \<and> last_seq (entry s 0) \<le> enc_lockout_seq s \<and>
      key_epoch (entry s 0) \<le> enc_lockout_key_epoch s + 1 \<and>
      (\<forall>j < 128. j \<noteq> 0 \<and> in_use (entry s j) \<longrightarrow>
         (target (entry s j), is_group (entry s j)) \<noteq> (target (entry s 0), is_group (entry s 0)) \<and>
         last_seq (entry s j) \<noteq> last_seq (entry s 0))"
    proof (intro impI conjI allI)
      assume use: "in_use (entry s 0)"
      show "target (entry s 0) \<noteq> 0" "last_seq (entry s 0) \<le> enc_lockout_seq s"
        using use ledger_target [OF assms(1)] ledger_seq [OF assms(1)] by simp_all
      show "key_epoch (entry s 0) \<le> enc_lockout_key_epoch s + 1"
        using ledger_epoch [OF assms(1) _ use] up by simp
      fix j assume "j < 128" "j \<noteq> 0 \<and> in_use (entry s j)"
      then show "(target (entry s j), is_group (entry s j)) \<noteq> (target (entry s 0), is_group (entry s 0))"
        "last_seq (entry s j) \<noteq> last_seq (entry s 0)"
        using use ledger_keys [OF assms(1), of j 0] ledger_seq_inj [OF assms(1), of j 0] by auto
    qed
  qed simp
  then show ?thesis by (simp add: dsd_enc_lockout_bump_key_epoch_def)
qed

lemma ledger_ok_cleared: "ledger_ok (s\<lparr>enc_lockout_entries := replicate 128 zero_entry\<rparr>)"
  by (simp add: ledger_ok_def zero_entry_def)

lemma ledger_ok_clear: "ledger_ok (dsd_enc_lockout_clear_all s)"
  by (simp add: dsd_enc_lockout_clear_all_def ledger_ok_cleared enc_max)

lemma ledger_ok_init: "ledger_ok (dsd_enc_lockout_init s)"
  by (simp add: dsd_enc_lockout_init_def ledger_ok_def zero_entry_def enc_max)

section \<open>Activity\<close>

lemma active_iff:
  assumes "ledger_ok s"
  shows "dsd_enc_lockout_entry_active s t g \<longleftrightarrow> t \<noteq> 0 \<and> (\<exists>i < 128. has_key s t g i \<and> \<not> stale s i)"
proof (cases "enc_lockout_find s t g")
  case None
  then have "t = 0 \<or> (\<forall>i < 128. \<not> has_key s t g i)" using lockout_find_None by blast
  moreover have "\<not> dsd_enc_lockout_entry_active s t g" using None by (simp add: dsd_enc_lockout_entry_active_def)
  ultimately show ?thesis by blast
next
  case (Some i)
  then have i: "t \<noteq> 0" "i < 128" "has_key s t g i" using lockout_find_Some by blast+
  have "dsd_enc_lockout_entry_active s t g \<longleftrightarrow> \<not> stale s i"
    using Some by (simp add: dsd_enc_lockout_entry_active_def stale_def)
  then show ?thesis using i ledger_unique [OF assms, of i _ t g] by blast
qed

lemma note_active:
  assumes "ledger_ok s" "enc_lockout_seq s \<noteq> -1" "t \<noteq> 0"
  shows "dsd_enc_lockout_entry_active (snd (dsd_enc_lockout_note now t g alg kid s)) t g"
    and "fst (dsd_enc_lockout_note now t g alg kid s) \<longleftrightarrow> \<not> dsd_enc_lockout_entry_active s t g"
proof -
  obtain i e where
    run: "snd (dsd_enc_lockout_note now t g alg kid s) =
       s\<lparr>enc_lockout_seq := enc_lockout_seq s + 1, enc_lockout_entries := (enc_lockout_entries s)[i := e]\<rparr>"
    and e: "i < 128" "in_use e" "target e = t" "is_group e = g" "key_epoch e = enc_lockout_key_epoch s"
    and slot: "has_key s t g i \<or> (\<forall>j < 128. \<not> has_key s t g j) \<and>
       (in_use (entry s i) \<longrightarrow> (\<forall>j < 128. in_use (entry s j) \<and> \<not> rather s j i))"
    and new: "fst (dsd_enc_lockout_note now t g alg kid s) \<longleftrightarrow> \<not> (has_key s t g i \<and> \<not> stale s i)"
    by (rule note_spec [OF assms(1,3)])
  have "entry (snd (dsd_enc_lockout_note now t g alg kid s)) i = e"
    using e(1) ledger_length [OF assms(1)] by (simp add: run)
  moreover have "ledger_ok (snd (dsd_enc_lockout_note now t g alg kid s))"
    using assms by (simp add: ledger_ok_note)
  ultimately show "dsd_enc_lockout_entry_active (snd (dsd_enc_lockout_note now t g alg kid s)) t g"
    using e assms(3) by (auto simp: active_iff stale_def run intro!: exI [of _ i])
  show "fst (dsd_enc_lockout_note now t g alg kid s) \<longleftrightarrow> \<not> dsd_enc_lockout_entry_active s t g"
    unfolding new active_iff [OF assms(1)] using slot e(1) assms(3) ledger_unique [OF assms(1), of i _ t g] by blast
qed

section \<open>Runs against a specification\<close>

datatype lockout_op = Note int u32 bool int int | Release u32 bool | Bump | Clear

primrec lockout_exec :: "lockout_op \<Rightarrow> enc_state \<Rightarrow> enc_state" where
  "lockout_exec (Note now t g alg kid) s = snd (dsd_enc_lockout_note now t g alg kid s)"
| "lockout_exec (Release t g) s = snd (dsd_enc_lockout_release t g s)"
| "lockout_exec Bump s = dsd_enc_lockout_bump_key_epoch s"
| "lockout_exec Clear s = dsd_enc_lockout_clear_all s"

text \<open>
  What the documentation promises for one target: \<open>Some j\<close> when it was confirmed, not
  released since, with no key change or purge since, and \<open>j\<close> confirmations of other
  targets after its last one.
\<close>

primrec lockout_spec :: "u32 \<Rightarrow> bool \<Rightarrow> lockout_op \<Rightarrow> nat option \<Rightarrow> nat option" where
  "lockout_spec t g (Note now t' g' alg kid) a =
     (if t' = 0 then a else if t' = t \<and> g' = g then Some 0 else map_option Suc a)"
| "lockout_spec t g (Release t' g') a = (if t' = t \<and> g' = g then None else a)"
| "lockout_spec t g Bump a = None"
| "lockout_spec t g Clear a = None"

text \<open>The slots confirmed later than slot \<open>i\<close>.\<close>

definition newer :: "enc_state \<Rightarrow> nat \<Rightarrow> nat set" where
  "newer s i = {m. m < 128 \<and> in_use (entry s m) \<and> last_seq (entry s i) < last_seq (entry s m)}"

definition agrees :: "u32 \<Rightarrow> bool \<Rightarrow> nat option \<Rightarrow> enc_state \<Rightarrow> bool" where
  "agrees t g a s \<longleftrightarrow>
     (dsd_enc_lockout_entry_active s t g \<longrightarrow> a \<noteq> None) \<and>
     (\<forall>j. a = Some j \<and> j < 128 \<longrightarrow> (\<exists>i < 128. has_key s t g i \<and> \<not> stale s i \<and> card (newer s i) \<le> j))"

lemma newer_finite [simp]: "finite (newer s i)"
  by (simp add: newer_def)

text \<open>A slot is only evicted when every other slot was confirmed later.\<close>

lemma evicted_is_oldest:
  assumes "ledger_ok s" "i < 128" "in_use (entry s i)" "\<not> stale s i"
    and all: "\<forall>j < 128. in_use (entry s j) \<and> \<not> rather s j i"
  shows "card (newer s i) = 127"
proof -
  have "m \<in> newer s i" if "m < 128" "m \<noteq> i" for m
  proof -
    have "in_use (entry s m)" "\<not> rather s m i" using all that by blast+
    then have "last_seq (entry s i) \<le> last_seq (entry s m)" using assms(4) by (auto simp: rather_def not_less)
    moreover have "last_seq (entry s m) \<noteq> last_seq (entry s i)"
      using ledger_seq_inj [OF assms(1) that(1) assms(2)] \<open>in_use (entry s m)\<close> assms(3) that(2) by blast
    ultimately show ?thesis using \<open>in_use (entry s m)\<close> that(1) by (auto simp: newer_def)
  qed
  then have "newer s i = {..<128} - {i}" by (auto simp: newer_def)
  then show ?thesis using assms(2) by simp
qed

lemma agrees_note:
  assumes ok: "ledger_ok s" and seq: "enc_lockout_seq s \<noteq> -1" and "t \<noteq> 0" and a: "agrees t g a s"
  shows "agrees t g (lockout_spec t g (Note now t' g' alg kid) a) (snd (dsd_enc_lockout_note now t' g' alg kid s))"
proof (cases "t' = 0")
  case True
  then show ?thesis using a by (simp add: dsd_enc_lockout_note_def)
next
  case False
  define u where "u = snd (dsd_enc_lockout_note now t' g' alg kid s)"
  obtain i e where
    run: "snd (dsd_enc_lockout_note now t' g' alg kid s) =
      s\<lparr>enc_lockout_seq := enc_lockout_seq s + 1, enc_lockout_entries := (enc_lockout_entries s)[i := e]\<rparr>"
    and e: "i < 128" "in_use e" "target e = t'" "is_group e = g'" "key_epoch e = enc_lockout_key_epoch s"
      "last_seq e = enc_lockout_seq s + 1"
    and slot: "has_key s t' g' i \<or> (\<forall>j < 128. \<not> has_key s t' g' j) \<and>
       (in_use (entry s i) \<longrightarrow> (\<forall>j < 128. in_use (entry s j) \<and> \<not> rather s j i))"
    by (rule note_spec [OF ok False])
  have ok': "ledger_ok u" unfolding u_def using ok seq by (rule ledger_ok_note)
  have at_i: "entry u i = e" using e(1) ledger_length [OF ok] by (simp add: u_def run)
  have at: "entry u m = entry s m" if "m \<noteq> i" for m using that by (simp add: u_def run)
  have cnt: "enc_lockout_seq u = enc_lockout_seq s + 1" "enc_lockout_key_epoch u = enc_lockout_key_epoch s"
    by (simp_all add: u_def run)
  have stale: "stale u m \<longleftrightarrow> stale s m" if "m \<noteq> i" for m using at [OF that] cnt by (simp add: stale_def)
  have "agrees t g (lockout_spec t g (Note now t' g' alg kid) a) u"
  proof (cases "t' = t \<and> g' = g")
    case True
    have "last_seq (entry u m) \<le> last_seq (entry u i)" if "m < 128" "in_use (entry u m)" for m
      using ledger_seq [OF ok' that] by (simp add: at_i e(6) cnt)
    then have "newer u i = {}" by (auto simp: newer_def not_less [symmetric])
    moreover have "has_key u t g i \<and> \<not> stale u i" using e True by (simp add: stale_def at_i cnt)
    ultimately have "\<exists>k < 128. has_key u t g k \<and> \<not> stale u k \<and> card (newer u k) \<le> 0" using e(1) by auto
    then show ?thesis using True False by (simp add: agrees_def)
  next
    case other: False
    have sound: "a \<noteq> None" if act: "dsd_enc_lockout_entry_active u t g"
    proof -
      obtain m where m: "m < 128" "has_key u t g m" "\<not> stale u m"
        using act unfolding active_iff [OF ok'] by blast
      then have "m \<noteq> i" using other e at_i by auto
      then show ?thesis using m a \<open>t \<noteq> 0\<close> at stale active_iff [OF ok, of t g] by (auto simp: agrees_def)
    qed
    have kept: "\<exists>k < 128. has_key u t g k \<and> \<not> stale u k \<and> card (newer u k) \<le> Suc j"
      if j: "a = Some j" "Suc j < 128" for j
    proof -
      obtain k where k: "k < 128" "has_key s t g k" "\<not> stale s k" "card (newer s k) \<le> j"
        using a j by (auto simp: agrees_def)
      have "k \<noteq> i"
      proof
        assume "k = i"
        then have "\<forall>j < 128. in_use (entry s j) \<and> \<not> rather s j k" using slot k other by auto
        then have "card (newer s k) = 127" using evicted_is_oldest [OF ok k(1)] k by blast
        then show False using k(4) j(2) by simp
      qed
      have "newer u k \<subseteq> insert i (newer s k)" using at \<open>k \<noteq> i\<close> by (auto simp: newer_def)
      then have "card (newer u k) \<le> card (insert i (newer s k))" by (intro card_mono) simp_all
      also have "\<dots> \<le> Suc (card (newer s k))" by (simp add: card_insert_if)
      finally have "card (newer u k) \<le> Suc j" using k(4) by simp
      then show ?thesis using k at stale \<open>k \<noteq> i\<close> by auto
    qed
    show ?thesis using other False sound kept by (auto simp: agrees_def)
  qed
  then show ?thesis by (simp only: u_def)
qed

lemma agrees_release:
  assumes ok: "ledger_ok s" and "t \<noteq> 0" and a: "agrees t g a s"
  shows "agrees t g (lockout_spec t g (Release t' g') a) (snd (dsd_enc_lockout_release t' g' s))"
proof (cases "enc_lockout_find s t' g'")
  case None
  then have "dsd_enc_lockout_entry_active s t' g' = False" by (simp add: dsd_enc_lockout_entry_active_def)
  then show ?thesis using a None by (auto simp: dsd_enc_lockout_release_def agrees_def)
next
  case (Some i)
  define u where "u = snd (dsd_enc_lockout_release t' g' s)"
  have i: "i < 128" "has_key s t' g' i" using lockout_find_Some [OF Some] by blast+
  have ok': "ledger_ok u" unfolding u_def using ok by (rule ledger_ok_release)
  have free: "\<not> in_use (entry u i)"
    using i(1) ledger_length [OF ok] by (simp add: u_def dsd_enc_lockout_release_def Some zero_entry_def)
  have at: "entry u m = entry s m" if "m \<noteq> i" for m using that by (simp add: u_def dsd_enc_lockout_release_def Some)
  have stale: "stale u m \<longleftrightarrow> stale s m" if "m \<noteq> i" for m
    using at [OF that] by (simp add: stale_def u_def dsd_enc_lockout_release_def Some)
  have from_u: "m \<noteq> i \<and> has_key s t g m" if "has_key u t g m" for m using that free at by (cases "m = i") auto
  have "agrees t g (lockout_spec t g (Release t' g') a) u"
  proof (cases "t' = t \<and> g' = g")
    case True
    have "\<not> has_key u t g m" if "m < 128" for m
      using from_u [of m] ledger_unique [OF ok that i(1)] i True by blast
    then have "\<not> dsd_enc_lockout_entry_active u t g" unfolding active_iff [OF ok'] by blast
    then show ?thesis using True by (simp add: agrees_def)
  next
    case other: False
    have "dsd_enc_lockout_entry_active s t g" if "dsd_enc_lockout_entry_active u t g"
      using that from_u stale \<open>t \<noteq> 0\<close> unfolding active_iff [OF ok] active_iff [OF ok'] by blast
    moreover have "\<exists>k < 128. has_key u t g k \<and> \<not> stale u k \<and> card (newer u k) \<le> j"
      if j: "a = Some j" "j < 128" for j
    proof -
      obtain k where k: "k < 128" "has_key s t g k" "\<not> stale s k" "card (newer s k) \<le> j"
        using a j by (auto simp: agrees_def)
      have "k \<noteq> i" using k(2) i(2) other by auto
      have "newer u k \<subseteq> newer s k"
      proof
        fix m
        assume "m \<in> newer u k"
        then show "m \<in> newer s k" using free at [OF \<open>k \<noteq> i\<close>] at [of m] by (cases "m = i") (auto simp: newer_def)
      qed
      then have "card (newer u k) \<le> j" using k(4) card_mono [of "newer s k" "newer u k"] by simp
      then show ?thesis using k at stale \<open>k \<noteq> i\<close> by auto
    qed
    ultimately show ?thesis using other a by (auto simp: agrees_def)
  qed
  then show ?thesis by (simp only: u_def)
qed

text \<open>A key change and a purge leave no entry active.\<close>

lemma bump_inactive:
  assumes "ledger_ok s" "enc_lockout_key_epoch s \<noteq> -1"
  shows "\<not> dsd_enc_lockout_entry_active (dsd_enc_lockout_bump_key_epoch s) t g"
proof -
  have "stale (dsd_enc_lockout_bump_key_epoch s) i" if "i < 128" "in_use (entry s i)" for i
    using ledger_epoch [OF assms(1) that] seq_less [OF assms(2)]
    by (auto simp: stale_def dsd_enc_lockout_bump_key_epoch_def)
  then show ?thesis
    using active_iff [OF ledger_ok_bump [OF assms], of t g] by (auto simp: dsd_enc_lockout_bump_key_epoch_def)
qed

lemma clear_inactive: "\<not> dsd_enc_lockout_entry_active (dsd_enc_lockout_clear_all s) t g"
  using active_iff [OF ledger_ok_clear, of s t g]
  by (auto simp: dsd_enc_lockout_clear_all_def enc_max zero_entry_def)

lemma init_inactive: "\<not> dsd_enc_lockout_entry_active (dsd_enc_lockout_init s) t g"
  using active_iff [OF ledger_ok_init, of s t g]
  by (auto simp: dsd_enc_lockout_init_def enc_max zero_entry_def)

lemma agrees_exec:
  assumes "ledger_ok s" "enc_lockout_seq s \<noteq> -1" "enc_lockout_key_epoch s \<noteq> -1" "t \<noteq> 0" "agrees t g a s"
  shows "agrees t g (lockout_spec t g c a) (lockout_exec c s)"
  using agrees_note [OF assms(1,2,4,5)] agrees_release [OF assms(1,4,5)] bump_inactive [OF assms(1,3)]
    clear_inactive by (cases c) (auto simp: agrees_def)

lemma ledger_ok_exec:
  "ledger_ok s \<Longrightarrow> enc_lockout_seq s \<noteq> -1 \<Longrightarrow> enc_lockout_key_epoch s \<noteq> -1 \<Longrightarrow> ledger_ok (lockout_exec c s)"
  by (cases c) (simp_all add: ledger_ok_note ledger_ok_release ledger_ok_bump ledger_ok_clear)

section \<open>Runs from initialisation\<close>

definition lockout_run :: "enc_state \<Rightarrow> lockout_op list \<Rightarrow> enc_state" where
  "lockout_run s cs = fold lockout_exec cs (dsd_enc_lockout_init s)"

lemma unat_Suc_le: "unat (x + 1 :: u64) \<le> Suc (unat x)"
  by (simp add: unat_word_ariths)

lemma not_max: "unat (x :: u64) < 2 ^ 64 - 1 \<Longrightarrow> x \<noteq> -1"
  by (auto simp: unsigned_minus_1_eq_mask mask_eq_exp_minus_1)

lemma note_counters:
  "enc_lockout_key_epoch (snd (dsd_enc_lockout_note now t g alg kid s)) = enc_lockout_key_epoch s \<and>
   unat (enc_lockout_seq (snd (dsd_enc_lockout_note now t g alg kid s))) \<le> Suc (unat (enc_lockout_seq s))"
  by (auto simp: dsd_enc_lockout_note_def Let_def unat_Suc_le split: option.split prod.split)

lemma exec_counters:
  "unat (enc_lockout_seq (lockout_exec c s)) \<le> Suc (unat (enc_lockout_seq s)) \<and>
   unat (enc_lockout_key_epoch (lockout_exec c s)) \<le> Suc (unat (enc_lockout_key_epoch s))"
  using note_counters by (cases c)
    (auto simp: dsd_enc_lockout_release_def dsd_enc_lockout_bump_key_epoch_def dsd_enc_lockout_clear_all_def
      unat_Suc_le split: option.split)

text \<open>
  Fewer than \<open>2\<^sup>6\<^sup>4 - 2\<close> operations cannot wrap either counter, so the invariant and the
  agreement with the specification hold along the whole run.
\<close>

lemma lockout_run_ok:
  "length cs < 2 ^ 64 - 2 \<Longrightarrow>
   ledger_ok (lockout_run s cs) \<and> unat (enc_lockout_seq (lockout_run s cs)) \<le> length cs \<and>
   unat (enc_lockout_key_epoch (lockout_run s cs)) \<le> Suc (length cs) \<and>
   (t \<noteq> 0 \<longrightarrow> agrees t g (fold (lockout_spec t g) cs None) (lockout_run s cs))"
proof (induction cs rule: rev_induct)
  case Nil
  show ?case using ledger_ok_init [of s] init_inactive [of s t g]
    by (simp add: lockout_run_def agrees_def) (simp add: dsd_enc_lockout_init_def)
next
  case (snoc c cs)
  define r where "r = lockout_run s cs"
  have r: "ledger_ok r" "unat (enc_lockout_seq r) \<le> length cs" "unat (enc_lockout_key_epoch r) \<le> Suc (length cs)"
    "t \<noteq> 0 \<Longrightarrow> agrees t g (fold (lockout_spec t g) cs None) r"
    using snoc by (simp_all add: r_def)
  have nm: "enc_lockout_seq r \<noteq> -1" "enc_lockout_key_epoch r \<noteq> -1"
    using r(2,3) snoc.prems by (auto intro!: not_max)
  have run: "lockout_run s (cs @ [c]) = lockout_exec c r" by (simp add: lockout_run_def r_def)
  show ?case
    unfolding run using ledger_ok_exec [OF r(1) nm, of c] agrees_exec [OF r(1) nm _ r(4)] exec_counters [of c r] r(2,3)
    by (auto intro: le_trans)
qed

section \<open>Properties\<close>

text \<open>
  C28. Every run of fewer than \<open>2\<^sup>6\<^sup>4 - 2\<close> operations from initialisation keeps the ledger well
  formed and implements the per-target specification: a target that counts as active was
  confirmed, and neither released nor invalidated since; a confirmed target stays active
  while fewer than 128 confirmations of other targets followed its last one.
\<close>

theorem lockout_refines_spec:
  assumes "length cs < 2 ^ 64 - 2" "t \<noteq> 0"
  shows "ledger_ok (lockout_run s cs) \<and>
    (dsd_enc_lockout_entry_active (lockout_run s cs) t g \<longrightarrow> fold (lockout_spec t g) cs None \<noteq> None) \<and>
    (\<forall>j < 128. fold (lockout_spec t g) cs None = Some j \<longrightarrow> dsd_enc_lockout_entry_active (lockout_run s cs) t g)"
proof -
  have ok: "ledger_ok (lockout_run s cs)" and a: "agrees t g (fold (lockout_spec t g) cs None) (lockout_run s cs)"
    using lockout_run_ok [OF assms(1)] assms(2) by auto
  then show ?thesis unfolding agrees_def using active_iff [OF ok] assms(2) by blast
qed

theorem lockout_refines_spec_witness:
  "dsd_enc_lockout_entry_active
     (lockout_run \<lparr>enc_lockout_entries = [], enc_lockout_key_epoch = 0, enc_lockout_seq = 0\<rparr>
       [Note 10 7 True 132 5, Note 11 9 True 132 5, Release 9 True]) 7 True"
  using lockout_refines_spec [of "[Note 10 7 True 132 5, Note 11 9 True 132 5, Release 9 True]" 7 "\<lparr>enc_lockout_entries = [], enc_lockout_key_epoch = 0, enc_lockout_seq = 0\<rparr>" True] by simp

text \<open>
  A confirmation of a nonzero target in a well-formed ledger makes that target active,
  reports a new lockout exactly when the target was not active, and the target is then
  blocked exactly when tuning to encrypted calls is off; releasing it or changing the keys
  makes it tunable again.
\<close>

lemma lockout_note_then_blocked:
  assumes "ledger_ok s" "t \<noteq> 0" "enc_lockout_seq s \<noteq> -1" "enc_lockout_key_epoch s \<noteq> -1"
    and "dsd_enc_lockout_note now t g alg kid s = (newly, s')"
  shows "newly = (\<not> dsd_enc_lockout_entry_active s t g) \<and>
    dsd_enc_lockout_is_blocked tune s' t g = (tune = 0) \<and>
    (\<not> dsd_enc_lockout_is_blocked tune (snd (dsd_enc_lockout_release t g s')) t g) \<and>
    (\<not> dsd_enc_lockout_is_blocked tune (dsd_enc_lockout_bump_key_epoch s') t' g')"
proof -
  have s': "s' = snd (dsd_enc_lockout_note now t g alg kid s)" and new: "newly = fst (dsd_enc_lockout_note now t g alg kid s)"
    using assms(5) by simp_all
  have ok': "ledger_ok s'" unfolding s' using assms(1,3) by (rule ledger_ok_note)
  have ep: "enc_lockout_key_epoch s' \<noteq> -1" using note_counters assms(4) by (simp add: s')
  have "agrees t g None (snd (dsd_enc_lockout_release t g s'))"
    using agrees_release [OF ok' assms(2), of g "if dsd_enc_lockout_entry_active s' t g then Some 128 else None" t g]
    by (simp add: agrees_def)
  then show ?thesis
    using note_active [OF assms(1,3,2)] bump_inactive [OF ok' ep]
    by (simp add: new s' dsd_enc_lockout_is_blocked_def agrees_def)
qed

end
