(* ===== verification/Received_Identity.thy ===== *)
theory Received_Identity
  imports Prelude
begin

text \<open>
  The system identity received on the carrier being decoded,
  \<open>src/core/util/received_identity.c\<close>: one record with a bit per part in \<open>valid\<close> and
  \<open>fresh\<close>, and the operations that note, invalidate and forget parts. A C function that
  returns a pointer into the state is modelled as returning the record it points to,
  after the changes it made, and its caller writes that record back. Null state pointers
  are not modelled; text is a list of bytes without the terminating zero.
\<close>

section \<open>Data\<close>

datatype rxid_family =
    DSD_RXID_FAMILY_NONE | DSD_RXID_FAMILY_DMR | DSD_RXID_FAMILY_P25 | DSD_RXID_FAMILY_NXDN
  | DSD_RXID_FAMILY_DPMR | DSD_RXID_FAMILY_M17 | DSD_RXID_FAMILY_TETRA | DSD_RXID_FAMILY_EDACS
  | DSD_RXID_FAMILY_OTHER

datatype rxid_dmr_trunk =
    DSD_RXID_DMR_TRUNK_NONE | DSD_RXID_DMR_TRUNK_TIER3 | DSD_RXID_DMR_TRUNK_CAPACITY_PLUS
  | DSD_RXID_DMR_TRUNK_CONNECT_PLUS | DSD_RXID_DMR_TRUNK_XPT

datatype access_code_kind =
    DSD_ACCESS_CODE_NONE | DSD_ACCESS_CODE_COLOR_CODE | DSD_ACCESS_CODE_NAC | DSD_ACCESS_CODE_RAN
  | DSD_ACCESS_CODE_CAN

named_theorems rxid_parts "the part bits and their unions"

definition DSD_RXID_ACCESS :: u32 where
  [rxid_parts]: "DSD_RXID_ACCESS = 2 ^ 0"

definition DSD_RXID_P25_WACN :: u32 where
  [rxid_parts]: "DSD_RXID_P25_WACN = 2 ^ 1"

definition DSD_RXID_P25_SYSID :: u32 where
  [rxid_parts]: "DSD_RXID_P25_SYSID = 2 ^ 2"

definition DSD_RXID_P25_SITE :: u32 where
  [rxid_parts]: "DSD_RXID_P25_SITE = 2 ^ 3"

definition DSD_RXID_P25_LRA :: u32 where
  [rxid_parts]: "DSD_RXID_P25_LRA = 2 ^ 4"

definition DSD_RXID_DMR_REST_LSN :: u32 where
  [rxid_parts]: "DSD_RXID_DMR_REST_LSN = 2 ^ 5"

definition DSD_RXID_DMR_SITE_TEXT :: u32 where
  [rxid_parts]: "DSD_RXID_DMR_SITE_TEXT = 2 ^ 6"

definition DSD_RXID_DMR_BRAND :: u32 where
  [rxid_parts]: "DSD_RXID_DMR_BRAND = 2 ^ 7"

definition DSD_RXID_DMR_T3_SYSCODE :: u32 where
  [rxid_parts]: "DSD_RXID_DMR_T3_SYSCODE = 2 ^ 8"

definition DSD_RXID_NXDN_LOCATION :: u32 where
  [rxid_parts]: "DSD_RXID_NXDN_LOCATION = 2 ^ 9"

definition DSD_RXID_NXDN_IDAS_AREA :: u32 where
  [rxid_parts]: "DSD_RXID_NXDN_IDAS_AREA = 2 ^ 10"

definition DSD_RXID_NXDN_IDAS_SITE :: u32 where
  [rxid_parts]: "DSD_RXID_NXDN_IDAS_SITE = 2 ^ 11"

definition DSD_RXID_NXDN_TYPED_SYSTEM :: u32 where
  [rxid_parts]: "DSD_RXID_NXDN_TYPED_SYSTEM = 2 ^ 12"

definition DSD_RXID_EDACS_SITE :: u32 where
  [rxid_parts]: "DSD_RXID_EDACS_SITE = 2 ^ 13"

definition DSD_RXID_EDACS_AREA :: u32 where
  [rxid_parts]: "DSD_RXID_EDACS_AREA = 2 ^ 14"

definition DSD_RXID_EDACS_SYSTEM :: u32 where
  [rxid_parts]: "DSD_RXID_EDACS_SYSTEM = 2 ^ 15"

definition DSD_RXID_EDACS_CC_LCN :: u32 where
  [rxid_parts]: "DSD_RXID_EDACS_CC_LCN = 2 ^ 16"

definition DSD_RXID_TETRA_NET :: u32 where
  [rxid_parts]: "DSD_RXID_TETRA_NET = 2 ^ 17"

definition DSD_RXID_TETRA_LA :: u32 where
  [rxid_parts]: "DSD_RXID_TETRA_LA = 2 ^ 18"

definition DSD_RXID_CC_FREQ :: u32 where
  [rxid_parts]: "DSD_RXID_CC_FREQ = 2 ^ 19"

definition DSD_RXID_DMR_XPT_FREE_LCN :: u32 where
  [rxid_parts]: "DSD_RXID_DMR_XPT_FREE_LCN = 2 ^ 20"

definition DSD_RXID_DMR_VENDOR :: u32 where
  [rxid_parts]: "DSD_RXID_DMR_VENDOR = 2 ^ 21"

record received_identity =
  epoch :: u32
  valid :: u32
  fresh :: u32
  p25_wacn :: u32
  nxdn_sys :: u32
  nxdn_typed_sys :: u32
  cc_freq_hz :: u32
  access :: u16
  p25_sysid :: u16
  nxdn_site :: u16
  dmr_rest_lsn :: u16
  dmr_t3_syscode :: u16
  edacs_site :: u16
  edacs_area :: u16
  edacs_system :: u16
  edacs_cc_lcn :: u16
  tetra_mcc :: u16
  tetra_mnc :: u16
  tetra_la :: u16
  family :: rxid_family
  access_kind :: access_code_kind
  p25_rfss :: u8
  p25_site :: u8
  p25_lra :: u8
  nxdn_category :: u8
  nxdn_idas_area :: u8
  nxdn_idas_site_type :: u8
  nxdn_idas_site_code :: u8
  nxdn_typed_site :: u8
  dmr_xpt_free_lcn :: u8
  dmr_trunk :: rxid_dmr_trunk
  dmr_vendor :: u8
  edacs_ea_mode :: u8
  tetra_colour :: u8
  dmr_site_text :: string
  dmr_brand :: string

text \<open>The fields of the decoder state this code reads or writes; \<open>ea_mode\<close> is an \<open>int\<close>.\<close>

record rx_state =
  rx_id :: received_identity
  rx_id_trunk_tune_pending :: bool
  frame_dispatch_active :: bool
  frame_dispatch_carrier_seq :: u32
  carrier_seq :: u32
  input_interrupted :: bool
  ea_mode :: int

definition zero_identity :: received_identity where
  "zero_identity = \<lparr>epoch = 0, valid = 0, fresh = 0, p25_wacn = 0, nxdn_sys = 0, nxdn_typed_sys = 0, cc_freq_hz = 0,
     access = 0, p25_sysid = 0, nxdn_site = 0, dmr_rest_lsn = 0, dmr_t3_syscode = 0, edacs_site = 0, edacs_area = 0,
     edacs_system = 0, edacs_cc_lcn = 0, tetra_mcc = 0, tetra_mnc = 0, tetra_la = 0, family = DSD_RXID_FAMILY_NONE,
     access_kind = DSD_ACCESS_CODE_NONE, p25_rfss = 0, p25_site = 0, p25_lra = 0, nxdn_category = 0,
     nxdn_idas_area = 0, nxdn_idas_site_type = 0, nxdn_idas_site_code = 0, nxdn_typed_site = 0, dmr_xpt_free_lcn = 0,
     dmr_trunk = DSD_RXID_DMR_TRUNK_NONE, dmr_vendor = 0, edacs_ea_mode = 0, tetra_colour = 0,
     dmr_site_text = [], dmr_brand = []\<rparr>"

section \<open>The record\<close>

definition dsd_rxid_family_for_sync :: "int \<Rightarrow> rxid_family" where
  "dsd_rxid_family_for_sync synctype =
     (if synctype < 0 then DSD_RXID_FAMILY_NONE
      else if synctype \<in> {10, 11, 12, 13, 32, 33, 34} then DSD_RXID_FAMILY_DMR
      else if synctype \<in> {0, 1, 35, 36} then DSD_RXID_FAMILY_P25
      else if synctype \<in> {28, 29} then DSD_RXID_FAMILY_NXDN
      else if 20 \<le> synctype \<and> synctype \<le> 27 then DSD_RXID_FAMILY_DPMR
      else if synctype \<in> {8, 9, 16, 17, 76, 77, 86, 87, 98, 99, 100, 101} then DSD_RXID_FAMILY_M17
      else if synctype \<in> {41, 42, 43, 44} then DSD_RXID_FAMILY_TETRA
      else if synctype \<in> {14, 15, 37, 38} then DSD_RXID_FAMILY_EDACS
      else DSD_RXID_FAMILY_OTHER)"

definition rxid_clear :: "received_identity \<Rightarrow> received_identity" where
  "rxid_clear rid = zero_identity\<lparr>epoch := epoch rid + 1\<rparr>"

definition dsd_state_frame_read_lost :: "rx_state \<Rightarrow> u32 \<Rightarrow> bool" where
  "dsd_state_frame_read_lost state seq = (carrier_seq state \<noteq> seq \<or> input_interrupted state)"

definition rxid_record :: "rx_state \<Rightarrow> received_identity option" where
  "rxid_record state =
     (if frame_dispatch_active state \<and> dsd_state_frame_read_lost state (frame_dispatch_carrier_seq state)
      then None else Some (rx_id state))"

definition rxid_for :: "rxid_family \<Rightarrow> rx_state \<Rightarrow> received_identity option" where
  "rxid_for fam state =
     (if fam = DSD_RXID_FAMILY_NONE \<or> fam = DSD_RXID_FAMILY_OTHER then None
      else map_option (\<lambda>rid.
        if family rid \<noteq> fam
        then (if family rid \<noteq> DSD_RXID_FAMILY_NONE then rxid_clear rid else rid)\<lparr>family := fam\<rparr>
        else rid) (rxid_record state))"

definition rxid_set :: "u32 \<Rightarrow> received_identity \<Rightarrow> received_identity" where
  "rxid_set ps rid = rid\<lparr>valid := valid rid OR ps, fresh := fresh rid OR ps\<rparr>"

definition rxid_drop :: "u32 \<Rightarrow> received_identity \<Rightarrow> received_identity" where
  "rxid_drop ps rid = rid\<lparr>valid := valid rid AND NOT ps, fresh := fresh rid AND NOT ps\<rparr>"

definition rxid_invalidate :: "u32 \<Rightarrow> received_identity \<Rightarrow> received_identity" where
  "rxid_invalidate ps rid =
     (if valid rid AND ps \<noteq> 0 then (rxid_drop ps rid)\<lparr>epoch := epoch rid + 1\<rparr> else rid)"

definition rxid_has :: "u32 \<Rightarrow> received_identity \<Rightarrow> bool" where
  "rxid_has part rid = (valid rid AND part \<noteq> 0)"

text \<open>\<open>snprintf\<close> with \<open>"%s"\<close>: all but one byte of the capacity hold text.\<close>

definition rxid_copy_text :: "nat \<Rightarrow> string \<Rightarrow> string" where
  "rxid_copy_text capacity txt = take (capacity - 1) txt"

text \<open>Writing the record back through the pointer a lookup returned, when it returned one.\<close>

definition rxid_note :: "(rx_state \<Rightarrow> received_identity option) \<Rightarrow> (received_identity \<Rightarrow> received_identity) \<Rightarrow>
  rx_state \<Rightarrow> rx_state" where
  "rxid_note lookup f state = (case lookup state of None \<Rightarrow> state | Some rid \<Rightarrow> state\<lparr>rx_id := f rid\<rparr>)"

definition dsd_rxid_reset :: "rx_state \<Rightarrow> rx_state" where
  "dsd_rxid_reset state = state\<lparr>rx_id := rxid_clear (rx_id state), rx_id_trunk_tune_pending := False\<rparr>"

definition dsd_rxid_note_sync :: "int \<Rightarrow> rx_state \<Rightarrow> rx_state" where
  "dsd_rxid_note_sync synctype state =
     (let fam = dsd_rxid_family_for_sync synctype
      in if fam = DSD_RXID_FAMILY_NONE then state
         else if family (rx_id state) \<noteq> DSD_RXID_FAMILY_NONE \<and> family (rx_id state) \<noteq> fam
              then state\<lparr>rx_id := rxid_clear (rx_id state)\<rparr> else state)"

definition dsd_rxid_mark_stale :: "rx_state \<Rightarrow> rx_state" where
  "dsd_rxid_mark_stale state = state\<lparr>rx_id := (rx_id state)\<lparr>fresh := 0\<rparr>\<rparr>"

definition dsd_rxid_trunk_tune :: "rx_state \<Rightarrow> rx_state" where
  "dsd_rxid_trunk_tune state = state\<lparr>rx_id := rxid_drop DSD_RXID_ACCESS (rx_id state)\<rparr>"

definition dsd_rxid_apply_trunk_tune :: "rx_state \<Rightarrow> rx_state" where
  "dsd_rxid_apply_trunk_tune state =
     (if rx_id_trunk_tune_pending state
      then dsd_rxid_trunk_tune (state\<lparr>rx_id_trunk_tune_pending := False\<rparr>) else state)"

definition dsd_rxid_request_trunk_tune :: "rx_state \<Rightarrow> rx_state" where
  "dsd_rxid_request_trunk_tune state =
     (let state = state\<lparr>rx_id_trunk_tune_pending := True\<rparr>
      in if frame_dispatch_active state then dsd_rxid_apply_trunk_tune state else state)"

definition RXID_P25_SYSTEM :: u32 where
  [rxid_parts]: "RXID_P25_SYSTEM =
     DSD_RXID_P25_WACN OR DSD_RXID_P25_SYSID OR DSD_RXID_P25_SITE OR DSD_RXID_P25_LRA OR DSD_RXID_CC_FREQ"

fun rxid_system_parts :: "rxid_family \<Rightarrow> u32" where
  "rxid_system_parts DSD_RXID_FAMILY_DMR =
     DSD_RXID_DMR_REST_LSN OR DSD_RXID_DMR_SITE_TEXT OR DSD_RXID_DMR_BRAND OR DSD_RXID_DMR_T3_SYSCODE OR
     DSD_RXID_DMR_XPT_FREE_LCN OR DSD_RXID_DMR_VENDOR OR DSD_RXID_CC_FREQ"
| "rxid_system_parts DSD_RXID_FAMILY_P25 = RXID_P25_SYSTEM"
| "rxid_system_parts DSD_RXID_FAMILY_NXDN =
     DSD_RXID_NXDN_LOCATION OR DSD_RXID_NXDN_IDAS_AREA OR DSD_RXID_NXDN_IDAS_SITE OR
     DSD_RXID_NXDN_TYPED_SYSTEM OR DSD_RXID_CC_FREQ"
| "rxid_system_parts DSD_RXID_FAMILY_DPMR = DSD_RXID_CC_FREQ"
| "rxid_system_parts DSD_RXID_FAMILY_TETRA = DSD_RXID_TETRA_LA OR DSD_RXID_CC_FREQ"
| "rxid_system_parts DSD_RXID_FAMILY_EDACS =
     DSD_RXID_EDACS_SITE OR DSD_RXID_EDACS_AREA OR DSD_RXID_EDACS_SYSTEM OR DSD_RXID_EDACS_CC_LCN OR DSD_RXID_CC_FREQ"
| "rxid_system_parts _ = 0"

section \<open>Notes\<close>

definition RXID_NXDN_TYPE_D :: u32 where
  [rxid_parts]: "RXID_NXDN_TYPE_D = DSD_RXID_NXDN_IDAS_AREA OR DSD_RXID_NXDN_IDAS_SITE OR DSD_RXID_NXDN_TYPED_SYSTEM"

definition rxid_nxdn :: "bool \<Rightarrow> rx_state \<Rightarrow> received_identity option" where
  "rxid_nxdn type_d state =
     map_option (\<lambda>rid.
       if type_d \<and> rxid_has (DSD_RXID_NXDN_LOCATION OR DSD_RXID_ACCESS) rid
       then rxid_invalidate (DSD_RXID_NXDN_LOCATION OR DSD_RXID_ACCESS OR DSD_RXID_CC_FREQ) rid
       else if \<not> type_d \<and> rxid_has RXID_NXDN_TYPE_D rid
       then rxid_invalidate (RXID_NXDN_TYPE_D OR DSD_RXID_CC_FREQ) rid
       else rid) (rxid_for DSD_RXID_FAMILY_NXDN state)"

definition dsd_rxid_note_access :: "rxid_family \<Rightarrow> access_code_kind \<Rightarrow> u16 \<Rightarrow> rx_state \<Rightarrow> rx_state" where
  "dsd_rxid_note_access fam kind value state =
     (if kind = DSD_ACCESS_CODE_NONE then state
      else rxid_note (if fam = DSD_RXID_FAMILY_NXDN then rxid_nxdn False else rxid_for fam) (\<lambda>rid.
        let rid = (if rxid_has DSD_RXID_ACCESS rid \<and> (access_kind rid \<noteq> kind \<or> access rid \<noteq> value)
                  then (rxid_drop (rxid_system_parts (family rid)) rid)\<lparr>epoch := epoch rid + 1\<rparr> else rid)
        in rxid_set DSD_RXID_ACCESS (rid\<lparr>access_kind := kind, access := value\<rparr>)) state)"

definition dsd_rxid_note_p25_network :: "u32 \<Rightarrow> u16 \<Rightarrow> rx_state \<Rightarrow> rx_state" where
  "dsd_rxid_note_p25_network wacn sysid state =
     (let sysid = sysid AND 0xFFF; wacn = wacn AND 0xFFFFF
      in if sysid = 0 then state
         else rxid_note (rxid_for DSD_RXID_FAMILY_P25) (\<lambda>rid.
           let same_system = (rxid_has DSD_RXID_P25_SYSID rid \<and> p25_sysid rid = sysid \<and>
                 (\<not> rxid_has DSD_RXID_P25_WACN rid \<or> p25_wacn rid = wacn));
               rid = (if \<not> same_system then rxid_invalidate RXID_P25_SYSTEM rid else rid)
           in rxid_set (DSD_RXID_P25_WACN OR DSD_RXID_P25_SYSID) (rid\<lparr>p25_wacn := wacn, p25_sysid := sysid\<rparr>)) state)"

text \<open>
  The record for a site or registration area note; the flag is false when the function
  returns no pointer because the record names another system.
\<close>

definition rxid_p25_bound :: "u16 \<Rightarrow> rx_state \<Rightarrow> (bool \<times> received_identity) option" where
  "rxid_p25_bound sysid state =
     (if sysid = 0 then None
      else map_option (\<lambda>rid.
        if rxid_has DSD_RXID_P25_SYSID rid
        then if p25_sysid rid \<noteq> sysid then (False, rid) else (True, rxid_set DSD_RXID_P25_SYSID rid)
        else (True, rxid_set DSD_RXID_P25_SYSID (rid\<lparr>p25_sysid := sysid\<rparr>))) (rxid_for DSD_RXID_FAMILY_P25 state))"

definition dsd_rxid_note_p25_site :: "u16 \<Rightarrow> u8 \<Rightarrow> u8 \<Rightarrow> rx_state \<Rightarrow> rx_state" where
  "dsd_rxid_note_p25_site sysid rfss site state =
     (case rxid_p25_bound (sysid AND 0xFFF) state of
        None \<Rightarrow> state
      | Some (found, rid) \<Rightarrow>
          state\<lparr>rx_id :=
            (if \<not> found then rid
             else let rid = (if rxid_has DSD_RXID_P25_SITE rid \<and> (p25_rfss rid \<noteq> rfss \<or> p25_site rid \<noteq> site)
                            then rxid_invalidate (DSD_RXID_P25_SITE OR DSD_RXID_P25_LRA OR DSD_RXID_CC_FREQ) rid else rid)
                  in rxid_set DSD_RXID_P25_SITE (rid\<lparr>p25_rfss := rfss, p25_site := site\<rparr>))\<rparr>)"

definition dsd_rxid_note_p25_lra :: "u16 \<Rightarrow> u8 \<Rightarrow> rx_state \<Rightarrow> rx_state" where
  "dsd_rxid_note_p25_lra sysid lra state =
     (case rxid_p25_bound (sysid AND 0xFFF) state of
        None \<Rightarrow> state
      | Some (found, rid) \<Rightarrow>
          state\<lparr>rx_id := (if \<not> found then rid else rxid_set DSD_RXID_P25_LRA (rid\<lparr>p25_lra := lra\<rparr>))\<rparr>)"

definition RXID_DMR_TRUNK_PARTS :: u32 where
  [rxid_parts]: "RXID_DMR_TRUNK_PARTS =
     DSD_RXID_DMR_REST_LSN OR DSD_RXID_DMR_SITE_TEXT OR DSD_RXID_DMR_BRAND OR DSD_RXID_DMR_T3_SYSCODE OR
     DSD_RXID_DMR_XPT_FREE_LCN"

definition rxid_dmr :: "rxid_dmr_trunk \<Rightarrow> rx_state \<Rightarrow> received_identity option" where
  "rxid_dmr trunk state =
     map_option (\<lambda>rid.
       if trunk = DSD_RXID_DMR_TRUNK_NONE then rid
       else (if valid rid AND RXID_DMR_TRUNK_PARTS \<noteq> 0 \<and> dmr_trunk rid \<noteq> trunk
             then rxid_invalidate (RXID_DMR_TRUNK_PARTS OR DSD_RXID_CC_FREQ) rid else rid)\<lparr>dmr_trunk := trunk\<rparr>)
       (rxid_for DSD_RXID_FAMILY_DMR state)"

text \<open>The names of the trunking systems: brand, prefix of the site text, system.\<close>

definition k_names :: "(string option \<times> string option \<times> rxid_dmr_trunk) list" where
  "k_names =
     [(Some ''Capacity Plus'', Some ''Cap+'', DSD_RXID_DMR_TRUNK_CAPACITY_PLUS),
      (Some ''Connect Plus'', Some ''Con+'', DSD_RXID_DMR_TRUNK_CONNECT_PLUS),
      (Some ''Hytera XPT'', None, DSD_RXID_DMR_TRUNK_XPT),
      (None, Some ''TIII'', DSD_RXID_DMR_TRUNK_TIER3)]"

definition rxid_dmr_trunk_named :: "string \<Rightarrow> bool \<Rightarrow> rxid_dmr_trunk" where
  "rxid_dmr_trunk_named txt site_text =
     (case find (\<lambda>(brand, prefix, trunk).
          case (if site_text then prefix else brand) of
            None \<Rightarrow> False
          | Some name \<Rightarrow> if site_text then take (length name) txt = name else txt = name) k_names of
        None \<Rightarrow> DSD_RXID_DMR_TRUNK_NONE
      | Some (brand, prefix, trunk) \<Rightarrow> trunk)"

definition dsd_rxid_note_dmr_rest_lsn :: "u16 \<Rightarrow> rx_state \<Rightarrow> rx_state" where
  "dsd_rxid_note_dmr_rest_lsn lsn =
     rxid_note (rxid_dmr DSD_RXID_DMR_TRUNK_CAPACITY_PLUS) (\<lambda>rid. rxid_set DSD_RXID_DMR_REST_LSN (rid\<lparr>dmr_rest_lsn := lsn\<rparr>))"

definition dsd_rxid_note_dmr_site_text :: "string \<Rightarrow> rx_state \<Rightarrow> rx_state" where
  "dsd_rxid_note_dmr_site_text txt state =
     (if txt = [] then state
      else rxid_note (rxid_dmr (rxid_dmr_trunk_named txt True)) (\<lambda>rid.
        let new = rxid_copy_text 64 txt;
            rid = (if rxid_has DSD_RXID_DMR_SITE_TEXT rid \<and> dmr_site_text rid \<noteq> new
                  then rxid_invalidate (DSD_RXID_DMR_SITE_TEXT OR DSD_RXID_DMR_REST_LSN OR
                         DSD_RXID_DMR_XPT_FREE_LCN OR DSD_RXID_CC_FREQ) rid else rid)
        in rxid_set DSD_RXID_DMR_SITE_TEXT (rid\<lparr>dmr_site_text := new\<rparr>)) state)"

definition dsd_rxid_note_dmr_brand :: "string \<Rightarrow> rx_state \<Rightarrow> rx_state" where
  "dsd_rxid_note_dmr_brand brand state =
     (if brand = [] then state
      else rxid_note (rxid_dmr (rxid_dmr_trunk_named brand False)) (\<lambda>rid.
        rxid_set DSD_RXID_DMR_BRAND (rid\<lparr>dmr_brand := rxid_copy_text 32 brand\<rparr>)) state)"

definition dsd_rxid_note_dmr_vendor :: "u8 \<Rightarrow> rx_state \<Rightarrow> rx_state" where
  "dsd_rxid_note_dmr_vendor mfid state =
     (if mfid = 0 then state
      else rxid_note (rxid_for DSD_RXID_FAMILY_DMR) (\<lambda>rid. rxid_set DSD_RXID_DMR_VENDOR (rid\<lparr>dmr_vendor := mfid\<rparr>)) state)"

definition dsd_rxid_note_dmr_t3_syscode :: "u16 \<Rightarrow> rx_state \<Rightarrow> rx_state" where
  "dsd_rxid_note_dmr_t3_syscode syscode =
     rxid_note (rxid_dmr DSD_RXID_DMR_TRUNK_TIER3) (\<lambda>rid.
       let rid = (if rxid_has DSD_RXID_DMR_T3_SYSCODE rid \<and> dmr_t3_syscode rid \<noteq> syscode
                 then rxid_invalidate (DSD_RXID_DMR_T3_SYSCODE OR DSD_RXID_DMR_SITE_TEXT OR DSD_RXID_CC_FREQ) rid else rid)
       in rxid_set DSD_RXID_DMR_T3_SYSCODE (rid\<lparr>dmr_t3_syscode := syscode\<rparr>))"

definition dsd_rxid_note_dmr_xpt_free_lcn :: "u8 \<Rightarrow> rx_state \<Rightarrow> rx_state" where
  "dsd_rxid_note_dmr_xpt_free_lcn lcn =
     rxid_note (rxid_dmr DSD_RXID_DMR_TRUNK_XPT) (\<lambda>rid.
       rxid_set DSD_RXID_DMR_XPT_FREE_LCN (rid\<lparr>dmr_xpt_free_lcn := lcn AND 0xF\<rparr>))"

definition dsd_rxid_note_nxdn_location :: "u8 \<Rightarrow> u32 \<Rightarrow> u16 \<Rightarrow> rx_state \<Rightarrow> rx_state" where
  "dsd_rxid_note_nxdn_location category sys site state =
     (if category > 2 then state
      else rxid_note (rxid_nxdn False) (\<lambda>rid.
        let rid = (if rxid_has DSD_RXID_NXDN_LOCATION rid \<and>
                     (nxdn_category rid \<noteq> category \<or> nxdn_sys rid \<noteq> sys \<or> nxdn_site rid \<noteq> site)
                  then rxid_invalidate (DSD_RXID_NXDN_LOCATION OR DSD_RXID_CC_FREQ) rid else rid)
        in rxid_set DSD_RXID_NXDN_LOCATION (rid\<lparr>nxdn_category := category, nxdn_sys := sys, nxdn_site := site\<rparr>)) state)"

definition dsd_rxid_note_nxdn_idas_area :: "u8 \<Rightarrow> rx_state \<Rightarrow> rx_state" where
  "dsd_rxid_note_nxdn_idas_area area =
     rxid_note (rxid_nxdn True) (\<lambda>rid.
       let area = area AND 1;
           rid = (if rxid_has DSD_RXID_NXDN_IDAS_AREA rid \<and> nxdn_idas_area rid \<noteq> area
                 then rxid_invalidate (DSD_RXID_NXDN_IDAS_AREA OR DSD_RXID_NXDN_IDAS_SITE OR
                        DSD_RXID_NXDN_TYPED_SYSTEM OR DSD_RXID_CC_FREQ) rid else rid)
       in rxid_set DSD_RXID_NXDN_IDAS_AREA (rid\<lparr>nxdn_idas_area := area\<rparr>))"

definition dsd_rxid_note_nxdn_idas_site :: "u8 \<Rightarrow> u8 \<Rightarrow> rx_state \<Rightarrow> rx_state" where
  "dsd_rxid_note_nxdn_idas_site site_type site_code state =
     (if site_type < 1 \<or> site_type > 3 \<or> site_code < 1 \<or> site_code > 250 then state
      else rxid_note (rxid_nxdn True) (\<lambda>rid.
        let rid = (if rxid_has DSD_RXID_NXDN_IDAS_SITE rid \<and>
                     (nxdn_idas_site_type rid \<noteq> site_type \<or> nxdn_idas_site_code rid \<noteq> site_code)
                  then rxid_invalidate (DSD_RXID_NXDN_IDAS_SITE OR DSD_RXID_CC_FREQ) rid else rid);
            rid = (if rxid_has DSD_RXID_NXDN_TYPED_SYSTEM rid \<and> nxdn_typed_site rid \<noteq> site_code
                  then rxid_invalidate (DSD_RXID_NXDN_TYPED_SYSTEM OR DSD_RXID_CC_FREQ) rid else rid)
        in rxid_set DSD_RXID_NXDN_IDAS_SITE (rid\<lparr>nxdn_idas_site_type := site_type, nxdn_idas_site_code := site_code\<rparr>))
        state)"

definition dsd_rxid_note_nxdn_typed_system :: "u32 \<Rightarrow> u8 \<Rightarrow> rx_state \<Rightarrow> rx_state" where
  "dsd_rxid_note_nxdn_typed_system sys site =
     rxid_note (rxid_nxdn True) (\<lambda>rid.
       let sys = sys AND 0x7FFFF;
           rid = (if rxid_has DSD_RXID_NXDN_TYPED_SYSTEM rid \<and> nxdn_typed_sys rid \<noteq> sys
                 then rxid_invalidate (DSD_RXID_NXDN_TYPED_SYSTEM OR DSD_RXID_NXDN_IDAS_AREA OR
                        DSD_RXID_NXDN_IDAS_SITE OR DSD_RXID_CC_FREQ) rid
                 else if rxid_has DSD_RXID_NXDN_TYPED_SYSTEM rid \<and> nxdn_typed_site rid \<noteq> site
                 then rxid_invalidate (DSD_RXID_NXDN_TYPED_SYSTEM OR DSD_RXID_NXDN_IDAS_AREA OR DSD_RXID_CC_FREQ) rid
                 else rid);
           rid = (if rxid_has DSD_RXID_NXDN_IDAS_SITE rid \<and> nxdn_idas_site_code rid \<noteq> site
                 then rxid_invalidate (DSD_RXID_NXDN_IDAS_SITE OR DSD_RXID_NXDN_IDAS_AREA OR DSD_RXID_CC_FREQ) rid else rid)
       in rxid_set DSD_RXID_NXDN_TYPED_SYSTEM (rid\<lparr>nxdn_typed_sys := sys, nxdn_typed_site := site\<rparr>))"

definition RXID_EDACS_PARTS :: u32 where
  [rxid_parts]: "RXID_EDACS_PARTS =
     DSD_RXID_EDACS_SITE OR DSD_RXID_EDACS_AREA OR DSD_RXID_EDACS_SYSTEM OR DSD_RXID_EDACS_CC_LCN"

definition rxid_edacs :: "rx_state \<Rightarrow> received_identity option" where
  "rxid_edacs state =
     map_option (\<lambda>rid.
       (if rxid_has RXID_EDACS_PARTS rid \<and> edacs_ea_mode rid \<noteq> word_of_int (ea_mode state)
        then rxid_invalidate (RXID_EDACS_PARTS OR DSD_RXID_CC_FREQ) rid else rid)
       \<lparr>edacs_ea_mode := word_of_int (ea_mode state)\<rparr>) (rxid_for DSD_RXID_FAMILY_EDACS state)"

definition dsd_rxid_note_edacs_site :: "u16 \<Rightarrow> rx_state \<Rightarrow> rx_state" where
  "dsd_rxid_note_edacs_site site =
     rxid_note rxid_edacs (\<lambda>rid.
       let rid = (if rxid_has DSD_RXID_EDACS_SITE rid \<and> edacs_site rid \<noteq> site
                 then rxid_invalidate (DSD_RXID_EDACS_SITE OR DSD_RXID_EDACS_CC_LCN OR DSD_RXID_CC_FREQ) rid else rid)
       in rxid_set DSD_RXID_EDACS_SITE (rid\<lparr>edacs_site := site\<rparr>))"

definition dsd_rxid_note_edacs_area :: "u16 \<Rightarrow> rx_state \<Rightarrow> rx_state" where
  "dsd_rxid_note_edacs_area area = rxid_note rxid_edacs (\<lambda>rid. rxid_set DSD_RXID_EDACS_AREA (rid\<lparr>edacs_area := area\<rparr>))"

definition dsd_rxid_note_edacs_system :: "u16 \<Rightarrow> rx_state \<Rightarrow> rx_state" where
  "dsd_rxid_note_edacs_system system =
     rxid_note rxid_edacs (\<lambda>rid.
       let rid = (if rxid_has DSD_RXID_EDACS_SYSTEM rid \<and> edacs_system rid \<noteq> system
                 then rxid_invalidate (DSD_RXID_EDACS_SYSTEM OR DSD_RXID_EDACS_SITE OR DSD_RXID_EDACS_AREA OR
                        DSD_RXID_EDACS_CC_LCN OR DSD_RXID_CC_FREQ) rid else rid)
       in rxid_set DSD_RXID_EDACS_SYSTEM (rid\<lparr>edacs_system := system\<rparr>))"

definition dsd_rxid_note_edacs_cc_lcn :: "u16 \<Rightarrow> rx_state \<Rightarrow> rx_state" where
  "dsd_rxid_note_edacs_cc_lcn lcn = rxid_note rxid_edacs (\<lambda>rid. rxid_set DSD_RXID_EDACS_CC_LCN (rid\<lparr>edacs_cc_lcn := lcn\<rparr>))"

definition dsd_rxid_note_tetra_cell :: "u16 \<Rightarrow> u16 \<Rightarrow> u8 \<Rightarrow> rx_state \<Rightarrow> rx_state" where
  "dsd_rxid_note_tetra_cell mcc mnc colour state =
     (let mcc = mcc AND 0x3FF; mnc = mnc AND 0x3FFF; colour = colour AND 0x3F
      in rxid_note (rxid_for DSD_RXID_FAMILY_TETRA) (\<lambda>rid.
        let same_cell = (rxid_has DSD_RXID_TETRA_NET rid \<and> tetra_mcc rid = mcc \<and> tetra_mnc rid = mnc \<and> tetra_colour rid = colour);
            rid = (if \<not> same_cell
                  then rxid_invalidate (DSD_RXID_TETRA_NET OR DSD_RXID_TETRA_LA OR DSD_RXID_CC_FREQ) rid else rid)
        in rxid_set (DSD_RXID_TETRA_NET OR DSD_RXID_ACCESS)
             (rid\<lparr>tetra_mcc := mcc, tetra_mnc := mnc, tetra_colour := colour,
                access_kind := DSD_ACCESS_CODE_COLOR_CODE, access := ucast colour\<rparr>)) state)"

definition rxid_tetra :: "rx_state \<Rightarrow> received_identity option" where
  "rxid_tetra state =
     (case rxid_record state of
        None \<Rightarrow> None
      | Some rid \<Rightarrow> if family rid = DSD_RXID_FAMILY_TETRA then Some rid else None)"

definition dsd_rxid_note_tetra_la :: "u16 \<Rightarrow> rx_state \<Rightarrow> rx_state" where
  "dsd_rxid_note_tetra_la la =
     rxid_note rxid_tetra (\<lambda>rid.
       if \<not> rxid_has DSD_RXID_TETRA_NET rid then rid
       else rxid_set DSD_RXID_TETRA_LA (rid\<lparr>tetra_la := la AND 0x3FFF\<rparr>))"

definition dsd_rxid_note_tetra_other_cell :: "rx_state \<Rightarrow> rx_state" where
  "dsd_rxid_note_tetra_other_cell = rxid_note rxid_tetra (rxid_invalidate (DSD_RXID_TETRA_LA OR DSD_RXID_CC_FREQ))"

definition dsd_rxid_note_tetra_direct_mode :: "rx_state \<Rightarrow> rx_state" where
  "dsd_rxid_note_tetra_direct_mode = rxid_note rxid_tetra rxid_clear"

definition dsd_rxid_note_cc_freq :: "rxid_family \<Rightarrow> u32 \<Rightarrow> rx_state \<Rightarrow> rx_state" where
  "dsd_rxid_note_cc_freq fam freq_hz state =
     (if freq_hz = 0 then state
      else rxid_note (rxid_for fam) (\<lambda>rid. rxid_set DSD_RXID_CC_FREQ (rid\<lparr>cc_freq_hz := freq_hz\<rparr>)) state)"

definition dsd_rxid_forget_system :: "rxid_family \<Rightarrow> bool \<Rightarrow> rx_state \<Rightarrow> rx_state" where
  "dsd_rxid_forget_system fam with_access state =
     (if fam \<noteq> DSD_RXID_FAMILY_NONE \<and> family (rx_id state) = fam
      then state\<lparr>rx_id := rxid_invalidate
             (rxid_system_parts (family (rx_id state)) OR (if with_access then DSD_RXID_ACCESS else 0)) (rx_id state)\<rparr>
      else state)"

text \<open>The decoder options this code reads, each an \<open>int\<close> compared with 1.\<close>

record rx_opts =
  frame_dmr :: bool
  frame_p25p1 :: bool
  frame_p25p2 :: bool
  frame_nxdn48 :: bool
  frame_nxdn96 :: bool
  frame_dpmr :: bool
  frame_m17 :: bool
  frame_tetra :: bool
  frame_provoice :: bool

fun rxid_family_decoded :: "rx_opts \<Rightarrow> rxid_family \<Rightarrow> bool" where
  "rxid_family_decoded opts DSD_RXID_FAMILY_DMR = frame_dmr opts"
| "rxid_family_decoded opts DSD_RXID_FAMILY_P25 = (frame_p25p1 opts \<or> frame_p25p2 opts)"
| "rxid_family_decoded opts DSD_RXID_FAMILY_NXDN = (frame_nxdn48 opts \<or> frame_nxdn96 opts)"
| "rxid_family_decoded opts DSD_RXID_FAMILY_DPMR = frame_dpmr opts"
| "rxid_family_decoded opts DSD_RXID_FAMILY_M17 = frame_m17 opts"
| "rxid_family_decoded opts DSD_RXID_FAMILY_TETRA = frame_tetra opts"
| "rxid_family_decoded opts DSD_RXID_FAMILY_EDACS = frame_provoice opts"
| "rxid_family_decoded opts _ = True"

definition dsd_rxid_note_decoder_settings :: "rx_opts \<Rightarrow> rx_state \<Rightarrow> rx_state" where
  "dsd_rxid_note_decoder_settings opts state =
     (let rid = rx_id state
      in if family rid = DSD_RXID_FAMILY_NONE then state
         else let other_reading = (family rid = DSD_RXID_FAMILY_EDACS \<and> edacs_ea_mode rid \<noteq> word_of_int (ea_mode state))
              in if \<not> rxid_family_decoded opts (family rid) \<or> other_reading
                 then state\<lparr>rx_id := rxid_clear rid\<rparr> else state)"

end
