(* ===== verification/Rxid_Invariant.thy ===== *)
theory Rxid_Invariant
  imports Received_Identity
begin

text \<open>
  What the received-identity record promises its readers, over every sequence of the
  operations of \<open>Received_Identity\<close>: the parts always form one consistent identity of one
  family, and the epoch tells one identity from the next.
\<close>

section \<open>Sets of parts\<close>

definition without :: "u32 \<Rightarrow> u32 \<Rightarrow> u32" where
  "without v ps = v AND NOT ps"

definition within :: "u32 \<Rightarrow> u32 \<Rightarrow> bool" where
  "within v ps \<longleftrightarrow> v AND NOT ps = 0"

lemma without_other: "ps AND q = 0 \<Longrightarrow> without v ps AND q = v AND q"
  by (auto simp: without_def bit_eq_iff bit_simps)

lemma without_in: "ps AND q = q \<Longrightarrow> without v ps AND q = 0"
  by (auto simp: without_def bit_eq_iff bit_simps)

lemma or_and_zero: "(v OR ps) AND q = 0 \<longleftrightarrow> v AND q = 0 \<and> ps AND q = (0 :: u32)"
  by (auto simp: bit_eq_iff bit_simps)

lemma and_or_zero: "v AND (p OR q) = 0 \<longleftrightarrow> v AND p = 0 \<and> v AND q = (0 :: u32)"
  by (auto simp: bit_eq_iff bit_simps)

named_theorems part_bits "the part constants at the level of bits"

lemma part_and [part_bits]:
  "v AND DSD_RXID_ACCESS = 0 \<longleftrightarrow> \<not> bit v 0"
  "v AND DSD_RXID_P25_WACN = 0 \<longleftrightarrow> \<not> bit v 1"
  "v AND DSD_RXID_P25_SYSID = 0 \<longleftrightarrow> \<not> bit v 2"
  "v AND DSD_RXID_P25_SITE = 0 \<longleftrightarrow> \<not> bit v 3"
  "v AND DSD_RXID_P25_LRA = 0 \<longleftrightarrow> \<not> bit v 4"
  "v AND DSD_RXID_DMR_REST_LSN = 0 \<longleftrightarrow> \<not> bit v 5"
  "v AND DSD_RXID_DMR_SITE_TEXT = 0 \<longleftrightarrow> \<not> bit v 6"
  "v AND DSD_RXID_DMR_BRAND = 0 \<longleftrightarrow> \<not> bit v 7"
  "v AND DSD_RXID_DMR_T3_SYSCODE = 0 \<longleftrightarrow> \<not> bit v 8"
  "v AND DSD_RXID_NXDN_LOCATION = 0 \<longleftrightarrow> \<not> bit v 9"
  "v AND DSD_RXID_NXDN_IDAS_AREA = 0 \<longleftrightarrow> \<not> bit v 10"
  "v AND DSD_RXID_NXDN_IDAS_SITE = 0 \<longleftrightarrow> \<not> bit v 11"
  "v AND DSD_RXID_NXDN_TYPED_SYSTEM = 0 \<longleftrightarrow> \<not> bit v 12"
  "v AND DSD_RXID_EDACS_SITE = 0 \<longleftrightarrow> \<not> bit v 13"
  "v AND DSD_RXID_EDACS_AREA = 0 \<longleftrightarrow> \<not> bit v 14"
  "v AND DSD_RXID_EDACS_SYSTEM = 0 \<longleftrightarrow> \<not> bit v 15"
  "v AND DSD_RXID_EDACS_CC_LCN = 0 \<longleftrightarrow> \<not> bit v 16"
  "v AND DSD_RXID_TETRA_NET = 0 \<longleftrightarrow> \<not> bit v 17"
  "v AND DSD_RXID_TETRA_LA = 0 \<longleftrightarrow> \<not> bit v 18"
  "v AND DSD_RXID_CC_FREQ = 0 \<longleftrightarrow> \<not> bit v 19"
  "v AND DSD_RXID_DMR_XPT_FREE_LCN = 0 \<longleftrightarrow> \<not> bit v 20"
  "v AND DSD_RXID_DMR_VENDOR = 0 \<longleftrightarrow> \<not> bit v 21"
  by (simp_all only: rxid_parts and_exp_eq_0_iff_not_bit)

lemma part_bit [part_bits]:
  "bit DSD_RXID_ACCESS j \<longleftrightarrow> j = 0"
  "bit DSD_RXID_P25_WACN j \<longleftrightarrow> j = 1"
  "bit DSD_RXID_P25_SYSID j \<longleftrightarrow> j = 2"
  "bit DSD_RXID_P25_SITE j \<longleftrightarrow> j = 3"
  "bit DSD_RXID_P25_LRA j \<longleftrightarrow> j = 4"
  "bit DSD_RXID_DMR_REST_LSN j \<longleftrightarrow> j = 5"
  "bit DSD_RXID_DMR_SITE_TEXT j \<longleftrightarrow> j = 6"
  "bit DSD_RXID_DMR_BRAND j \<longleftrightarrow> j = 7"
  "bit DSD_RXID_DMR_T3_SYSCODE j \<longleftrightarrow> j = 8"
  "bit DSD_RXID_NXDN_LOCATION j \<longleftrightarrow> j = 9"
  "bit DSD_RXID_NXDN_IDAS_AREA j \<longleftrightarrow> j = 10"
  "bit DSD_RXID_NXDN_IDAS_SITE j \<longleftrightarrow> j = 11"
  "bit DSD_RXID_NXDN_TYPED_SYSTEM j \<longleftrightarrow> j = 12"
  "bit DSD_RXID_EDACS_SITE j \<longleftrightarrow> j = 13"
  "bit DSD_RXID_EDACS_AREA j \<longleftrightarrow> j = 14"
  "bit DSD_RXID_EDACS_SYSTEM j \<longleftrightarrow> j = 15"
  "bit DSD_RXID_EDACS_CC_LCN j \<longleftrightarrow> j = 16"
  "bit DSD_RXID_TETRA_NET j \<longleftrightarrow> j = 17"
  "bit DSD_RXID_TETRA_LA j \<longleftrightarrow> j = 18"
  "bit DSD_RXID_CC_FREQ j \<longleftrightarrow> j = 19"
  "bit DSD_RXID_DMR_XPT_FREE_LCN j \<longleftrightarrow> j = 20"
  "bit DSD_RXID_DMR_VENDOR j \<longleftrightarrow> j = 21"
  by (simp_all only: rxid_parts bit_exp_iff possible_bit_word) auto

lemma part_nonzero [part_bits]:
  "DSD_RXID_ACCESS \<noteq> 0"
  "DSD_RXID_P25_WACN \<noteq> 0"
  "DSD_RXID_P25_SYSID \<noteq> 0"
  "DSD_RXID_P25_SITE \<noteq> 0"
  "DSD_RXID_P25_LRA \<noteq> 0"
  "DSD_RXID_DMR_REST_LSN \<noteq> 0"
  "DSD_RXID_DMR_SITE_TEXT \<noteq> 0"
  "DSD_RXID_DMR_BRAND \<noteq> 0"
  "DSD_RXID_DMR_T3_SYSCODE \<noteq> 0"
  "DSD_RXID_NXDN_LOCATION \<noteq> 0"
  "DSD_RXID_NXDN_IDAS_AREA \<noteq> 0"
  "DSD_RXID_NXDN_IDAS_SITE \<noteq> 0"
  "DSD_RXID_NXDN_TYPED_SYSTEM \<noteq> 0"
  "DSD_RXID_EDACS_SITE \<noteq> 0"
  "DSD_RXID_EDACS_AREA \<noteq> 0"
  "DSD_RXID_EDACS_SYSTEM \<noteq> 0"
  "DSD_RXID_EDACS_CC_LCN \<noteq> 0"
  "DSD_RXID_TETRA_NET \<noteq> 0"
  "DSD_RXID_TETRA_LA \<noteq> 0"
  "DSD_RXID_CC_FREQ \<noteq> 0"
  "DSD_RXID_DMR_XPT_FREE_LCN \<noteq> 0"
  "DSD_RXID_DMR_VENDOR \<noteq> 0"
  by (simp_all add: rxid_parts)

lemma part_within [part_bits]:
  "within DSD_RXID_ACCESS m \<longleftrightarrow> bit m 0"
  "within DSD_RXID_P25_WACN m \<longleftrightarrow> bit m 1"
  "within DSD_RXID_P25_SYSID m \<longleftrightarrow> bit m 2"
  "within DSD_RXID_P25_SITE m \<longleftrightarrow> bit m 3"
  "within DSD_RXID_P25_LRA m \<longleftrightarrow> bit m 4"
  "within DSD_RXID_DMR_REST_LSN m \<longleftrightarrow> bit m 5"
  "within DSD_RXID_DMR_SITE_TEXT m \<longleftrightarrow> bit m 6"
  "within DSD_RXID_DMR_BRAND m \<longleftrightarrow> bit m 7"
  "within DSD_RXID_DMR_T3_SYSCODE m \<longleftrightarrow> bit m 8"
  "within DSD_RXID_NXDN_LOCATION m \<longleftrightarrow> bit m 9"
  "within DSD_RXID_NXDN_IDAS_AREA m \<longleftrightarrow> bit m 10"
  "within DSD_RXID_NXDN_IDAS_SITE m \<longleftrightarrow> bit m 11"
  "within DSD_RXID_NXDN_TYPED_SYSTEM m \<longleftrightarrow> bit m 12"
  "within DSD_RXID_EDACS_SITE m \<longleftrightarrow> bit m 13"
  "within DSD_RXID_EDACS_AREA m \<longleftrightarrow> bit m 14"
  "within DSD_RXID_EDACS_SYSTEM m \<longleftrightarrow> bit m 15"
  "within DSD_RXID_EDACS_CC_LCN m \<longleftrightarrow> bit m 16"
  "within DSD_RXID_TETRA_NET m \<longleftrightarrow> bit m 17"
  "within DSD_RXID_TETRA_LA m \<longleftrightarrow> bit m 18"
  "within DSD_RXID_CC_FREQ m \<longleftrightarrow> bit m 19"
  "within DSD_RXID_DMR_XPT_FREE_LCN m \<longleftrightarrow> bit m 20"
  "within DSD_RXID_DMR_VENDOR m \<longleftrightarrow> bit m 21"
  by (simp_all add: within_def and.commute [of _ "NOT m"] part_and bit_not_iff)

lemma within_zero [simp]: "within 0 m"
  by (simp add: within_def)

lemma within_or: "within (v OR ps) m \<longleftrightarrow> within v m \<and> within ps m"
  by (auto simp: within_def bit_eq_iff bit_simps)

lemma within_without: "within v m \<Longrightarrow> within (without v ps) m"
  by (auto simp: within_def without_def bit_eq_iff bit_simps)

lemma within_without_both: "within f v \<Longrightarrow> within (without f ps) (without v ps)"
  by (auto simp: within_def without_def bit_eq_iff bit_simps)

lemma within_without_disjoint: "within f v \<Longrightarrow> v AND ps = 0 \<Longrightarrow> within f (without v ps)"
  by (auto simp: within_def without_def bit_eq_iff bit_simps)

lemma within_or_right: "within f v \<Longrightarrow> within f (v OR ps)"
  by (auto simp: within_def bit_eq_iff bit_simps)

lemma within_or_both: "within f v \<Longrightarrow> within (f OR ps) (v OR ps)"
  by (auto simp: within_def bit_eq_iff bit_simps)

lemma without_none: "v AND ps = 0 \<Longrightarrow> without v ps = v"
  by (auto simp: without_def bit_eq_iff bit_simps)

lemma within_disjoint: "within v m \<Longrightarrow> m AND q = 0 \<Longrightarrow> v AND q = 0"
  by (auto simp: within_def bit_eq_iff bit_simps)

text \<open>The three ways the code changes the flags, as record updates.\<close>

lemma set_fields: "rxid_set ps r = r\<lparr>valid := valid r OR ps, fresh := fresh r OR ps\<rparr>"
  by (simp add: rxid_set_def)

lemma drop_fields: "rxid_drop ps r = r\<lparr>valid := without (valid r) ps, fresh := without (fresh r) ps\<rparr>"
  by (simp add: rxid_drop_def without_def)

lemma invalidate_fields:
  "rxid_invalidate ps r =
     r\<lparr>valid := without (valid r) ps,
       fresh := (if valid r AND ps = 0 then fresh r else without (fresh r) ps),
       epoch := (if valid r AND ps = 0 then epoch r else epoch r + 1)\<rparr>"
  by (simp add: rxid_invalidate_def drop_fields without_none)

lemmas flag_fields = set_fields drop_fields invalidate_fields

section \<open>Invariant\<close>

text \<open>The parts a record of a family may hold.\<close>

definition family_parts :: "rxid_family \<Rightarrow> u32" where
  "family_parts fam =
     (if fam = DSD_RXID_FAMILY_NONE then 0
      else rxid_system_parts fam OR DSD_RXID_ACCESS OR DSD_RXID_CC_FREQ OR
           (if fam = DSD_RXID_FAMILY_TETRA then DSD_RXID_TETRA_NET else 0))"

definition p25_ok :: "received_identity \<Rightarrow> bool" where
  "p25_ok r \<longleftrightarrow>
     (rxid_has (DSD_RXID_P25_WACN OR DSD_RXID_P25_SITE OR DSD_RXID_P25_LRA) r \<longrightarrow> rxid_has DSD_RXID_P25_SYSID r) \<and>
     (rxid_has DSD_RXID_P25_SYSID r \<longrightarrow> p25_sysid r \<noteq> 0 \<and> p25_sysid r < 4096)"

definition dmr_ok :: "received_identity \<Rightarrow> bool" where
  "dmr_ok r \<longleftrightarrow>
     (rxid_has DSD_RXID_DMR_REST_LSN r \<longrightarrow> dmr_trunk r = DSD_RXID_DMR_TRUNK_CAPACITY_PLUS) \<and>
     (rxid_has DSD_RXID_DMR_T3_SYSCODE r \<longrightarrow> dmr_trunk r = DSD_RXID_DMR_TRUNK_TIER3) \<and>
     (rxid_has DSD_RXID_DMR_XPT_FREE_LCN r \<longrightarrow> dmr_trunk r = DSD_RXID_DMR_TRUNK_XPT) \<and>
     length (dmr_site_text r) < 64 \<and> length (dmr_brand r) < 32"

definition nxdn_ok :: "received_identity \<Rightarrow> bool" where
  "nxdn_ok r \<longleftrightarrow>
     (rxid_has RXID_NXDN_TYPE_D r \<longrightarrow> \<not> rxid_has (DSD_RXID_NXDN_LOCATION OR DSD_RXID_ACCESS) r) \<and>
     (rxid_has DSD_RXID_NXDN_IDAS_SITE r \<and> rxid_has DSD_RXID_NXDN_TYPED_SYSTEM r \<longrightarrow>
        nxdn_idas_site_code r = nxdn_typed_site r)"

definition tetra_ok :: "received_identity \<Rightarrow> bool" where
  "tetra_ok r \<longleftrightarrow> (rxid_has DSD_RXID_TETRA_LA r \<longrightarrow> rxid_has DSD_RXID_TETRA_NET r)"

definition flags_ok :: "received_identity \<Rightarrow> bool" where
  "flags_ok r \<longleftrightarrow> within (fresh r) (valid r) \<and> within (valid r) (family_parts (family r)) \<and>
     family r \<noteq> DSD_RXID_FAMILY_OTHER"

definition rxid_ok :: "received_identity \<Rightarrow> bool" where
  "rxid_ok r \<longleftrightarrow> flags_ok r \<and> p25_ok r \<and> dmr_ok r \<and> nxdn_ok r \<and> tetra_ok r"

lemmas ok_defs = p25_ok_def dmr_ok_def nxdn_ok_def tetra_ok_def flags_ok_def rxid_has_def

lemma ok_zero: "rxid_ok (zero_identity\<lparr>epoch := e, family := fam\<rparr>)" if "fam \<noteq> DSD_RXID_FAMILY_OTHER"
  using that by (simp add: rxid_ok_def ok_defs zero_identity_def)

lemma ok_clear: "rxid_ok (rxid_clear r)"
  using ok_zero [of DSD_RXID_FAMILY_NONE "epoch r + 1"] by (simp add: rxid_clear_def zero_identity_def)

lemma ok_none: "rxid_ok r \<Longrightarrow> family r = DSD_RXID_FAMILY_NONE \<Longrightarrow> valid r = 0 \<and> fresh r = 0"
  by (auto simp: rxid_ok_def flags_ok_def within_def family_parts_def)

lemma ok_start:
  assumes "rxid_ok r" "family r = DSD_RXID_FAMILY_NONE" "fam \<noteq> DSD_RXID_FAMILY_OTHER"
  shows "rxid_ok (r\<lparr>family := fam\<rparr>)"
proof -
  have z: "valid r = 0" "fresh r = 0" using ok_none [OF assms(1,2)] by simp_all
  have "length (dmr_site_text r) < 64 \<and> length (dmr_brand r) < 32" using assms(1) by (simp add: rxid_ok_def dmr_ok_def)
  then show ?thesis using assms(3) by (simp add: rxid_ok_def ok_defs z)
qed

text \<open>The record a family's note goes into.\<close>

lemma for_cases:
  assumes "rxid_for fam s = Some r"
  obtains (same) "r = rx_id s" "family (rx_id s) = fam"
    | (start) "r = (rx_id s)\<lparr>family := fam\<rparr>" "family (rx_id s) = DSD_RXID_FAMILY_NONE"
    | (replace) "r = (rxid_clear (rx_id s))\<lparr>family := fam\<rparr>"
proof -
  have "r = (if family (rx_id s) \<noteq> fam
      then (if family (rx_id s) \<noteq> DSD_RXID_FAMILY_NONE then rxid_clear (rx_id s) else rx_id s)\<lparr>family := fam\<rparr>
      else rx_id s)"
    using assms by (simp add: rxid_for_def rxid_record_def split: if_split_asm)
  then show thesis
    using that by (cases "family (rx_id s) = fam"; cases "family (rx_id s) = DSD_RXID_FAMILY_NONE") (simp_all only: if_True if_False not_True_eq_False not_False_eq_True)
qed

lemma for_family: "rxid_for fam s = Some r \<Longrightarrow> fam \<noteq> DSD_RXID_FAMILY_NONE \<and> fam \<noteq> DSD_RXID_FAMILY_OTHER"
  by (simp add: rxid_for_def split: if_split_asm)

lemma for_ok:
  assumes ok: "rxid_ok (rx_id s)" and r: "rxid_for fam s = Some r"
  shows "rxid_ok r \<and> family r = fam"
  using r
proof (cases rule: for_cases)
  case start
  then show ?thesis using ok_start [OF ok] for_family [OF r] by simp
next
  case replace
  then show ?thesis using ok_zero [of fam "epoch (rx_id s) + 1"] for_family [OF r] by (simp add: rxid_clear_def)
qed (use ok in simp)

text \<open>Dropping and setting parts of a record.\<close>

lemma ok_invalidate_flags:
  "flags_ok r \<Longrightarrow> flags_ok (rxid_invalidate ps r)"
  by (auto simp: flags_ok_def invalidate_fields within_without within_without_both without_none)

lemma ok_drop_flags: "flags_ok r \<Longrightarrow> flags_ok (rxid_drop ps r)"
  by (auto simp: flags_ok_def drop_fields within_without within_without_both)

lemma ok_set_flags: "flags_ok r \<Longrightarrow> within ps (family_parts (family r)) \<Longrightarrow> flags_ok (rxid_set ps r)"
  by (simp add: flags_ok_def set_fields within_or [of "valid r"] within_or_both)


lemma note_ok:
  "rxid_ok (rx_id s) \<Longrightarrow> (\<And>r. lookup s = Some r \<Longrightarrow> rxid_ok (f r)) \<Longrightarrow> rxid_ok (rx_id (rxid_note lookup f s))"
  by (simp add: rxid_note_def split: option.split)

lemma bit_without: "bit (without v ps) i \<longleftrightarrow> bit v i \<and> \<not> bit ps i"
  by (auto simp: without_def bit_simps dest: bit_imp_le_length)

lemmas part_simps = part_bits or_and_zero and_or_zero bit_or_iff bit_without family_parts_def
  RXID_P25_SYSTEM_def RXID_NXDN_TYPE_D_def RXID_DMR_TRUNK_PARTS_def RXID_EDACS_PARTS_def

text \<open>A record of one family holds no part of another.\<close>

lemma within_bit: "within v m \<Longrightarrow> \<not> bit m i \<Longrightarrow> \<not> bit v i"
  using bit_imp_le_length [of v i] by (auto simp: within_def bit_eq_iff bit_simps)

text \<open>The other fields do not matter to the flags.\<close>

lemma flags_fields [simp]:
  "flags_ok (r\<lparr>epoch := v0\<rparr>) = flags_ok r"
  "flags_ok (r\<lparr>p25_wacn := v1\<rparr>) = flags_ok r"
  "flags_ok (r\<lparr>nxdn_sys := v2\<rparr>) = flags_ok r"
  "flags_ok (r\<lparr>nxdn_typed_sys := v3\<rparr>) = flags_ok r"
  "flags_ok (r\<lparr>cc_freq_hz := v4\<rparr>) = flags_ok r"
  "flags_ok (r\<lparr>access := v5\<rparr>) = flags_ok r"
  "flags_ok (r\<lparr>p25_sysid := v6\<rparr>) = flags_ok r"
  "flags_ok (r\<lparr>nxdn_site := v7\<rparr>) = flags_ok r"
  "flags_ok (r\<lparr>dmr_rest_lsn := v8\<rparr>) = flags_ok r"
  "flags_ok (r\<lparr>dmr_t3_syscode := v9\<rparr>) = flags_ok r"
  "flags_ok (r\<lparr>edacs_site := v10\<rparr>) = flags_ok r"
  "flags_ok (r\<lparr>edacs_area := v11\<rparr>) = flags_ok r"
  "flags_ok (r\<lparr>edacs_system := v12\<rparr>) = flags_ok r"
  "flags_ok (r\<lparr>edacs_cc_lcn := v13\<rparr>) = flags_ok r"
  "flags_ok (r\<lparr>tetra_mcc := v14\<rparr>) = flags_ok r"
  "flags_ok (r\<lparr>tetra_mnc := v15\<rparr>) = flags_ok r"
  "flags_ok (r\<lparr>tetra_la := v16\<rparr>) = flags_ok r"
  "flags_ok (r\<lparr>access_kind := v17\<rparr>) = flags_ok r"
  "flags_ok (r\<lparr>p25_rfss := v18\<rparr>) = flags_ok r"
  "flags_ok (r\<lparr>p25_site := v19\<rparr>) = flags_ok r"
  "flags_ok (r\<lparr>p25_lra := v20\<rparr>) = flags_ok r"
  "flags_ok (r\<lparr>nxdn_category := v21\<rparr>) = flags_ok r"
  "flags_ok (r\<lparr>nxdn_idas_area := v22\<rparr>) = flags_ok r"
  "flags_ok (r\<lparr>nxdn_idas_site_type := v23\<rparr>) = flags_ok r"
  "flags_ok (r\<lparr>nxdn_idas_site_code := v24\<rparr>) = flags_ok r"
  "flags_ok (r\<lparr>nxdn_typed_site := v25\<rparr>) = flags_ok r"
  "flags_ok (r\<lparr>dmr_xpt_free_lcn := v26\<rparr>) = flags_ok r"
  "flags_ok (r\<lparr>dmr_trunk := v27\<rparr>) = flags_ok r"
  "flags_ok (r\<lparr>dmr_vendor := v28\<rparr>) = flags_ok r"
  "flags_ok (r\<lparr>edacs_ea_mode := v29\<rparr>) = flags_ok r"
  "flags_ok (r\<lparr>tetra_colour := v30\<rparr>) = flags_ok r"
  "flags_ok (r\<lparr>dmr_site_text := v31\<rparr>) = flags_ok r"
  "flags_ok (r\<lparr>dmr_brand := v32\<rparr>) = flags_ok r"
  by (simp_all add: flags_ok_def)

lemma flags_if [simp]: "flags_ok r \<Longrightarrow> flags_ok (if c then rxid_invalidate ps r else r)"
  by (simp add: ok_invalidate_flags)

lemma family_if [simp]: "family (if c then rxid_invalidate ps r else r) = family r"
  by (simp add: invalidate_fields)

lemma family_flags [simp]: "family (rxid_invalidate ps r) = family r" "family (rxid_drop ps r) = family r"
  "family (rxid_set ps r) = family r"
  by (simp_all add: flag_fields)

definition texts_ok :: "received_identity \<Rightarrow> bool" where
  "texts_ok r \<longleftrightarrow> length (dmr_site_text r) < 64 \<and> length (dmr_brand r) < 32"

lemma foreign_part: "flags_ok r \<Longrightarrow> \<not> bit (family_parts (family r)) i \<Longrightarrow> \<not> bit (valid r) i"
  using within_bit [of "valid r" "family_parts (family r)" i] by (simp add: flags_ok_def)

lemma ok_intro:
  assumes f: "flags_ok r" and t: "texts_ok r"
    and "family r = DSD_RXID_FAMILY_P25 \<Longrightarrow> p25_ok r" "family r = DSD_RXID_FAMILY_DMR \<Longrightarrow> dmr_ok r"
    and "family r = DSD_RXID_FAMILY_NXDN \<Longrightarrow> nxdn_ok r" "family r = DSD_RXID_FAMILY_TETRA \<Longrightarrow> tetra_ok r"
  shows "rxid_ok r"
proof -
  note nb = foreign_part [OF f]
  have "p25_ok r" if "family r \<noteq> DSD_RXID_FAMILY_P25"
    using that nb [of 2] nb [of 1] nb [of 3] nb [of 4] by (cases "family r") (simp_all add: p25_ok_def rxid_has_def part_simps)
  moreover have "dmr_ok r" if "family r \<noteq> DSD_RXID_FAMILY_DMR"
    using that nb [of 5] nb [of 8] nb [of 20] t by (cases "family r") (simp_all add: dmr_ok_def texts_ok_def rxid_has_def part_simps)
  moreover have "nxdn_ok r" if "family r \<noteq> DSD_RXID_FAMILY_NXDN"
    using that nb [of 10] nb [of 11] nb [of 12] by (cases "family r") (simp_all add: nxdn_ok_def rxid_has_def part_simps)
  moreover have "tetra_ok r" if "family r \<noteq> DSD_RXID_FAMILY_TETRA"
    using that nb [of 18] by (cases "family r") (simp_all add: tetra_ok_def rxid_has_def part_simps)
  ultimately show ?thesis unfolding rxid_ok_def using assms by blast
qed

lemma ok_flags: "rxid_ok r \<Longrightarrow> flags_ok r" and ok_texts: "rxid_ok r \<Longrightarrow> texts_ok r"
  by (simp_all add: rxid_ok_def dmr_ok_def texts_ok_def)

lemmas flag_simps = ok_set_flags ok_drop_flags ok_invalidate_flags ok_flags within_or part_within part_simps

lemmas ok_simps = rxid_ok_def p25_ok_def dmr_ok_def nxdn_ok_def tetra_ok_def texts_ok_def rxid_has_def flag_fields part_simps

text \<open>The lookups hand out well-formed records.\<close>

lemma note_for_ok:
  "rxid_ok (rx_id s) \<Longrightarrow> (\<And>r. rxid_ok r \<Longrightarrow> family r = fam \<Longrightarrow> rxid_ok (f r)) \<Longrightarrow>
   rxid_ok (rx_id (rxid_note (rxid_for fam) f s))"
  using for_ok by (blast intro: note_ok)

lemma nxdn_lookup_ok:
  assumes "rxid_ok (rx_id s)" "rxid_nxdn d s = Some r"
  shows "rxid_ok r \<and> family r = DSD_RXID_FAMILY_NXDN \<and>
    (if d then \<not> rxid_has (DSD_RXID_NXDN_LOCATION OR DSD_RXID_ACCESS) r else \<not> rxid_has RXID_NXDN_TYPE_D r)"
proof -
  obtain q where q: "rxid_for DSD_RXID_FAMILY_NXDN s = Some q"
    and r: "r = (if d \<and> rxid_has (DSD_RXID_NXDN_LOCATION OR DSD_RXID_ACCESS) q
       then rxid_invalidate (DSD_RXID_NXDN_LOCATION OR DSD_RXID_ACCESS OR DSD_RXID_CC_FREQ) q
       else if \<not> d \<and> rxid_has RXID_NXDN_TYPE_D q then rxid_invalidate (RXID_NXDN_TYPE_D OR DSD_RXID_CC_FREQ) q else q)"
    using assms(2) by (auto simp: rxid_nxdn_def)
  have ok: "rxid_ok q" "family q = DSD_RXID_FAMILY_NXDN" using for_ok [OF assms(1) q] by auto
  have "rxid_ok r"
    by (rule ok_intro) (use ok in \<open>simp_all add: r flag_simps\<close>, simp_all add: ok_simps)
  then show ?thesis using ok(2) by (simp add: r rxid_has_def invalidate_fields part_simps)
qed

lemma dmr_lookup_ok:
  assumes "rxid_ok (rx_id s)" "rxid_dmr t s = Some r"
  shows "rxid_ok r \<and> family r = DSD_RXID_FAMILY_DMR \<and> (t \<noteq> DSD_RXID_DMR_TRUNK_NONE \<longrightarrow> dmr_trunk r = t)"
proof -
  obtain q where q: "rxid_for DSD_RXID_FAMILY_DMR s = Some q"
    and r: "r = (if t = DSD_RXID_DMR_TRUNK_NONE then q
       else (if valid q AND RXID_DMR_TRUNK_PARTS \<noteq> 0 \<and> dmr_trunk q \<noteq> t
             then rxid_invalidate (RXID_DMR_TRUNK_PARTS OR DSD_RXID_CC_FREQ) q else q)\<lparr>dmr_trunk := t\<rparr>)"
    using assms(2) by (auto simp: rxid_dmr_def)
  have ok: "rxid_ok q" "family q = DSD_RXID_FAMILY_DMR" using for_ok [OF assms(1) q] by auto
  have "rxid_ok r"
    by (rule ok_intro; cases "t = DSD_RXID_DMR_TRUNK_NONE"; cases "dmr_trunk q = t")
      (use ok in \<open>simp_all add: r flag_simps\<close>, simp_all add: ok_simps)
  then show ?thesis using ok(2) by (simp add: r)
qed

lemma edacs_lookup_ok:
  assumes "rxid_ok (rx_id s)" "rxid_edacs s = Some r"
  shows "rxid_ok r \<and> family r = DSD_RXID_FAMILY_EDACS"
proof -
  obtain q where q: "rxid_for DSD_RXID_FAMILY_EDACS s = Some q"
    and r: "r = (if rxid_has RXID_EDACS_PARTS q \<and> edacs_ea_mode q \<noteq> word_of_int (ea_mode s)
        then rxid_invalidate (RXID_EDACS_PARTS OR DSD_RXID_CC_FREQ) q else q)\<lparr>edacs_ea_mode := word_of_int (ea_mode s)\<rparr>"
    using assms(2) by (auto simp: rxid_edacs_def)
  have ok: "rxid_ok q" "family q = DSD_RXID_FAMILY_EDACS" using for_ok [OF assms(1) q] by auto
  have "rxid_ok r"
    by (rule ok_intro) (use ok in \<open>simp_all add: r flag_simps\<close>, simp_all add: ok_simps)
  then show ?thesis using ok(2) by (simp add: r)
qed

lemma tetra_lookup_ok:
  "rxid_ok (rx_id s) \<Longrightarrow> rxid_tetra s = Some r \<Longrightarrow> rxid_ok r \<and> family r = DSD_RXID_FAMILY_TETRA"
  by (simp add: rxid_tetra_def rxid_record_def split: if_split_asm option.split_asm)


lemma note_nxdn_ok:
  "rxid_ok (rx_id s) \<Longrightarrow>
   (\<And>r. rxid_ok r \<Longrightarrow> family r = DSD_RXID_FAMILY_NXDN \<Longrightarrow>
     (if d then \<not> rxid_has (DSD_RXID_NXDN_LOCATION OR DSD_RXID_ACCESS) r else \<not> rxid_has RXID_NXDN_TYPE_D r) \<Longrightarrow>
     rxid_ok (f r)) \<Longrightarrow> rxid_ok (rx_id (rxid_note (rxid_nxdn d) f s))"
  using nxdn_lookup_ok by (blast intro: note_ok)

lemma note_dmr_ok:
  "rxid_ok (rx_id s) \<Longrightarrow>
   (\<And>r. rxid_ok r \<Longrightarrow> family r = DSD_RXID_FAMILY_DMR \<Longrightarrow> (t \<noteq> DSD_RXID_DMR_TRUNK_NONE \<longrightarrow> dmr_trunk r = t) \<Longrightarrow>
     rxid_ok (f r)) \<Longrightarrow> rxid_ok (rx_id (rxid_note (rxid_dmr t) f s))"
  using dmr_lookup_ok by (blast intro: note_ok)

lemma note_edacs_ok:
  "rxid_ok (rx_id s) \<Longrightarrow> (\<And>r. rxid_ok r \<Longrightarrow> family r = DSD_RXID_FAMILY_EDACS \<Longrightarrow> rxid_ok (f r)) \<Longrightarrow>
   rxid_ok (rx_id (rxid_note rxid_edacs f s))"
  using edacs_lookup_ok by (blast intro: note_ok)

lemma note_tetra_ok:
  "rxid_ok (rx_id s) \<Longrightarrow> (\<And>r. rxid_ok r \<Longrightarrow> family r = DSD_RXID_FAMILY_TETRA \<Longrightarrow> rxid_ok (f r)) \<Longrightarrow>
   rxid_ok (rx_id (rxid_note rxid_tetra f s))"
  using tetra_lookup_ok by (blast intro: note_ok)

section \<open>Preservation\<close>

lemma invalidate_system_ok:
  assumes "rxid_ok r"
  shows "rxid_ok (rxid_invalidate (rxid_system_parts (family r) OR (if w then DSD_RXID_ACCESS else 0)) r)"
  by (rule ok_intro) (use assms in \<open>simp_all add: flag_simps\<close>, simp_all add: ok_simps)

lemma drop_system_ok:
  assumes "rxid_ok r"
  shows "rxid_ok ((rxid_drop (rxid_system_parts (family r)) r)\<lparr>epoch := e\<rparr>)"
  by (rule ok_intro) (use assms in \<open>simp_all add: flag_simps\<close>, simp_all add: ok_simps)

lemma set_access_ok:
  assumes "rxid_ok r" "family r \<noteq> DSD_RXID_FAMILY_NONE" "\<not> rxid_has RXID_NXDN_TYPE_D r"
  shows "rxid_ok (rxid_set DSD_RXID_ACCESS (r\<lparr>access_kind := k, access := a\<rparr>))"
  by (rule ok_intro) (use assms in \<open>simp_all add: flag_simps\<close>, simp_all add: ok_simps)

lemma access_ok:
  assumes ok: "rxid_ok (rx_id s)"
  shows "rxid_ok (rx_id (dsd_rxid_note_access fam k a s))"
proof -
  have body: "rxid_ok (let r = (if rxid_has DSD_RXID_ACCESS r \<and> (access_kind r \<noteq> k \<or> access r \<noteq> a)
      then (rxid_drop (rxid_system_parts (family r)) r)\<lparr>epoch := epoch r + 1\<rparr> else r)
    in rxid_set DSD_RXID_ACCESS (r\<lparr>access_kind := k, access := a\<rparr>))"
    if "rxid_ok r" "family r \<noteq> DSD_RXID_FAMILY_NONE" "\<not> rxid_has RXID_NXDN_TYPE_D r" for r
    using that drop_system_ok [OF that(1), of "epoch r + 1"]
    by (auto simp: Let_def rxid_has_def drop_fields part_simps intro!: set_access_ok)
  have none: "\<not> rxid_has RXID_NXDN_TYPE_D r" if "rxid_ok r" "family r \<noteq> DSD_RXID_FAMILY_NXDN" for r
    using that(2) foreign_part [OF ok_flags [OF that(1)], of 10] foreign_part [OF ok_flags [OF that(1)], of 11]
      foreign_part [OF ok_flags [OF that(1)], of 12] by (cases "family r") (simp_all add: rxid_has_def part_simps)
  show ?thesis
  proof (cases "fam = DSD_RXID_FAMILY_NXDN")
    case True
    have look: "rxid_ok (rx_id (rxid_note (rxid_nxdn False) f s))"
      if "\<And>r. rxid_ok r \<Longrightarrow> family r \<noteq> DSD_RXID_FAMILY_NONE \<Longrightarrow> \<not> rxid_has RXID_NXDN_TYPE_D r \<Longrightarrow> rxid_ok (f r)" for f
      by (rule note_nxdn_ok [OF ok]) (simp add: that)
    show ?thesis unfolding dsd_rxid_note_access_def using ok look [OF body] True by simp
  next
    case False
    have look: "rxid_ok (rx_id (rxid_note (rxid_for fam) f s))"
      if "\<And>r. rxid_ok r \<Longrightarrow> family r \<noteq> DSD_RXID_FAMILY_NONE \<Longrightarrow> \<not> rxid_has RXID_NXDN_TYPE_D r \<Longrightarrow> rxid_ok (f r)" for f
    proof (rule note_ok [OF ok])
      fix r
      assume r: "rxid_for fam s = Some r"
      then have "rxid_ok r" "family r = fam" using for_ok [OF ok r] by simp_all
      then show "rxid_ok (f r)" using that none False for_family [OF r] by simp
    qed
    show ?thesis unfolding dsd_rxid_note_access_def using ok look [OF body] False by simp
  qed
qed

lemma sysid_mask: "(y AND 0xFFF :: u16) < 4096"
  using and_mask_less' [of 12 y] by (simp add: mask_eq_exp_minus_1)

lemma network_ok: "rxid_ok (rx_id s) \<Longrightarrow> rxid_ok (rx_id (dsd_rxid_note_p25_network w y s))"
  unfolding dsd_rxid_note_p25_network_def Let_def
  by (simp, intro impI, rule note_for_ok, assumption, rule ok_intro)
    (simp add: flag_simps, simp_all add: ok_simps sysid_mask)

lemma p25_bound_ok:
  assumes "rxid_ok (rx_id s)" "rxid_p25_bound y s = Some (b, r)" "y < 4096"
  shows "rxid_ok r \<and> family r = DSD_RXID_FAMILY_P25 \<and> (b \<longrightarrow> rxid_has DSD_RXID_P25_SYSID r)"
proof -
  have y: "y \<noteq> 0" using assms(2) by (auto simp: rxid_p25_bound_def)
  obtain q where q: "rxid_for DSD_RXID_FAMILY_P25 s = Some q"
    and r: "(if rxid_has DSD_RXID_P25_SYSID q
        then if p25_sysid q \<noteq> y then (False, q) else (True, rxid_set DSD_RXID_P25_SYSID q)
        else (True, rxid_set DSD_RXID_P25_SYSID (q\<lparr>p25_sysid := y\<rparr>))) = (b, r)"
    using assms(2) unfolding rxid_p25_bound_def if_not_P [OF y] map_option_eq_Some by blast
  have ok: "rxid_ok q" "family q = DSD_RXID_FAMILY_P25" using for_ok [OF assms(1) q] by auto
  have "rxid_ok (rxid_set DSD_RXID_P25_SYSID (q\<lparr>p25_sysid := y\<rparr>))"
    by (rule ok_intro) (use ok y assms(3) in \<open>simp_all add: flag_simps\<close>, simp_all add: ok_simps)
  moreover have "rxid_ok (rxid_set DSD_RXID_P25_SYSID q)" if "rxid_has DSD_RXID_P25_SYSID q"
    by (rule ok_intro) (use ok that in \<open>simp_all add: flag_simps\<close>, simp_all add: ok_simps)
  moreover have "rxid_has DSD_RXID_P25_SYSID (rxid_set DSD_RXID_P25_SYSID p)" for p
    by (simp add: rxid_has_def set_fields part_simps)
  ultimately show ?thesis using ok r by (auto split: if_split_asm)
qed

lemma site_ok: "rxid_ok (rx_id s) \<Longrightarrow> rxid_ok (rx_id (dsd_rxid_note_p25_site y f t s))"
proof (cases "rxid_p25_bound (y AND 0xFFF) s")
  case (Some x)
  assume ok: "rxid_ok (rx_id s)"
  obtain b r where x: "x = (b, r)" by (cases x)
  have r: "rxid_ok r" "family r = DSD_RXID_FAMILY_P25" "b \<longrightarrow> rxid_has DSD_RXID_P25_SYSID r"
    using p25_bound_ok [OF ok Some [unfolded x] sysid_mask] by simp_all
  have "rxid_ok (rxid_set DSD_RXID_P25_SITE ((if c then rxid_invalidate
      (DSD_RXID_P25_SITE OR DSD_RXID_P25_LRA OR DSD_RXID_CC_FREQ) r else r)\<lparr>p25_rfss := f, p25_site := t\<rparr>))" if b for c
    by (rule ok_intro) (use r that in \<open>simp add: flag_simps\<close>, use r that in \<open>simp_all add: ok_simps\<close>)
  then show ?thesis using Some r(1) by (simp add: dsd_rxid_note_p25_site_def Let_def x)
qed (simp add: dsd_rxid_note_p25_site_def)

lemma lra_ok: "rxid_ok (rx_id s) \<Longrightarrow> rxid_ok (rx_id (dsd_rxid_note_p25_lra y l s))"
proof (cases "rxid_p25_bound (y AND 0xFFF) s")
  case (Some x)
  assume ok: "rxid_ok (rx_id s)"
  obtain b r where x: "x = (b, r)" by (cases x)
  have r: "rxid_ok r" "family r = DSD_RXID_FAMILY_P25" "b \<longrightarrow> rxid_has DSD_RXID_P25_SYSID r"
    using p25_bound_ok [OF ok Some [unfolded x] sysid_mask] by simp_all
  have "rxid_ok (rxid_set DSD_RXID_P25_LRA (r\<lparr>p25_lra := l\<rparr>))" if b
    by (rule ok_intro) (use r that in \<open>simp add: flag_simps\<close>, use r that in \<open>simp_all add: ok_simps\<close>)
  then show ?thesis using Some r(1) by (simp add: dsd_rxid_note_p25_lra_def x)
qed (simp add: dsd_rxid_note_p25_lra_def)

lemma rest_lsn_ok: "rxid_ok (rx_id s) \<Longrightarrow> rxid_ok (rx_id (dsd_rxid_note_dmr_rest_lsn n s))"
  unfolding dsd_rxid_note_dmr_rest_lsn_def Let_def
  by (rule note_dmr_ok, assumption, rule ok_intro)
    (simp add: flag_simps, simp_all add: ok_simps)

lemma site_text_ok: "rxid_ok (rx_id s) \<Longrightarrow> rxid_ok (rx_id (dsd_rxid_note_dmr_site_text n s))"
  unfolding dsd_rxid_note_dmr_site_text_def Let_def
  by (simp, intro impI, rule note_dmr_ok, assumption, rule ok_intro)
    (simp add: flag_simps, simp_all add: ok_simps rxid_copy_text_def min_less_iff_disj)

lemma brand_ok: "rxid_ok (rx_id s) \<Longrightarrow> rxid_ok (rx_id (dsd_rxid_note_dmr_brand n s))"
  unfolding dsd_rxid_note_dmr_brand_def Let_def
  by (simp, intro impI, rule note_dmr_ok, assumption, rule ok_intro)
    (simp add: flag_simps, simp_all add: ok_simps rxid_copy_text_def min_less_iff_disj)

lemma vendor_ok: "rxid_ok (rx_id s) \<Longrightarrow> rxid_ok (rx_id (dsd_rxid_note_dmr_vendor n s))"
  unfolding dsd_rxid_note_dmr_vendor_def Let_def
  by (simp, intro impI, rule note_for_ok, assumption, rule ok_intro)
    (simp add: flag_simps, simp_all add: ok_simps)

lemma syscode_ok: "rxid_ok (rx_id s) \<Longrightarrow> rxid_ok (rx_id (dsd_rxid_note_dmr_t3_syscode n s))"
  unfolding dsd_rxid_note_dmr_t3_syscode_def Let_def
  by (rule note_dmr_ok, assumption, rule ok_intro)
    (simp add: flag_simps, simp_all add: ok_simps)

lemma free_lcn_ok: "rxid_ok (rx_id s) \<Longrightarrow> rxid_ok (rx_id (dsd_rxid_note_dmr_xpt_free_lcn n s))"
  unfolding dsd_rxid_note_dmr_xpt_free_lcn_def Let_def
  by (rule note_dmr_ok, assumption, rule ok_intro)
    (simp add: flag_simps, simp_all add: ok_simps)

lemma location_ok: "rxid_ok (rx_id s) \<Longrightarrow> rxid_ok (rx_id (dsd_rxid_note_nxdn_location c y t s))"
  unfolding dsd_rxid_note_nxdn_location_def Let_def
  by (simp, intro impI, rule note_nxdn_ok, assumption, rule ok_intro)
    (simp add: flag_simps, simp_all add: ok_simps)

lemma idas_area_ok: "rxid_ok (rx_id s) \<Longrightarrow> rxid_ok (rx_id (dsd_rxid_note_nxdn_idas_area n s))"
  unfolding dsd_rxid_note_nxdn_idas_area_def Let_def
  by (rule note_nxdn_ok, assumption, rule ok_intro)
    (simp add: flag_simps, simp_all add: ok_simps)

lemma idas_site_ok: "rxid_ok (rx_id s) \<Longrightarrow> rxid_ok (rx_id (dsd_rxid_note_nxdn_idas_site n m s))"
  unfolding dsd_rxid_note_nxdn_idas_site_def Let_def
  by (simp, intro impI, rule note_nxdn_ok, assumption, rule ok_intro)
    (simp add: flag_simps, simp_all add: ok_simps)

lemma typed_system_ok: "rxid_ok (rx_id s) \<Longrightarrow> rxid_ok (rx_id (dsd_rxid_note_nxdn_typed_system n m s))"
  unfolding dsd_rxid_note_nxdn_typed_system_def Let_def
  by (rule note_nxdn_ok, assumption, rule ok_intro)
    (simp add: flag_simps, simp_all add: ok_simps)

lemma edacs_site_ok: "rxid_ok (rx_id s) \<Longrightarrow> rxid_ok (rx_id (dsd_rxid_note_edacs_site n s))"
  unfolding dsd_rxid_note_edacs_site_def Let_def
  by (rule note_edacs_ok, assumption, rule ok_intro)
    (simp add: flag_simps, simp_all add: ok_simps)

lemma edacs_area_ok: "rxid_ok (rx_id s) \<Longrightarrow> rxid_ok (rx_id (dsd_rxid_note_edacs_area n s))"
  unfolding dsd_rxid_note_edacs_area_def Let_def
  by (rule note_edacs_ok, assumption, rule ok_intro)
    (simp add: flag_simps, simp_all add: ok_simps)

lemma edacs_system_ok: "rxid_ok (rx_id s) \<Longrightarrow> rxid_ok (rx_id (dsd_rxid_note_edacs_system n s))"
  unfolding dsd_rxid_note_edacs_system_def Let_def
  by (rule note_edacs_ok, assumption, rule ok_intro)
    (simp add: flag_simps, simp_all add: ok_simps)

lemma edacs_lcn_ok: "rxid_ok (rx_id s) \<Longrightarrow> rxid_ok (rx_id (dsd_rxid_note_edacs_cc_lcn n s))"
  unfolding dsd_rxid_note_edacs_cc_lcn_def Let_def
  by (rule note_edacs_ok, assumption, rule ok_intro)
    (simp add: flag_simps, simp_all add: ok_simps)

lemma tetra_cell_ok: "rxid_ok (rx_id s) \<Longrightarrow> rxid_ok (rx_id (dsd_rxid_note_tetra_cell n m k s))"
  unfolding dsd_rxid_note_tetra_cell_def Let_def
  by (rule note_for_ok, assumption, rule ok_intro)
    (simp add: flag_simps, simp_all add: ok_simps)

lemma tetra_la_ok: "rxid_ok (rx_id s) \<Longrightarrow> rxid_ok (rx_id (dsd_rxid_note_tetra_la n s))"
  unfolding dsd_rxid_note_tetra_la_def Let_def
  by (rule note_tetra_ok, assumption, simp, intro impI, rule ok_intro)
    (simp add: flag_simps, simp_all add: ok_simps)

lemma tetra_other_ok: "rxid_ok (rx_id s) \<Longrightarrow> rxid_ok (rx_id (dsd_rxid_note_tetra_other_cell s))"
  unfolding dsd_rxid_note_tetra_other_cell_def Let_def
  by (rule note_tetra_ok, assumption, rule ok_intro)
    (simp add: flag_simps, simp_all add: ok_simps)

lemma tetra_direct_ok: "rxid_ok (rx_id s) \<Longrightarrow> rxid_ok (rx_id (dsd_rxid_note_tetra_direct_mode s))"
  by (simp add: dsd_rxid_note_tetra_direct_mode_def note_tetra_ok ok_clear)

lemma cc_freq_ok: "rxid_ok (rx_id s) \<Longrightarrow> rxid_ok (rx_id (dsd_rxid_note_cc_freq fam hz s))"
proof -
  assume ok: "rxid_ok (rx_id s)"
  have "rxid_ok (rxid_set DSD_RXID_CC_FREQ (r\<lparr>cc_freq_hz := hz\<rparr>))" if "rxid_for fam s = Some r" for r
    by (rule ok_intro) (use for_ok [OF ok that] for_family [OF that] in \<open>simp add: flag_simps\<close>,
      use for_ok [OF ok that] in \<open>simp_all add: ok_simps\<close>)
  then show ?thesis using ok by (simp add: dsd_rxid_note_cc_freq_def note_ok)
qed

lemma tune_ok: "rxid_ok (rx_id s) \<Longrightarrow> rxid_ok (rx_id (dsd_rxid_trunk_tune s))"
  unfolding dsd_rxid_trunk_tune_def rx_state.simps
  by (rule ok_intro) (simp add: flag_simps, simp_all add: ok_simps)

lemma apply_tune_ok: "rxid_ok (rx_id s) \<Longrightarrow> rxid_ok (rx_id (dsd_rxid_apply_trunk_tune s))"
  by (simp add: dsd_rxid_apply_trunk_tune_def tune_ok)

lemma request_tune_ok: "rxid_ok (rx_id s) \<Longrightarrow> rxid_ok (rx_id (dsd_rxid_request_trunk_tune s))"
  by (simp add: dsd_rxid_request_trunk_tune_def Let_def apply_tune_ok)

lemma stale_ok: "rxid_ok (rx_id s) \<Longrightarrow> rxid_ok (rx_id (dsd_rxid_mark_stale s))"
  by (simp add: dsd_rxid_mark_stale_def rxid_ok_def ok_defs)

lemma reset_ok: "rxid_ok (rx_id (dsd_rxid_reset s))"
  by (simp add: dsd_rxid_reset_def ok_clear)

lemma sync_ok: "rxid_ok (rx_id s) \<Longrightarrow> rxid_ok (rx_id (dsd_rxid_note_sync t s))"
  by (simp add: dsd_rxid_note_sync_def Let_def ok_clear)

lemma forget_ok: "rxid_ok (rx_id s) \<Longrightarrow> rxid_ok (rx_id (dsd_rxid_forget_system fam w s))"
  using invalidate_system_ok [of "rx_id s" w] by (cases w) (auto simp: dsd_rxid_forget_system_def)

lemma settings_ok: "rxid_ok (rx_id s) \<Longrightarrow> rxid_ok (rx_id (dsd_rxid_note_decoder_settings opts s))"
  by (simp add: dsd_rxid_note_decoder_settings_def Let_def ok_clear)

section \<open>Runs\<close>

text \<open>
  The operations in one type. \<open>Environment\<close> is the rest of the decoder, which moves the
  carrier count, opens and closes frame dispatches and sets the EDACS addressing mode.
\<close>

datatype rxid_op =
    Reset | Note_sync int | Mark_stale | Trunk_tune | Apply_trunk_tune | Request_trunk_tune
  | Note_access rxid_family access_code_kind u16 | Note_p25_network u32 u16 | Note_p25_site u16 u8 u8
  | Note_p25_lra u16 u8 | Note_dmr_rest_lsn u16 | Note_dmr_site_text string | Note_dmr_brand string
  | Note_dmr_vendor u8 | Note_dmr_t3_syscode u16 | Note_dmr_xpt_free_lcn u8 | Note_nxdn_location u8 u32 u16
  | Note_nxdn_idas_area u8 | Note_nxdn_idas_site u8 u8 | Note_nxdn_typed_system u32 u8 | Note_edacs_site u16
  | Note_edacs_area u16 | Note_edacs_system u16 | Note_edacs_cc_lcn u16 | Note_tetra_cell u16 u16 u8
  | Note_tetra_la u16 | Note_tetra_other_cell | Note_tetra_direct_mode | Note_cc_freq rxid_family u32
  | Forget_system rxid_family bool | Note_decoder_settings rx_opts
  | Environment bool u32 u32 bool int

primrec rxid_exec :: "rxid_op \<Rightarrow> rx_state \<Rightarrow> rx_state" where
  "rxid_exec Reset s = dsd_rxid_reset s"
| "rxid_exec (Note_sync t) s = dsd_rxid_note_sync t s"
| "rxid_exec Mark_stale s = dsd_rxid_mark_stale s"
| "rxid_exec Trunk_tune s = dsd_rxid_trunk_tune s"
| "rxid_exec Apply_trunk_tune s = dsd_rxid_apply_trunk_tune s"
| "rxid_exec Request_trunk_tune s = dsd_rxid_request_trunk_tune s"
| "rxid_exec (Note_access fam k a) s = dsd_rxid_note_access fam k a s"
| "rxid_exec (Note_p25_network w y) s = dsd_rxid_note_p25_network w y s"
| "rxid_exec (Note_p25_site y f t) s = dsd_rxid_note_p25_site y f t s"
| "rxid_exec (Note_p25_lra y l) s = dsd_rxid_note_p25_lra y l s"
| "rxid_exec (Note_dmr_rest_lsn n) s = dsd_rxid_note_dmr_rest_lsn n s"
| "rxid_exec (Note_dmr_site_text t) s = dsd_rxid_note_dmr_site_text t s"
| "rxid_exec (Note_dmr_brand t) s = dsd_rxid_note_dmr_brand t s"
| "rxid_exec (Note_dmr_vendor n) s = dsd_rxid_note_dmr_vendor n s"
| "rxid_exec (Note_dmr_t3_syscode n) s = dsd_rxid_note_dmr_t3_syscode n s"
| "rxid_exec (Note_dmr_xpt_free_lcn n) s = dsd_rxid_note_dmr_xpt_free_lcn n s"
| "rxid_exec (Note_nxdn_location c y t) s = dsd_rxid_note_nxdn_location c y t s"
| "rxid_exec (Note_nxdn_idas_area n) s = dsd_rxid_note_nxdn_idas_area n s"
| "rxid_exec (Note_nxdn_idas_site n m) s = dsd_rxid_note_nxdn_idas_site n m s"
| "rxid_exec (Note_nxdn_typed_system n m) s = dsd_rxid_note_nxdn_typed_system n m s"
| "rxid_exec (Note_edacs_site n) s = dsd_rxid_note_edacs_site n s"
| "rxid_exec (Note_edacs_area n) s = dsd_rxid_note_edacs_area n s"
| "rxid_exec (Note_edacs_system n) s = dsd_rxid_note_edacs_system n s"
| "rxid_exec (Note_edacs_cc_lcn n) s = dsd_rxid_note_edacs_cc_lcn n s"
| "rxid_exec (Note_tetra_cell n m c) s = dsd_rxid_note_tetra_cell n m c s"
| "rxid_exec (Note_tetra_la n) s = dsd_rxid_note_tetra_la n s"
| "rxid_exec Note_tetra_other_cell s = dsd_rxid_note_tetra_other_cell s"
| "rxid_exec Note_tetra_direct_mode s = dsd_rxid_note_tetra_direct_mode s"
| "rxid_exec (Note_cc_freq fam hz) s = dsd_rxid_note_cc_freq fam hz s"
| "rxid_exec (Forget_system fam w) s = dsd_rxid_forget_system fam w s"
| "rxid_exec (Note_decoder_settings opts) s = dsd_rxid_note_decoder_settings opts s"
| "rxid_exec (Environment act dseq seq brk ea) s =
     s\<lparr>frame_dispatch_active := act, frame_dispatch_carrier_seq := dseq, carrier_seq := seq,
       input_interrupted := brk, ea_mode := ea\<rparr>"

lemmas operation_ok = reset_ok sync_ok stale_ok tune_ok apply_tune_ok request_tune_ok access_ok network_ok site_ok lra_ok
  rest_lsn_ok site_text_ok brand_ok vendor_ok syscode_ok free_lcn_ok location_ok idas_area_ok idas_site_ok
  typed_system_ok edacs_site_ok edacs_area_ok edacs_system_ok edacs_lcn_ok tetra_cell_ok tetra_la_ok tetra_other_ok
  tetra_direct_ok cc_freq_ok forget_ok settings_ok

lemma exec_ok: "rxid_ok (rx_id s) \<Longrightarrow> rxid_ok (rx_id (rxid_exec c s))"
  by (cases c) (simp_all add: operation_ok)

interpretation rxid_runs: run_invariant rxid_exec "\<lambda>s. rxid_ok (rx_id s)"
  by unfold_locales (rule exec_ok)

lemmas run_ok = rxid_runs.run

end
