(* ===== verification/Rxid_Epoch.thy ===== *)
theory Rxid_Epoch
  imports Rxid_Invariant
begin

text \<open>
  The epoch of the received-identity record: while it stands still, a reader may combine
  parts it read at different times, because they all belong to one identity.
\<close>

section \<open>The epoch\<close>

text \<open>
  Record \<open>b\<close> still names the system record \<open>a\<close> named: no part but the access code was
  lost, and the parts that say which system, site or cell it is have their values.
\<close>

definition same_identity :: "received_identity \<Rightarrow> received_identity \<Rightarrow> bool" where
  "same_identity a b \<longleftrightarrow>
     within (without (valid a) DSD_RXID_ACCESS) (valid b) \<and> (without (valid a) DSD_RXID_ACCESS = 0 \<or> family b = family a) \<and>
     (rxid_has DSD_RXID_P25_WACN a \<longrightarrow> p25_wacn b = p25_wacn a) \<and>
     (rxid_has DSD_RXID_P25_SYSID a \<longrightarrow> p25_sysid b = p25_sysid a) \<and>
     (rxid_has DSD_RXID_P25_SITE a \<longrightarrow> p25_rfss b = p25_rfss a \<and> p25_site b = p25_site a) \<and>
     (rxid_has DSD_RXID_DMR_SITE_TEXT a \<longrightarrow> dmr_site_text b = dmr_site_text a) \<and>
     (rxid_has DSD_RXID_DMR_T3_SYSCODE a \<longrightarrow> dmr_t3_syscode b = dmr_t3_syscode a) \<and>
     (rxid_has DSD_RXID_NXDN_LOCATION a \<longrightarrow>
        nxdn_category b = nxdn_category a \<and> nxdn_sys b = nxdn_sys a \<and> nxdn_site b = nxdn_site a) \<and>
     (rxid_has DSD_RXID_NXDN_IDAS_AREA a \<longrightarrow> nxdn_idas_area b = nxdn_idas_area a) \<and>
     (rxid_has DSD_RXID_NXDN_IDAS_SITE a \<longrightarrow>
        nxdn_idas_site_type b = nxdn_idas_site_type a \<and> nxdn_idas_site_code b = nxdn_idas_site_code a) \<and>
     (rxid_has DSD_RXID_NXDN_TYPED_SYSTEM a \<longrightarrow>
        nxdn_typed_sys b = nxdn_typed_sys a \<and> nxdn_typed_site b = nxdn_typed_site a) \<and>
     (rxid_has DSD_RXID_EDACS_SITE a \<longrightarrow> edacs_site b = edacs_site a) \<and>
     (rxid_has DSD_RXID_EDACS_SYSTEM a \<longrightarrow> edacs_system b = edacs_system a) \<and>
     (rxid_has DSD_RXID_TETRA_NET a \<longrightarrow>
        tetra_mcc b = tetra_mcc a \<and> tetra_mnc b = tetra_mnc a \<and> tetra_colour b = tetra_colour a)"

lemma within_iff: "within v m \<longleftrightarrow> (\<forall>i. bit v i \<longrightarrow> bit m i)"
  using within_bit [of v m] by (auto simp: within_def bit_eq_iff bit_simps)

lemma same_refl: "same_identity a a"
  by (simp add: same_identity_def within_iff bit_without)

lemma same_bit: "same_identity a b \<Longrightarrow> bit (valid a) i \<Longrightarrow> i \<noteq> 0 \<Longrightarrow> bit (valid b) i"
  by (auto simp: same_identity_def within_iff bit_without part_bit)

lemma same_family: "same_identity a b \<Longrightarrow> without (valid a) DSD_RXID_ACCESS = 0 \<or> family b = family a"
  by (simp only: same_identity_def)

lemma same_zero: "valid a = 0 \<Longrightarrow> same_identity a b"
  by (simp add: same_identity_def rxid_has_def without_def)

lemmas same_simps = same_identity_def rxid_has_def part_simps

lemma same_trans:
  assumes "same_identity a b" "same_identity b c"
  shows "same_identity a c"
proof -
  note m = same_bit [OF assms(1)]
  have w: "within (without (valid a) DSD_RXID_ACCESS) (valid c)"
    using m same_bit [OF assms(2)] by (simp add: within_iff bit_without part_bit)
  have nz_b: "without (valid b) DSD_RXID_ACCESS \<noteq> 0" if nz: "without (valid a) DSD_RXID_ACCESS \<noteq> 0"
  proof -
    obtain i where "bit (without (valid a) DSD_RXID_ACCESS) i" using nz by (auto simp: bit_eq_iff)
    then show ?thesis using m [of i] by (auto simp: bit_without part_bit dest!: arg_cong [where f = "\<lambda>x. bit x i"])
  qed
  have f: "without (valid a) DSD_RXID_ACCESS = 0 \<or> family c = family a"
    using nz_b same_family [OF assms(1)] same_family [OF assms(2)] by metis
  show ?thesis
    using w f assms m [of 1] m [of 2] m [of 3] m [of 6] m [of 8] m [of 9] m [of 10] m [of 11] m [of 12] m [of 13] m [of 15]
      m [of 17] by (simp add: same_simps)
qed

text \<open>From \<open>a\<close> to \<open>b\<close> the epoch moved at most \<open>n\<close> steps, and not at all only within one identity.\<close>

definition moves :: "nat \<Rightarrow> received_identity \<Rightarrow> received_identity \<Rightarrow> bool" where
  "moves n a b \<longleftrightarrow> (\<exists>k \<le> n. epoch b = epoch a + of_nat k \<and> (k = 0 \<longrightarrow> same_identity a b))"

lemma moves_same: "epoch b = epoch a \<Longrightarrow> same_identity a b \<Longrightarrow> moves n a b"
  by (auto simp: moves_def intro!: exI [of _ 0])

lemma moves_bump: "epoch b = epoch a + 1 \<Longrightarrow> 0 < n \<Longrightarrow> moves n a b"
  by (auto simp: moves_def intro!: exI [of _ 1])

lemma moves_refl: "moves n a a"
  by (simp add: moves_same same_refl)

lemma moves_trans: "moves m a b \<Longrightarrow> moves n b c \<Longrightarrow> moves (m + n) a c"
  unfolding moves_def
proof (elim exE conjE)
  fix j k
  assume "j \<le> m" "epoch b = epoch a + of_nat j" "j = 0 \<longrightarrow> same_identity a b"
    "k \<le> n" "epoch c = epoch b + of_nat k" "k = 0 \<longrightarrow> same_identity b c"
  then show "\<exists>k\<le>m + n. epoch c = epoch a + of_nat k \<and> (k = 0 \<longrightarrow> same_identity a c)"
    by (intro exI [of _ "j + k"]) (auto intro: same_trans)
qed

lemma moves_invalidate: "moves (Suc 0) r (rxid_invalidate ps r)"
proof (cases "valid r AND ps = 0")
  case True
  then show ?thesis by (simp add: rxid_invalidate_def moves_refl)
qed (simp add: moves_bump invalidate_fields)

lemma moves_if: "moves (Suc 0) r (if c then rxid_invalidate ps r else r)"
  by (simp add: moves_invalidate moves_refl)

lemma moves_for:
  assumes "rxid_ok (rx_id s)" "rxid_for fam s = Some r"
  shows "moves (Suc 0) (rx_id s) r"
  using assms(2)
proof (cases rule: for_cases)
  case start
  then show ?thesis using ok_none [OF assms(1)] by (simp add: moves_same same_zero)
next
  case replace
  then show ?thesis by (simp add: moves_bump rxid_clear_def)
qed (simp add: moves_refl)


lemma moves_mono: "moves m a b \<Longrightarrow> m \<le> n \<Longrightarrow> moves n a b"
  unfolding moves_def by (meson le_trans)

lemma moves_then: "moves (Suc 0) a b \<Longrightarrow> moves (Suc 0) b c \<Longrightarrow> moves 2 a c"
  using moves_trans [of "Suc 0" a b "Suc 0" c] by (simp add: numeral_2_eq_2)

text \<open>A note that may invalidate parts and then stores its value.\<close>

lemma moves_store:
  assumes "\<not> c \<or> valid r AND qs = 0 \<Longrightarrow> same_identity r (g r)" "\<And>q. epoch (g q) = epoch q"
  shows "moves (Suc 0) r (g (if c then rxid_invalidate qs r else r))"
proof (cases "c \<and> valid r AND qs \<noteq> 0")
  case True
  then show ?thesis by (simp add: moves_bump assms(2) invalidate_fields)
next
  case False
  then have "(if c then rxid_invalidate qs r else r) = r" by (auto simp: rxid_invalidate_def)
  then show ?thesis using False assms by (simp add: moves_same)
qed

lemma moves_nxdn:
  assumes "rxid_ok (rx_id s)" "rxid_nxdn d s = Some r"
  shows "moves 2 (rx_id s) r"
proof -
  obtain q where q: "rxid_for DSD_RXID_FAMILY_NXDN s = Some q" and r: "r = q \<or> (\<exists>ps. r = rxid_invalidate ps q)"
    using assms(2) by (auto simp: rxid_nxdn_def split: if_split_asm)
  have "moves (Suc 0) q r" using r moves_invalidate moves_refl by blast
  then show ?thesis by (rule moves_then [OF moves_for [OF assms(1) q]])
qed

lemma moves_dmr:
  assumes "rxid_ok (rx_id s)" "rxid_dmr t s = Some r"
  shows "moves 2 (rx_id s) r"
proof -
  obtain q where q: "rxid_for DSD_RXID_FAMILY_DMR s = Some q"
    and r: "r = q \<or> (\<exists>c ps. r = (if c then rxid_invalidate ps q else q)\<lparr>dmr_trunk := t\<rparr>)"
    using assms(2) unfolding rxid_dmr_def map_option_eq_Some by metis
  have "moves (Suc 0) q ((if c then rxid_invalidate ps q else q)\<lparr>dmr_trunk := t\<rparr>)" for c ps
    by (rule moves_store) (simp_all add: same_simps within_iff)
  then have "moves (Suc 0) q r" using r moves_refl by blast
  then show ?thesis by (rule moves_then [OF moves_for [OF assms(1) q]])
qed

lemma moves_edacs:
  assumes "rxid_ok (rx_id s)" "rxid_edacs s = Some r"
  shows "moves 2 (rx_id s) r"
proof -
  obtain q c ps m where q: "rxid_for DSD_RXID_FAMILY_EDACS s = Some q"
    and r: "r = (if c then rxid_invalidate ps q else q)\<lparr>edacs_ea_mode := m\<rparr>"
    using assms(2) unfolding rxid_edacs_def map_option_eq_Some by blast
  have "moves (Suc 0) q r"
    unfolding r by (rule moves_store) (simp_all add: same_simps within_iff)
  then show ?thesis by (rule moves_then [OF moves_for [OF assms(1) q]])
qed

lemma moves_tetra: "rxid_tetra s = Some r \<Longrightarrow> moves 2 (rx_id s) r"
  by (simp add: rxid_tetra_def rxid_record_def moves_refl split: if_split_asm option.split_asm)

lemma note_moves:
  assumes "\<And>r. lookup s = Some r \<Longrightarrow> moves 2 (rx_id s) r" "\<And>r. moves 2 r (f r)"
  shows "moves 4 (rx_id s) (rx_id (rxid_note lookup f s))"
proof (cases "lookup s")
  case (Some r)
  show ?thesis
    using moves_trans [OF assms(1) [OF Some] assms(2) [of r]] by (simp add: rxid_note_def Some numeral_Bit0)
qed (simp add: rxid_note_def moves_refl)

lemma moves_store2:
  "(\<not> c \<or> valid r AND qs = 0 \<Longrightarrow> same_identity r (g r)) \<Longrightarrow> (\<And>q. epoch (g q) = epoch q) \<Longrightarrow>
   moves 2 r (g (if c then rxid_invalidate qs r else r))"
  by (rule moves_mono [OF moves_store]) simp_all

lemma moves_for2: "rxid_ok (rx_id s) \<Longrightarrow> rxid_for fam s = Some r \<Longrightarrow> moves 2 (rx_id s) r"
  by (rule moves_mono [OF moves_for]) simp_all

lemmas store_simps = same_simps set_fields within_iff

lemma network_moves: "rxid_ok (rx_id s) \<Longrightarrow> moves 4 (rx_id s) (rx_id (dsd_rxid_note_p25_network w y s))"
proof (cases "y AND 0xFFF = 0")
  case False
  assume ok: "rxid_ok (rx_id s)"
  have "moves 2 r (rxid_set (DSD_RXID_P25_WACN OR DSD_RXID_P25_SYSID)
          ((if \<not> (rxid_has DSD_RXID_P25_SYSID r \<and> p25_sysid r = y' \<and>
                 (\<not> rxid_has DSD_RXID_P25_WACN r \<or> p25_wacn r = w')) then rxid_invalidate RXID_P25_SYSTEM r else r)
             \<lparr>p25_wacn := w', p25_sysid := y'\<rparr>))" for r y' w'
    by (rule moves_store2 [where g = "\<lambda>q. rxid_set (DSD_RXID_P25_WACN OR DSD_RXID_P25_SYSID) (q\<lparr>p25_wacn := w', p25_sysid := y'\<rparr>)"])
      (auto simp: store_simps)
  then show ?thesis
    using False note_moves [OF moves_for2 [OF ok]] by (simp only: dsd_rxid_note_p25_network_def Let_def if_False)
qed (simp add: dsd_rxid_note_p25_network_def Let_def moves_refl)

lemma rest_lsn_moves: "rxid_ok (rx_id s) \<Longrightarrow> moves 4 (rx_id s) (rx_id (dsd_rxid_note_dmr_rest_lsn n s))"
  unfolding dsd_rxid_note_dmr_rest_lsn_def
  by (rule note_moves, rule moves_dmr, assumption+, rule moves_same) (simp_all add: store_simps)

lemma site_text_moves: "rxid_ok (rx_id s) \<Longrightarrow> moves 4 (rx_id s) (rx_id (dsd_rxid_note_dmr_site_text n s))"
  unfolding dsd_rxid_note_dmr_site_text_def Let_def
  by (simp add: moves_refl, intro impI, rule note_moves, rule moves_dmr, assumption+,
      rule moves_store2 [where g = "\<lambda>q. rxid_set DSD_RXID_DMR_SITE_TEXT (q\<lparr>dmr_site_text := rxid_copy_text 64 n\<rparr>)"])
    (auto simp: store_simps)

lemma brand_moves: "rxid_ok (rx_id s) \<Longrightarrow> moves 4 (rx_id s) (rx_id (dsd_rxid_note_dmr_brand n s))"
  unfolding dsd_rxid_note_dmr_brand_def Let_def
  by (simp add: moves_refl, intro impI, rule note_moves, rule moves_dmr, assumption+, rule moves_same)
    (simp_all add: store_simps)

lemma vendor_moves: "rxid_ok (rx_id s) \<Longrightarrow> moves 4 (rx_id s) (rx_id (dsd_rxid_note_dmr_vendor n s))"
  unfolding dsd_rxid_note_dmr_vendor_def Let_def
  by (simp add: moves_refl, intro impI, rule note_moves, rule moves_for2, assumption+, rule moves_same)
    (simp_all add: store_simps)

lemma syscode_moves: "rxid_ok (rx_id s) \<Longrightarrow> moves 4 (rx_id s) (rx_id (dsd_rxid_note_dmr_t3_syscode n s))"
  unfolding dsd_rxid_note_dmr_t3_syscode_def Let_def
  by (rule note_moves, rule moves_dmr, assumption+, 
      rule moves_store2 [where g = "\<lambda>q. rxid_set DSD_RXID_DMR_T3_SYSCODE (q\<lparr>dmr_t3_syscode := n\<rparr>)"])
    (auto simp: store_simps)

lemma free_lcn_moves: "rxid_ok (rx_id s) \<Longrightarrow> moves 4 (rx_id s) (rx_id (dsd_rxid_note_dmr_xpt_free_lcn n s))"
  unfolding dsd_rxid_note_dmr_xpt_free_lcn_def Let_def
  by (rule note_moves, rule moves_dmr, assumption+, rule moves_same)
    (simp_all add: store_simps)

lemma location_moves: "rxid_ok (rx_id s) \<Longrightarrow> moves 4 (rx_id s) (rx_id (dsd_rxid_note_nxdn_location c y t s))"
  unfolding dsd_rxid_note_nxdn_location_def Let_def
  by (simp add: moves_refl, intro impI, rule note_moves, rule moves_nxdn, assumption+, 
      rule moves_store2 [where g = "\<lambda>q. rxid_set DSD_RXID_NXDN_LOCATION (q\<lparr>nxdn_category := c, nxdn_sys := y, nxdn_site := t\<rparr>)"])
    (auto simp: store_simps)

lemma idas_area_moves: "rxid_ok (rx_id s) \<Longrightarrow> moves 4 (rx_id s) (rx_id (dsd_rxid_note_nxdn_idas_area n s))"
  unfolding dsd_rxid_note_nxdn_idas_area_def Let_def
  by (rule note_moves, rule moves_nxdn, assumption+, 
      rule moves_store2 [where g = "\<lambda>q. rxid_set DSD_RXID_NXDN_IDAS_AREA (q\<lparr>nxdn_idas_area := n AND 1\<rparr>)"])
    (auto simp: store_simps)

lemma edacs_site_moves: "rxid_ok (rx_id s) \<Longrightarrow> moves 4 (rx_id s) (rx_id (dsd_rxid_note_edacs_site n s))"
  unfolding dsd_rxid_note_edacs_site_def Let_def
  by (rule note_moves, rule moves_edacs, assumption+, 
      rule moves_store2 [where g = "\<lambda>q. rxid_set DSD_RXID_EDACS_SITE (q\<lparr>edacs_site := n\<rparr>)"])
    (auto simp: store_simps)

lemma edacs_area_moves: "rxid_ok (rx_id s) \<Longrightarrow> moves 4 (rx_id s) (rx_id (dsd_rxid_note_edacs_area n s))"
  unfolding dsd_rxid_note_edacs_area_def Let_def
  by (rule note_moves, rule moves_edacs, assumption+, rule moves_same)
    (simp_all add: store_simps)

lemma edacs_system_moves: "rxid_ok (rx_id s) \<Longrightarrow> moves 4 (rx_id s) (rx_id (dsd_rxid_note_edacs_system n s))"
  unfolding dsd_rxid_note_edacs_system_def Let_def
  by (rule note_moves, rule moves_edacs, assumption+, 
      rule moves_store2 [where g = "\<lambda>q. rxid_set DSD_RXID_EDACS_SYSTEM (q\<lparr>edacs_system := n\<rparr>)"])
    (auto simp: store_simps)

lemma edacs_lcn_moves: "rxid_ok (rx_id s) \<Longrightarrow> moves 4 (rx_id s) (rx_id (dsd_rxid_note_edacs_cc_lcn n s))"
  unfolding dsd_rxid_note_edacs_cc_lcn_def Let_def
  by (rule note_moves, rule moves_edacs, assumption+, rule moves_same)
    (simp_all add: store_simps)

lemma tetra_cell_moves: "rxid_ok (rx_id s) \<Longrightarrow> moves 4 (rx_id s) (rx_id (dsd_rxid_note_tetra_cell n m k s))"
  unfolding dsd_rxid_note_tetra_cell_def Let_def
  by (rule note_moves, rule moves_for2, assumption+, 
      rule moves_store2 [where g = "\<lambda>q. rxid_set (DSD_RXID_TETRA_NET OR DSD_RXID_ACCESS)
        (q\<lparr>tetra_mcc := n AND 0x3FF, tetra_mnc := m AND 0x3FFF, tetra_colour := k AND 0x3F,
           access_kind := DSD_ACCESS_CODE_COLOR_CODE, access := ucast (k AND 0x3F)\<rparr>)"])
    (auto simp: store_simps)

lemma cc_freq_moves: "rxid_ok (rx_id s) \<Longrightarrow> moves 4 (rx_id s) (rx_id (dsd_rxid_note_cc_freq fam hz s))"
  unfolding dsd_rxid_note_cc_freq_def Let_def
  by (simp add: moves_refl, intro impI, rule note_moves, rule moves_for2, assumption+, rule moves_same)
    (simp_all add: store_simps)

lemma tetra_la_moves: "moves 4 (rx_id s) (rx_id (dsd_rxid_note_tetra_la n s))"
  unfolding dsd_rxid_note_tetra_la_def
  by (rule note_moves, rule moves_tetra, assumption, rule moves_same) (simp_all add: store_simps)

lemma tetra_other_moves: "moves 4 (rx_id s) (rx_id (dsd_rxid_note_tetra_other_cell s))"
  unfolding dsd_rxid_note_tetra_other_cell_def
  by (rule note_moves, rule moves_tetra, assumption, rule moves_mono [OF moves_invalidate]) simp

lemma moves_clear: "0 < n \<Longrightarrow> moves n r (rxid_clear r)"
  by (simp add: moves_bump rxid_clear_def)

lemma tetra_direct_moves: "moves 4 (rx_id s) (rx_id (dsd_rxid_note_tetra_direct_mode s))"
  unfolding dsd_rxid_note_tetra_direct_mode_def
  by (rule note_moves, rule moves_tetra, assumption, simp add: moves_clear)

text \<open>Two notes of the Type-D system and site may each invalidate what the other named.\<close>

lemma moves_two_stores:
  assumes "moves (Suc 0) r q" "\<not> c \<or> valid q AND qs = 0 \<Longrightarrow> same_identity q (g q)" "\<And>p. epoch (g p) = epoch p"
  shows "moves 2 r (g (if c then rxid_invalidate qs q else q))"
  using assms(1) moves_store [OF assms(2,3)] by (rule moves_then)

lemma idas_site_moves:
  assumes ok: "rxid_ok (rx_id s)"
  shows "moves 4 (rx_id s) (rx_id (dsd_rxid_note_nxdn_idas_site n m s))"
proof -
  have body: "moves 2 r
     (let r = (if rxid_has DSD_RXID_NXDN_IDAS_SITE r \<and> (nxdn_idas_site_type r \<noteq> n \<or> nxdn_idas_site_code r \<noteq> m)
               then rxid_invalidate (DSD_RXID_NXDN_IDAS_SITE OR DSD_RXID_CC_FREQ) r else r);
          r = (if rxid_has DSD_RXID_NXDN_TYPED_SYSTEM r \<and> nxdn_typed_site r \<noteq> m
               then rxid_invalidate (DSD_RXID_NXDN_TYPED_SYSTEM OR DSD_RXID_CC_FREQ) r else r)
      in rxid_set DSD_RXID_NXDN_IDAS_SITE (r\<lparr>nxdn_idas_site_type := n, nxdn_idas_site_code := m\<rparr>))" for r
    unfolding Let_def
    by (rule moves_two_stores [where g =
          "\<lambda>q. rxid_set DSD_RXID_NXDN_IDAS_SITE (q\<lparr>nxdn_idas_site_type := n, nxdn_idas_site_code := m\<rparr>)", OF moves_if])
      (simp_all add: store_simps invalidate_fields)
  show ?thesis
    unfolding dsd_rxid_note_nxdn_idas_site_def using note_moves [OF moves_nxdn [OF ok] body] by (simp add: moves_refl)
qed

lemma typed_system_moves:
  assumes ok: "rxid_ok (rx_id s)"
  shows "moves 4 (rx_id s) (rx_id (dsd_rxid_note_nxdn_typed_system n m s))"
proof -
  have one: "moves (Suc 0) r (if a then rxid_invalidate ps r else if b then rxid_invalidate qs r else r)" for r a b ps qs
    by (simp add: moves_invalidate moves_refl)
  have body: "moves 2 r
     (let y = n AND 0x7FFFF;
          r = (if rxid_has DSD_RXID_NXDN_TYPED_SYSTEM r \<and> nxdn_typed_sys r \<noteq> y
               then rxid_invalidate (DSD_RXID_NXDN_TYPED_SYSTEM OR DSD_RXID_NXDN_IDAS_AREA OR
                      DSD_RXID_NXDN_IDAS_SITE OR DSD_RXID_CC_FREQ) r
               else if rxid_has DSD_RXID_NXDN_TYPED_SYSTEM r \<and> nxdn_typed_site r \<noteq> m
               then rxid_invalidate (DSD_RXID_NXDN_TYPED_SYSTEM OR DSD_RXID_NXDN_IDAS_AREA OR DSD_RXID_CC_FREQ) r
               else r);
          r = (if rxid_has DSD_RXID_NXDN_IDAS_SITE r \<and> nxdn_idas_site_code r \<noteq> m
               then rxid_invalidate (DSD_RXID_NXDN_IDAS_SITE OR DSD_RXID_NXDN_IDAS_AREA OR DSD_RXID_CC_FREQ) r else r)
      in rxid_set DSD_RXID_NXDN_TYPED_SYSTEM (r\<lparr>nxdn_typed_sys := y, nxdn_typed_site := m\<rparr>))" for r
    unfolding Let_def
    by (rule moves_two_stores [where g =
          "\<lambda>q. rxid_set DSD_RXID_NXDN_TYPED_SYSTEM (q\<lparr>nxdn_typed_sys := n AND 0x7FFFF, nxdn_typed_site := m\<rparr>)", OF one])
      (simp_all add: store_simps invalidate_fields)
  show ?thesis
    unfolding dsd_rxid_note_nxdn_typed_system_def by (rule note_moves [OF moves_nxdn [OF ok] body])
qed

lemma moves_bound:
  assumes "rxid_ok (rx_id s)" "rxid_p25_bound y s = Some (b, r)"
  shows "moves 2 (rx_id s) r"
proof -
  have y: "y \<noteq> 0" using assms(2) by (auto simp: rxid_p25_bound_def)
  obtain q where q: "rxid_for DSD_RXID_FAMILY_P25 s = Some q"
    and r: "(if rxid_has DSD_RXID_P25_SYSID q
        then if p25_sysid q \<noteq> y then (False, q) else (True, rxid_set DSD_RXID_P25_SYSID q)
        else (True, rxid_set DSD_RXID_P25_SYSID (q\<lparr>p25_sysid := y\<rparr>))) = (b, r)"
    using assms(2) unfolding rxid_p25_bound_def if_not_P [OF y] map_option_eq_Some by blast
  have "same_identity q (rxid_set DSD_RXID_P25_SYSID q)"
    "\<not> rxid_has DSD_RXID_P25_SYSID q \<longrightarrow> same_identity q (rxid_set DSD_RXID_P25_SYSID (q\<lparr>p25_sysid := y\<rparr>))"
    by (simp_all add: store_simps)
  then have "same_identity q r \<and> epoch r = epoch q"
    using r same_refl [of q] by (auto simp: set_fields split: if_split_asm)
  then show ?thesis by (intro moves_then [OF moves_for [OF assms(1) q]] moves_same) simp_all
qed

lemma site_moves: "rxid_ok (rx_id s) \<Longrightarrow> moves 4 (rx_id s) (rx_id (dsd_rxid_note_p25_site y f t s))"
proof (cases "rxid_p25_bound (y AND 0xFFF) s")
  case (Some x)
  assume ok: "rxid_ok (rx_id s)"
  obtain b r where x: "x = (b, r)" by (cases x)
  have "moves 2 r (rxid_set DSD_RXID_P25_SITE ((if rxid_has DSD_RXID_P25_SITE r \<and> (p25_rfss r \<noteq> f \<or> p25_site r \<noteq> t)
       then rxid_invalidate (DSD_RXID_P25_SITE OR DSD_RXID_P25_LRA OR DSD_RXID_CC_FREQ) r else r)
       \<lparr>p25_rfss := f, p25_site := t\<rparr>))"
    by (rule moves_store2 [where g = "\<lambda>q. rxid_set DSD_RXID_P25_SITE (q\<lparr>p25_rfss := f, p25_site := t\<rparr>)"])
      (auto simp: store_simps)
  from moves_trans [OF moves_bound [OF ok Some [unfolded x]] this] moves_mono [OF moves_bound [OF ok Some [unfolded x]], of 4]
  show ?thesis using Some by (simp add: dsd_rxid_note_p25_site_def Let_def x)
qed (simp add: dsd_rxid_note_p25_site_def moves_refl)

lemma lra_moves: "rxid_ok (rx_id s) \<Longrightarrow> moves 4 (rx_id s) (rx_id (dsd_rxid_note_p25_lra y l s))"
proof (cases "rxid_p25_bound (y AND 0xFFF) s")
  case (Some x)
  assume ok: "rxid_ok (rx_id s)"
  obtain b r where x: "x = (b, r)" by (cases x)
  have "moves 2 r (rxid_set DSD_RXID_P25_LRA (r\<lparr>p25_lra := l\<rparr>))"
    by (rule moves_same) (simp_all add: store_simps)
  from moves_trans [OF moves_bound [OF ok Some [unfolded x]] this] moves_mono [OF moves_bound [OF ok Some [unfolded x]], of 4]
  show ?thesis using Some by (simp add: dsd_rxid_note_p25_lra_def x)
qed (simp add: dsd_rxid_note_p25_lra_def moves_refl)

lemma access_moves:
  assumes ok: "rxid_ok (rx_id s)"
  shows "moves 4 (rx_id s) (rx_id (dsd_rxid_note_access fam k a s))"
proof -
  have "moves 2 r (let r = (if c then (rxid_drop ps r)\<lparr>epoch := epoch r + 1\<rparr> else r)
     in rxid_set DSD_RXID_ACCESS (r\<lparr>access_kind := k, access := a\<rparr>))" for c ps r
    by (cases c) (simp add: Let_def moves_bump set_fields drop_fields, simp add: moves_same store_simps)
  then show ?thesis
    using note_moves [OF moves_nxdn [OF ok]] note_moves [OF moves_for2 [OF ok]] moves_refl
    unfolding dsd_rxid_note_access_def by (simp split: if_split)
qed

lemma tune_moves: "moves n (rx_id s) (rx_id (dsd_rxid_trunk_tune s))"
  by (rule moves_same) (simp_all add: dsd_rxid_trunk_tune_def drop_fields store_simps)

lemma apply_tune_moves: "moves n (rx_id s) (rx_id (dsd_rxid_apply_trunk_tune s))"
  using tune_moves [of n "s\<lparr>rx_id_trunk_tune_pending := False\<rparr>"]
  by (simp add: dsd_rxid_apply_trunk_tune_def moves_refl)

lemma request_tune_moves: "moves n (rx_id s) (rx_id (dsd_rxid_request_trunk_tune s))"
  using apply_tune_moves [of n "s\<lparr>rx_id_trunk_tune_pending := True\<rparr>"]
  by (simp add: dsd_rxid_request_trunk_tune_def Let_def moves_refl)

lemma stale_moves: "moves n (rx_id s) (rx_id (dsd_rxid_mark_stale s))"
  by (rule moves_same) (simp_all add: dsd_rxid_mark_stale_def store_simps)

lemma forget_moves: "moves 4 (rx_id s) (rx_id (dsd_rxid_forget_system fam w s))"
  using moves_mono [OF moves_invalidate, of 4 "rx_id s"] by (simp add: dsd_rxid_forget_system_def moves_refl)

lemma sync_moves: "moves 4 (rx_id s) (rx_id (dsd_rxid_note_sync t s))"
  by (simp add: dsd_rxid_note_sync_def Let_def moves_refl moves_clear)

lemma reset_moves: "moves 4 (rx_id s) (rx_id (dsd_rxid_reset s))"
  by (simp add: dsd_rxid_reset_def moves_clear)

lemma settings_moves: "moves 4 (rx_id s) (rx_id (dsd_rxid_note_decoder_settings opts s))"
  by (simp add: dsd_rxid_note_decoder_settings_def Let_def moves_refl moves_clear)

lemmas operation_moves = reset_moves sync_moves stale_moves tune_moves apply_tune_moves request_tune_moves access_moves
  network_moves site_moves lra_moves rest_lsn_moves site_text_moves brand_moves vendor_moves syscode_moves free_lcn_moves
  location_moves idas_area_moves idas_site_moves typed_system_moves edacs_site_moves edacs_area_moves edacs_system_moves
  edacs_lcn_moves tetra_cell_moves tetra_la_moves tetra_other_moves tetra_direct_moves cc_freq_moves forget_moves settings_moves

lemma exec_moves: "rxid_ok (rx_id s) \<Longrightarrow> moves 4 (rx_id s) (rx_id (rxid_exec c s))"
  by (cases c) (simp_all add: operation_moves moves_refl)

lemma run_moves: "rxid_ok (rx_id s) \<Longrightarrow> moves (4 * length cs) (rx_id s) (rx_id (fold rxid_exec cs s))"
proof (induction cs arbitrary: s)
  case (Cons c cs)
  from moves_trans [OF exec_moves [OF Cons.prems, of c] Cons.IH [OF exec_ok [OF Cons.prems]]]
  show ?case by simp
qed (simp add: moves_refl)

end
