(* ===== verification/Rxid_Notes.thy ===== *)
theory Rxid_Notes
  imports Rxid_Epoch
begin

text \<open>
  What a single note does to the received-identity record: nothing while the frame being
  dispatched was lost, and otherwise its value is held, valid and fresh, in a record of
  its own family. The properties of the three record theories close the file.
\<close>

section \<open>Lookups\<close>

definition frame_lost :: "rx_state \<Rightarrow> bool" where
  "frame_lost s \<longleftrightarrow> frame_dispatch_active s \<and> dsd_state_frame_read_lost s (frame_dispatch_carrier_seq s)"

text \<open>The lookup returns a record, and records it returns are of the family.\<close>

definition finds :: "(rx_state \<Rightarrow> received_identity option) \<Rightarrow> rxid_family \<Rightarrow> rx_state \<Rightarrow> bool" where
  "finds lookup fam s \<longleftrightarrow> (\<exists>r. lookup s = Some r \<and> family r = fam)"

lemma for_finds:
  "\<not> frame_lost s \<Longrightarrow> fam \<noteq> DSD_RXID_FAMILY_NONE \<Longrightarrow> fam \<noteq> DSD_RXID_FAMILY_OTHER \<Longrightarrow> finds (rxid_for fam) fam s"
  by (simp add: finds_def frame_lost_def rxid_for_def rxid_record_def)

lemma map_finds:
  "finds lookup fam s \<Longrightarrow> (\<And>s r. family (g s r) = family r) \<Longrightarrow> finds (\<lambda>s. map_option (g s) (lookup s)) fam s"
  by (auto simp: finds_def)

lemma nxdn_finds: "\<not> frame_lost s \<Longrightarrow> finds (rxid_nxdn d) DSD_RXID_FAMILY_NXDN s"
  unfolding rxid_nxdn_def by (intro map_finds for_finds) simp_all

lemma dmr_finds: "\<not> frame_lost s \<Longrightarrow> finds (rxid_dmr t) DSD_RXID_FAMILY_DMR s"
  unfolding rxid_dmr_def by (intro map_finds for_finds) simp_all

lemma edacs_finds: "\<not> frame_lost s \<Longrightarrow> finds rxid_edacs DSD_RXID_FAMILY_EDACS s"
  unfolding rxid_edacs_def by (intro map_finds for_finds) simp_all

lemma note_shows:
  "finds lookup fam s \<Longrightarrow> (\<And>r. family r = fam \<Longrightarrow> P (f r)) \<Longrightarrow> P (rx_id (rxid_note lookup f s))"
  by (auto simp: finds_def rxid_note_def)

lemma lost_lookups:
  "frame_lost s \<Longrightarrow> rxid_for fam s = None" "frame_lost s \<Longrightarrow> rxid_nxdn d s = None"
  "frame_lost s \<Longrightarrow> rxid_dmr t s = None" "frame_lost s \<Longrightarrow> rxid_edacs s = None"
  "frame_lost s \<Longrightarrow> rxid_tetra s = None" "frame_lost s \<Longrightarrow> rxid_p25_bound y s = None"
  by (simp_all add: frame_lost_def rxid_for_def rxid_record_def rxid_nxdn_def rxid_dmr_def rxid_edacs_def
      rxid_tetra_def rxid_p25_bound_def)

section \<open>Notes\<close>

text \<open>The operations that report content of the frame being dispatched.\<close>

fun from_frame :: "rxid_op \<Rightarrow> bool" where
  "from_frame Reset = False"
| "from_frame (Note_sync _) = False"
| "from_frame Mark_stale = False"
| "from_frame Trunk_tune = False"
| "from_frame Apply_trunk_tune = False"
| "from_frame Request_trunk_tune = False"
| "from_frame (Forget_system _ _) = False"
| "from_frame (Note_decoder_settings _) = False"
| "from_frame (Environment _ _ _ _ _) = False"
| "from_frame _ = True"

lemma lost_note: "frame_lost s \<Longrightarrow> from_frame c \<Longrightarrow> rxid_exec c s = s"
  by (cases c)
    (simp_all add: lost_lookups rxid_note_def dsd_rxid_note_access_def dsd_rxid_note_p25_network_def
      dsd_rxid_note_p25_site_def dsd_rxid_note_p25_lra_def dsd_rxid_note_dmr_rest_lsn_def
      dsd_rxid_note_dmr_site_text_def dsd_rxid_note_dmr_brand_def dsd_rxid_note_dmr_vendor_def
      dsd_rxid_note_dmr_t3_syscode_def dsd_rxid_note_dmr_xpt_free_lcn_def dsd_rxid_note_nxdn_location_def
      dsd_rxid_note_nxdn_idas_area_def dsd_rxid_note_nxdn_idas_site_def dsd_rxid_note_nxdn_typed_system_def
      dsd_rxid_note_edacs_site_def dsd_rxid_note_edacs_area_def dsd_rxid_note_edacs_system_def
      dsd_rxid_note_edacs_cc_lcn_def dsd_rxid_note_tetra_cell_def dsd_rxid_note_tetra_la_def
      dsd_rxid_note_tetra_other_cell_def dsd_rxid_note_tetra_direct_mode_def dsd_rxid_note_cc_freq_def Let_def)

text \<open>The record holds a part: its value was received, and since the last no-carrier pass.\<close>

definition holds :: "u32 \<Rightarrow> received_identity \<Rightarrow> bool" where
  "holds part r \<longleftrightarrow> rxid_has part r \<and> fresh r AND part \<noteq> 0"

text \<open>
  What the record \<open>r\<close> shows after a note, \<open>a\<close> being the record before: a note with a
  reserved value, or of a site under another system than the record's, is ignored.
\<close>

fun noted :: "received_identity \<Rightarrow> rxid_op \<Rightarrow> received_identity \<Rightarrow> bool" where
  "noted a (Note_access fam k v) r =
     (k = DSD_ACCESS_CODE_NONE \<or> fam \<in> {DSD_RXID_FAMILY_NONE, DSD_RXID_FAMILY_OTHER} \<or>
      family r = fam \<and> holds DSD_RXID_ACCESS r \<and> access_kind r = k \<and> access r = v)"
| "noted a (Note_p25_network w y) r =
     (y AND 0xFFF = 0 \<or> family r = DSD_RXID_FAMILY_P25 \<and> holds DSD_RXID_P25_WACN r \<and> holds DSD_RXID_P25_SYSID r \<and>
      p25_wacn r = w AND 0xFFFFF \<and> p25_sysid r = y AND 0xFFF)"
| "noted a (Note_p25_site y f t) r =
     (y AND 0xFFF = 0 \<or> rxid_has DSD_RXID_P25_SYSID a \<and> p25_sysid a \<noteq> y AND 0xFFF \<or>
      family r = DSD_RXID_FAMILY_P25 \<and> holds DSD_RXID_P25_SITE r \<and> p25_rfss r = f \<and> p25_site r = t)"
| "noted a (Note_p25_lra y l) r =
     (y AND 0xFFF = 0 \<or> rxid_has DSD_RXID_P25_SYSID a \<and> p25_sysid a \<noteq> y AND 0xFFF \<or>
      family r = DSD_RXID_FAMILY_P25 \<and> holds DSD_RXID_P25_LRA r \<and> p25_lra r = l)"
| "noted a (Note_dmr_rest_lsn n) r =
     (family r = DSD_RXID_FAMILY_DMR \<and> holds DSD_RXID_DMR_REST_LSN r \<and> dmr_rest_lsn r = n)"
| "noted a (Note_dmr_site_text t) r =
     (t = [] \<or> family r = DSD_RXID_FAMILY_DMR \<and> holds DSD_RXID_DMR_SITE_TEXT r \<and> dmr_site_text r = take 63 t)"
| "noted a (Note_dmr_brand t) r =
     (t = [] \<or> family r = DSD_RXID_FAMILY_DMR \<and> holds DSD_RXID_DMR_BRAND r \<and> dmr_brand r = take 31 t)"
| "noted a (Note_dmr_vendor n) r =
     (n = 0 \<or> family r = DSD_RXID_FAMILY_DMR \<and> holds DSD_RXID_DMR_VENDOR r \<and> dmr_vendor r = n)"
| "noted a (Note_dmr_t3_syscode n) r =
     (family r = DSD_RXID_FAMILY_DMR \<and> holds DSD_RXID_DMR_T3_SYSCODE r \<and> dmr_t3_syscode r = n)"
| "noted a (Note_dmr_xpt_free_lcn n) r =
     (family r = DSD_RXID_FAMILY_DMR \<and> holds DSD_RXID_DMR_XPT_FREE_LCN r \<and> dmr_xpt_free_lcn r = n AND 0xF)"
| "noted a (Note_nxdn_location c y t) r =
     (c > 2 \<or> family r = DSD_RXID_FAMILY_NXDN \<and> holds DSD_RXID_NXDN_LOCATION r \<and>
      nxdn_category r = c \<and> nxdn_sys r = y \<and> nxdn_site r = t)"
| "noted a (Note_nxdn_idas_area n) r =
     (family r = DSD_RXID_FAMILY_NXDN \<and> holds DSD_RXID_NXDN_IDAS_AREA r \<and> nxdn_idas_area r = n AND 1)"
| "noted a (Note_nxdn_idas_site n m) r =
     (n < 1 \<or> n > 3 \<or> m < 1 \<or> m > 250 \<or>
      family r = DSD_RXID_FAMILY_NXDN \<and> holds DSD_RXID_NXDN_IDAS_SITE r \<and>
      nxdn_idas_site_type r = n \<and> nxdn_idas_site_code r = m)"
| "noted a (Note_nxdn_typed_system n m) r =
     (family r = DSD_RXID_FAMILY_NXDN \<and> holds DSD_RXID_NXDN_TYPED_SYSTEM r \<and>
      nxdn_typed_sys r = n AND 0x7FFFF \<and> nxdn_typed_site r = m)"
| "noted a (Note_edacs_site n) r =
     (family r = DSD_RXID_FAMILY_EDACS \<and> holds DSD_RXID_EDACS_SITE r \<and> edacs_site r = n)"
| "noted a (Note_edacs_area n) r =
     (family r = DSD_RXID_FAMILY_EDACS \<and> holds DSD_RXID_EDACS_AREA r \<and> edacs_area r = n)"
| "noted a (Note_edacs_system n) r =
     (family r = DSD_RXID_FAMILY_EDACS \<and> holds DSD_RXID_EDACS_SYSTEM r \<and> edacs_system r = n)"
| "noted a (Note_edacs_cc_lcn n) r =
     (family r = DSD_RXID_FAMILY_EDACS \<and> holds DSD_RXID_EDACS_CC_LCN r \<and> edacs_cc_lcn r = n)"
| "noted a (Note_tetra_cell n m c) r =
     (family r = DSD_RXID_FAMILY_TETRA \<and> holds DSD_RXID_TETRA_NET r \<and> holds DSD_RXID_ACCESS r \<and>
      tetra_mcc r = n AND 0x3FF \<and> tetra_mnc r = m AND 0x3FFF \<and> tetra_colour r = c AND 0x3F \<and>
      access_kind r = DSD_ACCESS_CODE_COLOR_CODE \<and> access r = ucast (c AND 0x3F))"
| "noted a (Note_tetra_la n) r =
     (family a \<noteq> DSD_RXID_FAMILY_TETRA \<or> \<not> rxid_has DSD_RXID_TETRA_NET a \<or>
      family r = DSD_RXID_FAMILY_TETRA \<and> holds DSD_RXID_TETRA_LA r \<and> tetra_la r = n AND 0x3FFF)"
| "noted a Note_tetra_other_cell r =
     (family a \<noteq> DSD_RXID_FAMILY_TETRA \<or> \<not> rxid_has DSD_RXID_TETRA_LA r \<and> \<not> rxid_has DSD_RXID_CC_FREQ r)"
| "noted a Note_tetra_direct_mode r =
     (family a \<noteq> DSD_RXID_FAMILY_TETRA \<or> family r = DSD_RXID_FAMILY_NONE \<and> valid r = 0)"
| "noted a (Note_cc_freq fam hz) r =
     (hz = 0 \<or> fam \<in> {DSD_RXID_FAMILY_NONE, DSD_RXID_FAMILY_OTHER} \<or>
      family r = fam \<and> holds DSD_RXID_CC_FREQ r \<and> cc_freq_hz r = hz)"
| "noted a _ r = True"

lemmas noted_simps = holds_def store_simps

lemma access_noted:
  assumes l: "\<not> frame_lost s"
  shows "noted (rx_id s) (Note_access fam k v) (rx_id (dsd_rxid_note_access fam k v s))"
proof (cases "k = DSD_ACCESS_CODE_NONE \<or> fam \<in> {DSD_RXID_FAMILY_NONE, DSD_RXID_FAMILY_OTHER}")
  case False
  then have f: "finds (if fam = DSD_RXID_FAMILY_NXDN then rxid_nxdn False else rxid_for fam) fam s"
    using nxdn_finds [OF l] for_finds [OF l] by simp
  show ?thesis
    unfolding dsd_rxid_note_access_def Let_def
    by (split if_split, intro conjI impI, simp, rule note_shows [where P = "noted (rx_id s) (Note_access fam k v)", OF f])
      (simp add: noted_simps drop_fields)
qed auto

lemma network_noted: "\<not> frame_lost s \<Longrightarrow> noted (rx_id s) (Note_p25_network w y) (rx_id (dsd_rxid_note_p25_network w y s))"
  unfolding dsd_rxid_note_p25_network_def Let_def
  by (split if_split, intro conjI impI, simp, rule note_shows [where P = "noted (rx_id s) (Note_p25_network w y)", OF for_finds], assumption)
    (simp_all add: noted_simps invalidate_fields rxid_copy_text_def)

lemma rest_lsn_noted: "\<not> frame_lost s \<Longrightarrow> noted (rx_id s) (Note_dmr_rest_lsn n) (rx_id (dsd_rxid_note_dmr_rest_lsn n s))"
  unfolding dsd_rxid_note_dmr_rest_lsn_def Let_def
  by (rule note_shows [where P = "noted (rx_id s) (Note_dmr_rest_lsn n)", OF dmr_finds], assumption)
    (simp_all add: noted_simps invalidate_fields rxid_copy_text_def)

lemma site_text_noted: "\<not> frame_lost s \<Longrightarrow> noted (rx_id s) (Note_dmr_site_text n) (rx_id (dsd_rxid_note_dmr_site_text n s))"
  unfolding dsd_rxid_note_dmr_site_text_def Let_def
  by (split if_split, intro conjI impI, simp, rule note_shows [where P = "noted (rx_id s) (Note_dmr_site_text n)", OF dmr_finds], assumption)
    (simp_all add: noted_simps invalidate_fields rxid_copy_text_def)

lemma brand_noted: "\<not> frame_lost s \<Longrightarrow> noted (rx_id s) (Note_dmr_brand n) (rx_id (dsd_rxid_note_dmr_brand n s))"
  unfolding dsd_rxid_note_dmr_brand_def Let_def
  by (split if_split, intro conjI impI, simp, rule note_shows [where P = "noted (rx_id s) (Note_dmr_brand n)", OF dmr_finds], assumption)
    (simp_all add: noted_simps invalidate_fields rxid_copy_text_def)

lemma vendor_noted: "\<not> frame_lost s \<Longrightarrow> noted (rx_id s) (Note_dmr_vendor n) (rx_id (dsd_rxid_note_dmr_vendor n s))"
  unfolding dsd_rxid_note_dmr_vendor_def Let_def
  by (split if_split, intro conjI impI, simp, rule note_shows [where P = "noted (rx_id s) (Note_dmr_vendor n)", OF for_finds], assumption)
    (simp_all add: noted_simps invalidate_fields rxid_copy_text_def)

lemma syscode_noted: "\<not> frame_lost s \<Longrightarrow> noted (rx_id s) (Note_dmr_t3_syscode n) (rx_id (dsd_rxid_note_dmr_t3_syscode n s))"
  unfolding dsd_rxid_note_dmr_t3_syscode_def Let_def
  by (rule note_shows [where P = "noted (rx_id s) (Note_dmr_t3_syscode n)", OF dmr_finds], assumption)
    (simp_all add: noted_simps invalidate_fields rxid_copy_text_def)

lemma free_lcn_noted: "\<not> frame_lost s \<Longrightarrow> noted (rx_id s) (Note_dmr_xpt_free_lcn n) (rx_id (dsd_rxid_note_dmr_xpt_free_lcn n s))"
  unfolding dsd_rxid_note_dmr_xpt_free_lcn_def Let_def
  by (rule note_shows [where P = "noted (rx_id s) (Note_dmr_xpt_free_lcn n)", OF dmr_finds], assumption)
    (simp_all add: noted_simps invalidate_fields rxid_copy_text_def)

lemma location_noted: "\<not> frame_lost s \<Longrightarrow> noted (rx_id s) (Note_nxdn_location c y t) (rx_id (dsd_rxid_note_nxdn_location c y t s))"
  unfolding dsd_rxid_note_nxdn_location_def Let_def
  by (split if_split, intro conjI impI, simp, rule note_shows [where P = "noted (rx_id s) (Note_nxdn_location c y t)", OF nxdn_finds], assumption)
    (simp_all add: noted_simps invalidate_fields rxid_copy_text_def)

lemma idas_area_noted: "\<not> frame_lost s \<Longrightarrow> noted (rx_id s) (Note_nxdn_idas_area n) (rx_id (dsd_rxid_note_nxdn_idas_area n s))"
  unfolding dsd_rxid_note_nxdn_idas_area_def Let_def
  by (rule note_shows [where P = "noted (rx_id s) (Note_nxdn_idas_area n)", OF nxdn_finds], assumption)
    (simp_all add: noted_simps invalidate_fields rxid_copy_text_def)

lemma idas_site_noted:
  assumes l: "\<not> frame_lost s"
  shows "noted (rx_id s) (Note_nxdn_idas_site n m) (rx_id (dsd_rxid_note_nxdn_idas_site n m s))"
proof (cases "n < 1 \<or> n > 3 \<or> m < 1 \<or> m > 250")
  case False
  show ?thesis
    unfolding dsd_rxid_note_nxdn_idas_site_def Let_def if_not_P [OF False]
    by (rule note_shows [where P = "noted (rx_id s) (Note_nxdn_idas_site n m)", OF nxdn_finds [OF l]])
      (simp add: noted_simps invalidate_fields)
qed (simp only: noted.simps, blast)

lemma typed_system_noted: "\<not> frame_lost s \<Longrightarrow> noted (rx_id s) (Note_nxdn_typed_system n m) (rx_id (dsd_rxid_note_nxdn_typed_system n m s))"
  unfolding dsd_rxid_note_nxdn_typed_system_def Let_def
  by (rule note_shows [where P = "noted (rx_id s) (Note_nxdn_typed_system n m)", OF nxdn_finds], assumption)
    (simp_all add: noted_simps invalidate_fields rxid_copy_text_def)

lemma edacs_site_noted: "\<not> frame_lost s \<Longrightarrow> noted (rx_id s) (Note_edacs_site n) (rx_id (dsd_rxid_note_edacs_site n s))"
  unfolding dsd_rxid_note_edacs_site_def Let_def
  by (rule note_shows [where P = "noted (rx_id s) (Note_edacs_site n)", OF edacs_finds], assumption)
    (simp_all add: noted_simps invalidate_fields rxid_copy_text_def)

lemma edacs_area_noted: "\<not> frame_lost s \<Longrightarrow> noted (rx_id s) (Note_edacs_area n) (rx_id (dsd_rxid_note_edacs_area n s))"
  unfolding dsd_rxid_note_edacs_area_def Let_def
  by (rule note_shows [where P = "noted (rx_id s) (Note_edacs_area n)", OF edacs_finds], assumption)
    (simp_all add: noted_simps invalidate_fields rxid_copy_text_def)

lemma edacs_system_noted: "\<not> frame_lost s \<Longrightarrow> noted (rx_id s) (Note_edacs_system n) (rx_id (dsd_rxid_note_edacs_system n s))"
  unfolding dsd_rxid_note_edacs_system_def Let_def
  by (rule note_shows [where P = "noted (rx_id s) (Note_edacs_system n)", OF edacs_finds], assumption)
    (simp_all add: noted_simps invalidate_fields rxid_copy_text_def)

lemma edacs_lcn_noted: "\<not> frame_lost s \<Longrightarrow> noted (rx_id s) (Note_edacs_cc_lcn n) (rx_id (dsd_rxid_note_edacs_cc_lcn n s))"
  unfolding dsd_rxid_note_edacs_cc_lcn_def Let_def
  by (rule note_shows [where P = "noted (rx_id s) (Note_edacs_cc_lcn n)", OF edacs_finds], assumption)
    (simp_all add: noted_simps invalidate_fields rxid_copy_text_def)

lemma tetra_cell_noted: "\<not> frame_lost s \<Longrightarrow> noted (rx_id s) (Note_tetra_cell n m c) (rx_id (dsd_rxid_note_tetra_cell n m c s))"
  unfolding dsd_rxid_note_tetra_cell_def Let_def
  by (rule note_shows [where P = "noted (rx_id s) (Note_tetra_cell n m c)", OF for_finds], assumption)
    (simp_all add: noted_simps invalidate_fields rxid_copy_text_def)

lemma cc_freq_noted:
  assumes "\<not> frame_lost s"
  shows "noted (rx_id s) (Note_cc_freq fam hz) (rx_id (dsd_rxid_note_cc_freq fam hz s))"
proof (cases "fam \<in> {DSD_RXID_FAMILY_NONE, DSD_RXID_FAMILY_OTHER}")
  case False
  then show ?thesis
    unfolding dsd_rxid_note_cc_freq_def
    by (split if_split, intro conjI impI, simp,
        intro note_shows [where P = "noted (rx_id s) (Note_cc_freq fam hz)", OF for_finds [OF assms]])
      (simp_all add: noted_simps)
qed auto

lemma record_found: "\<not> frame_lost s \<Longrightarrow> rxid_record s = Some (rx_id s)"
  by (auto simp: frame_lost_def rxid_record_def)

lemma tetra_la_noted: "noted (rx_id s) (Note_tetra_la n) (rx_id (dsd_rxid_note_tetra_la n s))" if "\<not> frame_lost s"
  using that by (simp add: dsd_rxid_note_tetra_la_def rxid_note_def rxid_tetra_def record_found noted_simps)

lemma tetra_other_noted: "noted (rx_id s) Note_tetra_other_cell (rx_id (dsd_rxid_note_tetra_other_cell s))" if "\<not> frame_lost s"
  using that by (simp add: dsd_rxid_note_tetra_other_cell_def rxid_note_def rxid_tetra_def record_found
      noted_simps invalidate_fields)

lemma tetra_direct_noted: "noted (rx_id s) Note_tetra_direct_mode (rx_id (dsd_rxid_note_tetra_direct_mode s))" if "\<not> frame_lost s"
  using that by (simp add: dsd_rxid_note_tetra_direct_mode_def rxid_note_def rxid_tetra_def record_found
      rxid_clear_def zero_identity_def)

lemma bound_found:
  assumes l: "\<not> frame_lost s" and ok: "rxid_ok (rx_id s)" and y: "y \<noteq> 0"
    and m: "\<not> (rxid_has DSD_RXID_P25_SYSID (rx_id s) \<and> p25_sysid (rx_id s) \<noteq> y)"
  shows "\<exists>r. rxid_p25_bound y s = Some (True, r) \<and> family r = DSD_RXID_FAMILY_P25"
proof -
  obtain r where r: "rxid_for DSD_RXID_FAMILY_P25 s = Some r" "family r = DSD_RXID_FAMILY_P25"
    using for_finds [OF l, of DSD_RXID_FAMILY_P25] by (auto simp: finds_def)
  have "\<not> (rxid_has DSD_RXID_P25_SYSID r \<and> p25_sysid r \<noteq> y)"
    using r(1)
  proof (cases rule: for_cases)
    case start
    then show ?thesis using ok_none [OF ok] by (simp add: rxid_has_def)
  next
    case replace
    then show ?thesis by (simp add: rxid_has_def rxid_clear_def zero_identity_def)
  qed (use m in simp)
  then show ?thesis using r y by (auto simp: rxid_p25_bound_def set_fields)
qed

lemma site_noted:
  assumes "\<not> frame_lost s" "rxid_ok (rx_id s)"
  shows "noted (rx_id s) (Note_p25_site y f t) (rx_id (dsd_rxid_note_p25_site y f t s))"
  using bound_found [OF assms, of "y AND 0xFFF"]
  by (cases "y AND 0xFFF = 0 \<or> rxid_has DSD_RXID_P25_SYSID (rx_id s) \<and> p25_sysid (rx_id s) \<noteq> y AND 0xFFF")
    (auto simp: dsd_rxid_note_p25_site_def Let_def noted_simps invalidate_fields)

lemma lra_noted:
  assumes "\<not> frame_lost s" "rxid_ok (rx_id s)"
  shows "noted (rx_id s) (Note_p25_lra y l) (rx_id (dsd_rxid_note_p25_lra y l s))"
  using bound_found [OF assms, of "y AND 0xFFF"]
  by (cases "y AND 0xFFF = 0 \<or> rxid_has DSD_RXID_P25_SYSID (rx_id s) \<and> p25_sysid (rx_id s) \<noteq> y AND 0xFFF")
    (auto simp: dsd_rxid_note_p25_lra_def noted_simps)

lemma exec_noted:
  assumes "rxid_ok (rx_id s)" "\<not> frame_lost s" "from_frame c"
  shows "noted (rx_id s) c (rx_id (rxid_exec c s))"
  using assms(3) access_noted [OF assms(2)] network_noted [OF assms(2)] site_noted [OF assms(2,1)] lra_noted [OF assms(2,1)]
    rest_lsn_noted [OF assms(2)] site_text_noted [OF assms(2)] brand_noted [OF assms(2)] vendor_noted [OF assms(2)]
    syscode_noted [OF assms(2)] free_lcn_noted [OF assms(2)] location_noted [OF assms(2)] idas_area_noted [OF assms(2)]
    idas_site_noted [OF assms(2)] typed_system_noted [OF assms(2)] edacs_site_noted [OF assms(2)] edacs_area_noted [OF assms(2)]
    edacs_system_noted [OF assms(2)] edacs_lcn_noted [OF assms(2)] tetra_cell_noted [OF assms(2)] tetra_la_noted [OF assms(2)]
    tetra_other_noted [OF assms(2)] tetra_direct_noted [OF assms(2)] cc_freq_noted [OF assms(2)]
  by (cases c) (simp_all only: rxid_exec.simps from_frame.simps)

section \<open>Properties\<close>


text \<open>
  C31. The epoch identifies the identity: if, over fewer than \<open>2\<^sup>3\<^sup>0\<close> operations, the epoch
  ends where it began, then every part but the access code that was valid is still valid, and
  the system, site, location and cell values are unchanged.
\<close>

theorem rxid_epoch_identifies:
  assumes "s = fold rxid_exec bs (dsd_rxid_reset z)" "length cs < 2 ^ 30"
    and "epoch (rx_id (fold rxid_exec cs s)) = epoch (rx_id s)"
  shows "same_identity (rx_id s) (rx_id (fold rxid_exec cs s))"
proof -
  have "rxid_ok (rx_id s)" unfolding assms(1) by (rule run_ok [OF reset_ok])
  then obtain k where k: "k \<le> 4 * length cs" "epoch (rx_id (fold rxid_exec cs s)) = epoch (rx_id s) + of_nat k"
    "k = 0 \<longrightarrow> same_identity (rx_id s) (rx_id (fold rxid_exec cs s))"
    using run_moves [of s cs] by (auto simp: moves_def)
  then have "(of_nat k :: u32) = 0" "k < 2 ^ 32" using assms(2,3) by simp_all
  then have "k = 0" by (auto simp: word_of_nat_eq_0_iff dest: dvd_imp_le)
  then show ?thesis using k(3) by simp
qed

definition idle_state :: rx_state where
  "idle_state = \<lparr>rx_id = zero_identity, rx_id_trunk_tune_pending = False, frame_dispatch_active = False,
     frame_dispatch_carrier_seq = 0, carrier_seq = 0, input_interrupted = False, ea_mode = 0\<rparr>"

theorem rxid_epoch_identifies_witness:
  "same_identity (rx_id (fold rxid_exec [Note_p25_network 0xBEE00 0x123] (dsd_rxid_reset idle_state)))
     (rx_id (fold rxid_exec [Note_p25_site 0x123 1 7, Trunk_tune]
        (fold rxid_exec [Note_p25_network 0xBEE00 0x123] (dsd_rxid_reset idle_state))))"
  by (rule rxid_epoch_identifies [OF refl])
    (simp_all add: idle_state_def dsd_rxid_reset_def rxid_clear_def zero_identity_def dsd_rxid_note_p25_network_def
      dsd_rxid_note_p25_site_def dsd_rxid_trunk_tune_def rxid_p25_bound_def rxid_note_def rxid_for_def rxid_record_def
      rxid_has_def flag_fields part_simps Let_def)

text \<open>
  A note made while the dispatched frame was read across a carrier change or an input
  interruption changes nothing; any other note leaves its value in the record, valid and
  fresh, in its own family, unless the value is reserved or names another P25 system's site.
\<close>

lemma rxid_note_gated_and_held:
  assumes "rxid_ok (rx_id s)" "from_frame c"
  shows "if frame_lost s then rxid_exec c s = s else noted (rx_id s) c (rx_id (rxid_exec c s))"
  using lost_note [OF _ assms(2)] exec_noted [OF assms(1) _ assms(2)] by simp

end
