(* ===== verification/Dmr_Confidence.thy ===== *)
theory Dmr_Confidence
  imports Rxid_Notes
begin

text \<open>
  The DMR colour-code gate, \<open>src/protocol/dmr/dmr_confidence.c\<close>: a state machine that locks
  on a colour code after two agreeing bursts, re-locks after four bursts of another one, and
  opens a voice slot after two bursts under the lock. Evidence of the lock goes to the
  received-identity record of \<open>Received_Identity\<close>. The decode clock is an argument (read
  twice by a voice burst that opens a slot); the signal-search hook is modelled by the list
  of protocol names it was called with. A null state is not modelled.
\<close>

section \<open>Model\<close>

definition DMR_CONFIDENCE_UNKNOWN_CC :: nat where "DMR_CONFIDENCE_UNKNOWN_CC = 16"
definition DMR_CONFIDENCE_LOCK_OBSERVES :: nat where "DMR_CONFIDENCE_LOCK_OBSERVES = 2"
definition DMR_CONFIDENCE_VOICE_OBSERVES :: nat where "DMR_CONFIDENCE_VOICE_OBSERVES = 2"
definition DMR_CONFIDENCE_RELOCK_OBSERVES :: nat where "DMR_CONFIDENCE_RELOCK_OBSERVES = 4"

datatype dmr_confidence_result = DMR_CONFIDENCE_REJECT | DMR_CONFIDENCE_PENDING | DMR_CONFIDENCE_LOCKED

record dmr_gate =
  dmr_confidence_locked :: bool
  dmr_confidence_color_code :: nat
  dmr_confidence_candidate_cc :: nat
  dmr_confidence_candidate_count :: nat
  dmr_confidence_mismatch_count :: nat
  dmr_confidence_voice_sync_seen :: "bool list"
  dmr_confidence_voice_open :: "bool list"
  dmr_confidence_voice_count :: "nat list"
  dmr_confidence_voice_m :: "int list"
  dmr_confidence_lock_m :: int
  dmr_color_code :: nat
  tdma_carrier :: bool
  rx :: rx_state
  signal_evidence :: "string list"

definition dmr_confidence_note_evidence :: "int \<Rightarrow> nat \<Rightarrow> dmr_gate \<Rightarrow> dmr_gate" where
  "dmr_confidence_note_evidence now color_code state =
     state\<lparr>dmr_confidence_lock_m := now, tdma_carrier := True,
       rx := dsd_rxid_note_access DSD_RXID_FAMILY_DMR DSD_ACCESS_CODE_COLOR_CODE (of_nat color_code) (rx state),
       signal_evidence := signal_evidence state @ [''DMR'']\<rparr>"

definition dmr_confidence_valid_cc :: "nat \<Rightarrow> bool" where
  "dmr_confidence_valid_cc color_code \<longleftrightarrow> color_code \<le> 15"

definition dmr_confidence_clear_voice :: "dmr_gate \<Rightarrow> dmr_gate" where
  "dmr_confidence_clear_voice state =
     state\<lparr>dmr_confidence_voice_sync_seen := [False, False], dmr_confidence_voice_open := [False, False],
       dmr_confidence_voice_count := [0, 0], dmr_confidence_voice_m := [0, 0]\<rparr>"

definition dmr_confidence_reset :: "dmr_gate \<Rightarrow> dmr_gate" where
  "dmr_confidence_reset state =
     dmr_confidence_clear_voice (state\<lparr>dmr_confidence_locked := False,
       dmr_confidence_color_code := DMR_CONFIDENCE_UNKNOWN_CC,
       dmr_confidence_candidate_cc := DMR_CONFIDENCE_UNKNOWN_CC, dmr_confidence_candidate_count := 0,
       dmr_confidence_mismatch_count := 0\<rparr>)"

definition dmr_confidence_reset_slot :: "nat \<Rightarrow> dmr_gate \<Rightarrow> dmr_gate" where
  "dmr_confidence_reset_slot slot state =
     (if slot \<ge> 2 then state
      else state\<lparr>dmr_confidence_voice_sync_seen := (dmr_confidence_voice_sync_seen state)[slot := False],
        dmr_confidence_voice_open := (dmr_confidence_voice_open state)[slot := False],
        dmr_confidence_voice_count := (dmr_confidence_voice_count state)[slot := 0],
        dmr_confidence_voice_m := (dmr_confidence_voice_m state)[slot := 0]\<rparr>)"

text \<open>The candidate streak, which both the search and the re-lock count with.\<close>

definition count_candidate :: "nat \<Rightarrow> dmr_gate \<Rightarrow> dmr_gate" where
  "count_candidate color_code state =
     (if dmr_confidence_candidate_cc state \<noteq> color_code
      then state\<lparr>dmr_confidence_candidate_cc := color_code, dmr_confidence_candidate_count := 1\<rparr>
      else if dmr_confidence_candidate_count state < 255
      then state\<lparr>dmr_confidence_candidate_count := dmr_confidence_candidate_count state + 1\<rparr>
      else state)"

definition dmr_confidence_observe_cc :: "int \<Rightarrow> nat \<Rightarrow> bool \<Rightarrow> dmr_gate \<Rightarrow> dmr_confidence_result \<times> dmr_gate" where
  "dmr_confidence_observe_cc now color_code may_lock state =
     (if \<not> dmr_confidence_valid_cc color_code then (DMR_CONFIDENCE_REJECT, state)
      else if dmr_confidence_locked state then
        if dmr_confidence_color_code state = color_code
        then (DMR_CONFIDENCE_LOCKED, dmr_confidence_note_evidence now color_code
               (state\<lparr>dmr_color_code := color_code, dmr_confidence_candidate_cc := DMR_CONFIDENCE_UNKNOWN_CC,
                  dmr_confidence_candidate_count := 0\<rparr>))
        else let state = (if dmr_confidence_mismatch_count state < 255
                          then state\<lparr>dmr_confidence_mismatch_count := dmr_confidence_mismatch_count state + 1\<rparr>
                          else state);
                 state = count_candidate color_code state
             in if dmr_confidence_candidate_count state \<ge> DMR_CONFIDENCE_RELOCK_OBSERVES
                then (DMR_CONFIDENCE_LOCKED, dmr_confidence_note_evidence now color_code
                       (dmr_confidence_clear_voice
                         (state\<lparr>dmr_confidence_color_code := color_code, dmr_color_code := color_code,
                            dmr_confidence_candidate_cc := DMR_CONFIDENCE_UNKNOWN_CC,
                            dmr_confidence_candidate_count := 0, dmr_confidence_mismatch_count := 0\<rparr>)))
                else (DMR_CONFIDENCE_REJECT, state)
      else let state = count_candidate color_code state
           in if may_lock \<and> dmr_confidence_candidate_count state \<ge> DMR_CONFIDENCE_LOCK_OBSERVES
              then (DMR_CONFIDENCE_LOCKED, dmr_confidence_note_evidence now color_code
                     (state\<lparr>dmr_confidence_locked := True, dmr_confidence_color_code := color_code,
                        dmr_color_code := color_code\<rparr>))
              else (DMR_CONFIDENCE_PENDING, state))"

definition dmr_confidence_note_voice_sync :: "nat \<Rightarrow> dmr_gate \<Rightarrow> dmr_gate" where
  "dmr_confidence_note_voice_sync slot state =
     (if slot \<ge> 2 then state
      else let state = state\<lparr>dmr_confidence_voice_sync_seen := (dmr_confidence_voice_sync_seen state)[slot := True]\<rparr>
           in if \<not> dmr_confidence_voice_open state ! slot
              then state\<lparr>dmr_confidence_voice_count := (dmr_confidence_voice_count state)[slot := 0]\<rparr> else state)"

definition dmr_confidence_note_voice_burst ::
  "int \<Rightarrow> int \<Rightarrow> nat \<Rightarrow> nat \<Rightarrow> dmr_gate \<Rightarrow> dmr_confidence_result \<times> dmr_gate" where
  "dmr_confidence_note_voice_burst now now' slot color_code state =
     (if slot \<ge> 2 then (DMR_CONFIDENCE_REJECT, state)
      else if \<not> dmr_confidence_voice_sync_seen state ! slot \<and> \<not> dmr_confidence_voice_open state ! slot
      then (DMR_CONFIDENCE_PENDING, state)
      else let was_locked = dmr_confidence_locked state;
               (cc_result, state) = dmr_confidence_observe_cc now color_code True state
           in if cc_result \<noteq> DMR_CONFIDENCE_LOCKED then (cc_result, state)
              else let count = dmr_confidence_voice_count state;
                       count = (if \<not> was_locked \<and> dmr_confidence_voice_sync_seen state ! slot
                                then count[slot := DMR_CONFIDENCE_VOICE_OBSERVES]
                                else if count ! slot < 255 then count[slot := count ! slot + 1] else count);
                       state = state\<lparr>dmr_confidence_voice_count := count\<rparr>
                   in if count ! slot \<ge> DMR_CONFIDENCE_VOICE_OBSERVES
                      then let state = state\<lparr>dmr_confidence_voice_open := (dmr_confidence_voice_open state)[slot := True]\<rparr>;
                               state = dmr_confidence_note_evidence now' (dmr_confidence_color_code state) state
                           in (DMR_CONFIDENCE_LOCKED, state\<lparr>dmr_confidence_voice_m :=
                                (dmr_confidence_voice_m state)[slot := dmr_confidence_lock_m state]\<rparr>)
                      else (DMR_CONFIDENCE_PENDING, state))"

definition dmr_confidence_note_data_burst :: "int \<Rightarrow> nat \<Rightarrow> dmr_gate \<Rightarrow> dmr_confidence_result \<times> dmr_gate" where
  "dmr_confidence_note_data_burst now color_code state =
     (if \<not> dmr_confidence_valid_cc color_code then (DMR_CONFIDENCE_REJECT, state)
      else if dmr_confidence_locked state then dmr_confidence_observe_cc now color_code False state
      else dmr_confidence_observe_cc now color_code True state)"

definition dmr_confidence_voice_slot_open :: "dmr_gate \<Rightarrow> nat \<Rightarrow> bool" where
  "dmr_confidence_voice_slot_open state slot = (if slot \<ge> 2 then False else dmr_confidence_voice_open state ! slot)"

definition dmr_confidence_any_voice_open :: "dmr_gate \<Rightarrow> bool" where
  "dmr_confidence_any_voice_open state = (dmr_confidence_voice_open state ! 0 \<or> dmr_confidence_voice_open state ! 1)"

section \<open>Runs with the colour codes they observed\<close>

text \<open>
  \<open>gate_run h s\<close>: state \<open>s\<close> is reached from a reset by calls of the gate, and \<open>h\<close> lists the
  valid colour codes its observations took, the latest first. A voice burst on a slot with
  neither a sync nor an open gate is not an observation.
\<close>

definition voice_observes :: "nat \<Rightarrow> nat \<Rightarrow> dmr_gate \<Rightarrow> bool" where
  "voice_observes slot c s \<longleftrightarrow> slot < 2 \<and> dmr_confidence_valid_cc c \<and>
     (dmr_confidence_voice_sync_seen s ! slot \<or> dmr_confidence_voice_open s ! slot)"

inductive gate_run :: "nat list \<Rightarrow> dmr_gate \<Rightarrow> bool" where
  start: "gate_run [] (dmr_confidence_reset s)"
| slot_reset: "gate_run h s \<Longrightarrow> gate_run h (dmr_confidence_reset_slot slot s)"
| voice_sync: "gate_run h s \<Longrightarrow> gate_run h (dmr_confidence_note_voice_sync slot s)"
| data_burst: "gate_run h s \<Longrightarrow>
    gate_run (if dmr_confidence_valid_cc c then c # h else h) (snd (dmr_confidence_note_data_burst now c s))"
| voice_burst: "gate_run h s \<Longrightarrow>
    gate_run (if voice_observes slot c s then c # h else h) (snd (dmr_confidence_note_voice_burst now now' slot c s))"

inductive_cases gate_runE: "gate_run h s"

section \<open>Invariant\<close>

definition voice_ok :: "dmr_gate \<Rightarrow> bool" where
  "voice_ok s \<longleftrightarrow> length (dmr_confidence_voice_sync_seen s) = 2 \<and> length (dmr_confidence_voice_open s) = 2 \<and>
     length (dmr_confidence_voice_count s) = 2 \<and> length (dmr_confidence_voice_m s) = 2 \<and>
     (\<forall>i < 2. dmr_confidence_voice_open s ! i \<longrightarrow>
        dmr_confidence_locked s \<and> 2 \<le> dmr_confidence_voice_count s ! i) \<and>
     (\<forall>i < 2. dmr_confidence_voice_count s ! i \<le> 255)"

definition streak_ok :: "nat list \<Rightarrow> dmr_gate \<Rightarrow> bool" where
  "streak_ok h s \<longleftrightarrow>
     take (dmr_confidence_candidate_count s) h = replicate (dmr_confidence_candidate_count s) (dmr_confidence_candidate_cc s) \<and>
     dmr_confidence_candidate_count s < 4 \<and>
     (if dmr_confidence_locked s then dmr_confidence_color_code s \<le> 15 \<and> dmr_color_code s = dmr_confidence_color_code s
      else dmr_confidence_color_code s = 16 \<and> dmr_confidence_candidate_count s < 2) \<and>
     (dmr_confidence_candidate_cc s = 16 \<longrightarrow> dmr_confidence_candidate_count s = 0)"

lemmas gate_constants = DMR_CONFIDENCE_UNKNOWN_CC_def DMR_CONFIDENCE_LOCK_OBSERVES_def
  DMR_CONFIDENCE_VOICE_OBSERVES_def DMR_CONFIDENCE_RELOCK_OBSERVES_def

text \<open>Evidence touches neither the streak nor the voice slots.\<close>

lemma evidence_fields [simp]:
  "dmr_confidence_locked (dmr_confidence_note_evidence now c s) = dmr_confidence_locked s"
  "dmr_confidence_color_code (dmr_confidence_note_evidence now c s) = dmr_confidence_color_code s"
  "dmr_confidence_candidate_cc (dmr_confidence_note_evidence now c s) = dmr_confidence_candidate_cc s"
  "dmr_confidence_candidate_count (dmr_confidence_note_evidence now c s) = dmr_confidence_candidate_count s"
  "dmr_confidence_mismatch_count (dmr_confidence_note_evidence now c s) = dmr_confidence_mismatch_count s"
  "dmr_confidence_voice_sync_seen (dmr_confidence_note_evidence now c s) = dmr_confidence_voice_sync_seen s"
  "dmr_confidence_voice_open (dmr_confidence_note_evidence now c s) = dmr_confidence_voice_open s"
  "dmr_confidence_voice_count (dmr_confidence_note_evidence now c s) = dmr_confidence_voice_count s"
  "dmr_confidence_voice_m (dmr_confidence_note_evidence now c s) = dmr_confidence_voice_m s"
  "dmr_confidence_lock_m (dmr_confidence_note_evidence now c s) = now"
  "dmr_color_code (dmr_confidence_note_evidence now c s) = dmr_color_code s"
  "tdma_carrier (dmr_confidence_note_evidence now c s)"
  by (simp_all add: dmr_confidence_note_evidence_def)

lemma clear_voice_fields [simp]:
  "dmr_confidence_locked (dmr_confidence_clear_voice s) = dmr_confidence_locked s"
  "dmr_confidence_color_code (dmr_confidence_clear_voice s) = dmr_confidence_color_code s"
  "dmr_confidence_candidate_cc (dmr_confidence_clear_voice s) = dmr_confidence_candidate_cc s"
  "dmr_confidence_candidate_count (dmr_confidence_clear_voice s) = dmr_confidence_candidate_count s"
  "dmr_confidence_voice_sync_seen (dmr_confidence_clear_voice s) = [False, False]"
  "dmr_confidence_voice_open (dmr_confidence_clear_voice s) = [False, False]"
  "dmr_confidence_voice_count (dmr_confidence_clear_voice s) = [0, 0]"
  "dmr_confidence_voice_m (dmr_confidence_clear_voice s) = [0, 0]"
  "dmr_color_code (dmr_confidence_clear_voice s) = dmr_color_code s"
  "rx (dmr_confidence_clear_voice s) = rx s"
  by (simp_all add: dmr_confidence_clear_voice_def)

lemma count_fields [simp]:
  "dmr_confidence_locked (count_candidate c s) = dmr_confidence_locked s"
  "dmr_confidence_color_code (count_candidate c s) = dmr_confidence_color_code s"
  "dmr_confidence_candidate_cc (count_candidate c s) = c"
  "dmr_confidence_voice_sync_seen (count_candidate c s) = dmr_confidence_voice_sync_seen s"
  "dmr_confidence_voice_open (count_candidate c s) = dmr_confidence_voice_open s"
  "dmr_confidence_voice_count (count_candidate c s) = dmr_confidence_voice_count s"
  "dmr_confidence_voice_m (count_candidate c s) = dmr_confidence_voice_m s"
  "dmr_color_code (count_candidate c s) = dmr_color_code s"
  "rx (count_candidate c s) = rx s"
  by (simp_all add: count_candidate_def)

lemma count_mismatch: "dmr_confidence_candidate_count (count_candidate c (s\<lparr>dmr_confidence_mismatch_count := n\<rparr>)) =
    dmr_confidence_candidate_count (count_candidate c s)"
  by (simp add: count_candidate_def)

lemma count_le: "dmr_confidence_candidate_count (count_candidate c s) \<le> Suc (dmr_confidence_candidate_count s)"
  by (simp add: count_candidate_def)

lemma count_streak:
  "streak_ok h s \<Longrightarrow>
   take (dmr_confidence_candidate_count (count_candidate c s)) (c # h) =
     replicate (dmr_confidence_candidate_count (count_candidate c s)) c"
  by (simp add: count_candidate_def streak_ok_def)

text \<open>The three outcomes of an observation, with the streak that leads to each.\<close>

lemma observe_locked_same:
  assumes "dmr_confidence_valid_cc c" "dmr_confidence_locked s" "dmr_confidence_color_code s = c"
  shows "dmr_confidence_observe_cc now c may s =
    (DMR_CONFIDENCE_LOCKED, dmr_confidence_note_evidence now c
       (s\<lparr>dmr_color_code := c, dmr_confidence_candidate_cc := 16, dmr_confidence_candidate_count := 0\<rparr>))"
  using assms by (simp add: dmr_confidence_observe_cc_def gate_constants)

lemma observe_locked_other:
  assumes "dmr_confidence_valid_cc c" "dmr_confidence_locked s" "dmr_confidence_color_code s \<noteq> c"
  obtains n where "dmr_confidence_observe_cc now c may s =
    (let u = count_candidate c (s\<lparr>dmr_confidence_mismatch_count := n\<rparr>)
     in if dmr_confidence_candidate_count u \<ge> 4
        then (DMR_CONFIDENCE_LOCKED, dmr_confidence_note_evidence now c (dmr_confidence_clear_voice
               (u\<lparr>dmr_confidence_color_code := c, dmr_color_code := c, dmr_confidence_candidate_cc := 16,
                  dmr_confidence_candidate_count := 0, dmr_confidence_mismatch_count := 0\<rparr>)))
        else (DMR_CONFIDENCE_REJECT, u))"
proof -
  have "(if dmr_confidence_mismatch_count s < 255
      then s\<lparr>dmr_confidence_mismatch_count := dmr_confidence_mismatch_count s + 1\<rparr> else s) =
    s\<lparr>dmr_confidence_mismatch_count := min 255 (dmr_confidence_mismatch_count s + 1) + (dmr_confidence_mismatch_count s - 255)\<rparr>"
    by simp
  then show thesis
    using assms by (intro that) (simp only: dmr_confidence_observe_cc_def gate_constants Let_def if_True if_False not_True_eq_False simp_thms)
qed

lemma observe_unlocked:
  assumes "dmr_confidence_valid_cc c" "\<not> dmr_confidence_locked s"
  shows "dmr_confidence_observe_cc now c may s =
    (let u = count_candidate c s
     in if may \<and> dmr_confidence_candidate_count u \<ge> 2
        then (DMR_CONFIDENCE_LOCKED, dmr_confidence_note_evidence now c
               (u\<lparr>dmr_confidence_locked := True, dmr_confidence_color_code := c, dmr_color_code := c\<rparr>))
        else (DMR_CONFIDENCE_PENDING, u))"
  using assms by (simp add: dmr_confidence_observe_cc_def gate_constants)

lemma observe_streak:
  assumes s: "streak_ok h s" and c: "dmr_confidence_valid_cc c" and may: "may \<or> dmr_confidence_locked s"
  shows "streak_ok (c # h) (snd (dmr_confidence_observe_cc now c may s))"
proof -
  have c15: "c \<le> 15" using c by (simp add: dmr_confidence_valid_cc_def)
  note count = count_streak [OF s, of c] count_le [of c s]
  show ?thesis
  proof (cases "dmr_confidence_locked s")
    case True
    show ?thesis
    proof (cases "dmr_confidence_color_code s = c")
      case same: True
      show ?thesis using c15 True same by (simp add: observe_locked_same [OF c True same] streak_ok_def)
    next
      case False
      obtain n where "dmr_confidence_observe_cc now c may s =
        (let u = count_candidate c (s\<lparr>dmr_confidence_mismatch_count := n\<rparr>)
         in if dmr_confidence_candidate_count u \<ge> 4
            then (DMR_CONFIDENCE_LOCKED, dmr_confidence_note_evidence now c (dmr_confidence_clear_voice
                   (u\<lparr>dmr_confidence_color_code := c, dmr_color_code := c, dmr_confidence_candidate_cc := 16,
                      dmr_confidence_candidate_count := 0, dmr_confidence_mismatch_count := 0\<rparr>)))
            else (DMR_CONFIDENCE_REJECT, u))"
        using observe_locked_other [OF c True False] .
      then show ?thesis using c15 s count True by (simp add: Let_def streak_ok_def count_mismatch)
    qed
  next
    case False
    then have "may" using may by simp
    then show ?thesis
      using c15 s count False by (simp add: observe_unlocked [OF c False] Let_def streak_ok_def)
  qed
qed

text \<open>An observation keeps the voice slots or, on a re-lock, clears them; it never unlocks.\<close>

lemma voice_ok_same:
  assumes "voice_ok s" "dmr_confidence_voice_sync_seen u = dmr_confidence_voice_sync_seen s"
    "dmr_confidence_voice_open u = dmr_confidence_voice_open s" "dmr_confidence_voice_count u = dmr_confidence_voice_count s"
    "dmr_confidence_voice_m u = dmr_confidence_voice_m s" "dmr_confidence_locked s \<Longrightarrow> dmr_confidence_locked u"
  shows "voice_ok u"
  using assms by (auto simp: voice_ok_def)

lemma voice_ok_cleared:
  "dmr_confidence_voice_sync_seen u = [False, False] \<Longrightarrow> dmr_confidence_voice_open u = [False, False] \<Longrightarrow>
   dmr_confidence_voice_count u = [0, 0] \<Longrightarrow> dmr_confidence_voice_m u = [0, 0] \<Longrightarrow> voice_ok u"
  by (auto simp: voice_ok_def less_2_cases_iff)

lemma observe_voice:
  assumes v: "voice_ok s"
  shows "voice_ok (snd (dmr_confidence_observe_cc now c may s)) \<and>
    (fst (dmr_confidence_observe_cc now c may s) = DMR_CONFIDENCE_LOCKED \<longrightarrow>
      dmr_confidence_locked (snd (dmr_confidence_observe_cc now c may s)) \<and>
      dmr_confidence_color_code (snd (dmr_confidence_observe_cc now c may s)) = c \<and> dmr_confidence_valid_cc c)"
proof (cases "dmr_confidence_valid_cc c")
  case c: True
  show ?thesis
  proof (cases "dmr_confidence_locked s")
    case l: True
    show ?thesis
    proof (cases "dmr_confidence_color_code s = c")
      case True
      show ?thesis using c l True by (simp add: observe_locked_same [OF c l True] voice_ok_same [OF v])
    next
      case False
      obtain n where "dmr_confidence_observe_cc now c may s =
        (let u = count_candidate c (s\<lparr>dmr_confidence_mismatch_count := n\<rparr>)
         in if dmr_confidence_candidate_count u \<ge> 4
            then (DMR_CONFIDENCE_LOCKED, dmr_confidence_note_evidence now c (dmr_confidence_clear_voice
                   (u\<lparr>dmr_confidence_color_code := c, dmr_color_code := c, dmr_confidence_candidate_cc := 16,
                      dmr_confidence_candidate_count := 0, dmr_confidence_mismatch_count := 0\<rparr>)))
            else (DMR_CONFIDENCE_REJECT, u))"
        using observe_locked_other [OF c l False] .
      then show ?thesis using c l by (simp add: Let_def voice_ok_cleared voice_ok_same [OF v])
    qed
  next
    case False
    have "voice_ok (count_candidate c s)" by (rule voice_ok_same [OF v]) simp_all
    then show ?thesis using c False by (simp add: observe_unlocked [OF c False] Let_def voice_ok_same [OF v])
  qed
qed (simp add: dmr_confidence_observe_cc_def v)

lemma voice_ok_reset: "voice_ok (dmr_confidence_reset s)"
  by (auto simp: dmr_confidence_reset_def voice_ok_def less_2_cases_iff)

lemma voice_ok_reset_slot: "voice_ok s \<Longrightarrow> voice_ok (dmr_confidence_reset_slot slot s)"
  by (auto simp: dmr_confidence_reset_slot_def voice_ok_def nth_list_update)

lemma voice_ok_sync: "voice_ok s \<Longrightarrow> voice_ok (dmr_confidence_note_voice_sync slot s)"
  by (auto simp: dmr_confidence_note_voice_sync_def Let_def voice_ok_def nth_list_update)

lemma voice_ok_data: "voice_ok s \<Longrightarrow> voice_ok (snd (dmr_confidence_note_data_burst now c s))"
  by (simp add: dmr_confidence_note_data_burst_def observe_voice)

text \<open>What a voice burst does once its colour code was accepted.\<close>

definition count_voice :: "bool \<Rightarrow> nat \<Rightarrow> dmr_gate \<Rightarrow> nat list" where
  "count_voice was_locked slot s =
     (if \<not> was_locked \<and> dmr_confidence_voice_sync_seen s ! slot then (dmr_confidence_voice_count s)[slot := 2]
      else if dmr_confidence_voice_count s ! slot < 255
      then (dmr_confidence_voice_count s)[slot := dmr_confidence_voice_count s ! slot + 1] else dmr_confidence_voice_count s)"

definition open_voice :: "bool \<Rightarrow> int \<Rightarrow> nat \<Rightarrow> dmr_gate \<Rightarrow> dmr_confidence_result \<times> dmr_gate" where
  "open_voice was_locked now' slot s =
     (let u = s\<lparr>dmr_confidence_voice_count := count_voice was_locked slot s\<rparr>
      in if 2 \<le> dmr_confidence_voice_count u ! slot
         then let v = dmr_confidence_note_evidence now' (dmr_confidence_color_code u)
                        (u\<lparr>dmr_confidence_voice_open := (dmr_confidence_voice_open u)[slot := True]\<rparr>)
              in (DMR_CONFIDENCE_LOCKED, v\<lparr>dmr_confidence_voice_m := (dmr_confidence_voice_m v)[slot := now']\<rparr>)
         else (DMR_CONFIDENCE_PENDING, u))"

lemma voice_burst_cases:
  "dmr_confidence_note_voice_burst now now' slot c s =
    (if slot \<ge> 2 then (DMR_CONFIDENCE_REJECT, s)
     else if \<not> dmr_confidence_voice_sync_seen s ! slot \<and> \<not> dmr_confidence_voice_open s ! slot
     then (DMR_CONFIDENCE_PENDING, s)
     else let (res, u) = dmr_confidence_observe_cc now c True s
          in if res = DMR_CONFIDENCE_LOCKED then open_voice (dmr_confidence_locked s) now' slot u else (res, u))"
  by (simp add: dmr_confidence_note_voice_burst_def open_voice_def count_voice_def gate_constants Let_def split: prod.split)

lemma count_voice_ok:
  "voice_ok s \<Longrightarrow> slot < 2 \<Longrightarrow> length (count_voice w slot s) = 2 \<and> (\<forall>i < 2. count_voice w slot s ! i \<le> 255) \<and>
   (\<forall>i < 2. dmr_confidence_voice_open s ! i \<longrightarrow> 2 \<le> count_voice w slot s ! i)"
  by (auto simp: count_voice_def voice_ok_def nth_list_update)

lemma open_voice_ok:
  "voice_ok s \<Longrightarrow> slot < 2 \<Longrightarrow> dmr_confidence_locked s \<Longrightarrow> voice_ok (snd (open_voice w now' slot s))"
  using count_voice_ok [of s slot w] by (auto simp: open_voice_def Let_def voice_ok_def nth_list_update)

lemma open_voice_streak: "streak_ok h (snd (open_voice w now' slot s)) \<longleftrightarrow> streak_ok h s"
  by (simp add: open_voice_def Let_def streak_ok_def)

lemma voice_ok_burst: "voice_ok s \<Longrightarrow> voice_ok (snd (dmr_confidence_note_voice_burst now now' slot c s))"
  using observe_voice [of s now c True]
  by (auto simp: voice_burst_cases Let_def open_voice_ok split: prod.split)

lemma invalid_reject: "\<not> dmr_confidence_valid_cc c \<Longrightarrow> dmr_confidence_observe_cc now c may s = (DMR_CONFIDENCE_REJECT, s)"
  by (simp add: dmr_confidence_observe_cc_def)

lemma streak_ok_voice:
  assumes "streak_ok h s"
  shows "streak_ok (if voice_observes slot c s then c # h else h) (snd (dmr_confidence_note_voice_burst now now' slot c s))"
  using assms observe_streak [OF assms, of c True now] invalid_reject [of c now True s]
  by (auto simp: voice_burst_cases voice_observes_def Let_def open_voice_streak split: prod.split)

lemma gate_run_ok: "gate_run h s \<Longrightarrow> voice_ok s \<and> streak_ok h s"
proof (induction rule: gate_run.induct)
  case (start s)
  then show ?case by (simp add: voice_ok_reset) (simp add: streak_ok_def dmr_confidence_reset_def gate_constants)
next
  case (slot_reset h s slot)
  then show ?case by (simp add: voice_ok_reset_slot) (simp add: streak_ok_def dmr_confidence_reset_slot_def)
next
  case (voice_sync h s slot)
  then show ?case by (simp add: voice_ok_sync) (simp add: streak_ok_def dmr_confidence_note_voice_sync_def Let_def)
next
  case (data_burst h s c now)
  then show ?case by (simp add: voice_ok_data) (simp add: dmr_confidence_note_data_burst_def observe_streak)
next
  case (voice_burst h s slot c now now')
  then show ?case by (simp add: voice_ok_burst streak_ok_voice)
qed

text \<open>Four bursts in a row of one code lock the gate on it, whatever it was locked on.\<close>

fun data_bursts :: "int \<Rightarrow> nat list \<Rightarrow> dmr_gate \<Rightarrow> dmr_gate" where
  "data_bursts now [] s = s"
| "data_bursts now (c # cs) s = data_bursts now cs (snd (dmr_confidence_note_data_burst now c s))"

definition locked_on :: "nat \<Rightarrow> dmr_gate \<Rightarrow> bool" where
  "locked_on c s \<longleftrightarrow> dmr_confidence_locked s \<and> dmr_confidence_color_code s = c"

lemma data_observe:
  "dmr_confidence_valid_cc c \<Longrightarrow>
   dmr_confidence_note_data_burst now c s = dmr_confidence_observe_cc now c (\<not> dmr_confidence_locked s) s"
  by (simp add: dmr_confidence_note_data_burst_def)

lemma data_locked_on:
  assumes "dmr_confidence_valid_cc c" "locked_on c s"
  shows "locked_on c (snd (dmr_confidence_note_data_burst now c s))"
  using assms observe_locked_same [of c s] by (simp add: locked_on_def data_observe)

lemma data_progress:
  assumes c: "dmr_confidence_valid_cc c" and "\<not> locked_on c s"
  shows "locked_on c (snd (dmr_confidence_note_data_burst now c s)) \<or>
    (\<not> locked_on c (snd (dmr_confidence_note_data_burst now c s)) \<and>
     dmr_confidence_candidate_cc (snd (dmr_confidence_note_data_burst now c s)) = c \<and>
     dmr_confidence_candidate_count (snd (dmr_confidence_note_data_burst now c s)) =
       dmr_confidence_candidate_count (count_candidate c s) \<and>
     dmr_confidence_candidate_count (count_candidate c s) < 4)"
proof (cases "dmr_confidence_locked s")
  case True
  then have ne: "dmr_confidence_color_code s \<noteq> c" using assms(2) by (simp add: locked_on_def)
  obtain n where "dmr_confidence_observe_cc now c False s =
        (let u = count_candidate c (s\<lparr>dmr_confidence_mismatch_count := n\<rparr>)
         in if dmr_confidence_candidate_count u \<ge> 4
            then (DMR_CONFIDENCE_LOCKED, dmr_confidence_note_evidence now c (dmr_confidence_clear_voice
                   (u\<lparr>dmr_confidence_color_code := c, dmr_color_code := c, dmr_confidence_candidate_cc := 16,
                      dmr_confidence_candidate_count := 0, dmr_confidence_mismatch_count := 0\<rparr>)))
            else (DMR_CONFIDENCE_REJECT, u))"
    using observe_locked_other [OF c True ne] .
  then show ?thesis using c True ne by (simp add: data_observe Let_def locked_on_def count_mismatch)
next
  case False
  then show ?thesis
    using c by (simp add: data_observe observe_unlocked [OF c False] Let_def locked_on_def)
qed

lemma four_bursts_lock:
  assumes c: "dmr_confidence_valid_cc c"
  shows "locked_on c (data_bursts now [c, c, c, c] s)"
proof -
  define t where "t n = ((\<lambda>u. snd (dmr_confidence_note_data_burst now c u)) ^^ n) s" for n
  have next_t: "t (Suc n) = snd (dmr_confidence_note_data_burst now c (t n))" for n by (simp add: t_def)
  have step: "locked_on c (t (Suc n)) \<or> n < dmr_confidence_candidate_count (t (Suc n)) \<and>
      dmr_confidence_candidate_cc (t (Suc n)) = c \<and> dmr_confidence_candidate_count (t (Suc n)) < 4" for n
  proof (induction n)
    case 0
    show ?case
      using data_locked_on [OF c, of "t 0" now] data_progress [OF c, of "t 0" now]
      by (cases "locked_on c (t 0)") (auto simp: next_t count_candidate_def split: if_splits)
  next
    case (Suc n)
    then show ?case
      using data_locked_on [OF c, of "t (Suc n)" now] data_progress [OF c, of "t (Suc n)" now]
        next_t [of "Suc n"]
      by (cases "locked_on c (t (Suc n))") (auto simp: count_candidate_def split: if_splits)
  qed
  have "locked_on c (t (Suc 3))" using step [of 3] by auto
  then show ?thesis by (simp add: t_def numeral_eq_Suc)
qed

text \<open>The lock changes only on a streak of the new code.\<close>

lemma observe_changes:
  assumes s: "streak_ok h s" and c: "dmr_confidence_valid_cc c" and may: "may \<or> dmr_confidence_locked s"
    and ch: "dmr_confidence_color_code (snd (dmr_confidence_observe_cc now c may s)) \<noteq> dmr_confidence_color_code s"
  shows "locked_on c (snd (dmr_confidence_observe_cc now c may s)) \<and>
    (if dmr_confidence_locked s then take 4 (c # h) = replicate 4 c else take 2 (c # h) = replicate 2 c)"
proof -
  note count = count_streak [OF s, of c] count_le [of c s]
  have s4: "dmr_confidence_candidate_count s < 4" and s2: "\<not> dmr_confidence_locked s \<Longrightarrow> dmr_confidence_candidate_count s < 2"
    using s by (auto simp: streak_ok_def)
  show ?thesis
  proof (cases "dmr_confidence_locked s")
    case l: True
    then have ne: "dmr_confidence_color_code s \<noteq> c"
      using ch observe_locked_same [OF c l, of now may] by auto
    obtain n where o: "dmr_confidence_observe_cc now c may s =
        (let u = count_candidate c (s\<lparr>dmr_confidence_mismatch_count := n\<rparr>)
         in if dmr_confidence_candidate_count u \<ge> 4
            then (DMR_CONFIDENCE_LOCKED, dmr_confidence_note_evidence now c (dmr_confidence_clear_voice
                   (u\<lparr>dmr_confidence_color_code := c, dmr_color_code := c, dmr_confidence_candidate_cc := 16,
                      dmr_confidence_candidate_count := 0, dmr_confidence_mismatch_count := 0\<rparr>)))
            else (DMR_CONFIDENCE_REJECT, u))"
      using observe_locked_other [OF c l ne] .
    then have n4: "dmr_confidence_candidate_count (count_candidate c s) = 4"
      using ch count(2) s4 by (simp add: Let_def count_mismatch split: if_splits)
    show ?thesis using count(1) l by (simp add: o Let_def count_mismatch locked_on_def n4)
  next
    case False
    then have n2: "dmr_confidence_candidate_count (count_candidate c s) = 2" and may
      using ch count(2) s2 may by (simp_all add: observe_unlocked [OF c False] Let_def split: if_splits)
    show ?thesis using count(1) False \<open>may\<close>
      by (simp add: observe_unlocked [OF c False] Let_def locked_on_def n2)
  qed
qed

lemma open_voice_color [simp]:
  "dmr_confidence_color_code (snd (open_voice w now' slot s)) = dmr_confidence_color_code s"
  "dmr_confidence_locked (snd (open_voice w now' slot s)) = dmr_confidence_locked s"
  by (simp_all add: open_voice_def Let_def)

lemma voice_changes:
  assumes s: "streak_ok h s"
    and ch: "dmr_confidence_color_code (snd (dmr_confidence_note_voice_burst now now' slot c s)) \<noteq> dmr_confidence_color_code s"
  shows "locked_on c (snd (dmr_confidence_note_voice_burst now now' slot c s)) \<and>
    (if dmr_confidence_locked s then take 4 (c # h) = replicate 4 c else take 2 (c # h) = replicate 2 c)"
proof -
  have v: "dmr_confidence_valid_cc c"
  proof (rule ccontr)
    assume "\<not> dmr_confidence_valid_cc c"
    then show False using ch by (simp add: voice_burst_cases invalid_reject Let_def split: if_splits)
  qed
  have "dmr_confidence_color_code (snd (dmr_confidence_observe_cc now c True s)) \<noteq> dmr_confidence_color_code s"
    using ch by (auto simp: voice_burst_cases Let_def split: if_splits prod.splits)
  from observe_changes [OF s v _ this] show ?thesis
    using ch by (auto simp: voice_burst_cases Let_def locked_on_def split: if_splits prod.splits)
qed

text \<open>The identity record after evidence of a lock.\<close>

lemma note_access_gate [simp]: "frame_lost (dsd_rxid_note_access fam k v s) = frame_lost s"
  by (simp add: dsd_rxid_note_access_def rxid_note_def frame_lost_def dsd_state_frame_read_lost_def split: option.split)

definition shows_code :: "nat \<Rightarrow> received_identity \<Rightarrow> bool" where
  "shows_code c r \<longleftrightarrow> family r = DSD_RXID_FAMILY_DMR \<and> holds DSD_RXID_ACCESS r \<and>
     access_kind r = DSD_ACCESS_CODE_COLOR_CODE \<and> access r = of_nat c"

lemma evidence_rx: "rx (dmr_confidence_note_evidence now c s) =
    dsd_rxid_note_access DSD_RXID_FAMILY_DMR DSD_ACCESS_CODE_COLOR_CODE (of_nat c) (rx s)"
  by (simp add: dmr_confidence_note_evidence_def)

text \<open>
  What the gate relies on of the identity record: a noted code is shown unless the frame was
  lost, and a note does not change whether it was.
\<close>

locale identity_sink =
  fixes note_code :: "nat \<Rightarrow> 's \<Rightarrow> 's" and lost :: "'s \<Rightarrow> bool" and shown :: "nat \<Rightarrow> 's \<Rightarrow> bool"
  assumes note_shown: "\<not> lost s \<Longrightarrow> shown c (note_code c s)"
    and note_lost: "lost (note_code c s) = lost s"
begin

lemma last_note_shown: "\<not> lost s \<Longrightarrow> shown c (note_code c (fold note_code cs s))"
proof -
  have "lost (fold note_code cs s) = lost s" by (induction cs arbitrary: s) (simp_all add: note_lost)
  then show "\<not> lost s \<Longrightarrow> shown c (note_code c (fold note_code cs s))" by (simp add: note_shown)
qed

end

interpretation dmr_sink: identity_sink
  "\<lambda>c. dsd_rxid_note_access DSD_RXID_FAMILY_DMR DSD_ACCESS_CODE_COLOR_CODE (of_nat c)" frame_lost "\<lambda>c s. shows_code c (rx_id s)"
  using access_noted [of _ DSD_RXID_FAMILY_DMR DSD_ACCESS_CODE_COLOR_CODE]
  by unfold_locales (simp_all add: shows_code_def)

lemma evidence_shows: "\<not> frame_lost (rx s) \<Longrightarrow> shows_code c (rx_id (rx (dmr_confidence_note_evidence now c s)))"
  using dmr_sink.last_note_shown [of "rx s" c "[]"] by (simp add: evidence_rx)

lemma evidence_lost: "frame_lost (rx s) \<Longrightarrow> rx (dmr_confidence_note_evidence now c s) = rx s"
  by (simp add: evidence_rx dsd_rxid_note_access_def rxid_note_def lost_lookups)

text \<open>What evidence of a code leaves in the identity record, in a frame that was lost and in one that was not.\<close>

definition reaches_identity :: "nat \<Rightarrow> dmr_gate \<Rightarrow> dmr_gate \<Rightarrow> bool" where
  "reaches_identity c s u \<longleftrightarrow> (if frame_lost (rx s) then rx u = rx s else shows_code c (rx_id (rx u)))"

lemma evidence_reaches: "rx u = rx s \<Longrightarrow> reaches_identity c s (dmr_confidence_note_evidence now c u)"
  using evidence_shows [of u c now] evidence_lost [of u now c] by (simp add: reaches_identity_def)

lemma evidence_reaches_again:
  "reaches_identity c s u \<Longrightarrow> rx v = rx u \<Longrightarrow> frame_lost (rx u) = frame_lost (rx s) \<Longrightarrow>
   reaches_identity c s (dmr_confidence_note_evidence now c v)"
  using evidence_shows [of v c now] evidence_lost [of v now c] by (simp add: reaches_identity_def)

lemma count_mismatch_rx [simp]: "rx (s\<lparr>dmr_confidence_mismatch_count := n\<rparr>) = rx s"
  by simp

lemma observe_frame_lost: "frame_lost (rx (snd (dmr_confidence_observe_cc now c may s))) = frame_lost (rx s)"
  by (simp add: dmr_confidence_observe_cc_def Let_def evidence_rx)

lemma observe_evidence:
  "if fst (dmr_confidence_observe_cc now c may s) = DMR_CONFIDENCE_LOCKED
    then reaches_identity c s (snd (dmr_confidence_observe_cc now c may s)) \<and>
      tdma_carrier (snd (dmr_confidence_observe_cc now c may s))
    else rx (snd (dmr_confidence_observe_cc now c may s)) = rx s"
proof (cases "dmr_confidence_valid_cc c")
  case c: True
  show ?thesis
  proof (cases "dmr_confidence_locked s")
    case l: True
    show ?thesis
    proof (cases "dmr_confidence_color_code s = c")
      case True
      show ?thesis by (simp add: observe_locked_same [OF c l True] evidence_reaches)
    next
      case False
      obtain n where "dmr_confidence_observe_cc now c may s =
        (let u = count_candidate c (s\<lparr>dmr_confidence_mismatch_count := n\<rparr>)
         in if dmr_confidence_candidate_count u \<ge> 4
            then (DMR_CONFIDENCE_LOCKED, dmr_confidence_note_evidence now c (dmr_confidence_clear_voice
                   (u\<lparr>dmr_confidence_color_code := c, dmr_color_code := c, dmr_confidence_candidate_cc := 16,
                      dmr_confidence_candidate_count := 0, dmr_confidence_mismatch_count := 0\<rparr>)))
            else (DMR_CONFIDENCE_REJECT, u))"
        using observe_locked_other [OF c l False] .
      then show ?thesis by (simp add: Let_def evidence_reaches)
    qed
  next
    case False
    then show ?thesis by (simp add: observe_unlocked [OF c False] Let_def evidence_reaches)
  qed
qed (simp add: invalid_reject)

section \<open>Properties\<close>

text \<open>
  In every state the gate reaches from a reset, a voice slot is open only under a lock
  and after at least two counted bursts, the locked colour code is a valid one, and the
  candidate count is the length of the current streak of the candidate code in the
  colour codes observed so far: below two before the lock, below four under it.
\<close>

lemma gate_run_invariant:
  assumes "gate_run h s"
  shows "voice_ok s \<and> streak_ok h s"
  using gate_run_ok [OF assms] .

definition blank_gate :: dmr_gate where
  "blank_gate = \<lparr>dmr_confidence_locked = False, dmr_confidence_color_code = 0, dmr_confidence_candidate_cc = 0,
     dmr_confidence_candidate_count = 0, dmr_confidence_mismatch_count = 0, dmr_confidence_voice_sync_seen = [],
     dmr_confidence_voice_open = [], dmr_confidence_voice_count = [], dmr_confidence_voice_m = [],
     dmr_confidence_lock_m = 0, dmr_color_code = 0, tdma_carrier = False, rx = idle_state, signal_evidence = []\<rparr>"

lemma run_two: "gate_run [7, 7] (data_bursts 5 [7, 7] (dmr_confidence_reset blank_gate))"
  using data_burst [OF data_burst [OF start [of blank_gate], of 7 5], of 7 5] by (simp add: dmr_confidence_valid_cc_def)

text \<open>
  Data and voice bursts change the locked colour code only to their own code, and only
  when the last two observations (from no lock) or the last four (from another lock) all
  carried it; and four data bursts in a row of a valid code always end locked on it.
\<close>

lemma gate_lock_changes:
  assumes "gate_run h s" "c \<le> 15"
  shows "(dmr_confidence_color_code (snd (dmr_confidence_note_data_burst now c s)) \<noteq> dmr_confidence_color_code s \<longrightarrow>
      locked_on c (snd (dmr_confidence_note_data_burst now c s)) \<and>
      (if dmr_confidence_locked s then take 4 (c # h) = replicate 4 c else take 2 (c # h) = replicate 2 c)) \<and>
    (dmr_confidence_color_code (snd (dmr_confidence_note_voice_burst now now' slot c s)) \<noteq> dmr_confidence_color_code s \<longrightarrow>
      locked_on c (snd (dmr_confidence_note_voice_burst now now' slot c s)) \<and>
      (if dmr_confidence_locked s then take 4 (c # h) = replicate 4 c else take 2 (c # h) = replicate 2 c)) \<and>
    locked_on c (data_bursts now [c, c, c, c] s)"
proof -
  have st: "streak_ok h s" using gate_run_ok [OF assms(1)] by simp
  have c: "dmr_confidence_valid_cc c" using assms(2) by (simp add: dmr_confidence_valid_cc_def)
  show ?thesis
    using observe_changes [OF st c, of "\<not> dmr_confidence_locked s" now] voice_changes [OF st, of now now' slot c]
      four_bursts_lock [OF c, of now s] by (auto simp: data_observe [OF c])
qed

text \<open>
  C35. In every state the gate reaches: when a data burst is accepted, its colour code is a valid one
  and the lock's, the carrier is taken for a TDMA one and the received-identity record shows the code
  as the access code of a DMR carrier; a burst that is not accepted leaves the record alone. A voice
  burst that is accepted has opened its slot under the same lock, and the record shows its code. When
  the frame was lost the record is left alone in each case, and the rest holds as it is.
\<close>

theorem gate_evidence_reaches_identity:
  assumes "gate_run h s" "dmr_confidence_note_data_burst now c s = (res, u)"
    and "dmr_confidence_note_voice_burst now now' slot c s = (res', u')"
  shows "(if res = DMR_CONFIDENCE_LOCKED
      then c \<le> 15 \<and> locked_on c u \<and> tdma_carrier u \<and>
        (if frame_lost (rx s) then rx u = rx s else shows_code c (rx_id (rx u)))
      else rx u = rx s) \<and>
    (res' = DMR_CONFIDENCE_LOCKED \<longrightarrow>
       c \<le> 15 \<and> locked_on c u' \<and> dmr_confidence_voice_slot_open u' slot \<and> tdma_carrier u' \<and>
       (if frame_lost (rx s) then rx u' = rx s else shows_code c (rx_id (rx u'))))"
proof -
  have ok: "voice_ok s" using gate_run_ok [OF assms(1)] by simp
  have data: "if res = DMR_CONFIDENCE_LOCKED then c \<le> 15 \<and> locked_on c u \<and> tdma_carrier u \<and> reaches_identity c s u else rx u = rx s"
  proof (cases "dmr_confidence_valid_cc c")
    case True
    then show ?thesis
      using observe_evidence [of now c "\<not> dmr_confidence_locked s" s] assms(2)
        observe_voice [OF ok, of now c "\<not> dmr_confidence_locked s"]
      by (simp add: data_observe [OF True] locked_on_def dmr_confidence_valid_cc_def split: if_splits)
  qed (use assms(2) in \<open>auto simp: dmr_confidence_note_data_burst_def\<close>)
  have voice: "c \<le> 15 \<and> locked_on c u' \<and> dmr_confidence_voice_slot_open u' slot \<and> tdma_carrier u' \<and> reaches_identity c s u'"
    if locked: "res' = DMR_CONFIDENCE_LOCKED"
  proof -
    obtain r v where o: "dmr_confidence_observe_cc now c True s = (r, v)" by fastforce
    have slot: "slot < 2" and r: "r = DMR_CONFIDENCE_LOCKED" and w: "(res', u') = open_voice (dmr_confidence_locked s) now' slot v"
      using assms(3) locked o by (auto simp: voice_burst_cases split: if_splits)
    have v: "voice_ok v" "dmr_confidence_locked v" "dmr_confidence_color_code v = c" "dmr_confidence_valid_cc c"
      using observe_voice [OF ok, of now c True] by (simp_all add: o r)
    have reach: "reaches_identity c s v" "frame_lost (rx v) = frame_lost (rx s)"
      using observe_evidence [of now c True s] observe_frame_lost [of now c True s] by (simp_all add: o r)
    let ?x = "v\<lparr>dmr_confidence_voice_count := count_voice (dmr_confidence_locked s) slot v,
      dmr_confidence_voice_open := (dmr_confidence_voice_open v)[slot := True]\<rparr>"
    have u: "u' = (dmr_confidence_note_evidence now' c ?x)\<lparr>dmr_confidence_voice_m :=
        (dmr_confidence_voice_m (dmr_confidence_note_evidence now' c ?x))[slot := now']\<rparr>"
      using w locked v(3) by (simp add: open_voice_def Let_def split: if_splits)
    have "reaches_identity c s (dmr_confidence_note_evidence now' c ?x)"
      by (rule evidence_reaches_again [OF reach(1) _ reach(2)]) simp
    then have "reaches_identity c s u'" by (simp add: u reaches_identity_def)
    then show ?thesis
      using slot v by (simp add: u locked_on_def dmr_confidence_voice_slot_open_def voice_ok_def dmr_confidence_valid_cc_def)
  qed
  show ?thesis using data voice unfolding reaches_identity_def by blast
qed

theorem gate_evidence_reaches_identity_witness:
  "shows_code 7 (rx_id (rx (snd (dmr_confidence_note_data_burst 6 7
     (data_bursts 5 [7, 7] (dmr_confidence_reset blank_gate))))))"
proof -
  let ?s = "data_bursts 5 [7, 7] (dmr_confidence_reset blank_gate)"
  have "frame_lost (rx ?s) = frame_lost (rx blank_gate)"
    by (simp add: data_observe dmr_confidence_valid_cc_def observe_frame_lost) (simp add: dmr_confidence_reset_def)
  then have l: "\<not> frame_lost (rx ?s)" by (simp add: blank_gate_def idle_state_def frame_lost_def)
  have on: "locked_on 7 ?s"
    by (simp add: data_observe dmr_confidence_observe_cc_def dmr_confidence_valid_cc_def dmr_confidence_reset_def
        count_candidate_def locked_on_def gate_constants Let_def)
  obtain u where u: "dmr_confidence_note_data_burst 6 7 ?s = (DMR_CONFIDENCE_LOCKED, u)"
    using on by (simp add: data_observe dmr_confidence_valid_cc_def observe_locked_same locked_on_def)
  obtain r' u' where w: "dmr_confidence_note_voice_burst 6 6 0 7 ?s = (r', u')" by fastforce
  have "shows_code 7 (rx_id (rx u))" using gate_evidence_reaches_identity [OF run_two u w] l by simp
  then show ?thesis by (simp only: u snd_conv)
qed

end
