(* ===== verification/P25_Patch.thy ===== *)
theory P25_Patch
  imports Prelude
begin

text \<open>
  The regroup and patch table of \<open>src/protocol/p25/p25_patch.c\<close>: up to eight supergroups with
  their member talkgroups and units and an optional key, algorithm and SSN. The source keeps
  one array of eight cells per field; the model keeps one list of eight records, cell \<open>i\<close> of
  every array being record \<open>i\<close>. The decode clock is the argument \<open>now\<close> of the operations that
  read it. Null pointers are not modelled.
\<close>

section \<open>Model\<close>

definition P25_PATCH_TTL_SECONDS :: int where "P25_PATCH_TTL_SECONDS = 20"

record patch_entry =
  p25_patch_sgid :: u16
  p25_patch_is_patch :: bool
  p25_patch_active :: bool
  p25_patch_last_update :: int
  p25_patch_wgid_count :: nat
  p25_patch_wuid_count :: nat
  p25_patch_wgid :: "u16 list"
  p25_patch_wuid :: "u32 list"
  p25_patch_key :: u16
  p25_patch_alg :: u8
  p25_patch_ssn :: u8
  p25_patch_key_valid :: bool

record patch_state =
  p25_patch_count :: int
  patches :: "patch_entry list"

text \<open>The indices the loops visit: below the count and below eight.\<close>

definition patch_range :: "patch_state \<Rightarrow> nat list" where
  "patch_range state = [0..<min 8 (nat (p25_patch_count state))]"

definition find_patch_idx :: "patch_state \<Rightarrow> u16 \<Rightarrow> nat option" where
  "find_patch_idx state sgid = find (\<lambda>i. p25_patch_sgid (patches state ! i) = sgid) (patch_range state)"

definition p25_patch_entry_is_stale :: "patch_entry \<Rightarrow> int \<Rightarrow> bool" where
  "p25_patch_entry_is_stale e now \<longleftrightarrow>
     p25_patch_last_update e > 0 \<and> now - p25_patch_last_update e > P25_PATCH_TTL_SECONDS"

definition p25_patch_clear_entry_context :: "patch_entry \<Rightarrow> patch_entry" where
  "p25_patch_clear_entry_context e =
     e\<lparr>p25_patch_wgid_count := 0, p25_patch_wuid_count := 0, p25_patch_wgid := replicate 8 0,
       p25_patch_wuid := replicate 8 0, p25_patch_key := 0, p25_patch_alg := 0, p25_patch_ssn := 0,
       p25_patch_key_valid := False\<rparr>"

text \<open>The entry with the oldest update, the first one of equals.\<close>

fun oldest_loop :: "patch_state \<Rightarrow> nat list \<Rightarrow> nat \<Rightarrow> nat" where
  "oldest_loop state [] repl = repl"
| "oldest_loop state (i # is) repl =
     oldest_loop state is
       (if p25_patch_last_update (patches state ! i) < p25_patch_last_update (patches state ! repl) then i else repl)"

definition p25_patch_replacement_idx :: "patch_state \<Rightarrow> bool \<Rightarrow> int \<Rightarrow> nat option" where
  "p25_patch_replacement_idx state act now =
     (case find (\<lambda>i. \<not> p25_patch_active (patches state ! i)) [0..<8] of
        Some i \<Rightarrow> Some i
      | None \<Rightarrow>
          (case find (\<lambda>i. p25_patch_entry_is_stale (patches state ! i) now) [0..<8] of
             Some i \<Rightarrow> Some i
           | None \<Rightarrow> if \<not> act then None else Some (oldest_loop state [1..<8] 0)))"

text \<open>The compaction loop: \<open>w\<close> is the next cell to fill.\<close>

fun sweep_loop :: "int \<Rightarrow> nat list \<Rightarrow> nat \<Rightarrow> patch_entry list \<Rightarrow> nat \<times> patch_entry list" where
  "sweep_loop now [] w es = (w, es)"
| "sweep_loop now (i # is) w es =
     (if p25_patch_entry_is_stale (es ! i) now then sweep_loop now is w es
      else sweep_loop now is (w + 1) (if w \<noteq> i then es[w := es ! i] else es))"

definition p25_patch_sweep_stale :: "int \<Rightarrow> patch_state \<Rightarrow> patch_state" where
  "p25_patch_sweep_stale now state =
     (let (w, es) = sweep_loop now (patch_range state) 0 (patches state)
      in state\<lparr>p25_patch_count := int w, patches := es\<rparr>)"

definition set_entry :: "nat \<Rightarrow> patch_entry \<Rightarrow> patch_state \<Rightarrow> patch_state" where
  "set_entry i e state = state\<lparr>patches := (patches state)[i := e]\<rparr>"

definition p25_patch_update :: "int \<Rightarrow> int \<Rightarrow> bool \<Rightarrow> bool \<Rightarrow> patch_state \<Rightarrow> patch_state" where
  "p25_patch_update now sgid is_patch act state =
     (if sgid \<le> 0 \<or> sgid > 0xFFFF then state
      else case find_patch_idx state (word_of_int sgid) of
        Some i \<Rightarrow> set_entry i ((patches state ! i)\<lparr>p25_patch_is_patch := is_patch, p25_patch_active := act,
                    p25_patch_last_update := now\<rparr>) state
      | None \<Rightarrow>
          let idx = (if p25_patch_count state < 0 then 0 else p25_patch_count state);
              (slot, state) =
                (if idx \<ge> 8 then let state = state\<lparr>p25_patch_count := 8\<rparr> in (p25_patch_replacement_idx state act now, state)
                 else (Some (nat idx), state\<lparr>p25_patch_count := idx + 1\<rparr>))
          in case slot of
               None \<Rightarrow> state
             | Some i \<Rightarrow> set_entry i (p25_patch_clear_entry_context ((patches state ! i)
                 \<lparr>p25_patch_sgid := word_of_int sgid, p25_patch_is_patch := is_patch, p25_patch_active := act,
                  p25_patch_last_update := now\<rparr>)) state)"

text \<open>The entry of a supergroup, created as an active patch when there is none.\<close>

definition find_or_create :: "int \<Rightarrow> int \<Rightarrow> patch_state \<Rightarrow> nat option \<times> patch_state" where
  "find_or_create now sgid state =
     (case find_patch_idx state (word_of_int sgid) of
        Some i \<Rightarrow> (Some i, state)
      | None \<Rightarrow> let state = p25_patch_update now sgid True True state
                in (find_patch_idx state (word_of_int sgid), state))"

definition p25_patch_add_wgid :: "int \<Rightarrow> int \<Rightarrow> int \<Rightarrow> patch_state \<Rightarrow> patch_state" where
  "p25_patch_add_wgid now sgid wgid state =
     (if sgid \<le> 0 \<or> sgid > 0xFFFF \<or> wgid \<le> 0 \<or> wgid > 0xFFFF then state
      else case find_or_create now sgid state of
        (None, state) \<Rightarrow> state
      | (Some idx, state) \<Rightarrow>
          let e = patches state ! idx; cnt = p25_patch_wgid_count e
          in if \<exists>i \<in> set [0..<min cnt 8]. p25_patch_wgid e ! i = word_of_int wgid then state
             else if cnt < 8
             then set_entry idx (e\<lparr>p25_patch_wgid := (p25_patch_wgid e)[cnt := word_of_int wgid],
                    p25_patch_wgid_count := cnt + 1\<rparr>) state
             else state)"

definition p25_patch_add_wuid :: "int \<Rightarrow> int \<Rightarrow> u32 \<Rightarrow> patch_state \<Rightarrow> patch_state" where
  "p25_patch_add_wuid now sgid wuid state =
     (if sgid \<le> 0 \<or> sgid > 0xFFFF \<or> wuid = 0 then state
      else case find_or_create now sgid state of
        (None, state) \<Rightarrow> state
      | (Some idx, state) \<Rightarrow>
          let e = patches state ! idx; cnt = p25_patch_wuid_count e
          in if \<exists>i \<in> set [0..<min cnt 8]. p25_patch_wuid e ! i = wuid then state
             else if cnt < 8
             then set_entry idx (e\<lparr>p25_patch_wuid := (p25_patch_wuid e)[cnt := wuid],
                    p25_patch_wuid_count := cnt + 1\<rparr>) state
             else state)"

definition p25_patch_remove_wgid :: "int \<Rightarrow> int \<Rightarrow> patch_state \<Rightarrow> patch_state" where
  "p25_patch_remove_wgid sgid wgid state =
     (if sgid \<le> 0 \<or> wgid \<le> 0 then state
      else case find_patch_idx state (word_of_int sgid) of
        None \<Rightarrow> state
      | Some idx \<Rightarrow>
          let e = patches state ! idx; cnt = p25_patch_wgid_count e;
              e = (case find (\<lambda>i. p25_patch_wgid e ! i = word_of_int wgid) [0..<min cnt 8] of
                     None \<Rightarrow> e
                   | Some i \<Rightarrow> e\<lparr>p25_patch_wgid := (if i \<noteq> cnt - 1 then (p25_patch_wgid e)[i := p25_patch_wgid e ! (cnt - 1)]
                                                   else p25_patch_wgid e),
                                 p25_patch_wgid_count := cnt - 1\<rparr>);
              e = (if p25_patch_wgid_count e = 0 \<and> p25_patch_wuid_count e = 0 then e\<lparr>p25_patch_active := False\<rparr> else e)
          in set_entry idx e state)"

definition p25_patch_clear_sg :: "int \<Rightarrow> int \<Rightarrow> patch_state \<Rightarrow> patch_state" where
  "p25_patch_clear_sg now sgid state =
     (if sgid \<le> 0 then state
      else case find_patch_idx state (word_of_int sgid) of
        None \<Rightarrow> state
      | Some idx \<Rightarrow> set_entry idx ((p25_patch_clear_entry_context (patches state ! idx))
                      \<lparr>p25_patch_active := False, p25_patch_last_update := now\<rparr>) state)"

definition p25_patch_prepare_grg_update ::
  "int \<Rightarrow> int \<Rightarrow> bool \<Rightarrow> bool \<Rightarrow> int \<Rightarrow> patch_state \<Rightarrow> bool \<times> patch_state" where
  "p25_patch_prepare_grg_update now sgid is_patch act ssn state =
     (if sgid \<le> 0 \<or> sgid > 0xFFFF then (False, state)
      else let normalized_ssn = (if ssn \<ge> 0 then ssn AND 0x1F else -1);
               idx = find_patch_idx state (word_of_int sgid)
           in if \<not> act then
                let state = (if idx = None then p25_patch_update now sgid is_patch False state else state);
                    state = p25_patch_clear_sg now sgid state
                in (False, case find_patch_idx state (word_of_int sgid) of
                             None \<Rightarrow> state
                           | Some i \<Rightarrow> set_entry i ((patches state ! i)\<lparr>p25_patch_is_patch := is_patch\<rparr>) state)
              else
                let state = (case idx of
                      None \<Rightarrow> state
                    | Some i \<Rightarrow> if p25_patch_active (patches state ! i) \<and> normalized_ssn \<ge> 0 \<and>
                                   p25_patch_ssn (patches state ! i) \<noteq> word_of_int normalized_ssn
                                then set_entry i (p25_patch_clear_entry_context (patches state ! i)) state else state)
                in (True, p25_patch_update now sgid is_patch True state))"

definition p25_patch_set_kas :: "int \<Rightarrow> int \<Rightarrow> int \<Rightarrow> int \<Rightarrow> int \<Rightarrow> patch_state \<Rightarrow> patch_state" where
  "p25_patch_set_kas now sgid key alg ssn state =
     (if sgid \<le> 0 then state
      else case find_or_create now sgid state of
        (None, state) \<Rightarrow> state
      | (Some idx, state) \<Rightarrow>
          let e = patches state ! idx;
              e = (if key \<ge> 0 then e\<lparr>p25_patch_key := word_of_int key, p25_patch_key_valid := True\<rparr> else e);
              e = (if alg \<ge> 0 then e\<lparr>p25_patch_alg := word_of_int alg\<rparr> else e);
              e = (if ssn \<ge> 0 then e\<lparr>p25_patch_ssn := word_of_int (ssn AND 0x1F)\<rparr> else e)
          in set_entry idx e state)"

definition has_member :: "patch_entry \<Rightarrow> u16 \<Rightarrow> bool" where
  "has_member e w \<longleftrightarrow> (\<exists>k \<in> set [0..<min (p25_patch_wgid_count e) 8]. p25_patch_wgid e ! k = w)"

definition p25_patch_tg_key_is_clear :: "int \<Rightarrow> patch_state \<Rightarrow> int \<Rightarrow> bool" where
  "p25_patch_tg_key_is_clear now state tg =
     (if tg \<le> 0 then False
      else case find (\<lambda>i. p25_patch_active (patches state ! i) \<and> \<not> p25_patch_entry_is_stale (patches state ! i) now \<and>
                          has_member (patches state ! i) (word_of_int tg)) (patch_range state) of
        None \<Rightarrow> False
      | Some i \<Rightarrow> p25_patch_key_valid (patches state ! i) \<and> p25_patch_key (patches state ! i) = 0)"

definition p25_patch_sg_key_is_clear :: "int \<Rightarrow> patch_state \<Rightarrow> int \<Rightarrow> bool" where
  "p25_patch_sg_key_is_clear now state sgid =
     (if sgid \<le> 0 then False
      else case find (\<lambda>i. p25_patch_active (patches state ! i) \<and> p25_patch_sgid (patches state ! i) = word_of_int sgid \<and>
                          \<not> p25_patch_entry_is_stale (patches state ! i) now) (patch_range state) of
        None \<Rightarrow> False
      | Some i \<Rightarrow> p25_patch_key_valid (patches state ! i) \<and> p25_patch_key (patches state ! i) = 0)"

text \<open>The member count, and what is copied to the caller's array of \<open>cap\<close> cells (\<open>None\<close>: no array).\<close>

definition p25_patch_collect_active_wgids :: "int \<Rightarrow> patch_state \<Rightarrow> int \<Rightarrow> nat option \<Rightarrow> nat \<times> u16 list" where
  "p25_patch_collect_active_wgids now state sgid out_cap =
     (if sgid \<le> 0 \<or> sgid > 0xFFFF then (0, [])
      else case find_patch_idx state (word_of_int sgid) of
        None \<Rightarrow> (0, [])
      | Some idx \<Rightarrow>
          let e = patches state ! idx
          in if \<not> p25_patch_active e \<or> p25_patch_entry_is_stale e now then (0, [])
             else let count = (if p25_patch_wgid_count e > 8 then 8 else p25_patch_wgid_count e)
                  in (count, case out_cap of None \<Rightarrow> [] | Some cap \<Rightarrow> take (min count cap) (p25_patch_wgid e)))"

section \<open>Invariant\<close>

abbreviation live :: "patch_state \<Rightarrow> nat" where
  "live s \<equiv> nat (p25_patch_count s)"

definition entry_ok :: "patch_entry \<Rightarrow> bool" where
  "entry_ok e \<longleftrightarrow> length (p25_patch_wgid e) = 8 \<and> length (p25_patch_wuid e) = 8 \<and>
     p25_patch_wgid_count e \<le> 8 \<and> p25_patch_wuid_count e \<le> 8 \<and>
     distinct (take (p25_patch_wgid_count e) (p25_patch_wgid e)) \<and> 0 \<notin> set (take (p25_patch_wgid_count e) (p25_patch_wgid e)) \<and>
     distinct (take (p25_patch_wuid_count e) (p25_patch_wuid e)) \<and> 0 \<notin> set (take (p25_patch_wuid_count e) (p25_patch_wuid e))"

text \<open>The supergroup numbers of the live entries.\<close>

definition sgids :: "patch_state \<Rightarrow> u16 list" where
  "sgids s = map p25_patch_sgid (take (live s) (patches s))"

definition patch_ok :: "patch_state \<Rightarrow> bool" where
  "patch_ok s \<longleftrightarrow> 0 \<le> p25_patch_count s \<and> p25_patch_count s \<le> 8 \<and> length (patches s) = 8 \<and>
     (\<forall>e \<in> set (patches s). entry_ok e) \<and> distinct (sgids s) \<and> 0 \<notin> set (sgids s)"

lemma patch_live: "patch_ok s \<Longrightarrow> live s \<le> 8"
  by (simp add: patch_ok_def nat_le_iff)

lemma patch_entry_ok: "patch_ok s \<Longrightarrow> i < 8 \<Longrightarrow> entry_ok (patches s ! i)"
  by (simp add: patch_ok_def)

lemma range_live: "patch_ok s \<Longrightarrow> patch_range s = [0..<live s]"
  using patch_live [of s] by (simp add: patch_range_def min_absorb2)

lemma sgids_nth: "patch_ok s \<Longrightarrow> i < live s \<Longrightarrow> sgids s ! i = p25_patch_sgid (patches s ! i)"
  using patch_live [of s] by (simp add: sgids_def patch_ok_def)

lemma length_sgids: "patch_ok s \<Longrightarrow> length (sgids s) = live s"
  using patch_live [of s] by (simp add: sgids_def patch_ok_def)

lemma find_patch_Some:
  "patch_ok s \<Longrightarrow> find_patch_idx s g = Some i \<longleftrightarrow> i < live s \<and> p25_patch_sgid (patches s ! i) = g"
proof -
  assume ok: "patch_ok s"
  have "distinct (sgids s)" using ok by (simp add: patch_ok_def)
  then have uniq: "p25_patch_sgid (patches s ! j) \<noteq> p25_patch_sgid (patches s ! i)" if "j < i" "i < live s" for i j
    using that nth_eq_iff_index_eq [of "sgids s" j i] by (simp add: sgids_nth [OF ok, symmetric] length_sgids [OF ok])
  show ?thesis
    unfolding find_patch_idx_def range_live [OF ok] find_Some_iff using uniq by (auto dest: less_trans)
qed

lemma find_patch_None: "patch_ok s \<Longrightarrow> find_patch_idx s g = None \<longleftrightarrow> g \<notin> set (sgids s)"
  using patch_live [of s]
  by (auto simp: find_patch_idx_def range_live find_None_iff in_set_conv_nth length_sgids sgids_nth)

text \<open>Rewriting an entry under its number, and giving a cell a new number.\<close>

lemma patch_ok_set:
  assumes "patch_ok s" "i < 8" "entry_ok e" "p25_patch_sgid e = p25_patch_sgid (patches s ! i)"
  shows "patch_ok (set_entry i e s)" and "sgids (set_entry i e s) = sgids s"
proof -
  have len: "length (patches s) = 8" using assms(1) by (simp add: patch_ok_def)
  have "map p25_patch_sgid ((patches s)[i := e]) = map p25_patch_sgid (patches s)"
    using assms(2,4) len by (simp add: map_update list_update_same_conv)
  then show sg: "sgids (set_entry i e s) = sgids s" by (simp add: sgids_def set_entry_def take_map [symmetric])
  show "patch_ok (set_entry i e s)"
    using assms(1,3) sg set_update_subset_insert [of "patches s" i e]
    by (auto simp: patch_ok_def set_entry_def)
qed

lemma patch_ok_new:
  assumes ok: "patch_ok s" and i: "if live s < 8 then i = live s \<and> n = p25_patch_count s + 1 else i < 8 \<and> n = 8"
    and e: "entry_ok e" "p25_patch_sgid e \<notin> set (sgids s)" "p25_patch_sgid e \<noteq> 0"
  shows "patch_ok (set_entry i e (s\<lparr>p25_patch_count := n\<rparr>))"
    and "p25_patch_sgid e \<in> set (sgids (set_entry i e (s\<lparr>p25_patch_count := n\<rparr>)))"
proof -
  let ?t = "set_entry i e (s\<lparr>p25_patch_count := n\<rparr>)"
  have len: "length (patches s) = 8" and d: "distinct (sgids s)" "0 \<notin> set (sgids s)" and c: "0 \<le> p25_patch_count s"
    using ok by (simp_all add: patch_ok_def)
  have i8: "i < 8" using i by (simp split: if_split_asm)
  have sg: "sgids ?t = (if live s < 8 then sgids s @ [p25_patch_sgid e] else (sgids s)[i := p25_patch_sgid e])"
  proof (cases "live s < 8")
    case True
    then have "i = live s" "nat n = Suc (live s)" using i c by (simp_all add: nat_add_distrib)
    then show ?thesis using True len by (simp add: sgids_def set_entry_def take_Suc_conv_app_nth take_update_cancel)
  next
    case False
    then have "live s = 8" "n = 8" using i patch_live [OF ok] by simp_all
    then show ?thesis using False len by (simp add: sgids_def set_entry_def map_update)
  qed
  then show "p25_patch_sgid e \<in> set (sgids ?t)"
    using i8 patch_live [OF ok] len by (auto simp: length_sgids [OF ok] intro!: set_update_memI)
  have "distinct (sgids ?t) \<and> 0 \<notin> set (sgids ?t)"
    using d e(2,3) set_update_subset_insert [of "sgids s" i "p25_patch_sgid e"]
    by (auto simp: sg intro!: distinct_list_update)
  moreover have "0 \<le> n" "n \<le> 8" using i c by (auto split: if_split_asm)
  ultimately show "patch_ok ?t"
    using ok e(1) set_update_subset_insert [of "patches s" i e] by (auto simp: patch_ok_def set_entry_def)
qed

section \<open>Preservation\<close>

lemma context_ok: "entry_ok (p25_patch_clear_entry_context e)"
  by (simp add: entry_ok_def p25_patch_clear_entry_context_def)

lemma context_sgid [simp]: "p25_patch_sgid (p25_patch_clear_entry_context e) = p25_patch_sgid e"
  by (simp add: p25_patch_clear_entry_context_def)

lemma entry_ok_flags [simp]:
  "entry_ok (e\<lparr>p25_patch_is_patch := a\<rparr>) = entry_ok e" "entry_ok (e\<lparr>p25_patch_active := b\<rparr>) = entry_ok e"
  "entry_ok (e\<lparr>p25_patch_last_update := c\<rparr>) = entry_ok e" "entry_ok (e\<lparr>p25_patch_key := k\<rparr>) = entry_ok e"
  "entry_ok (e\<lparr>p25_patch_alg := l\<rparr>) = entry_ok e" "entry_ok (e\<lparr>p25_patch_ssn := m\<rparr>) = entry_ok e"
  "entry_ok (e\<lparr>p25_patch_key_valid := v\<rparr>) = entry_ok e" "entry_ok (e\<lparr>p25_patch_sgid := g\<rparr>) = entry_ok e"
  by (simp_all add: entry_ok_def)

lemma oldest_loop_in: "oldest_loop s is r \<in> insert r (set is)"
  by (induction s "is" r rule: oldest_loop.induct) auto

lemma replacement_lt: "p25_patch_replacement_idx s a now = Some i \<Longrightarrow> i < 8"
  using oldest_loop_in [of s "[1..<8]" 0]
  by (auto simp: p25_patch_replacement_idx_def find_Some_iff split: option.splits if_splits)

lemma replacement_active: "p25_patch_replacement_idx s True now \<noteq> None"
  by (simp add: p25_patch_replacement_idx_def split: option.split)

lemma sgid_word: "0 < g \<Longrightarrow> g \<le> 0xFFFF \<Longrightarrow> (word_of_int g :: u16) \<noteq> 0"
  by (auto simp: word_of_int_eq_0_iff dest: zdvd_imp_le)

text \<open>The new entry an update makes when the supergroup has none.\<close>

definition new_entry :: "int \<Rightarrow> int \<Rightarrow> bool \<Rightarrow> bool \<Rightarrow> patch_entry \<Rightarrow> patch_entry" where
  "new_entry now g p a e = p25_patch_clear_entry_context
     (e\<lparr>p25_patch_sgid := word_of_int g, p25_patch_is_patch := p, p25_patch_active := a, p25_patch_last_update := now\<rparr>)"

lemma update_cases:
  assumes u: "p25_patch_update now g p a s = t" and ok: "patch_ok s" and g: "0 < g" "g \<le> 0xFFFF"
  obtains
    (found) i where "find_patch_idx s (word_of_int g) = Some i"
      "t = set_entry i ((patches s ! i)\<lparr>p25_patch_is_patch := p, p25_patch_active := a,
         p25_patch_last_update := now\<rparr>) s"
  | (full) "find_patch_idx s (word_of_int g) = None" "\<not> a" "t = s"
  | (new) i n where "find_patch_idx s (word_of_int g) = None"
      "if live s < 8 then i = live s \<and> n = p25_patch_count s + 1 else i < 8 \<and> n = 8"
      "t = set_entry i (new_entry now g p a (patches s ! i)) (s\<lparr>p25_patch_count := n\<rparr>)"
proof (cases "find_patch_idx s (word_of_int g)")
  case (Some i)
  then show thesis using g by (intro found) (simp_all add: p25_patch_update_def u [symmetric])
next
  case None
  have c: "0 \<le> p25_patch_count s" "p25_patch_count s \<le> 8" using ok by (simp_all add: patch_ok_def)
  show thesis
  proof (cases "p25_patch_count s < 8")
    case True
    then show thesis
      using None g c by (intro new [of "live s" "p25_patch_count s + 1"]) (simp_all add: p25_patch_update_def u [symmetric] new_entry_def Let_def nat_less_iff)
  next
    case False
    then have eight: "p25_patch_count s = 8" using c by simp
    have id: "s\<lparr>p25_patch_count := 8\<rparr> = s" using eight by simp
    show thesis
    proof (cases "p25_patch_replacement_idx s a now")
      case N: None
      then have "\<not> a" using replacement_active [of s now] by (cases a) auto
      then show thesis using None g eight N by (intro full) (simp_all add: p25_patch_update_def u [symmetric] id)
    next
      case (Some i)
      then show thesis
        using None g eight replacement_lt [OF Some]
        by (intro new [of i 8]) (simp_all add: p25_patch_update_def u [symmetric] new_entry_def id)
    qed
  qed
qed

lemma new_entry_facts [simp]:
  "entry_ok (new_entry now g p a e)" "p25_patch_sgid (new_entry now g p a e) = word_of_int g"
  "p25_patch_active (new_entry now g p a e) = a" "p25_patch_wgid_count (new_entry now g p a e) = 0"
  "p25_patch_wuid_count (new_entry now g p a e) = 0" "p25_patch_key_valid (new_entry now g p a e) = False"
  "p25_patch_last_update (new_entry now g p a e) = now"
  by (simp_all add: new_entry_def context_ok, simp_all add: p25_patch_clear_entry_context_def)

lemma update_ok:
  assumes ok: "patch_ok s"
  shows "patch_ok (p25_patch_update now g p a s)"
proof (cases "0 < g \<and> g \<le> 0xFFFF")
  case True
  then have g: "0 < g" "g \<le> 0xFFFF" by simp_all
  from refl [of "p25_patch_update now g p a s"] ok g show ?thesis
  proof (cases rule: update_cases)
    case (found i)
    have "i < 8" using found(1) patch_live [OF ok] by (simp add: find_patch_Some [OF ok])
    then show ?thesis unfolding found(2) by (intro patch_ok_set [OF ok]) (simp_all add: patch_entry_ok [OF ok])
  next
    case full
    then show ?thesis using ok by simp
  next
    case (new i n)
    show ?thesis unfolding new(3)
      using new(1) sgid_word [OF g] by (intro patch_ok_new [OF ok new(2)]) (simp_all add: find_patch_None [OF ok])
  qed
qed (auto simp: p25_patch_update_def ok)

lemma update_found:
  assumes ok: "patch_ok s" and g: "0 < g" "g \<le> 0xFFFF"
  shows "find_patch_idx (p25_patch_update now g p True s) (word_of_int g) \<noteq> None"
  using refl [of "p25_patch_update now g p True s"] ok g
proof (cases rule: update_cases)
  case (found i)
  have i: "i < live s" "p25_patch_sgid (patches s ! i) = word_of_int g" using found(1) by (simp_all add: find_patch_Some [OF ok])
  have "sgids (p25_patch_update now g p True s) = sgids s"
    unfolding found(2) using i(1) patch_live [OF ok] by (intro patch_ok_set(2) [OF ok]) (simp_all add: patch_entry_ok [OF ok])
  then show ?thesis using found(1) by (simp add: find_patch_None [OF update_ok [OF ok]] find_patch_None [OF ok, symmetric])
next
  case full
  then show ?thesis by simp
next
  case (new i n)
  have "word_of_int g \<in> set (sgids (p25_patch_update now g p True s))"
    using patch_ok_new(2) [OF ok new(2), of "new_entry now g p True (patches s ! i)"] new(1) sgid_word [OF g]
    by (simp add: new(3) find_patch_None [OF ok])
  then show ?thesis by (simp add: find_patch_None [OF update_ok [OF ok]])
qed

section \<open>Members\<close>

definition entry_of :: "patch_state \<Rightarrow> u16 \<Rightarrow> patch_entry option" where
  "entry_of s g = map_option (\<lambda>i. patches s ! i) (find_patch_idx s g)"

definition entry_members :: "patch_entry \<Rightarrow> u16 set" where
  "entry_members e = set (take (p25_patch_wgid_count e) (p25_patch_wgid e))"

text \<open>The talkgroups of a supergroup, none when it has no entry.\<close>

definition members :: "patch_state \<Rightarrow> u16 \<Rightarrow> u16 set" where
  "members s g = (case entry_of s g of None \<Rightarrow> {} | Some e \<Rightarrow> entry_members e)"

lemma found_lt: "patch_ok s \<Longrightarrow> find_patch_idx s g = Some i \<Longrightarrow> i < 8 \<and> i < live s \<and> p25_patch_sgid (patches s ! i) = g"
  using patch_live [of s] by (simp add: find_patch_Some)

lemma set_entry_of:
  assumes ok: "patch_ok s" and f: "find_patch_idx s g = Some i" and e: "entry_ok e" "p25_patch_sgid e = g"
  shows "patch_ok (set_entry i e s)" and "entry_of (set_entry i e s) g' = (if g' = g then Some e else entry_of s g')"
proof -
  have i: "i < 8" "i < live s" "p25_patch_sgid (patches s ! i) = g" using found_lt [OF ok f] by simp_all
  show ok': "patch_ok (set_entry i e s)" using i e by (intro patch_ok_set [OF ok]) simp_all
  have len: "length (patches s) = 8" using ok by (simp add: patch_ok_def)
  have live: "live (set_entry i e s) = live s" by (simp add: set_entry_def)
  have nth: "patches (set_entry i e s) ! j = (if j = i then e else patches s ! j)" if "j < live s" for j
    using that patch_live [OF ok] len by (simp add: set_entry_def nth_list_update)
  have find: "find_patch_idx (set_entry i e s) g' = find_patch_idx s g'"
  proof (rule option.expand)
    have sg: "sgids (set_entry i e s) = sgids s" using i e by (intro patch_ok_set(2) [OF ok]) simp_all
    show "(find_patch_idx (set_entry i e s) g' = None) = (find_patch_idx s g' = None)"
      by (simp add: find_patch_None [OF ok'] find_patch_None [OF ok] sg)
    show "the (find_patch_idx (set_entry i e s) g') = the (find_patch_idx s g')"
      if n: "find_patch_idx (set_entry i e s) g' \<noteq> None" "find_patch_idx s g' \<noteq> None"
    proof -
      obtain k where k: "find_patch_idx s g' = Some k" using n(2) by auto
      then have "k < live s" "p25_patch_sgid (patches s ! k) = g'" by (simp_all add: find_patch_Some [OF ok])
      then have "find_patch_idx (set_entry i e s) g' = Some k"
        using nth [of k] i(3) e(2) by (simp add: find_patch_Some [OF ok'] live split: if_split_asm)
      then show ?thesis by (simp add: k)
    qed
  qed
  show "entry_of (set_entry i e s) g' = (if g' = g then Some e else entry_of s g')"
  proof (cases "find_patch_idx s g'")
    case None
    then have "g' \<noteq> g" using f by (cases "g' = g") simp_all
    then show ?thesis using None by (simp add: entry_of_def find)
  next
    case (Some k)
    then have k: "k < live s" "p25_patch_sgid (patches s ! k) = g'" using found_lt [OF ok Some] by simp_all
    have "k = i \<longleftrightarrow> g' = g" using k(2) Some f i(3) by (cases "g' = g"; cases "k = i") simp_all
    then show ?thesis using Some nth [OF k(1)] by (simp add: entry_of_def find)
  qed
qed

lemma find_or_create_ok:
  assumes ok: "patch_ok s" and g: "0 < g" "g \<le> 0xFFFF"
  obtains i t where "find_or_create now g s = (Some i, t)" "patch_ok t" "find_patch_idx t (word_of_int g) = Some i"
    "members t (word_of_int g) = members s (word_of_int g)"
proof (cases "find_patch_idx s (word_of_int g)")
  case (Some i)
  then show thesis using ok by (intro that [of i s]) (simp_all add: find_or_create_def)
next
  case None
  let ?t = "p25_patch_update now g True True s"
  obtain i where i: "find_patch_idx ?t (word_of_int g) = Some i" using update_found [OF ok g, of now True] by blast
  from refl [of ?t] ok g have "members ?t (word_of_int g) = {}"
  proof (cases rule: update_cases)
    case (new j n)
    let ?u = "set_entry j (new_entry now g True True (patches s ! j)) (s\<lparr>p25_patch_count := n\<rparr>)"
    have ok': "patch_ok ?u" using update_ok [OF ok, of now g True True] by (simp add: new(3))
    have j: "j < live ?u" "j < 8"
      using new(2) patch_live [OF ok] ok by (auto simp: set_entry_def patch_ok_def split: if_split_asm)
    have "length (patches s) = 8" using ok by (simp add: patch_ok_def)
    then have at: "patches ?u ! j = new_entry now g True True (patches s ! j)" using j(2) by (simp add: set_entry_def)
    then have "find_patch_idx ?u (word_of_int g) = Some j" using j(1) by (simp add: find_patch_Some [OF ok'])
    then show ?thesis using at by (simp add: new(3) members_def entry_of_def entry_members_def)
  qed (use None in simp_all)
  then show thesis
    using None i update_ok [OF ok] by (intro that [of i ?t]) (simp_all add: find_or_create_def members_def entry_of_def)
qed

lemma butlast_swap:
  assumes "distinct ys" "i < length ys"
  shows "set (butlast (ys[i := last ys])) = set ys - {ys ! i} \<and> distinct (butlast (ys[i := last ys]))"
proof (cases ys rule: rev_cases)
  case (snoc us l)
  then show ?thesis
    using assms set_update_distinct [of us i l]
    by (cases "i < length us") (auto simp: list_update_append nth_append less_Suc_eq intro!: distinct_list_update)
qed (use assms in simp)

lemma take_swap:
  assumes "n \<le> length xs" "i < n"
  shows "take (n - 1) (if i \<noteq> n - 1 then xs[i := xs ! (n - 1)] else xs) = butlast ((take n xs)[i := last (take n xs)])"
proof -
  have "take n xs \<noteq> []" using assms by auto
  then have l: "last (take n xs) = xs ! (n - 1)" using assms by (simp add: last_conv_nth min_absorb2)
  have "take (n - 1) (xs[i := xs ! (n - 1)]) = butlast ((take n xs)[i := last (take n xs)])"
    using assms by (simp add: l butlast_conv_take take_update_swap min_absorb2)
  moreover have "xs[n - 1 := xs ! (n - 1)] = xs" by simp
  ultimately show ?thesis by (cases "i = n - 1") simp_all
qed

lemma in_take_iff: "n \<le> length xs \<Longrightarrow> x \<in> set (take n xs) \<longleftrightarrow> (\<exists>i \<in> set [0..<n]. xs ! i = x)"
  by (auto simp: in_set_conv_nth)

text \<open>Adding a member to an entry and taking one away.\<close>

lemma entry_add:
  assumes "entry_ok e" "p25_patch_wgid_count e < 8" "w \<notin> entry_members e" "w \<noteq> 0"
  shows "entry_ok (e\<lparr>p25_patch_wgid := (p25_patch_wgid e)[p25_patch_wgid_count e := w],
        p25_patch_wgid_count := p25_patch_wgid_count e + 1\<rparr>)"
    and "entry_members (e\<lparr>p25_patch_wgid := (p25_patch_wgid e)[p25_patch_wgid_count e := w],
        p25_patch_wgid_count := p25_patch_wgid_count e + 1\<rparr>) = insert w (entry_members e)"
  using assms by (auto simp: entry_ok_def entry_members_def take_Suc_conv_app_nth take_update_cancel)

lemma entry_add_unit:
  assumes "entry_ok e" "p25_patch_wuid_count e < 8" "w \<notin> set (take (p25_patch_wuid_count e) (p25_patch_wuid e))" "w \<noteq> 0"
  shows "entry_ok (e\<lparr>p25_patch_wuid := (p25_patch_wuid e)[p25_patch_wuid_count e := w],
        p25_patch_wuid_count := p25_patch_wuid_count e + 1\<rparr>)"
  using assms by (auto simp: entry_ok_def take_Suc_conv_app_nth take_update_cancel)

lemma entry_remove:
  assumes e: "entry_ok e" and i: "i < p25_patch_wgid_count e"
  shows "entry_ok (e\<lparr>p25_patch_wgid := (if i \<noteq> p25_patch_wgid_count e - 1
        then (p25_patch_wgid e)[i := p25_patch_wgid e ! (p25_patch_wgid_count e - 1)] else p25_patch_wgid e),
        p25_patch_wgid_count := p25_patch_wgid_count e - 1\<rparr>)"
    and "entry_members (e\<lparr>p25_patch_wgid := (if i \<noteq> p25_patch_wgid_count e - 1
        then (p25_patch_wgid e)[i := p25_patch_wgid e ! (p25_patch_wgid_count e - 1)] else p25_patch_wgid e),
        p25_patch_wgid_count := p25_patch_wgid_count e - 1\<rparr>) = entry_members e - {p25_patch_wgid e ! i}"
proof -
  let ?n = "p25_patch_wgid_count e" and ?xs = "p25_patch_wgid e"
  have n: "?n \<le> length ?xs" and d: "distinct (take ?n ?xs)" using e by (simp_all add: entry_ok_def)
  have sw: "set (take (?n - 1) (if i \<noteq> ?n - 1 then ?xs[i := ?xs ! (?n - 1)] else ?xs)) = set (take ?n ?xs) - {?xs ! i} \<and>
    distinct (take (?n - 1) (if i \<noteq> ?n - 1 then ?xs[i := ?xs ! (?n - 1)] else ?xs))"
    unfolding take_swap [OF n i] using butlast_swap [OF d, of i] i n by simp
  then show "entry_members (e\<lparr>p25_patch_wgid := (if i \<noteq> ?n - 1 then ?xs[i := ?xs ! (?n - 1)] else ?xs),
        p25_patch_wgid_count := ?n - 1\<rparr>) = entry_members e - {?xs ! i}"
    by (simp add: entry_members_def)
  define ys where "ys = (if i \<noteq> ?n - 1 then ?xs[i := ?xs ! (?n - 1)] else ?xs)"
  have ly: "length ys = length ?xs" by (simp add: ys_def)
  show "entry_ok (e\<lparr>p25_patch_wgid := (if i \<noteq> ?n - 1 then ?xs[i := ?xs ! (?n - 1)] else ?xs), p25_patch_wgid_count := ?n - 1\<rparr>)"
    using e sw [folded ys_def] ly unfolding entry_ok_def ys_def [symmetric] by (simp add: le_diff_conv)
qed

lemma any_member: "entry_ok e \<Longrightarrow>
    (\<exists>i \<in> set [0..<min (p25_patch_wgid_count e) 8]. p25_patch_wgid e ! i = w) \<longleftrightarrow> w \<in> entry_members e"
  using in_take_iff [of "p25_patch_wgid_count e" "p25_patch_wgid e" w]
  by (simp add: entry_ok_def entry_members_def min_absorb1)

lemma any_unit: "entry_ok e \<Longrightarrow>
    (\<exists>i \<in> set [0..<min (p25_patch_wuid_count e) 8]. p25_patch_wuid e ! i = w) \<longleftrightarrow>
    w \<in> set (take (p25_patch_wuid_count e) (p25_patch_wuid e))"
  using in_take_iff [of "p25_patch_wuid_count e" "p25_patch_wuid e" w] by (simp add: entry_ok_def min_absorb1)

lemma members_set:
  "patch_ok s \<Longrightarrow> find_patch_idx s g = Some i \<Longrightarrow> entry_ok e \<Longrightarrow> p25_patch_sgid e = g \<Longrightarrow>
   members (set_entry i e s) g' = (if g' = g then entry_members e else members s g')"
  by (simp add: members_def set_entry_of(2))

lemma members_found: "find_patch_idx s g = Some i \<Longrightarrow> members s g = entry_members (patches s ! i)"
  by (simp add: members_def entry_of_def)

lemma card_members: "entry_ok e \<Longrightarrow> card (entry_members e) = p25_patch_wgid_count e"
  by (simp add: entry_ok_def entry_members_def distinct_card min_absorb1)

lemma add_wgid_spec:
  assumes ok: "patch_ok s"
  shows "patch_ok (p25_patch_add_wgid now g w s) \<and>
    (0 < g \<and> g \<le> 0xFFFF \<and> 0 < w \<and> w \<le> 0xFFFF \<longrightarrow>
      members (p25_patch_add_wgid now g w s) (word_of_int g) =
        (if card (members s (word_of_int g)) < 8 then insert (word_of_int w) (members s (word_of_int g))
         else members s (word_of_int g)))"
proof (cases "0 < g \<and> g \<le> 0xFFFF \<and> 0 < w \<and> w \<le> 0xFFFF")
  case True
  obtain i t where t: "find_or_create now g s = (Some i, t)" "patch_ok t" "find_patch_idx t (word_of_int g) = Some i"
    "members t (word_of_int g) = members s (word_of_int g)"
    using find_or_create_ok [OF ok, of g now] True by blast
  let ?e = "patches t ! i"
  have i: "i < 8" "p25_patch_sgid ?e = word_of_int g" using found_lt [OF t(2,3)] by simp_all
  have e: "entry_ok ?e" using patch_entry_ok [OF t(2) i(1)] .
  have m: "members t (word_of_int g) = entry_members ?e" using members_found [OF t(3)] .
  show ?thesis
  proof (cases "word_of_int w \<in> entry_members ?e \<or> \<not> p25_patch_wgid_count ?e < 8")
    case c: True
    then have "p25_patch_add_wgid now g w s = t"
      using True by (simp only: p25_patch_add_wgid_def t(1) Let_def any_member [OF e] prod.case option.case) auto
    then show ?thesis using t(2,4) m c card_members [OF e] by (auto simp: insert_absorb)
  next
    case False
    then have run: "p25_patch_add_wgid now g w s =
        set_entry i (?e\<lparr>p25_patch_wgid := (p25_patch_wgid ?e)[p25_patch_wgid_count ?e := word_of_int w],
          p25_patch_wgid_count := p25_patch_wgid_count ?e + 1\<rparr>) t"
      using True by (simp only: p25_patch_add_wgid_def t(1) Let_def any_member [OF e] prod.case option.case) auto
    have new: "entry_ok (?e\<lparr>p25_patch_wgid := (p25_patch_wgid ?e)[p25_patch_wgid_count ?e := word_of_int w],
          p25_patch_wgid_count := p25_patch_wgid_count ?e + 1\<rparr>)"
      and mem: "entry_members (?e\<lparr>p25_patch_wgid := (p25_patch_wgid ?e)[p25_patch_wgid_count ?e := word_of_int w],
          p25_patch_wgid_count := p25_patch_wgid_count ?e + 1\<rparr>) = insert (word_of_int w) (entry_members ?e)"
      using False True entry_add [OF e, of "word_of_int w"] sgid_word [of w] by auto
    show ?thesis
      using set_entry_of(1) [OF t(2,3) new] members_set [OF t(2,3) new] i(2) mem m t(4) False card_members [OF e]
      by (simp add: run)
  qed
qed (auto simp: p25_patch_add_wgid_def ok)

lemma find_or_create_result:
  assumes ok: "patch_ok s" and f: "find_or_create now g s = (x, t)"
  shows "patch_ok t \<and> find_patch_idx t (word_of_int g) = x"
  using f update_ok [OF ok, of now g True True] ok by (auto simp: find_or_create_def Let_def split: option.split_asm)

text \<open>Every operation that rewrites the found entry under its own number keeps the table.\<close>

lemma rewrite_found:
  assumes "patch_ok t" "find_patch_idx t (word_of_int g) = Some i"
    and "entry_ok (patches t ! i) \<Longrightarrow> entry_ok e" "p25_patch_sgid e = p25_patch_sgid (patches t ! i)"
  shows "patch_ok (set_entry i e t)"
proof -
  have i: "i < 8" "p25_patch_sgid (patches t ! i) = word_of_int g" using found_lt [OF assms(1,2)] by simp_all
  show ?thesis
    using assms(3) [OF patch_entry_ok [OF assms(1) i(1)]] assms(4) i(2) by (intro set_entry_of(1) [OF assms(1,2)]) simp_all
qed

lemma add_wuid_ok:
  assumes ok: "patch_ok s"
  shows "patch_ok (p25_patch_add_wuid now g w s)"
proof (cases "0 < g \<and> g \<le> 0xFFFF \<and> w \<noteq> 0")
  case True
  obtain x t where f: "find_or_create now g s = (x, t)" by fastforce
  have t: "patch_ok t" "find_patch_idx t (word_of_int g) = x" using find_or_create_result [OF ok f] by simp_all
  show ?thesis
  proof (cases x)
    case None
    then show ?thesis using True t f by (simp add: p25_patch_add_wuid_def)
  next
    case (Some i)
    let ?e = "patches t ! i"
    have e: "entry_ok ?e" using patch_entry_ok [OF t(1)] found_lt [OF t(1)] t(2) Some by simp
    show ?thesis
    proof (cases "w \<in> set (take (p25_patch_wuid_count ?e) (p25_patch_wuid ?e)) \<or> \<not> p25_patch_wuid_count ?e < 8")
      case c: True
      then have "p25_patch_add_wuid now g w s = t"
        using True by (simp only: p25_patch_add_wuid_def f Some Let_def any_unit [OF e] prod.case option.case) auto
      then show ?thesis using t(1) by simp
    next
      case False
      then have run: "p25_patch_add_wuid now g w s = set_entry i (?e\<lparr>p25_patch_wuid :=
          (p25_patch_wuid ?e)[p25_patch_wuid_count ?e := w], p25_patch_wuid_count := p25_patch_wuid_count ?e + 1\<rparr>) t"
        using True by (simp only: p25_patch_add_wuid_def f Some Let_def any_unit [OF e] prod.case option.case) auto
      show ?thesis
        unfolding run using t Some False True entry_add_unit [OF e, of w] by (intro rewrite_found [of _ g]) simp_all
    qed
  qed
qed (auto simp: p25_patch_add_wuid_def ok)

lemma set_kas_ok:
  assumes ok: "patch_ok s"
  shows "patch_ok (p25_patch_set_kas now g k a m s)"
proof -
  obtain x t where f: "find_or_create now g s = (x, t)" by fastforce
  have t: "patch_ok t" "find_patch_idx t (word_of_int g) = x" using find_or_create_result [OF ok f] by simp_all
  show ?thesis
    using t ok by (cases x) (auto simp: p25_patch_set_kas_def f Let_def intro!: rewrite_found [of _ g])
qed

lemma clear_sg_ok: "patch_ok s \<Longrightarrow> patch_ok (p25_patch_clear_sg now g s)"
  by (auto simp: p25_patch_clear_sg_def context_ok intro!: rewrite_found [of _ g] split: option.split)

lemma prepare_ok: "patch_ok s \<Longrightarrow> patch_ok (snd (p25_patch_prepare_grg_update now g p a m s))"
proof (cases "0 < g \<and> g \<le> 0xFFFF")
  case True
  assume ok: "patch_ok s"
  show ?thesis
  proof (cases a)
    case act: True
    have "patch_ok (case find_patch_idx s (word_of_int g) of None \<Rightarrow> s | Some i \<Rightarrow> if c i
        then set_entry i (p25_patch_clear_entry_context (patches s ! i)) s else s)" for c
      using ok by (auto simp: context_ok intro!: rewrite_found [of _ g] split: option.split)
    then show ?thesis using True act by (simp add: p25_patch_prepare_grg_update_def Let_def update_ok)
  next
    case False
    have "patch_ok (case find_patch_idx t (word_of_int g) of None \<Rightarrow> t
        | Some i \<Rightarrow> set_entry i ((patches t ! i)\<lparr>p25_patch_is_patch := p\<rparr>) t)" if "patch_ok t" for t
      using that by (auto intro!: rewrite_found [of _ g] split: option.split)
    then show ?thesis
      using True False ok by (simp add: p25_patch_prepare_grg_update_def Let_def update_ok clear_sg_ok)
  qed
qed (auto simp: p25_patch_prepare_grg_update_def)

lemma entry_members_active: "entry_members (e\<lparr>p25_patch_active := b\<rparr>) = entry_members e"
  by (simp add: entry_members_def)

lemma remove_wgid_spec:
  assumes ok: "patch_ok s" and g: "0 < g" "0 < w"
  shows "patch_ok (p25_patch_remove_wgid g w s) \<and>
    (\<forall>g'. members (p25_patch_remove_wgid g w s) g' = members s g' - (if g' = word_of_int g then {word_of_int w} else {}))"
proof (cases "find_patch_idx s (word_of_int g)")
  case None
  then show ?thesis using g ok by (auto simp: p25_patch_remove_wgid_def members_def entry_of_def)
next
  case (Some i)
  let ?e = "patches s ! i"
  define d where "d = (case find (\<lambda>j. p25_patch_wgid ?e ! j = word_of_int w) [0..<min (p25_patch_wgid_count ?e) 8] of
      None \<Rightarrow> ?e
    | Some j \<Rightarrow> ?e\<lparr>p25_patch_wgid := (if j \<noteq> p25_patch_wgid_count ?e - 1
          then (p25_patch_wgid ?e)[j := p25_patch_wgid ?e ! (p25_patch_wgid_count ?e - 1)] else p25_patch_wgid ?e),
        p25_patch_wgid_count := p25_patch_wgid_count ?e - 1\<rparr>)"
  define d' where "d' = (if p25_patch_wgid_count d = 0 \<and> p25_patch_wuid_count d = 0 then d\<lparr>p25_patch_active := False\<rparr> else d)"
  have run: "p25_patch_remove_wgid g w s = set_entry i d' s"
    using g Some by (simp only: p25_patch_remove_wgid_def Let_def option.case d_def d'_def) simp
  have i: "i < 8" "p25_patch_sgid ?e = word_of_int g" using found_lt [OF ok Some] by simp_all
  have e: "entry_ok ?e" using patch_entry_ok [OF ok i(1)] .
  have d: "entry_ok d \<and> entry_members d = entry_members ?e - {word_of_int w} \<and> p25_patch_sgid d = p25_patch_sgid ?e"
  proof (cases "find (\<lambda>j. p25_patch_wgid ?e ! j = word_of_int w) [0..<min (p25_patch_wgid_count ?e) 8]")
    case None
    then have "word_of_int w \<notin> entry_members ?e" using any_member [OF e, of "word_of_int w"] by (auto simp: find_None_iff)
    then show ?thesis using e None by (simp add: d_def)
  next
    case F: (Some j)
    then have j: "j < p25_patch_wgid_count ?e" "p25_patch_wgid ?e ! j = word_of_int w"
      by (auto simp: find_Some_iff)
    show ?thesis using entry_remove [OF e j(1)] by (simp add: d_def F j(2))
  qed
  have d': "entry_ok d'" "entry_members d' = entry_members ?e - {word_of_int w}" "p25_patch_sgid d' = word_of_int g"
    using d i(2) by (simp_all add: d'_def entry_members_active)
  show ?thesis
    using set_entry_of(1) [OF ok Some d'(1,3)] members_set [OF ok Some d'(1,3)] members_found [OF Some] d'(2) by (simp add: run)
qed

section \<open>Sweep\<close>

text \<open>The compaction keeps exactly the entries that are not stale, in order.\<close>

lemma sweep_loop_spec:
  "w \<le> k \<Longrightarrow> k \<le> n \<Longrightarrow> n \<le> length es \<Longrightarrow>
   (case sweep_loop now [k..<n] w es of (v, fs) \<Rightarrow>
      v \<le> n \<and> length fs = length es \<and> set fs \<subseteq> set es \<and>
      take v fs = take w es @ filter (\<lambda>e. \<not> p25_patch_entry_is_stale e now) (drop k (take n es)))"
proof (induction "n - k" arbitrary: k w es)
  case 0
  then show ?case by simp
next
  case (Suc d)
  then have k: "k < n" "k < length es" and up: "[k..<n] = k # [Suc k..<n]" by (simp_all add: upt_conv_Cons)
  have dr: "drop k (take n es) = es ! k # drop (Suc k) (take n es)"
    using k by (simp add: Cons_nth_drop_Suc [symmetric] min_def)
  show ?case
  proof (cases "p25_patch_entry_is_stale (es ! k) now")
    case True
    then show ?thesis using Suc.hyps(1) [of "Suc k" w es] Suc.hyps(2) Suc.prems k by (simp add: up dr)
  next
    case False
    define fs where "fs = (if w \<noteq> k then es[w := es ! k] else es)"
    have fs: "fs = es[w := es ! k]" by (simp add: fs_def)
    have sub: "set fs \<subseteq> set es" using set_update_subset_insert [of es w "es ! k"] k(2) nth_mem [of k es] by (auto simp: fs)
    have dr': "drop (Suc k) (take n fs) = drop (Suc k) (take n es)"
      using Suc.prems(1) by (simp add: fs take_update_swap drop_update_swap drop_update_cancel)
    have tk: "take (Suc w) fs = take w es @ [es ! k]" using Suc.prems k by (simp add: fs take_Suc_conv_app_nth)
    have "case sweep_loop now [Suc k..<n] (Suc w) fs of (v, gs) \<Rightarrow>
        v \<le> n \<and> length gs = length fs \<and> set gs \<subseteq> set fs \<and>
        take v gs = take (Suc w) fs @ filter (\<lambda>e. \<not> p25_patch_entry_is_stale e now) (drop (Suc k) (take n fs))"
      using Suc.hyps(2) Suc.prems k by (intro Suc.hyps(1)) (simp_all add: fs)
    moreover have "sweep_loop now [k..<n] w es = sweep_loop now [Suc k..<n] (Suc w) fs"
      using False by (simp add: up fs_def)
    moreover have "length fs = length es" by (simp add: fs)
    ultimately show ?thesis using False sub by (auto simp: dr dr' tk split: prod.split_asm)
  qed
qed

lemma sweep_spec:
  assumes ok: "patch_ok s"
  shows "patch_ok (p25_patch_sweep_stale now s) \<and>
    take (live (p25_patch_sweep_stale now s)) (patches (p25_patch_sweep_stale now s)) =
      filter (\<lambda>e. \<not> p25_patch_entry_is_stale e now) (take (live s) (patches s))"
proof -
  obtain v fs where r: "sweep_loop now [0..<live s] 0 (patches s) = (v, fs)" by fastforce
  have len: "length (patches s) = 8" using ok by (simp add: patch_ok_def)
  have v: "v \<le> live s" "length fs = 8" "set fs \<subseteq> set (patches s)"
    "take v fs = filter (\<lambda>e. \<not> p25_patch_entry_is_stale e now) (take (live s) (patches s))"
    using sweep_loop_spec [of 0 0 "live s" "patches s" now] r len patch_live [OF ok] by simp_all
  have run: "p25_patch_sweep_stale now s = s\<lparr>p25_patch_count := int v, patches := fs\<rparr>"
    by (simp add: p25_patch_sweep_stale_def range_live [OF ok] r)
  have sg: "sgids (p25_patch_sweep_stale now s) =
      map p25_patch_sgid (filter (\<lambda>e. \<not> p25_patch_entry_is_stale e now) (take (live s) (patches s)))"
    by (simp add: sgids_def run v(4))
  have "distinct (sgids (p25_patch_sweep_stale now s)) \<and> 0 \<notin> set (sgids (p25_patch_sweep_stale now s))"
    using ok unfolding sg by (auto simp: patch_ok_def sgids_def distinct_map_filter)
  then show ?thesis using ok v patch_live [OF ok] by (auto simp: patch_ok_def run)
qed

section \<open>Runs\<close>

datatype patch_op =
    Update int int bool bool | Add_wgid int int int | Add_wuid int int u32 | Remove_wgid int int
  | Clear_sg int int | Prepare int int bool bool int | Set_kas int int int int int | Sweep int

primrec patch_exec :: "patch_op \<Rightarrow> patch_state \<Rightarrow> patch_state" where
  "patch_exec (Update now g p a) s = p25_patch_update now g p a s"
| "patch_exec (Add_wgid now g w) s = p25_patch_add_wgid now g w s"
| "patch_exec (Add_wuid now g u) s = p25_patch_add_wuid now g u s"
| "patch_exec (Remove_wgid g w) s = p25_patch_remove_wgid g w s"
| "patch_exec (Clear_sg now g) s = p25_patch_clear_sg now g s"
| "patch_exec (Prepare now g p a m) s = snd (p25_patch_prepare_grg_update now g p a m s)"
| "patch_exec (Set_kas now g k a m) s = p25_patch_set_kas now g k a m s"
| "patch_exec (Sweep now) s = p25_patch_sweep_stale now s"

lemma remove_wgid_ok: "patch_ok s \<Longrightarrow> patch_ok (p25_patch_remove_wgid g w s)"
  using remove_wgid_spec [of s g w] by (cases "0 < g \<and> 0 < w") (auto simp: p25_patch_remove_wgid_def)

lemma patch_exec_ok: "patch_ok s \<Longrightarrow> patch_ok (patch_exec c s)"
  by (cases c) (simp_all add: update_ok add_wgid_spec add_wuid_ok remove_wgid_ok clear_sg_ok prepare_ok set_kas_ok sweep_spec)

interpretation patch_runs: run_invariant patch_exec patch_ok
  by unfold_locales (rule patch_exec_ok)

lemmas patch_run_ok = patch_runs.run

text \<open>The zeroed table the decoder starts with.\<close>

definition zero_patch :: patch_entry where
  "zero_patch = \<lparr>p25_patch_sgid = 0, p25_patch_is_patch = False, p25_patch_active = False, p25_patch_last_update = 0,
     p25_patch_wgid_count = 0, p25_patch_wuid_count = 0, p25_patch_wgid = replicate 8 0, p25_patch_wuid = replicate 8 0,
     p25_patch_key = 0, p25_patch_alg = 0, p25_patch_ssn = 0, p25_patch_key_valid = False\<rparr>"

definition empty_patches :: patch_state where
  "empty_patches = \<lparr>p25_patch_count = 0, patches = replicate 8 zero_patch\<rparr>"

lemma empty_ok: "patch_ok empty_patches"
  by (simp add: patch_ok_def empty_patches_def sgids_def entry_ok_def zero_patch_def)

section \<open>Key policy\<close>

lemma find_unique:
  assumes "i < n" "P i" "\<And>j. j < n \<Longrightarrow> P j \<Longrightarrow> j = i"
  shows "find P [0..<n] = Some i"
proof (cases "find P [0..<n]")
  case None
  then show ?thesis using assms(1,2) by (auto simp: find_None_iff)
next
  case (Some k)
  then have "k < n" "P k" by (auto simp: find_Some_iff)
  then show ?thesis using Some assms(3) by simp
qed

lemma sg_clear_iff:
  assumes ok: "patch_ok s" and g: "0 < g"
  shows "p25_patch_sg_key_is_clear now s g \<longleftrightarrow>
    (\<exists>e. entry_of s (word_of_int g) = Some e \<and> p25_patch_active e \<and> \<not> p25_patch_entry_is_stale e now \<and>
       p25_patch_key_valid e \<and> p25_patch_key e = 0)"
proof -
  let ?P = "\<lambda>i. p25_patch_active (patches s ! i) \<and> p25_patch_sgid (patches s ! i) = word_of_int g \<and>
    \<not> p25_patch_entry_is_stale (patches s ! i) now"
  show ?thesis
  proof (cases "find_patch_idx s (word_of_int g)")
    case None
    then have "find ?P [0..<live s] = None"
      unfolding find_patch_idx_def range_live [OF ok] by (auto simp: find_None_iff)
    then show ?thesis using None g by (simp add: p25_patch_sg_key_is_clear_def range_live [OF ok] entry_of_def)
  next
    case (Some i)
    have only: "j = i" if "j < live s" "p25_patch_sgid (patches s ! j) = word_of_int g" for j
      using that Some find_patch_Some [OF ok, of "word_of_int g" j] by simp
    have i: "i < live s" "p25_patch_sgid (patches s ! i) = word_of_int g" using found_lt [OF ok Some] by simp_all
    have "find ?P [0..<live s] = (if ?P i then Some i else None)"
    proof (cases "?P i")
      case True
      show ?thesis unfolding if_P [OF True] by (rule find_unique) (use i(1) True only in blast)+
    next
      case False
      then have "\<not> ?P j" if "j < live s" for j using only [OF that] by blast
      then show ?thesis unfolding if_not_P [OF False] find_None_iff by simp
    qed
    then show ?thesis using Some g i by (auto simp: p25_patch_sg_key_is_clear_def range_live [OF ok] entry_of_def)
  qed
qed

lemma tg_clear_sound:
  assumes ok: "patch_ok s" and t: "p25_patch_tg_key_is_clear now s tg"
  shows "\<exists>g e. entry_of s g = Some e \<and> p25_patch_active e \<and> \<not> p25_patch_entry_is_stale e now \<and>
    word_of_int tg \<in> members s g \<and> p25_patch_key_valid e \<and> p25_patch_key e = 0"
proof -
  let ?P = "\<lambda>i. p25_patch_active (patches s ! i) \<and> \<not> p25_patch_entry_is_stale (patches s ! i) now \<and>
    has_member (patches s ! i) (word_of_int tg)"
  obtain i where f: "find ?P [0..<live s] = Some i" and k: "p25_patch_key_valid (patches s ! i)" "p25_patch_key (patches s ! i) = 0"
    using t by (auto simp: p25_patch_tg_key_is_clear_def range_live [OF ok] split: if_split_asm option.split_asm)
  from f have i: "i < live s" "?P i" by (auto simp: find_Some_iff)
  then have idx: "find_patch_idx s (p25_patch_sgid (patches s ! i)) = Some i" by (simp add: find_patch_Some [OF ok])
  have "entry_ok (patches s ! i)" using patch_entry_ok [OF ok] i(1) patch_live [OF ok] by simp
  then have "word_of_int tg \<in> members s (p25_patch_sgid (patches s ! i))"
    using i(2) any_member [of "patches s ! i"] by (simp add: members_found [OF idx] has_member_def)
  then show ?thesis using idx i(2) k by (intro exI [of _ "p25_patch_sgid (patches s ! i)"] exI [of _ "patches s ! i"])
    (simp add: entry_of_def)
qed

lemma rewrite_entry_of:
  assumes ok: "patch_ok t" and f: "find_patch_idx t g = Some i"
    and e: "entry_ok (patches t ! i) \<Longrightarrow> entry_ok e" "p25_patch_sgid e = p25_patch_sgid (patches t ! i)"
  shows "entry_of (set_entry i e t) g = Some e"
proof -
  have i: "i < 8" "p25_patch_sgid (patches t ! i) = g" using found_lt [OF ok f] by simp_all
  show ?thesis using set_entry_of(2) [OF ok f e(1) [OF patch_entry_ok [OF ok i(1)]]] e(2) i(2) by simp
qed

lemma set_kas_entry:
  assumes ok: "patch_ok s" and g: "0 < g" "g \<le> 0xFFFF" and k: "0 \<le> k"
  shows "\<exists>e. entry_of (p25_patch_set_kas now g k a m s) (word_of_int g) = Some e \<and> p25_patch_key_valid e \<and>
    p25_patch_key e = word_of_int k"
proof -
  obtain i t where t: "find_or_create now g s = (Some i, t)" "patch_ok t" "find_patch_idx t (word_of_int g) = Some i"
    using find_or_create_ok [OF ok g, of now] by blast
  define e where "e = (let e = patches t ! i;
        e = e\<lparr>p25_patch_key := word_of_int k, p25_patch_key_valid := True\<rparr>;
        e = (if a \<ge> 0 then e\<lparr>p25_patch_alg := word_of_int a\<rparr> else e)
    in if m \<ge> 0 then e\<lparr>p25_patch_ssn := word_of_int (m AND 0x1F)\<rparr> else e)"
  have run: "p25_patch_set_kas now g k a m s = set_entry i e t"
    using g k by (simp add: p25_patch_set_kas_def t(1) e_def Let_def)
  have "entry_of (set_entry i e t) (word_of_int g) = Some e"
    by (rule rewrite_entry_of [OF t(2,3)]) (simp_all add: e_def Let_def)
  then show ?thesis by (simp add: run e_def Let_def)
qed

lemma clear_sg_entry:
  assumes ok: "patch_ok s" and g: "0 < g"
  shows "\<not> p25_patch_sg_key_is_clear now' (p25_patch_clear_sg now g s) g"
proof (cases "find_patch_idx s (word_of_int g)")
  case None
  then show ?thesis using g ok by (simp add: p25_patch_clear_sg_def sg_clear_iff entry_of_def)
next
  case (Some i)
  let ?e = "(p25_patch_clear_entry_context (patches s ! i))\<lparr>p25_patch_active := False, p25_patch_last_update := now\<rparr>"
  have run: "p25_patch_clear_sg now g s = set_entry i ?e s" using Some g by (simp add: p25_patch_clear_sg_def)
  have "entry_of (set_entry i ?e s) (word_of_int g) = Some ?e" by (rule rewrite_entry_of [OF ok Some]) (simp_all add: context_ok)
  then show ?thesis using clear_sg_ok [OF ok, of now g] g by (simp add: sg_clear_iff run)
qed

text \<open>A new SSN on an active supergroup forgets its key before the update.\<close>

lemma prepare_new_ssn:
  assumes ok: "patch_ok s" and g: "0 < g" "g \<le> 0xFFFF" and e: "entry_of s (word_of_int g) = Some e"
    and ssn: "p25_patch_active e" "0 \<le> m" "p25_patch_ssn e \<noteq> word_of_int (m AND 0x1F)"
  shows "\<not> p25_patch_sg_key_is_clear now' (snd (p25_patch_prepare_grg_update now g p True m s)) g"
proof -
  obtain i where i: "find_patch_idx s (word_of_int g) = Some i" "e = patches s ! i" using e by (auto simp: entry_of_def)
  let ?t = "set_entry i (p25_patch_clear_entry_context e) s"
  have t: "patch_ok ?t" using i by (intro rewrite_found [OF ok]) (simp_all add: context_ok)
  have te: "entry_of ?t (word_of_int g) = Some (p25_patch_clear_entry_context e)"
    using i by (intro rewrite_entry_of [OF ok]) (simp_all add: context_ok)
  obtain j where j: "find_patch_idx ?t (word_of_int g) = Some j" "patches ?t ! j = p25_patch_clear_entry_context e"
    using te by (auto simp: entry_of_def)
  have run: "snd (p25_patch_prepare_grg_update now g p True m s) =
      set_entry j ((p25_patch_clear_entry_context e)\<lparr>p25_patch_is_patch := p, p25_patch_active := True, p25_patch_last_update := now\<rparr>) ?t"
    using g i ssn j by (simp add: p25_patch_prepare_grg_update_def Let_def p25_patch_update_def)
  have "entry_of (snd (p25_patch_prepare_grg_update now g p True m s)) (word_of_int g) =
      Some ((p25_patch_clear_entry_context e)\<lparr>p25_patch_is_patch := p, p25_patch_active := True, p25_patch_last_update := now\<rparr>)"
    unfolding run by (rule rewrite_entry_of [OF t j(1)]) (simp_all add: context_ok j(2))
  then show ?thesis
    using prepare_ok [OF ok] g by (simp add: sg_clear_iff p25_patch_clear_entry_context_def)
qed

section \<open>Properties\<close>

text \<open>
  C36. From the zeroed table, every sequence of updates, membership changes, clears, regroup
  commands, key settings and sweeps keeps the table well formed: at most eight live entries
  with distinct nonzero supergroup numbers, and in every cell at most eight distinct nonzero
  talkgroups and units. A sweep keeps exactly the entries younger than the time to live, in order.
\<close>

theorem patch_table_invariant:
  assumes "s = fold patch_exec cs empty_patches"
  shows "patch_ok s \<and>
    take (live (p25_patch_sweep_stale now s)) (patches (p25_patch_sweep_stale now s)) =
      filter (\<lambda>e. \<not> p25_patch_entry_is_stale e now) (take (live s) (patches s))"
  using sweep_spec patch_run_ok [OF empty_ok] assms by blast

theorem patch_table_invariant_witness:
  "patch_ok (fold patch_exec [Update 5 300 True True, Add_wgid 6 300 17, Sweep 40] empty_patches)"
  using patch_table_invariant [OF refl] by blast

text \<open>
  Membership is that of a bounded set: adding a valid talkgroup to a valid supergroup
  makes it a member unless eight others are, creating the supergroup if needed; removing
  one takes exactly it away and leaves every other supergroup's members alone.
\<close>

lemma patch_membership:
  assumes "patch_ok s" "0 < g" "g \<le> 0xFFFF" "0 < w" "w \<le> 0xFFFF"
  shows "members (p25_patch_add_wgid now g w s) (word_of_int g) =
      (if card (members s (word_of_int g)) < 8 then insert (word_of_int w) (members s (word_of_int g))
       else members s (word_of_int g)) \<and>
    (\<forall>g'. members (p25_patch_remove_wgid g w s) g' = members s g' - (if g' = word_of_int g then {word_of_int w} else {}))"
  using add_wgid_spec [OF assms(1), of now g w] remove_wgid_spec [OF assms(1), of g w] assms(2-5) by simp

text \<open>
  A supergroup counts as clear only on an explicit key of zero: a key of zero makes it
  clear exactly while it is active and fresh, any other key of the sixteen-bit range never
  does, and a clear command or a regroup with another SSN forgets the policy. A talkgroup
  counts as clear only as a member of such a supergroup.
\<close>

lemma patch_clear_key_policy:
  assumes ok: "patch_ok s" and g: "0 < g" "g \<le> 0xFFFF" and k: "0 \<le> k" "k \<le> 0xFFFF"
  shows "(p25_patch_sg_key_is_clear now' (p25_patch_set_kas now g k a m s) g \<longleftrightarrow>
      k = 0 \<and> (\<exists>e. entry_of (p25_patch_set_kas now g k a m s) (word_of_int g) = Some e \<and> p25_patch_active e \<and>
        \<not> p25_patch_entry_is_stale e now')) \<and>
    \<not> p25_patch_sg_key_is_clear now' (p25_patch_clear_sg now g s) g \<and>
    (\<forall>e. entry_of s (word_of_int g) = Some e \<and> p25_patch_active e \<and> 0 \<le> m \<and> p25_patch_ssn e \<noteq> word_of_int (m AND 0x1F) \<longrightarrow>
      \<not> p25_patch_sg_key_is_clear now' (snd (p25_patch_prepare_grg_update now g p True m s)) g) \<and>
    (p25_patch_tg_key_is_clear now' s tg \<longrightarrow> (\<exists>g e. entry_of s g = Some e \<and> p25_patch_active e \<and>
      \<not> p25_patch_entry_is_stale e now' \<and> word_of_int tg \<in> members s g \<and> p25_patch_key_valid e \<and> p25_patch_key e = 0))"
proof -
  have "(word_of_int k :: u16) = 0 \<longleftrightarrow> k = 0" using k sgid_word [of k] by (cases "k = 0") auto
  then have "p25_patch_sg_key_is_clear now' (p25_patch_set_kas now g k a m s) g \<longleftrightarrow>
      k = 0 \<and> (\<exists>e. entry_of (p25_patch_set_kas now g k a m s) (word_of_int g) = Some e \<and> p25_patch_active e \<and>
        \<not> p25_patch_entry_is_stale e now')"
    using set_kas_entry [OF ok g k(1), of now a m] sg_clear_iff [OF set_kas_ok [OF ok], of g] g(1) by auto
  then show ?thesis
    using clear_sg_entry [OF ok g(1)] prepare_new_ssn [OF ok g] tg_clear_sound [OF ok] by blast
qed

end
