(* ===== verification/P25_Patch_Text.thy ===== *)
theory P25_Patch_Text
  imports P25_Patch
begin

text \<open>
  The one-line summary of the patch table, \<open>p25_patch_compose_details\<close> and its helpers in
  \<open>src/protocol/p25/p25_patch.c\<close>. The output buffer is a pair: the text up to the terminating
  zero, and the length the source keeps in \<open>n\<close>, which counts what \<open>vsnprintf\<close> would have
  written and so may pass the capacity. The conversions \<open>%0wu\<close> and \<open>%0wX\<close> are modelled by
  their digits. Capacities are below \<open>2\<^sup>3\<^sup>1\<close>, so that the cast of the capacity to \<open>int\<close> is exact.
\<close>

section \<open>Formats\<close>

definition digit :: "nat \<Rightarrow> char" where
  "digit d = ''0123456789ABCDEF'' ! d"

fun digits :: "nat \<Rightarrow> nat \<Rightarrow> string" where
  "digits base n = (if base < 2 \<or> n < base then [digit (n mod 16)] else digits base (n div base) @ [digit (n mod base)])"

declare digits.simps [simp del]

definition fmt_u :: "nat \<Rightarrow> nat \<Rightarrow> string" where
  "fmt_u width n = replicate (width - length (digits 10 n)) (CHR ''0'') @ digits 10 n"

definition fmt_X :: "nat \<Rightarrow> nat \<Rightarrow> string" where
  "fmt_X width n = replicate (width - length (digits 16 n)) (CHR ''0'') @ digits 16 n"

section \<open>Model\<close>

type_synonym out_buffer = "string \<times> nat"

definition p25_patch_append :: "nat \<Rightarrow> string \<Rightarrow> out_buffer \<Rightarrow> out_buffer" where
  "p25_patch_append cap txt buf =
     (case buf of (out, n) \<Rightarrow>
        let left = (if cap > n then cap - n else 0)
        in if left = 0 then (out, n) else (take n out @ take (left - 1) txt, n + length txt))"

definition p25_patch_append_wg_summary :: "nat \<Rightarrow> patch_entry \<Rightarrow> out_buffer \<Rightarrow> out_buffer" where
  "p25_patch_append_wg_summary cap e buf =
     (let wgc = p25_patch_wgid_count e
      in if wgc = 0 then buf
         else if wgc \<le> 3
         then fold (\<lambda>k. p25_patch_append cap ((if k = 0 then [] else '','') @ fmt_u 4 (unat (p25_patch_wgid e ! k))))
                [0..<min wgc 3] (p25_patch_append cap '' WG:'' buf)
         else p25_patch_append cap ('' WG:'' @ fmt_u 0 wgc @ ''('' @ fmt_u 4 (unat (p25_patch_wgid e ! 0)) @ '','' @
                fmt_u 4 (unat (p25_patch_wgid e ! 1)) @ ''+)'') buf)"

definition p25_patch_append_crypt_summary :: "nat \<Rightarrow> patch_entry \<Rightarrow> out_buffer \<Rightarrow> out_buffer" where
  "p25_patch_append_crypt_summary cap e buf =
     (let buf = (if p25_patch_key e \<noteq> 0 then p25_patch_append cap ('' K:'' @ fmt_X 4 (unat (p25_patch_key e AND 0xFFFF))) buf else buf);
          buf = (if p25_patch_alg e \<noteq> 0 then p25_patch_append cap ('' A:'' @ fmt_X 2 (unat (p25_patch_alg e AND 0xFF))) buf else buf)
      in if p25_patch_ssn e \<noteq> 0 then p25_patch_append cap ('' S:'' @ fmt_u 2 (unat (p25_patch_ssn e AND 0x1F))) buf else buf)"

text \<open>The body of the loop for one active entry.\<close>

definition append_entry :: "nat \<Rightarrow> patch_entry \<Rightarrow> out_buffer \<Rightarrow> out_buffer" where
  "append_entry cap e buf =
     (let buf = (if snd buf > 0 then p25_patch_append cap ''; '' buf else buf);
          buf = p25_patch_append cap (''SG'' @ fmt_u 3 (unat (p25_patch_sgid e)) @ ''['' @
                  (if p25_patch_is_patch e then ''P'' else ''S'') @ '']'') buf;
          buf = (if p25_patch_wgid_count e > 0 then p25_patch_append_wg_summary cap e buf
                 else if p25_patch_wuid_count e > 0 then p25_patch_append cap ('' U:'' @ fmt_u 0 (p25_patch_wuid_count e)) buf
                 else buf)
      in if p25_patch_key e \<noteq> 0 \<or> p25_patch_alg e \<noteq> 0 \<or> p25_patch_ssn e \<noteq> 0
         then p25_patch_append_crypt_summary cap e buf else buf)"

fun compose_loop :: "nat \<Rightarrow> patch_entry list \<Rightarrow> out_buffer \<Rightarrow> out_buffer" where
  "compose_loop cap [] buf = buf"
| "compose_loop cap (e # es) buf =
     (if \<not> p25_patch_active e then compose_loop cap es buf
      else let buf = append_entry cap e buf
           in if int (snd buf) \<ge> int cap - 8 then buf else compose_loop cap es buf)"

definition p25_patch_compose_details :: "int \<Rightarrow> nat \<Rightarrow> patch_state \<Rightarrow> out_buffer \<times> patch_state" where
  "p25_patch_compose_details now cap state =
     (if cap = 0 then (([], 0), state)
      else let state = p25_patch_sweep_stale now state
           in (compose_loop cap (map (\<lambda>i. patches state ! i) (patch_range state)) ([], 0), state))"

section \<open>Exact text\<close>

text \<open>
  A buffer that holds the text \<open>t\<close>: the source has counted all of it, or enough of it to
  pass the capacity, and stored as much of it as fits.
\<close>

definition holds_text :: "nat \<Rightarrow> string \<Rightarrow> out_buffer \<Rightarrow> bool" where
  "holds_text cap t buf \<longleftrightarrow> fst buf = take (cap - 1) t \<and>
     (if length t < cap then snd buf = length t else cap \<le> snd buf \<and> snd buf \<le> length t)"

lemma append_holds:
  assumes "0 < cap" "holds_text cap t buf"
  shows "holds_text cap (t @ x) (p25_patch_append cap x buf)"
proof (cases "length t < cap")
  case True
  then have "buf = (t, length t)" using assms by (cases buf) (auto simp: holds_text_def)
  then show ?thesis using True by (auto simp: holds_text_def p25_patch_append_def Let_def)
next
  case False
  then show ?thesis using assms by (cases buf) (auto simp: holds_text_def p25_patch_append_def)
qed

text \<open>The text of one entry, and of the list of active entries.\<close>

definition wg_text :: "patch_entry \<Rightarrow> string" where
  "wg_text e =
     (let c = p25_patch_wgid_count e
      in if c = 0 then []
         else if c \<le> 3 then '' WG:'' @ concat (map (\<lambda>k. (if k = 0 then [] else '','') @ fmt_u 4 (unat (p25_patch_wgid e ! k))) [0..<c])
         else '' WG:'' @ fmt_u 0 c @ ''('' @ fmt_u 4 (unat (p25_patch_wgid e ! 0)) @ '','' @ fmt_u 4 (unat (p25_patch_wgid e ! 1)) @ ''+)'')"

definition crypt_text :: "patch_entry \<Rightarrow> string" where
  "crypt_text e =
     (if p25_patch_key e \<noteq> 0 then '' K:'' @ fmt_X 4 (unat (p25_patch_key e)) else []) @
     (if p25_patch_alg e \<noteq> 0 then '' A:'' @ fmt_X 2 (unat (p25_patch_alg e)) else []) @
     (if p25_patch_ssn e \<noteq> 0 then '' S:'' @ fmt_u 2 (unat (p25_patch_ssn e AND 0x1F)) else [])"

definition entry_text :: "patch_entry \<Rightarrow> string" where
  "entry_text e =
     ''SG'' @ fmt_u 3 (unat (p25_patch_sgid e)) @ ''['' @ (if p25_patch_is_patch e then ''P'' else ''S'') @ '']'' @
     (if p25_patch_wgid_count e > 0 then wg_text e
      else if p25_patch_wuid_count e > 0 then '' U:'' @ fmt_u 0 (p25_patch_wuid_count e) else []) @ crypt_text e"

fun join_text :: "string list \<Rightarrow> string" where
  "join_text [] = []"
| "join_text [t] = t"
| "join_text (t # ts) = t @ ''; '' @ join_text ts"

lemma join_snoc: "ts \<noteq> [] \<Longrightarrow> join_text (ts @ [t]) = join_text ts @ ''; '' @ t"
  by (induction ts rule: join_text.induct) auto

lemma take_upt_nth: "n \<le> length xs \<Longrightarrow> map (\<lambda>i. xs ! i) [0..<n] = take n xs"
  by (rule nth_equalityI) simp_all

lemma fold_append_holds:
  "0 < cap \<Longrightarrow> holds_text cap t buf \<Longrightarrow>
   holds_text cap (t @ concat (map f ks)) (fold (\<lambda>k. p25_patch_append cap (f k)) ks buf)"
proof (induction ks arbitrary: t buf)
  case (Cons k ks)
  from Cons.IH [OF Cons.prems(1) append_holds [OF Cons.prems, of "f k"]] show ?case by simp
qed simp

lemma wg_holds:
  "0 < cap \<Longrightarrow> holds_text cap t buf \<Longrightarrow> holds_text cap (t @ wg_text e) (p25_patch_append_wg_summary cap e buf)"
  using fold_append_holds [of cap "t @ '' WG:''" "p25_patch_append cap '' WG:'' buf"
      "\<lambda>k. (if k = 0 then [] else '','') @ fmt_u 4 (unat (p25_patch_wgid e ! k))" "[0..<p25_patch_wgid_count e]"]
    append_holds [of cap t buf]
  by (auto simp: p25_patch_append_wg_summary_def wg_text_def Let_def)

lemma key_mask: "(k AND 0xFFFF :: u16) = k" "(a AND 0xFF :: u8) = a"
  using take_bit_word_eq_self [of 16 k] take_bit_word_eq_self [of 8 a] by (simp_all add: take_bit_eq_mask mask_eq_exp_minus_1)

lemma maybe_holds:
  "0 < cap \<Longrightarrow> holds_text cap t buf \<Longrightarrow> holds_text cap (t @ (if c then x else [])) (if c then p25_patch_append cap x buf else buf)"
  by (simp add: append_holds)

lemma crypt_holds:
  assumes "0 < cap" "holds_text cap t buf"
  shows "holds_text cap (t @ crypt_text e) (p25_patch_append_crypt_summary cap e buf)"
  unfolding p25_patch_append_crypt_summary_def Let_def crypt_text_def key_mask append_assoc [symmetric]
  by (intro maybe_holds assms)

lemma crypt_none: "p25_patch_key e = 0 \<Longrightarrow> p25_patch_alg e = 0 \<Longrightarrow> p25_patch_ssn e = 0 \<Longrightarrow> crypt_text e = []"
  by (simp add: crypt_text_def)

text \<open>An entry is appended with its separator unless it is the first.\<close>

lemma entry_holds:
  assumes c: "0 < cap" and h: "holds_text cap t buf"
  shows "holds_text cap (t @ (if t = [] then [] else ''; '') @ entry_text e) (append_entry cap e buf)"
proof -
  define sep where "sep = (if t = [] then [] else ''; '')"
  have pos: "snd buf > 0 \<longleftrightarrow> t \<noteq> []" using c h by (auto simp: holds_text_def split: if_split_asm)
  define b1 where "b1 = (if snd buf > 0 then p25_patch_append cap ''; '' buf else buf)"
  have h1: "holds_text cap (t @ sep) b1" using append_holds [OF c h, of "''; ''"] h pos by (cases "t = []") (simp_all add: b1_def sep_def)
  define head where "head = ''SG'' @ fmt_u 3 (unat (p25_patch_sgid e)) @ ''['' @ (if p25_patch_is_patch e then ''P'' else ''S'') @ '']''"
  define b2 where "b2 = p25_patch_append cap head b1"
  have h2: "holds_text cap ((t @ sep) @ head) b2" unfolding b2_def by (rule append_holds [OF c h1])
  define mid where "mid = (if p25_patch_wgid_count e > 0 then wg_text e
      else if p25_patch_wuid_count e > 0 then '' U:'' @ fmt_u 0 (p25_patch_wuid_count e) else [])"
  define b3 where "b3 = (if p25_patch_wgid_count e > 0 then p25_patch_append_wg_summary cap e b2
      else if p25_patch_wuid_count e > 0 then p25_patch_append cap ('' U:'' @ fmt_u 0 (p25_patch_wuid_count e)) b2 else b2)"
  have h3: "holds_text cap (((t @ sep) @ head) @ mid) b3"
    using h2 wg_holds [OF c h2, of e] append_holds [OF c h2, of "'' U:'' @ fmt_u 0 (p25_patch_wuid_count e)"]
    by (simp only: mid_def b3_def append_Nil2 split: if_split) blast
  have "append_entry cap e buf = (if p25_patch_key e \<noteq> 0 \<or> p25_patch_alg e \<noteq> 0 \<or> p25_patch_ssn e \<noteq> 0
      then p25_patch_append_crypt_summary cap e b3 else b3)"
    unfolding append_entry_def Let_def b3_def b2_def b1_def head_def by (rule refl)
  then have "holds_text cap ((((t @ sep) @ head) @ mid) @ crypt_text e) (append_entry cap e buf)"
    using h3 crypt_holds [OF c h3, of e] crypt_none [of e] by (auto split: if_split_asm)
  then show ?thesis by (simp add: entry_text_def mid_def head_def sep_def)
qed

lemma entry_text_nonempty: "entry_text e \<noteq> []"
  by (simp add: entry_text_def)

lemma join_nonempty: "ts \<noteq> [] \<Longrightarrow> (\<forall>t \<in> set ts. t \<noteq> []) \<Longrightarrow> join_text ts \<noteq> []"
  by (induction ts rule: join_text.induct) auto

lemma compose_loop_holds:
  assumes "0 < cap" "holds_text cap (join_text (map entry_text ds)) buf"
  shows "\<exists>k. (let as = ds @ take k (filter p25_patch_active es) in
      holds_text cap (join_text (map entry_text as)) (compose_loop cap es buf) \<and>
      (as = ds @ filter p25_patch_active es \<or> cap \<le> snd (compose_loop cap es buf) + 8))"
  using assms
proof (induction cap es buf arbitrary: ds rule: compose_loop.induct)
  case (1 cap buf)
  then show ?case by simp
next
  case (2 cap e es buf)
  show ?case
  proof (cases "p25_patch_active e")
    case False
    then show ?thesis using "2.IH"(1) [OF False "2.prems"] by simp
  next
    case True
    let ?b = "append_entry cap e buf"
    have b: "holds_text cap (join_text (map entry_text (ds @ [e]))) ?b"
      using entry_holds [OF "2.prems", of e] join_nonempty [of "map entry_text ds"]
      by (cases "ds = []") (simp_all add: join_snoc entry_text_nonempty)
    show ?thesis
    proof (cases "int (snd ?b) \<ge> int cap - 8")
      case stop: True
      then show ?thesis using True b by (intro exI [of _ 1]) (simp add: Let_def)
    next
      case False
      obtain k where "let as = (ds @ [e]) @ take k (filter p25_patch_active es) in
          holds_text cap (join_text (map entry_text as)) (compose_loop cap es ?b) \<and>
          (as = (ds @ [e]) @ filter p25_patch_active es \<or> cap \<le> snd (compose_loop cap es ?b) + 8)"
        using "2.IH"(2) [of ?b "ds @ [e]"] True False "2.prems"(1) b by auto
      then show ?thesis using True False by (intro exI [of _ "Suc k"]) (simp add: Let_def)
    qed
  qed
qed

section \<open>Property\<close>

text \<open>
  The summary of a well-formed table never overruns its buffer: the stored text is the
  text of a prefix of the active entries that survived the sweep, cut to one byte below the
  capacity; the returned length is that text's length unless the text was cut, and it stops
  before the last active entry only within eight bytes of the capacity or past it.
\<close>

lemma compose_details_text:
  assumes "patch_ok s" "0 < cap" "p25_patch_compose_details now cap s = ((out, n), s')"
  shows "s' = p25_patch_sweep_stale now s \<and> length out < cap \<and>
    (\<exists>k. let as = take k (filter p25_patch_active (filter (\<lambda>e. \<not> p25_patch_entry_is_stale e now) (take (live s) (patches s)))) in
       out = take (cap - 1) (join_text (map entry_text as)) \<and>
       (n < cap \<longrightarrow> n = length (join_text (map entry_text as))) \<and>
       (as = filter p25_patch_active (filter (\<lambda>e. \<not> p25_patch_entry_is_stale e now) (take (live s) (patches s))) \<or> cap \<le> n + 8))"
proof -
  let ?s = "p25_patch_sweep_stale now s"
  let ?es = "filter (\<lambda>e. \<not> p25_patch_entry_is_stale e now) (take (live s) (patches s))"
  have ok: "patch_ok ?s" and es: "take (live ?s) (patches ?s) = ?es" using sweep_spec [OF assms(1)] by simp_all
  have "map (\<lambda>i. patches ?s ! i) (patch_range ?s) = ?es"
    using patch_live [OF ok] ok by (simp add: range_live [OF ok] es [symmetric] take_upt_nth patch_ok_def)
  then have run: "s' = ?s" "compose_loop cap ?es ([], 0) = (out, n)"
    using assms(2,3) by (simp_all add: p25_patch_compose_details_def Let_def)
  have "holds_text cap (join_text (map entry_text [])) ([], 0)" using assms(2) by (simp add: holds_text_def)
  from compose_loop_holds [OF assms(2) this, of ?es] obtain k where
    "holds_text cap (join_text (map entry_text (take k (filter p25_patch_active ?es)))) (out, n)"
    "take k (filter p25_patch_active ?es) = filter p25_patch_active ?es \<or> cap \<le> n + 8"
    unfolding run by (auto simp: Let_def)
  then show ?thesis
    using assms(2) run(1) by (auto simp: holds_text_def Let_def min_def split: if_split_asm intro!: exI [of _ k])
qed

end
