(* ===== verification/Nxdn_Convolution.thy ===== *)
theory Nxdn_Convolution
  imports Prelude
begin

text \<open>
  The Viterbi decoder of NXDN, \<open>src/protocol/nxdn/nxdn_convolution.c\<close>: sixteen states, two
  metric arrays used in turn, and one 64-bit word of decisions per received pair. The static
  variables of the file are the record \<open>conv\<close>; \<open>m_old1\<close> says that \<open>m_oldMetrics\<close> points to
  \<open>m_metrics1\<close>, and \<open>m_dp\<close> is the index in \<open>m_decisions\<close>. Metrics are natural numbers
  with the 16-bit truncation written out.
\<close>

section \<open>Model\<close>

definition CNXDNConvolution_BRANCH_TABLE1 :: "nat list" where
  "CNXDNConvolution_BRANCH_TABLE1 = [0, 0, 0, 0, 2, 2, 2, 2]"

definition CNXDNConvolution_BRANCH_TABLE2 :: "nat list" where
  "CNXDNConvolution_BRANCH_TABLE2 = [0, 2, 2, 0, 0, 2, 2, 0]"

definition CNXDNConvolution_M :: nat where "CNXDNConvolution_M = 4"

record conv =
  m_metrics1 :: "nat list"
  m_metrics2 :: "nat list"
  m_decisions :: "u64 list"
  m_old1 :: bool
  m_dp :: nat

definition m_oldMetrics :: "conv \<Rightarrow> nat list" where
  "m_oldMetrics st = (if m_old1 st then m_metrics1 st else m_metrics2 st)"

definition m_newMetrics :: "conv \<Rightarrow> nat list" where
  "m_newMetrics st = (if m_old1 st then m_metrics2 st else m_metrics1 st)"

definition abs_diff :: "nat \<Rightarrow> nat \<Rightarrow> nat" where
  "abs_diff a b = nat \<bar>int a - int b\<bar>"

text \<open>
  One butterfly: the two new states \<open>2 i\<close> and \<open>2 i + 1\<close> from the old states \<open>i\<close> and \<open>i + 8\<close>.
  The complementary metric \<open>M - metric\<close> is an unsigned 32-bit difference cut to 16 bits.
\<close>

definition butterfly :: "nat \<Rightarrow> nat list \<Rightarrow> nat \<Rightarrow> nat \<Rightarrow> nat list \<times> u64 \<Rightarrow> nat list \<times> u64" where
  "butterfly metric old full i nd =
     (case nd of (new, dec) \<Rightarrow>
        let j = 2 * i;
            other = (2 ^ 32 + full - metric) mod 2 ^ 32;
            m0 = (old ! i + metric) mod 2 ^ 16;
            m1 = (old ! (i + 8) + other) mod 2 ^ 16;
            decision0 = (m0 \<ge> m1);
            new = new[j := if decision0 then m1 else m0];
            m0 = (old ! i + other) mod 2 ^ 16;
            m1 = (old ! (i + 8) + metric) mod 2 ^ 16;
            decision1 = (m0 \<ge> m1);
            new = new[j + 1 := if decision1 then m1 else m0]
        in (new, dec OR (push_bit (j + 1) (of_bool decision1) OR push_bit j (of_bool decision0))))"

text \<open>Storing the new metrics and the decision word, moving on and swapping the arrays.\<close>

definition finish_step :: "nat list \<times> u64 \<Rightarrow> conv \<Rightarrow> conv" where
  "finish_step nd st =
     st\<lparr>m_metrics1 := (if m_old1 st then m_metrics1 st else fst nd), m_metrics2 := (if m_old1 st then fst nd else m_metrics2 st),
        m_decisions := (m_decisions st)[m_dp st := snd nd], m_dp := m_dp st + 1, m_old1 := \<not> m_old1 st\<rparr>"

definition hard_metric :: "nat \<Rightarrow> nat \<Rightarrow> nat \<Rightarrow> nat" where
  "hard_metric s0 s1 i =
     (abs_diff (CNXDNConvolution_BRANCH_TABLE1 ! i) s0 + abs_diff (CNXDNConvolution_BRANCH_TABLE2 ! i) s1) mod 2 ^ 16"

definition CNXDNConvolution_decode :: "nat \<Rightarrow> nat \<Rightarrow> conv \<Rightarrow> conv" where
  "CNXDNConvolution_decode s0 s1 st =
     finish_step (fold (\<lambda>i. butterfly (hard_metric s0 s1 i) (m_oldMetrics st) CNXDNConvolution_M i) [0..<8]
       (m_newMetrics st, 0)) st"

definition full_metric :: nat where "full_metric = (CNXDNConvolution_M * 256) div 128"

definition soft_metric :: "nat \<Rightarrow> nat \<Rightarrow> nat \<Rightarrow> nat \<Rightarrow> nat \<Rightarrow> nat" where
  "soft_metric s0 s1 r0 r1 i =
     (let scale = 128;
          metric = (abs_diff (CNXDNConvolution_BRANCH_TABLE1 ! i) s0 * r0 +
                    abs_diff (CNXDNConvolution_BRANCH_TABLE2 ! i) s1 * r1) div scale
      in if metric > full_metric then full_metric else metric)"

text \<open>The soft butterfly compares 32-bit sums and cuts what it stores to 16 bits.\<close>

definition soft_butterfly :: "nat \<Rightarrow> nat list \<Rightarrow> nat \<Rightarrow> nat \<Rightarrow> nat list \<times> u64 \<Rightarrow> nat list \<times> u64" where
  "soft_butterfly metric old full i nd =
     (case nd of (new, dec) \<Rightarrow>
        let j = 2 * i;
            m0 = old ! i + metric;
            m1 = old ! (i + 8) + (full - metric);
            decision0 = (m0 \<ge> m1);
            new = new[j := (if decision0 then m1 else m0) mod 2 ^ 16];
            m0 = old ! i + (full - metric);
            m1 = old ! (i + 8) + metric;
            decision1 = (m0 \<ge> m1);
            new = new[j + 1 := (if decision1 then m1 else m0) mod 2 ^ 16]
        in (new, dec OR (push_bit (j + 1) (of_bool decision1) OR push_bit j (of_bool decision0))))"

definition CNXDNConvolution_decode_soft :: "nat \<Rightarrow> nat \<Rightarrow> nat \<Rightarrow> nat \<Rightarrow> conv \<Rightarrow> conv" where
  "CNXDNConvolution_decode_soft s0 s1 r0 r1 st =
     finish_step (fold (\<lambda>i. soft_butterfly (soft_metric s0 s1 r0 r1 i) (m_oldMetrics st) full_metric i)
       [0..<8] (m_newMetrics st, 0)) st"

definition CNXDNConvolution_init :: "conv \<Rightarrow> conv" where
  "CNXDNConvolution_init st =
     st\<lparr>m_metrics1 := replicate 16 0, m_metrics2 := replicate 16 0, m_decisions := replicate 2400 0\<rparr>"

definition CNXDNConvolution_start :: "conv \<Rightarrow> conv" where
  "CNXDNConvolution_start st = st\<lparr>m_old1 := True, m_dp := 0\<rparr>"

text \<open>
  The chain back: the bits it writes, the one at the lowest position first, and the state it
  leaves; the byte masks of the output are those of \<open>WRITE_BIT1\<close>.
\<close>

definition CNXDNConvolution_BIT_MASK_TABLE :: "u8 list" where
  "CNXDNConvolution_BIT_MASK_TABLE = [0x80, 0x40, 0x20, 0x10, 0x08, 0x04, 0x02, 0x01]"

definition WRITE_BIT1 :: "nat \<Rightarrow> bool \<Rightarrow> u8 list \<Rightarrow> u8 list" where
  "WRITE_BIT1 i b p =
     p[i div 8 := if b then p ! (i div 8) OR CNXDNConvolution_BIT_MASK_TABLE ! (i mod 8)
                  else p ! (i div 8) AND NOT (CNXDNConvolution_BIT_MASK_TABLE ! (i mod 8))]"

definition READ_BIT1 :: "u8 list \<Rightarrow> nat \<Rightarrow> bool" where
  "READ_BIT1 p i \<longleftrightarrow> p ! (i div 8) AND CNXDNConvolution_BIT_MASK_TABLE ! (i mod 8) \<noteq> 0"

fun chainback_loop :: "nat \<Rightarrow> u32 \<Rightarrow> u8 list \<Rightarrow> conv \<Rightarrow> u8 list \<times> conv" where
  "chainback_loop 0 state out st = (out, st)"
| "chainback_loop (Suc n) state out st =
     (let st = st\<lparr>m_dp := m_dp st - 1\<rparr>;
          i = unat (drop_bit 4 state);
          b = bit (m_decisions st ! m_dp st) i;
          state = (if b then 0x80 else 0) OR drop_bit 1 state
      in chainback_loop n state (WRITE_BIT1 n b out) st)"

definition CNXDNConvolution_chainback :: "u8 list \<Rightarrow> nat \<Rightarrow> conv \<Rightarrow> u8 list \<times> conv" where
  "CNXDNConvolution_chainback out nBits st = chainback_loop nBits 0 out st"

section \<open>Paths\<close>

text \<open>
  A state is the last four input bits, the oldest on top. A path is given by its last state and
  the top bits of the states before it, the latest first: the state before \<open>q\<close> with top bit
  \<open>d\<close> is \<open>prev q d\<close>. The branch to \<open>q\<close> costs the metric of the lower three bits, or its
  complement when the top bit and the new input bit differ.
\<close>

definition prev :: "nat \<Rightarrow> bool \<Rightarrow> nat" where
  "prev q d = q div 2 + (if d then 8 else 0)"

definition branch :: "nat \<Rightarrow> (nat \<Rightarrow> nat) \<Rightarrow> nat \<Rightarrow> bool \<Rightarrow> nat" where
  "branch full m q d = (if d = odd q then m (q div 2) else full - m (q div 2))"

text \<open>The cost of a path from start metrics \<open>a\<close>; the metrics of the steps come latest first.\<close>

fun path_cost :: "nat \<Rightarrow> nat list \<Rightarrow> (nat \<Rightarrow> nat) list \<Rightarrow> nat \<Rightarrow> bool list \<Rightarrow> nat" where
  "path_cost full a [] q ds = a ! q"
| "path_cost full a (m # ms) q (d # ds) = branch full m q d + path_cost full a ms (prev q d) ds"
| "path_cost full a (m # ms) q [] = 0"

fun best :: "nat \<Rightarrow> nat list \<Rightarrow> (nat \<Rightarrow> nat) list \<Rightarrow> nat \<Rightarrow> nat" where
  "best full a [] q = a ! q"
| "best full a (m # ms) q =
     min (best full a ms (prev q False) + branch full m q False) (best full a ms (prev q True) + branch full m q True)"

text \<open>The decision at a state, and the path the decisions trace.\<close>

definition choice :: "nat \<Rightarrow> nat list \<Rightarrow> (nat \<Rightarrow> nat) list \<Rightarrow> (nat \<Rightarrow> nat) \<Rightarrow> nat \<Rightarrow> bool" where
  "choice full a ms m q \<longleftrightarrow>
     best full a ms (prev q True) + branch full m q True \<le> best full a ms (prev q False) + branch full m q False"

fun traced :: "nat \<Rightarrow> nat list \<Rightarrow> (nat \<Rightarrow> nat) list \<Rightarrow> nat \<Rightarrow> bool list" where
  "traced full a [] q = []"
| "traced full a (m # ms) q = choice full a ms m q # traced full a ms (prev q (choice full a ms m q))"

lemma prev_lt: "q < 16 \<Longrightarrow> prev q d < 16"
  by (auto simp: prev_def)

lemma best_le: "length ds = length ms \<Longrightarrow> best full a ms q \<le> path_cost full a ms q ds"
proof (induction ms arbitrary: q ds)
  case (Cons m ms)
  then obtain d es where ds: "ds = d # es" "length es = length ms" by (cases ds) auto
  show ?case using Cons.IH [OF ds(2), of "prev q d"] by (cases d) (simp_all add: ds(1))
qed simp

lemma traced_best: "path_cost full a ms q (traced full a ms q) = best full a ms q"
proof (induction ms arbitrary: q)
  case (Cons m ms)
  show ?case by (cases "choice full a ms m q") (simp_all add: Cons.IH choice_def)
qed simp

lemma length_traced [simp]: "length (traced full a ms q) = length ms"
  by (induction ms arbitrary: q) simp_all

lemma branch_le: "(\<forall>i < 8. m i \<le> full) \<Longrightarrow> q < 16 \<Longrightarrow> branch full m q d \<le> full"
  by (simp add: branch_def)

lemma best_bound:
  assumes "\<forall>m \<in> set ms. \<forall>i < 8. m i \<le> full" "\<forall>q < 16. a ! q \<le> A" "q < 16"
  shows "best full a ms q \<le> A + full * length ms"
  using assms(1,3)
proof (induction ms arbitrary: q)
  case (Cons m ms)
  have "best full a ms (prev q False) \<le> A + full * length ms" using Cons prev_lt by simp
  moreover have "branch full m q False \<le> full" using Cons.prems by (intro branch_le) simp_all
  ultimately show ?case by (simp add: min_def)
qed (use assms(2) in simp)

section \<open>One step\<close>

text \<open>The effect of the butterflies on metrics within sixteen bits.\<close>

definition relax :: "nat \<Rightarrow> (nat \<Rightarrow> nat) \<Rightarrow> nat list \<Rightarrow> nat \<Rightarrow> nat" where
  "relax full m old q = min (old ! prev q False + branch full m q False) (old ! prev q True + branch full m q True)"

definition decides :: "nat \<Rightarrow> (nat \<Rightarrow> nat) \<Rightarrow> nat list \<Rightarrow> nat \<Rightarrow> bool" where
  "decides full m old q \<longleftrightarrow> old ! prev q True + branch full m q True \<le> old ! prev q False + branch full m q False"

lemma sixteen_bits: "x + full < 2 ^ 16 \<Longrightarrow> k \<le> full \<Longrightarrow> (x + k) mod 2 ^ 16 = (x + k :: nat)"
  by (rule mod_less) linarith

lemma complement_metric: "k \<le> full \<Longrightarrow> full < 2 ^ 16 \<Longrightarrow> (2 ^ 32 + full - k) mod 2 ^ 32 = (full - k :: nat)"
proof -
  assume k: "k \<le> full" "full < 2 ^ 16"
  have "2 ^ 32 + full - k = (full - k) + 2 ^ 32" using k(1) by simp
  moreover have "full - k < 2 ^ 32" using k(2) by simp
  ultimately show ?thesis by (simp only: mod_add_self2 mod_less)
qed

lemma later_smaller: "(if a \<ge> b then b else a) = min a (b :: nat)"
  by simp

lemma butterfly_eq:
  assumes "m i \<le> full" "old ! i + full < 2 ^ 16" "old ! (i + 8) + full < 2 ^ 16"
  shows "butterfly (m i) old full i (new, dec) =
     (new[2 * i := relax full m old (2 * i), 2 * i + 1 := relax full m old (2 * i + 1)],
      dec OR (push_bit (2 * i + 1) (of_bool (decides full m old (2 * i + 1))) OR
              push_bit (2 * i) (of_bool (decides full m old (2 * i)))))" (is ?hard)
    and "soft_butterfly (m i) old full i (new, dec) = butterfly (m i) old full i (new, dec)" (is ?soft)
proof -
  have full: "full < 2 ^ 16" using assms(2) by linarith
  have pr: "prev (2 * i) False = i" "prev (2 * i) True = i + 8" "prev (2 * i + 1) False = i" "prev (2 * i + 1) True = i + 8"
    by (simp_all add: prev_def)
  have br: "branch full m (2 * i) False = m i" "branch full m (2 * i) True = full - m i"
    "branch full m (2 * i + 1) False = full - m i" "branch full m (2 * i + 1) True = m i"
    by (simp_all add: branch_def)
  note other = complement_metric [OF assms(1) full]
  note small = sixteen_bits [OF assms(2) assms(1)] sixteen_bits [OF assms(3) assms(1)]
    sixteen_bits [OF assms(2) diff_le_self [of full "m i"]] sixteen_bits [OF assms(3) diff_le_self [of full "m i"]]
  show ?hard
    unfolding butterfly_def Let_def prod.case other small relax_def decides_def pr br later_smaller by (rule refl)
  show ?soft
    unfolding soft_butterfly_def butterfly_def Let_def prod.case other small if_distrib [of "\<lambda>x. x mod 2 ^ 16"] by (rule refl)
qed

text \<open>All eight butterflies: every new state is relaxed, every decision recorded.\<close>

lemma bit_push_one: "k < 64 \<Longrightarrow> bit (push_bit k (of_bool b) :: u64) q \<longleftrightarrow> q = k \<and> b"
  by (auto simp: bit_push_bit_iff bit_of_bool_iff)

lemma butterflies:
  assumes m: "\<forall>i < 8. m i \<le> full" and old: "\<forall>q < 16. old ! q + full < 2 ^ 16" and new: "length new = 16"
    and n: "n \<le> 8"
  shows "\<exists>new' dec. fold (\<lambda>i. butterfly (m i) old full i) [0..<n] (new, 0) = (new', dec) \<and> length new' = 16 \<and>
    (\<forall>q < 2 * n. new' ! q = relax full m old q) \<and> (\<forall>q. bit dec q \<longleftrightarrow> q < 2 * n \<and> decides full m old q)"
  using n
proof (induction n)
  case 0
  then show ?case using new by simp
next
  case (Suc n)
  then obtain new' dec where IH: "fold (\<lambda>i. butterfly (m i) old full i) [0..<n] (new, 0) = (new', dec)" "length new' = 16"
    "\<forall>q < 2 * n. new' ! q = relax full m old q" "\<And>q. bit dec q \<longleftrightarrow> q < 2 * n \<and> decides full m old q"
    by auto
  have n: "n < 8" "n < 16" "n + 8 < 16" "2 * n + 1 < 64" "2 * n < 64" "2 * n < 16" "2 * n + 1 < 16" using Suc.prems by simp_all
  let ?new = "new'[2 * n := relax full m old (2 * n), 2 * n + 1 := relax full m old (2 * n + 1)]"
  let ?dec = "dec OR (push_bit (2 * n + 1) (of_bool (decides full m old (2 * n + 1))) OR
              push_bit (2 * n) (of_bool (decides full m old (2 * n))))"
  have step: "butterfly (m n) old full n (new', dec) = (?new, ?dec)" using m old n by (intro butterfly_eq) blast+
  have "?new ! q = relax full m old q" if "q < 2 * Suc n" for q
  proof -
    from that consider "q < 2 * n" | "q = 2 * n" | "q = 2 * n + 1" by (auto simp: less_Suc_eq)
    then show ?thesis using IH(2,3) n by cases simp_all
  qed
  moreover have "bit ?dec q \<longleftrightarrow> q < 2 * Suc n \<and> decides full m old q" for q
  proof -
    have "bit ?dec q \<longleftrightarrow> (q < 2 * n \<and> decides full m old q) \<or> (q = 2 * n + 1 \<and> decides full m old (2 * n + 1)) \<or>
        (q = 2 * n \<and> decides full m old (2 * n))"
      by (simp only: bit_or_iff bit_push_one [OF n(4)] bit_push_one [OF n(5)] IH(4))
    then show ?thesis by (auto simp: less_Suc_eq)
  qed
  ultimately show ?case using IH(1,2) step by simp
qed

lemma soft_butterflies:
  assumes m: "\<forall>i < 8. m i \<le> full" and old: "\<forall>q < 16. old ! q + full < 2 ^ 16"
  shows "fold (\<lambda>i. soft_butterfly (m i) old full i) [0..<8] nd = fold (\<lambda>i. butterfly (m i) old full i) [0..<8] nd"
proof (rule fold_cong [OF refl refl], rule ext)
  fix i and nd :: "nat list \<times> u64"
  assume "i \<in> set [0..<8]"
  then have i: "i < 8" "i < 16" "i + 8 < 16" by simp_all
  show "soft_butterfly (m i) old full i nd = butterfly (m i) old full i nd"
    using m old i by (cases nd) (simp only: butterfly_eq(2) [of m i full old])
qed

section \<open>The decoder as a machine\<close>

text \<open>The buffers have the sizes of the declarations.\<close>

definition conv_ok :: "conv \<Rightarrow> bool" where
  "conv_ok st \<longleftrightarrow> length (m_metrics1 st) = 16 \<and> length (m_metrics2 st) = 16 \<and> length (m_decisions st) = 2400"

text \<open>What a whole decoding step does to the state, for branch metrics \<open>m\<close>.\<close>

definition relaxed :: "nat \<Rightarrow> (nat \<Rightarrow> nat) \<Rightarrow> conv \<Rightarrow> conv \<Rightarrow> bool" where
  "relaxed full m st st' \<longleftrightarrow> conv_ok st' \<and> m_dp st' = m_dp st + 1 \<and>
     (\<forall>q < 16. m_oldMetrics st' ! q = relax full m (m_oldMetrics st) q) \<and>
     (m_dp st < 2400 \<longrightarrow> (\<forall>q < 16. bit (m_decisions st' ! m_dp st) q \<longleftrightarrow> decides full m (m_oldMetrics st) q)) \<and>
     (\<forall>k. k \<noteq> m_dp st \<longrightarrow> m_decisions st' ! k = m_decisions st ! k)"

lemma step_relaxed:
  assumes "conv_ok st" "\<forall>i < 8. m i \<le> full" "\<forall>q < 16. m_oldMetrics st ! q + full < 2 ^ 16"
  shows "relaxed full m st (finish_step (fold (\<lambda>i. butterfly (m i) (m_oldMetrics st) full i) [0..<8] (m_newMetrics st, 0)) st)"
proof -
  have "length (m_newMetrics st) = 16" using assms(1) by (simp add: conv_ok_def m_newMetrics_def)
  from butterflies [OF assms(2,3) this, of 8] obtain new dec where
    nd: "fold (\<lambda>i. butterfly (m i) (m_oldMetrics st) full i) [0..<8] (m_newMetrics st, 0) = (new, dec)" "length new = 16"
      "\<forall>q < 16. new ! q = relax full m (m_oldMetrics st) q" "\<forall>q. bit dec q \<longleftrightarrow> q < 16 \<and> decides full m (m_oldMetrics st) q"
    by auto
  have "m_oldMetrics (finish_step (new, dec) st) = new" by (simp add: m_oldMetrics_def finish_step_def)
  then show ?thesis unfolding nd(1) relaxed_def using assms(1) nd(2-4) by (simp add: finish_step_def conv_ok_def)
qed

lemma hard_metric_le: "s0 \<le> 2 \<Longrightarrow> s1 \<le> 2 \<Longrightarrow> i < 8 \<Longrightarrow> hard_metric s0 s1 i \<le> CNXDNConvolution_M"
proof -
  have table: "\<forall>i < 8. CNXDNConvolution_BRANCH_TABLE1 ! i \<le> 2 \<and> CNXDNConvolution_BRANCH_TABLE2 ! i \<le> 2"
    by code_simp
  assume "s0 \<le> 2" "s1 \<le> 2" "i < 8"
  then have "abs_diff (CNXDNConvolution_BRANCH_TABLE1 ! i) s0 \<le> 2" "abs_diff (CNXDNConvolution_BRANCH_TABLE2 ! i) s1 \<le> 2"
    using table by (auto simp: abs_diff_def abs_le_iff nat_le_iff)
  then show ?thesis by (simp add: hard_metric_def CNXDNConvolution_M_def)
qed

lemma soft_metric_le: "soft_metric s0 s1 r0 r1 i \<le> full_metric"
  by (simp add: soft_metric_def Let_def)

text \<open>
  A decoder step as the chain back needs it: an observation gives branch metrics bounded by
  \<open>full\<close>, and the step relaxes the metrics as long as they stay within sixteen bits. Both the
  hard and the soft step of the file are instances.
\<close>

locale viterbi =
  fixes step :: "'o \<Rightarrow> conv \<Rightarrow> conv" and full :: nat and metric :: "'o \<Rightarrow> nat \<Rightarrow> nat" and valid :: "'o \<Rightarrow> bool"
  assumes metric_le: "valid s \<Longrightarrow> i < 8 \<Longrightarrow> metric s i \<le> full"
    and step: "valid s \<Longrightarrow> conv_ok st \<Longrightarrow> \<forall>q < 16. m_oldMetrics st ! q + full < 2 ^ 16 \<Longrightarrow> relaxed full (metric s) st (step s st)"

text \<open>
  After the observations \<open>obs\<close>, the current metrics are those of the best paths and the
  decisions are the choices along them.
\<close>

definition decoded :: "nat \<Rightarrow> (nat \<Rightarrow> nat) list \<Rightarrow> nat list \<Rightarrow> conv \<Rightarrow> bool" where
  "decoded full ms a st \<longleftrightarrow> conv_ok st \<and> m_dp st = length ms \<and>
     (\<forall>q < 16. m_oldMetrics st ! q = best full a (rev ms) q) \<and>
     (\<forall>k < length ms. \<forall>q < 16. bit (m_decisions st ! k) q \<longleftrightarrow> choice full a (rev (take k ms)) (ms ! k) q)"

lemma decoded_step:
  assumes "decoded full ms a st" "relaxed full m st st'" "length ms < 2400"
  shows "decoded full (ms @ [m]) a st'"
proof -
  have best: "m_oldMetrics st ! q = best full a (rev ms) q" if "q < 16" for q using assms(1) that by (simp add: decoded_def)
  have "relax full m (m_oldMetrics st) q = best full a (rev (ms @ [m])) q"
    "decides full m (m_oldMetrics st) q = choice full a (rev ms) m q" if "q < 16" for q
    using that by (simp_all add: relax_def decides_def choice_def best prev_lt)
  then show ?thesis using assms by (auto simp: decoded_def relaxed_def nth_append less_Suc_eq)
qed

context viterbi
begin

lemma run:
  assumes "conv_ok st" "m_dp st = 0" "\<forall>s \<in> set obs. valid s" "length obs \<le> 2400"
    "\<forall>q < 16. m_oldMetrics st ! q \<le> A" "A + full * length obs < 2 ^ 16"
  shows "decoded full (map metric obs) (m_oldMetrics st) (fold step obs st)"
  using assms(3,4,6)
proof (induction obs rule: rev_induct)
  case Nil
  then show ?case using assms(1,2) by (simp add: decoded_def)
next
  case (snoc s obs)
  have room: "A + full * length obs + full < 2 ^ 16" using snoc.prems(3) by (simp add: algebra_simps)
  then have IH: "decoded full (map metric obs) (m_oldMetrics st) (fold step obs st)"
    using snoc.prems by (intro snoc.IH) simp_all
  have "m_oldMetrics (fold step obs st) ! q + full < 2 ^ 16" if q: "q < 16" for q
  proof -
    have "m_oldMetrics (fold step obs st) ! q = best full (m_oldMetrics st) (rev (map metric obs)) q"
      using IH q by (simp add: decoded_def)
    also have "\<dots> \<le> A + full * length (rev (map metric obs))"
      using snoc.prems(1) q assms(5) by (intro best_bound) (auto simp: metric_le)
    finally show ?thesis using room by simp
  qed
  moreover have "conv_ok (fold step obs st)" using IH by (simp add: decoded_def)
  ultimately have "relaxed full (metric s) (fold step obs st) (step s (fold step obs st))"
    using snoc.prems(1) by (intro step) simp_all
  from decoded_step [OF IH this] show ?case using snoc.prems(2) by simp
qed

end

interpretation hard: viterbi "\<lambda>(s0, s1). CNXDNConvolution_decode s0 s1" CNXDNConvolution_M
  "\<lambda>(s0, s1). hard_metric s0 s1" "\<lambda>(s0, s1). s0 \<le> 2 \<and> s1 \<le> 2"
  by unfold_locales (auto simp: hard_metric_le CNXDNConvolution_decode_def intro!: step_relaxed)

interpretation soft: viterbi "\<lambda>(s0, s1, r0, r1). CNXDNConvolution_decode_soft s0 s1 r0 r1"
  full_metric "\<lambda>(s0, s1, r0, r1). soft_metric s0 s1 r0 r1" "\<lambda>_. True"
  by unfold_locales
    (auto simp: soft_metric_le CNXDNConvolution_decode_soft_def soft_butterflies intro!: step_relaxed)

section \<open>The chain back\<close>

lemma bit_mask_table: "k < 8 \<Longrightarrow> CNXDNConvolution_BIT_MASK_TABLE ! k = 2 ^ (7 - k)"
proof -
  have "\<forall>k < 8. CNXDNConvolution_BIT_MASK_TABLE ! k = 2 ^ (7 - k)" by code_simp
  then show "k < 8 \<Longrightarrow> ?thesis" by blast
qed

lemma READ_BIT1_iff: "READ_BIT1 p i \<longleftrightarrow> bit (p ! (i div 8)) (7 - i mod 8)"
  by (simp add: READ_BIT1_def bit_mask_table and_exp_eq_0_iff_not_bit)

lemma READ_WRITE_BIT1:
  assumes "i div 8 < length p"
  shows "READ_BIT1 (WRITE_BIT1 i b p) j \<longleftrightarrow> (if j = i then b else READ_BIT1 p j)"
proof -
  have same: "j = i \<longleftrightarrow> j div 8 = i div 8 \<and> 7 - j mod 8 = 7 - i mod 8"
  proof
    assume "j div 8 = i div 8 \<and> 7 - j mod 8 = 7 - i mod 8"
    moreover have "j mod 8 < 8" "i mod 8 < 8" by simp_all
    ultimately have "j div 8 = i div 8" "j mod 8 = i mod 8" by linarith+
    then show "j = i" by (metis div_mult_mod_eq)
  qed simp
  have word: "bit (if b then x OR 2 ^ k else x AND NOT (2 ^ k)) n = (if n = k then b else bit x n)" if "k < 8" for x :: u8 and k n
    using that by (cases "n < 8") (auto simp: bit_simps dest: bit_imp_le_length)
  show ?thesis
  proof (cases "j div 8 = i div 8")
    case True
    have "WRITE_BIT1 i b p ! (j div 8) = (if b then p ! (i div 8) OR 2 ^ (7 - i mod 8) else p ! (i div 8) AND NOT (2 ^ (7 - i mod 8)))"
      using assms True by (simp add: WRITE_BIT1_def bit_mask_table)
    then have "READ_BIT1 (WRITE_BIT1 i b p) j = (if 7 - j mod 8 = 7 - i mod 8 then b else bit (p ! (i div 8)) (7 - j mod 8))"
      by (simp only: READ_BIT1_iff) (rule word, simp)
    then show ?thesis using True same by (simp only: READ_BIT1_iff simp_thms)
  qed (simp add: READ_BIT1_iff WRITE_BIT1_def same)
qed

lemma length_WRITE_BIT1 [simp]: "length (WRITE_BIT1 i b p) = length p"
  by (simp add: WRITE_BIT1_def)

text \<open>The register of the chain back holds the state in its upper nibble.\<close>

lemma chainback_state:
  fixes state :: u32
  assumes "unat (drop_bit 4 state) = q" "q < 16"
  shows "unat (drop_bit 4 ((if b then 0x80 else 0) OR drop_bit 1 state)) = prev q b"
proof -
  let ?y = "drop_bit 4 state"
  have y: "?y = of_nat q" unfolding assms(1) [symmetric] by (simp only: of_nat_unat ucast_id)
  have "drop_bit 4 ((if b then 0x80 else 0) OR drop_bit 1 state) = (if b then 8 else 0) OR drop_bit 1 ?y"
    by (simp only: drop_bit_or drop_bit_drop_bit add.commute [of 4]) simp
  moreover have "\<forall>q < 16. \<forall>b. unat ((if b then 8 else 0) OR drop_bit 1 (of_nat q) :: u32) = prev q b" by code_simp
  ultimately show ?thesis using assms(2) y by simp
qed

text \<open>The chain back over the decisions of a decoded sequence writes the traced path, the last bit first.\<close>

lemma chainback_traces:
  assumes "decoded full ms a st'" "m_decisions st = m_decisions st'" "m_dp st = N" "N \<le> length ms" "n \<le> N"
    "unat (drop_bit 4 state) = q" "q < 16" "n \<le> 8 * length out"
  shows "\<forall>k. READ_BIT1 (fst (chainback_loop n state out st)) k =
    (if k < n then traced full a (rev (take N ms)) q ! (n - 1 - k) else READ_BIT1 out k)"
  using assms(2-)
proof (induction n arbitrary: state out st N q)
  case (Suc n)
  from Suc.prems(4) obtain N' where N: "N = Suc N'" by (cases N) simp_all
  let ?st = "st\<lparr>m_dp := m_dp st - 1\<rparr>"
  let ?b = "bit (m_decisions ?st ! m_dp ?st) (unat (drop_bit 4 state))"
  let ?state = "(if ?b then 0x80 else 0) OR drop_bit 1 state"
  let ?c = "choice full a (rev (take N' ms)) (ms ! N') q"
  have b: "?b = ?c" using assms(1) Suc.prems N by (simp add: decoded_def)
  have tr: "traced full a (rev (take N ms)) q = ?c # traced full a (rev (take N' ms)) (prev q ?c)"
    using Suc.prems(3) N by (simp add: take_Suc_conv_app_nth)
  have IH: "\<forall>k. READ_BIT1 (fst (chainback_loop n ?state (WRITE_BIT1 n ?b out) ?st)) k =
      (if k < n then traced full a (rev (take N' ms)) (prev q ?c) ! (n - 1 - k) else READ_BIT1 (WRITE_BIT1 n ?b out) k)"
    using Suc.prems N chainback_state [OF Suc.prems(5,6), of ?b] prev_lt [OF Suc.prems(6), of ?c] b
    by (intro Suc.IH) simp_all
  have loop: "chainback_loop (Suc n) state out st = chainback_loop n ?state (WRITE_BIT1 n ?b out) ?st"
    by (simp only: chainback_loop.simps Let_def)
  show ?case
  proof
    fix k
    consider "k < n" | "k = n" | "n < k" by linarith
    then show "READ_BIT1 (fst (chainback_loop (Suc n) state out st)) k =
        (if k < Suc n then traced full a (rev (take N ms)) q ! (Suc n - 1 - k) else READ_BIT1 out k)"
    proof cases
      case 1
      then have "Suc n - 1 - k = Suc (n - 1 - k)" by simp
      then show ?thesis unfolding loop tr using IH 1 by simp
    next
      case 2
      have "n div 8 < length out" using Suc.prems(7) by simp
      then show ?thesis unfolding loop tr using IH 2 b by (simp add: READ_WRITE_BIT1)
    next
      case 3
      have "n div 8 < length out" using Suc.prems(7) by simp
      then show ?thesis unfolding loop using IH 3 by (simp add: READ_WRITE_BIT1)
    qed
  qed
qed simp

text \<open>
  Decoding a frame: the file is started, all pairs are fed in, \<open>n\<close> bits are chained back. The
  bits are the last \<open>n\<close> of a path to state 0 that no other path undercuts.
\<close>

definition frame_bits :: "nat \<Rightarrow> u8 list \<times> conv \<Rightarrow> bool list" where
  "frame_bits n res = map (READ_BIT1 (fst res)) [0..<n]"

lemma start_simps [simp]:
  "m_oldMetrics (CNXDNConvolution_start st) = m_metrics1 st" "m_dp (CNXDNConvolution_start st) = 0"
  "conv_ok (CNXDNConvolution_start st) = conv_ok st"
  by (simp_all add: CNXDNConvolution_start_def m_oldMetrics_def conv_ok_def)

context viterbi
begin

lemma frame_bits_traced:
  assumes "conv_ok st" "\<forall>s \<in> set obs. valid s" "length obs \<le> 2400" "n \<le> length obs" "n \<le> 8 * length out"
    "\<forall>q < 16. m_metrics1 st ! q \<le> A" "A + full * length obs < 2 ^ 16"
  shows "rev (frame_bits n (CNXDNConvolution_chainback out n (fold step obs (CNXDNConvolution_start st)))) =
    take n (traced full (m_metrics1 st) (rev (map metric obs)) 0)"
proof -
  let ?st = "fold step obs (CNXDNConvolution_start st)" and ?tr = "traced full (m_metrics1 st) (rev (map metric obs)) 0"
  have dec: "decoded full (map metric obs) (m_metrics1 st) ?st"
    using run [of "CNXDNConvolution_start st" obs A] assms by simp
  have "m_dp ?st = length obs" using dec by (simp add: decoded_def)
  then have "READ_BIT1 (fst (CNXDNConvolution_chainback out n ?st)) k = ?tr ! (n - 1 - k)" if "k < n" for k
    using chainback_traces [OF dec refl, of "length obs" n 0 0 out] assms(4,5) that
    by (simp add: CNXDNConvolution_chainback_def)
  then show ?thesis using assms(4) by (intro nth_equalityI) (simp_all add: frame_bits_def rev_nth)
qed

lemma frame_bits_optimal:
  assumes "conv_ok st" "\<forall>s \<in> set obs. valid s" "length obs \<le> 2400" "n \<le> length obs" "n \<le> 8 * length out"
    "\<forall>q < 16. m_metrics1 st ! q \<le> A" "A + full * length obs < 2 ^ 16"
  obtains es where "length es = length obs - n"
    "\<And>ds. length ds = length obs \<Longrightarrow>
      path_cost full (m_metrics1 st) (rev (map metric obs)) 0
        (rev (frame_bits n (CNXDNConvolution_chainback out n (fold step obs (CNXDNConvolution_start st)))) @ es)
      \<le> path_cost full (m_metrics1 st) (rev (map metric obs)) 0 ds"
proof (rule that)
  let ?tr = "traced full (m_metrics1 st) (rev (map metric obs)) 0"
  show "length (drop n ?tr) = length obs - n" by simp
  fix ds :: "bool list" assume "length ds = length obs"
  then show "path_cost full (m_metrics1 st) (rev (map metric obs)) 0
        (rev (frame_bits n (CNXDNConvolution_chainback out n (fold step obs (CNXDNConvolution_start st)))) @ drop n ?tr)
      \<le> path_cost full (m_metrics1 st) (rev (map metric obs)) 0 ds"
    by (simp add: frame_bits_traced [OF assms] traced_best best_le)
qed

end

section \<open>The code\<close>

text \<open>
  The convolutional code of NXDN and M17: the register holds four bits, and the input bit
  \<open>u\<^sub>t\<close> sends \<open>u\<^sub>t + u\<^sub>t\<^sub>-\<^sub>3 + u\<^sub>t\<^sub>-\<^sub>4\<close> and \<open>u\<^sub>t + u\<^sub>t\<^sub>-\<^sub>1 + u\<^sub>t\<^sub>-\<^sub>2 + u\<^sub>t\<^sub>-\<^sub>4\<close>. A word starts with the four bits
  of the register, the oldest first.
\<close>

definition sent :: "bool \<Rightarrow> bool \<Rightarrow> bool \<Rightarrow> bool \<Rightarrow> bool \<Rightarrow> bool \<times> bool" where
  "sent a b c d u = (u \<noteq> (b \<noteq> a), u \<noteq> (d \<noteq> (c \<noteq> a)))"

definition nibble :: "bool \<Rightarrow> bool \<Rightarrow> bool \<Rightarrow> bool \<Rightarrow> nat" where
  "nibble a b c d = 8 * of_bool a + 4 * of_bool b + 2 * of_bool c + of_bool d"

definition code_pair :: "bool list \<Rightarrow> nat \<Rightarrow> bool \<times> bool" where
  "code_pair w t = sent (w ! t) (w ! (t + 1)) (w ! (t + 2)) (w ! (t + 3)) (w ! (t + 4))"

definition state4 :: "bool list \<Rightarrow> nat \<Rightarrow> nat" where
  "state4 w k = nibble (w ! k) (w ! (k + 1)) (w ! (k + 2)) (w ! (k + 3))"

text \<open>The symbol of a bit, the distance of a received pair from a sent one, and of a whole frame.\<close>

definition symbol :: "bool \<Rightarrow> nat" where
  "symbol b = (if b then 2 else 0)"

definition pair_distance :: "nat \<times> nat \<Rightarrow> bool \<times> bool \<Rightarrow> nat" where
  "pair_distance s p = abs_diff (fst s) (symbol (fst p)) + abs_diff (snd s) (symbol (snd p))"

definition frame_distance :: "(nat \<times> nat) list \<Rightarrow> bool list \<Rightarrow> nat" where
  "frame_distance obs w = (\<Sum>t < length obs. pair_distance (obs ! t) (code_pair w t))"

lemma nibble_lt: "nibble a b c d < 16"
  by (simp add: nibble_def of_bool_def)

lemma prev_nibble: "prev (nibble b c d u) a = nibble a b c d"
  by (simp add: prev_def nibble_def of_bool_def)

lemma state4_next: "state4 w (t + 1) = nibble (w ! (t + 1)) (w ! (t + 2)) (w ! (t + 3)) (w ! (t + 4))"
  by (simp add: state4_def eval_nat_numeral)

lemma prev_state4: "prev (state4 w (k + 1)) (w ! k) = state4 w k"
  unfolding state4_next prev_nibble by (simp only: state4_def)

text \<open>The cost of the path of a word is the start metric and the cost of each branch.\<close>

lemma path_cost_word:
  assumes "n \<le> length w"
  shows "length ms = n \<Longrightarrow> path_cost full a (rev ms) (state4 w n) (rev (take n w)) =
    a ! state4 w 0 + (\<Sum>t < n. branch full (ms ! t) (state4 w (t + 1)) (w ! t))"
  using assms
proof (induction n arbitrary: ms)
  case (Suc n)
  from Suc.prems(1) obtain ms' m where ms: "ms = ms' @ [m]" "length ms' = n" by (cases ms rule: rev_cases) auto
  have "rev (take (Suc n) w) = w ! n # rev (take n w)" using Suc.prems(2) by (simp add: take_Suc_conv_app_nth)
  then have "path_cost full a (rev ms) (state4 w (Suc n)) (rev (take (Suc n) w)) =
      branch full m (state4 w (n + 1)) (w ! n) + path_cost full a (rev ms') (state4 w n) (rev (take n w))"
    using prev_state4 [of w n] ms by simp
  then show ?case using Suc.IH [OF ms(2)] Suc.prems(2) ms by (simp add: nth_append)
qed simp

text \<open>For hard symbols the cost of a branch is the distance of the received pair from the sent one.\<close>

lemma abs_diff_symbol:
  assumes "s \<le> 2"
  shows "abs_diff s (symbol x) \<le> 2" "abs_diff s (symbol (\<not> x)) = 2 - abs_diff s (symbol x)" "abs_diff (symbol x) s = abs_diff s (symbol x)"
  using assms by (auto simp: abs_diff_def symbol_def)

lemma branch_tables:
  "CNXDNConvolution_BRANCH_TABLE1 ! (nibble b c d u div 2) = symbol b"
  "CNXDNConvolution_BRANCH_TABLE2 ! (nibble b c d u div 2) = symbol (c \<noteq> d)"
  by (cases b; cases c; cases d; cases u;
      simp add: nibble_def symbol_def CNXDNConvolution_BRANCH_TABLE1_def CNXDNConvolution_BRANCH_TABLE2_def)+

lemma branch_hard:
  assumes "s0 \<le> 2" "s1 \<le> 2"
  shows "branch CNXDNConvolution_M (hard_metric s0 s1) (state4 w (t + 1)) (w ! t) = pair_distance (s0, s1) (code_pair w t)"
proof -
  note diff = abs_diff_symbol [OF assms(1)] abs_diff_symbol [OF assms(2)]
  have "branch CNXDNConvolution_M (hard_metric s0 s1) (nibble b c d u) a = pair_distance (s0, s1) (sent a b c d u)" for a b c d u
  proof -
    have m: "hard_metric s0 s1 (nibble b c d u div 2) = abs_diff s0 (symbol b) + abs_diff s1 (symbol (c \<noteq> d))"
      unfolding hard_metric_def branch_tables diff using diff(1) [of b] diff(4) [of "c \<noteq> d"] by (intro mod_less) simp
    have "odd (nibble b c d u) = u" by (simp add: nibble_def)
    moreover have "sent a b c d u = (if a = u then (b, c \<noteq> d) else (\<not> b, \<not> (c \<noteq> d)))"
      by (auto simp: sent_def)
    ultimately show ?thesis
      unfolding branch_def m pair_distance_def using diff(1) [of b] diff(4) [of "c \<noteq> d"] diff(2) [of b] diff(5) [of "c \<noteq> d"]
      by (cases "a = u") (simp_all add: CNXDNConvolution_M_def, linarith?)
  qed
  then show ?thesis unfolding state4_next code_pair_def by blast
qed

text \<open>
  A frame is four register bits, the data and four zero tail bits. Its weight is the metric its
  start state comes with and the distance of what it sends from what was received.
\<close>

definition frame_word :: "bool list \<Rightarrow> bool list \<Rightarrow> bool list" where
  "frame_word start us = start @ us @ [False, False, False, False]"

definition frame_weight :: "conv \<Rightarrow> (nat \<times> nat) list \<Rightarrow> bool list \<Rightarrow> nat" where
  "frame_weight st obs w = m_metrics1 st ! state4 w 0 + frame_distance obs w"

lemma frame_path_cost:
  assumes "\<forall>(s0, s1) \<in> set obs. s0 \<le> 2 \<and> s1 \<le> 2" "length start = 4" "length obs = length us + 4"
  shows "path_cost CNXDNConvolution_M (m_metrics1 st) (rev (map (\<lambda>(s0, s1). hard_metric s0 s1) obs)) 0 (rev us @ rev start) =
    frame_weight st obs (frame_word start us)"
proof -
  let ?w = "frame_word start us" and ?N = "length obs" and ?ms = "map (\<lambda>(s0, s1). hard_metric s0 s1) obs"
  have "state4 ?w ?N = 0" "rev (take ?N ?w) = rev us @ rev start" "?N \<le> length ?w"
    using assms(2,3) by (simp_all add: state4_def nibble_def frame_word_def nth_append)
  moreover have "branch CNXDNConvolution_M (?ms ! t) (state4 ?w (t + 1)) (?w ! t) = pair_distance (obs ! t) (code_pair ?w t)"
    if t: "t < ?N" for t
  proof -
    obtain s0 s1 where s: "obs ! t = (s0, s1)" by (cases "obs ! t")
    then have "s0 \<le> 2 \<and> s1 \<le> 2" using assms(1) nth_mem [OF t] by auto
    then show ?thesis using branch_hard t s by simp
  qed
  ultimately show ?thesis
    using path_cost_word [of ?N ?w ?ms CNXDNConvolution_M "m_metrics1 st"]
    by (simp add: frame_weight_def frame_distance_def)
qed

text \<open>The decoder on a whole frame, as its callers drive it.\<close>

definition hard_frame :: "u8 list \<Rightarrow> (nat \<times> nat) list \<Rightarrow> conv \<Rightarrow> bool list" where
  "hard_frame out obs st =
     (let n = length obs - 4
      in frame_bits n (CNXDNConvolution_chainback out n (fold (\<lambda>(s0, s1). CNXDNConvolution_decode s0 s1) obs (CNXDNConvolution_start st))))"

lemma hard_frame_minimal:
  assumes "conv_ok st" "\<forall>(s0, s1) \<in> set obs. s0 \<le> 2 \<and> s1 \<le> 2" "4 \<le> length obs" "length obs \<le> 2400"
    "length obs \<le> 8 * length out + 4" "\<forall>q < 16. m_metrics1 st ! q \<le> A" "A + 4 * length obs < 2 ^ 16"
  shows "\<exists>start. length start = 4 \<and> (\<forall>start' us. length start' = 4 \<and> length us = length obs - 4 \<longrightarrow>
    frame_weight st obs (frame_word start (hard_frame out obs st)) \<le> frame_weight st obs (frame_word start' us))"
proof -
  let ?n = "length obs - 4"
  have room: "A + CNXDNConvolution_M * length obs < 2 ^ 16" using assms(7) by (simp add: CNXDNConvolution_M_def)
  have n: "?n \<le> length obs" "?n \<le> 8 * length out" using assms(5) by simp_all
  obtain es where es: "length es = length obs - ?n" "\<And>ds. length ds = length obs \<Longrightarrow>
      path_cost CNXDNConvolution_M (m_metrics1 st) (rev (map (\<lambda>(s0, s1). hard_metric s0 s1) obs)) 0
        (rev (hard_frame out obs st) @ es)
      \<le> path_cost CNXDNConvolution_M (m_metrics1 st) (rev (map (\<lambda>(s0, s1). hard_metric s0 s1) obs)) 0 ds"
    unfolding hard_frame_def Let_def
    using hard.frame_bits_optimal [OF assms(1,2,4) n assms(6) room] by blast
  have len: "length (hard_frame out obs st) = ?n" by (simp add: hard_frame_def Let_def frame_bits_def)
  have "frame_weight st obs (frame_word (rev es) (hard_frame out obs st)) \<le> frame_weight st obs (frame_word start' us)"
    if "length start' = 4" "length us = ?n" for start' us
    using es(2) [of "rev us @ rev start'"] that assms(2,3) es(1) len
      frame_path_cost [of obs "rev es" "hard_frame out obs st" st] frame_path_cost [of obs start' us st]
    by simp
  then show ?thesis using es(1) assms(3) by (intro exI [of _ "rev es"]) simp
qed

text \<open>What a frame sends; words with equal tails are told apart by what they send.\<close>

definition transmit :: "bool list \<Rightarrow> bool list \<Rightarrow> (nat \<times> nat) list" where
  "transmit start us = map (\<lambda>t. map_prod symbol symbol (code_pair (frame_word start us) t)) [0..<length us + 4]"

lemma pair_distance_zero: "pair_distance (map_prod symbol symbol p) p' = 0 \<longleftrightarrow> p = p'"
  by (cases p; cases p') (auto simp: pair_distance_def abs_diff_def symbol_def)

lemma code_words_distinct:
  assumes len: "length w = N + 4" "length w' = N + 4" and tail: "\<forall>t \<in> {N..<N + 4}. w ! t = w' ! t"
    and sent: "\<forall>t < N. code_pair w t = code_pair w' t"
  shows "w = w'"
proof (rule nth_equalityI)
  show "length w = length w'" using len by simp
  have "t < N + 4 \<longrightarrow> w ! t = w' ! t" for t
  proof (induction "N + 4 - t" arbitrary: t rule: less_induct)
    case less
    show ?case
    proof (cases "t < N")
      case True
      then have "w ! (t + 1) = w' ! (t + 1)" "w ! (t + 4) = w' ! (t + 4)" using less by simp_all
      then show ?thesis using sent True by (auto simp: code_pair_def sent_def)
    qed (use tail in auto)
  qed
  then show "w ! t = w' ! t" if "t < length w" for t using that len by simp
qed

lemma init_simps [simp]:
  "conv_ok (CNXDNConvolution_init st)" "m_metrics1 (CNXDNConvolution_init st) = replicate 16 0"
  by (simp_all add: CNXDNConvolution_init_def conv_ok_def)

lemma frame_weight_init: "frame_weight (CNXDNConvolution_init st) obs w = frame_distance obs w"
  by (simp add: frame_weight_def state4_def nibble_lt)

lemma frame_distance_transmit:
  "length us' = length us \<Longrightarrow> frame_distance (transmit start us) (frame_word start' us') = 0 \<longleftrightarrow>
    (\<forall>t < length us + 4. code_pair (frame_word start us) t = code_pair (frame_word start' us') t)"
  by (auto simp: frame_distance_def transmit_def pair_distance_zero)

lemma transmit_symbols: "\<forall>(s0, s1) \<in> set (transmit start us). s0 \<le> 2 \<and> s1 \<le> 2"
  by (auto simp: transmit_def symbol_def map_prod_def split: prod.splits)

section \<open>Properties\<close>

text \<open>
  C22. The hard decoder returns the closest code word: for received symbols 0, 1 or 2 and metrics
  that leave room within sixteen bits, no frame with a zero tail has a smaller weight (metric of
  its start state plus distance of its code word from the received symbols) than the decoded
  bits with the best start register.
\<close>

theorem hard_frame_closest:
  assumes "conv_ok st" "\<forall>(s0, s1) \<in> set obs. s0 \<le> 2 \<and> s1 \<le> 2" "4 \<le> length obs" "length obs \<le> 2400"
    "length obs \<le> 8 * length out + 4" "\<forall>q < 16. m_metrics1 st ! q \<le> A" "A + 4 * length obs < 2 ^ 16"
  shows "\<exists>start. length start = 4 \<and> (\<forall>start' us. length start' = 4 \<and> length us = length obs - 4 \<longrightarrow>
    frame_weight st obs (frame_word start (hard_frame out obs st)) \<le> frame_weight st obs (frame_word start' us))"
  by (rule hard_frame_minimal [OF assms])

theorem hard_frame_closest_witness:
  "\<exists>start. length start = 4 \<and>
    frame_weight (CNXDNConvolution_init \<lparr>m_metrics1 = [], m_metrics2 = [], m_decisions = [], m_old1 = True, m_dp = 0\<rparr>)
      [(2, 2), (0, 1), (0, 2), (2, 0), (2, 2)] (frame_word start (hard_frame [0] [(2, 2), (0, 1), (0, 2), (2, 0), (2, 2)]
        (CNXDNConvolution_init \<lparr>m_metrics1 = [], m_metrics2 = [], m_decisions = [], m_old1 = True, m_dp = 0\<rparr>)))
    \<le> frame_weight (CNXDNConvolution_init \<lparr>m_metrics1 = [], m_metrics2 = [], m_decisions = [], m_old1 = True, m_dp = 0\<rparr>)
      [(2, 2), (0, 1), (0, 2), (2, 0), (2, 2)] (frame_word [False, False, False, False] [True])"
  using hard_frame_closest
    [of "CNXDNConvolution_init \<lparr>m_metrics1 = [], m_metrics2 = [], m_decisions = [], m_old1 = True, m_dp = 0\<rparr>"
      "[(2, 2), (0, 1), (0, 2), (2, 0), (2, 2)]" "[0]" 0]
  by force

text \<open>
  A frame sent without errors comes back: after \<open>CNXDNConvolution_init\<close>, the hard decoder
  on the symbols of a code word with a zero tail returns its data bits, whatever the register held
  at the start, for every length the decision buffer has room for.
\<close>

lemma hard_frame_roundtrip:
  assumes "length start = 4" "length us \<le> 2396" "length us \<le> 8 * length out"
  shows "hard_frame out (transmit start us) (CNXDNConvolution_init st) = us"
proof -
  let ?st = "CNXDNConvolution_init st" and ?obs = "transmit start us" and ?w = "frame_word start us"
  let ?res = "hard_frame out ?obs ?st"
  have n: "length ?obs = length us + 4" by (simp add: transmit_def)
  have len: "length ?res = length us" by (simp add: hard_frame_def Let_def frame_bits_def n)
  have m: "\<forall>q < 16. m_metrics1 ?st ! q \<le> 0" by simp
  obtain start' where s': "length start' = 4"
    "frame_weight ?st ?obs (frame_word start' ?res) \<le> frame_weight ?st ?obs ?w"
    using hard_frame_minimal [OF init_simps(1) transmit_symbols _ _ _ m, of start us out] assms n by auto
  have "frame_distance ?obs ?w = 0" by (simp add: frame_distance_transmit)
  then have "frame_distance ?obs (frame_word start' ?res) = 0" using s'(2) by (simp add: frame_weight_init)
  then have "\<forall>t < length us + 4. code_pair ?w t = code_pair (frame_word start' ?res) t"
    using len by (simp add: frame_distance_transmit)
  then have "?w = frame_word start' ?res"
    using assms(1) s'(1) len by (intro code_words_distinct [of _ "length us + 4"]) (auto simp: frame_word_def nth_append)
  then have "start @ us = start' @ ?res" by (simp only: frame_word_def append_assoc [symmetric] append_same_eq)
  then have "us = ?res" unfolding append_eq_append_conv [OF disjI1 [OF trans [OF assms(1) s'(1) [symmetric]]]] by (rule conjunct2)
  then show ?thesis by (rule sym)
qed

section \<open>Where the decoder goes wrong\<close>

lemma abs_diff_code [code]: "abs_diff a b = (if a \<le> b then b - a else a - b)"
  by (auto simp: abs_diff_def nat_diff_distrib of_nat_diff)

text \<open>
  The soft step charges a branch whose pair is the complement of the table entry \<open>full_metric\<close>
  minus the weighted difference. That is its own difference only for full reliability: an
  uncertain pair costs such a branch the most, not the least.
\<close>

definition soft_frame :: "u8 list \<Rightarrow> (nat \<times> nat \<times> nat \<times> nat) list \<Rightarrow> conv \<Rightarrow> bool list" where
  "soft_frame out obs st =
     (let n = length obs - 4
      in frame_bits n (CNXDNConvolution_chainback out n
           (fold (\<lambda>(s0, s1, r0, r1). CNXDNConvolution_decode_soft s0 s1 r0 r1) obs (CNXDNConvolution_start st))))"

lemma soft_frame_traced:
  assumes "length obs \<le> 2400" "length obs \<le> 8 * length out + 4"
  shows "soft_frame out obs (CNXDNConvolution_init st) =
    rev (take (length obs - 4) (traced full_metric (replicate 16 0) (rev (map (\<lambda>(s0, s1, r0, r1). soft_metric s0 s1 r0 r1) obs)) 0))"
proof -
  have "0 + full_metric * length obs < 2 ^ 16" using assms(1) by (simp add: full_metric_def CNXDNConvolution_M_def)
  then show ?thesis
    using soft.frame_bits_traced [of "CNXDNConvolution_init st" obs "length obs - 4" out 0] assms
    by (simp add: soft_frame_def Let_def rev_swap)
qed

text \<open>
  C29. The soft decoder loses bits of a frame received without error: with data bit 1 and
  reliability 64 (of 255) for every symbol it returns 0, from freshly cleared metrics.
\<close>

theorem soft_frame_loses_clean_bit:
  "soft_frame [0] (map (\<lambda>(s0, s1). (s0, s1, 64, 64)) (transmit [False, False, False, False] [True])) (CNXDNConvolution_init st) = [False]"
proof -
  let ?ms = "rev (map (\<lambda>(s0, s1, r0, r1). soft_metric s0 s1 r0 r1)
      (map (\<lambda>(s0, s1). (s0, s1, 64, 64)) (transmit [False, False, False, False] [True])))"
  have first: "take 1 (traced full a ms q) = [choice full a (tl ms) (hd ms) q]" if "ms \<noteq> []" for full a ms q
    using that by (cases ms) simp_all
  have "\<not> choice full_metric (replicate 16 0) (tl ?ms) (hd ?ms) 0" by code_simp
  then have "take 1 (traced full_metric (replicate 16 0) ?ms 0) = [False]" by (subst first) (simp_all add: transmit_def)
  then show ?thesis by (subst soft_frame_traced) (simp_all add: transmit_def)
qed

text \<open>
  \<open>CNXDNConvolution_start\<close> keeps the metrics of the frames before, so they reach the end of their
  sixteen bits: there the cost of the worse branch wraps and the decision goes to it.
\<close>

lemma wrapped_metric_decides_wrongly:
  "bit (snd (butterfly (hard_metric 0 0 0) (replicate 16 65534) CNXDNConvolution_M 0 (new, 0))) 0 \<and>
   \<not> decides CNXDNConvolution_M (hard_metric 0 0) (replicate 16 65534) 0"
  by (simp add: butterfly_def Let_def hard_metric_def abs_diff_def decides_def prev_def branch_def bit_or_iff
      CNXDNConvolution_M_def CNXDNConvolution_BRANCH_TABLE1_def CNXDNConvolution_BRANCH_TABLE2_def)

end
