(* ===== verification/Aes.thy ===== *)
theory Aes
  imports Bit_Words
begin

text \<open>
  The block cipher of \<open>src/crypto/crypt-aes.c\<close> and its three modes. The state \<open>state_t\<close> is the
  block of sixteen bytes it is cast from: cell \<open>[i][j]\<close> is byte \<open>4 i + j\<close>. Round counts are those
  of the three key sizes, so the loop of \<open>Cipher\<close> over the rounds is one over a list.
\<close>

section \<open>Model\<close>

definition sbox :: "u8 list" where
  "sbox = [0x63, 0x7c, 0x77, 0x7b, 0xf2, 0x6b, 0x6f, 0xc5, 0x30, 0x01, 0x67, 0x2b, 0xfe, 0xd7, 0xab, 0x76,
     0xca, 0x82, 0xc9, 0x7d, 0xfa, 0x59, 0x47, 0xf0, 0xad, 0xd4, 0xa2, 0xaf, 0x9c, 0xa4, 0x72, 0xc0,
     0xb7, 0xfd, 0x93, 0x26, 0x36, 0x3f, 0xf7, 0xcc, 0x34, 0xa5, 0xe5, 0xf1, 0x71, 0xd8, 0x31, 0x15,
     0x04, 0xc7, 0x23, 0xc3, 0x18, 0x96, 0x05, 0x9a, 0x07, 0x12, 0x80, 0xe2, 0xeb, 0x27, 0xb2, 0x75,
     0x09, 0x83, 0x2c, 0x1a, 0x1b, 0x6e, 0x5a, 0xa0, 0x52, 0x3b, 0xd6, 0xb3, 0x29, 0xe3, 0x2f, 0x84,
     0x53, 0xd1, 0x00, 0xed, 0x20, 0xfc, 0xb1, 0x5b, 0x6a, 0xcb, 0xbe, 0x39, 0x4a, 0x4c, 0x58, 0xcf,
     0xd0, 0xef, 0xaa, 0xfb, 0x43, 0x4d, 0x33, 0x85, 0x45, 0xf9, 0x02, 0x7f, 0x50, 0x3c, 0x9f, 0xa8,
     0x51, 0xa3, 0x40, 0x8f, 0x92, 0x9d, 0x38, 0xf5, 0xbc, 0xb6, 0xda, 0x21, 0x10, 0xff, 0xf3, 0xd2,
     0xcd, 0x0c, 0x13, 0xec, 0x5f, 0x97, 0x44, 0x17, 0xc4, 0xa7, 0x7e, 0x3d, 0x64, 0x5d, 0x19, 0x73,
     0x60, 0x81, 0x4f, 0xdc, 0x22, 0x2a, 0x90, 0x88, 0x46, 0xee, 0xb8, 0x14, 0xde, 0x5e, 0x0b, 0xdb,
     0xe0, 0x32, 0x3a, 0x0a, 0x49, 0x06, 0x24, 0x5c, 0xc2, 0xd3, 0xac, 0x62, 0x91, 0x95, 0xe4, 0x79,
     0xe7, 0xc8, 0x37, 0x6d, 0x8d, 0xd5, 0x4e, 0xa9, 0x6c, 0x56, 0xf4, 0xea, 0x65, 0x7a, 0xae, 0x08,
     0xba, 0x78, 0x25, 0x2e, 0x1c, 0xa6, 0xb4, 0xc6, 0xe8, 0xdd, 0x74, 0x1f, 0x4b, 0xbd, 0x8b, 0x8a,
     0x70, 0x3e, 0xb5, 0x66, 0x48, 0x03, 0xf6, 0x0e, 0x61, 0x35, 0x57, 0xb9, 0x86, 0xc1, 0x1d, 0x9e,
     0xe1, 0xf8, 0x98, 0x11, 0x69, 0xd9, 0x8e, 0x94, 0x9b, 0x1e, 0x87, 0xe9, 0xce, 0x55, 0x28, 0xdf,
     0x8c, 0xa1, 0x89, 0x0d, 0xbf, 0xe6, 0x42, 0x68, 0x41, 0x99, 0x2d, 0x0f, 0xb0, 0x54, 0xbb, 0x16]"

definition rsbox :: "u8 list" where
  "rsbox = [0x52, 0x09, 0x6a, 0xd5, 0x30, 0x36, 0xa5, 0x38, 0xbf, 0x40, 0xa3, 0x9e, 0x81, 0xf3, 0xd7, 0xfb,
     0x7c, 0xe3, 0x39, 0x82, 0x9b, 0x2f, 0xff, 0x87, 0x34, 0x8e, 0x43, 0x44, 0xc4, 0xde, 0xe9, 0xcb,
     0x54, 0x7b, 0x94, 0x32, 0xa6, 0xc2, 0x23, 0x3d, 0xee, 0x4c, 0x95, 0x0b, 0x42, 0xfa, 0xc3, 0x4e,
     0x08, 0x2e, 0xa1, 0x66, 0x28, 0xd9, 0x24, 0xb2, 0x76, 0x5b, 0xa2, 0x49, 0x6d, 0x8b, 0xd1, 0x25,
     0x72, 0xf8, 0xf6, 0x64, 0x86, 0x68, 0x98, 0x16, 0xd4, 0xa4, 0x5c, 0xcc, 0x5d, 0x65, 0xb6, 0x92,
     0x6c, 0x70, 0x48, 0x50, 0xfd, 0xed, 0xb9, 0xda, 0x5e, 0x15, 0x46, 0x57, 0xa7, 0x8d, 0x9d, 0x84,
     0x90, 0xd8, 0xab, 0x00, 0x8c, 0xbc, 0xd3, 0x0a, 0xf7, 0xe4, 0x58, 0x05, 0xb8, 0xb3, 0x45, 0x06,
     0xd0, 0x2c, 0x1e, 0x8f, 0xca, 0x3f, 0x0f, 0x02, 0xc1, 0xaf, 0xbd, 0x03, 0x01, 0x13, 0x8a, 0x6b,
     0x3a, 0x91, 0x11, 0x41, 0x4f, 0x67, 0xdc, 0xea, 0x97, 0xf2, 0xcf, 0xce, 0xf0, 0xb4, 0xe6, 0x73,
     0x96, 0xac, 0x74, 0x22, 0xe7, 0xad, 0x35, 0x85, 0xe2, 0xf9, 0x37, 0xe8, 0x1c, 0x75, 0xdf, 0x6e,
     0x47, 0xf1, 0x1a, 0x71, 0x1d, 0x29, 0xc5, 0x89, 0x6f, 0xb7, 0x62, 0x0e, 0xaa, 0x18, 0xbe, 0x1b,
     0xfc, 0x56, 0x3e, 0x4b, 0xc6, 0xd2, 0x79, 0x20, 0x9a, 0xdb, 0xc0, 0xfe, 0x78, 0xcd, 0x5a, 0xf4,
     0x1f, 0xdd, 0xa8, 0x33, 0x88, 0x07, 0xc7, 0x31, 0xb1, 0x12, 0x10, 0x59, 0x27, 0x80, 0xec, 0x5f,
     0x60, 0x51, 0x7f, 0xa9, 0x19, 0xb5, 0x4a, 0x0d, 0x2d, 0xe5, 0x7a, 0x9f, 0x93, 0xc9, 0x9c, 0xef,
     0xa0, 0xe0, 0x3b, 0x4d, 0xae, 0x2a, 0xf5, 0xb0, 0xc8, 0xeb, 0xbb, 0x3c, 0x83, 0x53, 0x99, 0x61,
     0x17, 0x2b, 0x04, 0x7e, 0xba, 0x77, 0xd6, 0x26, 0xe1, 0x69, 0x14, 0x63, 0x55, 0x21, 0x0c, 0x7d]"

definition Rcon :: "u8 list" where
  "Rcon = [0x8d, 0x01, 0x02, 0x04, 0x08, 0x10, 0x20, 0x40, 0x80, 0x1b, 0x36]"

definition getSBoxValue :: "u8 \<Rightarrow> u8" where
  "getSBoxValue num = sbox ! unat num"

definition getSBoxInvert :: "u8 \<Rightarrow> u8" where
  "getSBoxInvert num = rsbox ! unat num"

record aes_params =
  nk :: nat
  nr :: nat

definition aes_params_for_key_size :: "nat \<Rightarrow> aes_params option" where
  "aes_params_for_key_size key_size =
     (if key_size = 128 then Some \<lparr>nk = 4, nr = 10\<rparr>
      else if key_size = 192 then Some \<lparr>nk = 6, nr = 12\<rparr>
      else if key_size = 256 then Some \<lparr>nk = 8, nr = 14\<rparr> else None)"

definition aes_key_schedule_params_valid :: "nat \<Rightarrow> nat \<Rightarrow> nat \<Rightarrow> bool" where
  "aes_key_schedule_params_valid Nk Nr round_words \<longleftrightarrow>
     (Nk = 4 \<or> Nk = 6 \<or> Nk = 8) \<and> (Nr = 10 \<or> Nr = 12 \<or> Nr = 14) \<and> round_words \<le> 240 div 4 \<and> Nk \<le> round_words"

text \<open>One word of the schedule: rotate, substitute and add the round constant where the index asks for it.\<close>

definition schedule_temp :: "nat \<Rightarrow> nat \<Rightarrow> u8 list \<Rightarrow> u8 list" where
  "schedule_temp Nk i tempa =
     (let tempa = (if i mod Nk = 0
                   then let tempa = [tempa ! 1, tempa ! 2, tempa ! 3, tempa ! 0];
                            tempa = map getSBoxValue tempa
                        in tempa[0 := tempa ! 0 XOR Rcon ! (i div Nk)]
                   else tempa)
      in if Nk = 8 \<and> i mod Nk = 4 then map getSBoxValue tempa else tempa)"

definition expand_word :: "nat \<Rightarrow> nat \<Rightarrow> u8 list \<Rightarrow> u8 list" where
  "expand_word Nk i RoundKey =
     (let k = (i - 1) * 4;
          tempa = schedule_temp Nk i [RoundKey ! k, RoundKey ! (k + 1), RoundKey ! (k + 2), RoundKey ! (k + 3)];
          j = i * 4;
          k = (i - Nk) * 4
      in RoundKey[j := RoundKey ! k XOR tempa ! 0, j + 1 := RoundKey ! (k + 1) XOR tempa ! 1,
           j + 2 := RoundKey ! (k + 2) XOR tempa ! 2, j + 3 := RoundKey ! (k + 3) XOR tempa ! 3])"

definition copy_word :: "u8 list \<Rightarrow> nat \<Rightarrow> u8 list \<Rightarrow> u8 list" where
  "copy_word Key i RoundKey =
     RoundKey[i * 4 := Key ! (i * 4), i * 4 + 1 := Key ! (i * 4 + 1), i * 4 + 2 := Key ! (i * 4 + 2), i * 4 + 3 := Key ! (i * 4 + 3)]"

definition KeyExpansion :: "u8 list \<Rightarrow> u8 list \<Rightarrow> nat \<Rightarrow> nat \<Rightarrow> u8 list" where
  "KeyExpansion RoundKey Key Nk Nr =
     (let round_words = 4 * (Nr + 1)
      in if \<not> aes_key_schedule_params_valid Nk Nr round_words then RoundKey
         else fold (expand_word Nk) [Nk..<round_words] (fold (copy_word Key) [0..<Nk] RoundKey))"

definition AddRoundKey :: "nat \<Rightarrow> u8 list \<Rightarrow> u8 list \<Rightarrow> u8 list" where
  "AddRoundKey round RoundKey state = map (\<lambda>c. state ! c XOR RoundKey ! (round * 4 * 4 + c)) [0..<16]"

definition SubBytes :: "u8 list \<Rightarrow> u8 list" where
  "SubBytes state = map (\<lambda>c. getSBoxValue (state ! c)) [0..<16]"

definition ShiftRows :: "u8 list \<Rightarrow> u8 list" where
  "ShiftRows state =
     (let temp = state ! 1;
          state = state[1 := state ! 5];
          state = state[5 := state ! 9];
          state = state[9 := state ! 13];
          state = state[13 := temp];
          temp = state ! 2;
          state = state[2 := state ! 10];
          state = state[10 := temp];
          temp = state ! 6;
          state = state[6 := state ! 14];
          state = state[14 := temp];
          temp = state ! 3;
          state = state[3 := state ! 15];
          state = state[15 := state ! 11];
          state = state[11 := state ! 7]
      in state[7 := temp])"

definition xtime :: "u8 \<Rightarrow> u8" where
  "xtime x = push_bit 1 x XOR ((drop_bit 7 x AND 1) * 0x1b)"

definition mix_column :: "u8 \<Rightarrow> u8 \<Rightarrow> u8 \<Rightarrow> u8 \<Rightarrow> u8 list" where
  "mix_column a b c d =
     (let t = a; Tmp = a XOR b XOR c XOR d
      in [a XOR (xtime (a XOR b) XOR Tmp), b XOR (xtime (b XOR c) XOR Tmp),
          c XOR (xtime (c XOR d) XOR Tmp), d XOR (xtime (d XOR t) XOR Tmp)])"

text \<open>A step on the four bytes of each column.\<close>

definition on_columns :: "(u8 \<Rightarrow> u8 \<Rightarrow> u8 \<Rightarrow> u8 \<Rightarrow> u8 list) \<Rightarrow> u8 list \<Rightarrow> u8 list" where
  "on_columns f state =
     concat (map (\<lambda>i. f (state ! (4 * i)) (state ! (4 * i + 1)) (state ! (4 * i + 2)) (state ! (4 * i + 3))) [0, 1, 2, 3])"

definition MixColumns :: "u8 list \<Rightarrow> u8 list" where
  "MixColumns = on_columns mix_column"

function multiply_loop :: "u8 \<Rightarrow> u8 \<Rightarrow> u8 \<Rightarrow> u8" where
  "multiply_loop x y result =
     (if y \<noteq> 0 then multiply_loop (xtime x) (drop_bit 1 y) (if y AND 1 \<noteq> 0 then result XOR x else result) else result)"
  by pat_completeness auto
termination
proof (relation "measure (\<lambda>(x, y, result). unat y)")
  fix x y result :: u8 assume "y \<noteq> 0"
  then have "0 < unat y" by (simp add: unat_gt_0)
  then show "((xtime x, drop_bit 1 y, if y AND 1 \<noteq> 0 then result XOR x else result), (x, y, result)) \<in> measure (\<lambda>(x, y, result). unat y)"
    by (simp add: unat_drop_bit_eq drop_bit_eq_div unat_div)
qed simp

definition aes_multiply :: "u8 \<Rightarrow> u8 \<Rightarrow> u8" where
  "aes_multiply x y = multiply_loop x y 0"

definition inv_mix_column :: "u8 \<Rightarrow> u8 \<Rightarrow> u8 \<Rightarrow> u8 \<Rightarrow> u8 list" where
  "inv_mix_column a b c d =
     [aes_multiply a 0x0e XOR aes_multiply b 0x0b XOR aes_multiply c 0x0d XOR aes_multiply d 0x09,
      aes_multiply a 0x09 XOR aes_multiply b 0x0e XOR aes_multiply c 0x0b XOR aes_multiply d 0x0d,
      aes_multiply a 0x0d XOR aes_multiply b 0x09 XOR aes_multiply c 0x0e XOR aes_multiply d 0x0b,
      aes_multiply a 0x0b XOR aes_multiply b 0x0d XOR aes_multiply c 0x09 XOR aes_multiply d 0x0e]"

definition InvMixColumns :: "u8 list \<Rightarrow> u8 list" where
  "InvMixColumns = on_columns inv_mix_column"

definition InvSubBytes :: "u8 list \<Rightarrow> u8 list" where
  "InvSubBytes state = map (\<lambda>c. getSBoxInvert (state ! c)) [0..<16]"

definition InvShiftRows :: "u8 list \<Rightarrow> u8 list" where
  "InvShiftRows state =
     (let temp = state ! 13;
          state = state[13 := state ! 9];
          state = state[9 := state ! 5];
          state = state[5 := state ! 1];
          state = state[1 := temp];
          temp = state ! 2;
          state = state[2 := state ! 10];
          state = state[10 := temp];
          temp = state ! 6;
          state = state[6 := state ! 14];
          state = state[14 := temp];
          temp = state ! 3;
          state = state[3 := state ! 7];
          state = state[7 := state ! 11];
          state = state[11 := state ! 15]
      in state[15 := temp])"

definition Cipher :: "u8 list \<Rightarrow> nat \<Rightarrow> u8 list \<Rightarrow> u8 list" where
  "Cipher RoundKey Nr state =
     (let state = AddRoundKey 0 RoundKey state;
          state = fold (\<lambda>round state. AddRoundKey round RoundKey (MixColumns (ShiftRows (SubBytes state)))) [1..<Nr] state;
          state = ShiftRows (SubBytes state)
      in AddRoundKey Nr RoundKey state)"

fun increment_from :: "nat \<Rightarrow> u8 list \<Rightarrow> u8 list" where
  "increment_from 0 counter = counter"
| "increment_from (Suc i) counter =
     (let counter = counter[i := counter ! i + 1]
      in if counter ! i \<noteq> 0 then counter else increment_from i counter)"

definition aes_increment_counter_be :: "u8 list \<Rightarrow> u8 list" where
  "aes_increment_counter_be counter = increment_from 16 counter"

definition InvCipher :: "u8 list \<Rightarrow> nat \<Rightarrow> u8 list \<Rightarrow> u8 list" where
  "InvCipher RoundKey Nr state =
     fold (\<lambda>round state.
         let state = AddRoundKey round RoundKey (InvSubBytes (InvShiftRows state))
         in if round = 0 then state else InvMixColumns state)
       (rev [0..<Nr]) (AddRoundKey Nr RoundKey state)"

definition round_keys :: "u8 list \<Rightarrow> aes_params \<Rightarrow> u8 list" where
  "round_keys key params = KeyExpansion (replicate 240 0) key (nk params) (nr params)"

definition xor_block :: "u8 list \<Rightarrow> nat \<Rightarrow> nat \<Rightarrow> u8 list \<Rightarrow> u8 list" where
  "xor_block stream offset block_len data = fold (\<lambda>i data. data[offset + i := data ! (offset + i) XOR stream ! i]) [0..<block_len] data"

definition ctr_step :: "u8 list \<Rightarrow> nat \<Rightarrow> nat \<Rightarrow> nat \<Rightarrow> u8 list \<times> u8 list \<Rightarrow> u8 list \<times> u8 list" where
  "ctr_step RoundKey Nr len block cd =
     (case cd of (counter_block, data) \<Rightarrow>
        let offset = block * 16; stream = Cipher RoundKey Nr counter_block; block_len = min (len - offset) 16
        in (aes_increment_counter_be counter_block, xor_block stream offset block_len data))"

definition aes_ctr_xcrypt_bytes :: "u8 list \<Rightarrow> u8 list \<Rightarrow> u8 list \<Rightarrow> nat \<Rightarrow> nat \<Rightarrow> u8 list" where
  "aes_ctr_xcrypt_bytes counter key data key_size len =
     (case aes_params_for_key_size key_size of None \<Rightarrow> data
      | Some params \<Rightarrow> snd (fold (ctr_step (round_keys key params) (nr params) len) [0..<(len + 15) div 16] (counter, data)))"

definition ofb_step :: "u8 list \<Rightarrow> nat \<Rightarrow> nat \<Rightarrow> u8 list \<times> u8 list \<Rightarrow> u8 list \<times> u8 list" where
  "ofb_step RoundKey Nr i ro =
     (case ro of (input_register, out) \<Rightarrow>
        let input_register = Cipher RoundKey Nr input_register
        in (input_register, copy_into out (i * 16) input_register))"

definition aes_ofb_keystream_output :: "u8 list \<Rightarrow> u8 list \<Rightarrow> u8 list \<Rightarrow> nat \<Rightarrow> nat \<Rightarrow> u8 list" where
  "aes_ofb_keystream_output iv key out key_size nblocks =
     (case aes_params_for_key_size key_size of None \<Rightarrow> out
      | Some params \<Rightarrow> snd (fold (ofb_step (round_keys key params) (nr params)) [0..<nblocks] (iv, out)))"

definition ecb_step :: "u8 list \<Rightarrow> nat \<Rightarrow> u8 list \<Rightarrow> nat \<Rightarrow> u8 list \<Rightarrow> u8 list" where
  "ecb_step RoundKey Nr inp i out =
     (let offset = i * 16 in copy_into out offset (InvCipher RoundKey Nr (take 16 (drop offset inp))))"

definition aes_ecb_decrypt_blocks :: "u8 list \<Rightarrow> u8 list \<Rightarrow> u8 list \<Rightarrow> nat \<Rightarrow> nat \<Rightarrow> u8 list" where
  "aes_ecb_decrypt_blocks inp key out key_size nblocks =
     (case aes_params_for_key_size key_size of None \<Rightarrow> out
      | Some params \<Rightarrow> fold (ecb_step (round_keys key params) (nr params) inp) [0..<nblocks] out)"

section \<open>The steps undo each other\<close>

lemma list16: "length s = 16 \<Longrightarrow> s = [s ! 0, s ! Suc 0, s ! 2, s ! 3, s ! 4, s ! 5, s ! 6, s ! 7,
    s ! 8, s ! 9, s ! 10, s ! 11, s ! 12, s ! 13, s ! 14, s ! 15]"
  by (rule nth_equalityI) (auto simp: less_Suc_eq eval_nat_numeral)

lemma getSBoxInvert_Value [simp]: "getSBoxInvert (getSBoxValue x) = x"
proof -
  have "\<forall>k < 256. rsbox ! unat (sbox ! k) = of_nat k" by code_simp
  moreover have "unat x < 256" using unsigned_less [of x] by simp
  ultimately have "rsbox ! unat (sbox ! unat x) = of_nat (unat x)" by blast
  then show ?thesis by (simp add: getSBoxInvert_def getSBoxValue_def)
qed

lemma length_steps [simp, len_simps]:
  "length (AddRoundKey r k s) = 16" "length (SubBytes s) = 16" "length (InvSubBytes s) = 16"
  "length (ShiftRows s) = length s" "length (InvShiftRows s) = length s" "length (MixColumns s) = 16" "length (InvMixColumns s) = 16"
  by (simp_all add: AddRoundKey_def SubBytes_def InvSubBytes_def ShiftRows_def InvShiftRows_def Let_def
      MixColumns_def InvMixColumns_def on_columns_def mix_column_def inv_mix_column_def)

lemma AddRoundKey_twice: "length s = 16 \<Longrightarrow> AddRoundKey r k (AddRoundKey r k s) = s"
  by (rule nth_equalityI) (simp_all add: AddRoundKey_def xor.assoc)

lemma InvSubBytes_SubBytes: "length s = 16 \<Longrightarrow> InvSubBytes (SubBytes s) = s"
  by (rule nth_equalityI) (simp_all add: InvSubBytes_def SubBytes_def)

lemma InvShiftRows_ShiftRows: "length s = 16 \<Longrightarrow> InvShiftRows (ShiftRows s) = s"
  by (subst (1 2) list16, assumption) (simp add: ShiftRows_def InvShiftRows_def Let_def)

text \<open>Doubling is additive, so mixing and its inverse are sums of repeated doublings that cancel.\<close>

lemma xor_cancel: "x XOR (x XOR y) = (y :: u8)"
  by (simp add: xor.assoc [symmetric])

lemmas xor_ac = xor.assoc xor.commute xor.left_commute

lemma aes_xtime_xor: "xtime (x XOR y) = xtime x XOR xtime y"
proof -
  have carry: "drop_bit 7 z AND 1 = (of_bool (bit z 7) :: u8)" for z :: u8
    by (simp add: and_one_eq mod_2_eq_odd bit_iff_odd_drop_bit)
  show ?thesis
    unfolding xtime_def carry
    by (cases "bit x 7"; cases "bit y 7") (simp_all add: push_bit_xor bit_xor_iff xor_ac xor_cancel)
qed

lemma aes_multiply_constants:
  "aes_multiply x 0x09 = x XOR xtime (xtime (xtime x))"
  "aes_multiply x 0x0b = x XOR xtime x XOR xtime (xtime (xtime x))"
  "aes_multiply x 0x0d = x XOR xtime (xtime x) XOR xtime (xtime (xtime x))"
  "aes_multiply x 0x0e = xtime x XOR xtime (xtime x) XOR xtime (xtime (xtime x))"
  by (simp_all add: aes_multiply_def xor.assoc)

lemma inv_mix_mix:
  "inv_mix_column (a XOR (xtime (a XOR b) XOR (a XOR b XOR c XOR d))) (b XOR (xtime (b XOR c) XOR (a XOR b XOR c XOR d)))
     (c XOR (xtime (c XOR d) XOR (a XOR b XOR c XOR d))) (d XOR (xtime (d XOR a) XOR (a XOR b XOR c XOR d))) = [a, b, c, d]"
  by (simp add: inv_mix_column_def aes_multiply_constants aes_xtime_xor xor_ac xor_cancel)

lemma InvMixColumns_MixColumns: "length s = 16 \<Longrightarrow> InvMixColumns (MixColumns s) = s"
  by (rule trans [OF _ list16 [symmetric]])
    (simp_all add: InvMixColumns_def MixColumns_def on_columns_def mix_column_def Let_def inv_mix_mix numeral_2_eq_2)

text \<open>The inverse cipher runs the rounds backwards.\<close>

lemma inverse_rounds:
  assumes "length s = 16" "0 < n"
  shows "fold (\<lambda>round state.
         let state = AddRoundKey round k (InvSubBytes (InvShiftRows state))
         in if round = 0 then state else InvMixColumns state) (rev [0..<n])
      (ShiftRows (SubBytes (fold (\<lambda>round state. AddRoundKey round k (MixColumns (ShiftRows (SubBytes state)))) [1..<n]
        (AddRoundKey 0 k s)))) = s"
  using assms(2)
proof (induction n)
  case (Suc n)
  let ?fwd = "\<lambda>n. fold (\<lambda>round state. AddRoundKey round k (MixColumns (ShiftRows (SubBytes state)))) [1..<n] (AddRoundKey 0 k s)"
  show ?case
  proof (cases "n = 0")
    case True
    then show ?thesis
      using assms(1) by (simp add: Let_def InvShiftRows_ShiftRows InvSubBytes_SubBytes AddRoundKey_twice)
  next
    case False
    then have "?fwd (Suc n) = AddRoundKey n k (MixColumns (ShiftRows (SubBytes (?fwd n))))" by simp
    then show ?thesis
      using False Suc.IH
      by (simp add: Let_def InvShiftRows_ShiftRows InvSubBytes_SubBytes AddRoundKey_twice InvMixColumns_MixColumns)
  qed
qed simp

lemma InvCipher_Cipher: "length s = 16 \<Longrightarrow> 0 < n \<Longrightarrow> InvCipher k n (Cipher k n s) = s"
  unfolding InvCipher_def Cipher_def Let_def
  by (subst AddRoundKey_twice) (simp, rule inverse_rounds [unfolded Let_def])

lemma length_Cipher [simp, len_simps]: "length (Cipher k n s) = 16" "length (InvCipher k n s) = 16"
proof -
  show "length (Cipher k n s) = 16" by (simp add: Cipher_def Let_def)
  have "length s = 16 \<Longrightarrow> length (fold (\<lambda>round state. let state = AddRoundKey round k (InvSubBytes (InvShiftRows state))
         in if round = 0 then state else InvMixColumns state) rs s) = 16" for rs s
    by (induction rs arbitrary: s) (simp_all add: Let_def)
  then show "length (InvCipher k n s) = 16" by (simp add: InvCipher_def)
qed

section \<open>The key schedule\<close>

text \<open>Word \<open>i\<close> of the schedule, and what a write of a word leaves of the others.\<close>

definition word4 :: "u8 list \<Rightarrow> nat \<Rightarrow> u8 list" where
  "word4 rk i = [rk ! (i * 4), rk ! (i * 4 + 1), rk ! (i * 4 + 2), rk ! (i * 4 + 3)]"

definition put_word4 :: "nat \<Rightarrow> u8 list \<Rightarrow> u8 list \<Rightarrow> u8 list" where
  "put_word4 i w rk = rk[i * 4 := w ! 0, i * 4 + 1 := w ! 1, i * 4 + 2 := w ! 2, i * 4 + 3 := w ! 3]"

lemma length_put_word4 [simp]: "length (put_word4 i w rk) = length rk"
  by (simp add: put_word4_def)

lemma word4_put_word4:
  assumes "i * 4 + 3 < length rk" "length w = 4"
  shows "word4 (put_word4 i w rk) i' = (if i' = i then w else word4 rk i')"
proof (cases "i' = i")
  case True
  have "w = [w ! 0, w ! 1, w ! 2, w ! 3]"
    using assms(2) by (intro nth_equalityI) (auto simp: less_Suc_eq eval_nat_numeral)
  then show ?thesis using True assms(1) by (simp add: word4_def put_word4_def)
next
  case False
  then have "i' * 4 + a \<noteq> i * 4 + b" if "a < 4" "b < 4" for a b using that by presburger
  from this [of 0 _] this [of 1 _] this [of 2 _] this [of 3 _] False
  show ?thesis by (simp add: word4_def put_word4_def)
qed

text \<open>The expansion written with whole words.\<close>

lemma length_schedule_temp [simp]: "length t = 4 \<Longrightarrow> length (schedule_temp Nk i t) = 4"
  by (simp add: schedule_temp_def Let_def)

lemma copy_word_put: "copy_word Key i rk = put_word4 i (word4 Key i) rk"
  by (simp add: copy_word_def put_word4_def word4_def)

lemma length_word4 [simp]: "length (word4 rk i) = 4"
  by (simp add: word4_def)

lemma map2_word4:
  "length t = 4 \<Longrightarrow> map2 (XOR) (word4 rk k) t =
     [rk ! (k * 4) XOR t ! 0, rk ! (k * 4 + 1) XOR t ! 1, rk ! (k * 4 + 2) XOR t ! 2, rk ! (k * 4 + 3) XOR t ! 3]"
  by (auto simp: word4_def length_Suc_conv eval_nat_numeral)

lemma expand_word_put:
  "expand_word Nk i rk = put_word4 i (map2 (XOR) (word4 rk (i - Nk)) (schedule_temp Nk i (word4 rk (i - 1)))) rk"
  unfolding expand_word_def Let_def word4_def [of rk "i - 1", symmetric] put_word4_def
    map2_word4 [OF length_schedule_temp [OF length_word4]]
  by (simp add: numeral_2_eq_2 numeral_3_eq_3)

text \<open>
  The recurrence of the standard: the first words are the key, every later word is the sum of
  the word \<open>Nk\<close> places before and the transformed previous word.
\<close>

definition schedule_ok :: "u8 list \<Rightarrow> nat \<Rightarrow> nat \<Rightarrow> u8 list \<Rightarrow> bool" where
  "schedule_ok Key Nk n rk \<longleftrightarrow> length rk = 240 \<and> (\<forall>i < min Nk n. word4 rk i = word4 Key i) \<and>
     (\<forall>i \<in> {Nk..<n}. word4 rk i = map2 (XOR) (word4 rk (i - Nk)) (schedule_temp Nk i (word4 rk (i - 1))))"

lemma schedule_copy: "n \<le> Nk \<Longrightarrow> n \<le> 60 \<Longrightarrow> length rk = 240 \<Longrightarrow> schedule_ok Key Nk n (fold (copy_word Key) [0..<n] rk)"
proof (induction n)
  case (Suc n)
  define rk' where "rk' = fold (copy_word Key) [0..<n] rk"
  have "schedule_ok Key Nk n rk'" using Suc by (simp add: rk'_def)
  then have "schedule_ok Key Nk (Suc n) (put_word4 n (word4 Key n) rk')"
    using Suc.prems by (auto simp: schedule_ok_def word4_put_word4 less_Suc_eq)
  then show ?case by (simp add: rk'_def copy_word_put [of Key n])
qed (simp add: schedule_ok_def)

lemma schedule_expand:
  "schedule_ok Key Nk Nk rk \<Longrightarrow> 0 < Nk \<Longrightarrow> Nk + n \<le> 60 \<Longrightarrow> schedule_ok Key Nk (Nk + n) (fold (expand_word Nk) [Nk..<Nk + n] rk)"
proof (induction n)
  case (Suc n)
  let ?rk = "fold (expand_word Nk) [Nk..<Nk + n] rk"
  have IH: "schedule_ok Key Nk (Nk + n) ?rk" using Suc by simp
  let ?w = "map2 (XOR) (word4 ?rk n) (schedule_temp Nk (Nk + n) (word4 ?rk (Nk + n - 1)))"
  have w: "word4 (put_word4 (Nk + n) ?w ?rk) i = (if i = Nk + n then ?w else word4 ?rk i)" for i
    using IH Suc.prems by (intro word4_put_word4) (simp_all add: schedule_ok_def)
  have fold: "fold (expand_word Nk) [Nk..<Nk + Suc n] rk = put_word4 (Nk + n) ?w ?rk"
    by (simp add: expand_word_put)
  have "i - Nk \<noteq> Nk + n" "i - 1 \<noteq> Nk + n" if "i < Nk + Suc n" for i using that Suc.prems(2) by auto
  then show ?case unfolding schedule_ok_def fold w using IH by (auto simp: schedule_ok_def less_Suc_eq)
qed simp

section \<open>The counter\<close>

definition be_value :: "u8 list \<Rightarrow> nat" where
  "be_value bs = foldl (\<lambda>v b. v * 256 + unat b) 0 bs"

definition be_block :: "nat \<Rightarrow> u8 list" where
  "be_block v = map (\<lambda>i. of_nat (v div 256 ^ (15 - i))) [0..<16]"

lemma be_value_snoc [simp]: "be_value (bs @ [b]) = be_value bs * 256 + unat b"
  by (simp add: be_value_def)

lemma be_value_Nil [simp]: "be_value [] = 0"
  by (simp add: be_value_def)

lemma u8_less: "unat (b :: u8) < 256"
  using unsigned_less [of b] by simp

lemma be_value_less: "be_value bs < 256 ^ length bs"
proof (induction bs rule: rev_induct)
  case (snoc b bs)
  have "be_value bs * 256 + unat b < (be_value bs + 1) * 256" using u8_less [of b] by simp
  also have "\<dots> \<le> 256 ^ length bs * 256" using snoc by (intro mult_right_mono) simp_all
  finally show ?case by simp
qed simp

lemma be_value_div: "be_value bs div 256 ^ k = be_value (take (length bs - k) bs)"
proof (induction k arbitrary: bs)
  case (Suc k)
  show ?case
  proof (cases bs rule: rev_cases)
    case (snoc cs b)
    have "be_value bs div 256 ^ Suc k = (be_value cs * 256 + unat b) div 256 div 256 ^ k"
      by (simp add: snoc div_mult2_eq)
    also have "(be_value cs * 256 + unat b) div 256 = be_value cs" using u8_less [of b] by simp
    finally show ?thesis using Suc.IH [of cs] by (simp add: snoc)
  qed simp
qed simp

lemma be_block_value: "length c = 16 \<Longrightarrow> be_block (be_value c) = c"
proof (rule nth_equalityI)
  fix i assume "length c = 16" "i < length (be_block (be_value c))"
  then have i: "i < 16" "16 - (15 - i) = Suc i" and len: "length c = 16" by (simp_all add: be_block_def)
  have "be_value c div 256 ^ (15 - i) = be_value (take i c) * 256 + unat (c ! i)"
    using i len be_value_div [of c "15 - i"] by (simp add: take_Suc_conv_app_nth)
  then have "of_nat (be_value c div 256 ^ (15 - i)) = (of_nat (be_value (take i c)) * 256 + c ! i :: u8)" by simp
  also have "(256 :: u8) = 0" by simp
  finally show "be_block (be_value c) ! i = c ! i" using i by (simp add: be_block_def)
qed (simp add: be_block_def)

lemma increment_from_value:
  assumes "n \<le> length c"
  shows "length (increment_from n c) = length c \<and> drop n (increment_from n c) = drop n c \<and>
    be_value (take n (increment_from n c)) = (be_value (take n c) + 1) mod 256 ^ n"
  using assms
proof (induction n arbitrary: c)
  case (Suc i)
  let ?c = "c[i := c ! i + 1]"
  have i: "i < length c" and tk: "take (Suc i) c = take i c @ [c ! i]" "take (Suc i) ?c = take i c @ [c ! i + 1]"
    using Suc.prems by (simp_all add: take_Suc_conv_app_nth)
  show ?case
  proof (cases "c ! i + 1 = 0")
    case False
    then have u: "unat (c ! i + 1) = unat (c ! i) + 1" using unatSuc [of "c ! i"] by (simp add: add.commute)
    have "be_value (take i c) * 256 + unat (c ! i) + 1 < 256 ^ Suc i"
      using be_value_less [of "take (Suc i) ?c"] i by (simp add: tk u)
    then show ?thesis using False i by (simp add: tk u Let_def)
  next
    case True
    have "c ! i = - 1" using True by (simp add: eq_neg_iff_add_eq_0)
    then have "unat (c ! i) = 255" by (simp add: unsigned_minus_1_eq_mask mask_eq_exp_minus_1)
    then have "(be_value (take (Suc i) c) + 1) mod 256 ^ Suc i = ((be_value (take i c) + 1) * 256) mod (256 ^ i * 256)"
      by (simp add: tk algebra_simps)
    then have val: "(be_value (take (Suc i) c) + 1) mod 256 ^ Suc i = ((be_value (take i c) + 1) mod 256 ^ i) * 256"
      by (simp only: mult_mod_left)
    have IH: "length (increment_from i ?c) = length c" "drop i (increment_from i ?c) = drop i ?c"
      "be_value (take i (increment_from i ?c)) = (be_value (take i c) + 1) mod 256 ^ i"
      using Suc.IH [of ?c] i by simp_all
    have "increment_from i ?c ! i = 0" using IH(2) i True by (metis Cons_nth_drop_Suc IH(1) length_list_update list.inject nth_list_update_eq)
    then have "take (Suc i) (increment_from i ?c) = take i (increment_from i ?c) @ [0]"
      using i IH(1) by (simp add: take_Suc_conv_app_nth)
    moreover have "drop (Suc i) (increment_from i ?c) = drop (Suc i) c"
      using IH(2) by (metis drop_Suc drop_update_cancel lessI tl_drop)
    ultimately show ?thesis using True i IH val by (simp add: Let_def)
  qed
qed simp

lemma aes_increment_counter_be_value:
  assumes "length c = 16"
  shows "length (aes_increment_counter_be c) = 16" "be_value (aes_increment_counter_be c) = (be_value c + 1) mod 2 ^ 128"
proof -
  note inc = increment_from_value [of 16 c]
  show len: "length (aes_increment_counter_be c) = 16"
    using inc [THEN conjunct1] assms by (simp add: aes_increment_counter_be_def)
  show "be_value (aes_increment_counter_be c) = (be_value c + 1) mod 2 ^ 128"
    using inc [THEN conjunct2, THEN conjunct2] len assms by (simp add: aes_increment_counter_be_def)
qed

lemma be_block_mod: "be_block (v mod 2 ^ 128) = be_block v"
proof -
  have "(of_nat (v mod 2 ^ 128 div 256 ^ (15 - i)) :: u8) = of_nat (v div 256 ^ (15 - i))" for i
  proof -
    have e: "(256 :: nat) ^ (15 - i) = 2 ^ (8 * (15 - i))" by (simp add: power_mult)
    have "8 * (15 - i) + 8 \<le> 128" by simp
    then have "take_bit 8 (drop_bit (8 * (15 - i)) (take_bit 128 v)) = take_bit 8 (drop_bit (8 * (15 - i)) v)"
      by (simp add: drop_bit_take_bit)
    then show ?thesis unfolding e by (simp only: word_of_nat_eq_iff len_bit0 len_num1 drop_bit_eq_div take_bit_eq_mod) simp
  qed
  then show ?thesis by (simp add: be_block_def)
qed

lemma length_be_block [simp]: "length (be_block v) = 16"
  by (simp add: be_block_def)

lemma aes_increment_be_block:
  assumes "length c = 16"
  shows "aes_increment_counter_be c = be_block (be_value c + 1)"
  using be_block_value [OF aes_increment_counter_be_value(1) [OF assms]]
  unfolding aes_increment_counter_be_value(2) [OF assms] be_block_mod by (rule sym)

section \<open>The modes\<close>

lemma xor_block_nth:
  assumes "off + n \<le> length data"
  shows "length (xor_block stream off n data) = length data \<and>
    (\<forall>k < length data. xor_block stream off n data ! k =
       (if off \<le> k \<and> k < off + n then data ! k XOR stream ! (k - off) else data ! k))"
  using assms
proof (induction n)
  case (Suc n)
  let ?d = "xor_block stream off n data"
  have IH: "length ?d = length data" "\<forall>k < length data. ?d ! k =
      (if off \<le> k \<and> k < off + n then data ! k XOR stream ! (k - off) else data ! k)" using Suc by simp_all
  have "xor_block stream off (Suc n) data = ?d[off + n := ?d ! (off + n) XOR stream ! n]" by (simp add: xor_block_def)
  then show ?case using IH Suc.prems by (auto simp: nth_list_update less_Suc_eq)
qed (auto simp: xor_block_def)

text \<open>Counter mode adds the cipher of the counter, advanced once per block, to the first \<open>len\<close> bytes.\<close>

definition ctr_byte :: "u8 list \<Rightarrow> nat \<Rightarrow> u8 list \<Rightarrow> nat \<Rightarrow> u8" where
  "ctr_byte rk n counter k = Cipher rk n (be_block (be_value counter + k div 16)) ! (k mod 16)"

lemma be_value_digits: "be_value (map (\<lambda>i. of_nat (v div 256 ^ (n - 1 - i))) [0..<n]) = v mod 256 ^ n"
proof (induction n arbitrary: v)
  case (Suc n)
  let ?f = "\<lambda>i. of_nat (v div 256 ^ (Suc n - 1 - i)) :: u8"
  have front: "map ?f [0..<n] = map (\<lambda>i. of_nat (v div 256 div 256 ^ (n - 1 - i))) [0..<n]"
    by (rule map_cong [OF refl]) (simp add: div_mult2_eq [symmetric] power_Suc [symmetric] Suc_diff_Suc del: power_Suc)
  have "be_value (map ?f [0..<Suc n]) = be_value (map ?f [0..<n]) * 256 + unat (?f n)" by simp
  also have "\<dots> = (v div 256 mod 256 ^ n) * 256 + v mod 256"
    unfolding front Suc.IH by (simp add: unsigned_of_nat take_bit_eq_mod)
  finally show ?case by (simp add: mod_mult2_eq)
qed simp

lemma be_value_block: "be_value (be_block v) = v mod 2 ^ 128"
proof -
  have "be_block v = map (\<lambda>i. of_nat (v div 256 ^ (16 - 1 - i))) [0..<16]" by (simp add: be_block_def)
  then have "be_value (be_block v) = v mod 256 ^ 16" by (simp only: be_value_digits)
  then show ?thesis by simp
qed

lemma be_block_step: "aes_increment_counter_be (be_block v) = be_block (Suc v)"
proof -
  have "aes_increment_counter_be (be_block v) = be_block ((v mod 2 ^ 128 + 1) mod 2 ^ 128)"
    unfolding aes_increment_be_block [OF length_be_block] be_value_block by (rule be_block_mod [symmetric])
  also have "(v mod 2 ^ 128 + 1) mod 2 ^ 128 = Suc v mod 2 ^ 128" unfolding Suc_eq_plus1 by (rule mod_add_left_eq)
  finally show ?thesis by (simp only: be_block_mod)
qed

lemma ctr_blocks:
  assumes "length counter = 16" "len \<le> length data" "16 * n < len + 16"
  shows "fst (fold (ctr_step rk r len) [0..<n] (counter, data)) = be_block (be_value counter + n) \<and>
    length (snd (fold (ctr_step rk r len) [0..<n] (counter, data))) = length data \<and>
    (\<forall>k < length data. snd (fold (ctr_step rk r len) [0..<n] (counter, data)) ! k =
       (if k < min len (16 * n) then data ! k XOR ctr_byte rk r counter k else data ! k))"
  using assms(3)
proof (induction n)
  case 0
  then show ?case using assms(1) by (simp add: be_block_value)
next
  case (Suc n)
  obtain c d where cd: "fold (ctr_step rk r len) [0..<n] (counter, data) = (c, d)" by fastforce
  have c: "c = be_block (be_value counter + n)" and d: "length d = length data"
    "\<And>k. k < length data \<Longrightarrow> d ! k = (if k < min len (16 * n) then data ! k XOR ctr_byte rk r counter k else data ! k)"
    using Suc.IH Suc.prems cd by simp_all
  let ?m = "min (len - n * 16) 16"
  have fit: "n * 16 + ?m \<le> length d" using assms(2) d(1) Suc.prems by simp
  have step: "fold (ctr_step rk r len) [0..<Suc n] (counter, data) =
      (aes_increment_counter_be c, xor_block (Cipher rk r c) (n * 16) ?m d)"
    by (simp add: cd ctr_step_def Let_def)
  have "xor_block (Cipher rk r c) (n * 16) ?m d ! k =
      (if k < min len (16 * Suc n) then data ! k XOR ctr_byte rk r counter k else data ! k)" if k: "k < length data" for k
  proof (cases "n * 16 \<le> k \<and> k < n * 16 + ?m")
    case True
    then have "k div 16 = n" by (intro div_nat_eqI) auto
    then have "k div 16 = n" "k mod 16 = k - n * 16" by (simp_all flip: minus_div_mult_eq_mod)
    then have "Cipher rk r c ! (k - n * 16) = ctr_byte rk r counter k" by (simp add: ctr_byte_def c)
    moreover have "k < len" "\<not> k < 16 * n" "k < 16 * Suc n" using True by auto
    ultimately show ?thesis using xor_block_nth [OF fit] d k True by simp
  next
    case False
    then have "(k < min len (16 * Suc n)) = (k < min len (16 * n))" by auto
    moreover have "xor_block (Cipher rk r c) (n * 16) ?m d ! k = d ! k"
      using xor_block_nth [OF fit, of "Cipher rk r c"] d(1) k False by (metis (no_types, lifting))
    ultimately show ?thesis using d(2) [OF k] by (simp only:)
  qed
  moreover have "aes_increment_counter_be c = be_block (be_value counter + Suc n)"
    unfolding c be_block_step by (simp only: add_Suc_right)
  ultimately show ?case unfolding step using xor_block_nth [OF fit] d(1) by simp
qed

lemma ctr_value:
  assumes "aes_params_for_key_size key_size = Some params" "length counter = 16" "len \<le> length data"
  shows "aes_ctr_xcrypt_bytes counter key data key_size len =
    map (\<lambda>k. if k < len then data ! k XOR ctr_byte (round_keys key params) (nr params) counter k else data ! k) [0..<length data]"
proof -
  let ?n = "(len + 15) div 16"
  have "len \<le> 16 * ?n" "16 * ?n < len + 16" by linarith+
  then have "min len (16 * ?n) = len" by simp
  with ctr_blocks [OF assms(2,3) \<open>16 * ?n < len + 16\<close>, of "round_keys key params" "nr params"]
  show ?thesis using assms(1) by (intro nth_equalityI) (simp_all add: aes_ctr_xcrypt_bytes_def)
qed

text \<open>Writing blocks one after the other, in output feedback and block-by-block decryption.\<close>

lemma fold_copy_blocks:
  assumes "\<And>i. i < n \<Longrightarrow> length (f i) = 16" "16 * n \<le> length out"
  shows "fold (\<lambda>i out. copy_into out (i * 16) (f i)) [0..<n] out = concat (map f [0..<n]) @ drop (16 * n) out"
  using assms
proof (induction n)
  case (Suc n)
  have len: "length (concat (map f [0..<n])) = 16 * n" using Suc.prems(1) by (induction n) simp_all
  have "fold (\<lambda>i out. copy_into out (i * 16) (f i)) [0..<n] out = concat (map f [0..<n]) @ drop (16 * n) out"
    using Suc by simp
  moreover have "length (f n) = 16" using Suc.prems by simp
  ultimately show ?case using len by (simp add: copy_into_def mult.commute add.commute)
qed simp

lemma ofb_value:
  assumes "aes_params_for_key_size key_size = Some params" "16 * n \<le> length out"
  shows "aes_ofb_keystream_output iv key out key_size n =
    concat (map (\<lambda>i. (Cipher (round_keys key params) (nr params) ^^ Suc i) iv) [0..<n]) @ drop (16 * n) out"
proof -
  let ?c = "Cipher (round_keys key params) (nr params)"
  have "fold (ofb_step (round_keys key params) (nr params)) [0..<n] (iv, out) =
      ((?c ^^ n) iv, fold (\<lambda>i out. copy_into out (i * 16) ((?c ^^ Suc i) iv)) [0..<n] out)"
    by (induction n) (simp_all add: ofb_step_def Let_def)
  then show ?thesis using assms by (simp add: aes_ofb_keystream_output_def fold_copy_blocks del: funpow.simps) (simp add: fold_copy_blocks)
qed

definition blocks16 :: "(u8 list \<Rightarrow> u8 list) \<Rightarrow> nat \<Rightarrow> u8 list \<Rightarrow> u8 list" where
  "blocks16 f n data = concat (map (\<lambda>i. f (take 16 (drop (i * 16) data))) [0..<n])"

lemma ecb_value:
  assumes "aes_params_for_key_size key_size = Some params" "16 * n \<le> length out"
  shows "aes_ecb_decrypt_blocks inp key out key_size n =
    blocks16 (InvCipher (round_keys key params) (nr params)) n inp @ drop (16 * n) out"
  using assms fold_copy_blocks [of n "\<lambda>i. InvCipher (round_keys key params) (nr params) (take 16 (drop (i * 16) inp))" out]
  by (simp add: aes_ecb_decrypt_blocks_def ecb_step_def [abs_def] Let_def blocks16_def)

lemma length_blocks16: "(\<And>x. length (f x) = 16) \<Longrightarrow> length (blocks16 f n data) = 16 * n"
  by (induction n) (simp_all add: blocks16_def)

lemma blocks16_block:
  assumes "\<And>x. length (f x) = 16" "i < n"
  shows "take 16 (drop (i * 16) (blocks16 f n data)) = f (take 16 (drop (i * 16) data))"
  using assms(2)
proof (induction n)
  case (Suc n)
  have split: "blocks16 f (Suc n) data = blocks16 f n data @ f (take 16 (drop (n * 16) data))" by (simp add: blocks16_def)
  have len: "length (blocks16 f n data) = n * 16" using length_blocks16 [of f, OF assms(1)] by (simp add: mult.commute)
  show ?case
  proof (cases "i = n")
    case False
    then have "i < n" "i * 16 + 16 \<le> n * 16" using Suc.prems by simp_all
    then show ?thesis using Suc.IH len by (simp add: split)
  qed (use len assms(1) in \<open>simp add: split\<close>)
qed simp

lemma blocks16_id: "length data = 16 * n \<Longrightarrow> concat (map (\<lambda>i. take 16 (drop (i * 16) data)) [0..<n]) = data"
proof (induction n arbitrary: data)
  case (Suc n)
  have "map (\<lambda>i. take 16 (drop (i * 16) data)) [0..<n] = map (\<lambda>i. take 16 (drop (i * 16) (take (16 * n) data))) [0..<n]"
    by (rule map_cong [OF refl]) (simp add: drop_take min_def)
  then have "concat (map (\<lambda>i. take 16 (drop (i * 16) data)) [0..<n]) = take (16 * n) data"
    using Suc.IH [of "take (16 * n) data"] Suc.prems by (simp only:) simp
  then show ?case using Suc.prems by (simp add: mult.commute)
qed simp

lemma ecb_in_place:
  assumes "16 * n \<le> length data"
  shows "fold (\<lambda>i d. ecb_step rk r d i d) [0..<n] data = fold (ecb_step rk r data) [0..<n] data"
  using assms
proof (induction n)
  case (Suc n)
  let ?b = "\<lambda>i. InvCipher rk r (take 16 (drop (i * 16) data))"
  let ?cur = "fold (ecb_step rk r data) [0..<n] data"
  have "?cur = concat (map ?b [0..<n]) @ drop (16 * n) data"
    using fold_copy_blocks [of n ?b data] Suc.prems by (simp add: ecb_step_def [abs_def] Let_def)
  moreover have "length (concat (map ?b [0..<n])) = n * 16" by (induction n) simp_all
  ultimately have "drop (n * 16) ?cur = drop (n * 16) data" by (simp add: mult.commute)
  then have "ecb_step rk r ?cur n ?cur = ecb_step rk r data n ?cur" by (simp add: ecb_step_def)
  then show ?case using Suc by simp
qed simp

section \<open>Properties\<close>

text \<open>
  The key schedule obeys the recurrence of the standard for every key size: the first words
  of the expanded key are the key, every later word is the sum of the word \<open>nk\<close> places before
  and the transformed previous word, and all of it lies within the 240 bytes.
\<close>

lemma KeyExpansion_recurrence:
  assumes "aes_params_for_key_size key_size = Some params"
  shows "schedule_ok key (nk params) (4 * (nr params + 1)) (round_keys key params)"
proof -
  have valid: "aes_key_schedule_params_valid (nk params) (nr params) (4 * (nr params + 1))"
    and n: "0 < nk params" "nk params \<le> 4 * (nr params + 1)" "4 * (nr params + 1) \<le> 60"
    using assms by (auto simp: aes_params_for_key_size_def aes_key_schedule_params_valid_def split: if_splits)
  let ?rk = "fold (copy_word key) [0..<nk params] (replicate 240 0)"
  have "schedule_ok key (nk params) (nk params) ?rk" using n by (intro schedule_copy) simp_all
  from schedule_expand [OF this n(1), of "4 * (nr params + 1) - nk params"] n
  have "schedule_ok key (nk params) (4 * (nr params + 1)) (fold (expand_word (nk params)) [nk params..<4 * (nr params + 1)] ?rk)"
    by simp
  then show ?thesis using valid by (simp add: round_keys_def KeyExpansion_def Let_def)
qed

text \<open>
  C6. Decryption block by block undoes the cipher, for every key size and number of blocks, also
  when the output buffer is the input buffer; the bytes after the blocks stay.
\<close>

theorem aes_ecb_roundtrip:
  fixes key :: "u8 list"
  assumes "aes_params_for_key_size key_size = Some params" "length plain = 16 * n" "16 * n \<le> length out"
  defines "rk \<equiv> round_keys key params" and "cipher \<equiv> blocks16 (Cipher (round_keys key params) (nr params)) n plain"
  shows "aes_ecb_decrypt_blocks cipher key out key_size n = plain @ drop (16 * n) out \<and>
    fold (\<lambda>i data. ecb_step rk (nr params) data i data) [0..<n] cipher = plain"
proof -
  let ?c = "Cipher rk (nr params)" and ?d = "InvCipher rk (nr params)"
  have r: "0 < nr params" using assms(1) by (auto simp: aes_params_for_key_size_def split: if_splits)
  have "?d (take 16 (drop (i * 16) cipher)) = take 16 (drop (i * 16) plain)" if i: "i < n" for i
  proof -
    have "length (take 16 (drop (i * 16) plain)) = 16" using assms(2) i by simp
    then show ?thesis using blocks16_block [of ?c i n plain] i InvCipher_Cipher [OF _ r] by (simp add: cipher_def rk_def)
  qed
  then have "blocks16 ?d n cipher = concat (map (\<lambda>i. take 16 (drop (i * 16) plain)) [0..<n])"
    unfolding blocks16_def [of ?d] by (intro arg_cong [of _ _ concat] map_cong) simp_all
  then have plain: "blocks16 ?d n cipher = plain" using blocks16_id [OF assms(2)] by simp
  have len: "length cipher = 16 * n" using length_blocks16 [of "Cipher (round_keys key params) (nr params)"] by (simp add: cipher_def)
  have dec: "aes_ecb_decrypt_blocks cipher key o' key_size n = plain @ drop (16 * n) o'" if "16 * n \<le> length o'" for o'
    using ecb_value [OF assms(1) that] plain by (simp add: rk_def)
  have "fold (\<lambda>i data. ecb_step rk (nr params) data i data) [0..<n] cipher = aes_ecb_decrypt_blocks cipher key cipher key_size n"
    using ecb_in_place [of n cipher rk "nr params"] len assms(1) by (simp add: aes_ecb_decrypt_blocks_def rk_def)
  then show ?thesis using dec [of out] dec [of cipher] len assms(3) by simp
qed

theorem aes_ecb_roundtrip_witness:
  "aes_ecb_decrypt_blocks (blocks16 (Cipher (round_keys (replicate 16 7) \<lparr>nk = 4, nr = 10\<rparr>) 10) 2 (replicate 32 5))
     (replicate 16 7) (replicate 40 1) 128 2 = replicate 32 5 @ replicate 8 1"
  using aes_ecb_roundtrip [of 128 "\<lparr>nk = 4, nr = 10\<rparr>" "replicate 32 5" 2 "replicate 40 1" "replicate 16 7"]
  by (simp add: aes_params_for_key_size_def)

text \<open>
  C7. Counter mode adds to byte \<open>k\<close> of the data byte \<open>k mod 16\<close> of the cipher of the counter
  advanced \<open>k div 16\<close> times as a big-endian number of 128 bits, and leaves what is after
  \<open>len\<close>; so applying it twice restores the data. An unknown key size changes nothing.
\<close>

theorem aes_ctr_stream:
  fixes key :: "u8 list" and key_size :: nat
  assumes "length counter = 16" "len \<le> length data"
  defines "crypt \<equiv> \<lambda>d. aes_ctr_xcrypt_bytes counter key d key_size len"
  shows "(case aes_params_for_key_size key_size of None \<Rightarrow> crypt data = data
    | Some params \<Rightarrow> crypt data = map (\<lambda>k. if k < len then data ! k XOR
        Cipher (round_keys key params) (nr params) (be_block (be_value counter + k div 16)) ! (k mod 16) else data ! k) [0..<length data])
    \<and> crypt (crypt data) = data"
proof (cases "aes_params_for_key_size key_size")
  case None
  then show ?thesis by (simp add: crypt_def aes_ctr_xcrypt_bytes_def)
next
  case (Some params)
  have val: "crypt d = map (\<lambda>k. if k < len then d ! k XOR ctr_byte (round_keys key params) (nr params) counter k else d ! k) [0..<length d]"
    if "len \<le> length d" for d
    unfolding crypt_def by (rule ctr_value [OF Some assms(1) that])
  have "crypt (crypt data) = data"
    using val [OF assms(2)] val [of "crypt data"] assms(2) by (intro nth_equalityI) (simp_all add: xor.assoc)
  then show ?thesis using Some val [OF assms(2)] by (simp add: ctr_byte_def)
qed

theorem aes_ctr_stream_witness:
  "aes_ctr_xcrypt_bytes (replicate 16 255) (replicate 16 3)
     (aes_ctr_xcrypt_bytes (replicate 16 255) (replicate 16 3) (replicate 40 9) 128 37) 128 37 = replicate 40 9"
  using aes_ctr_stream [of "replicate 16 255" 37 "replicate 40 9" "replicate 16 3" 128, THEN conjunct2] by simp

end
