(* ===== verification/Lfsr.thy ===== *)
theory Lfsr
  imports Bit_Words
begin

text \<open>
  The feedback shift registers that derive message indicators and initialisation vectors:
  \<open>src/protocol/p25/p25_lfsr.c\<close>, \<open>src/protocol/nxdn/nxdn_lfsr.c\<close>, \<open>src/crypto/dmr_mi.c\<close> and
  \<open>src/crypto/nxdn_keystream.c\<close>. The fields of the decoder state these files use are the record
  \<open>mi_state\<close>. The diagnostic prints are left out.
\<close>

section \<open>Model\<close>

record mi_state =
  currentslot :: int
  payload_miP :: u64
  payload_miN :: u64
  aes_iv :: "u8 list"
  aes_ivR :: "u8 list"

text \<open>The feedback bit of the 64-bit register and one shift.\<close>

definition bit64 :: "u64 \<Rightarrow> u64" where
  "bit64 lfsr = (drop_bit 63 lfsr XOR drop_bit 61 lfsr XOR drop_bit 45 lfsr XOR drop_bit 37 lfsr XOR drop_bit 26 lfsr XOR
     drop_bit 14 lfsr) AND 1"

definition step64 :: "u64 \<Rightarrow> u64" where
  "step64 lfsr = push_bit 1 lfsr OR bit64 lfsr"

definition p25_lfsr_advance_64 :: "u64 \<Rightarrow> u64" where
  "p25_lfsr_advance_64 lfsr = (step64 ^^ 64) lfsr"

definition LFSRP :: "mi_state \<Rightarrow> mi_state" where
  "LFSRP state =
     (let lfsr = 0;
          lfsr = (if currentslot state = 0 then payload_miP state else lfsr);
          lfsr = (if currentslot state = 1 then payload_miN state else lfsr);
          lfsr = p25_lfsr_advance_64 lfsr;
          state = (if currentslot state = 0 then state\<lparr>payload_miP := lfsr\<rparr> else state)
      in if currentslot state = 1 then state\<lparr>payload_miN := lfsr\<rparr> else state)"

definition p25_lfsr128_store_seed_bytes :: "u64 \<Rightarrow> u8 list \<Rightarrow> u8 list" where
  "p25_lfsr128_store_seed_bytes lfsr iv =
     iv[0 := ucast (drop_bit 56 lfsr AND 0xFF), 1 := ucast (drop_bit 48 lfsr AND 0xFF),
        2 := ucast (drop_bit 40 lfsr AND 0xFF), 3 := ucast (drop_bit 32 lfsr AND 0xFF),
        4 := ucast (drop_bit 24 lfsr AND 0xFF), 5 := ucast (drop_bit 16 lfsr AND 0xFF),
        6 := ucast (drop_bit 8 lfsr AND 0xFF), 7 := ucast (drop_bit 0 lfsr AND 0xFF)]"

definition store_feedback :: "nat \<Rightarrow> u64 \<times> u8 list \<Rightarrow> u64 \<times> u8 list" where
  "store_feedback cnt li =
     (case li of (lfsr, iv) \<Rightarrow>
        let b = bit64 lfsr; x = 64 + cnt
        in (push_bit 1 lfsr OR b, iv[x div 8 := push_bit 1 (iv ! (x div 8)) + ucast b]))"

definition p25_lfsr128_store_feedback_bytes :: "u64 \<Rightarrow> u8 list \<Rightarrow> u8 list" where
  "p25_lfsr128_store_feedback_bytes lfsr iv = snd (fold store_feedback [0..<64] (lfsr, iv))"

definition p25_lfsr128_slot :: "int \<Rightarrow> mi_state \<Rightarrow> mi_state" where
  "p25_lfsr128_slot slot state =
     (if slot \<noteq> 0 \<and> slot \<noteq> 1 then state
      else let lfsr = (if slot = 0 then payload_miP state else payload_miN state);
               iv = (if slot = 0 then aes_iv state else aes_ivR state);
               iv = p25_lfsr128_store_feedback_bytes lfsr (p25_lfsr128_store_seed_bytes lfsr iv)
           in if slot = 0 then state\<lparr>aes_iv := iv\<rparr> else state\<lparr>aes_ivR := iv\<rparr>)"

definition LFSR128 :: "mi_state \<Rightarrow> mi_state" where
  "LFSR128 state = p25_lfsr128_slot (currentslot state) state"

text \<open>NXDN: the fifteen-bit scrambler of voice frames, and its own copy of the 128-bit expansion.\<close>

definition lfsrn_step :: "u8 list \<Rightarrow> nat \<Rightarrow> u32 \<times> u8 list \<Rightarrow> u32 \<times> u8 list" where
  "lfsrn_step BufferIn i lo =
     (case lo of (lfsr, BufferOut) \<Rightarrow>
        let pn = lfsr AND 1; b = (drop_bit 1 lfsr XOR drop_bit 0 lfsr) AND 1
        in (drop_bit 1 lfsr OR push_bit 14 b, BufferOut[i := BufferIn ! i XOR ucast pn]))"

definition LFSRN :: "u8 list \<Rightarrow> u8 list \<Rightarrow> mi_state \<Rightarrow> u8 list \<times> mi_state" where
  "LFSRN BufferIn BufferOut state =
     (let (lfsr, BufferOut) = fold (lfsrn_step BufferIn) [0..<49] (ucast (payload_miN state AND 0x7FFF), BufferOut)
      in (BufferOut, state\<lparr>payload_miN := ucast (lfsr AND 0x7FFF)\<rparr>))"

definition LFSR128n :: "mi_state \<Rightarrow> mi_state" where
  "LFSR128n state =
     (let lfsr = payload_miN state
      in state\<lparr>aes_iv := snd (fold store_feedback [0..<64] (lfsr, p25_lfsr128_store_seed_bytes lfsr (aes_iv state)))\<rparr>)"

definition scrambler_step :: "nat \<Rightarrow> u16 \<times> u8 list \<Rightarrow> u16 \<times> u8 list" where
  "scrambler_step i rk =
     (case rk of (reg, ks) \<Rightarrow>
        let ks = ks[i := ucast (reg AND 1)]; b = (drop_bit 1 reg XOR reg) AND 1
        in (drop_bit 1 reg OR push_bit 14 b, ks))"

definition nxdn_pdu_scrambler_keystream_creation :: "u8 list \<Rightarrow> u32 \<Rightarrow> nat \<Rightarrow> u8 list" where
  "nxdn_pdu_scrambler_keystream_creation ks lfsr len_bits =
     snd (fold scrambler_step [0..<len_bits] (ucast lfsr AND 0x7FFF, ks))"

definition iv_octet_step :: "nat \<Rightarrow> u64 \<times> u8 \<Rightarrow> u64 \<times> u8" where
  "iv_octet_step j lo =
     (case lo of (lfsr, octet) \<Rightarrow> let b = bit64 lfsr in (push_bit 1 lfsr OR b, push_bit 1 octet OR ucast b))"

definition nxdn_lfsr128_expand_iv_from_mi64 :: "u64 \<Rightarrow> u8 list \<Rightarrow> u8 list" where
  "nxdn_lfsr128_expand_iv_from_mi64 mi out =
     (let out = fold (\<lambda>i out. out[i := ucast (drop_bit (56 - i * 8) mi)]) [0..<8] out
      in snd (fold (\<lambda>i (lfsr, out).
              let (lfsr, octet) = fold iv_octet_step [0..<8] (lfsr, 0) in (lfsr, out[i := octet])) [8..<16] (mi, out)))"

text \<open>DMR: the 32-bit message indicator.\<close>

definition dmr_mi_step :: "u64 \<Rightarrow> u64" where
  "dmr_mi_step lfsr = push_bit 1 lfsr OR ((drop_bit 31 lfsr XOR drop_bit 3 lfsr XOR drop_bit 1 lfsr) AND 1)"

definition dmr_mi_advance32 :: "u32 \<Rightarrow> u32" where
  "dmr_mi_advance32 mi = ucast ((dmr_mi_step ^^ 32) (ucast mi))"

definition dmr_octet_step :: "nat \<Rightarrow> u32 \<times> u8 \<Rightarrow> u32 \<times> u8" where
  "dmr_octet_step j lo =
     (case lo of (lfsr, octet) \<Rightarrow>
        let b = (drop_bit 31 lfsr XOR drop_bit 21 lfsr XOR drop_bit 1 lfsr XOR lfsr) AND 1
        in (push_bit 1 lfsr OR b, push_bit 1 octet OR ucast b))"

definition dmr_aes_expand_iv :: "u32 \<Rightarrow> u8 list \<Rightarrow> u32 \<times> u8 list" where
  "dmr_aes_expand_iv mi iv =
     (let iv = fold (\<lambda>i iv. iv[i := ucast (drop_bit (24 - 8 * i) mi)]) [0..<4] iv;
          iv = snd (fold (\<lambda>i (lfsr, iv).
              let (lfsr, octet) = fold dmr_octet_step [0..<8] (lfsr, 0) in (lfsr, iv[i := octet])) [4..<16] (mi, iv))
      in (push_bit 24 (ucast (iv ! 4)) OR push_bit 16 (ucast (iv ! 5)) OR push_bit 8 (ucast (iv ! 6)) OR ucast (iv ! 7), iv))"

definition dmr_des_step :: "u64 \<Rightarrow> u64" where
  "dmr_des_step lfsr = push_bit 1 lfsr OR ((drop_bit 31 lfsr XOR drop_bit 21 lfsr XOR drop_bit 1 lfsr XOR lfsr) AND 1)"

definition dmr_des_expand_iv :: "u32 \<Rightarrow> u64" where
  "dmr_des_expand_iv mi = (dmr_des_step ^^ 32) (ucast mi)"

section \<open>Feedback registers\<close>

text \<open>The interface of a register that shifts left and feeds a bit in at the low end.\<close>

locale shift_register =
  fixes step :: "'a::len word \<Rightarrow> 'a word" and fb :: "'a word \<Rightarrow> bool"
  assumes step: "step x = msb_shift (fb x) x"
begin

lemma step_bit: "bit (step x) i \<longleftrightarrow> (if i = 0 then fb x else i < LENGTH('a) \<and> bit x (i - 1))"
  by (simp add: step bit_msb_shift)

lemma run_bit: "i < LENGTH('a) \<Longrightarrow> bit ((step ^^ n) x) i \<longleftrightarrow> (if i < n then fb ((step ^^ (n - 1 - i)) x) else bit x (i - n))"
proof (induction n arbitrary: i)
  case (Suc n)
  show ?case
  proof (cases i)
    case (Suc k)
    then have "bit ((step ^^ Suc n) x) i = bit ((step ^^ n) x) k" using Suc.prems by (simp add: step_bit)
    then show ?thesis using Suc.IH [of k] Suc.prems Suc by simp
  qed (simp add: step_bit)
qed simp

lemma octet: "fold (\<lambda>j (l, octet). (step l, msb_shift (fb l) octet)) [0..<n] (l, octet) =
    ((step ^^ n) l, fold msb_shift (map (\<lambda>k. fb ((step ^^ k) l)) [0..<n]) octet)"
  by (induction n) simp_all

text \<open>Filling the bytes from \<open>a\<close> on, eight steps for each.\<close>

lemma octets:
  assumes "length out = 16" "a + n \<le> 16"
  shows "fold (\<lambda>i (l, out). let (l, octet) = fold (\<lambda>j (l, octet). (step l, msb_shift (fb l) octet)) [0..<8] (l, 0)
        in (l, out[i := octet])) [a..<a + n] (x, out) =
    ((step ^^ (8 * n)) x, map (\<lambda>b. if a \<le> b \<and> b < a + n
       then msb_word (map (\<lambda>k. fb ((step ^^ k) x)) [8 * (b - a)..<8 * (b - a) + 8]) else out ! b) [0..<16])"
    (is "fold ?f _ _ = (_, map (?g n) _)")
  using assms(2)
proof (induction n)
  case 0
  have "map (?g 0) [0..<16] = out" using assms(1) by (intro nth_equalityI) auto
  then show ?case by simp
next
  case (Suc n)
  let ?l = "(step ^^ (8 * n)) x"
  have "map (\<lambda>k. fb ((step ^^ k) ?l)) [0..<8] = map (\<lambda>k. fb ((step ^^ k) x)) [8 * n..<8 * n + 8]"
    by (rule nth_equalityI) (simp_all add: funpow_add [THEN fun_cong, unfolded comp_def, symmetric] add.commute)
  moreover have "(step ^^ 8) ?l = (step ^^ (8 * Suc n)) x"
    by (simp only: funpow_add [THEN fun_cong, unfolded comp_def, symmetric] mult_Suc_right)
  ultimately have oct: "fold (\<lambda>j (l, octet). (step l, msb_shift (fb l) octet)) [0..<8] (?l, 0) =
      ((step ^^ (8 * Suc n)) x, msb_word (map (\<lambda>k. fb ((step ^^ k) x)) [8 * n..<8 * n + 8]))"
    by (simp only: octet msb_word_def)
  have "(map (?g n) [0..<16])[a + n := msb_word (map (\<lambda>k. fb ((step ^^ k) x)) [8 * n..<8 * n + 8])] = map (?g (Suc n)) [0..<16]"
    using Suc.prems by (intro nth_equalityI) (auto simp: nth_list_update)
  moreover have "fold ?f [a..<a + n] (x, out) = (?l, map (?g n) [0..<16])" using Suc by simp
  ultimately show ?case by (simp add: oct del: funpow.simps)
qed

end

text \<open>
  Where the fed bit depends on the bit that falls out, no two contents have the same successor.
\<close>

locale feedback_register = shift_register step fb for step :: "'a::len word \<Rightarrow> 'a word" and fb +
  assumes top: "\<forall>i < LENGTH('a) - 1. bit x i = bit y i \<Longrightarrow> bit x (LENGTH('a) - 1) \<noteq> bit y (LENGTH('a) - 1) \<Longrightarrow> fb x \<noteq> fb y"
begin

lemma inj_step: "inj step"
proof (rule injI)
  fix x y assume "step x = step y"
  then have eq: "bit (msb_shift (fb x) x) i = bit (msb_shift (fb y) y) i" for i by (simp add: step)
  have low: "bit x i = bit y i" if "i < LENGTH('a) - 1" for i using eq [of "Suc i"] that by (simp add: bit_msb_shift less_diff_conv)
  have "fb x = fb y" using eq [of 0] by (simp add: bit_msb_shift)
  then have "bit x (LENGTH('a) - 1) = bit y (LENGTH('a) - 1)" using top [of x y] low by blast
  then have "bit x i = bit y i" if "i < LENGTH('a)" for i using low [of i] that by (cases "i = LENGTH('a) - 1") simp_all
  then show "x = y" by (intro bit_word_eqI) blast
qed

lemma inj_run: "inj (step ^^ n)"
  by (rule inj_fn [OF inj_step])

end

definition fb64 :: "u64 \<Rightarrow> bool" where
  "fb64 x \<longleftrightarrow> bit x 63 \<noteq> (bit x 61 \<noteq> (bit x 45 \<noteq> (bit x 37 \<noteq> (bit x 26 \<noteq> bit x 14))))"

lemma bit64_eq: "bit64 x = of_bool (fb64 x)"
  unfolding bit64_def and_one_of_bool by (simp add: bit_xor_iff bit_drop_bit_eq fb64_def)

interpretation reg64: feedback_register step64 fb64
proof
  fix x y :: u64
  show "step64 x = msb_shift (fb64 x) x" by (simp add: step64_def bit64_eq msb_shift_def)
  assume "\<forall>i < LENGTH(64) - 1. bit x i = bit y i" "bit x (LENGTH(64) - 1) \<noteq> bit y (LENGTH(64) - 1)"
  then show "fb64 x \<noteq> fb64 y" by (simp add: fb64_def) argo
qed

section \<open>The 128-bit vectors\<close>

definition bytes64 :: "u64 \<Rightarrow> u8 list" where
  "bytes64 w = map (\<lambda>i. ucast (drop_bit (56 - 8 * i) w)) [0..<8]"

lemma length_bytes64 [simp]: "length (bytes64 w) = 8"
  by (simp add: bytes64_def)

text \<open>The octet the register feeds in eight steps.\<close>

definition fed64 :: "u64 \<Rightarrow> nat \<Rightarrow> bool" where
  "fed64 x k = fb64 ((step64 ^^ k) x)"

lemma bytes64_advance:
  assumes "j < 8"
  shows "bytes64 (p25_lfsr_advance_64 x) ! j = msb_word (map (fed64 x) [8 * j..<8 * j + 8])"
proof (rule bit_word_eqI)
  fix i assume "i < LENGTH(8)"
  then have i: "i < 8" by simp
  then have "56 - 8 * j + i < 64" "64 - 1 - (56 - 8 * j + i) = 8 * j + (7 - i)" using assms by simp_all
  then show "bit (bytes64 (p25_lfsr_advance_64 x) ! j) i = bit (msb_word (map (fed64 x) [8 * j..<8 * j + 8]) :: u8) i"
    using assms i reg64.run_bit [of "56 - 8 * j + i" 64 x]
    by (simp add: bytes64_def p25_lfsr_advance_64_def bit_ucast_iff bit_drop_bit_eq bit_msb_word fed64_def)
qed

lemma fold_msb_shift_8: "length bs = 8 \<Longrightarrow> fold msb_shift bs (x :: u8) = msb_word bs"
proof -
  have "bit (fold msb_shift bs x) i \<longleftrightarrow> (if i < length bs then bs ! (length bs - 1 - i) else bit x (i - length bs))" if "i < 8" for i
    using that
  proof (induction bs arbitrary: i rule: rev_induct)
    case (snoc b bs)
    then show ?case by (cases i) (auto simp: bit_msb_shift nth_append)
  qed simp
  then show "length bs = 8 \<Longrightarrow> ?thesis" by (intro bit_word_eqI) (simp add: bit_msb_word)
qed

lemma add_fed: "push_bit 1 c + ucast (bit64 x) = msb_shift (fb64 x) (c :: u8)"
  using add_bit_shift [of "of_bool (fb64 x)" c] by (cases "fb64 x") (simp_all add: bit64_eq)

lemma store_feedback_eq:
  "store_feedback n (l, w) = (step64 l, w[(64 + n) div 8 := msb_shift (fb64 l) (w ! ((64 + n) div 8))])"
  unfolding store_feedback_def Let_def prod.case add_fed step64_def by (rule refl)

lemma store_feedback_run:
  assumes "length iv = 16" "n \<le> 64"
  shows "fst (fold store_feedback [0..<n] (x, iv)) = (step64 ^^ n) x \<and>
    length (snd (fold store_feedback [0..<n] (x, iv))) = 16 \<and>
    (\<forall>b < 16. snd (fold store_feedback [0..<n] (x, iv)) ! b =
       (if b < 8 then iv ! b else fold msb_shift (map (fed64 x) [8 * (b - 8)..<min n (8 * (b - 8) + 8)]) (iv ! b)))"
  using assms(2)
proof (induction n)
  case (Suc n)
  obtain l w where lw: "fold store_feedback [0..<n] (x, iv) = (l, w)" by fastforce
  have l: "l = (step64 ^^ n) x" and w: "length w = 16" "\<And>b. b < 16 \<Longrightarrow> w ! b =
      (if b < 8 then iv ! b else fold msb_shift (map (fed64 x) [8 * (b - 8)..<min n (8 * (b - 8) + 8)]) (iv ! b))"
    using Suc lw by simp_all
  let ?c = "8 + n div 8"
  have c: "(64 + n) div 8 = ?c" "?c < 16" using Suc.prems by auto
  have step: "fold store_feedback [0..<Suc n] (x, iv) = (step64 l, w[?c := msb_shift (fb64 l) (w ! ?c)])"
    by (simp add: lw store_feedback_eq c(1))
  have "w[?c := msb_shift (fb64 l) (w ! ?c)] ! b =
      (if b < 8 then iv ! b else fold msb_shift (map (fed64 x) [8 * (b - 8)..<min (Suc n) (8 * (b - 8) + 8)]) (iv ! b))"
    if b: "b < 16" for b
  proof (cases "b = ?c")
    case True
    then have "min (Suc n) (8 * (b - 8) + 8) = Suc n" "min n (8 * (b - 8) + 8) = n" "8 * (b - 8) \<le> n" by auto
    then show ?thesis using True w c by (simp add: l fed64_def)
  next
    case False
    then have "b \<ge> 8 \<Longrightarrow> [8 * (b - 8)..<min (Suc n) (8 * (b - 8) + 8)] = [8 * (b - 8)..<min n (8 * (b - 8) + 8)]"
      by (cases "n < 8 * (b - 8)") auto
    then show ?thesis using False w b by simp
  qed
  then show ?case unfolding step using w(1) by (simp add: l)
qed (use assms(1) in simp)

lemma ucast_low_byte: "ucast (w AND 0xFF) = (ucast w :: u8)"
  for w :: u64
proof (rule bit_word_eqI)
  have "(0xFF :: u64) = mask 8" by (simp add: mask_eq_exp_minus_1)
  then show "i < LENGTH(8) \<Longrightarrow> bit (ucast (w AND 0xFF) :: u8) i = bit (ucast w :: u8) i" for i
    by (simp only: bit_ucast_iff bit_and_iff bit_mask_iff) auto
qed

lemma seed_bytes:
  assumes "length iv = 16"
  shows "length (p25_lfsr128_store_seed_bytes x iv) = 16" "b < 8 \<Longrightarrow> p25_lfsr128_store_seed_bytes x iv ! b = bytes64 x ! b"
proof -
  show "length (p25_lfsr128_store_seed_bytes x iv) = 16" using assms by (simp add: p25_lfsr128_store_seed_bytes_def)
  assume "b < 8"
  then consider "b = 0" | "b = 1" | "b = 2" | "b = 3" | "b = 4" | "b = 5" | "b = 6" | "b = 7" by linarith
  then show "p25_lfsr128_store_seed_bytes x iv ! b = bytes64 x ! b"
    using assms by cases (simp_all add: p25_lfsr128_store_seed_bytes_def ucast_low_byte bytes64_def)
qed

definition iv128 :: "u64 \<Rightarrow> u8 list" where
  "iv128 mi = bytes64 mi @ bytes64 (p25_lfsr_advance_64 mi)"

lemma iv128_nth:
  "b < 16 \<Longrightarrow> iv128 mi ! b = (if b < 8 then bytes64 mi ! b else msb_word (map (fed64 mi) [8 * (b - 8)..<8 * (b - 8) + 8]))"
  using bytes64_advance [of "b - 8" mi] by (simp add: iv128_def nth_append)

lemma feedback_bytes_iv128:
  assumes "length iv = 16"
  shows "snd (fold store_feedback [0..<64] (mi, p25_lfsr128_store_seed_bytes mi iv)) = iv128 mi"
proof (rule nth_equalityI)
  note run = store_feedback_run [OF seed_bytes(1) [OF assms], of 64 mi mi]
  have len: "length (snd (fold store_feedback [0..<64] (mi, p25_lfsr128_store_seed_bytes mi iv))) = 16" using run by blast
  then show "length (snd (fold store_feedback [0..<64] (mi, p25_lfsr128_store_seed_bytes mi iv))) = length (iv128 mi)"
    by (simp add: iv128_def)
  fix b assume "b < length (snd (fold store_feedback [0..<64] (mi, p25_lfsr128_store_seed_bytes mi iv)))"
  then have b: "b < 16" using len by simp
  then have m: "min 64 (8 * (b - 8) + 8) = 8 * (b - 8) + 8" by simp
  have "snd (fold store_feedback [0..<64] (mi, p25_lfsr128_store_seed_bytes mi iv)) ! b =
      (if b < 8 then bytes64 mi ! b else
        fold msb_shift (map (fed64 mi) [8 * (b - 8)..<8 * (b - 8) + 8]) (p25_lfsr128_store_seed_bytes mi iv ! b))"
    using run b seed_bytes(2) [OF assms] m by (metis order_refl)
  then show "snd (fold store_feedback [0..<64] (mi, p25_lfsr128_store_seed_bytes mi iv)) ! b = iv128 mi ! b"
    by (simp add: fold_msb_shift_8 iv128_nth [OF b])
qed

text \<open>The variant with an inner loop per octet.\<close>

lemma iv_octet_step_eq: "iv_octet_step = (\<lambda>j (l, octet). (step64 l, msb_shift (fb64 l) octet))"
  by (intro ext) (auto simp: iv_octet_step_def Let_def step64_def bit64_eq msb_shift_def)

lemma expand_iv128:
  assumes "length out = 16"
  shows "nxdn_lfsr128_expand_iv_from_mi64 mi out = iv128 mi"
proof -
  let ?o = "fold (\<lambda>i out. out[i := ucast (drop_bit (56 - i * 8) mi)]) [0..<8] out"
  have "length ?o = 16" "b < 8 \<Longrightarrow> ?o ! b = bytes64 mi ! b" for b
    using assms by (auto simp: upt_rec bytes64_def nth_list_update less_Suc_eq eval_nat_numeral)
  then show ?thesis
    using reg64.octets [of ?o 8 8 mi]
    by (intro nth_equalityI)
      (simp_all add: nxdn_lfsr128_expand_iv_from_mi64_def iv_octet_step_eq iv128_nth fed64_def [abs_def] iv128_def [THEN arg_cong, of length] Let_def)
qed

section \<open>DMR\<close>

definition fb32 :: "u32 \<Rightarrow> bool" where
  "fb32 x \<longleftrightarrow> bit x 31 \<noteq> (bit x 21 \<noteq> (bit x 1 \<noteq> bit x 0))"

definition fb_des :: "u64 \<Rightarrow> bool" where
  "fb_des x \<longleftrightarrow> bit x 31 \<noteq> (bit x 21 \<noteq> (bit x 1 \<noteq> bit x 0))"

definition fb_mi :: "u32 \<Rightarrow> bool" where
  "fb_mi x \<longleftrightarrow> bit x 31 \<noteq> (bit x 3 \<noteq> bit x 1)"

interpretation reg_des: shift_register dmr_des_step fb_des
  by unfold_locales (simp add: dmr_des_step_def and_one_of_bool msb_shift_def bit_xor_iff bit_drop_bit_eq fb_des_def del: push_bit_of_1)

interpretation reg32: feedback_register "\<lambda>x. msb_shift (fb32 x) x" fb32
proof
  show "\<forall>i < LENGTH(32) - 1. bit x i = bit y i \<Longrightarrow> bit x (LENGTH(32) - 1) \<noteq> bit y (LENGTH(32) - 1) \<Longrightarrow> fb32 x \<noteq> fb32 y" for x y
    by (simp add: fb32_def) argo
qed simp

interpretation reg_mi: feedback_register "\<lambda>x. msb_shift (fb_mi x) x" fb_mi
proof
  show "\<forall>i < LENGTH(32) - 1. bit x i = bit y i \<Longrightarrow> bit x (LENGTH(32) - 1) \<noteq> bit y (LENGTH(32) - 1) \<Longrightarrow> fb_mi x \<noteq> fb_mi y" for x y
    by (simp add: fb_mi_def) argo
qed simp

lemma dmr_octet_step_eq: "dmr_octet_step = (\<lambda>j (l, octet). (msb_shift (fb32 l) l, msb_shift (fb32 l) octet))"
  unfolding dmr_octet_step_def and_one_of_bool
  by (intro ext) (auto simp: Let_def bit_xor_iff bit_drop_bit_eq fb32_def msb_shift_def)

text \<open>A register of 64 bits that only taps its lower half is the 32-bit register in that half.\<close>

lemma low_half_run:
  assumes "\<And>x. g (ucast x :: u32) = f (x :: u64)" "\<And>x. step x = msb_shift (f x) x"
  shows "ucast ((step ^^ n) x) = ((\<lambda>y. msb_shift (g y) y) ^^ n) (ucast x)"
proof (induction n)
  case (Suc n)
  have "ucast (msb_shift b y) = (msb_shift b (ucast y) :: u32)" for b and y :: u64
    by (rule bit_word_eqI) (auto simp: bit_ucast_iff bit_msb_shift)
  then show ?case by (simp add: assms Suc [symmetric])
qed simp

lemma ucast_ucast_mi: "ucast (ucast mi :: u64) = (mi :: u32)"
  by (rule bit_word_eqI) (simp add: bit_ucast_iff)

lemma dmr_mi_advance32_eq: "dmr_mi_advance32 mi = ((\<lambda>y. msb_shift (fb_mi y) y) ^^ 32) mi"
proof -
  have fb: "fb_mi (ucast x) = (bit x 31 \<noteq> (bit x 3 \<noteq> bit x 1))" for x :: u64 by (simp add: fb_mi_def bit_ucast_iff)
  have "dmr_mi_step x = msb_shift (fb_mi (ucast x)) x" for x
    unfolding dmr_mi_step_def and_one_of_bool fb msb_shift_def by (simp add: bit_xor_iff bit_drop_bit_eq)
  from low_half_run [of fb_mi "\<lambda>x. fb_mi (ucast x)", OF refl this] show ?thesis
    by (simp add: dmr_mi_advance32_def ucast_ucast_mi)
qed

text \<open>The bits the DMR registers feed.\<close>

definition fed_dmr :: "u32 \<Rightarrow> nat \<Rightarrow> bool" where
  "fed_dmr mi k = fb32 (((\<lambda>x. msb_shift (fb32 x) x) ^^ k) mi)"

lemma dmr_des_expand_iv_bit:
  "i < 64 \<Longrightarrow> bit (dmr_des_expand_iv mi) i = (if i < 32 then fed_dmr mi (31 - i) else bit mi (i - 32))"
proof -
  have fb: "fb32 (ucast x) = fb_des x" for x by (simp add: fb32_def fb_des_def bit_ucast_iff)
  show "i < 64 \<Longrightarrow> ?thesis"
    using reg_des.run_bit [of i 32 "ucast mi"] low_half_run [of fb32 fb_des, OF fb reg_des.step, of _ "ucast mi"]
    by (simp add: dmr_des_expand_iv_def fed_dmr_def bit_ucast_iff ucast_ucast_mi less_imp_diff_less flip: fb)
qed

lemma length_dmr_aes_iv:
  assumes "length iv = 16"
  shows "length (snd (dmr_aes_expand_iv mi iv)) = 16"
  using assms reg32.octets [of "fold (\<lambda>i iv. iv[i := ucast (drop_bit (24 - 8 * i) mi)]) [0..<4] iv" 4 12 mi]
  by (simp only: dmr_aes_expand_iv_def dmr_octet_step_eq Let_def snd_conv length_fold_writes) simp

lemma dmr_aes_iv:
  assumes "length iv = 16" "b < 16"
  shows "snd (dmr_aes_expand_iv mi iv) ! b =
    (if b < 4 then ucast (drop_bit (24 - 8 * b) mi) else msb_word (map (fed_dmr mi) [8 * (b - 4)..<8 * (b - 4) + 8]))"
proof -
  let ?o = "fold (\<lambda>i iv. iv[i := ucast (drop_bit (24 - 8 * i) mi)]) [0..<4] iv"
  have "length ?o = 16" "b < 4 \<Longrightarrow> ?o ! b = ucast (drop_bit (24 - 8 * b) mi)" for b
    using assms(1) by (auto simp: upt_rec nth_list_update less_Suc_eq eval_nat_numeral)
  then show ?thesis
    using reg32.octets [of ?o 4 12 mi] assms(2)
    by (simp add: dmr_aes_expand_iv_def dmr_octet_step_eq fed_dmr_def [abs_def] Let_def)
qed

lemma dmr_aes_iv_des:
  assumes "length iv = 16" "b < 8"
  shows "snd (dmr_aes_expand_iv mi iv) ! b = bytes64 (dmr_des_expand_iv mi) ! b"
proof (rule bit_word_eqI)
  fix i assume "i < LENGTH(8)"
  then have i: "i < 8" by simp
  then have des: "bit (bytes64 (dmr_des_expand_iv mi) ! b) i =
      (if b < 4 then bit mi (24 - 8 * b + i) else fed_dmr mi (8 * (b - 4) + (7 - i)))"
  proof (cases "b < 4")
    case True
    then have "\<not> 56 - 8 * b + i < 32" "56 - 8 * b + i < 64" "56 - 8 * b + i - 32 = 24 - 8 * b + i" using i by simp_all
    then show ?thesis using assms(2) i True dmr_des_expand_iv_bit [of "56 - 8 * b + i" mi]
      by (simp add: bytes64_def bit_ucast_iff bit_drop_bit_eq)
  next
    case False
    then have "56 - 8 * b + i < 32" "31 - (56 - 8 * b + i) = 8 * (b - 4) + (7 - i)" using i assms(2) by simp_all
    then show ?thesis using assms(2) i False dmr_des_expand_iv_bit [of "56 - 8 * b + i" mi]
      by (simp add: bytes64_def bit_ucast_iff bit_drop_bit_eq)
  qed
  show "bit (snd (dmr_aes_expand_iv mi iv) ! b) i = bit (bytes64 (dmr_des_expand_iv mi) ! b) i"
    unfolding des using dmr_aes_iv [OF assms(1), of b mi] assms(2) i
    by (simp add: bit_ucast_iff bit_drop_bit_eq bit_msb_word)
qed

text \<open>Four bytes put together are the 32-bit word they came from.\<close>

lemma join_bytes:
  "push_bit 24 (ucast (bytes64 w ! 4)) OR push_bit 16 (ucast (bytes64 w ! 5)) OR push_bit 8 (ucast (bytes64 w ! 6)) OR
     ucast (bytes64 w ! 7) = (ucast w :: u32)"
proof (rule bit_word_eqI)
  fix n assume "n < LENGTH(32)"
  then consider "n < 8" | "8 \<le> n" "n < 16" | "16 \<le> n" "n < 24" | "24 \<le> n" "n < 32" by fastforce
  then show "bit (push_bit 24 (ucast (bytes64 w ! 4)) OR push_bit 16 (ucast (bytes64 w ! 5)) OR push_bit 8 (ucast (bytes64 w ! 6)) OR
      ucast (bytes64 w ! 7) :: u32) n = bit (ucast w :: u32) n"
    by cases (auto simp: bytes64_def bit_ucast_iff bit_drop_bit_eq bit_or_iff bit_push_bit_iff)
qed

section \<open>The voice scrambler\<close>

text \<open>The register of the voice frames and the one of the data units step alike.\<close>

lemma scrambler_ucast:
  "ucast (drop_bit 1 (reg :: u16) OR push_bit 14 ((drop_bit 1 reg XOR reg) AND 1)) =
    (drop_bit 1 (ucast reg) OR push_bit 14 ((drop_bit 1 (ucast reg) XOR drop_bit 0 (ucast reg)) AND 1) :: u32)"
  unfolding and_one_of_bool
  by (rule bit_word_eqI) (auto simp: bit_ucast_iff bit_or_iff bit_drop_bit_eq bit_push_bit_iff bit_xor_iff bit_of_bool_iff dest: bit_imp_le_length)

lemma scrambler_run:
  assumes "n \<le> length ks" "n \<le> length bout"
  shows "fst (fold (lfsrn_step bin) [0..<n] (ucast reg, bout)) = ucast (fst (fold scrambler_step [0..<n] (reg, ks))) \<and>
    length (snd (fold (lfsrn_step bin) [0..<n] (ucast reg, bout))) = length bout \<and>
    length (snd (fold scrambler_step [0..<n] (reg, ks))) = length ks \<and>
    (\<forall>i < n. snd (fold (lfsrn_step bin) [0..<n] (ucast reg, bout)) ! i = bin ! i XOR snd (fold scrambler_step [0..<n] (reg, ks)) ! i)"
  using assms
proof (induction n)
  case (Suc n)
  obtain l b where lb: "fold (lfsrn_step bin) [0..<n] (ucast reg, bout) = (l, b)" by fastforce
  obtain r k where rk: "fold scrambler_step [0..<n] (reg, ks) = (r, k)" by fastforce
  have IH: "l = ucast r" "length b = length bout" "length k = length ks" "\<forall>i < n. b ! i = bin ! i XOR k ! i"
    using Suc lb rk by simp_all
  have pn: "ucast (ucast r AND 1 :: u32) = (ucast (r AND 1) :: u8)"
    unfolding and_one_of_bool by (cases "bit r 0") (simp_all add: bit_ucast_iff)
  have "fold (lfsrn_step bin) [0..<Suc n] (ucast reg, bout) = lfsrn_step bin n (l, b)"
    "fold scrambler_step [0..<Suc n] (reg, ks) = scrambler_step n (r, k)" by (simp_all add: lb rk)
  then have steps: "fold (lfsrn_step bin) [0..<Suc n] (ucast reg, bout) =
        (ucast (drop_bit 1 r OR push_bit 14 ((drop_bit 1 r XOR r) AND 1)), b[n := bin ! n XOR ucast (r AND 1)])"
      "fold scrambler_step [0..<Suc n] (reg, ks) =
        (drop_bit 1 r OR push_bit 14 ((drop_bit 1 r XOR r) AND 1), k[n := ucast (r AND 1)])"
    unfolding lfsrn_step_def scrambler_step_def Let_def prod.case IH(1) pn scrambler_ucast by simp_all
  show ?case unfolding steps using Suc.prems IH(2-4) by (auto simp: nth_list_update less_Suc_eq)
qed simp

section \<open>Properties\<close>

text \<open>
  The three expansions of a 64-bit message indicator to a 128-bit vector (P25 for either slot,
  NXDN in place, NXDN by octets) agree: the indicator, then the indicator the register reaches
  after 64 steps, in big-endian bytes, whatever the buffer held before.
\<close>

lemma iv128_routines_agree:
  assumes "length (aes_iv state) = 16" "length (aes_ivR state) = 16" "length out = 16"
  shows "aes_iv (p25_lfsr128_slot 0 state) = bytes64 (payload_miP state) @ bytes64 (p25_lfsr_advance_64 (payload_miP state)) \<and>
    aes_ivR (p25_lfsr128_slot 1 state) = bytes64 (payload_miN state) @ bytes64 (p25_lfsr_advance_64 (payload_miN state)) \<and>
    aes_iv (LFSR128n state) = nxdn_lfsr128_expand_iv_from_mi64 (payload_miN state) out \<and>
    aes_iv (LFSR128n state) = aes_ivR (p25_lfsr128_slot 1 state)"
  using assms
  by (simp add: p25_lfsr128_slot_def LFSR128n_def p25_lfsr128_store_feedback_bytes_def Let_def feedback_bytes_iv128 expand_iv128)
    (simp add: iv128_def)

text \<open>
  Advancing a message indicator loses nothing: distinct indicators stay distinct and a nonzero
  one never becomes zero, for the 64-bit register of P25 and the 32-bit register of DMR.
\<close>

lemma mi_advance_injective:
  "inj p25_lfsr_advance_64 \<and> inj dmr_mi_advance32 \<and>
   (\<forall>x. p25_lfsr_advance_64 x = 0 \<longleftrightarrow> x = 0) \<and> (\<forall>x. dmr_mi_advance32 x = 0 \<longleftrightarrow> x = 0)"
proof -
  have inj: "inj p25_lfsr_advance_64" "inj dmr_mi_advance32"
    using reg64.inj_run [of 64] reg_mi.inj_run [of 32]
    by (simp_all add: p25_lfsr_advance_64_def [abs_def] dmr_mi_advance32_eq [abs_def])
  have "(step64 ^^ n) 0 = 0" for n by (induction n) (simp_all add: step64_def bit64_def)
  moreover have "(dmr_mi_step ^^ n) 0 = 0" for n by (induction n) (simp_all add: dmr_mi_step_def)
  ultimately have "p25_lfsr_advance_64 0 = 0" "dmr_mi_advance32 0 = 0"
    by (simp_all add: p25_lfsr_advance_64_def dmr_mi_advance32_def)
  with inj show ?thesis by (metis injD)
qed

text \<open>
  The vectors DMR derives for AES and for DES from one message indicator agree: the first
  eight bytes of the AES vector are the DES vector, and the next indicator the AES routine
  returns is the lower half of it.
\<close>

lemma dmr_iv_routines_agree:
  assumes "length iv = 16"
  shows "take 8 (snd (dmr_aes_expand_iv mi iv)) = bytes64 (dmr_des_expand_iv mi) \<and>
    fst (dmr_aes_expand_iv mi iv) = ucast (dmr_des_expand_iv mi)"
proof -
  let ?iv = "snd (dmr_aes_expand_iv mi iv)"
  have "length ?iv = 16" by (rule length_dmr_aes_iv [OF assms])
  then have "take 8 ?iv = bytes64 (dmr_des_expand_iv mi)"
    using dmr_aes_iv_des [OF assms] by (intro nth_equalityI) simp_all
  moreover have "fst (dmr_aes_expand_iv mi iv) = push_bit 24 (ucast (?iv ! 4)) OR push_bit 16 (ucast (?iv ! 5)) OR push_bit 8 (ucast (?iv ! 6)) OR ucast (?iv ! 7)"
    unfolding dmr_aes_expand_iv_def Let_def by (simp only: fst_conv snd_conv)
  ultimately show ?thesis using dmr_aes_iv_des [OF assms] join_bytes by simp
qed

text \<open>
  The NXDN voice scrambler adds the keystream that the data-unit scrambler creates from the
  same seed, and steps its register as often; descrambling from the same seed restores the frame.
\<close>

lemma LFSRN_keystream:
  assumes "length bin = 49" "length bout = 49" "length ks = 49"
  shows "fst (LFSRN bin bout state) =
      map (\<lambda>i. bin ! i XOR nxdn_pdu_scrambler_keystream_creation ks (ucast (payload_miN state)) 49 ! i) [0..<49] \<and>
    fst (LFSRN (fst (LFSRN bin bout state)) bout state) = bin"
proof -
  let ?ks = "nxdn_pdu_scrambler_keystream_creation ks (ucast (payload_miN state)) 49"
  have mask: "(0x7FFF :: 'a::len word) = mask 15" by (simp add: mask_eq_exp_minus_1)
  have seed: "ucast (payload_miN state AND 0x7FFF) = (ucast (ucast (ucast (payload_miN state) :: u32) AND 0x7FFF :: u16) :: u32)"
    unfolding mask by (rule bit_word_eqI) (auto simp: bit_ucast_iff bit_and_iff bit_mask_iff)
  have one: "fst (LFSRN b bout state) = map (\<lambda>i. b ! i XOR ?ks ! i) [0..<49]" for b
    using scrambler_run [of 49 ks bout b "ucast (ucast (payload_miN state) :: u32) AND 0x7FFF"] assms(2,3)
    by (intro nth_equalityI)
      (simp_all only: LFSRN_def seed nxdn_pdu_scrambler_keystream_creation_def Let_def split_beta fst_conv snd_conv length_map length_upt diff_zero nth_map nth_upt add_0 order_refl)
  have "map (\<lambda>i. map (\<lambda>i. bin ! i XOR ?ks ! i) [0..<49] ! i XOR ?ks ! i) [0..<49] = bin"
    using assms(1) by (intro nth_equalityI) (simp_all add: xor.assoc)
  then show ?thesis using one by simp
qed

end
