(* ===== verification/Des.thy ===== *)
theory Des
  imports Lfsr
begin

text \<open>
  The data encryption standard as \<open>src/crypto/crypt-des.c\<close> implements it on bytes: permutations by
  bit tables, substitution boxes with their output already in place, and the three keystream
  modes (output feedback, triple encryption with output feedback, and the DES-XL counter address
  mode driven by the 64-bit register of theory \<open>Lfsr\<close>).
\<close>

section \<open>Model\<close>

definition SLUT1 :: "u8 list" where
  "SLUT1 = [0xE0, 0x00, 0x40, 0xF0, 0xD0, 0x70, 0x10, 0x40, 0x20, 0xE0, 0xF0, 0x20, 0xB0, 0xD0, 0x80, 0x10,
     0x30, 0xA0, 0xA0, 0x60, 0x60, 0xC0, 0xC0, 0xB0, 0x50, 0x90, 0x90, 0x50, 0x00, 0x30, 0x70, 0x80,
     0x40, 0xF0, 0x10, 0xC0, 0xE0, 0x80, 0x80, 0x20, 0xD0, 0x40, 0x60, 0x90, 0x20, 0x10, 0xB0, 0x70,
     0xF0, 0x50, 0xC0, 0xB0, 0x90, 0x30, 0x70, 0xE0, 0x30, 0xA0, 0xA0, 0x00, 0x50, 0x60, 0x00, 0xD0]"

definition SLUT2 :: "u8 list" where
  "SLUT2 = [0x0F, 0x03, 0x01, 0x0D, 0x08, 0x04, 0x0E, 0x07, 0x06, 0x0F, 0x0B, 0x02, 0x03, 0x08, 0x04, 0x0E,
     0x09, 0x0C, 0x07, 0x00, 0x02, 0x01, 0x0D, 0x0A, 0x0C, 0x06, 0x00, 0x09, 0x05, 0x0B, 0x0A, 0x05,
     0x00, 0x0D, 0x0E, 0x08, 0x07, 0x0A, 0x0B, 0x01, 0x0A, 0x03, 0x04, 0x0F, 0x0D, 0x04, 0x01, 0x02,
     0x05, 0x0B, 0x08, 0x06, 0x0C, 0x07, 0x06, 0x0C, 0x09, 0x00, 0x03, 0x05, 0x02, 0x0E, 0x0F, 0x09]"

definition SLUT3 :: "u8 list" where
  "SLUT3 = [0xA0, 0xD0, 0x00, 0x70, 0x90, 0x00, 0xE0, 0x90, 0x60, 0x30, 0x30, 0x40, 0xF0, 0x60, 0x50, 0xA0,
     0x10, 0x20, 0xD0, 0x80, 0xC0, 0x50, 0x70, 0xE0, 0xB0, 0xC0, 0x40, 0xB0, 0x20, 0xF0, 0x80, 0x10,
     0xD0, 0x10, 0x60, 0xA0, 0x40, 0xD0, 0x90, 0x00, 0x80, 0x60, 0xF0, 0x90, 0x30, 0x80, 0x00, 0x70,
     0xB0, 0x40, 0x10, 0xF0, 0x20, 0xE0, 0xC0, 0x30, 0x50, 0xB0, 0xA0, 0x50, 0xE0, 0x20, 0x70, 0xC0]"

definition SLUT4 :: "u8 list" where
  "SLUT4 = [0x07, 0x0D, 0x0D, 0x08, 0x0E, 0x0B, 0x03, 0x05, 0x00, 0x06, 0x06, 0x0F, 0x09, 0x00, 0x0A, 0x03,
     0x01, 0x04, 0x02, 0x07, 0x08, 0x02, 0x05, 0x0C, 0x0B, 0x01, 0x0C, 0x0A, 0x04, 0x0E, 0x0F, 0x09,
     0x0A, 0x03, 0x06, 0x0F, 0x09, 0x00, 0x00, 0x06, 0x0C, 0x0A, 0x0B, 0x01, 0x07, 0x0D, 0x0D, 0x08,
     0x0F, 0x09, 0x01, 0x04, 0x03, 0x05, 0x0E, 0x0B, 0x05, 0x0C, 0x02, 0x07, 0x08, 0x02, 0x04, 0x0E]"

definition SLUT5 :: "u8 list" where
  "SLUT5 = [0x20, 0xE0, 0xC0, 0xB0, 0x40, 0x20, 0x10, 0xC0, 0x70, 0x40, 0xA0, 0x70, 0xB0, 0xD0, 0x60, 0x10,
     0x80, 0x50, 0x50, 0x00, 0x30, 0xF0, 0xF0, 0xA0, 0xD0, 0x30, 0x00, 0x90, 0xE0, 0x80, 0x90, 0x60,
     0x40, 0xB0, 0x20, 0x80, 0x10, 0xC0, 0xB0, 0x70, 0xA0, 0x10, 0xD0, 0xE0, 0x70, 0x20, 0x80, 0xD0,
     0xF0, 0x60, 0x90, 0xF0, 0xC0, 0x00, 0x50, 0x90, 0x60, 0xA0, 0x30, 0x40, 0x00, 0x50, 0xE0, 0x30]"

definition SLUT6 :: "u8 list" where
  "SLUT6 = [0x0C, 0x0A, 0x01, 0x0F, 0x0A, 0x04, 0x0F, 0x02, 0x09, 0x07, 0x02, 0x0C, 0x06, 0x09, 0x08, 0x05,
     0x00, 0x06, 0x0D, 0x01, 0x03, 0x0D, 0x04, 0x0E, 0x0E, 0x00, 0x07, 0x0B, 0x05, 0x03, 0x0B, 0x08,
     0x09, 0x04, 0x0E, 0x03, 0x0F, 0x02, 0x05, 0x0C, 0x02, 0x09, 0x08, 0x05, 0x0C, 0x0F, 0x03, 0x0A,
     0x07, 0x0B, 0x00, 0x0E, 0x04, 0x01, 0x0A, 0x07, 0x01, 0x06, 0x0D, 0x00, 0x0B, 0x08, 0x06, 0x0D]"

definition SLUT7 :: "u8 list" where
  "SLUT7 = [0x40, 0xD0, 0xB0, 0x00, 0x20, 0xB0, 0xE0, 0x70, 0xF0, 0x40, 0x00, 0x90, 0x80, 0x10, 0xD0, 0xA0,
     0x30, 0xE0, 0xC0, 0x30, 0x90, 0x50, 0x70, 0xC0, 0x50, 0x20, 0xA0, 0xF0, 0x60, 0x80, 0x10, 0x60,
     0x10, 0x60, 0x40, 0xB0, 0xB0, 0xD0, 0xD0, 0x80, 0xC0, 0x10, 0x30, 0x40, 0x70, 0xA0, 0xE0, 0x70,
     0xA0, 0x90, 0xF0, 0x50, 0x60, 0x00, 0x80, 0xF0, 0x00, 0xE0, 0x50, 0x20, 0x90, 0x30, 0x20, 0xC0]"

definition SLUT8 :: "u8 list" where
  "SLUT8 = [0x0D, 0x01, 0x02, 0x0F, 0x08, 0x0D, 0x04, 0x08, 0x06, 0x0A, 0x0F, 0x03, 0x0B, 0x07, 0x01, 0x04,
     0x0A, 0x0C, 0x09, 0x05, 0x03, 0x06, 0x0E, 0x0B, 0x05, 0x00, 0x00, 0x0E, 0x0C, 0x09, 0x07, 0x02,
     0x07, 0x02, 0x0B, 0x01, 0x04, 0x0E, 0x01, 0x07, 0x09, 0x04, 0x0C, 0x0A, 0x0E, 0x08, 0x02, 0x0D,
     0x00, 0x0F, 0x06, 0x0C, 0x0A, 0x09, 0x0D, 0x00, 0x0F, 0x03, 0x03, 0x05, 0x05, 0x06, 0x08, 0x0B]"

definition initial_register_permutation :: "nat list" where
  "initial_register_permutation = [58, 50, 42, 34, 26, 18, 10, 2, 60, 52, 44, 36, 28, 20, 12, 4,
     62, 54, 46, 38, 30, 22, 14, 6, 64, 56, 48, 40, 32, 24, 16, 8,
     57, 49, 41, 33, 25, 17, 9, 1, 59, 51, 43, 35, 27, 19, 11, 3,
     61, 53, 45, 37, 29, 21, 13, 5, 63, 55, 47, 39, 31, 23, 15, 7]"

definition message_expansion :: "nat list" where
  "message_expansion = [32, 1, 2, 3, 4, 5, 4, 5, 6, 7, 8, 9, 8, 9, 10, 11,
     12, 13, 12, 13, 14, 15, 16, 17, 16, 17, 18, 19, 20, 21, 20, 21,
     22, 23, 24, 25, 24, 25, 26, 27, 28, 29, 28, 29, 30, 31, 32, 1]"

definition right_half_permutation :: "nat list" where
  "right_half_permutation = [16, 7, 20, 21, 29, 12, 28, 17, 1, 15, 23, 26, 5, 18, 31, 10,
     2, 8, 24, 14, 32, 27, 3, 9, 19, 13, 30, 6, 22, 11, 4, 25]"

definition final_register_permutation :: "nat list" where
  "final_register_permutation = [40, 8, 48, 16, 56, 24, 64, 32, 39, 7, 47, 15, 55, 23, 63, 31,
     38, 6, 46, 14, 54, 22, 62, 30, 37, 5, 45, 13, 53, 21, 61, 29,
     36, 4, 44, 12, 52, 20, 60, 28, 35, 3, 43, 11, 51, 19, 59, 27,
     34, 2, 42, 10, 50, 18, 58, 26, 33, 1, 41, 9, 49, 17, 57, 25]"

definition pc1_key_permutation :: "nat list" where
  "pc1_key_permutation = [57, 49, 41, 33, 25, 17, 9, 1, 58, 50, 42, 34, 26, 18, 10, 2,
     59, 51, 43, 35, 27, 19, 11, 3, 60, 52, 44, 36, 63, 55, 47, 39,
     31, 23, 15, 7, 62, 54, 46, 38, 30, 22, 14, 6, 61, 53, 45, 37,
     29, 21, 13, 5, 28, 20, 12, 4]"

definition pc2_key_permutation :: "nat list" where
  "pc2_key_permutation = [14, 17, 11, 24, 1, 5, 3, 28, 15, 6, 21, 10, 23, 19, 12, 4,
     26, 8, 16, 7, 27, 20, 13, 2, 13, 24, 3, 9, 19, 27, 2, 12,
     23, 17, 5, 20, 16, 21, 11, 28, 6, 25, 18, 14, 22, 8, 1, 4]"

definition key_shift_sizes :: "nat list" where
  "key_shift_sizes = [1, 1, 1, 2, 2, 2, 2, 2, 2, 1, 2, 2, 2, 2, 2, 2,
     1]"

definition key_shift_bytes :: "u8 list" where
  "key_shift_bytes = [0x80, 0x80, 0x80, 0xC0, 0xC0, 0xC0, 0xC0, 0xC0, 0xC0, 0x80, 0xC0, 0xC0, 0xC0, 0xC0, 0xC0, 0xC0,
     0x80]"

definition key_shift_x :: "nat list" where
  "key_shift_x = [8, 8, 8, 4]"

definition key_shift_y :: "nat list" where
  "key_shift_y = [1, 2, 3, 0]"

text \<open>Bits of the output are or-ed in, so a cleared output becomes the permuted input.\<close>

definition permute_bit :: "u8 list \<Rightarrow> nat list \<Rightarrow> nat \<Rightarrow> u8 list \<Rightarrow> u8 list" where
  "permute_bit inp table i out =
     (let tdiv = (table ! i - 1) div 8; tmod = (table ! i - 1) mod 8; idiv = i div 8; imod = i mod 8;
          b = drop_bit imod (push_bit tmod (inp ! tdiv AND drop_bit tmod 0x80))
      in out[idiv := out ! idiv OR b])"

definition permute :: "u8 list \<Rightarrow> u8 list \<Rightarrow> nat list \<Rightarrow> nat \<Rightarrow> nat \<Rightarrow> u8 list" where
  "permute inp out table start stop = fold (permute_bit inp table) [start..<stop] out"

definition rotate_half :: "u8 list \<Rightarrow> nat \<Rightarrow> u8 \<Rightarrow> u8 list" where
  "rotate_half K shift_size shift_byte =
     (let sb = map (\<lambda>i. shift_byte AND K ! i) [0..<4]
      in map (\<lambda>i. let x = key_shift_x ! i; y = key_shift_y ! i
            in push_bit shift_size (K ! i) OR drop_bit (x - shift_size) (sb ! y)) [0..<4])"

definition rotate_sub_keys :: "u8 list \<Rightarrow> u8 list \<Rightarrow> nat \<Rightarrow> u8 \<Rightarrow> u8 list \<times> u8 list" where
  "rotate_sub_keys Kc Kd shift_size shift_byte = (rotate_half Kc shift_size shift_byte, rotate_half Kd shift_size shift_byte)"

text \<open>The two 28-bit halves of the permuted key, and the sixteen round keys.\<close>

definition split_key :: "u8 list \<Rightarrow> u8 list \<times> u8 list" where
  "split_key main_key =
     (let Ks0 = permute main_key (replicate 7 0) pc1_key_permutation 0 56
      in ([Ks0 ! 0, Ks0 ! 1, Ks0 ! 2, Ks0 ! 3 AND 0xF0],
          map (\<lambda>i. push_bit 4 (Ks0 ! (i + 3) AND 0x0F) OR drop_bit 4 (Ks0 ! (i + 4) AND 0xF0)) [0..<3] @ [push_bit 4 (Ks0 ! 6 AND 0x0F)]))"

definition round_key_step :: "nat \<Rightarrow> (u8 list \<times> u8 list) \<times> u8 list list \<Rightarrow> (u8 list \<times> u8 list) \<times> u8 list list" where
  "round_key_step i s =
     (case s of ((Kc, Kd), Ks) \<Rightarrow>
        let (Kc, Kd) = rotate_sub_keys Kc Kd (key_shift_sizes ! (i + 1)) (key_shift_bytes ! (i + 1));
            k = permute Kd (permute Kc (replicate 7 0) pc2_key_permutation 0 24) pc2_key_permutation 24 48
        in ((Kc, Kd), Ks[i := k]))"

definition des_prepare_round_keys :: "u8 list \<Rightarrow> u8 list list" where
  "des_prepare_round_keys main_key = snd (fold round_key_step [0..<16] (split_key main_key, replicate 16 (replicate 7 0)))"

text \<open>The right half of a round, before it is added to the left half.\<close>

definition round_select :: "u8 list \<Rightarrow> u8 list \<Rightarrow> u8 list" where
  "round_select K right =
     (let e = permute right (replicate 6 0) message_expansion 0 48;
          e = map (\<lambda>i. e ! i XOR K ! i) [0..<6];
          e1 = drop_bit 2 (e ! 0);
          e2 = push_bit 4 (e ! 0 AND 0x3) OR drop_bit 4 (e ! 1);
          e3 = push_bit 2 (e ! 1 AND 0xF) OR drop_bit 6 (e ! 2);
          e4 = e ! 2 AND 0x3F;
          e5 = drop_bit 2 (e ! 3);
          e6 = push_bit 4 (e ! 3 AND 0x3) OR drop_bit 4 (e ! 4);
          e7 = push_bit 2 (e ! 4 AND 0xF) OR drop_bit 6 (e ! 5);
          e8 = e ! 5 AND 0x3F;
          sel = [SLUT1 ! unat e1 OR SLUT2 ! unat e2, SLUT3 ! unat e3 OR SLUT4 ! unat e4,
                 SLUT5 ! unat e5 OR SLUT6 ! unat e6, SLUT7 ! unat e7 OR SLUT8 ! unat e8]
      in permute sel (replicate 4 0) right_half_permutation 0 32)"

definition feistel_round :: "u8 list \<Rightarrow> u8 list \<times> u8 list \<Rightarrow> u8 list \<times> u8 list" where
  "feistel_round K lr = (case lr of (left, right) \<Rightarrow> (right, map (\<lambda>i. round_select K right ! i XOR left ! i) [0..<4]))"

definition des_cipher :: "u8 list \<Rightarrow> u8 list \<Rightarrow> u8 list \<Rightarrow> nat \<Rightarrow> u8 list" where
  "des_cipher main_key input_register output_register de =
     (let Ks = des_prepare_round_keys main_key;
          initial_permutation = permute input_register (replicate 8 0) initial_register_permutation 0 64;
          (left, right) = fold (\<lambda>f. feistel_round (if de = 1 then Ks ! f else Ks ! (15 - f))) [0..<16]
            (take 4 initial_permutation, drop 4 initial_permutation)
      in permute (right @ left) output_register final_register_permutation 0 64)"

definition des_ofb_step :: "u8 list \<Rightarrow> nat \<Rightarrow> nat \<Rightarrow> u8 list \<times> u8 list \<Rightarrow> u8 list \<times> u8 list" where
  "des_ofb_step main_key de i s =
     (case s of (input_register, ks_bytes) \<Rightarrow>
        let output_register = des_cipher main_key input_register (replicate 8 0) de
        in (output_register, copy_into ks_bytes (i * 8) output_register))"

definition des56_ofb_keystream_output :: "u8 list \<Rightarrow> u8 list \<Rightarrow> u8 list \<Rightarrow> nat \<Rightarrow> nat \<Rightarrow> u8 list" where
  "des56_ofb_keystream_output main_key iv ks_bytes de nblocks = snd (fold (des_ofb_step main_key de) [0..<nblocks] (iv, ks_bytes))"

definition tdea_step :: "u8 list \<Rightarrow> u8 list \<Rightarrow> u8 list \<Rightarrow> nat \<Rightarrow> nat \<times> u8 list \<times> u8 list \<Rightarrow> nat \<times> u8 list \<times> u8 list" where
  "tdea_step K1 K2 K3 i s =
     (case s of (de, input_register, ks_bytes) \<Rightarrow>
        let input_register = des_cipher K1 input_register (replicate 8 0) de;
            de = (de XOR 1) AND 1;
            input_register = des_cipher K2 input_register (replicate 8 0) de;
            de = (de XOR 1) AND 1;
            output_register = des_cipher K3 input_register (replicate 8 0) de
        in (de, output_register, copy_into ks_bytes (i * 8) output_register))"

definition tdea_tofb_keystream_output_bytes ::
  "u8 list \<Rightarrow> u8 list \<Rightarrow> u8 list \<Rightarrow> u8 list \<Rightarrow> u8 list \<Rightarrow> nat \<Rightarrow> nat \<Rightarrow> u8 list" where
  "tdea_tofb_keystream_output_bytes K1 K2 K3 iv ks_bytes de nblocks =
     snd (snd (fold (tdea_step K1 K2 K3) [0..<nblocks] (de, iv, ks_bytes)))"

definition lfsr_64_to_len_ca :: "u8 list \<Rightarrow> nat \<Rightarrow> u8 list" where
  "lfsr_64_to_len_ca iv len =
     (let lfsr = push_bit 56 (ucast (iv ! 0)) + push_bit 48 (ucast (iv ! 1)) + push_bit 40 (ucast (iv ! 2)) +
            push_bit 32 (ucast (iv ! 3)) + push_bit 24 (ucast (iv ! 4)) + push_bit 16 (ucast (iv ! 5)) +
            push_bit 8 (ucast (iv ! 6)) + push_bit 0 (ucast (iv ! 7));
          lfsr = (step64 ^^ len) lfsr
      in map (\<lambda>i. ucast (drop_bit (56 - i * 8) lfsr AND 0xFF)) [0..<8])"

definition ca_step :: "u8 list \<Rightarrow> nat \<Rightarrow> nat \<Rightarrow> u8 list \<times> u8 list \<Rightarrow> u8 list \<times> u8 list" where
  "ca_step main_key de i s =
     (case s of (input_register, ks_bytes) \<Rightarrow>
        let output_register = des_cipher main_key input_register (replicate 8 0) de;
            ks_bytes = ks_bytes[i div 8 := push_bit 1 (ks_bytes ! (i div 8))];
            ks_bytes = ks_bytes[i div 8 := ks_bytes ! (i div 8) OR (drop_bit 7 (output_register ! 0) AND 1)]
        in (lfsr_64_to_len_ca input_register 1, ks_bytes))"

definition des56_ca_keystream_output :: "u8 list \<Rightarrow> u8 list \<Rightarrow> u8 list \<Rightarrow> nat \<Rightarrow> nat \<Rightarrow> nat \<Rightarrow> u8 list" where
  "des56_ca_keystream_output main_key iv ks_bytes de ff nbits =
     snd (fold (ca_step main_key de) [0..<nbits] (lfsr_64_to_len_ca iv ff, ks_bytes))"

definition split_ulli :: "u64 \<Rightarrow> u8 list" where
  "split_ulli w = map (\<lambda>k. ucast (drop_bit (8 * (7 - k)) w AND 0xFF)) [0..<8]"

definition des_ofb_keystream_output :: "u64 \<Rightarrow> u64 \<Rightarrow> u8 list \<Rightarrow> nat \<Rightarrow> u8 list" where
  "des_ofb_keystream_output mi key_ulli out nblocks = des56_ofb_keystream_output (split_ulli key_ulli) (split_ulli mi) out 1 nblocks"

definition tdea_tofb_keystream_output :: "u64 \<Rightarrow> u8 list \<Rightarrow> u8 list \<Rightarrow> nat \<Rightarrow> u8 list" where
  "tdea_tofb_keystream_output mi key out nblocks =
     tdea_tofb_keystream_output_bytes (take 8 key) (take 8 (drop 8 key)) (take 8 (drop 16 key)) (split_ulli mi) out 1 nblocks"

definition des_xl_keystream_output :: "u64 \<Rightarrow> u64 \<Rightarrow> u8 list \<Rightarrow> int \<Rightarrow> u8 list" where
  "des_xl_keystream_output mi key_ulli out late_entry =
     (let fast_forward = 110 + (if late_entry = 0 then 696 else 0)
      in des56_ca_keystream_output (split_ulli key_ulli) (split_ulli mi) out 1 fast_forward 1704)"

section \<open>Permutations of bits\<close>

text \<open>The bit at a position of a byte array, the most significant bit of the first byte first.\<close>

definition bit_at :: "u8 list \<Rightarrow> nat \<Rightarrow> bool" where
  "bit_at bs k = bit (bs ! (k div 8)) (7 - k mod 8)"

lemma bit_at_eqI:
  assumes "length xs = length ys" "\<And>k. k < 8 * length xs \<Longrightarrow> bit_at xs k = bit_at ys k"
  shows "xs = ys"
proof (rule nth_equalityI [OF assms(1)])
  fix i assume i: "i < length xs"
  show "xs ! i = ys ! i"
  proof (rule bit_word_eqI)
    fix n assume "n < LENGTH(8)"
    then have n: "n < 8" by simp
    define k where "k = 8 * i + (7 - n)"
    have "k mod 8 = 7 - n" using n by (simp only: k_def mod_mult_self4) simp
    then have "k div 8 = i" "7 - k mod 8 = n" "k < 8 * length xs" using n i by (auto simp: k_def)
    then show "bit (xs ! i) n = bit (ys ! i) n" using assms(2) [of k] by (simp add: bit_at_def)
  qed
qed

lemma permute_word:
  assumes "tmod < 8" "imod < 8"
  shows "bit (drop_bit imod (push_bit tmod (x AND drop_bit tmod (0x80 :: u8)))) n \<longleftrightarrow> n = 7 - imod \<and> bit x (7 - tmod)"
proof -
  have "(0x80 :: u8) = 2 ^ 7" by simp
  then have top: "bit (0x80 :: u8) m \<longleftrightarrow> m = 7" for m by (simp only: bit_exp_iff) auto
  have "bit (drop_bit imod (push_bit tmod (x AND drop_bit tmod (0x80 :: u8)))) n \<longleftrightarrow>
      tmod \<le> imod + n \<and> imod + n < 8 \<and> bit x (imod + n - tmod) \<and> tmod + (imod + n - tmod) = 7"
    by (simp only: bit_drop_bit_eq bit_push_bit_iff bit_and_iff top comp_apply possible_bit_word) simp
  also have "\<dots> \<longleftrightarrow> n = 7 - imod \<and> bit x (7 - tmod)" using assms by auto
  finally show ?thesis .
qed

lemma permute_bit_at:
  assumes "i < 8 * length out"
  shows "bit_at (permute_bit inp table i out) k \<longleftrightarrow> bit_at out k \<or> k = i \<and> bit_at inp (table ! i - 1)"
proof -
  have same: "k = i \<longleftrightarrow> k div 8 = i div 8 \<and> 7 - k mod 8 = 7 - i mod 8"
  proof
    assume "k div 8 = i div 8 \<and> 7 - k mod 8 = 7 - i mod 8"
    moreover have "k mod 8 < 8" "i mod 8 < 8" by simp_all
    ultimately have "k div 8 = i div 8" "k mod 8 = i mod 8" by linarith+
    then show "k = i" by (metis div_mult_mod_eq)
  qed simp
  have i: "i div 8 < length out" using assms by simp
  note word = permute_word [OF mod_less_divisor mod_less_divisor, OF zero_less_numeral zero_less_numeral]
  show ?thesis
  proof (cases "k div 8 = i div 8")
    case True
    then have "bit_at (permute_bit inp table i out) k \<longleftrightarrow>
        bit (out ! (k div 8)) (7 - k mod 8) \<or> 7 - k mod 8 = 7 - i mod 8 \<and> bit (inp ! ((table ! i - 1) div 8)) (7 - (table ! i - 1) mod 8)"
      using i by (simp only: bit_at_def permute_bit_def Let_def nth_list_update_eq bit_or_iff word)
    then show ?thesis unfolding same using True by (simp only: bit_at_def simp_thms)
  next
    case False
    then show ?thesis unfolding same by (simp add: bit_at_def permute_bit_def Let_def)
  qed
qed

lemma length_permute_bit [simp]: "length (permute_bit inp table i out) = length out"
  by (simp add: permute_bit_def Let_def)

lemma permute_at:
  assumes "b \<le> 8 * length out"
  shows "length (permute inp out table a b) = length out \<and>
    (\<forall>k. bit_at (permute inp out table a b) k \<longleftrightarrow> bit_at out k \<or> a \<le> k \<and> k < b \<and> bit_at inp (table ! k - 1))"
  using assms
proof (induction b)
  case (Suc b)
  let ?o = "permute inp out table a b"
  have IH: "length ?o = length out" "bit_at ?o k \<longleftrightarrow> bit_at out k \<or> a \<le> k \<and> k < b \<and> bit_at inp (table ! k - 1)" for k
    using Suc by simp_all
  show ?case
  proof (cases "a \<le> b")
    case True
    then have "permute inp out table a (Suc b) = permute_bit inp table b ?o" by (simp add: permute_def)
    then show ?thesis using IH Suc.prems True permute_bit_at [of b ?o inp table] by (auto simp: less_Suc_eq)
  next
    case False
    then have "permute inp out table a (Suc b) = out" by (simp add: permute_def)
    then show ?thesis using False by auto
  qed
qed (simp add: permute_def)

lemma length_permute [simp]: "b \<le> 8 * length out \<Longrightarrow> length (permute inp out table a b) = length out"
  using permute_at by blast

lemma bit_at_zeros: "k < 8 * n \<Longrightarrow> \<not> bit_at (replicate n 0) k"
  by (simp add: bit_at_def)

lemma permute_cleared:
  assumes "k < 8 * n"
  shows "bit_at (permute inp (replicate n 0) table 0 (8 * n)) k = bit_at inp (table ! k - 1)"
  using permute_at [of "8 * n" "replicate n 0" inp table 0] assms bit_at_zeros [OF assms] by simp

lemma permutations_inverse:
  "\<forall>k < 64. initial_register_permutation ! (final_register_permutation ! k - 1) - 1 = k \<and>
     final_register_permutation ! (initial_register_permutation ! k - 1) - 1 = k \<and>
     final_register_permutation ! k - 1 < 64 \<and> initial_register_permutation ! k - 1 < 64"
  by code_simp

lemma permute_inverse:
  assumes "length x = 8"
  shows "permute (permute x (replicate 8 0) initial_register_permutation 0 64) (replicate 8 0) final_register_permutation 0 64 = x"
    and "permute (permute x (replicate 8 0) final_register_permutation 0 64) (replicate 8 0) initial_register_permutation 0 64 = x"
  using assms permutations_inverse permute_cleared [of _ 8]
  by (auto intro!: bit_at_eqI)

section \<open>The network\<close>

text \<open>
  The interface of a round on two halves that undoes itself when the halves are swapped. A run
  over some round keys, swapped, is undone by a run over the same keys in reverse.
\<close>

locale feistel =
  fixes round :: "'k \<Rightarrow> 'h \<times> 'h \<Rightarrow> 'h \<times> 'h" and ok :: "'h \<Rightarrow> bool"
  assumes keeps: "ok l \<Longrightarrow> ok r \<Longrightarrow> round k (l, r) = (l', r') \<Longrightarrow> ok l' \<and> ok r'"
    and undo: "ok l \<Longrightarrow> ok r \<Longrightarrow> round k (prod.swap (round k (l, r))) = (r, l)"
begin

lemma run_ok: "ok l \<Longrightarrow> ok r \<Longrightarrow> fold round ks (l, r) = (l', r') \<Longrightarrow> ok l' \<and> ok r'"
proof (induction ks arbitrary: l r)
  case (Cons k ks)
  obtain l1 r1 where k: "round k (l, r) = (l1, r1)" by fastforce
  then have "ok l1" "ok r1" using keeps [OF Cons.prems(1,2)] by simp_all
  then show ?case using Cons.IH Cons.prems(3) k by simp
qed simp

lemma run_undo: "ok l \<Longrightarrow> ok r \<Longrightarrow> fold round (rev ks) (prod.swap (fold round ks (l, r))) = (r, l)"
proof (induction ks arbitrary: l r)
  case (Cons k ks)
  obtain l1 r1 where k: "round k (l, r) = (l1, r1)" by fastforce
  then have "ok l1" "ok r1" using keeps [OF Cons.prems] by simp_all
  then show ?case using Cons.IH k undo [OF Cons.prems, of k] by simp
qed simp

end

interpretation des: feistel feistel_round "\<lambda>h. length h = 4"
proof
  fix l r l' r' k :: "u8 list"
  assume len: "length l = 4" "length r = 4"
  show "feistel_round k (l, r) = (l', r') \<Longrightarrow> length l' = 4 \<and> length r' = 4" using len by (auto simp: feistel_round_def)
  have "map (\<lambda>i. round_select k r ! i XOR map (\<lambda>i. round_select k r ! i XOR l ! i) [0..<4] ! i) [0..<4] = l"
    using len by (intro nth_equalityI) (simp_all flip: xor.assoc)
  then show "feistel_round k (prod.swap (feistel_round k (l, r))) = (r, l)" by (simp add: feistel_round_def)
qed

lemma des_rounds:
  "fold (\<lambda>f. feistel_round (Ks ! f)) [0..<16] p = fold feistel_round (map (\<lambda>f. Ks ! f) [0..<16]) p"
  "fold (\<lambda>f. feistel_round (Ks ! (15 - f))) [0..<16] p = fold feistel_round (rev (map (\<lambda>f. Ks ! f) [0..<16])) p"
proof -
  have "rev (map (\<lambda>f. Ks ! f) [0..<16]) = map (\<lambda>f. Ks ! (15 - f)) [0..<16]"
    by (rule nth_equalityI) (simp_all add: rev_nth)
  then show "fold (\<lambda>f. feistel_round (Ks ! (15 - f))) [0..<16] p = fold feistel_round (rev (map (\<lambda>f. Ks ! f) [0..<16])) p"
    by (simp only: fold_map comp_def)
qed (simp only: fold_map comp_def)

text \<open>Encryption with direction 1 and decryption with any other are inverse.\<close>

lemma des_cipher_inverse:
  assumes "length x = 8" "de \<noteq> 1"
  shows "des_cipher key (des_cipher key x (replicate 8 0) 1) (replicate 8 0) de = x"
proof -
  let ?ks = "map (\<lambda>f. des_prepare_round_keys key ! f) [0..<16]" and ?ip = "permute x (replicate 8 0) initial_register_permutation 0 64"
  obtain l r where lr: "fold feistel_round ?ks (take 4 ?ip, drop 4 ?ip) = (l, r)" by fastforce
  have halves: "length (take 4 ?ip) = 4" "length (drop 4 ?ip) = 4" by simp_all
  have len: "length l = 4" "length r = 4" using des.run_ok [OF halves lr] by simp_all
  have enc: "des_cipher key x (replicate 8 0) 1 = permute (r @ l) (replicate 8 0) final_register_permutation 0 64"
    unfolding des_cipher_def Let_def by (simp only: simp_thms if_True des_rounds lr prod.case)
  have ip: "permute (des_cipher key x (replicate 8 0) 1) (replicate 8 0) initial_register_permutation 0 64 = r @ l"
    unfolding enc using len by (intro permute_inverse) simp
  have "fold feistel_round (rev ?ks) (r, l) = (drop 4 ?ip, take 4 ?ip)" using des.run_undo [OF halves, of ?ks] lr by simp
  then have "des_cipher key (des_cipher key x (replicate 8 0) 1) (replicate 8 0) de =
      permute (take 4 ?ip @ drop 4 ?ip) (replicate 8 0) final_register_permutation 0 64"
    unfolding des_cipher_def [of key "des_cipher key x (replicate 8 0) 1"] Let_def ip using assms(2) len
    by (simp add: des_rounds)
  then show ?thesis using permute_inverse(1) [OF assms(1)] by (simp only: append_take_drop_id)
qed

lemma length_des_cipher [simp]: "length out = 8 \<Longrightarrow> length (des_cipher key x out de) = 8"
  by (simp add: des_cipher_def Let_def split: prod.split)

section \<open>The key schedule\<close>

text \<open>
  A half of the key: 28 bits at the front of four bytes, equal to the sequence \<open>c\<close> rotated left
  by \<open>n\<close>, and four zero bits.
\<close>

definition half_key :: "(nat \<Rightarrow> bool) \<Rightarrow> nat \<Rightarrow> u8 list \<Rightarrow> bool" where
  "half_key c n K \<longleftrightarrow> length K = 4 \<and> (\<forall>k < 28. bit_at K k = c ((k + n) mod 28)) \<and> (\<forall>k \<in> {28..<32}. \<not> bit_at K k)"

lemma shift_masks: "bit (0x80 :: u8) m \<longleftrightarrow> m = 7" "bit (0xC0 :: u8) m \<longleftrightarrow> m = 6 \<or> m = 7"
proof -
  have "(0x80 :: u8) = 2 ^ 7" "(0xC0 :: u8) = 2 ^ 7 OR 2 ^ 6" by simp_all
  then show "bit (0x80 :: u8) m \<longleftrightarrow> m = 7" "bit (0xC0 :: u8) m \<longleftrightarrow> m = 6 \<or> m = 7"
    by (simp_all only: bit_or_iff bit_exp_iff) auto
qed

lemma below_32:
  fixes k :: nat
  assumes "k < 32"
  obtains a j where "k = 8 * a + j" "a = 0 \<or> a = 1 \<or> a = 2 \<or> a = 3"
    "j = 0 \<or> j = 1 \<or> j = 2 \<or> j = 3 \<or> j = 4 \<or> j = 5 \<or> j = 6 \<or> j = 7"
proof (rule that [of "k div 8" "k mod 8"])
  have small: "j < 8 \<Longrightarrow> j = 0 \<or> j = 1 \<or> j = 2 \<or> j = 3 \<or> j = 4 \<or> j = 5 \<or> j = 6 \<or> j = 7" for j :: nat by presburger
  have "k div 8 < 4" "k mod 8 < 8" using assms by auto
  then show "k div 8 = 0 \<or> k div 8 = 1 \<or> k div 8 = 2 \<or> k div 8 = 3"
    "k mod 8 = 0 \<or> k mod 8 = 1 \<or> k mod 8 = 2 \<or> k mod 8 = 3 \<or> k mod 8 = 4 \<or> k mod 8 = 5 \<or> k mod 8 = 6 \<or> k mod 8 = 7"
    using small [of "k mod 8"] by (linarith, blast)
qed simp

lemma rotate_half_bit:
  assumes "a < 4" "n < 8"
  shows "bit (rotate_half K s m ! a) n \<longleftrightarrow> s \<le> n \<and> bit (K ! a) (n - s) \<or>
    bit m (key_shift_x ! a - s + n) \<and> bit (K ! (key_shift_y ! a)) (key_shift_x ! a - s + n)"
proof -
  have "\<forall>a < 4. key_shift_y ! a < 4" by code_simp
  then have "key_shift_y ! a < 4" using assms(1) by blast
  then show ?thesis using assms by (simp add: rotate_half_def Let_def bit_or_iff bit_and_iff bit_drop_bit_eq bit_push_bit_iff)
qed

lemma rotate_half_at:
  assumes "length K = 4" "\<forall>k \<in> {28..<32}. \<not> bit_at K k" "s = 1 \<and> m = 0x80 \<or> s = 2 \<and> m = 0xC0" "k < 32"
  shows "bit_at (rotate_half K s m) k \<longleftrightarrow> k < 28 \<and> bit_at K ((k + s) mod 28)"
proof -
  have low: "\<not> bit (K ! 3) 0" "\<not> bit (K ! 3) (Suc 0)" "\<not> bit (K ! 3) 2" "\<not> bit (K ! 3) 3"
    using bspec [OF assms(2), of 31] bspec [OF assms(2), of 30] bspec [OF assms(2), of 29] bspec [OF assms(2), of 28]
    by (simp_all add: bit_at_def)
  obtain a j where k: "k = 8 * a + j" and a: "a = 0 \<or> a = 1 \<or> a = 2 \<or> a = 3"
    and j: "j = 0 \<or> j = 1 \<or> j = 2 \<or> j = 3 \<or> j = 4 \<or> j = 5 \<or> j = 6 \<or> j = 7"
    by (rule below_32 [OF assms(4)])
  show ?thesis
    using assms(3) a j unfolding k
    by (elim disjE conjE; hypsubst)
      (simp_all add: bit_at_def rotate_half_bit key_shift_x_def key_shift_y_def shift_masks low)
qed

lemma rotate_half_key:
  assumes "half_key c n K" "s = 1 \<and> m = 0x80 \<or> s = 2 \<and> m = 0xC0"
  shows "half_key c (n + s) (rotate_half K s m)"
proof -
  have K: "length K = 4" "\<forall>k \<in> {28..<32}. \<not> bit_at K k" "\<And>k. k < 28 \<Longrightarrow> bit_at K k = c ((k + n) mod 28)"
    using assms(1) by (simp_all add: half_key_def)
  note at = rotate_half_at [OF K(1,2) assms(2)]
  have "bit_at (rotate_half K s m) k = c ((k + (n + s)) mod 28)" if "k < 28" for k
  proof -
    have "(k + (n + s)) mod 28 = ((k + s) mod 28 + n) mod 28" by (simp add: mod_simps ac_simps)
    then show ?thesis using at [of k] K(3) [of "(k + s) mod 28"] that by simp
  qed
  moreover have "length (rotate_half K s m) = 4" by (simp add: rotate_half_def Let_def)
  ultimately show ?thesis using at by (simp add: half_key_def)
qed

text \<open>The halves of the key after the first permutation.\<close>

definition key_half :: "u8 list \<Rightarrow> nat \<Rightarrow> nat \<Rightarrow> bool" where
  "key_half key off k = bit_at key (pc1_key_permutation ! (off + k) - 1)"

lemma split_key_halves:
  "half_key (key_half key 0) 0 (fst (split_key key))" "half_key (key_half key 28) 0 (snd (split_key key))"
proof -
  let ?K = "permute key (replicate 7 0) pc1_key_permutation 0 56"
  have at: "bit_at ?K k = bit_at key (pc1_key_permutation ! k - 1)" if "k < 56" for k
    using permute_cleared [of k 7] that by simp
  have m: "bit (0xF0 :: u8) i \<longleftrightarrow> i \<in> {4, 5, 6, 7}" "bit (0x0F :: u8) i \<longleftrightarrow> i \<in> {0, 1, 2, 3}" for i
  proof -
    have "(0xF0 :: u8) = 2 ^ 4 OR 2 ^ 5 OR 2 ^ 6 OR 2 ^ 7" "(0x0F :: u8) = 2 ^ 0 OR 2 ^ 1 OR 2 ^ 2 OR 2 ^ 3" by simp_all
    then show "bit (0xF0 :: u8) i \<longleftrightarrow> i \<in> {4, 5, 6, 7}" "bit (0x0F :: u8) i \<longleftrightarrow> i \<in> {0, 1, 2, 3}"
      by (simp_all only: bit_or_iff bit_exp_iff) auto
  qed
  have fst_at: "bit_at (fst (split_key key)) k \<longleftrightarrow> k < 28 \<and> bit_at ?K k"
    and snd_at: "bit_at (snd (split_key key)) k \<longleftrightarrow> k < 28 \<and> bit_at ?K (28 + k)" if k32: "k < 32" for k
  proof -
    obtain a j where k: "k = 8 * a + j" and a: "a = 0 \<or> a = 1 \<or> a = 2 \<or> a = 3"
      and j: "j = 0 \<or> j = 1 \<or> j = 2 \<or> j = 3 \<or> j = 4 \<or> j = 5 \<or> j = 6 \<or> j = 7"
      by (rule below_32 [OF k32])
    show "bit_at (fst (split_key key)) k \<longleftrightarrow> k < 28 \<and> bit_at ?K k"
      using a j unfolding k
      by (elim disjE; hypsubst) (simp_all add: split_key_def Let_def bit_at_def bit_and_iff m)
    show "bit_at (snd (split_key key)) k \<longleftrightarrow> k < 28 \<and> bit_at ?K (28 + k)"
      using a j unfolding k
      by (elim disjE; hypsubst)
        (simp_all add: split_key_def Let_def bit_at_def bit_and_iff bit_or_iff bit_push_bit_iff bit_drop_bit_eq m upt_rec)
  qed
  have "length (fst (split_key key)) = 4" "length (snd (split_key key)) = 4" by (simp_all add: split_key_def Let_def)
  then show "half_key (key_half key 0) 0 (fst (split_key key))" "half_key (key_half key 28) 0 (snd (split_key key))"
    by (simp_all add: half_key_def key_half_def at fst_at snd_at)
qed

text \<open>How far the halves are rotated for round \<open>i\<close>.\<close>

definition rotation :: "nat \<Rightarrow> nat" where
  "rotation i = sum_list (take (i + 1) (tl key_shift_sizes))"

lemma shift_tables: "\<forall>i < 16. (key_shift_sizes ! (i + 1) = 1 \<and> key_shift_bytes ! (i + 1) = 0x80 \<or>
     key_shift_sizes ! (i + 1) = 2 \<and> key_shift_bytes ! (i + 1) = 0xC0) \<and>
   rotation i = (if i = 0 then 0 else rotation (i - 1)) + key_shift_sizes ! (i + 1)"
  by code_simp

definition round_key_ok :: "u8 list \<Rightarrow> nat \<Rightarrow> u8 list \<Rightarrow> bool" where
  "round_key_ok key i K \<longleftrightarrow> length K = 7 \<and> (\<forall>k < 48. bit_at K k =
     key_half key (if k < 24 then 0 else 28) ((pc2_key_permutation ! k - 1 + rotation i) mod 28))"

lemma round_key_permuted:
  assumes "half_key (key_half key 0) (rotation i) Kc" "half_key (key_half key 28) (rotation i) Kd"
  shows "round_key_ok key i (permute Kd (permute Kc (replicate 7 0) pc2_key_permutation 0 24) pc2_key_permutation 24 48)"
proof -
  let ?c = "permute Kc (replicate 7 0) pc2_key_permutation 0 24"
  let ?d = "permute Kd ?c pc2_key_permutation 24 48"
  have range: "\<forall>k < 48. pc2_key_permutation ! k - 1 < 28" by code_simp
  have c: "length ?c = 7" by simp
  have c_at: "bit_at ?c k \<longleftrightarrow> k < 24 \<and> bit_at Kc (pc2_key_permutation ! k - 1)" if "k < 48" for k
    using permute_at [of 24 "replicate 7 0" Kc pc2_key_permutation 0] bit_at_zeros [of k 7] that by simp
  have d_at: "length ?d = 7 \<and> (\<forall>k. bit_at ?d k \<longleftrightarrow> bit_at ?c k \<or> 24 \<le> k \<and> k < 48 \<and> bit_at Kd (pc2_key_permutation ! k - 1))"
    using permute_at [of 48 ?c Kd pc2_key_permutation 24] c by simp
  show ?thesis
    unfolding round_key_ok_def using d_at c_at assms range by (auto simp: half_key_def)
qed

lemma round_keys_run:
  assumes "n \<le> 16"
  shows "case fold round_key_step [0..<n] (split_key key, replicate 16 (replicate 7 0)) of ((Kc, Kd), Ks) \<Rightarrow>
    half_key (key_half key 0) (if n = 0 then 0 else rotation (n - 1)) Kc \<and>
    half_key (key_half key 28) (if n = 0 then 0 else rotation (n - 1)) Kd \<and>
    length Ks = 16 \<and> (\<forall>i < n. round_key_ok key i (Ks ! i))"
  using assms
proof (induction n)
  case 0
  then show ?case using split_key_halves [of key] by (cases "split_key key") simp
next
  case (Suc n)
  obtain Kc Kd Ks where st: "fold round_key_step [0..<n] (split_key key, replicate 16 (replicate 7 0)) = ((Kc, Kd), Ks)"
    by (metis prod.exhaust)
  have IH: "half_key (key_half key 0) (if n = 0 then 0 else rotation (n - 1)) Kc"
    "half_key (key_half key 28) (if n = 0 then 0 else rotation (n - 1)) Kd" "length Ks = 16" "\<forall>i < n. round_key_ok key i (Ks ! i)"
    using Suc st by simp_all
  let ?s = "key_shift_sizes ! (n + 1)" and ?m = "key_shift_bytes ! (n + 1)"
  have t: "?s = 1 \<and> ?m = 0x80 \<or> ?s = 2 \<and> ?m = 0xC0" "(if n = 0 then 0 else rotation (n - 1)) + ?s = rotation n"
    using shift_tables Suc.prems by auto
  have half: "half_key (key_half key 0) (rotation n) (rotate_half Kc ?s ?m)" "half_key (key_half key 28) (rotation n) (rotate_half Kd ?s ?m)"
    using rotate_half_key [OF IH(1) t(1)] rotate_half_key [OF IH(2) t(1)] t(2) by simp_all
  have "fold round_key_step [0..<Suc n] (split_key key, replicate 16 (replicate 7 0)) =
      ((rotate_half Kc ?s ?m, rotate_half Kd ?s ?m), Ks[n := permute (rotate_half Kd ?s ?m)
        (permute (rotate_half Kc ?s ?m) (replicate 7 0) pc2_key_permutation 0 24) pc2_key_permutation 24 48])"
    by (simp add: st round_key_step_def rotate_sub_keys_def Let_def)
  then show ?case using half round_key_permuted [OF half] IH(3,4) Suc.prems by (auto simp: nth_list_update less_Suc_eq)
qed

section \<open>Properties\<close>

text \<open>
  C3. The byte-wise key schedule is the one of the standard: bit \<open>k\<close> of the key of round \<open>i\<close> is the
  bit of the left half (of the right half from 24 on) that the second permutation picks after the
  half was rotated by the sum of the shifts so far; after round 16 both halves are back in place.
\<close>

theorem des_round_keys_standard:
  assumes "i < 16" "k < 48"
  shows "bit_at (des_prepare_round_keys key ! i) k =
      bit_at key (pc1_key_permutation ! ((if k < 24 then 0 else 28) + (pc2_key_permutation ! k - 1 + rotation i) mod 28) - 1)
    \<and> rotation 15 mod 28 = 0"
proof -
  have "round_key_ok key i (des_prepare_round_keys key ! i)"
    using round_keys_run [of 16 key] assms(1) by (auto simp: des_prepare_round_keys_def split: prod.splits)
  moreover have "rotation 15 mod 28 = 0" by code_simp
  ultimately show ?thesis using assms(2) by (simp add: round_key_ok_def key_half_def)
qed

theorem des_round_keys_standard_witness:
  "bit_at (des_prepare_round_keys (replicate 8 1) ! 5) 30 =
     bit_at (replicate 8 1) (pc1_key_permutation ! ((if 30 < (24 :: nat) then 0 else 28) + (pc2_key_permutation ! 30 - 1 + rotation 5) mod 28) - 1)"
  by (rule des_round_keys_standard [THEN conjunct1]) simp_all

text \<open>
  Decryption undoes encryption of every block under every key, and encryption undoes
  decryption.
\<close>

lemma des_cipher_roundtrip:
  assumes "length x = 8" "de \<noteq> 1"
  shows "des_cipher key (des_cipher key x (replicate 8 0) 1) (replicate 8 0) de = x \<and>
    des_cipher key (des_cipher key x (replicate 8 0) de) (replicate 8 0) 1 = x"
proof -
  let ?E = "\<lambda>x. des_cipher key x (replicate 8 0) 1" and ?D = "\<lambda>x. des_cipher key x (replicate 8 0) de"
  let ?B = "{x :: u8 list. length x = 8}"
  have "finite ?B" using finite_lists_length_eq [of "UNIV :: u8 set" 8] by simp
  moreover have "inj_on ?E ?B" using des_cipher_inverse [OF _ assms(2)] by (intro inj_onI) (metis mem_Collect_eq)
  moreover have "?E ` ?B \<subseteq> ?B" by auto
  ultimately have "?E ` ?B = ?B" by (simp add: endo_inj_surj)
  then obtain y where y: "length y = 8" "x = ?E y" using assms(1) by (metis (mono_tags, lifting) imageE mem_Collect_eq)
  then have "?E (?D x) = x" using des_cipher_inverse [OF y(1) assms(2), of key] by simp
  then show ?thesis using des_cipher_inverse [OF assms, of key] by blast
qed

text \<open>
  Triple encryption with equal first and second keys is single encryption with the third: the
  keystreams agree block for block.
\<close>

lemma tdea_single_key:
  assumes "length iv = 8"
  shows "tdea_tofb_keystream_output_bytes K K K3 iv ks_bytes 1 n = des56_ofb_keystream_output K3 iv ks_bytes 1 n"
proof -
  have "fold (tdea_step K K K3) [0..<n] (1, iv, ks_bytes) = (1, fold (des_ofb_step K3 1) [0..<n] (iv, ks_bytes)) \<and>
      length (fst (fold (des_ofb_step K3 1) [0..<n] (iv, ks_bytes))) = 8"
  proof (induction n)
    case (Suc n)
    obtain r b where rb: "fold (des_ofb_step K3 1) [0..<n] (iv, ks_bytes) = (r, b)" by fastforce
    have "des_cipher K (des_cipher K r (replicate 8 0) 1) (replicate 8 0) 0 = r"
      using Suc rb by (intro des_cipher_inverse) simp_all
    moreover have "(1 XOR 1) AND 1 = (0 :: nat)" "(0 XOR 1) AND 1 = (1 :: nat)" by simp_all
    ultimately have step: "tdea_step K K K3 n (1, r, b) = (1, des_ofb_step K3 1 n (r, b))"
      unfolding tdea_step_def des_ofb_step_def Let_def prod.case by (simp only:)
    have "length (fst (des_ofb_step K3 1 n (r, b))) = 8" by (simp add: des_ofb_step_def Let_def)
    moreover have "fold (tdea_step K K K3) [0..<n] (1, iv, ks_bytes) = (1, r, b)" using Suc rb by simp
    ultimately show ?case using step rb by simp
  qed (use assms in simp)
  then show ?thesis by (simp add: tdea_tofb_keystream_output_bytes_def des56_ofb_keystream_output_def)
qed

end
