(* ===== verification/Rc4.thy ===== *)
theory Rc4
  imports Prelude
begin

text \<open>
  The stream cipher RC4 of \<open>src/crypto/crypt-rc4.c\<close>, written twice there: once adding the keystream
  to a message, once storing it. The table entries are below 256 in both, so one list of natural
  numbers stands for the \<open>uint8_t\<close> and the \<open>unsigned int\<close> table. The decoder state of the
  Hytera set-up is the record \<open>rc4_slots\<close>.
\<close>

section \<open>Model\<close>

definition swap_at :: "nat \<Rightarrow> nat \<Rightarrow> nat list \<Rightarrow> nat list" where
  "swap_at i j S = (let t = S ! i; S = S[i := S ! j] in S[j := t])"

definition schedule_step :: "u8 list \<Rightarrow> nat \<Rightarrow> nat \<Rightarrow> nat \<times> nat list \<Rightarrow> nat \<times> nat list" where
  "schedule_step key keylength i s =
     (case s of (j, S) \<Rightarrow> let j = (j + S ! i + unat (key ! (i mod keylength))) mod 256 in (j, swap_at i j S))"

definition key_schedule :: "u8 list \<Rightarrow> nat \<Rightarrow> nat list" where
  "key_schedule key keylength = snd (fold (schedule_step key keylength) [0..<256] (0, [0..<256]))"

text \<open>One step of the generator.\<close>

definition generate :: "nat \<times> nat \<times> nat list \<Rightarrow> nat \<times> nat \<times> nat list" where
  "generate s = (case s of (i, j, S) \<Rightarrow> let i = (i + 1) mod 256; j = (j + S ! i) mod 256 in (i, j, swap_at i j S))"

definition output_byte :: "nat \<times> nat \<times> nat list \<Rightarrow> nat" where
  "output_byte s = (case s of (i, j, S) \<Rightarrow> S ! ((S ! i + S ! j) mod 256))"

definition voice_step :: "nat \<Rightarrow> u8 list \<Rightarrow> nat \<Rightarrow> (nat \<times> nat \<times> nat list) \<times> u8 list \<Rightarrow> (nat \<times> nat \<times> nat list) \<times> u8 list" where
  "voice_step skip cipher count sp =
     (case sp of (s, plain) \<Rightarrow>
        let s = generate s
        in (s, if count \<ge> skip then plain[count - skip := of_nat (output_byte s) XOR cipher ! (count - skip)] else plain))"

definition rc4_voice_decrypt :: "int \<Rightarrow> nat \<Rightarrow> nat \<Rightarrow> u8 list \<Rightarrow> u8 list \<Rightarrow> u8 list \<Rightarrow> u8 list" where
  "rc4_voice_decrypt dropped keylength messagelength key cipher plain =
     (let skip = (if dropped < 0 then 0 else nat dropped)
      in snd (fold (voice_step skip cipher) [0..<messagelength + skip] ((0, 0, key_schedule key keylength), plain)))"

definition block_step :: "nat \<Rightarrow> nat \<Rightarrow> (nat \<times> nat \<times> nat list) \<times> nat \<times> u8 list \<Rightarrow> (nat \<times> nat \<times> nat list) \<times> nat \<times> u8 list" where
  "block_step skip count sx =
     (case sx of (s, x, output_blocks) \<Rightarrow>
        let s = generate s
        in if count \<ge> skip then (s, x + 1, output_blocks[x := of_nat (output_byte s)]) else (s, x, output_blocks))"

definition rc4_block_output :: "int \<Rightarrow> nat \<Rightarrow> nat \<Rightarrow> u8 list \<Rightarrow> u8 list \<Rightarrow> u8 list" where
  "rc4_block_output dropped keylen meslen key output_blocks =
     (let skip = (if dropped < 0 then 0 else nat dropped)
      in snd (snd (fold (block_step skip) [0..<meslen + skip] ((0, 0, key_schedule key keylen), 0, output_blocks))))"

record rc4_slots =
  rc4_currentslot :: int
  ks_octetL :: "u8 list"
  ks_octetR :: "u8 list"

definition five_bytes :: "u64 \<Rightarrow> u8 list" where
  "five_bytes v = [ucast (drop_bit 32 (v AND 0xFF00000000)), ucast (drop_bit 24 (v AND 0xFF000000)),
     ucast (drop_bit 16 (v AND 0xFF0000)), ucast (drop_bit 8 (v AND 0xFF00)), ucast (v AND 0xFF)]"

definition hytera_enhanced_rc4_setup :: "u64 \<Rightarrow> u64 \<Rightarrow> rc4_slots \<Rightarrow> rc4_slots" where
  "hytera_enhanced_rc4_setup key_value mi_value state =
     (let key = five_bytes key_value;
          mi = five_bytes mi_value;
          ks = rc4_block_output 0 5 135 key (replicate 135 0);
          kiv = map (\<lambda>i. key ! i XOR mi ! i) [0..<5];
          ks_octets = (if rc4_currentslot state = 0 then ks_octetL state else ks_octetR state);
          ks_octets = fold (\<lambda>i ks_octets. ks_octets[i := kiv ! (i mod 5) XOR ks ! i]) [0..<135] ks_octets
      in if rc4_currentslot state = 0 then state\<lparr>ks_octetL := ks_octets\<rparr> else state\<lparr>ks_octetR := ks_octets\<rparr>)"

section \<open>The table is a permutation\<close>

definition table_ok :: "nat list \<Rightarrow> bool" where
  "table_ok S \<longleftrightarrow> length S = 256 \<and> distinct S \<and> set S = {0..<256}"

lemma swap_at_ok: "table_ok S \<Longrightarrow> i < 256 \<Longrightarrow> j < 256 \<Longrightarrow> table_ok (swap_at i j S)"
  using set_swap [of i S j] distinct_swap [of i S j] by (simp add: table_ok_def swap_at_def Let_def)

lemma table_entry: "table_ok S \<Longrightarrow> i < 256 \<Longrightarrow> S ! i < 256"
  by (metis atLeastLessThan_iff nth_mem table_ok_def)

lemma schedule_step_ok: "table_ok (snd s) \<Longrightarrow> i < 256 \<Longrightarrow> table_ok (snd (schedule_step key keylength i s))"
  by (cases s) (simp add: schedule_step_def Let_def swap_at_ok)

lemma key_schedule_ok: "table_ok (key_schedule key keylength)"
proof -
  have "table_ok (snd (fold (schedule_step key keylength) [0..<n] (0, [0..<256])))" if "n \<le> 256" for n
    using that by (induction n) (simp_all add: schedule_step_ok table_ok_def [of "[0..<256]"])
  then show ?thesis by (simp add: key_schedule_def)
qed

text \<open>The generator keeps its indices in the table and the table a permutation.\<close>

definition generator_ok :: "nat \<times> nat \<times> nat list \<Rightarrow> bool" where
  "generator_ok s = (case s of (i, j, S) \<Rightarrow> i < 256 \<and> j < 256 \<and> table_ok S)"

interpretation generator: run_invariant "\<lambda>(_ :: nat). generate" generator_ok
  by unfold_locales (auto simp: generate_def generator_ok_def Let_def swap_at_ok)

lemma generator_start: "generator_ok (0, 0, key_schedule key keylength)"
  by (simp add: generator_ok_def key_schedule_ok)

lemma output_byte_less: "generator_ok s \<Longrightarrow> output_byte s < 256"
  by (cases s) (simp add: generator_ok_def output_byte_def table_entry)

section \<open>The two routines\<close>

lemma routines_run:
  assumes "n \<le> skip + length out" "n \<le> skip + length plain"
  shows "fst (fold (block_step skip) [0..<n] (s, 0, out)) = (generate ^^ n) s \<and>
    fst (snd (fold (block_step skip) [0..<n] (s, 0, out))) = n - skip \<and>
    length (snd (snd (fold (block_step skip) [0..<n] (s, 0, out)))) = length out \<and>
    fst (fold (voice_step skip cipher) [0..<n] (s, plain)) = (generate ^^ n) s \<and>
    length (snd (fold (voice_step skip cipher) [0..<n] (s, plain))) = length plain \<and>
    (\<forall>k < n - skip. snd (snd (fold (block_step skip) [0..<n] (s, 0, out))) ! k = of_nat (output_byte ((generate ^^ (k + skip + 1)) s))) \<and>
    (\<forall>k < n - skip. snd (fold (voice_step skip cipher) [0..<n] (s, plain)) ! k =
       of_nat (output_byte ((generate ^^ (k + skip + 1)) s)) XOR cipher ! k) \<and>
    (\<forall>k \<ge> n - skip. snd (fold (voice_step skip cipher) [0..<n] (s, plain)) ! k = plain ! k)"
  using assms
proof (induction n)
  case (Suc n)
  obtain x o' where b: "fold (block_step skip) [0..<n] (s, 0, out) = ((generate ^^ n) s, x, o')" "x = n - skip" "length o' = length out"
    "\<forall>k < n - skip. o' ! k = of_nat (output_byte ((generate ^^ (k + skip + 1)) s))"
    using Suc by (cases "fold (block_step skip) [0..<n] (s, 0, out)") auto
  obtain p where v: "fold (voice_step skip cipher) [0..<n] (s, plain) = ((generate ^^ n) s, p)" "length p = length plain"
    "\<forall>k < n - skip. p ! k = of_nat (output_byte ((generate ^^ (k + skip + 1)) s)) XOR cipher ! k" "\<forall>k \<ge> n - skip. p ! k = plain ! k"
    using Suc by (cases "fold (voice_step skip cipher) [0..<n] (s, plain)") auto
  have steps: "fold (block_step skip) [0..<Suc n] (s, 0, out) = block_step skip n ((generate ^^ n) s, x, o')"
    "fold (voice_step skip cipher) [0..<Suc n] (s, plain) = voice_step skip cipher n ((generate ^^ n) s, p)"
    using b(1) v(1) by simp_all
  show ?case
  proof (cases "skip \<le> n")
    case True
    then have n: "Suc n - skip = Suc (n - skip)" "n - skip + skip + 1 = Suc n" "n - skip < length out" "n - skip < length plain"
      using Suc.prems by simp_all
    show ?thesis unfolding steps using True n b(2-) v(2-)
      by (auto simp: block_step_def voice_step_def Let_def less_Suc_eq nth_list_update)
  next
    case False
    then show ?thesis unfolding steps using b(2-) v(2-) by (simp add: block_step_def voice_step_def Let_def)
  qed
qed simp

lemma block_output_nth:
  assumes "n \<le> length out" "k < n"
  shows "rc4_block_output d keylen n key out ! k = of_nat (output_byte ((generate ^^ (k + nat d + 1)) (0, 0, key_schedule key keylen)))"
  using routines_run [of "n + nat d" "nat d" out out "(0, 0, key_schedule key keylen)" "[]"] assms
  by (auto simp: rc4_block_output_def Let_def)

lemma voice_decrypt_nth:
  assumes "n \<le> length plain" "k < length plain"
  shows "rc4_voice_decrypt d keylen n key cipher plain ! k = (if k < n
    then of_nat (output_byte ((generate ^^ (k + nat d + 1)) (0, 0, key_schedule key keylen))) XOR cipher ! k else plain ! k)"
  using routines_run [of "n + nat d" "nat d" plain plain "(0, 0, key_schedule key keylen)" cipher] assms
  by (auto simp: rc4_voice_decrypt_def Let_def)

lemma length_voice_decrypt: "n \<le> length plain \<Longrightarrow> length (rc4_voice_decrypt d keylen n key cipher plain) = length plain"
  using routines_run [of "n + nat d" "nat d" plain plain "(0, 0, key_schedule key keylen)" cipher]
  by (auto simp: rc4_voice_decrypt_def Let_def)

section \<open>Properties\<close>

text \<open>
  The two RC4 routines generate one keystream, also when bytes are dropped (a negative count
  drops none): decryption adds what the other routine stores, leaves what is after the message,
  and undoes itself; at every step the indices are in range and the table is a permutation.
\<close>

lemma rc4_routines_agree:
  assumes "n \<le> length plain" "n \<le> length out"
  shows "rc4_voice_decrypt d keylen n key cipher plain =
      map (\<lambda>k. if k < n then rc4_block_output d keylen n key out ! k XOR cipher ! k else plain ! k) [0..<length plain] \<and>
    take n (rc4_voice_decrypt d keylen n key (rc4_voice_decrypt d keylen n key cipher plain) plain) =
      map (\<lambda>k. cipher ! k) [0..<n] \<and>
    (\<forall>m. generator_ok ((generate ^^ m) (0, 0, key_schedule key keylen)))"
proof -
  have "generator_ok ((generate ^^ m) (0, 0, key_schedule key keylen))" for m
    by (induction m) (simp_all add: generator_start generator.keeps)
  moreover have "rc4_voice_decrypt d keylen n key cipher plain =
      map (\<lambda>k. if k < n then rc4_block_output d keylen n key out ! k XOR cipher ! k else plain ! k) [0..<length plain]"
    using assms by (intro nth_equalityI) (simp_all add: length_voice_decrypt voice_decrypt_nth block_output_nth)
  moreover have "take n (rc4_voice_decrypt d keylen n key (rc4_voice_decrypt d keylen n key cipher plain) plain) = map (\<lambda>k. cipher ! k) [0..<n]"
    using assms by (intro nth_equalityI) (simp_all add: length_voice_decrypt voice_decrypt_nth flip: xor.assoc)
  ultimately show ?thesis by blast
qed

end
