(* ===== verification/Trunk_Tuning.thy ===== *)
theory Trunk_Tuning
  imports Prelude
begin

text \<open>
  The trunk-tuning requests, \<open>src/runtime/trunk_tuning_hooks.c\<close>: a table of 64 correlated
  requests shared by the decoder threads and the tuner backend, the count of unresolved requests
  and the generation a collected frame is compared with. Every operation that takes the spin lock
  is one step; drawing a request identifier and the reads of the frame gate happen outside the
  lock and are steps of their own. The decode clock is an argument of the operations that read it,
  and the installed hooks are arguments of the wrappers that call them. A pointer to a record is
  its index in the table.
\<close>

section \<open>Model\<close>

datatype tune_result =
  RESULT_OK | RESULT_DEFERRED | RESULT_PENDING | RESULT_FAILED | RESULT_TIMEOUT

definition tune_result_is_ok :: "tune_result \<Rightarrow> bool" where
  "tune_result_is_ok r \<longleftrightarrow> r = RESULT_OK \<or> r = RESULT_PENDING"

definition tune_result_is_complete :: "tune_result \<Rightarrow> bool" where
  "tune_result_is_complete r \<longleftrightarrow> r = RESULT_OK"

definition REQUEST_HISTORY :: nat where
  "REQUEST_HISTORY = 64"

datatype request_state = REQUEST_FREE | REQUEST_PENDING | REQUEST_FAILED_GATED | REQUEST_FINISHED

record tuning_request =
  request_id :: u64
  completed_m_ns :: u64
  req_result :: tune_result
  req_state :: request_state
  inherited_failure_gate :: bool
  backend_complete :: bool
  owner_ready :: bool
  disowned :: bool

record trunk_tuning =
  generation :: u64
  next_request :: u64
  unresolved_count :: int
  requests :: "tuning_request list"

definition zero_request :: tuning_request where
  "zero_request = \<lparr>request_id = 0, completed_m_ns = 0, req_result = RESULT_OK, req_state = REQUEST_FREE,
     inherited_failure_gate = False, backend_complete = False, owner_ready = False, disowned = False\<rparr>"

definition initial_tuning :: trunk_tuning where
  "initial_tuning = \<lparr>generation = 1, next_request = 0, unresolved_count = 0,
     requests = replicate REQUEST_HISTORY zero_request\<rparr>"

abbreviation req_at :: "trunk_tuning \<Rightarrow> nat \<Rightarrow> tuning_request" where
  "req_at t i \<equiv> requests t ! i"

definition upd_req :: "nat \<Rightarrow> (tuning_request \<Rightarrow> tuning_request) \<Rightarrow> trunk_tuning \<Rightarrow> trunk_tuning" where
  "upd_req i f t = t\<lparr>requests := (requests t)[i := f (req_at t i)]\<rparr>"

definition add_unresolved :: "int \<Rightarrow> trunk_tuning \<Rightarrow> trunk_tuning" where
  "add_unresolved n t = t\<lparr>unresolved_count := unresolved_count t + n\<rparr>"

definition request_find_locked :: "u64 \<Rightarrow> trunk_tuning \<Rightarrow> nat option" where
  "request_find_locked id0 t =
     find (\<lambda>i. request_id (req_at t i) = id0 \<and> req_state (req_at t i) \<noteq> REQUEST_FREE) [0..<REQUEST_HISTORY]"

text \<open>The oldest record of a state seen so far, in a scan that reaches record \<open>i\<close>.\<close>

definition older :: "request_state \<Rightarrow> trunk_tuning \<Rightarrow> nat \<Rightarrow> nat option \<Rightarrow> nat option" where
  "older st t i oldest =
     (if req_state (req_at t i) = st \<and>
         (case oldest of None \<Rightarrow> True | Some j \<Rightarrow> request_id (req_at t i) < request_id (req_at t j))
      then Some i else oldest)"

fun slot_scan :: "trunk_tuning \<Rightarrow> nat list \<Rightarrow> nat option \<Rightarrow> nat option \<Rightarrow> nat option \<times> bool" where
  "slot_scan t [] oldest_finished oldest_failed =
     (case oldest_finished of
        Some j \<Rightarrow> (Some j, False)
      | None \<Rightarrow> (oldest_failed, oldest_failed \<noteq> None))"
| "slot_scan t (i # is) oldest_finished oldest_failed =
     (if req_state (req_at t i) = REQUEST_FREE then (Some i, False)
      else slot_scan t is (older REQUEST_FINISHED t i oldest_finished) (older REQUEST_FAILED_GATED t i oldest_failed))"

definition request_slot_locked :: "trunk_tuning \<Rightarrow> nat option \<times> bool" where
  "request_slot_locked t = slot_scan t [0..<REQUEST_HISTORY] None None"

text \<open>The loop the three retirement functions share; they differ in the identifiers they retire.\<close>

definition retire_step :: "(u64 \<Rightarrow> bool) \<Rightarrow> nat \<Rightarrow> trunk_tuning \<Rightarrow> trunk_tuning" where
  "retire_step P i t =
     (if req_state (req_at t i) = REQUEST_FAILED_GATED \<and> P (request_id (req_at t i))
      then add_unresolved (-1) (upd_req i (req_state_update (\<lambda>_. REQUEST_FINISHED)) t) else t)"

definition retire_loop :: "(u64 \<Rightarrow> bool) \<Rightarrow> trunk_tuning \<Rightarrow> trunk_tuning" where
  "retire_loop P t = fold (retire_step P) [0..<REQUEST_HISTORY] t"

definition retire_failed_requests_locked :: "u64 \<Rightarrow> trunk_tuning \<Rightarrow> trunk_tuning" where
  "retire_failed_requests_locked successful_id t = retire_loop (\<lambda>id0. id0 < successful_id) t"

definition generation_advance :: "trunk_tuning \<Rightarrow> trunk_tuning" where
  "generation_advance t = t\<lparr>generation := generation t + 1\<rparr>"

definition finish_success_locked :: "nat \<Rightarrow> trunk_tuning \<Rightarrow> trunk_tuning" where
  "finish_success_locked i t =
     (if req_state (req_at t i) \<noteq> REQUEST_PENDING then t
      else let id0 = request_id (req_at t i);
               t1 = generation_advance t;
               t2 = upd_req i (req_state_update (\<lambda>_. REQUEST_FINISHED)) t1;
               t3 = add_unresolved (-1) t2
           in retire_failed_requests_locked id0 t3)"

definition finish_rolled_back_locked :: "nat \<Rightarrow> trunk_tuning \<Rightarrow> trunk_tuning" where
  "finish_rolled_back_locked i t =
     (if req_state (req_at t i) = REQUEST_FINISHED then t
      else if inherited_failure_gate (req_at t i)
      then upd_req i (req_state_update (\<lambda>_. REQUEST_FAILED_GATED)) t
      else add_unresolved (-1) (upd_req i (req_state_update (\<lambda>_. REQUEST_FINISHED)) t))"

text \<open>The identifier a request draws: the counter plus one, again when that wrapped to zero.\<close>

function draw_request_id :: "u64 \<Rightarrow> u64" where
  "draw_request_id counter = (if counter + 1 = 0 then draw_request_id (counter + 1) else counter + 1)"
  by pat_completeness auto
termination
  by (relation "measure (\<lambda>c. if c + 1 = 0 then 1 else 0)") auto

declare draw_request_id.simps [simp del]

definition request_draw :: "trunk_tuning \<Rightarrow> u64 \<times> trunk_tuning" where
  "request_draw t = (let id0 = draw_request_id (next_request t) in (id0, t\<lparr>next_request := id0\<rparr>))"

definition request_claim :: "u64 \<Rightarrow> trunk_tuning \<Rightarrow> u64 \<times> trunk_tuning" where
  "request_claim id0 t =
     (case request_slot_locked t of
        (None, _) \<Rightarrow> (0, t)
      | (Some i, inherited) \<Rightarrow>
          let t1 = upd_req i (\<lambda>_. \<lparr>request_id = id0, completed_m_ns = 0, req_result = RESULT_PENDING,
                req_state = REQUEST_PENDING, inherited_failure_gate = inherited, backend_complete = False,
                owner_ready = False, disowned = False\<rparr>) t
          in (id0, if inherited then t1 else add_unresolved 1 t1))"

definition request_begin :: "trunk_tuning \<Rightarrow> u64 \<times> trunk_tuning" where
  "request_begin t = (case request_draw t of (id0, t1) \<Rightarrow> request_claim id0 t1)"

definition requests_reset :: "trunk_tuning \<Rightarrow> trunk_tuning" where
  "requests_reset t = t\<lparr>requests := replicate REQUEST_HISTORY zero_request, unresolved_count := 0\<rparr>"

definition retire_failed_requests :: "trunk_tuning \<Rightarrow> trunk_tuning" where
  "retire_failed_requests t = (if unresolved_count t = 0 then t else retire_loop (\<lambda>_. True) t)"

definition retire_failed_requests_through :: "u64 \<Rightarrow> trunk_tuning \<Rightarrow> trunk_tuning" where
  "retire_failed_requests_through id0 t =
     (if id0 = 0 \<or> unresolved_count t = 0 then t else retire_loop (\<lambda>i. i \<le> id0) t)"

definition answered :: "u64 \<Rightarrow> tune_result \<Rightarrow> tuning_request \<Rightarrow> tuning_request" where
  "answered now r q = q\<lparr>req_result := r, completed_m_ns := now, backend_complete := True\<rparr>"

definition request_publish :: "u64 \<Rightarrow> u64 \<Rightarrow> tune_result \<Rightarrow> trunk_tuning \<Rightarrow> trunk_tuning" where
  "request_publish now id0 r t =
     (if id0 = 0 \<or> r = RESULT_PENDING then t
      else case request_find_locked id0 t of
        None \<Rightarrow> t
      | Some i \<Rightarrow>
          if req_state (req_at t i) \<noteq> REQUEST_PENDING then t
          else let t1 = upd_req i (answered now r) t
               in if tune_result_is_complete r
                  then if owner_ready (req_at t1 i) then finish_success_locked i t1 else t1
                  else if disowned (req_at t1 i) then finish_rolled_back_locked i t1
                  else upd_req i (req_state_update (\<lambda>_. REQUEST_FAILED_GATED)) t1)"

definition request_mark_ready :: "u64 \<Rightarrow> trunk_tuning \<Rightarrow> trunk_tuning" where
  "request_mark_ready id0 t =
     (if id0 = 0 then t
      else case request_find_locked id0 t of
        None \<Rightarrow> t
      | Some i \<Rightarrow>
          if req_state (req_at t i) = REQUEST_PENDING
          then let t1 = upd_req i (owner_ready_update (\<lambda>_. True)) t
               in if backend_complete (req_at t1 i) \<and> tune_result_is_complete (req_result (req_at t1 i))
                  then finish_success_locked i t1 else t1
          else t)"

definition request_complete :: "u64 \<Rightarrow> u64 \<Rightarrow> tune_result \<Rightarrow> trunk_tuning \<Rightarrow> trunk_tuning" where
  "request_complete now id0 r t =
     (if id0 = 0 \<or> r = RESULT_PENDING then t
      else case request_find_locked id0 t of
        None \<Rightarrow> t
      | Some i \<Rightarrow>
          if req_state (req_at t i) = REQUEST_FINISHED then t
          else let t1 = upd_req i (owner_ready_update (\<lambda>_. True)) t
               in if req_state (req_at t1 i) = REQUEST_FAILED_GATED
                  then if \<not> tune_result_is_complete r then finish_rolled_back_locked i t1 else t1
                  else if \<not> backend_complete (req_at t1 i)
                  then let t2 = upd_req i (answered now r) t1
                       in if tune_result_is_complete r then finish_success_locked i t2
                          else finish_rolled_back_locked i t2
                  else let backend_committed = tune_result_is_complete (req_result (req_at t1 i));
                           owner_committed = tune_result_is_complete r
                       in if backend_committed \<and> owner_committed then finish_success_locked i t1
                          else if \<not> backend_committed \<and> \<not> owner_committed then finish_rolled_back_locked i t1
                          else let t2 = (if \<not> owner_committed then upd_req i (req_result_update (\<lambda>_. r)) t1 else t1)
                               in upd_req i (req_state_update (\<lambda>_. REQUEST_FAILED_GATED)) t2)"

definition request_disown :: "u64 \<Rightarrow> trunk_tuning \<Rightarrow> trunk_tuning" where
  "request_disown id0 t =
     (if id0 = 0 then t
      else case request_find_locked id0 t of
        None \<Rightarrow> t
      | Some i \<Rightarrow>
          if req_state (req_at t i) = REQUEST_PENDING
          then let t1 = upd_req i (\<lambda>q. q\<lparr>disowned := True, owner_ready := True\<rparr>) t
               in if backend_complete (req_at t1 i) \<and> tune_result_is_complete (req_result (req_at t1 i))
                  then finish_success_locked i t1 else t1
          else if req_state (req_at t i) = REQUEST_FAILED_GATED then finish_rolled_back_locked i t
          else t)"

definition pending_request :: "trunk_tuning \<Rightarrow> u64" where
  "pending_request t =
     fold (\<lambda>i newest. if (req_state (req_at t i) = REQUEST_PENDING \<or> req_state (req_at t i) = REQUEST_FAILED_GATED)
                          \<and> newest < request_id (req_at t i) then request_id (req_at t i) else newest)
       [0..<REQUEST_HISTORY] 0"

text \<open>The result and, when the request was answered, the nanosecond it was answered at.\<close>

definition request_status :: "u64 \<Rightarrow> trunk_tuning \<Rightarrow> tune_result \<times> u64" where
  "request_status id0 t =
     (if id0 = 0 then (RESULT_FAILED, 0)
      else case request_find_locked id0 t of
        None \<Rightarrow> (RESULT_FAILED, 0)
      | Some i \<Rightarrow> (if req_state (req_at t i) = REQUEST_PENDING then RESULT_PENDING else req_result (req_at t i),
                   completed_m_ns (req_at t i)))"

text \<open>The frame gate reads the count, the generation, the count and the generation again, each at its own moment.\<close>

definition frame_is_current_reads :: "u64 \<Rightarrow> trunk_tuning \<Rightarrow> trunk_tuning \<Rightarrow> trunk_tuning \<Rightarrow> trunk_tuning \<Rightarrow> bool" where
  "frame_is_current_reads frame_generation t1 t2 t3 t4 =
     (if unresolved_count t1 \<noteq> 0 then False
      else if frame_generation \<noteq> generation t2 then False
      else if unresolved_count t3 \<noteq> 0 then False
      else frame_generation = generation t4)"

definition frame_is_current :: "u64 \<Rightarrow> trunk_tuning \<Rightarrow> bool" where
  "frame_is_current frame_generation t = frame_is_current_reads frame_generation t t t t"

definition frame_is_dispatchable :: "u64 \<Rightarrow> bool \<Rightarrow> trunk_tuning \<Rightarrow> bool \<times> trunk_tuning" where
  "frame_is_dispatchable frame_generation tune_owner_active t =
     (let t1 = (if \<not> tune_owner_active then retire_failed_requests t else t)
      in (frame_is_current frame_generation t1, t1))"

definition note_result :: "u64 \<Rightarrow> u64 \<Rightarrow> tune_result \<Rightarrow> trunk_tuning \<Rightarrow> tune_result \<times> trunk_tuning" where
  "note_result now id0 r t =
     (if r = RESULT_PENDING
      then let t1 = request_mark_ready id0 t; status = fst (request_status id0 t1)
           in (if status = RESULT_OK then status else r, t1)
      else let t1 = request_complete now id0 r t in (fst (request_status id0 t1), t1))"

text \<open>
  A hook is the engine's function behind the pointer: it gets the request identifier, may change
  the caller's options and state (one value here, \<open>'e\<close>) and the table, and gives a result.
\<close>

type_synonym 'e tune_hook = "u64 \<Rightarrow> 'e \<times> trunk_tuning \<Rightarrow> tune_result \<times> 'e \<times> trunk_tuning"

text \<open>The body the three wrappers share: the result, the identifier handed out, the caller's state and the table.\<close>

definition hook_request :: "'e tune_hook option \<Rightarrow> u64 \<Rightarrow> 'e \<Rightarrow> trunk_tuning \<Rightarrow> tune_result \<times> u64 \<times> 'e \<times> trunk_tuning" where
  "hook_request hook now e t =
     (case request_begin t of (id0, t1) \<Rightarrow>
        if id0 = 0 then (RESULT_FAILED, 0, e, t1)
        else case hook of
          Some h \<Rightarrow> (case h id0 (e, t1) of (r, e1, t2) \<Rightarrow> (case note_result now id0 r t2 of (r', t3) \<Rightarrow> (r', id0, e1, t3)))
        | None \<Rightarrow> (case note_result now id0 RESULT_FAILED t1 of (r', t3) \<Rightarrow> (r', id0, e, t3)))"

record 'e tuning_hooks =
  tune_to_freq_request :: "(int \<Rightarrow> int \<Rightarrow> 'e tune_hook) option"
  tune_to_cc_request :: "(int \<Rightarrow> int \<Rightarrow> 'e tune_hook) option"
  return_to_cc_request :: "'e tune_hook option"

definition hook_tune_to_freq :: "'e tuning_hooks \<Rightarrow> u64 \<Rightarrow> int \<Rightarrow> int \<Rightarrow> 'e \<Rightarrow> trunk_tuning \<Rightarrow> tune_result \<times> u64 \<times> 'e \<times> trunk_tuning" where
  "hook_tune_to_freq hooks now freq ted_sps e t =
     hook_request (map_option (\<lambda>h. h freq ted_sps) (tune_to_freq_request hooks)) now e t"

definition hook_tune_to_cc :: "'e tuning_hooks \<Rightarrow> u64 \<Rightarrow> int \<Rightarrow> int \<Rightarrow> 'e \<Rightarrow> trunk_tuning \<Rightarrow> tune_result \<times> u64 \<times> 'e \<times> trunk_tuning" where
  "hook_tune_to_cc hooks now freq ted_sps e t =
     hook_request (map_option (\<lambda>h. h freq ted_sps) (tune_to_cc_request hooks)) now e t"

definition hook_return_to_cc :: "'e tuning_hooks \<Rightarrow> u64 \<Rightarrow> 'e \<Rightarrow> trunk_tuning \<Rightarrow> tune_result \<times> u64 \<times> 'e \<times> trunk_tuning" where
  "hook_return_to_cc hooks now e t = hook_request (return_to_cc_request hooks) now e t"

section \<open>Interleavings\<close>

text \<open>
  The table with the identifiers that were drawn and have not claimed a slot yet. A run counts its
  steps, so that a bound on it rules out a wrap of the 64-bit counters.
\<close>

type_synonym tuning_config = "trunk_tuning \<times> u64 list"

inductive tuning_step :: "tuning_config \<Rightarrow> tuning_config \<Rightarrow> bool" where
  draw: "request_draw t = (i, t') \<Longrightarrow> tuning_step (t, ids) (t', i # ids)"
| claim: "i \<in> set ids \<Longrightarrow> tuning_step (t, ids) (snd (request_claim i t), remove1 i ids)"
| publish: "tuning_step (t, ids) (request_publish now i r t, ids)"
| ready: "tuning_step (t, ids) (request_mark_ready i t, ids)"
| complete: "tuning_step (t, ids) (request_complete now i r t, ids)"
| disown: "tuning_step (t, ids) (request_disown i t, ids)"
| retire: "tuning_step (t, ids) (retire_failed_requests t, ids)"
| retire_through: "tuning_step (t, ids) (retire_failed_requests_through i t, ids)"
| direct: "tuning_step (t, ids) (generation_advance t, ids)"
| reset: "tuning_step (t, ids) (requests_reset t, ids)"

inductive tuning_run :: "nat \<Rightarrow> tuning_config \<Rightarrow> tuning_config \<Rightarrow> bool" where
  start: "tuning_run 0 c c"
| step: "tuning_run n c c' \<Longrightarrow> tuning_step c' c'' \<Longrightarrow> tuning_run (Suc n) c c''"

inductive_cases tuning_stepE: "tuning_step c c'"

definition tuning_reachable :: "nat \<Rightarrow> tuning_config \<Rightarrow> bool" where
  "tuning_reachable n c \<longleftrightarrow> tuning_run n (initial_tuning, []) c"

section \<open>The record of a request\<close>

definition unresolved :: "tuning_request \<Rightarrow> bool" where
  "unresolved q \<longleftrightarrow> req_state q = REQUEST_PENDING \<or> req_state q = REQUEST_FAILED_GATED"

definition req_ok :: "tuning_request \<Rightarrow> bool" where
  "req_ok q = (case req_state q of
      REQUEST_FREE \<Rightarrow> True
    | REQUEST_PENDING \<Rightarrow> (if backend_complete q then req_result q = RESULT_OK \<and> \<not> owner_ready q
                          else req_result q = RESULT_PENDING) \<and> (disowned q \<longrightarrow> owner_ready q)
    | REQUEST_FAILED_GATED \<Rightarrow> req_result q \<noteq> RESULT_OK \<and> req_result q \<noteq> RESULT_PENDING \<and>
                              (disowned q \<longrightarrow> inherited_failure_gate q)
    | REQUEST_FINISHED \<Rightarrow> req_result q \<noteq> RESULT_PENDING)"

definition unresolved_records :: "trunk_tuning \<Rightarrow> int" where
  "unresolved_records t = int (length (filter unresolved (requests t)))"

text \<open>The table is well formed but for the record an operation is changing.\<close>

definition wf_but :: "nat \<Rightarrow> trunk_tuning \<Rightarrow> bool" where
  "wf_but i t \<longleftrightarrow> i < REQUEST_HISTORY \<and> length (requests t) = REQUEST_HISTORY \<and>
     unresolved_count t = unresolved_records t \<and> (\<forall>j < REQUEST_HISTORY. j \<noteq> i \<longrightarrow> req_ok (req_at t j))"

definition tuning_wf :: "trunk_tuning \<Rightarrow> bool" where
  "tuning_wf t \<longleftrightarrow> length (requests t) = REQUEST_HISTORY \<and>
     unresolved_count t = unresolved_records t \<and> (\<forall>j < REQUEST_HISTORY. req_ok (req_at t j))"

lemma wf_but_iff: "i < REQUEST_HISTORY \<Longrightarrow> tuning_wf t \<longleftrightarrow> wf_but i t \<and> req_ok (req_at t i)"
  by (auto simp: tuning_wf_def wf_but_def)

lemma upd_req_simps [simp]:
  "generation (upd_req i f t) = generation t" "next_request (upd_req i f t) = next_request t"
  "unresolved_count (upd_req i f t) = unresolved_count t"
  "requests (upd_req i f t) = (requests t)[i := f (req_at t i)]"
  by (simp_all add: upd_req_def)

lemma add_unresolved_simps [simp]:
  "generation (add_unresolved n t) = generation t" "next_request (add_unresolved n t) = next_request t"
  "unresolved_count (add_unresolved n t) = unresolved_count t + n" "requests (add_unresolved n t) = requests t"
  by (simp_all add: add_unresolved_def)

lemma generation_advance_simps [simp]:
  "generation (generation_advance t) = generation t + 1" "next_request (generation_advance t) = next_request t"
  "unresolved_count (generation_advance t) = unresolved_count t" "requests (generation_advance t) = requests t"
  by (simp_all add: generation_advance_def)

lemma answered_simps [simp]:
  "request_id (answered now r q) = request_id q" "req_state (answered now r q) = req_state q"
  "req_result (answered now r q) = r" "owner_ready (answered now r q) = owner_ready q"
  "disowned (answered now r q) = disowned q" "backend_complete (answered now r q)"
  "inherited_failure_gate (answered now r q) = inherited_failure_gate q" "completed_m_ns (answered now r q) = now"
  by (simp_all add: answered_def)

lemma unresolved_records_upd:
  "length (requests t) = REQUEST_HISTORY \<Longrightarrow> i < REQUEST_HISTORY \<Longrightarrow>
   unresolved_records (upd_req i f t) =
     unresolved_records t - of_bool (unresolved (req_at t i)) + of_bool (unresolved (f (req_at t i)))"
  by (simp add: unresolved_records_def length_filter_update)

lemma unresolved_records_cong [simp]:
  "unresolved_records (add_unresolved n t) = unresolved_records t"
  "unresolved_records (generation_advance t) = unresolved_records t"
  by (simp_all add: unresolved_records_def)

lemma wf_but_upd:
  "wf_but i t \<Longrightarrow> unresolved (f (req_at t i)) = unresolved (req_at t i) \<Longrightarrow> wf_but i (upd_req i f t)"
  by (simp add: wf_but_def unresolved_records_upd)

section \<open>Retiring and finishing requests\<close>

definition retire_rec :: "(u64 \<Rightarrow> bool) \<Rightarrow> tuning_request \<Rightarrow> tuning_request" where
  "retire_rec P q = (if req_state q = REQUEST_FAILED_GATED \<and> P (request_id q)
     then q\<lparr>req_state := REQUEST_FINISHED\<rparr> else q)"

lemma unresolved_retire_rec: "unresolved (retire_rec P q) \<Longrightarrow> unresolved q"
  by (auto simp: retire_rec_def unresolved_def split: if_splits)

lemma retire_rec_keeps [simp]:
  "request_id (retire_rec P q) = request_id q" "req_result (retire_rec P q) = req_result q"
  "req_state (retire_rec P q) = REQUEST_FREE \<longleftrightarrow> req_state q = REQUEST_FREE"
  "req_state (retire_rec P q) = REQUEST_PENDING \<longleftrightarrow> req_state q = REQUEST_PENDING"
  "backend_complete (retire_rec P q) = backend_complete q" "owner_ready (retire_rec P q) = owner_ready q"
  by (auto simp: retire_rec_def)

lemma req_ok_retire_rec: "req_ok q \<Longrightarrow> req_ok (retire_rec P q)"
  by (cases "req_state q") (auto simp: retire_rec_def req_ok_def)

lemma retire_step_requests:
  "i < length (requests t) \<Longrightarrow> requests (retire_step P i t) = (requests t)[i := retire_rec P (req_at t i)]"
  by (simp add: retire_step_def retire_rec_def)

lemma retire_step_keeps [simp]:
  "generation (retire_step P i t) = generation t" "next_request (retire_step P i t) = next_request t"
  by (simp_all add: retire_step_def)

lemma retire_step_count:
  "i < length (requests t) \<Longrightarrow> length (requests t) = REQUEST_HISTORY \<Longrightarrow>
   unresolved_count (retire_step P i t) - unresolved_records (retire_step P i t) = unresolved_count t - unresolved_records t"
  by (simp add: retire_step_def unresolved_records_upd) (simp add: unresolved_def)

lemma retire_fold:
  assumes "k \<le> length (requests t)" "length (requests t) = REQUEST_HISTORY"
  shows "requests (fold (retire_step P) [0..<k] t) = map (retire_rec P) (take k (requests t)) @ drop k (requests t) \<and>
    generation (fold (retire_step P) [0..<k] t) = generation t \<and>
    next_request (fold (retire_step P) [0..<k] t) = next_request t \<and>
    unresolved_count (fold (retire_step P) [0..<k] t) - unresolved_records (fold (retire_step P) [0..<k] t) =
      unresolved_count t - unresolved_records t"
  using assms
proof (induction k)
  case 0
  show ?case by simp
next
  case (Suc k)
  let ?u = "fold (retire_step P) [0..<k] t"
  have k: "k < length (requests t)" using Suc.prems by simp
  have IH: "requests ?u = map (retire_rec P) (take k (requests t)) @ drop k (requests t)"
      "generation ?u = generation t" "next_request ?u = next_request t"
      "unresolved_count ?u - unresolved_records ?u = unresolved_count t - unresolved_records t"
    using Suc.IH Suc.prems by simp_all
  have "requests (retire_step P k ?u) = (requests ?u)[k := retire_rec P (req_at ?u k)]"
    using IH(1) k by (intro retire_step_requests) simp
  also have "\<dots> = map (retire_rec P) (take (Suc k) (requests t)) @ drop (Suc k) (requests t)"
    unfolding IH(1) using k
    by (simp add: nth_append list_update_append take_Suc_conv_app_nth Cons_nth_drop_Suc [symmetric])
  finally show ?case
    using IH retire_step_count [of k ?u P] k Suc.prems by simp
qed

lemma retire_loop_eq:
  assumes "length (requests t) = REQUEST_HISTORY"
  shows "requests (retire_loop P t) = map (retire_rec P) (requests t)"
    "generation (retire_loop P t) = generation t" "next_request (retire_loop P t) = next_request t"
    "unresolved_count (retire_loop P t) - unresolved_records (retire_loop P t) = unresolved_count t - unresolved_records t"
  using retire_fold [of REQUEST_HISTORY t P] assms by (simp_all add: retire_loop_def)

lemma wf_retire_loop: "tuning_wf t \<Longrightarrow> tuning_wf (retire_loop P t)"
  using retire_loop_eq [of t P] by (simp add: tuning_wf_def req_ok_retire_rec)

lemma finish_success_eq:
  assumes "i < REQUEST_HISTORY" "length (requests t) = REQUEST_HISTORY" "req_state (req_at t i) = REQUEST_PENDING"
  defines "t' \<equiv> finish_success_locked i t"
  shows "requests t' = map (retire_rec (\<lambda>k. k < request_id (req_at t i)))
       ((requests t)[i := (req_at t i)\<lparr>req_state := REQUEST_FINISHED\<rparr>])"
    "generation t' = generation t + 1" "next_request t' = next_request t"
    "unresolved_count t' - unresolved_records t' = unresolved_count t - unresolved_records t"
  using assms retire_loop_eq [of "add_unresolved (-1) (upd_req i (req_state_update (\<lambda>_. REQUEST_FINISHED)) (generation_advance t))"
      "\<lambda>k. k < request_id (req_at t i)"]
    unresolved_records_upd [of "generation_advance t" i "req_state_update (\<lambda>_. REQUEST_FINISHED)"]
  by (simp_all add: finish_success_locked_def retire_failed_requests_locked_def Let_def)
     (simp add: unresolved_def)

lemma wf_finish_success:
  assumes "wf_but i t" "req_state (req_at t i) = REQUEST_PENDING" "req_result (req_at t i) = RESULT_OK"
  shows "tuning_wf (finish_success_locked i t)"
proof -
  have h: "i < REQUEST_HISTORY" "length (requests t) = REQUEST_HISTORY" using assms(1) by (auto simp: wf_but_def)
  note e = finish_success_eq [OF h assms(2)]
  have ok: "req_ok (((requests t)[i := (req_at t i)\<lparr>req_state := REQUEST_FINISHED\<rparr>]) ! j)" if "j < REQUEST_HISTORY" for j
    using that assms(1,3) h by (cases "j = i") (auto simp: wf_but_def req_ok_def)
  show ?thesis
    unfolding tuning_wf_def using e ok h assms(1) by (auto simp: wf_but_def intro!: req_ok_retire_rec)
qed

lemma wf_finish_rolled_back:
  assumes "wf_but i t" "unresolved (req_at t i)" "req_result (req_at t i) \<noteq> RESULT_OK" "req_result (req_at t i) \<noteq> RESULT_PENDING"
  shows "tuning_wf (finish_rolled_back_locked i t)"
proof -
  have h: "i < REQUEST_HISTORY" "length (requests t) = REQUEST_HISTORY" using assms(1) by (auto simp: wf_but_def)
  have ok: "req_ok (((requests t)[i := (req_at t i)\<lparr>req_state := s\<rparr>]) ! j)"
    if "j < REQUEST_HISTORY" "s = REQUEST_FINISHED \<or> s = REQUEST_FAILED_GATED \<and> inherited_failure_gate (req_at t i)" for j s
    using that assms h by (cases "j = i") (auto simp: wf_but_def req_ok_def)
  show ?thesis
    using assms h ok unresolved_records_upd [of t i]
    by (auto simp: finish_rolled_back_locked_def tuning_wf_def wf_but_def unresolved_def)
qed

lemma request_find_Some:
  "request_find_locked k t = Some i \<Longrightarrow>
   i < REQUEST_HISTORY \<and> request_id (req_at t i) = k \<and> req_state (req_at t i) \<noteq> REQUEST_FREE"
  unfolding request_find_locked_def by (drule find_upt_Some) simp

section \<open>The life of a request\<close>

text \<open>
  How one step may change a record that keeps its slot: an identifier stays, an answer is final, and
  a request in flight either stays so, finishes with success at an advance of the generation, or
  fails.
\<close>

definition req_evolves :: "bool \<Rightarrow> tuning_request \<Rightarrow> tuning_request \<Rightarrow> bool" where
  "req_evolves advanced q q' \<longleftrightarrow> request_id q' = request_id q \<and>
     (req_state q' = REQUEST_FREE \<longleftrightarrow> req_state q = REQUEST_FREE) \<and>
     (req_state q = REQUEST_FINISHED \<longrightarrow> req_state q' = REQUEST_FINISHED \<and> req_result q' = req_result q) \<and>
     (req_state q = REQUEST_FAILED_GATED \<longrightarrow> req_state q' \<noteq> REQUEST_PENDING \<and> req_result q' = req_result q) \<and>
     (req_state q = REQUEST_PENDING \<longrightarrow> req_state q' = REQUEST_PENDING \<or>
        req_state q' = REQUEST_FINISHED \<and> req_result q' = RESULT_OK \<and> advanced \<or>
        req_state q' \<noteq> REQUEST_PENDING \<and> req_result q' \<noteq> RESULT_OK \<and> req_result q' \<noteq> RESULT_PENDING)"

definition evolves :: "trunk_tuning \<Rightarrow> trunk_tuning \<Rightarrow> bool" where
  "evolves t t' \<longleftrightarrow> next_request t' = next_request t \<and>
     (generation t' = generation t \<or> generation t' = generation t + 1) \<and>
     (\<forall>j < REQUEST_HISTORY. req_evolves (generation t' = generation t + 1) (req_at t j) (req_at t' j))"

definition good_step :: "trunk_tuning \<Rightarrow> trunk_tuning \<Rightarrow> bool" where
  "good_step t t' \<longleftrightarrow> tuning_wf t' \<and> evolves t t'"

lemma req_evolves_refl [simp]: "req_evolves b q q"
  by (simp add: req_evolves_def)

lemma req_evolves_retire_rec: "req_evolves b q (retire_rec P q)"
  by (simp add: req_evolves_def retire_rec_def)

lemma good_refl: "tuning_wf t \<Longrightarrow> good_step t t"
  by (simp add: good_step_def evolves_def)

lemma good_advance: "tuning_wf t \<Longrightarrow> good_step t (generation_advance t)"
  by (simp add: good_step_def evolves_def tuning_wf_def)

lemma good_retire: "tuning_wf t \<Longrightarrow> good_step t (retire_loop P t)"
  using retire_loop_eq [of t P]
  by (auto simp: good_step_def evolves_def wf_retire_loop req_evolves_retire_rec req_ok_retire_rec tuning_wf_def)

lemma upd_req_twice:
  "i < length (requests t) \<Longrightarrow> upd_req i g (upd_req i f t) = upd_req i (\<lambda>q. g (f q)) t"
  by (simp add: upd_req_def)

lemma upd_req_same: "upd_req i (\<lambda>q. q) t = t"
  by (simp add: upd_req_def)

lemma good_upd:
  assumes "tuning_wf t" "i < REQUEST_HISTORY" "unresolved (f (req_at t i)) = unresolved (req_at t i)"
    "req_ok (f (req_at t i))" "req_evolves False (req_at t i) (f (req_at t i))"
  shows "good_step t (upd_req i f t)"
proof -
  have "wf_but i (upd_req i f t)" using assms(1,2,3) by (intro wf_but_upd) (auto simp: wf_but_iff)
  moreover have "length (requests t) = REQUEST_HISTORY" using assms(1) by (simp add: tuning_wf_def)
  ultimately show ?thesis
    using assms by (auto simp: good_step_def wf_but_iff [of i] evolves_def nth_list_update)
qed

lemma good_success:
  assumes wf: "tuning_wf t" and i: "i < REQUEST_HISTORY" and q: "req_state (req_at t i) = REQUEST_PENDING"
    and f: "req_state (f (req_at t i)) = REQUEST_PENDING" "request_id (f (req_at t i)) = request_id (req_at t i)"
      "req_result (f (req_at t i)) = RESULT_OK"
  shows "good_step t (finish_success_locked i (upd_req i f t))"
proof -
  have n: "length (requests t) = REQUEST_HISTORY" using wf by (simp add: tuning_wf_def)
  have "wf_but i (upd_req i f t)" using wf i q f by (intro wf_but_upd) (auto simp: wf_but_iff unresolved_def)
  then have "tuning_wf (finish_success_locked i (upd_req i f t))"
    using f i n by (intro wf_finish_success) simp_all
  moreover have "evolves t (finish_success_locked i (upd_req i f t))"
    using finish_success_eq [of i "upd_req i f t"] i n q f
    by (auto simp: evolves_def nth_list_update req_evolves_retire_rec) (simp add: req_evolves_def retire_rec_def)
  ultimately show ?thesis by (simp add: good_step_def)
qed

lemma good_rolled_back:
  assumes wf: "tuning_wf t" and i: "i < REQUEST_HISTORY" and q: "unresolved (req_at t i)"
    and f: "req_state (f (req_at t i)) = req_state (req_at t i)" "request_id (f (req_at t i)) = request_id (req_at t i)"
      "req_result (f (req_at t i)) \<noteq> RESULT_OK" "req_result (f (req_at t i)) \<noteq> RESULT_PENDING"
      "req_state (req_at t i) = REQUEST_FAILED_GATED \<Longrightarrow> req_result (f (req_at t i)) = req_result (req_at t i)"
  shows "good_step t (finish_rolled_back_locked i (upd_req i f t))"
proof -
  have n: "length (requests t) = REQUEST_HISTORY" using wf by (simp add: tuning_wf_def)
  have "wf_but i (upd_req i f t)" using wf i f(1) by (intro wf_but_upd) (auto simp: wf_but_iff unresolved_def)
  then have "tuning_wf (finish_rolled_back_locked i (upd_req i f t))"
    using f q i n by (intro wf_finish_rolled_back) (simp_all add: unresolved_def)
  moreover have "evolves t (finish_rolled_back_locked i (upd_req i f t))"
    using f q i n by (auto simp: finish_rolled_back_locked_def evolves_def nth_list_update req_evolves_def unresolved_def)
  ultimately show ?thesis by (simp add: good_step_def)
qed

lemma wf_record: "tuning_wf t \<Longrightarrow> request_find_locked k t = Some i \<Longrightarrow> req_ok (req_at t i) \<and> length (requests t) = REQUEST_HISTORY"
  using request_find_Some by (auto simp: tuning_wf_def)

lemma good_mark_ready:
  assumes "tuning_wf t"
  shows "good_step t (request_mark_ready k t)"
proof (cases "request_find_locked k t")
  case None
  then show ?thesis using assms by (simp add: request_mark_ready_def good_refl)
next
  case (Some i)
  note i = request_find_Some [OF Some] and r = wf_record [OF assms Some]
  show ?thesis
    using assms i r Some
    by (auto simp: request_mark_ready_def Let_def good_refl req_ok_def tune_result_is_complete_def req_evolves_def unresolved_def
        intro!: good_success good_upd split: if_splits)
qed

lemma good_disown:
  assumes "tuning_wf t"
  shows "good_step t (request_disown k t)"
proof (cases "request_find_locked k t")
  case None
  then show ?thesis using assms by (simp add: request_disown_def good_refl)
next
  case (Some i)
  note i = request_find_Some [OF Some] and r = wf_record [OF assms Some]
  have "good_step t (finish_rolled_back_locked i (upd_req i (\<lambda>q. q) t))" if "req_state (req_at t i) = REQUEST_FAILED_GATED"
    using that assms i r by (intro good_rolled_back) (simp_all add: unresolved_def req_ok_def)
  then show ?thesis
    using assms i r Some
    by (auto simp: request_disown_def Let_def good_refl req_ok_def tune_result_is_complete_def req_evolves_def unresolved_def
        upd_req_same intro!: good_success good_upd split: if_splits)
qed

lemma good_publish:
  assumes "tuning_wf t"
  shows "good_step t (request_publish now k r t)"
proof (cases "request_find_locked k t")
  case None
  then show ?thesis using assms by (simp add: request_publish_def good_refl)
next
  case (Some i)
  note i = request_find_Some [OF Some] and q = wf_record [OF assms Some]
  have gate: "good_step t (upd_req i (req_state_update (\<lambda>_. REQUEST_FAILED_GATED)) (upd_req i (answered now r) t))"
    if "req_state (req_at t i) = REQUEST_PENDING" "r \<noteq> RESULT_OK" "r \<noteq> RESULT_PENDING" "\<not> disowned (req_at t i)"
    using that assms i q by (subst upd_req_twice) (auto intro!: good_upd simp: unresolved_def req_ok_def req_evolves_def)
  show ?thesis
    using assms i q Some gate
    by (auto simp: request_publish_def Let_def good_refl req_ok_def tune_result_is_complete_def req_evolves_def unresolved_def
        intro!: good_success good_upd good_rolled_back split: if_splits)
qed

lemma good_complete:
  assumes "tuning_wf t"
  shows "good_step t (request_complete now k r t)"
proof (cases "request_find_locked k t")
  case None
  then show ?thesis using assms by (simp add: request_complete_def good_refl)
next
  case (Some i)
  note i = request_find_Some [OF Some] and q = wf_record [OF assms Some]
  show ?thesis
    using assms i q Some
    by (auto simp: request_complete_def Let_def good_refl req_ok_def tune_result_is_complete_def req_evolves_def unresolved_def
        upd_req_twice intro!: good_success good_upd good_rolled_back split: if_splits request_state.splits)
qed

section \<open>Slots and identifiers\<close>

lemma slot_scan_choice:
  assumes "slot_scan t is fin gated = (Some i, inherited)" "set is \<subseteq> {..<REQUEST_HISTORY}"
    "\<And>j. fin = Some j \<Longrightarrow> j < REQUEST_HISTORY \<and> req_state (req_at t j) = REQUEST_FINISHED"
    "\<And>j. gated = Some j \<Longrightarrow> j < REQUEST_HISTORY \<and> req_state (req_at t j) = REQUEST_FAILED_GATED"
  shows "i < REQUEST_HISTORY \<and> (if inherited then req_state (req_at t i) = REQUEST_FAILED_GATED
     else req_state (req_at t i) = REQUEST_FREE \<or> req_state (req_at t i) = REQUEST_FINISHED)"
  using assms
proof (induction "is" arbitrary: fin gated)
  case Nil
  then show ?case by (auto split: option.splits)
next
  case (Cons j js)
  show ?case
  proof (cases "req_state (req_at t j) = REQUEST_FREE")
    case True
    then show ?thesis using Cons.prems(1,2) by auto
  next
    case False
    then show ?thesis using Cons.prems
      by (intro Cons.IH [of "older REQUEST_FINISHED t j fin" "older REQUEST_FAILED_GATED t j gated"])
        (auto simp: older_def split: if_splits)
  qed
qed

lemma request_slot_choice:
  assumes "request_slot_locked t = (Some i, inherited)"
  shows "i < REQUEST_HISTORY" "req_state (req_at t i) \<noteq> REQUEST_PENDING"
    "inherited \<longleftrightarrow> unresolved (req_at t i)"
  using slot_scan_choice [OF assms [unfolded request_slot_locked_def] subsetI]
  by (auto simp: unresolved_def split: if_splits)

definition fresh_request :: "u64 \<Rightarrow> bool \<Rightarrow> tuning_request" where
  "fresh_request k inherited = \<lparr>request_id = k, completed_m_ns = 0, req_result = RESULT_PENDING,
     req_state = REQUEST_PENDING, inherited_failure_gate = inherited, backend_complete = False,
     owner_ready = False, disowned = False\<rparr>"

lemma fresh_request_simps [simp]:
  "request_id (fresh_request k b) = k" "req_state (fresh_request k b) = REQUEST_PENDING"
  "req_result (fresh_request k b) = RESULT_PENDING" "inherited_failure_gate (fresh_request k b) = b"
  by (simp_all add: fresh_request_def)

lemma claim_cases:
  assumes "tuning_wf t"
  obtains (full) "request_claim k t = (0, t)" | (slot) i where "i < REQUEST_HISTORY"
    "req_state (req_at t i) \<noteq> REQUEST_PENDING" "tuning_wf (snd (request_claim k t))" "fst (request_claim k t) = k"
    "requests (snd (request_claim k t)) = (requests t)[i := fresh_request k (unresolved (req_at t i))]"
    "generation (snd (request_claim k t)) = generation t" "next_request (snd (request_claim k t)) = next_request t"
proof (cases "fst (request_slot_locked t)")
  case None
  then have "request_claim k t = (0, t)" by (auto simp: request_claim_def split: prod.splits)
  then show ?thesis by (rule full)
next
  case (Some i)
  then obtain b where s: "request_slot_locked t = (Some i, b)" by (cases "request_slot_locked t") simp
  note c = request_slot_choice [OF s]
  let ?t1 = "upd_req i (\<lambda>_. fresh_request k b) t"
  have e: "request_claim k t = (k, if b then ?t1 else add_unresolved 1 ?t1)"
    by (simp add: request_claim_def s fresh_request_def)
  have n: "length (requests t) = REQUEST_HISTORY" "unresolved_count t = unresolved_records t"
    using assms by (auto simp: tuning_wf_def)
  have u: "unresolved_records ?t1 = unresolved_records t - of_bool b + 1"
    using unresolved_records_upd [of t i "\<lambda>_. fresh_request k b"] n c by (simp add: unresolved_def)
  have wf: "tuning_wf (snd (request_claim k t))"
    using assms c(1) n u by (auto simp: e tuning_wf_def nth_list_update) (simp add: req_ok_def fresh_request_def)+
  show ?thesis
    using e c(3) by (intro slot [OF c(1,2) wf]) simp_all
qed

definition holds :: "u64 \<Rightarrow> nat \<Rightarrow> trunk_tuning \<Rightarrow> bool" where
  "holds k i t \<longleftrightarrow> i < REQUEST_HISTORY \<and> request_id (req_at t i) = k \<and> req_state (req_at t i) \<noteq> REQUEST_FREE"

text \<open>Identifiers are drawn once: no two slots, and no slot and a drawn identifier, have the same one.\<close>

definition ids_ok :: "tuning_config \<Rightarrow> bool" where
  "ids_ok c = (case c of (t, ids) \<Rightarrow>
     distinct ids \<and> (\<forall>k \<in> set ids. 0 < k \<and> k \<le> next_request t \<and> (\<forall>i. \<not> holds k i t)) \<and>
     (\<forall>k i. holds k i t \<longrightarrow> 0 < k \<and> k \<le> next_request t) \<and>
     (\<forall>k i j. holds k i t \<longrightarrow> holds k j t \<longrightarrow> i = j))"

lemma ids_ok_find:
  assumes "ids_ok (t, ids)"
  shows "request_find_locked k t = Some i \<longleftrightarrow> holds k i t"
proof
  assume "request_find_locked k t = Some i"
  then show "holds k i t" using request_find_Some by (simp add: holds_def)
next
  assume h: "holds k i t"
  then have "request_find_locked k t \<noteq> None"
    by (auto simp: request_find_locked_def find_upt_None holds_def)
  then obtain j where j: "request_find_locked k t = Some j" by blast
  then have "holds k j t" using request_find_Some by (simp add: holds_def)
  then have "i = j" using assms h unfolding ids_ok_def by auto
  then show "request_find_locked k t = Some i" using j by simp
qed

lemma holds_evolves: "evolves t t' \<Longrightarrow> holds k i t' \<longleftrightarrow> holds k i t"
  by (auto simp: evolves_def holds_def req_evolves_def)

lemma holds_update:
  "requests t' = (requests t)[i := q] \<Longrightarrow> length (requests t) = REQUEST_HISTORY \<Longrightarrow> i < REQUEST_HISTORY \<Longrightarrow>
   req_state q \<noteq> REQUEST_FREE \<Longrightarrow>
   holds k j t' \<longleftrightarrow> (if j = i then k = request_id q else holds k j t)"
  by (auto simp: holds_def nth_list_update)

lemma draw_request_id_eq: "counter + 1 \<noteq> 0 \<Longrightarrow> draw_request_id counter = counter + 1"
  by (simp add: draw_request_id.simps)

lemma ids_ok_draw:
  assumes "ids_ok (t, ids)" "next_request t + 1 \<noteq> 0" "request_draw t = (k, t')"
  shows "ids_ok (t', k # ids)"
proof -
  have k: "k = next_request t + 1" "t' = t\<lparr>next_request := k\<rparr>"
    using assms(2,3) by (auto simp: request_draw_def draw_request_id_eq Let_def)
  have less: "next_request t < k" using assms(2) unatSuc [of "next_request t"] by (simp add: k(1) word_less_nat_alt add.commute)
  have pos: "0 < k" using order_le_less_trans [OF word_zero_le less] .
  have h: "holds j i t' \<longleftrightarrow> holds j i t" "next_request t' = k" for j i by (simp_all add: holds_def k(2))
  have "k \<notin> set ids" "\<not> holds k i t" for i using assms(1) less unfolding ids_ok_def by fastforce+
  then show ?thesis
    using assms(1) less pos unfolding ids_ok_def prod.case h by (auto dest: order.strict_implies_order order.trans)
qed

lemma ids_ok_claim:
  assumes "ids_ok (t, ids)" "tuning_wf t" "k \<in> set ids"
  shows "ids_ok (snd (request_claim k t), remove1 k ids)"
  using assms(2)
proof (cases rule: claim_cases [of _ k])
  case full
  then show ?thesis using assms(1) by (auto simp: ids_ok_def)
next
  case (slot i)
  have "length (requests t) = REQUEST_HISTORY" using assms(2) by (simp add: tuning_wf_def)
  note h = holds_update [OF slot(5) this slot(1)]
  show ?thesis
    using assms(1,3) unfolding ids_ok_def prod.case slot(7) by (auto simp: h split: if_splits)
qed

lemma requests_reset_facts:
  "tuning_wf (requests_reset t)" "\<not> holds k i (requests_reset t)"
  "generation (requests_reset t) = generation t" "next_request (requests_reset t) = next_request t"
  by (auto simp: requests_reset_def tuning_wf_def unresolved_records_def holds_def zero_request_def unresolved_def req_ok_def
      filter_empty_conv)

lemmas good_ops = good_publish good_mark_ready good_complete good_disown good_advance good_retire good_refl

lemma tuning_step_cases:
  assumes "tuning_step (t, ids) (t', ids')" "tuning_wf t"
  obtains (quiet) "good_step t t'" "ids' = ids" | (draw) k where "request_draw t = (k, t')" "ids' = k # ids"
    | (claim) k where "k \<in> set ids" "t' = snd (request_claim k t)" "ids' = remove1 k ids"
    | (reset) "t' = requests_reset t" "ids' = ids"
  using assms(1)
proof (cases rule: tuning_step.cases)
  case (retire)
  then show ?thesis using quiet good_ops assms(2) by (simp add: retire_failed_requests_def)
next
  case (retire_through i)
  then show ?thesis using quiet good_ops assms(2) by (simp add: retire_failed_requests_through_def)
qed (use that good_ops assms(2) in auto)

lemma request_draw_facts:
  "request_draw t = (k, t') \<Longrightarrow> t' = t\<lparr>next_request := k\<rparr> \<and> k = draw_request_id (next_request t)"
  by (auto simp: request_draw_def Let_def)

lemma tuning_step_wf:
  assumes "tuning_step (t, ids) (t', ids')" "tuning_wf t"
  shows "tuning_wf t'"
  using assms
proof (cases rule: tuning_step_cases)
  case (claim k)
  show ?thesis using assms(2) by (cases rule: claim_cases [of _ k]) (simp_all add: claim assms(2))
next
  case (draw k)
  then show ?thesis using assms(2) request_draw_facts [OF draw(1)] by (simp add: tuning_wf_def unresolved_records_def)
qed (simp_all add: good_step_def requests_reset_facts)

lemma next_request_bound:
  assumes "unat (next_request t) \<le> n" "Suc n < 2 ^ 64"
  shows "next_request t + 1 \<noteq> 0" "unat (next_request t + 1) \<le> Suc n"
proof -
  have "unat (next_request t + 1) = Suc (unat (next_request t))"
    using assms by (simp add: unat_word_ariths)
  then show "next_request t + 1 \<noteq> 0" "unat (next_request t + 1) \<le> Suc n" using assms(1) by auto
qed

lemma tuning_step_ids:
  assumes "tuning_step (t, ids) (t', ids')" "tuning_wf t" "ids_ok (t, ids)" "unat (next_request t) \<le> n" "Suc n < 2 ^ 64"
  shows "ids_ok (t', ids') \<and> unat (next_request t') \<le> Suc n"
  using assms(1,2)
proof (cases rule: tuning_step_cases)
  case quiet
  then have e: "evolves t t'" by (simp add: good_step_def)
  have "next_request t' = next_request t" using e by (simp add: evolves_def)
  then show ?thesis using assms(3,4) quiet(2) unfolding ids_ok_def prod.case holds_evolves [OF e] by simp
next
  case (draw k)
  note b = next_request_bound [OF assms(4,5)]
  show ?thesis
    using ids_ok_draw [OF assms(3) b(1) draw(1)] b request_draw_facts [OF draw(1)] draw(2) by (simp add: draw_request_id_eq)
next
  case (claim k)
  have "next_request t' = next_request t"
    using assms(2) by (cases rule: claim_cases [of _ k]) (simp_all add: claim)
  then show ?thesis using ids_ok_claim [OF assms(3,2) claim(1)] claim assms(4) by simp
next
  case reset
  then show ?thesis using assms(3,4) by (auto simp: ids_ok_def requests_reset_facts)
qed

lemma tuning_run_wf:
  assumes "tuning_run n c c'" "tuning_wf (fst c)"
  shows "tuning_wf (fst c')"
  using assms
proof (induction rule: tuning_run.induct)
  case (step n c c' c'')
  then show ?case by (metis prod.collapse tuning_step_wf)
qed

lemma initial_tuning_wf: "tuning_wf initial_tuning" "ids_ok (initial_tuning, [])" "next_request initial_tuning = 0"
  by (auto simp: initial_tuning_def tuning_wf_def unresolved_records_def ids_ok_def holds_def zero_request_def unresolved_def
      req_ok_def filter_empty_conv)

lemma tuning_run_ids:
  assumes "tuning_run n c c'" "tuning_wf (fst c)" "ids_ok c" "unat (next_request (fst c)) \<le> m" "m + n < 2 ^ 64"
  shows "ids_ok c' \<and> unat (next_request (fst c')) \<le> m + n"
  using assms
proof (induction rule: tuning_run.induct)
  case (start c)
  then show ?case by simp
next
  case (step n c c' c'')
  obtain t ids t2 ids2 where c: "c' = (t, ids)" "c'' = (t2, ids2)" by (cases c', cases c'')
  have "ids_ok c'" "unat (next_request (fst c')) \<le> m + n" using step.IH step.prems by auto
  moreover have "tuning_wf t" using tuning_run_wf [OF step.hyps(1) step.prems(1)] by (simp add: c)
  ultimately show ?case
    using tuning_step_ids [of t ids t2 ids2 "m + n"] step.hyps(2) step.prems(4) by (simp add: c)
qed

lemma reachable_facts:
  assumes "tuning_reachable n (t, ids)"
  shows "tuning_wf t" "n < 2 ^ 64 \<Longrightarrow> ids_ok (t, ids) \<and> unat (next_request t) \<le> n"
  using assms tuning_run_wf [of n "(initial_tuning, [])" "(t, ids)"]
    tuning_run_ids [of n "(initial_tuning, [])" "(t, ids)" 0] initial_tuning_wf
  by (simp_all add: tuning_reachable_def)

section \<open>Generations and answers over a run\<close>

lemma tuning_step_generation:
  assumes "tuning_step (t, ids) (t', ids')" "tuning_wf t"
  shows "generation t' = generation t \<or> generation t' = generation t + 1"
  using assms
proof (cases rule: tuning_step_cases)
  case (claim k)
  show ?thesis using assms(2) by (cases rule: claim_cases [of _ k]) (simp_all add: claim)
qed (auto simp: good_step_def evolves_def requests_reset_facts dest!: request_draw_facts)

lemma tuning_run_generation:
  assumes "tuning_run n c c'" "tuning_wf (fst c)"
  shows "\<exists>a \<le> n. generation (fst c') = generation (fst c) + of_nat a"
  using assms
proof (induction rule: tuning_run.induct)
  case (step n c c' c'')
  obtain t ids t2 ids2 where c: "c' = (t, ids)" "c'' = (t2, ids2)" by (cases c', cases c'')
  obtain a where a: "a \<le> n" "generation t = generation (fst c) + of_nat a" using step.IH step.prems c by auto
  have "generation t2 = generation t \<or> generation t2 = generation t + 1"
    using tuning_step_generation [of t ids t2 ids2] step.hyps tuning_run_wf [OF step.hyps(1) step.prems] c by simp
  then have "generation t2 = generation (fst c) + of_nat a \<or> generation t2 = generation (fst c) + of_nat (Suc a)"
    using a by (auto simp: add_ac)
  then show ?case using a(1) unfolding c fst_conv by (metis Suc_le_mono le_SucI)
qed auto

lemma of_nat_generation_eq:
  assumes "(g::u64) + of_nat a = g" "a < 2 ^ 64"
  shows "a = 0"
proof -
  have "of_nat a = (0::u64)" using assms(1) by simp
  then show ?thesis using assms(2) by (auto simp: word_of_nat_eq_0_iff dest: nat_dvd_not_less)
qed

lemma tuning_run_trans: "tuning_run n c' c'' \<Longrightarrow> tuning_run m c c' \<Longrightarrow> tuning_run (m + n) c c''"
  by (induction rule: tuning_run.induct) (auto intro: tuning_run.intros)

definition request_result :: "u64 \<Rightarrow> trunk_tuning \<Rightarrow> tune_result" where
  "request_result k t = fst (request_status k t)"

lemma request_result_holds:
  "ids_ok (t, ids) \<Longrightarrow> holds k i t \<Longrightarrow>
   request_result k t = (if req_state (req_at t i) = REQUEST_PENDING then RESULT_PENDING else req_result (req_at t i))"
  using ids_ok_find [of t ids k i] by (auto simp: request_result_def request_status_def ids_ok_def)

lemma request_result_absent: "\<forall>i. \<not> holds k i t \<Longrightarrow> request_result k t = RESULT_FAILED"
  using request_find_Some [of k t] by (auto simp: request_result_def request_status_def holds_def split: option.splits)

lemma request_result_same:
  "requests t' = requests t \<Longrightarrow> request_result k t' = request_result k t"
  by (simp add: request_result_def request_status_def request_find_locked_def split: option.split)

definition claimed :: "u64 \<Rightarrow> tuning_config \<Rightarrow> bool" where
  "claimed k c \<longleftrightarrow> k \<le> next_request (fst c) \<and> k \<notin> set (snd c)"

lemma claimed_pending:
  assumes "ids_ok (t, ids)" "request_result k t = RESULT_PENDING"
  shows "claimed k (t, ids)"
proof -
  obtain i where "holds k i t" using assms(2) request_result_absent by force
  then show ?thesis using assms(1) by (auto simp: ids_ok_def claimed_def)
qed

definition dead_result :: "tune_result \<Rightarrow> bool" where
  "dead_result r \<longleftrightarrow> r \<noteq> RESULT_OK \<and> r \<noteq> RESULT_PENDING"

text \<open>A claimed request in flight stays in flight, commits at an advance of the generation, or fails for good.\<close>

definition result_evolves :: "u64 \<Rightarrow> trunk_tuning \<Rightarrow> trunk_tuning \<Rightarrow> bool" where
  "result_evolves k t t' \<longleftrightarrow>
     (request_result k t = RESULT_PENDING \<longrightarrow> request_result k t' = RESULT_PENDING \<or>
        request_result k t' = RESULT_OK \<and> generation t' = generation t + 1 \<or> dead_result (request_result k t')) \<and>
     (dead_result (request_result k t) \<longrightarrow> dead_result (request_result k t'))"

lemma result_evolves_good:
  assumes "good_step t t'" "ids_ok (t, ids)" "ids_ok (t', ids')"
  shows "result_evolves k t t'"
proof (cases "\<exists>i. holds k i t")
  case True
  have e: "evolves t t'" using assms(1) by (simp add: good_step_def)
  obtain i where i: "holds k i t" using True ..
  then have i': "holds k i t'" by (simp add: holds_evolves [OF e])
  have "req_evolves (generation t' = generation t + 1) (req_at t i) (req_at t' i)" "req_state (req_at t i) \<noteq> REQUEST_FREE"
    using e i by (simp_all add: evolves_def holds_def)
  then show ?thesis
    unfolding result_evolves_def request_result_holds [OF assms(2) i] request_result_holds [OF assms(3) i']
    by (cases "req_state (req_at t i)") (auto simp: req_evolves_def dead_result_def)
next
  case False
  have e: "evolves t t'" using assms(1) by (simp add: good_step_def)
  have "\<forall>i. \<not> holds k i t'" using False by (simp add: holds_evolves [OF e])
  then have "request_result k t' = RESULT_FAILED" "request_result k t = RESULT_FAILED"
    using False request_result_absent by blast+
  then show ?thesis by (simp add: result_evolves_def dead_result_def)
qed

lemma result_evolves_claim:
  assumes "tuning_wf t" "ids_ok (t, ids)" "ids_ok (snd (request_claim j t), ids')" "k \<noteq> j"
  shows "result_evolves k t (snd (request_claim j t))"
  using assms(1)
proof (cases rule: claim_cases [of _ j])
  case full
  then show ?thesis by (simp add: result_evolves_def)
next
  case (slot s)
  let ?t' = "snd (request_claim j t)"
  have n: "length (requests t) = REQUEST_HISTORY" using assms(1) by (simp add: tuning_wf_def)
  note h = holds_update [OF slot(5) n slot(1)]
  show ?thesis
  proof (cases "\<exists>i. holds k i t \<and> i \<noteq> s")
    case True
    then obtain i where i: "holds k i t" "i \<noteq> s" by blast
    then have i': "holds k i ?t'" by (simp add: h)
    have "req_at ?t' i = req_at t i" using i(2) by (simp add: slot(5))
    then show ?thesis
      unfolding result_evolves_def request_result_holds [OF assms(2) i(1)] request_result_holds [OF assms(3) i'] by simp
  next
    case False
    then have "\<forall>i. \<not> holds k i ?t'" using assms(4) by (auto simp: h)
    then have dead: "dead_result (request_result k ?t')" using request_result_absent by (simp add: dead_result_def)
    then show ?thesis by (simp add: result_evolves_def)
  qed
qed

lemma result_evolves_step:
  assumes step: "tuning_step (t, ids) (t', ids')" and wf: "tuning_wf t" and i: "ids_ok (t, ids)" "ids_ok (t', ids')"
    and k: "claimed k (t, ids)" "unat (next_request t) \<le> n" "Suc n < 2 ^ 64"
  shows "result_evolves k t t' \<and> claimed k (t', ids')"
  using step wf
proof (cases rule: tuning_step_cases)
  case quiet
  then have "next_request t' = next_request t" by (simp add: good_step_def evolves_def)
  then show ?thesis using result_evolves_good [OF quiet(1) i] k quiet(2) by (simp add: claimed_def)
next
  case (draw j)
  have j: "j = next_request t + 1" "t' = t\<lparr>next_request := j\<rparr>"
    using request_draw_facts [OF draw(1)] next_request_bound [OF k(2,3)] by (simp_all add: draw_request_id_eq)
  have "next_request t < j" using unatSuc [of "next_request t"] next_request_bound [OF k(2,3)] by (simp add: j(1) word_less_nat_alt add.commute)
  then show ?thesis
    using k(1) draw(2) request_result_same [of t' t k] by (auto simp: claimed_def j(2) result_evolves_def)
next
  case (claim j)
  have "next_request t' = next_request t" using wf by (cases rule: claim_cases [of _ j]) (simp_all add: claim)
  moreover have "k \<noteq> j" using claim(1) k(1) by (auto simp: claimed_def)
  ultimately show ?thesis
    using result_evolves_claim [OF wf i(1) i(2) [unfolded claim(2)]] claim k(1) notin_set_remove1
    by (auto simp: claimed_def)
next
  case reset
  have "request_result k t' = RESULT_FAILED" using reset requests_reset_facts(2) by (intro request_result_absent) simp
  then show ?thesis using k(1) reset by (simp add: claimed_def requests_reset_facts result_evolves_def dead_result_def)
qed

lemma result_evolves_run:
  assumes "tuning_run n c c'" "tuning_wf (fst c)" "ids_ok c" "unat (next_request (fst c)) \<le> m" "m + n < 2 ^ 64"
    "request_result k (fst c) = RESULT_PENDING"
  shows "claimed k c' \<and> (request_result k (fst c') = RESULT_PENDING \<or> dead_result (request_result k (fst c')) \<or>
    (\<exists>a. 0 < a \<and> a \<le> n \<and> generation (fst c') = generation (fst c) + of_nat a))"
  using assms
proof (induction rule: tuning_run.induct)
  case (start c)
  then show ?case using claimed_pending [of "fst c" "snd c"] by simp
next
  case (step n c c' c'')
  obtain t ids t2 ids2 where c: "c' = (t, ids)" "c'' = (t2, ids2)" by (cases c', cases c'')
  have wf: "tuning_wf t" using tuning_run_wf [OF step.hyps(1) step.prems(1)] by (simp add: c)
  have i: "ids_ok (t, ids)" "unat (next_request t) \<le> m + n"
    using tuning_run_ids [OF step.hyps(1) step.prems(1-3)] step.prems(4) by (simp_all add: c)
  have s: "tuning_step (t, ids) (t2, ids2)" using step.hyps(2) by (simp add: c)
  have i2: "ids_ok (t2, ids2)" using tuning_step_ids [OF s wf i] step.prems(4) by simp
  have IH: "claimed k (t, ids)" "request_result k t = RESULT_PENDING \<or> dead_result (request_result k t) \<or>
      (\<exists>a. 0 < a \<and> a \<le> n \<and> generation t = generation (fst c) + of_nat a)"
    using step.IH step.prems c by auto
  note e = result_evolves_step [OF s wf i(1) i2 IH(1) i(2)]
  obtain a where a: "a \<le> n" "generation t = generation (fst c) + of_nat a"
    using tuning_run_generation [OF step.hyps(1) step.prems(1)] by (auto simp: c)
  have up: "generation t2 = generation (fst c) + of_nat (Suc a)" if "generation t2 = generation t + 1"
    using that a(2) by (simp add: add_ac)
  have later: "\<exists>b. 0 < b \<and> b \<le> Suc n \<and> generation t2 = generation (fst c) + of_nat b"
    if "0 < d" "d \<le> n" "generation t = generation (fst c) + of_nat d" for d
    using that tuning_step_generation [OF s wf] by (auto simp: add_ac intro: exI [of _ d] exI [of _ "Suc d"])
  show ?case
    using e IH(2) up a(1) later step.prems(4) by (fastforce simp: c result_evolves_def)
qed

lemma unresolved_records_card:
  "length (requests t) = REQUEST_HISTORY \<Longrightarrow>
   unresolved_records t = int (card {i. i < REQUEST_HISTORY \<and> unresolved (req_at t i)})"
  by (simp add: unresolved_records_def length_filter_conv_card)

lemma gate_open_iff:
  assumes "tuning_wf t"
  shows "unresolved_count t = 0 \<longleftrightarrow> (\<forall>i < REQUEST_HISTORY. \<not> unresolved (req_at t i))"
  using assms unresolved_records_card [of t] by (auto simp: tuning_wf_def)

lemma request_find_upd:
  assumes "length (requests t) = REQUEST_HISTORY" "i < REQUEST_HISTORY" "request_id (f (req_at t i)) = request_id (req_at t i)"
    "(req_state (f (req_at t i)) = REQUEST_FREE) = (req_state (req_at t i) = REQUEST_FREE)"
  shows "request_find_locked k (upd_req i f t) = request_find_locked k t"
  unfolding request_find_locked_def
  by (rule find_cong [OF refl]) (use assms in \<open>auto simp: nth_list_update\<close>)

lemma request_find_add_unresolved: "request_find_locked k (add_unresolved n t) = request_find_locked k t"
  by (simp add: request_find_locked_def)

section \<open>What an owner of a request relies on\<close>

text \<open>A failure its owner has not rolled back, in a slot that inherited no older failure.\<close>

definition gated_failure :: "u64 \<Rightarrow> trunk_tuning \<Rightarrow> bool" where
  "gated_failure k t \<longleftrightarrow> (case request_find_locked k t of None \<Rightarrow> False
     | Some i \<Rightarrow> req_state (req_at t i) = REQUEST_FAILED_GATED \<and> \<not> inherited_failure_gate (req_at t i))"

text \<open>
  The contract of the request table with the owner of a request: while the request is in flight or
  its failure waits for the owner, no frame passes, and completing it with a failure gives up exactly
  its own hold on the gate.
\<close>

locale tune_ledger =
  fixes inv :: "'t \<Rightarrow> bool" and result_of :: "u64 \<Rightarrow> 't \<Rightarrow> tune_result" and waits :: "u64 \<Rightarrow> 't \<Rightarrow> bool"
    and complete_with :: "u64 \<Rightarrow> u64 \<Rightarrow> tune_result \<Rightarrow> 't \<Rightarrow> 't" and open_requests :: "'t \<Rightarrow> int" and passes :: "u64 \<Rightarrow> 't \<Rightarrow> bool"
  assumes passes_none: "inv t \<Longrightarrow> passes g t \<Longrightarrow> open_requests t = 0"
    and in_flight_open: "inv t \<Longrightarrow> result_of k t = RESULT_PENDING \<Longrightarrow> 0 < open_requests t"
    and waits_open: "inv t \<Longrightarrow> waits k t \<Longrightarrow> 0 < open_requests t \<and> result_of k t \<notin> {RESULT_OK, RESULT_PENDING}"
    and complete_waits: "inv t \<Longrightarrow> waits k t \<Longrightarrow> k \<noteq> 0 \<Longrightarrow> r \<notin> {RESULT_OK, RESULT_PENDING} \<Longrightarrow>
      open_requests (complete_with now k r t) = open_requests t - 1 \<and> \<not> waits k (complete_with now k r t)"
begin

lemma closed_until_rolled_back:
  assumes "inv t" "result_of k t = RESULT_PENDING \<or> waits k t"
  shows "\<not> passes g t"
  using assms passes_none in_flight_open waits_open by fastforce

lemma own_hold_released:
  assumes "inv t" "waits k t" "k \<noteq> 0"
  shows "open_requests (complete_with now k (result_of k t) t) = open_requests t - 1"
    "\<not> waits k (complete_with now k (result_of k t) t)"
  using assms waits_open [of t k] complete_waits [of t k "result_of k t" now] by auto

end

lemma some_unresolved:
  assumes "tuning_wf t" "i < REQUEST_HISTORY" "unresolved (req_at t i)"
  shows "0 < unresolved_count t"
proof -
  have "unresolved_count t \<noteq> 0" using gate_open_iff [OF assms(1)] assms(2,3) by blast
  then show ?thesis using assms(1) by (simp add: tuning_wf_def unresolved_records_def)
qed

interpretation ledger: tune_ledger tuning_wf request_result gated_failure request_complete unresolved_count frame_is_current
proof
  fix t g k now r
  assume wf: "tuning_wf t"
  then have n: "length (requests t) = REQUEST_HISTORY" by (simp add: tuning_wf_def)
  show "unresolved_count t = 0" if "frame_is_current g t"
    using that by (simp add: frame_is_current_def frame_is_current_reads_def split: if_splits)
  show "0 < unresolved_count t" if p: "request_result k t = RESULT_PENDING"
  proof -
    obtain i where f: "request_find_locked k t = Some i"
      using p by (cases "request_find_locked k t") (auto simp: request_result_def request_status_def split: if_splits)
    have "req_ok (req_at t i)" using wf_record [OF wf f] by simp
    then have "req_state (req_at t i) = REQUEST_PENDING"
      using p f request_find_Some [OF f]
      by (auto simp: request_result_def request_status_def req_ok_def split: if_splits request_state.splits)
    then show ?thesis using some_unresolved [OF wf, of i] request_find_Some [OF f] by (simp add: unresolved_def)
  qed
  assume g: "gated_failure k t"
  then obtain i where f: "request_find_locked k t = Some i" and q: "req_state (req_at t i) = REQUEST_FAILED_GATED"
      "\<not> inherited_failure_gate (req_at t i)" by (auto simp: gated_failure_def split: option.splits)
  have i: "i < REQUEST_HISTORY" using request_find_Some [OF f] by simp
  show "0 < unresolved_count t \<and> request_result k t \<notin> {RESULT_OK, RESULT_PENDING}"
    using some_unresolved [OF wf i] q wf_record [OF wf f]
    by (auto simp: unresolved_def request_result_def request_status_def f req_ok_def)
  assume k: "k \<noteq> 0" and r: "r \<notin> {RESULT_OK, RESULT_PENDING}"
  let ?t1 = "upd_req i (owner_ready_update (\<lambda>_. True)) t"
  have e: "request_complete now k r t = add_unresolved (-1) (upd_req i (req_state_update (\<lambda>_. REQUEST_FINISHED)) ?t1)"
    using k r q i n by (simp add: request_complete_def f Let_def tune_result_is_complete_def finish_rolled_back_locked_def)
  have f1: "request_find_locked k (request_complete now k r t) = Some i"
    unfolding e request_find_add_unresolved using f i n q by (subst request_find_upd; simp add: request_find_upd)+
  show "unresolved_count (request_complete now k r t) = unresolved_count t - 1 \<and> \<not> gated_failure k (request_complete now k r t)"
    using f1 i n by (simp add: gated_failure_def e)
qed

lemma request_begin_run: "tuning_run 2 (t, ids) (snd (request_begin t), ids)"
proof -
  obtain k t1 where d: "request_draw t = (k, t1)" by (cases "request_draw t")
  have "tuning_step (t1, k # ids) (snd (request_claim k t1), remove1 k (k # ids))" by (rule tuning_step.claim) simp
  then have "tuning_step (t1, k # ids) (snd (request_begin t), ids)" by (simp add: request_begin_def d)
  then have "tuning_run (Suc (Suc 0)) (t, ids) (snd (request_begin t), ids)"
    using tuning_step.draw [OF d] tuning_run.intros by blast
  then show ?thesis by (simp add: numeral_2_eq_2)
qed

lemma request_begin_reachable: "tuning_reachable 2 (snd (request_begin initial_tuning), [])"
  unfolding tuning_reachable_def by (rule request_begin_run)

section \<open>Properties\<close>

text \<open>
  C4. In every interleaving of fewer than \<open>2\<^sup>64\<close> steps of the owners, the backend and the engine,
  the count of unresolved requests is the number of records in flight or failed and gated, no two
  records in use have the same identifier, and a collected frame passes the gate exactly when its
  generation is the current one and no request is unresolved.
\<close>

theorem tuning_gate_invariant:
  assumes "tuning_reachable n (t, ids)" "n < 2 ^ 64"
  shows "unresolved_count t = int (card {i. i < REQUEST_HISTORY \<and> unresolved (req_at t i)}) \<and>
    length (requests t) = REQUEST_HISTORY \<and>
    (\<forall>i < REQUEST_HISTORY. \<forall>j < REQUEST_HISTORY.
       req_state (req_at t i) \<noteq> REQUEST_FREE \<and> req_state (req_at t j) \<noteq> REQUEST_FREE \<and>
       request_id (req_at t i) = request_id (req_at t j) \<longrightarrow> i = j) \<and>
    (frame_is_current g t \<longleftrightarrow> g = generation t \<and> (\<forall>i < REQUEST_HISTORY. \<not> unresolved (req_at t i)))"
proof -
  note wf = reachable_facts(1) [OF assms(1)] and i = reachable_facts(2) [OF assms]
  have "length (requests t) = REQUEST_HISTORY" "unresolved_count t = unresolved_records t"
    using wf by (simp_all add: tuning_wf_def)
  moreover have "\<forall>i < REQUEST_HISTORY. \<forall>j < REQUEST_HISTORY.
       req_state (req_at t i) \<noteq> REQUEST_FREE \<and> req_state (req_at t j) \<noteq> REQUEST_FREE \<and>
       request_id (req_at t i) = request_id (req_at t j) \<longrightarrow> i = j"
    using i unfolding ids_ok_def holds_def by auto
  ultimately show ?thesis
    using unresolved_records_card [of t] gate_open_iff [OF wf]
    by (auto simp: frame_is_current_def frame_is_current_reads_def)
qed

theorem tuning_gate_invariant_witness:
  "let t = snd (request_begin initial_tuning) in \<not> frame_is_current 1 t \<and>
     unresolved_count t = int (card {i. i < REQUEST_HISTORY \<and> unresolved (req_at t i)})"
proof -
  have "unresolved_count (snd (request_begin initial_tuning)) \<noteq> 0" by code_simp
  then show ?thesis
    using tuning_gate_invariant [OF request_begin_reachable, of 1]
    by (auto simp: Let_def frame_is_current_def frame_is_current_reads_def)
qed

text \<open>
  C5. The frame gate is exact although it takes no lock: when its four reads, made at successive
  moments of an interleaving, let a frame pass, there was one moment among them at which the
  generation was the frame's and no request was unresolved.
\<close>

theorem frame_gate_linearizable:
  assumes "tuning_reachable m (t1, ids1)" "tuning_run n1 (t1, ids1) (t2, ids2)"
    "tuning_run n2 (t2, ids2) (t3, ids3)" "tuning_run n3 (t3, ids3) (t4, ids4)" "n2 + n3 < 2 ^ 64"
    "frame_is_current_reads g t1 t2 t3 t4"
  shows "generation t3 = g \<and> (\<forall>i < REQUEST_HISTORY. \<not> unresolved (req_at t3 i))"
proof -
  have wf: "tuning_wf t2" "tuning_wf t3"
    using reachable_facts(1) [OF assms(1)] tuning_run_wf [OF assms(2)] tuning_run_wf [OF assms(3)] by simp_all
  obtain a where a: "a \<le> n2" "generation t3 = generation t2 + of_nat a"
    using tuning_run_generation [OF assms(3)] wf by auto
  obtain b where b: "b \<le> n3" "generation t4 = generation t3 + of_nat b"
    using tuning_run_generation [OF assms(4)] wf by auto
  have g: "generation t2 = g" "generation t4 = g" "unresolved_count t3 = 0"
    using assms(6) by (auto simp: frame_is_current_reads_def split: if_splits)
  then have "g + of_nat (a + b) = g" using a(2) b(2) by (simp add: add_ac)
  then have "a = 0" using of_nat_generation_eq [of g "a + b"] a(1) b(1) assms(5) by simp
  then show ?thesis using g a(2) gate_open_iff [OF wf(2)] by simp
qed

theorem frame_gate_linearizable_witness:
  "frame_is_current_reads 1 initial_tuning initial_tuning initial_tuning (snd (request_begin initial_tuning)) \<and>
   generation initial_tuning = 1 \<and> \<not> unresolved (req_at initial_tuning 5)"
proof -
  have "tuning_reachable 0 (initial_tuning, [])" by (simp add: tuning_reachable_def tuning_run.start)
  moreover have "frame_is_current_reads 1 initial_tuning initial_tuning initial_tuning (snd (request_begin initial_tuning))"
    by code_simp
  ultimately show ?thesis
    using frame_gate_linearizable [OF _ tuning_run.start tuning_run.start request_begin_run] by (auto simp: REQUEST_HISTORY_def)
qed

text \<open>
  C21. A frame whose generation was captured before a tune completed never passes the gate after
  the request was reported successful.
\<close>

theorem stale_frame_refused:
  assumes "tuning_reachable m (t0, ids0)" "tuning_run n0 (t0, ids0) (t, ids)" "tuning_run n (t, ids) (t', ids')"
    "m + n0 + n < 2 ^ 64" "fst (request_status k t) = RESULT_PENDING" "fst (request_status k t') = RESULT_OK"
  shows "\<not> frame_is_current (generation t0) t'"
proof -
  have r: "tuning_reachable (m + n0) (t, ids)"
    using assms(1,2) tuning_run_trans by (auto simp: tuning_reachable_def)
  have b: "m + n0 < 2 ^ 64" using assms(4) by simp
  note f = reachable_facts(1) [OF r] reachable_facts(2) [OF r b]
  obtain a where a: "0 < a" "a \<le> n" "generation t' = generation t + of_nat a"
    using result_evolves_run [OF assms(3), of "m + n0" k] f assms(4-6)
    by (auto simp: request_result_def dead_result_def)
  obtain d where d: "d \<le> n0" "generation t = generation t0 + of_nat d"
    using tuning_run_generation [OF assms(2)] reachable_facts(1) [OF assms(1)] by auto
  have "generation t' = generation t0 + of_nat (d + a)" using a(3) d(2) by (simp add: add_ac)
  then have "generation t' \<noteq> generation t0"
    using of_nat_generation_eq [of "generation t0" "d + a"] a d assms(4) by auto
  then show ?thesis by (simp add: frame_is_current_def frame_is_current_reads_def)
qed

theorem stale_frame_refused_witness:
  "let t = snd (request_begin initial_tuning); t' = request_mark_ready 1 (request_publish 7 1 RESULT_OK t) in
   fst (request_status 1 t) = RESULT_PENDING \<and> fst (request_status 1 t') = RESULT_OK \<and>
   \<not> frame_is_current (generation initial_tuning) t'"
proof -
  let ?t = "snd (request_begin initial_tuning)"
  let ?t' = "request_mark_ready 1 (request_publish 7 1 RESULT_OK ?t)"
  have s: "fst (request_status 1 ?t) = RESULT_PENDING" "fst (request_status 1 ?t') = RESULT_OK" by code_simp+
  have r: "tuning_reachable 0 (initial_tuning, [])" by (simp add: tuning_reachable_def tuning_run.start)
  have run: "tuning_run (Suc (Suc 0)) (?t, []) (?t', [])"
    by (rule tuning_run.step [OF tuning_run.step [OF tuning_run.start tuning_step.publish] tuning_step.ready])
  have "\<not> frame_is_current (generation initial_tuning) ?t'"
    using stale_frame_refused [OF r request_begin_run run _ s] by simp
  then show ?thesis using s by (simp add: Let_def)
qed

text \<open>
  C20. A request its owner let go of does not hold the gate once the backend reports its failure,
  whichever of the two comes first: the failure is kept as the request's result, the generation
  stays, and one unresolved request less is counted. Only a gate inherited from an overwritten
  failure stays closed.
\<close>

theorem disowned_failure_opens_gate:
  assumes "tuning_reachable n (t, ids)" "n < 2 ^ 64" "i < REQUEST_HISTORY" "req_state (req_at t i) = REQUEST_PENDING"
    "\<not> backend_complete (req_at t i)" "r \<noteq> RESULT_OK" "r \<noteq> RESULT_PENDING"
  defines "k \<equiv> request_id (req_at t i)"
  shows "t' \<in> {request_publish now k r (request_disown k t), request_disown k (request_publish now k r t)} \<Longrightarrow>
    request_status k t' = (r, now) \<and> generation t' = generation t \<and>
    unresolved_count t' = unresolved_count t - (if inherited_failure_gate (req_at t i) then 0 else 1)"
proof -
  note wf = reachable_facts(1) [OF assms(1)] and ok = reachable_facts(2) [OF assms(1,2)]
  have n: "length (requests t) = REQUEST_HISTORY" using wf by (simp add: tuning_wf_def)
  have h: "holds k i t" using assms(3,4) by (simp add: holds_def k_def)
  have k0: "k \<noteq> 0" using h ok by (auto simp: ids_ok_def)
  have f: "request_find_locked k t = Some i" using ids_ok_find [of t ids k i] ok h by simp
  note e = request_disown_def request_publish_def Let_def tune_result_is_complete_def finish_rolled_back_locked_def
    request_status_def f k0 request_find_upd request_find_add_unresolved n assms(3-7)
  assume "t' \<in> {request_publish now k r (request_disown k t), request_disown k (request_publish now k r t)}"
  then consider "t' = request_publish now k r (request_disown k t)" | "t' = request_disown k (request_publish now k r t)" by blast
  then show ?thesis
  proof cases
    case 1
    show ?thesis unfolding 1 by (simp add: e)
  next
    case 2
    show ?thesis unfolding 2 by (simp add: e)
  qed
qed

theorem disowned_failure_opens_gate_witness:
  "let t = snd (request_begin initial_tuning); t' = request_publish 7 1 RESULT_FAILED (request_disown 1 t) in
   request_status 1 t' = (RESULT_FAILED, 7) \<and> generation t' = generation t \<and> unresolved_count t' = unresolved_count t - 1"
proof -
  let ?t = "snd (request_begin initial_tuning)"
  have q: "(0::nat) < REQUEST_HISTORY" "req_state (req_at ?t 0) = REQUEST_PENDING" "\<not> backend_complete (req_at ?t 0)"
    "request_id (req_at ?t 0) = 1" "\<not> inherited_failure_gate (req_at ?t 0)" by code_simp+
  show ?thesis
    using disowned_failure_opens_gate [OF request_begin_reachable _ q(1-3), of RESULT_FAILED
        "request_publish 7 1 RESULT_FAILED (request_disown 1 ?t)" 7] q(4,5) by (simp add: Let_def)
qed

end
