(* ===== verification/Tetra_Confirm.thy ===== *)
theory Tetra_Confirm
  imports Trunk_Tuning Cc_Candidates
begin

text \<open>
  The TETRA session: the records of \<open>src/protocol/tetra/tetra_state.h\<close> that the trunking state
  machine and the carrier evidence keep, the state extension of
  \<open>src/protocol/tetra/tetra_state.c\<close>, and the evidence operations of
  \<open>src/protocol/tetra/tetra_confirm.c\<close>. The fields of the options and of the decoder state that
  TETRA trunking reads and writes are in the same record; the control channels and the candidate list
  are the decoder state of \<open>Cc_Candidates\<close>. Flags are booleans, times of the decode clock are
  rational seconds. Calls into the call records, the publication and the other carrier state, which
  change none of these fields, are kept as a list of effects in the order they are made. What an
  operation reads of the world, the decode clock and whether memory is to be had, is its first
  argument.
\<close>

section \<open>State\<close>

datatype tetra_sm_state_e = TETRA_SM_IDLE | TETRA_SM_ON_CC | TETRA_SM_TUNED

record tetra_sm_grant =
  freq_hz :: int
  carrier :: u16
  timeslots :: u8
  call_id :: u16

definition zero_grant :: tetra_sm_grant where
  "zero_grant = \<lparr>freq_hz = 0, carrier = 0, timeslots = 0, call_id = 0\<rparr>"

text \<open>The tuning state shared with the engine and the other protocols: what a tune changes and a failed one puts back.\<close>

record shared_tuning =
  trunk_is_tuned :: int
  p25_vc_freq :: "int \<times> int"
  trunk_vc_freq :: "int \<times> int"
  last_vc_sync_time :: int
  last_vc_sync_time_m :: rat
  last_cc_sync_time :: int
  last_cc_sync_time_m :: rat
  p25_last_vc_tune_time :: int
  p25_last_vc_tune_time_m :: rat

record tetra_sm_rollback =
  rb_tuning :: shared_tuning
  rb_followed :: tetra_sm_grant
  rb_t_tune_m :: rat
  rb_t_voice_m :: rat
  rb_confirm_epoch :: u32
  rb_followed_proven :: bool
  rb_followed_retired :: bool
  rb_state :: tetra_sm_state_e

datatype pending_kind_e = SM_PENDING_NONE | SM_PENDING_GRANT | SM_PENDING_RETURN

record tetra_sm_t =
  pending_prev :: tetra_sm_rollback
  followed :: tetra_sm_grant
  t_tune_m :: rat
  t_voice_m :: rat
  pending_request_id :: u64
  sm_state :: tetra_sm_state_e
  pending_kind :: pending_kind_e
  followed_retired :: bool

record tetra_confirm_t =
  signalling_blocks :: u32
  carrier_blocks :: u32
  carrier_epoch :: u32
  followed_call :: bool
  burst_open :: bool
  burst_stale :: bool
  burst_proven :: bool

record tetra_state =
  sm :: tetra_sm_t
  confirm :: tetra_confirm_t

definition zero_tuning :: shared_tuning where
  "zero_tuning = \<lparr>trunk_is_tuned = 0, p25_vc_freq = (0, 0), trunk_vc_freq = (0, 0), last_vc_sync_time = 0,
     last_vc_sync_time_m = 0, last_cc_sync_time = 0, last_cc_sync_time_m = 0, p25_last_vc_tune_time = 0,
     p25_last_vc_tune_time_m = 0\<rparr>"

definition zero_rollback :: tetra_sm_rollback where
  "zero_rollback = \<lparr>rb_tuning = zero_tuning, rb_followed = zero_grant, rb_t_tune_m = 0, rb_t_voice_m = 0,
     rb_confirm_epoch = 0, rb_followed_proven = False, rb_followed_retired = False, rb_state = TETRA_SM_IDLE\<rparr>"

definition zero_sm :: tetra_sm_t where
  "zero_sm = \<lparr>pending_prev = zero_rollback, followed = zero_grant, t_tune_m = 0, t_voice_m = 0,
     pending_request_id = 0, sm_state = TETRA_SM_IDLE, pending_kind = SM_PENDING_NONE, followed_retired = False\<rparr>"

definition zero_confirm :: tetra_confirm_t where
  "zero_confirm = \<lparr>signalling_blocks = 0, carrier_blocks = 0, carrier_epoch = 0, followed_call = False,
     burst_open = False, burst_stale = False, burst_proven = False\<rparr>"

definition zero_tetra :: tetra_state where
  "zero_tetra = \<lparr>sm = zero_sm, confirm = zero_confirm\<rparr>"

datatype tetra_effect =
  PUBLISH | CALLS_UNFOLLOWED bool | CALLS_FOLLOWED_MOVED | FORGET_CARRIER | CALLS_TICK

record tetra_session =
  trunk_enable :: int
  trunk_hangtime :: rat
  tuned_freq_hz :: int
  shared :: shared_tuning
  core :: dsd_state
  tetra :: "tetra_state option"
  effects :: "tetra_effect list"

record tetra_world =
  mono_ns :: u64
  wall_time :: int
  calloc_ok :: bool

definition ns_to_s :: "u64 \<Rightarrow> rat" where
  "ns_to_s ns = of_nat (unat ns) / 10 ^ 9"

definition now_m :: "tetra_world \<Rightarrow> rat" where
  "now_m w = ns_to_s (mono_ns w)"

section \<open>The state extension\<close>

definition tetra_st :: "tetra_world \<Rightarrow> tetra_session \<Rightarrow> tetra_session" where
  "tetra_st w s = (case tetra s of
      Some _ \<Rightarrow> s
    | None \<Rightarrow> if calloc_ok w then s\<lparr>tetra := Some zero_tetra\<rparr> else s)"

definition tetra_st_peek :: "tetra_session \<Rightarrow> tetra_state" where
  "tetra_st_peek s = (case tetra s of Some ts \<Rightarrow> ts | None \<Rightarrow> zero_tetra)"

text \<open>An update of the TETRA state if there is one, as after \<open>tetra_st_existing\<close>.\<close>

definition on_tetra :: "(tetra_state \<Rightarrow> tetra_state) \<Rightarrow> tetra_session \<Rightarrow> tetra_session" where
  "on_tetra f s = s\<lparr>tetra := map_option f (tetra s)\<rparr>"

definition on_sm :: "(tetra_sm_t \<Rightarrow> tetra_sm_t) \<Rightarrow> tetra_session \<Rightarrow> tetra_session" where
  "on_sm f s = on_tetra (sm_update f) s"

definition on_confirm :: "(tetra_confirm_t \<Rightarrow> tetra_confirm_t) \<Rightarrow> tetra_session \<Rightarrow> tetra_session" where
  "on_confirm f s = on_tetra (confirm_update f) s"

definition effect :: "tetra_effect \<Rightarrow> tetra_session \<Rightarrow> tetra_session" where
  "effect e s = s\<lparr>effects := effects s @ [e]\<rparr>"

section \<open>Carrier evidence\<close>

definition carrier_current :: "tetra_confirm_t \<Rightarrow> bool" where
  "carrier_current c \<longleftrightarrow> \<not> (burst_open c \<and> burst_stale c)"

definition tetra_confirm_reset :: "tetra_session \<Rightarrow> tetra_session" where
  "tetra_confirm_reset s = on_confirm (\<lambda>c. c\<lparr>signalling_blocks := 0, carrier_blocks := 0,
     carrier_epoch := carrier_epoch c + 1, followed_call := False, burst_stale := burst_open c\<rparr>) s"

definition tetra_confirm_burst_begin :: "tetra_world \<Rightarrow> tetra_session \<Rightarrow> tetra_session" where
  "tetra_confirm_burst_begin w s =
     on_confirm (\<lambda>c. c\<lparr>burst_open := True, burst_stale := False, burst_proven := False\<rparr>) (tetra_st w s)"

definition tetra_confirm_burst_begin_captured :: "tetra_world \<Rightarrow> u32 \<Rightarrow> tetra_session \<Rightarrow> tetra_session" where
  "tetra_confirm_burst_begin_captured w epoch s =
     on_confirm (\<lambda>c. c\<lparr>burst_stale := (carrier_epoch c \<noteq> epoch)\<rparr>) (tetra_confirm_burst_begin w s)"

definition tetra_confirm_burst_end :: "tetra_session \<Rightarrow> bool \<times> tetra_session" where
  "tetra_confirm_burst_end s =
     (case tetra s of
        None \<Rightarrow> (False, s)
      | Some ts \<Rightarrow> (burst_proven (confirm ts), on_confirm (\<lambda>c. c\<lparr>burst_open := False, burst_stale := False\<rparr>) s))"

definition tetra_confirm_burst_current :: "tetra_session \<Rightarrow> bool" where
  "tetra_confirm_burst_current s = carrier_current (confirm (tetra_st_peek s))"

text \<open>Counts saturate at the largest 32-bit value.\<close>

definition sat_inc :: "u32 \<Rightarrow> u32" where
  "sat_inc n = (if n < -1 then n + 1 else n)"

definition confirm_note_carrier_block :: "tetra_world \<Rightarrow> bool \<Rightarrow> tetra_session \<Rightarrow> tetra_session" where
  "confirm_note_carrier_block w downlink s =
     on_confirm (\<lambda>c. let c1 = c\<lparr>burst_proven := True\<rparr>
        in if \<not> carrier_current c then c1
           else let c2 = c1\<lparr>carrier_blocks := sat_inc (carrier_blocks c1)\<rparr>
                in if downlink then c2\<lparr>signalling_blocks := sat_inc (signalling_blocks c2)\<rparr> else c2) (tetra_st w s)"

definition tetra_confirm_note_signalling :: "tetra_world \<Rightarrow> tetra_session \<Rightarrow> tetra_session" where
  "tetra_confirm_note_signalling w s = confirm_note_carrier_block w True s"

definition tetra_confirm_note_uplink_signalling :: "tetra_world \<Rightarrow> tetra_session \<Rightarrow> tetra_session" where
  "tetra_confirm_note_uplink_signalling w s = confirm_note_carrier_block w False s"

definition tetra_confirm_note_block :: "tetra_world \<Rightarrow> tetra_session \<Rightarrow> tetra_session" where
  "tetra_confirm_note_block w s = on_confirm (burst_proven_update (\<lambda>_. True)) (tetra_st w s)"

definition tetra_confirm_carrier_proven :: "tetra_session \<Rightarrow> bool" where
  "tetra_confirm_carrier_proven s \<longleftrightarrow> carrier_blocks (confirm (tetra_st_peek s)) \<noteq> 0"

definition tetra_confirm_downlink_proven :: "tetra_session \<Rightarrow> bool" where
  "tetra_confirm_downlink_proven s \<longleftrightarrow> signalling_blocks (confirm (tetra_st_peek s)) \<noteq> 0"

definition tetra_confirm_note_followed_call :: "tetra_world \<Rightarrow> tetra_session \<Rightarrow> tetra_session" where
  "tetra_confirm_note_followed_call w s =
     on_confirm (\<lambda>c. if carrier_current c then c\<lparr>followed_call := True\<rparr> else c) (tetra_st w s)"

definition tetra_confirm_forget_followed_call :: "tetra_session \<Rightarrow> tetra_session" where
  "tetra_confirm_forget_followed_call s = on_confirm (followed_call_update (\<lambda>_. False)) s"

definition tetra_confirm_followed_call_proven :: "tetra_session \<Rightarrow> bool" where
  "tetra_confirm_followed_call_proven s \<longleftrightarrow> followed_call (confirm (tetra_st_peek s))"

definition tetra_confirm_carrier_epoch :: "tetra_session \<Rightarrow> u32" where
  "tetra_confirm_carrier_epoch s = carrier_epoch (confirm (tetra_st_peek s))"

definition tetra_confirm_restore_followed_call :: "u32 \<Rightarrow> bool \<Rightarrow> tetra_session \<Rightarrow> tetra_session" where
  "tetra_confirm_restore_followed_call epoch proven s =
     on_confirm (\<lambda>c. if carrier_epoch c = epoch then c\<lparr>followed_call := proven\<rparr> else c) s"

text \<open>The part of \<open>tetra_forget_carrier\<close> that concerns the session modelled here; the rest is one effect.\<close>

definition tetra_forget_carrier :: "tetra_session \<Rightarrow> tetra_session" where
  "tetra_forget_carrier s =
     (case tetra s of None \<Rightarrow> s | Some _ \<Rightarrow> effect FORGET_CARRIER (tetra_confirm_reset s))"

end
