(* ===== verification/Tetra_Trunk.thy ===== *)
theory Tetra_Trunk
  imports Tetra_Confirm
begin

text \<open>
  The TETRA trunking state machine, \<open>src/protocol/tetra/tetra_trunk_sm.c\<close>: one followed traffic
  channel per session, tuned to through the trunk-tuning requests of \<open>Trunk_Tuning\<close>. An operation
  takes the session and the request table and returns both. The engine's tuning hooks are an
  argument of the operations that tune. The options pointer is not null; the narration on the
  standard error stream is left out.
\<close>

section \<open>Model\<close>

abbreviation sm_of :: "tetra_session \<Rightarrow> tetra_sm_t" where
  "sm_of s \<equiv> sm (tetra_st_peek s)"

abbreviation confirm_of :: "tetra_session \<Rightarrow> tetra_confirm_t" where
  "confirm_of s \<equiv> confirm (tetra_st_peek s)"

definition TETRA_SM_GRANT_TIMEOUT_S :: rat where
  "TETRA_SM_GRANT_TIMEOUT_S = 4"

definition TETRA_SM_SPEECH_GAP_S :: rat where
  "TETRA_SM_SPEECH_GAP_S = 1 / 4"

definition sm_set_state :: "tetra_sm_state_e \<Rightarrow> tetra_session \<Rightarrow> tetra_session" where
  "sm_set_state nxt s =
     (if sm_state (sm_of s) = nxt then s else effect PUBLISH (on_sm (sm_state_update (\<lambda>_. nxt)) s))"

definition sm_rest_state :: "tetra_session \<Rightarrow> tetra_sm_state_e" where
  "sm_rest_state s =
     (if trunk_enable s = 1 \<and> trunk_cc_freq (core s) > 0 then TETRA_SM_ON_CC else TETRA_SM_IDLE)"

definition sm_capture :: "tetra_session \<Rightarrow> tetra_sm_rollback" where
  "sm_capture s = \<lparr>rb_tuning = shared s, rb_followed = followed (sm_of s), rb_t_tune_m = t_tune_m (sm_of s),
     rb_t_voice_m = t_voice_m (sm_of s), rb_confirm_epoch = tetra_confirm_carrier_epoch s,
     rb_followed_proven = tetra_confirm_followed_call_proven s, rb_followed_retired = followed_retired (sm_of s),
     rb_state = sm_state (sm_of s)\<rparr>"

definition sm_restore :: "tetra_sm_rollback \<Rightarrow> tetra_session \<Rightarrow> tetra_session" where
  "sm_restore r s =
     (let s1 = s\<lparr>shared := rb_tuning r\<rparr>;
          s2 = on_sm (\<lambda>m. m\<lparr>followed := rb_followed r, followed_retired := rb_followed_retired r,
                 t_tune_m := rb_t_tune_m r, t_voice_m := rb_t_voice_m r\<rparr>) s1;
          s3 = tetra_confirm_restore_followed_call (rb_confirm_epoch r) (rb_followed_proven r) s2
      in sm_set_state (rb_state r) s3)"

definition sm_stamp_tuned :: "tetra_world \<Rightarrow> rat \<Rightarrow> tetra_session \<Rightarrow> tetra_session" where
  "sm_stamp_tuned w at_m s = s\<lparr>shared := (shared s)\<lparr>last_vc_sync_time := wall_time w, last_vc_sync_time_m := at_m,
     last_cc_sync_time := wall_time w, last_cc_sync_time_m := at_m,
     p25_last_vc_tune_time := wall_time w, p25_last_vc_tune_time_m := at_m\<rparr>\<rparr>"

definition sm_claim_shared_tuning :: "int \<Rightarrow> tetra_session \<Rightarrow> tetra_session" where
  "sm_claim_shared_tuning freq s =
     s\<lparr>shared := (shared s)\<lparr>trunk_is_tuned := 1, trunk_vc_freq := (freq, freq), p25_vc_freq := (freq, freq)\<rparr>\<rparr>"

definition sm_release_shared_tuning :: "tetra_session \<Rightarrow> tetra_session" where
  "sm_release_shared_tuning s =
     s\<lparr>shared := (shared s)\<lparr>trunk_is_tuned := 0, trunk_vc_freq := (0, 0), p25_vc_freq := (0, 0)\<rparr>\<rparr>"

definition sm_follow :: "tetra_sm_grant \<Rightarrow> tetra_session \<Rightarrow> tetra_session" where
  "sm_follow g s = tetra_confirm_forget_followed_call
     (on_sm (\<lambda>m. m\<lparr>followed := g\<lparr>timeslots := timeslots g AND 0x0F, carrier := carrier g AND 0x0FFF,
                                 call_id := call_id g AND 0x3FFF\<rparr>,
                  followed_retired := False, t_tune_m := 0, t_voice_m := 0\<rparr>) s)"

definition sm_unfollow :: "bool \<Rightarrow> tetra_session \<Rightarrow> tetra_session" where
  "sm_unfollow with_opts s = effect (CALLS_UNFOLLOWED with_opts) (tetra_confirm_forget_followed_call
     (on_sm (\<lambda>m. m\<lparr>followed := zero_grant, t_tune_m := 0, t_voice_m := 0\<rparr>) s))"

definition tetra_sm_disown_pending :: "tetra_session \<Rightarrow> trunk_tuning \<Rightarrow> tetra_session \<times> trunk_tuning" where
  "tetra_sm_disown_pending s t =
     (let request = pending_request_id (sm_of s)
      in if request = 0 then (s, t)
         else (on_sm (\<lambda>m. m\<lparr>pending_request_id := 0, pending_kind := SM_PENDING_NONE\<rparr>) s, request_disown request t))"

definition sm_stage_pending :: "pending_kind_e \<Rightarrow> u64 \<Rightarrow> tetra_sm_rollback \<Rightarrow> tetra_session \<Rightarrow> tetra_session" where
  "sm_stage_pending kind request prev s =
     on_sm (\<lambda>m. m\<lparr>pending_prev := prev, pending_request_id := request, pending_kind := kind\<rparr>) s"

definition sm_grant_tune_completed :: "tetra_world \<Rightarrow> rat \<Rightarrow> tetra_session \<Rightarrow> tetra_session" where
  "sm_grant_tune_completed w completed_m s =
     (let at_m = (if completed_m > 0 then completed_m else now_m w);
          s1 = s\<lparr>shared := (shared s)\<lparr>trunk_is_tuned := 1\<rparr>\<rparr>;
          s2 = on_sm (t_tune_m_update (\<lambda>_. at_m)) s1;
          s3 = sm_stamp_tuned w at_m s2;
          s4 = tetra_forget_carrier s3
      in effect CALLS_FOLLOWED_MOVED s4)"

definition sm_return_completed :: "tetra_session \<Rightarrow> tetra_session" where
  "sm_return_completed s =
     (let s1 = s\<lparr>shared := (shared s)\<lparr>trunk_is_tuned := 0\<rparr>\<rparr>
      in tetra_forget_carrier (sm_unfollow True s1))"

definition sm_settle_pending :: "tetra_world \<Rightarrow> tetra_session \<Rightarrow> trunk_tuning \<Rightarrow> bool \<times> tetra_session \<times> trunk_tuning" where
  "sm_settle_pending w s t =
     (let request = pending_request_id (sm_of s)
      in if request = 0 then (True, s, t)
         else case request_status request t of (r, completed_ns) \<Rightarrow>
           if r = RESULT_PENDING then (False, s, t)
           else let kind = pending_kind (sm_of s);
                    s1 = on_sm (\<lambda>m. m\<lparr>pending_request_id := 0, pending_kind := SM_PENDING_NONE\<rparr>) s
                in if r = RESULT_OK
                   then (True, if kind = SM_PENDING_GRANT then sm_grant_tune_completed w (ns_to_s completed_ns) s1
                               else sm_return_completed s1, t)
                   else (True, sm_restore (pending_prev (sm_of s1)) s1, request_complete (mono_ns w) request r t))"

definition sm_settle_at_entry :: "tetra_world \<Rightarrow> tetra_session \<Rightarrow> trunk_tuning \<Rightarrow> bool \<times> tetra_session \<times> trunk_tuning" where
  "sm_settle_at_entry w s t =
     (if burst_open (confirm_of s) then (pending_request_id (sm_of s) = 0, s, t) else sm_settle_pending w s t)"

type_synonym tetra_hooks = "tetra_session tuning_hooks"

definition sm_release :: "tetra_hooks \<Rightarrow> tetra_world \<Rightarrow> tetra_session \<Rightarrow> trunk_tuning \<Rightarrow> bool \<times> tetra_session \<times> trunk_tuning" where
  "sm_release hooks w s t =
     (if trunk_enable s \<noteq> 1 then (False, s, t)
      else let cc = trunk_cc_freq (core s)
      in if cc \<le> 0 \<or> freq_hz (followed (sm_of s)) = cc
         then let s1 = sm_unfollow True (sm_release_shared_tuning s)
              in (True, sm_set_state (sm_rest_state s1) s1, t)
         else let prev = sm_capture s;
                  p25_cc = p25_cc_freq (core s);
                  s1 = s\<lparr>core := (core s)\<lparr>p25_cc_freq := 0\<rparr>\<rparr>
              in case hook_return_to_cc hooks (mono_ns w) s1 t of (r, request, s2, t2) \<Rightarrow>
                 if \<not> tune_result_is_ok r
                 then (False, s2\<lparr>core := (core s2)\<lparr>p25_cc_freq := p25_cc\<rparr>\<rparr>, t2)
                 else if r = RESULT_PENDING
                 then let s3 = on_sm (followed_update (\<lambda>_. zero_grant)) (sm_stage_pending SM_PENDING_RETURN request prev s2)
                      in (True, sm_set_state (sm_rest_state s3) s3, t2)
                 else let s3 = sm_return_completed s2 in (True, sm_set_state (sm_rest_state s3) s3, t2))"

definition sm_same_call :: "tetra_sm_t \<Rightarrow> tetra_sm_grant \<Rightarrow> bool" where
  "sm_same_call m g \<longleftrightarrow> \<not> followed_retired m \<and> freq_hz (followed m) = freq_hz g \<and>
     timeslots (followed m) = timeslots g AND 0x0F \<and>
     (call_id (followed m) = 0 \<or> call_id g = 0 \<or> call_id (followed m) = call_id g AND 0x3FFF)"

definition sm_follow_here :: "tetra_world \<Rightarrow> tetra_sm_grant \<Rightarrow> tetra_session \<Rightarrow> bool \<times> tetra_session" where
  "sm_follow_here w g s =
     (let was_tuned = (sm_state (sm_of s) = TETRA_SM_TUNED)
      in if was_tuned \<and> sm_same_call (sm_of s) g
         then (False, if call_id (followed (sm_of s)) = 0
                      then on_sm (followed_update (call_id_update (\<lambda>_. call_id g AND 0x3FFF))) s else s)
         else let s1 = on_sm (t_tune_m_update (\<lambda>_. now_m w)) (sm_follow g s);
                  s2 = (if \<not> was_tuned then sm_stamp_tuned w (t_tune_m (sm_of s1)) (sm_claim_shared_tuning (freq_hz g) s1) else s1);
                  s3 = tetra_confirm_note_followed_call w s2
              in (True, sm_set_state TETRA_SM_TUNED s3))"

definition sm_tune_grant :: "tetra_hooks \<Rightarrow> tetra_world \<Rightarrow> tetra_sm_grant \<Rightarrow> tetra_session \<Rightarrow> trunk_tuning \<Rightarrow> bool \<times> tetra_session \<times> trunk_tuning" where
  "sm_tune_grant hooks w g s t =
     (let prev = sm_capture s
      in case hook_tune_to_freq hooks (mono_ns w) (freq_hz g) 0 s t of (r, request, s1, t1) \<Rightarrow>
         if \<not> tune_result_is_ok r then (False, s1, t1)
         else let s2 = sm_set_state TETRA_SM_TUNED (sm_follow g s1)
              in if r = RESULT_PENDING then (True, sm_stage_pending SM_PENDING_GRANT request prev s2, t1)
                 else (True, sm_grant_tune_completed w 0 s2, t1))"

definition tetra_sm_receiver_freq :: "tetra_session \<Rightarrow> int" where
  "tetra_sm_receiver_freq s =
     (if pending_request_id (sm_of s) \<noteq> 0 then 0
      else if sm_state (sm_of s) = TETRA_SM_TUNED then freq_hz (followed (sm_of s)) else tuned_freq_hz s)"

definition sm_grant_followable :: "tetra_session \<Rightarrow> tetra_sm_grant \<Rightarrow> bool" where
  "sm_grant_followable s g =
     (if trunk_enable s \<noteq> 1 then False
      else if trunk_cc_freq (core s) \<le> 0 \<or> freq_hz g \<le> 0 then False
      else tetra_confirm_downlink_proven s)"

definition tetra_sm_init :: "tetra_session \<Rightarrow> trunk_tuning \<Rightarrow> tetra_session \<times> trunk_tuning" where
  "tetra_sm_init s t =
     (if tetra s = None then (s, t)
      else case tetra_sm_disown_pending s t of (s1, t1) \<Rightarrow>
        let s2 = (if sm_state (sm_of s1) = TETRA_SM_TUNED then sm_unfollow True s1 else s1)
        in (tetra_confirm_forget_followed_call (on_sm (\<lambda>_. zero_sm) s2), t1))"

definition DSD_TRUNK_CC_CANDIDATE_CURRENT_SITE :: u8 where
  "DSD_TRUNK_CC_CANDIDATE_CURRENT_SITE = 0x01"

definition dsd_mark_cc_sync :: "tetra_world \<Rightarrow> tetra_session \<Rightarrow> tetra_session" where
  "dsd_mark_cc_sync w s = s\<lparr>shared := (shared s)\<lparr>last_cc_sync_time := wall_time w, last_cc_sync_time_m := now_m w\<rparr>\<rparr>"

definition dsd_mark_vc_sync :: "tetra_world \<Rightarrow> tetra_session \<Rightarrow> tetra_session" where
  "dsd_mark_vc_sync w s = s\<lparr>shared := (shared s)\<lparr>last_vc_sync_time := wall_time w, last_vc_sync_time_m := now_m w\<rparr>\<rparr>"

definition tetra_sm_on_cc_sync :: "tetra_world \<Rightarrow> tetra_session \<Rightarrow> trunk_tuning \<Rightarrow> tetra_session \<times> trunk_tuning" where
  "tetra_sm_on_cc_sync w s t =
     (let s0 = tetra_st w s
      in if tetra s0 = None then (s0, t)
         else case sm_settle_at_entry w s0 t of (settled, s1, t1) \<Rightarrow>
           if \<not> settled then (s1, t1)
           else if trunk_enable s1 \<noteq> 1 \<or> trunk_cc_freq (core s1) \<le> 0 then (s1, t1)
           else let s2 = s1\<lparr>core := snd (dsd_trunk_cc_candidates_add (calloc_ok w) (trunk_cc_freq (core s1)) False
                               DSD_TRUNK_CC_CANDIDATE_CURRENT_SITE (core s1))\<rparr>
                in if sm_state (sm_of s2) = TETRA_SM_TUNED then (s2, t1)
                   else let s3 = dsd_mark_cc_sync w s2
                        in (if sm_state (sm_of s3) = TETRA_SM_IDLE then sm_set_state TETRA_SM_ON_CC s3 else s3, t1))"

definition tetra_sm_on_grant :: "tetra_hooks \<Rightarrow> tetra_world \<Rightarrow> tetra_sm_grant \<Rightarrow> tetra_session \<Rightarrow> trunk_tuning \<Rightarrow> bool \<times> tetra_session \<times> trunk_tuning" where
  "tetra_sm_on_grant hooks w g s t =
     (let s0 = tetra_st w s
      in if tetra s0 = None then (False, s0, t)
         else case sm_settle_at_entry w s0 t of (settled, s1, t1) \<Rightarrow>
           if \<not> settled then (False, s1, t1)
           else if \<not> sm_grant_followable s1 g then (False, s1, t1)
           else if freq_hz g = tetra_sm_receiver_freq s1
           then (case sm_follow_here w g s1 of (b, s2) \<Rightarrow> (b, s2, t1))
           else sm_tune_grant hooks w g s1 t1)"

definition tetra_sm_settle :: "tetra_world \<Rightarrow> tetra_session \<Rightarrow> trunk_tuning \<Rightarrow> bool \<times> tetra_session \<times> trunk_tuning" where
  "tetra_sm_settle w s t = (if tetra s = None then (True, s, t) else sm_settle_pending w s t)"

definition tetra_sm_on_release :: "tetra_hooks \<Rightarrow> tetra_world \<Rightarrow> u16 \<Rightarrow> tetra_session \<Rightarrow> trunk_tuning \<Rightarrow> tetra_session \<times> trunk_tuning" where
  "tetra_sm_on_release hooks w cid s t =
     (if tetra s = None then (s, t)
      else case sm_settle_at_entry w s t of (settled, s1, t1) \<Rightarrow>
        if \<not> settled then (s1, t1)
        else if sm_state (sm_of s1) \<noteq> TETRA_SM_TUNED then (s1, t1)
        else if call_id (followed (sm_of s1)) \<noteq> cid AND 0x3FFF then (s1, t1)
        else snd (sm_release hooks w s1 t1))"

definition tetra_slot_bit :: "u8 \<Rightarrow> u8" where
  "tetra_slot_bit tn = (if 1 \<le> tn \<and> tn \<le> 4 then push_bit (4 - unat tn) 1 else 0)"

definition tetra_sm_note_voice :: "tetra_world \<Rightarrow> u8 \<Rightarrow> tetra_session \<Rightarrow> tetra_session" where
  "tetra_sm_note_voice w tn s =
     (let s1 = dsd_mark_vc_sync w s
      in if tetra s1 = None \<or> sm_state (sm_of s1) \<noteq> TETRA_SM_TUNED \<or> pending_request_id (sm_of s1) \<noteq> 0 then s1
         else if timeslots (followed (sm_of s1)) AND tetra_slot_bit tn = 0 then s1
         else on_sm (t_voice_m_update (\<lambda>_. now_m w)) s1)"

definition sm_hold_untrunked :: "tetra_session \<Rightarrow> tetra_session" where
  "sm_hold_untrunked s =
     (if followed_retired (sm_of s) then s
      else tetra_confirm_forget_followed_call (on_sm (followed_retired_update (\<lambda>_. True)) s))"

definition sm_tick_tuned :: "tetra_hooks \<Rightarrow> tetra_world \<Rightarrow> tetra_session \<Rightarrow> trunk_tuning \<Rightarrow> tetra_session \<times> trunk_tuning" where
  "sm_tick_tuned hooks w s t =
     (if trunk_is_tuned (shared s) \<noteq> 1
      then let s1 = sm_unfollow True s in (sm_set_state (sm_rest_state s1) s1, t)
      else if trunk_enable s \<noteq> 1 then (sm_hold_untrunked s, t)
      else if t_voice_m (sm_of s) > 0
      then let hangtime = (if trunk_hangtime s > 0 then trunk_hangtime s else 0)
           in if now_m w - t_voice_m (sm_of s) \<ge> TETRA_SM_SPEECH_GAP_S + hangtime
              then snd (sm_release hooks w s t) else (s, t)
      else if t_tune_m (sm_of s) > 0 \<and> now_m w - t_tune_m (sm_of s) \<ge> TETRA_SM_GRANT_TIMEOUT_S
      then snd (sm_release hooks w s t) else (s, t))"

definition sm_tick :: "tetra_hooks \<Rightarrow> tetra_world \<Rightarrow> tetra_session \<Rightarrow> trunk_tuning \<Rightarrow> tetra_session \<times> trunk_tuning" where
  "sm_tick hooks w s t =
     (case sm_settle_pending w s t of (settled, s1, t1) \<Rightarrow>
        if \<not> settled then (s1, t1)
        else if sm_state (sm_of s1) = TETRA_SM_ON_CC \<and> sm_rest_state s1 \<noteq> TETRA_SM_ON_CC
        then (sm_set_state TETRA_SM_IDLE s1, t1)
        else if sm_state (sm_of s1) = TETRA_SM_TUNED then sm_tick_tuned hooks w s1 t1
        else (s1, t1))"

definition tetra_sm_retire_call :: "u16 \<Rightarrow> tetra_session \<Rightarrow> tetra_session" where
  "tetra_sm_retire_call cid s =
     (if tetra s = None then s
      else let cid' = cid AND 0x3FFF;
               s1 = (if sm_state (sm_of s) = TETRA_SM_TUNED \<and> \<not> followed_retired (sm_of s) \<and> call_id (followed (sm_of s)) = cid'
                     then tetra_confirm_forget_followed_call (on_sm (followed_retired_update (\<lambda>_. True)) s) else s);
               prev = pending_prev (sm_of s1)
           in if pending_request_id (sm_of s1) \<noteq> 0 \<and> rb_state prev = TETRA_SM_TUNED \<and> call_id (rb_followed prev) = cid'
              then on_sm (pending_prev_update (\<lambda>p. p\<lparr>rb_followed_retired := True, rb_followed_proven := False\<rparr>)) s1
              else s1)"

text \<open>The call records age on the same tick; \<open>aged\<close> are the identifiers of the records that leave the table.\<close>

definition tetra_sm_tick :: "tetra_hooks \<Rightarrow> tetra_world \<Rightarrow> u16 list \<Rightarrow> tetra_session \<Rightarrow> trunk_tuning \<Rightarrow> tetra_session \<times> trunk_tuning" where
  "tetra_sm_tick hooks w aged s t =
     (if tetra s = None then (s, t)
      else case sm_tick hooks w s t of (s1, t1) \<Rightarrow> (fold tetra_sm_retire_call aged (effect CALLS_TICK s1), t1))"

definition tetra_sm_on_external_cc_return :: "tetra_session \<Rightarrow> trunk_tuning \<Rightarrow> tetra_session \<times> trunk_tuning" where
  "tetra_sm_on_external_cc_return s t =
     (if tetra s = None then (s, t)
      else case tetra_sm_disown_pending s t of (s1, t1) \<Rightarrow>
        let s2 = tetra_forget_carrier (sm_unfollow False s1)
        in (sm_set_state (sm_rest_state s2) s2, t1))"

definition tetra_sm_abandon_carrier :: "tetra_session \<Rightarrow> trunk_tuning \<Rightarrow> tetra_session \<times> trunk_tuning" where
  "tetra_sm_abandon_carrier s t =
     (if tetra s = None then (s, t)
      else let held = (sm_state (sm_of s) = TETRA_SM_TUNED \<or> pending_request_id (sm_of s) \<noteq> 0)
           in case tetra_sm_disown_pending s t of (s1, t1) \<Rightarrow>
             let s2 = (if held then sm_release_shared_tuning s1 else s1);
                 s3 = sm_unfollow True s2
             in (sm_set_state (sm_rest_state s3) s3, t1))"

definition tetra_sm_get_state :: "tetra_session \<Rightarrow> tetra_sm_state_e" where
  "tetra_sm_get_state s = sm_state (sm_of s)"

definition tetra_sm_owns_return :: "tetra_session \<Rightarrow> bool" where
  "tetra_sm_owns_return s \<longleftrightarrow> sm_state (sm_of s) = TETRA_SM_TUNED \<or> pending_request_id (sm_of s) \<noteq> 0"


definition tetra_sm_followed_call_id :: "tetra_session \<Rightarrow> u16 option" where
  "tetra_sm_followed_call_id s =
     (if sm_state (sm_of s) \<noteq> TETRA_SM_TUNED \<or> followed_retired (sm_of s) then None
      else Some (call_id (followed (sm_of s))))"

definition tetra_sm_on_call_renamed :: "u16 \<Rightarrow> u16 \<Rightarrow> tetra_session \<Rightarrow> tetra_session" where
  "tetra_sm_on_call_renamed old new s =
     (let from_id = old AND 0x3FFF; to_id = new AND 0x3FFF
      in if tetra s = None \<or> from_id = to_id then s
         else let s1 = (if sm_state (sm_of s) = TETRA_SM_TUNED \<and> \<not> followed_retired (sm_of s) \<and>
                            call_id (followed (sm_of s)) = from_id
                        then on_sm (followed_update (call_id_update (\<lambda>_. to_id))) s else s);
                  prev = pending_prev (sm_of s1)
              in if pending_request_id (sm_of s1) \<noteq> 0 \<and> rb_state prev = TETRA_SM_TUNED \<and> \<not> rb_followed_retired prev \<and>
                    call_id (rb_followed prev) = from_id
                 then on_sm (pending_prev_update (rb_followed_update (call_id_update (\<lambda>_. to_id)))) s1 else s1)"

text \<open>A burst is opened after the request in flight was settled, on the carrier it was captured on (\<open>tetra.c\<close>).\<close>

definition tetra_burst_enter :: "tetra_world \<Rightarrow> tetra_session \<Rightarrow> trunk_tuning \<Rightarrow> tetra_session \<times> trunk_tuning" where
  "tetra_burst_enter w s t =
     (let captured = tetra_confirm_carrier_epoch s
      in case tetra_sm_settle w s t of (_, s1, t1) \<Rightarrow> (tetra_confirm_burst_begin_captured w captured s1, t1))"

section \<open>The invariant of the session\<close>

definition grant_ok :: "tetra_sm_grant \<Rightarrow> bool" where
  "grant_ok g \<longleftrightarrow> 0 < freq_hz g \<and> timeslots g \<le> 0x0F \<and> carrier g \<le> 0x0FFF \<and> call_id g \<le> 0x3FFF"

definition rollback_ok :: "tetra_sm_rollback \<Rightarrow> bool" where
  "rollback_ok p \<longleftrightarrow>
     (if rb_state p = TETRA_SM_TUNED then grant_ok (rb_followed p) \<and> 0 < rb_t_tune_m p else rb_followed p = zero_grant) \<and>
     (rb_followed_proven p \<longrightarrow> rb_state p = TETRA_SM_TUNED \<and> \<not> rb_followed_retired p)"

definition sm_ok :: "tetra_sm_t \<Rightarrow> tetra_confirm_t \<Rightarrow> bool" where
  "sm_ok m c \<longleftrightarrow>
     (pending_request_id m = 0 \<longleftrightarrow> pending_kind m = SM_PENDING_NONE) \<and>
     (sm_state m = TETRA_SM_TUNED \<longrightarrow> grant_ok (followed m)) \<and>
     (sm_state m \<noteq> TETRA_SM_TUNED \<longrightarrow> followed m = zero_grant) \<and>
     (pending_kind m = SM_PENDING_NONE \<longrightarrow> sm_state m = TETRA_SM_TUNED \<longrightarrow> 0 < t_tune_m m) \<and>
     (pending_kind m = SM_PENDING_GRANT \<longrightarrow> sm_state m = TETRA_SM_TUNED \<and> t_tune_m m = 0 \<and> t_voice_m m = 0) \<and>
     (pending_kind m = SM_PENDING_RETURN \<longrightarrow> sm_state m \<noteq> TETRA_SM_TUNED \<and> rb_state (pending_prev m) = TETRA_SM_TUNED) \<and>
     (followed_call c \<longrightarrow> sm_state m = TETRA_SM_TUNED \<and> \<not> followed_retired m \<or> pending_kind m = SM_PENDING_RETURN) \<and>
     (pending_kind m \<noteq> SM_PENDING_NONE \<longrightarrow> rollback_ok (pending_prev m) \<and>
        (carrier_epoch c \<noteq> rb_confirm_epoch (pending_prev m) \<longrightarrow> \<not> followed_call c \<and> (burst_open c \<longrightarrow> burst_stale c)))"

definition session_ok :: "tetra_session \<Rightarrow> bool" where
  "session_ok s = (case tetra s of None \<Rightarrow> True | Some ts \<Rightarrow> sm_ok (sm ts) (confirm ts))"

named_theorems session_simps "the TETRA state after the operations of a session"

lemma tetra_on [session_simps]:
  "tetra (on_sm f s) = map_option (sm_update f) (tetra s)"
  "tetra (on_confirm h s) = map_option (confirm_update h) (tetra s)"
  "tetra (effect e s) = tetra s"
  by (simp_all add: on_sm_def on_confirm_def on_tetra_def effect_def)

lemma shared_on [session_simps]:
  "shared (on_sm f s) = shared s" "shared (on_confirm h s) = shared s" "shared (effect e s) = shared s"
  "core (on_sm f s) = core s" "core (on_confirm h s) = core s" "core (effect e s) = core s"
  "trunk_enable (on_sm f s) = trunk_enable s" "trunk_enable (on_confirm h s) = trunk_enable s"
  "trunk_enable (effect e s) = trunk_enable s"
  "tuned_freq_hz (on_sm f s) = tuned_freq_hz s" "tuned_freq_hz (on_confirm h s) = tuned_freq_hz s"
  "tuned_freq_hz (effect e s) = tuned_freq_hz s"
  by (simp_all add: on_sm_def on_confirm_def on_tetra_def effect_def)

lemma peek_Some: "tetra s = Some ts \<Longrightarrow> tetra_st_peek s = ts"
  by (simp add: tetra_st_peek_def)

lemma tetra_set_state [session_simps]:
  "tetra (sm_set_state nxt s) = map_option (sm_update (sm_state_update (\<lambda>_. nxt))) (tetra s)"
  "shared (sm_set_state nxt s) = shared s" "core (sm_set_state nxt s) = core s"
  "trunk_enable (sm_set_state nxt s) = trunk_enable s" "tuned_freq_hz (sm_set_state nxt s) = tuned_freq_hz s"
  by (cases "tetra s"; auto simp: sm_set_state_def session_simps tetra_st_peek_def zero_tetra_def)+

lemma tetra_micro [session_simps]:
  "tetra (tetra_confirm_forget_followed_call s) =
     map_option (confirm_update (followed_call_update (\<lambda>_. False))) (tetra s)"
  "tetra (tetra_confirm_restore_followed_call e b s) =
     map_option (confirm_update (\<lambda>c. if carrier_epoch c = e then c\<lparr>followed_call := b\<rparr> else c)) (tetra s)"
  "tetra (sm_stage_pending k r p s) =
     map_option (sm_update (\<lambda>m. m\<lparr>pending_prev := p, pending_request_id := r, pending_kind := k\<rparr>)) (tetra s)"
  "tetra (sm_stamp_tuned w x s) = tetra s" "tetra (sm_claim_shared_tuning f s) = tetra s"
  "tetra (sm_release_shared_tuning s) = tetra s" "tetra (dsd_mark_cc_sync w s) = tetra s" "tetra (dsd_mark_vc_sync w s) = tetra s"
  by (simp_all add: tetra_confirm_forget_followed_call_def tetra_confirm_restore_followed_call_def sm_stage_pending_def
      sm_stamp_tuned_def sm_claim_shared_tuning_def sm_release_shared_tuning_def dsd_mark_cc_sync_def dsd_mark_vc_sync_def
      session_simps)

lemma tetra_forget_carrier_tetra [session_simps]:
  "tetra (tetra_forget_carrier s) = map_option (confirm_update (\<lambda>c. c\<lparr>signalling_blocks := 0, carrier_blocks := 0,
     carrier_epoch := carrier_epoch c + 1, followed_call := False, burst_stale := burst_open c\<rparr>)) (tetra s)"
  by (cases "tetra s") (simp_all add: tetra_forget_carrier_def tetra_confirm_reset_def session_simps)

lemma and_mask_bounds: "(x::'a::len word) AND y \<le> y"
  by (rule word_and_le1)

lemmas ok_defs = sm_ok_def rollback_ok_def session_ok_def

lemma ok_disown: "session_ok s \<Longrightarrow> tetra_sm_disown_pending s t = (s', t') \<Longrightarrow>
   tetra s' = map_option (sm_update (\<lambda>m. m\<lparr>pending_request_id := 0, pending_kind := SM_PENDING_NONE\<rparr>)) (tetra s)"
  by (cases "tetra s") (auto simp: tetra_sm_disown_pending_def session_simps peek_Some ok_defs tetra_st_peek_def zero_tetra_def
      zero_sm_def Let_def split: if_splits)

lemma ok_restore:
  assumes "tetra s = Some ts" "sm_ok (sm ts) (confirm ts)" "pending_kind (sm ts) \<noteq> SM_PENDING_NONE"
    "s' = on_sm (\<lambda>m. m\<lparr>pending_request_id := 0, pending_kind := SM_PENDING_NONE\<rparr>) s"
  shows "session_ok (sm_restore (pending_prev (sm ts)) s')"
  using assms by (auto simp: sm_restore_def Let_def session_simps ok_defs)

lemma ok_grant_completed:
  assumes "tetra s = Some ts" "grant_ok (followed (sm ts))" "sm_state (sm ts) = TETRA_SM_TUNED" "0 < now_m w"
    "pending_kind (sm ts) = SM_PENDING_NONE" "pending_request_id (sm ts) = 0"
  shows "session_ok (sm_grant_tune_completed w x s)"
  using assms by (auto simp: sm_grant_tune_completed_def Let_def session_simps ok_defs)

lemma ok_unfollow:
  "tetra (sm_unfollow b s) = map_option (\<lambda>ts. ts\<lparr>sm := (sm ts)\<lparr>followed := zero_grant, t_tune_m := 0, t_voice_m := 0\<rparr>,
      confirm := (confirm ts)\<lparr>followed_call := False\<rparr>\<rparr>) (tetra s)"
  by (cases "tetra s") (simp_all add: sm_unfollow_def session_simps)

lemma tetra_return_completed:
  "tetra (sm_return_completed s) = map_option (\<lambda>ts. ts\<lparr>sm := (sm ts)\<lparr>followed := zero_grant, t_tune_m := 0, t_voice_m := 0\<rparr>,
      confirm := (confirm ts)\<lparr>signalling_blocks := 0, carrier_blocks := 0,
        carrier_epoch := carrier_epoch (confirm ts) + 1, followed_call := False, burst_stale := burst_open (confirm ts)\<rparr>\<rparr>) (tetra s)"
  by (cases "tetra s") (simp_all add: sm_return_completed_def Let_def ok_unfollow session_simps)

lemma ok_settle:
  assumes "session_ok s" "0 < now_m w" "sm_settle_pending w s t = (b, s', t')"
  shows "session_ok s' \<and> (b \<longleftrightarrow> pending_request_id (sm_of s') = 0) \<and> (tetra s' = None \<longleftrightarrow> tetra s = None)"
proof (cases "tetra s")
  case None
  then show ?thesis using assms by (auto simp: sm_settle_pending_def tetra_st_peek_def zero_tetra_def zero_sm_def Let_def)
next
  case (Some ts)
  let ?s1 = "on_sm (\<lambda>m. m\<lparr>pending_request_id := 0, pending_kind := SM_PENDING_NONE\<rparr>) s"
  have ok: "sm_ok (sm ts) (confirm ts)" using assms(1) Some by (simp add: session_ok_def)
  have r: "session_ok (sm_restore (pending_prev (sm ts)) ?s1)" if "pending_request_id (sm ts) \<noteq> 0"
    using ok that by (intro ok_restore [OF Some]) (auto simp: sm_ok_def)
  have g: "session_ok (sm_grant_tune_completed w x ?s1)" if "pending_kind (sm ts) = SM_PENDING_GRANT" for x
    using ok that assms(2) by (intro ok_grant_completed) (auto simp: Some session_simps sm_ok_def)
  have c: "session_ok (sm_return_completed ?s1)" if "pending_kind (sm ts) = SM_PENDING_RETURN"
    using ok that by (auto simp: Some session_simps tetra_return_completed ok_defs)
  have p: "pending_request_id (sm_of (sm_restore q ?s1)) = 0" "pending_request_id (sm_of (sm_grant_tune_completed w x ?s1)) = 0"
      "pending_request_id (sm_of (sm_return_completed ?s1)) = 0"
      "tetra (sm_restore q ?s1) \<noteq> None" "tetra (sm_grant_tune_completed w x ?s1) \<noteq> None" "tetra (sm_return_completed ?s1) \<noteq> None"
    for q x
    by (simp_all add: Some session_simps tetra_return_completed sm_restore_def sm_grant_tune_completed_def Let_def tetra_st_peek_def)
  have k: "pending_kind (sm ts) = SM_PENDING_RETURN" if "pending_request_id (sm ts) \<noteq> 0" "pending_kind (sm ts) \<noteq> SM_PENDING_GRANT"
    using ok that by (cases "pending_kind (sm ts)") (auto simp: sm_ok_def)
  show ?thesis
    using assms(1,3) r g c p k Some
    by (auto simp: sm_settle_pending_def Let_def peek_Some tetra_on split: if_splits prod.splits)
qed

section \<open>The operations keep the invariant\<close>

text \<open>
  What the state machine relies on of the engine's tuning hooks: they leave the TETRA state alone
  (its owner holds a pointer to it during the call).
\<close>

definition hook_keeps :: "tetra_session tune_hook option \<Rightarrow> bool" where
  "hook_keeps hook \<longleftrightarrow> (\<forall>h. hook = Some h \<longrightarrow> (\<forall>k s t. tetra (fst (snd (h k (s, t)))) = tetra s))"

definition hooks_keep_tetra :: "tetra_hooks \<Rightarrow> bool" where
  "hooks_keep_tetra hooks \<longleftrightarrow> hook_keeps (return_to_cc_request hooks) \<and>
     (\<forall>freq sps. hook_keeps (map_option (\<lambda>h. h freq sps) (tune_to_freq_request hooks)))"

lemma hook_request_keeps:
  assumes "hook_keeps hook" "hook_request hook now s t = (r, k, s', t')"
  shows "tetra s' = tetra s"
proof (cases hook)
  case None
  then show ?thesis using assms(2) by (auto simp: hook_request_def split: prod.splits if_splits)
next
  case (Some h)
  have "tetra (fst (snd (h j (s, u)))) = tetra s" for j u using assms(1) Some by (simp add: hook_keeps_def)
  then have "\<And>j u r1 s1 t1. h j (s, u) = (r1, s1, t1) \<Longrightarrow> tetra s1 = tetra s" by (metis fst_conv snd_conv)
  then show ?thesis using assms(2) Some by (auto simp: hook_request_def split: prod.splits if_splits)
qed

lemma hook_request_pending_nonzero: "hook_request hook now s t = (RESULT_PENDING, k, s', t') \<Longrightarrow> k \<noteq> 0"
  by (auto simp: hook_request_def split: prod.splits if_splits option.splits)

lemma hook_ok_id_nonzero: "hook_request hook now s t = (r, k, s', t') \<Longrightarrow> tune_result_is_ok r \<Longrightarrow> k \<noteq> 0"
  by (auto simp: hook_request_def tune_result_is_ok_def split: prod.splits if_splits option.splits)

definition settled_ok :: "tetra_session \<Rightarrow> bool" where
  "settled_ok s \<longleftrightarrow> session_ok s \<and> pending_request_id (sm_of s) = 0"

lemma capture_ok:
  assumes "settled_ok s" "tetra s = Some ts"
  shows "rollback_ok (sm_capture s)" "rb_confirm_epoch (sm_capture s) = carrier_epoch (confirm ts)"
    "rb_state (sm_capture s) = sm_state (sm ts)"
  using assms by (auto simp: settled_ok_def sm_capture_def peek_Some ok_defs tetra_confirm_carrier_epoch_def
      tetra_confirm_followed_call_proven_def)

lemma grant_ok_follow:
  "0 < freq_hz g \<Longrightarrow> grant_ok (g\<lparr>timeslots := timeslots g AND 0x0F, carrier := carrier g AND 0x0FFF, call_id := call_id g AND 0x3FFF\<rparr>)"
  by (simp add: grant_ok_def and_mask_bounds)

lemma tetra_follow [session_simps]:
  "tetra (sm_follow g s) = map_option (\<lambda>ts. ts\<lparr>sm := (sm ts)\<lparr>followed := g\<lparr>timeslots := timeslots g AND 0x0F,
        carrier := carrier g AND 0x0FFF, call_id := call_id g AND 0x3FFF\<rparr>, followed_retired := False, t_tune_m := 0,
        t_voice_m := 0\<rparr>, confirm := (confirm ts)\<lparr>followed_call := False\<rparr>\<rparr>) (tetra s)"
  by (cases "tetra s") (simp_all add: sm_follow_def session_simps)

lemma rest_not_tuned: "sm_rest_state s \<noteq> TETRA_SM_TUNED"
  by (simp add: sm_rest_state_def)

lemma ok_rest:
  assumes "tetra s' = map_option (\<lambda>ts. ts\<lparr>sm := (sm ts)\<lparr>followed := zero_grant, t_tune_m := 0, t_voice_m := 0\<rparr>, confirm := h (confirm ts)\<rparr>) (tetra s)"
    "settled_ok s" "\<And>c. \<not> followed_call (h c)"
  shows "session_ok (sm_set_state (sm_rest_state x) s')"
  using assms rest_not_tuned [of x]
  by (cases "tetra s") (auto simp: session_simps ok_defs settled_ok_def peek_Some)

lemma ok_release:
  assumes ok: "settled_ok s" and tuned: "sm_state (sm_of s) = TETRA_SM_TUNED" and h: "hooks_keep_tetra hooks"
    and e: "sm_release hooks w s t = (b, s', t')"
  shows "session_ok s'"
proof -
  obtain ts where ts: "tetra s = Some ts" using tuned by (cases "tetra s") (auto simp: tetra_st_peek_def zero_tetra_def zero_sm_def)
  have m: "sm_ok (sm ts) (confirm ts)" "pending_kind (sm ts) = SM_PENDING_NONE" "sm_state (sm ts) = TETRA_SM_TUNED"
    using ok tuned ts by (auto simp: settled_ok_def session_ok_def peek_Some sm_ok_def)
  obtain r k s2 t2 where hk: "hook_return_to_cc hooks (mono_ns w) (s\<lparr>core := (core s)\<lparr>p25_cc_freq := 0\<rparr>\<rparr>) t = (r, k, s2, t2)"
    by (cases "hook_return_to_cc hooks (mono_ns w) (s\<lparr>core := (core s)\<lparr>p25_cc_freq := 0\<rparr>\<rparr>) t")
  have s2: "tetra s2 = Some ts"
    using hook_request_keeps [of "return_to_cc_request hooks"] h hk ts by (auto simp: hook_return_to_cc_def hooks_keep_tetra_def)
  have stay: "session_ok (sm_set_state (sm_rest_state x) (sm_unfollow True (sm_release_shared_tuning s)))" for x
    using ok by (intro ok_rest [where s = s and h = "followed_call_update (\<lambda>_. False)"]) (simp_all add: ok_unfollow session_simps)
  have refused: "session_ok (s2\<lparr>core := c\<rparr>)" for c using ok ts s2 by (simp add: settled_ok_def session_ok_def)
  have done1: "session_ok (sm_set_state (sm_rest_state x) (sm_return_completed s2))" for x
    using m rest_not_tuned [of x] by (auto simp: s2 session_simps tetra_return_completed ok_defs)
  have pend: "session_ok (sm_set_state (sm_rest_state x)
      (on_sm (followed_update (\<lambda>_. zero_grant)) (sm_stage_pending SM_PENDING_RETURN k (sm_capture s) s2)))" if "k \<noteq> 0" for x
    using m that rest_not_tuned [of x] capture_ok [OF ok ts] by (auto simp: s2 session_simps ok_defs)
  have k0: "k \<noteq> 0" if "r = RESULT_PENDING"
    using hk that by (auto simp: hook_return_to_cc_def dest: hook_request_pending_nonzero)
  have same: "session_ok s" using ok by (simp add: settled_ok_def)
  show ?thesis
    using e hk stay refused done1 pend k0 same
    by (auto simp: sm_release_def Let_def tune_result_is_ok_def split: if_splits)
qed

lemma ok_follow_here:
  assumes ok: "settled_ok s" and ts: "tetra s = Some ts" and g: "0 < freq_hz g" and w: "0 < now_m w"
    and e: "sm_follow_here w g s = (b, s')"
  shows "session_ok s'"
proof -
  have m: "sm_ok (sm ts) (confirm ts)" "pending_kind (sm ts) = SM_PENDING_NONE" "pending_request_id (sm ts) = 0"
    using ok ts by (auto simp: settled_ok_def session_ok_def peek_Some sm_ok_def)
  show ?thesis
  proof (cases "sm_state (sm ts) = TETRA_SM_TUNED \<and> sm_same_call (sm ts) g")
    case True
    then show ?thesis
      using e m ts by (auto simp: sm_follow_here_def Let_def session_simps peek_Some ok_defs grant_ok_def and_mask_bounds)
  next
    case False
    let ?s1 = "on_sm (t_tune_m_update (\<lambda>_. now_m w)) (sm_follow g s)"
    have n: "tetra (tetra_confirm_note_followed_call w x) =
        map_option (confirm_update (\<lambda>c. if carrier_current c then c\<lparr>followed_call := True\<rparr> else c)) (tetra ?s1)"
      if "tetra x = tetra ?s1" for x
      using that ts by (simp add: tetra_confirm_note_followed_call_def session_simps tetra_st_def)
    have "session_ok (sm_set_state TETRA_SM_TUNED (tetra_confirm_note_followed_call w x))" if "tetra x = tetra ?s1" for x
      using n [OF that] m w grant_ok_follow [OF g] by (simp add: session_simps ts ok_defs)
    then show ?thesis
      using e False ts by (auto simp: sm_follow_here_def Let_def peek_Some tetra_micro split: if_splits)
  qed
qed

lemma ok_tune_grant:
  assumes ok: "settled_ok s" and ts: "tetra s = Some ts" and g: "0 < freq_hz g" and w: "0 < now_m w"
    and h: "hooks_keep_tetra hooks" and e: "sm_tune_grant hooks w g s t = (b, s', t')"
  shows "session_ok s'"
proof -
  have m: "sm_ok (sm ts) (confirm ts)" "pending_kind (sm ts) = SM_PENDING_NONE" "pending_request_id (sm ts) = 0"
    using ok ts by (auto simp: settled_ok_def session_ok_def peek_Some sm_ok_def)
  obtain r k s1 t1 where hk: "hook_tune_to_freq hooks (mono_ns w) (freq_hz g) 0 s t = (r, k, s1, t1)"
    by (cases "hook_tune_to_freq hooks (mono_ns w) (freq_hz g) 0 s t")
  have s1: "tetra s1 = Some ts"
    using hook_request_keeps h hk ts by (fastforce simp: hook_tune_to_freq_def hooks_keep_tetra_def)
  let ?s2 = "sm_set_state TETRA_SM_TUNED (sm_follow g s1)"
  have pend: "session_ok (sm_stage_pending SM_PENDING_GRANT k (sm_capture s) ?s2)" if "k \<noteq> 0"
    using that capture_ok [OF ok ts] grant_ok_follow [OF g] by (auto simp: s1 session_simps ok_defs)
  obtain ts2 where ts2: "tetra ?s2 = Some ts2" "grant_ok (followed (sm ts2))" "sm_state (sm ts2) = TETRA_SM_TUNED"
      "pending_kind (sm ts2) = SM_PENDING_NONE" "pending_request_id (sm ts2) = 0"
    using m grant_ok_follow [OF g] by (simp add: s1 session_simps)
  have done1: "session_ok (sm_grant_tune_completed w 0 ?s2)"
    by (rule ok_grant_completed [OF ts2(1-3) w ts2(4,5)])
  have k0: "k \<noteq> 0" if "r = RESULT_PENDING"
    using hk that by (auto simp: hook_tune_to_freq_def dest: hook_request_pending_nonzero)
  have "session_ok s1" using m s1 by (simp add: session_ok_def)
  then show ?thesis
    using e hk pend done1 k0 by (auto simp: sm_tune_grant_def Let_def tune_result_is_ok_def split: if_splits)
qed

lemma sm_ok_zero: "sm_ok zero_sm zero_confirm" "sm_ok (sm zero_tetra) (confirm zero_tetra)"
  by (simp_all add: ok_defs zero_tetra_def zero_sm_def zero_confirm_def)

lemma ok_tetra_st: "session_ok s \<Longrightarrow> session_ok (tetra_st w s)"
  by (cases "tetra s") (simp_all add: tetra_st_def session_ok_def sm_ok_zero)

lemma ok_settle_at_entry:
  assumes "session_ok s" "0 < now_m w" "sm_settle_at_entry w s t = (b, s', t')"
  shows "session_ok s' \<and> (b \<longleftrightarrow> pending_request_id (sm_of s') = 0) \<and> (tetra s' = None \<longleftrightarrow> tetra s = None)"
  using assms ok_settle [OF assms(1,2)] by (auto simp: sm_settle_at_entry_def split: if_splits)

lemma ok_on_cc_sync:
  assumes "session_ok s" "0 < now_m w"
  shows "session_ok (fst (tetra_sm_on_cc_sync w s t))"
proof -
  obtain b s1 t1 where e: "sm_settle_at_entry w (tetra_st w s) t = (b, s1, t1)" by (cases "sm_settle_at_entry w (tetra_st w s) t")
  note o = ok_settle_at_entry [OF ok_tetra_st [OF assms(1)] assms(2) e]
  have "session_ok (sm_set_state TETRA_SM_ON_CC (dsd_mark_cc_sync w (s1\<lparr>core := c\<rparr>)))"
    if "sm_state (sm_of s1) = TETRA_SM_IDLE" b for c
    using that o by (cases "tetra s1") (auto simp: session_simps ok_defs peek_Some)
  moreover have "session_ok (dsd_mark_cc_sync w (s1\<lparr>core := c\<rparr>))" "session_ok (s1\<lparr>core := c\<rparr>)" for c
    using o by (simp_all add: session_ok_def session_simps)
  moreover have "sm_of (s1\<lparr>core := c\<rparr>) = sm_of s1" "sm_of (dsd_mark_cc_sync w (s1\<lparr>core := c\<rparr>)) = sm_of s1" for c
    by (simp_all add: tetra_st_peek_def session_simps)
  ultimately show ?thesis
    using o ok_tetra_st [OF assms(1)] by (auto simp: tetra_sm_on_cc_sync_def Let_def e)
qed

lemma ok_on_grant:
  assumes "session_ok s" "0 < now_m w" "hooks_keep_tetra hooks"
  shows "session_ok (fst (snd (tetra_sm_on_grant hooks w g s t)))"
proof -
  obtain b s1 t1 where e: "sm_settle_at_entry w (tetra_st w s) t = (b, s1, t1)" by (cases "sm_settle_at_entry w (tetra_st w s) t")
  note o = ok_settle_at_entry [OF ok_tetra_st [OF assms(1)] assms(2) e]
  have h: "session_ok (snd (sm_follow_here w g s1)) \<and> session_ok (fst (snd (sm_tune_grant hooks w g s1 t1)))"
    if f: "sm_grant_followable s1 g" and b and n: "tetra (tetra_st w s) \<noteq> None"
  proof -
    have s1: "settled_ok s1" using o \<open>b\<close> by (simp add: settled_ok_def)
    obtain ts where ts: "tetra s1 = Some ts" using o n by auto
    have g: "0 < freq_hz g" using f by (simp add: sm_grant_followable_def split: if_splits)
    show ?thesis
      using ok_follow_here [OF s1 ts g assms(2), of "fst (sm_follow_here w g s1)" "snd (sm_follow_here w g s1)"]
        ok_tune_grant [OF s1 ts g assms(2,3), of t1 "fst (sm_tune_grant hooks w g s1 t1)"
          "fst (snd (sm_tune_grant hooks w g s1 t1))" "snd (snd (sm_tune_grant hooks w g s1 t1))"] by simp
  qed
  show ?thesis
    using o ok_tetra_st [OF assms(1)] h by (auto simp: tetra_sm_on_grant_def Let_def e split: prod.splits)
qed

lemma ok_on_release:
  assumes "session_ok s" "0 < now_m w" "hooks_keep_tetra hooks"
  shows "session_ok (fst (tetra_sm_on_release hooks w cid s t))"
proof -
  obtain b s1 t1 where e: "sm_settle_at_entry w s t = (b, s1, t1)" by (cases "sm_settle_at_entry w s t")
  note o = ok_settle_at_entry [OF assms(1,2) e]
  have "session_ok (fst (snd (sm_release hooks w s1 t1)))" if "sm_state (sm_of s1) = TETRA_SM_TUNED" b
    using that o ok_release [of s1 hooks w t1] assms(3) by (metis prod.collapse settled_ok_def)
  then show ?thesis using o assms(1) by (auto simp: tetra_sm_on_release_def e)
qed

lemma ok_note_voice:
  assumes "session_ok s"
  shows "session_ok (tetra_sm_note_voice w tn s)"
  using assms by (cases "tetra s") (auto simp: tetra_sm_note_voice_def Let_def session_simps tetra_st_peek_def ok_defs)

lemma ok_unfollow_rest:
  assumes "settled_ok s"
  shows "session_ok (sm_set_state (sm_rest_state x) (sm_unfollow b s))"
  using assms by (intro ok_rest [where s = s and h = "followed_call_update (\<lambda>_. False)"]) (simp_all add: ok_unfollow)

lemma ok_sm_tick:
  assumes "session_ok s" "0 < now_m w" "hooks_keep_tetra hooks"
  shows "session_ok (fst (sm_tick hooks w s t))"
proof -
  obtain b s1 t1 where e: "sm_settle_pending w s t = (b, s1, t1)" by (cases "sm_settle_pending w s t")
  note o = ok_settle [OF assms(1,2) e]
  have ok: "settled_ok s1" if b using o that by (simp add: settled_ok_def)
  have r: "session_ok (fst (snd (sm_release hooks w s1 t1)))" if "sm_state (sm_of s1) = TETRA_SM_TUNED" b
    using that ok ok_release [of s1 hooks w t1] assms(3) by (metis prod.collapse)
  have hold: "session_ok (sm_hold_untrunked s1)"
    using o by (cases "tetra s1") (auto simp: sm_hold_untrunked_def session_simps tetra_st_peek_def ok_defs)
  have idle: "session_ok (sm_set_state TETRA_SM_IDLE s1)" if "sm_state (sm_of s1) = TETRA_SM_ON_CC"
    using o that by (cases "tetra s1") (auto simp: session_simps tetra_st_peek_def ok_defs)
  show ?thesis
    using o ok r hold idle ok_unfollow_rest [of s1]
    by (auto simp: sm_tick_def e sm_tick_tuned_def Let_def)
qed

lemma ok_retire_followed:
  "session_ok s \<Longrightarrow> session_ok (tetra_confirm_forget_followed_call (on_sm (followed_retired_update (\<lambda>_. True)) s))"
  by (cases "tetra s") (auto simp: session_simps ok_defs)

lemma ok_prev:
  assumes "session_ok s" "pending_request_id (sm_of s) \<noteq> 0" "rollback_ok (pending_prev (sm_of s)) \<Longrightarrow> rollback_ok (f (pending_prev (sm_of s)))"
    "rb_state (f (pending_prev (sm_of s))) = rb_state (pending_prev (sm_of s))"
    "rb_confirm_epoch (f (pending_prev (sm_of s))) = rb_confirm_epoch (pending_prev (sm_of s))"
  shows "session_ok (on_sm (pending_prev_update f) s)"
  using assms by (cases "tetra s") (simp_all add: session_simps session_ok_def sm_ok_def peek_Some)

lemma ok_retire:
  assumes "session_ok s"
  shows "session_ok (tetra_sm_retire_call cid s)"
proof -
  have "session_ok (on_sm (pending_prev_update (\<lambda>p. p\<lparr>rb_followed_retired := True, rb_followed_proven := False\<rparr>)) x)"
    if "session_ok x" "pending_request_id (sm_of x) \<noteq> 0" for x
    using that by (intro ok_prev) (simp_all add: rollback_ok_def)
  then show ?thesis
    using assms ok_retire_followed [OF assms] by (simp add: tetra_sm_retire_call_def Let_def)
qed

lemma ok_retire_all: "session_ok s \<Longrightarrow> session_ok (fold tetra_sm_retire_call ids s)"
  by (induction ids arbitrary: s) (simp_all add: ok_retire)

lemma ok_tick:
  assumes "session_ok s" "0 < now_m w" "hooks_keep_tetra hooks"
  shows "session_ok (fst (tetra_sm_tick hooks w aged s t))"
proof -
  have "session_ok (effect e (fst (sm_tick hooks w s t)))" for e
    using ok_sm_tick [OF assms] by (simp add: session_ok_def session_simps)
  then show ?thesis using assms(1) by (auto simp: tetra_sm_tick_def split: prod.split intro!: ok_retire_all)
qed

lemma ok_renamed:
  assumes "session_ok s"
  shows "session_ok (tetra_sm_on_call_renamed old new s)"
proof -
  have g: "grant_ok h \<Longrightarrow> grant_ok (h\<lparr>call_id := new AND 0x3FFF\<rparr>)" for h by (simp add: grant_ok_def and_mask_bounds)
  have "session_ok (on_sm (followed_update (call_id_update (\<lambda>_. new AND 0x3FFF))) s)"
    if "sm_state (sm_of s) = TETRA_SM_TUNED"
    using assms that g by (cases "tetra s") (auto simp: session_simps session_ok_def sm_ok_def peek_Some)
  moreover have "session_ok (on_sm (pending_prev_update (rb_followed_update (call_id_update (\<lambda>_. new AND 0x3FFF)))) x)"
    if "session_ok x" "pending_request_id (sm_of x) \<noteq> 0" "rb_state (pending_prev (sm_of x)) = TETRA_SM_TUNED" for x
    using that g by (intro ok_prev) (simp_all add: rollback_ok_def)
  ultimately show ?thesis
    using assms by (simp add: tetra_sm_on_call_renamed_def Let_def)
qed

lemma ok_leave:
  assumes ok: "session_ok s" and d: "tetra_sm_disown_pending s t = (s1, t1)"
    and e: "tetra s2 = map_option (\<lambda>ts. ts\<lparr>sm := (sm ts)\<lparr>followed := zero_grant, t_tune_m := 0, t_voice_m := 0\<rparr>, confirm := h (confirm ts)\<rparr>) (tetra s1)"
    and h: "\<And>c. \<not> followed_call (h c)"
  shows "session_ok (sm_set_state (sm_rest_state x) s2)"
  using ok_disown [OF ok d] e h ok rest_not_tuned [of x]
  by (cases "tetra s") (auto simp: session_simps ok_defs)

lemma ok_external_return:
  assumes "session_ok s"
  shows "session_ok (fst (tetra_sm_on_external_cc_return s t))"
proof -
  obtain s1 t1 where d: "tetra_sm_disown_pending s t = (s1, t1)" by (cases "tetra_sm_disown_pending s t")
  have "session_ok (sm_set_state (sm_rest_state x) (tetra_forget_carrier (sm_unfollow False s1)))" for x
    by (rule ok_leave [OF assms d, where h = "\<lambda>c. c\<lparr>signalling_blocks := 0, carrier_blocks := 0,
          carrier_epoch := carrier_epoch c + 1, followed_call := False, burst_stale := burst_open c\<rparr>"])
      (cases "tetra s1"; simp add: session_simps ok_unfollow)+
  then show ?thesis using assms by (auto simp: tetra_sm_on_external_cc_return_def Let_def d)
qed

lemma ok_abandon:
  assumes "session_ok s"
  shows "session_ok (fst (tetra_sm_abandon_carrier s t))"
proof -
  obtain s1 t1 where d: "tetra_sm_disown_pending s t = (s1, t1)" by (cases "tetra_sm_disown_pending s t")
  have "session_ok (sm_set_state (sm_rest_state x) (sm_unfollow True y))" if "tetra y = tetra s1" for x y
    by (rule ok_leave [OF assms d, where h = "followed_call_update (\<lambda>_. False)"]) (simp_all add: ok_unfollow that)
  then show ?thesis using assms by (auto simp: tetra_sm_abandon_carrier_def Let_def d session_simps)
qed

lemma ok_init:
  assumes "session_ok s"
  shows "session_ok (fst (tetra_sm_init s t))"
proof -
  obtain s1 t1 where d: "tetra_sm_disown_pending s t = (s1, t1)" by (cases "tetra_sm_disown_pending s t")
  have "session_ok (tetra_confirm_forget_followed_call (on_sm (\<lambda>_. zero_sm) x))" for x
    by (cases "tetra x") (auto simp: session_simps ok_defs zero_sm_def)
  then show ?thesis using assms by (auto simp: tetra_sm_init_def Let_def d)
qed

lemma ok_confirm_ops:
  assumes "session_ok s"
  shows "session_ok (tetra_forget_carrier s)" "session_ok (tetra_confirm_reset s)"
    "session_ok (snd (tetra_confirm_burst_end s))" "session_ok (confirm_note_carrier_block w d s)"
    "session_ok (tetra_confirm_note_block w s)"
proof -
  show "session_ok (tetra_forget_carrier s)" "session_ok (tetra_confirm_reset s)"
    using assms by (cases "tetra s"; auto simp: session_simps tetra_confirm_reset_def ok_defs)+
  have st: "session_ok (tetra_st w s)" by (rule ok_tetra_st [OF assms])
  show "session_ok (confirm_note_carrier_block w d s)" "session_ok (tetra_confirm_note_block w s)"
    using st by (cases "tetra (tetra_st w s)"; auto simp: session_simps confirm_note_carrier_block_def
        tetra_confirm_note_block_def ok_defs Let_def)+
  show "session_ok (snd (tetra_confirm_burst_end s))"
    using assms by (cases "tetra s") (auto simp: session_simps tetra_confirm_burst_end_def ok_defs)
qed

section \<open>Runs of a session\<close>

text \<open>
  One step of a session: an entry point of the state machine, of the carrier evidence or of the
  burst being decoded, a change the engine or the operator makes to the rest of the session, or a
  change of the request table by another of its users. The clock runs. The engine dispatches no
  burst while a request is in flight, and call tracking notes the followed call from a burst.
\<close>

inductive session_step :: "tetra_hooks \<Rightarrow> tetra_session \<times> trunk_tuning \<Rightarrow> tetra_session \<times> trunk_tuning \<Rightarrow> bool"
  for hooks where
  cc_sync: "0 < now_m w \<Longrightarrow> session_step hooks (s, t) (tetra_sm_on_cc_sync w s t)"
| grant: "0 < now_m w \<Longrightarrow> session_step hooks (s, t) (snd (tetra_sm_on_grant hooks w g s t))"
| settle: "0 < now_m w \<Longrightarrow> session_step hooks (s, t) (snd (tetra_sm_settle w s t))"
| release: "0 < now_m w \<Longrightarrow> session_step hooks (s, t) (tetra_sm_on_release hooks w cid s t)"
| tick: "0 < now_m w \<Longrightarrow> session_step hooks (s, t) (tetra_sm_tick hooks w aged s t)"
| voice: "session_step hooks (s, t) (tetra_sm_note_voice w tn s, t)"
| external: "session_step hooks (s, t) (tetra_sm_on_external_cc_return s t)"
| abandon: "session_step hooks (s, t) (tetra_sm_abandon_carrier s t)"
| init: "session_step hooks (s, t) (tetra_sm_init s t)"
| retire: "session_step hooks (s, t) (tetra_sm_retire_call cid s, t)"
| rename: "session_step hooks (s, t) (tetra_sm_on_call_renamed old new s, t)"
| burst: "0 < now_m w \<Longrightarrow> pending_request_id (sm_of (fst (tetra_burst_enter w s t))) = 0 \<Longrightarrow>
    session_step hooks (s, t) (tetra_burst_enter w s t)"
| burst_end: "session_step hooks (s, t) (snd (tetra_confirm_burst_end s), t)"
| note_carrier: "session_step hooks (s, t) (confirm_note_carrier_block w downlink s, t)"
| note_block: "session_step hooks (s, t) (tetra_confirm_note_block w s, t)"
| note_followed: "burst_open (confirm_of s) \<Longrightarrow> tetra_sm_followed_call_id s \<noteq> None \<Longrightarrow>
    session_step hooks (s, t) (tetra_confirm_note_followed_call w s, t)"
| reset: "session_step hooks (s, t) (tetra_confirm_reset s, t)"
| forget: "session_step hooks (s, t) (tetra_forget_carrier s, t)"
| engine: "tetra s' = tetra s \<Longrightarrow> session_step hooks (s, t) (s', t)"
| tuner: "session_step hooks (s, t) (s, t')"

definition session_reachable :: "tetra_hooks \<Rightarrow> tetra_session \<Rightarrow> bool" where
  "session_reachable hooks s \<longleftrightarrow> (\<exists>s0 t0 t. tetra s0 = None \<and> (session_step hooks)\<^sup>*\<^sup>* (s0, t0) (s, t))"

lemma ok_tetra_settle:
  assumes "session_ok s" "0 < now_m w"
  shows "session_ok (fst (snd (tetra_sm_settle w s t)))"
  using assms ok_settle [OF assms, of t "fst (sm_settle_pending w s t)" "fst (snd (sm_settle_pending w s t))"
      "snd (snd (sm_settle_pending w s t))"] by (simp add: tetra_sm_settle_def)

lemma ok_burst_enter:
  assumes "session_ok s" "0 < now_m w" "pending_request_id (sm_of (fst (tetra_burst_enter w s t))) = 0"
  shows "session_ok (fst (tetra_burst_enter w s t))"
proof -
  let ?s1 = "fst (snd (tetra_sm_settle w s t))"
  let ?s2 = "tetra_st w ?s1"
  have e: "fst (tetra_burst_enter w s t) = tetra_confirm_burst_begin_captured w (tetra_confirm_carrier_epoch s) ?s1"
    by (auto simp: tetra_burst_enter_def Let_def split: prod.split)
  have "session_ok ?s2" using ok_tetra_settle [OF assms(1,2)] by (rule ok_tetra_st)
  moreover have "pending_request_id (sm_of ?s2) = 0"
    using assms(3) unfolding e by (cases "tetra ?s2")
      (auto simp: tetra_confirm_burst_begin_captured_def tetra_confirm_burst_begin_def session_simps tetra_st_peek_def)
  ultimately show ?thesis
    unfolding e by (cases "tetra ?s2")
      (auto simp: tetra_confirm_burst_begin_captured_def tetra_confirm_burst_begin_def session_simps tetra_st_peek_def ok_defs)
qed

lemma ok_note_followed:
  assumes "session_ok s" "burst_open (confirm_of s)" "tetra_sm_followed_call_id s \<noteq> None"
  shows "session_ok (tetra_confirm_note_followed_call w s)"
  using assms
  by (cases "tetra s") (auto simp: tetra_sm_followed_call_id_def tetra_confirm_note_followed_call_def session_simps tetra_st_def
      tetra_st_peek_def zero_tetra_def zero_sm_def zero_confirm_def ok_defs carrier_current_def split: if_splits)

lemmas ok_ops = ok_on_cc_sync ok_on_grant ok_tetra_settle ok_on_release ok_tick ok_note_voice ok_external_return ok_abandon ok_init
  ok_retire ok_renamed ok_burst_enter ok_confirm_ops ok_note_followed

lemma session_step_ok:
  assumes "session_step hooks c c'" "hooks_keep_tetra hooks" "session_ok (fst c)"
  shows "session_ok (fst c')"
  using assms by (cases rule: session_step.cases) (simp_all add: ok_ops, simp add: session_ok_def)

lemma session_reachable_ok:
  assumes "session_reachable hooks s" "hooks_keep_tetra hooks"
  shows "session_ok s"
proof -
  obtain s0 t0 t where r: "tetra s0 = None" "(session_step hooks)\<^sup>*\<^sup>* (s0, t0) (s, t)"
    using assms(1) by (auto simp: session_reachable_def)
  have "(session_step hooks)\<^sup>*\<^sup>* c c' \<Longrightarrow> session_ok (fst c) \<Longrightarrow> session_ok (fst c')" for c c'
    by (induction rule: rtranclp_induct) (auto intro: session_step_ok [OF _ assms(2)])
  from this [OF r(2)] show ?thesis using r(1) by (simp add: session_ok_def)
qed

lemma settle_nothing: "pending_request_id (sm_of s) = 0 \<Longrightarrow> sm_settle_at_entry w s t = (True, s, t)"
  by (simp add: sm_settle_at_entry_def sm_settle_pending_def Let_def)

lemma settle_failed:
  assumes "tetra s = Some ts" "pending_request_id (sm ts) \<noteq> 0" "fst (request_status (pending_request_id (sm ts)) t) = r"
    "r \<noteq> RESULT_OK" "r \<noteq> RESULT_PENDING"
  shows "tetra_sm_settle w s t = (True, sm_restore (pending_prev (sm ts))
      (on_sm (\<lambda>m. m\<lparr>pending_request_id := 0, pending_kind := SM_PENDING_NONE\<rparr>) s),
      request_complete (mono_ns w) (pending_request_id (sm ts)) r t)"
  using assms by (auto simp: tetra_sm_settle_def sm_settle_pending_def Let_def peek_Some session_simps split: prod.split)

lemma settled_clears:
  assumes "tetra s = Some ts"
  shows "pending_request_id (sm_of (sm_restore p (on_sm (\<lambda>m. m\<lparr>pending_request_id := 0, pending_kind := SM_PENDING_NONE\<rparr>) s))) = 0"
    "pending_request_id (sm_of (sm_grant_tune_completed w x (on_sm (\<lambda>m. m\<lparr>pending_request_id := 0, pending_kind := SM_PENDING_NONE\<rparr>) s))) = 0"
    "pending_request_id (sm_of (sm_return_completed (on_sm (\<lambda>m. m\<lparr>pending_request_id := 0, pending_kind := SM_PENDING_NONE\<rparr>) s))) = 0"
  by (simp_all add: assms session_simps tetra_return_completed sm_restore_def sm_grant_tune_completed_def Let_def tetra_st_peek_def)

text \<open>What a failed request leaves when the machine staged it from \<open>s\<close>: everything captured is as it was in \<open>s\<close>.\<close>

lemma restore_staged:
  assumes "tetra s = Some ts" "settled_ok s" "tetra s1 = Some ts1" "pending_prev (sm ts1) = sm_capture s"
    "confirm ts1 = (confirm ts)\<lparr>followed_call := f\<rparr>" "core s1 = c"
    "s2 = sm_restore (pending_prev (sm ts1)) (on_sm (\<lambda>m. m\<lparr>pending_request_id := 0, pending_kind := SM_PENDING_NONE\<rparr>) s1)"
  shows "shared s2 = shared s \<and> confirm_of s2 = confirm_of s \<and> core s2 = c \<and>
    sm_of s2 = (sm_of s)\<lparr>pending_prev := pending_prev (sm_of s2)\<rparr>"
proof -
  have k: "pending_request_id (sm ts) = 0" "pending_kind (sm ts) = SM_PENDING_NONE"
    using assms(1,2) by (auto simp: settled_ok_def session_ok_def peek_Some sm_ok_def)
  have t2: "tetra s2 = Some (ts\<lparr>sm := (sm ts)\<lparr>pending_prev := sm_capture s\<rparr>\<rparr>)"
    using assms(1,3,4,5) k
    by (auto simp: assms(7) sm_restore_def Let_def session_simps sm_capture_def peek_Some tetra_confirm_carrier_epoch_def
        tetra_confirm_followed_call_proven_def)
  have "shared s2 = shared s" "core s2 = c"
    using assms(4,6) by (simp_all add: assms(7) sm_restore_def Let_def session_simps sm_capture_def
        tetra_confirm_restore_followed_call_def)
  then show ?thesis by (simp add: peek_Some [OF t2] peek_Some [OF assms(1)])
qed

text \<open>The return hook leaves the P25 control channel as it finds it.\<close>

definition return_hook_keeps_p25_cc :: "tetra_hooks \<Rightarrow> bool" where
  "return_hook_keeps_p25_cc hooks \<longleftrightarrow> (\<forall>h. return_to_cc_request hooks = Some h \<longrightarrow>
     (\<forall>k s t. p25_cc_freq (core (fst (snd (h k (s, t))))) = p25_cc_freq (core s)))"

lemma hook_request_p25_cc:
  assumes "return_hook_keeps_p25_cc hooks" "hook_return_to_cc hooks now s t = (r, k, s', t')"
  shows "p25_cc_freq (core s') = p25_cc_freq (core s)"
proof (cases "return_to_cc_request hooks")
  case None
  then show ?thesis using assms(2) by (auto simp: hook_return_to_cc_def hook_request_def split: prod.splits if_splits)
next
  case (Some h)
  have "\<And>j u r1 s1 t1. h j (s, u) = (r1, s1, t1) \<Longrightarrow> p25_cc_freq (core s1) = p25_cc_freq (core s)"
    using assms(1) Some unfolding return_hook_keeps_p25_cc_def by (metis fst_conv snd_conv)
  then show ?thesis
    using assms(2) Some by (auto simp: hook_return_to_cc_def hook_request_def split: prod.splits if_splits)
qed

text \<open>What the records ageing on a tick leave alone: everything but the retired and proven marks of the followed call.\<close>

lemma retire_keeps:
  "sm_state (sm_of (tetra_sm_retire_call c x)) = sm_state (sm_of x)"
  "followed (sm_of (tetra_sm_retire_call c x)) = followed (sm_of x)"
  "pending_request_id (sm_of (tetra_sm_retire_call c x)) = pending_request_id (sm_of x)"
  "pending_kind (sm_of (tetra_sm_retire_call c x)) = pending_kind (sm_of x)"
  "rb_state (pending_prev (sm_of (tetra_sm_retire_call c x))) = rb_state (pending_prev (sm_of x))"
  "rb_followed (pending_prev (sm_of (tetra_sm_retire_call c x))) = rb_followed (pending_prev (sm_of x))"
  "rb_tuning (pending_prev (sm_of (tetra_sm_retire_call c x))) = rb_tuning (pending_prev (sm_of x))"
  "shared (tetra_sm_retire_call c x) = shared x" "core (tetra_sm_retire_call c x) = core x"
  "trunk_enable (tetra_sm_retire_call c x) = trunk_enable x"
  by (cases "tetra x"; auto simp: tetra_sm_retire_call_def Let_def session_simps tetra_st_peek_def
      tetra_confirm_forget_followed_call_def)+

lemma rest_of_retired: "sm_rest_state (tetra_sm_retire_call c x) = sm_rest_state x"
  by (simp add: retire_keeps sm_rest_state_def)

lemma retire_all_keeps:
  "sm_state (sm_of (fold tetra_sm_retire_call cs x)) = sm_state (sm_of x)"
  "followed (sm_of (fold tetra_sm_retire_call cs x)) = followed (sm_of x)"
  "pending_request_id (sm_of (fold tetra_sm_retire_call cs x)) = pending_request_id (sm_of x)"
  "pending_kind (sm_of (fold tetra_sm_retire_call cs x)) = pending_kind (sm_of x)"
  "rb_state (pending_prev (sm_of (fold tetra_sm_retire_call cs x))) = rb_state (pending_prev (sm_of x))"
  "rb_followed (pending_prev (sm_of (fold tetra_sm_retire_call cs x))) = rb_followed (pending_prev (sm_of x))"
  "rb_tuning (pending_prev (sm_of (fold tetra_sm_retire_call cs x))) = rb_tuning (pending_prev (sm_of x))"
  "shared (fold tetra_sm_retire_call cs x) = shared x" "core (fold tetra_sm_retire_call cs x) = core x"
  "sm_rest_state (fold tetra_sm_retire_call cs x) = sm_rest_state x"
  by (induction cs arbitrary: x) (simp_all only: fold_simps retire_keeps id_apply rest_of_retired)

lemma effect_keeps:
  "sm_of (effect e s) = sm_of s" "shared (effect e s) = shared s" "core (effect e s) = core s"
  "sm_rest_state (effect e s) = sm_rest_state s" "sm_rest_state (sm_set_state st s) = sm_rest_state s"
  by (simp_all add: effect_def tetra_st_peek_def sm_rest_state_def session_simps)

text \<open>The shared state after a release in place and after a return that is done.\<close>

lemma shared_released:
  "shared (sm_unfollow b s) = shared s" "core (sm_unfollow b s) = core s"
  "shared (sm_release_shared_tuning s) = (shared s)\<lparr>trunk_is_tuned := 0, trunk_vc_freq := (0, 0), p25_vc_freq := (0, 0)\<rparr>"
  "shared (sm_return_completed s) = (shared s)\<lparr>trunk_is_tuned := 0\<rparr>" "core (sm_return_completed s) = core s"
  "shared (sm_stage_pending kind k p s) = shared s" "core (sm_stage_pending kind k p s) = core s"
  by (cases "tetra s"; simp add: sm_unfollow_def sm_release_shared_tuning_def sm_return_completed_def Let_def session_simps
      sm_stage_pending_def tetra_confirm_forget_followed_call_def tetra_forget_carrier_def tetra_confirm_reset_def)+

text \<open>A tick whose timeout is over is a release followed by the ageing of the records.\<close>

lemma tick_releases:
  assumes "sm_state (sm_of s) = TETRA_SM_TUNED" "pending_request_id (sm_of s) = 0" "trunk_enable s = 1"
    "trunk_is_tuned (shared s) = 1" "0 < t_tune_m (sm_of s)"
    "if t_voice_m (sm_of s) > 0
     then now_m w \<ge> t_voice_m (sm_of s) + TETRA_SM_SPEECH_GAP_S + max 0 (trunk_hangtime s)
     else now_m w \<ge> t_tune_m (sm_of s) + TETRA_SM_GRANT_TIMEOUT_S"
  shows "tetra_sm_tick hooks w aged s t = (case sm_release hooks w s t of (b, s', t') \<Rightarrow>
      (fold tetra_sm_retire_call aged (effect CALLS_TICK s'), t'))"
proof -
  have "tetra s \<noteq> None" using assms(1) by (cases "tetra s") (auto simp: tetra_st_peek_def zero_tetra_def zero_sm_def)
  moreover have "sm_tick hooks w s t = snd (sm_release hooks w s t)"
    using assms by (auto simp: sm_tick_def sm_settle_pending_def Let_def sm_tick_tuned_def max_def split: if_splits)
  ultimately show ?thesis by (auto simp: tetra_sm_tick_def split: prod.split)
qed

section \<open>A session for the examples\<close>

text \<open>
  Trunking with the control channel at 390 MHz and a P25 alias left by another protocol; the tuner
  accepts every request and answers later.
\<close>

definition example_world :: "u64 \<Rightarrow> tetra_world" where
  "example_world ns = \<lparr>mono_ns = ns, wall_time = 0, calloc_ok = True\<rparr>"

definition example_hooks :: tetra_hooks where
  "example_hooks = \<lparr>tune_to_freq_request = Some (\<lambda>freq sps k e. (RESULT_PENDING, e)),
     tune_to_cc_request = None, return_to_cc_request = Some (\<lambda>k e. (RESULT_PENDING, e))\<rparr>"

definition example_session :: "int \<Rightarrow> tetra_session" where
  "example_session tuned = confirm_note_carrier_block (example_world 1) True
     \<lparr>trunk_enable = 1, trunk_hangtime = 1, tuned_freq_hz = tuned, shared = zero_tuning,
      core = \<lparr>trunk_cc_freq = 390000000, p25_cc_freq = 851000000, ext_cc = None\<rparr>, tetra = None, effects = []\<rparr>"

definition example_grant :: tetra_sm_grant where
  "example_grant = \<lparr>freq_hz = 391000000, carrier = 40, timeslots = 4, call_id = 7\<rparr>"

definition example_tuned :: tetra_session where
  "example_tuned = fst (snd (tetra_sm_on_grant example_hooks (example_world 1) example_grant (example_session 391000000) initial_tuning))"

lemma example_hooks_keep: "hooks_keep_tetra example_hooks" "return_hook_keeps_p25_cc example_hooks"
  by (auto simp: hooks_keep_tetra_def hook_keeps_def return_hook_keeps_p25_cc_def example_hooks_def)

lemma example_session_reachable: "session_reachable example_hooks (example_session tuned)"
proof -
  let ?s = "\<lparr>trunk_enable = 1, trunk_hangtime = 1, tuned_freq_hz = tuned, shared = zero_tuning,
      core = \<lparr>trunk_cc_freq = 390000000, p25_cc_freq = 851000000, ext_cc = None\<rparr>, tetra = None, effects = []\<rparr>"
  have "session_step example_hooks (?s, initial_tuning) (confirm_note_carrier_block (example_world 1) True ?s, initial_tuning)"
    by (rule session_step.note_carrier)
  then have "(session_step example_hooks)\<^sup>*\<^sup>* (?s, initial_tuning) (example_session tuned, initial_tuning)"
    by (simp add: example_session_def)
  then show ?thesis unfolding session_reachable_def by (intro exI [of _ ?s] exI conjI) simp_all
qed

lemma example_tuned_reachable: "session_reachable example_hooks example_tuned"
proof -
  obtain s0 t0 t where r: "tetra s0 = None" "(session_step example_hooks)\<^sup>*\<^sup>* (s0, t0) (example_session 391000000, t)"
    using example_session_reachable unfolding session_reachable_def by blast
  have "0 < now_m (example_world 1)" by code_simp
  note g = session_step.tuner session_step.grant [OF this]
  have "(session_step example_hooks)\<^sup>*\<^sup>* (s0, t0) (example_session 391000000, initial_tuning)"
    using r(2) g(1) by (rule rtranclp.rtrancl_into_rtrancl)
  then have "(session_step example_hooks)\<^sup>*\<^sup>* (s0, t0)
      (snd (tetra_sm_on_grant example_hooks (example_world 1) example_grant (example_session 391000000) initial_tuning))"
    using g(2) by (rule rtranclp.rtrancl_into_rtrancl)
  then show ?thesis using r(1) unfolding session_reachable_def example_tuned_def by (metis prod.collapse)
qed

section \<open>Properties\<close>



text \<open>
  C23. When the tune to a grant is in flight and the backend reports its failure, settling puts back
  everything the tune changed: the shared tuning state, the carrier evidence and the state machine are
  as before the grant (only the stale rollback record remains), and only then is the request completed.
\<close>

theorem failed_tune_puts_back:
  assumes "hooks_keep_tetra hooks" "session_reachable hooks s" "tetra s \<noteq> None" "pending_request_id (sm_of s) = 0"
    "tetra_sm_on_grant hooks w g s t = (b, s1, t1)" "pending_request_id (sm_of s1) = k" "k \<noteq> 0"
    "fst (request_status k t2) = r" "r \<noteq> RESULT_OK" "r \<noteq> RESULT_PENDING" "tetra_sm_settle w2 s1 t2 = (b2, s2, t3)"
  shows "b2 \<and> shared s2 = shared s \<and> confirm_of s2 = confirm_of s \<and>
    sm_of s2 = (sm_of s)\<lparr>pending_prev := pending_prev (sm_of s2)\<rparr> \<and> t3 = request_complete (mono_ns w2) k r t2"
proof -
  obtain ts where ts: "tetra s = Some ts" using assms(3) by auto
  have ok: "settled_ok s" using session_reachable_ok [OF assms(2,1)] assms(4) by (simp add: settled_ok_def)
  have here: "pending_request_id (sm_of (snd (sm_follow_here w g s))) = 0"
    using assms(4) ts by (auto simp: sm_follow_here_def Let_def session_simps tetra_st_peek_def tetra_confirm_note_followed_call_def tetra_st_def)
  have tune: "sm_tune_grant hooks w g s t = (b, s1, t1)"
    using assms(4-7) ts here by (auto simp: tetra_sm_on_grant_def tetra_st_def Let_def settle_nothing split: if_splits prod.splits)
  obtain q j s' t' where hk: "hook_tune_to_freq hooks (mono_ns w) (freq_hz g) 0 s t = (q, j, s', t')"
    by (cases "hook_tune_to_freq hooks (mono_ns w) (freq_hz g) 0 s t")
  have s': "tetra s' = Some ts"
    using hook_request_keeps assms(1) hk ts by (fastforce simp: hook_tune_to_freq_def hooks_keep_tetra_def)
  have k0: "pending_request_id (sm ts) = 0" using assms(4) ts by (simp add: peek_Some)
  have s1: "s1 = sm_stage_pending SM_PENDING_GRANT j (sm_capture s) (sm_set_state TETRA_SM_TUNED (sm_follow g s'))"
    using tune hk assms(6,7) s' k0
    by (auto simp: sm_tune_grant_def Let_def session_simps sm_grant_tune_completed_def tetra_st_peek_def split: if_splits)
  obtain ts1 where ts1: "tetra s1 = Some ts1" "pending_prev (sm ts1) = sm_capture s"
      "confirm ts1 = (confirm ts)\<lparr>followed_call := False\<rparr>" "pending_request_id (sm ts1) = k"
    using s' assms(6) by (simp add: s1 session_simps tetra_st_peek_def)
  have e: "(b2, s2, t3) = (True, sm_restore (pending_prev (sm ts1))
      (on_sm (\<lambda>m. m\<lparr>pending_request_id := 0, pending_kind := SM_PENDING_NONE\<rparr>) s1), request_complete (mono_ns w2) k r t2)"
    using settle_failed [OF ts1(1), of t2 r w2] ts1(4) assms(7-11) by simp
  show ?thesis
    using restore_staged [OF ts ok ts1(1-3) refl] e by auto
qed

theorem failed_tune_puts_back_witness:
  "let s = example_session 390000000;
       x = tetra_sm_on_grant example_hooks (example_world 1) example_grant s initial_tuning;
       y = tetra_sm_settle (example_world 9) (fst (snd x)) (request_publish 8 1 RESULT_FAILED (snd (snd x)))
   in pending_request_id (sm_of (fst (snd x))) = 1 \<and> fst y \<and> shared (fst (snd y)) = shared s \<and>
      confirm_of (fst (snd y)) = confirm_of s"
proof -
  let ?s = "example_session 390000000"
  let ?x = "tetra_sm_on_grant example_hooks (example_world 1) example_grant ?s initial_tuning"
  let ?t = "request_publish 8 1 RESULT_FAILED (snd (snd ?x))"
  let ?y = "tetra_sm_settle (example_world 9) (fst (snd ?x)) ?t"
  have f: "tetra ?s \<noteq> None" "pending_request_id (sm_of ?s) = 0" "pending_request_id (sm_of (fst (snd ?x))) = 1"
    "fst (request_status 1 ?t) = RESULT_FAILED" by code_simp+
  have "?x = (fst ?x, fst (snd ?x), snd (snd ?x))" "?y = (fst ?y, fst (snd ?y), snd (snd ?y))" by simp_all
  from failed_tune_puts_back [OF example_hooks_keep(1) example_session_reachable f(1,2) this(1) f(3) _ f(4) _ _ this(2)]
  show ?thesis using f(3) by (simp add: Let_def)
qed

text \<open>
  C26. A followed channel is always let go of. Take a reachable session that is tuned with trunking
  on, the shared tuner still held by the machine and no request in flight, and a tick after the
  speech gap and hangtime since the last speech, or after the grant timeout when there was none. When
  the control channel is unknown or is the followed channel itself, the machine releases the shared
  tuning and rests where it is, without asking the tuner. Otherwise it asks the backend to return with
  the P25 control channel cleared. A return still in flight is staged under its own identifier with
  the tuned state captured to be put back; one already done leaves the machine at rest with the tuner
  let go; one refused leaves it tuned to the same channel for the next tick, and the P25 control
  channel as it was.
\<close>

theorem tick_lets_go:
  assumes "hooks_keep_tetra hooks" "session_reachable hooks s" "tetra_sm_get_state s = TETRA_SM_TUNED"
    "pending_request_id (sm_of s) = 0" "trunk_enable s = 1" "trunk_is_tuned (shared s) = 1"
    "if t_voice_m (sm_of s) > 0
     then now_m w \<ge> t_voice_m (sm_of s) + TETRA_SM_SPEECH_GAP_S + max 0 (trunk_hangtime s)
     else now_m w \<ge> t_tune_m (sm_of s) + TETRA_SM_GRANT_TIMEOUT_S"
    "hook_return_to_cc hooks (mono_ns w) (s\<lparr>core := (core s)\<lparr>p25_cc_freq := 0\<rparr>\<rparr>) t = (r, k, s2, t2)"
    "tetra_sm_tick hooks w aged s t = (s', t')"
  shows "if trunk_cc_freq (core s) \<le> 0 \<or> freq_hz (followed (sm_of s)) = trunk_cc_freq (core s)
    then t' = t \<and> tetra_sm_get_state s' = sm_rest_state s' \<and> followed (sm_of s') = zero_grant \<and>
      pending_request_id (sm_of s') = 0 \<and>
      shared s' = (shared s)\<lparr>trunk_is_tuned := 0, trunk_vc_freq := (0, 0), p25_vc_freq := (0, 0)\<rparr>
    else t' = t2 \<and>
      (if \<not> tune_result_is_ok r
       then tetra_sm_get_state s' = TETRA_SM_TUNED \<and> followed (sm_of s') = followed (sm_of s) \<and>
         pending_request_id (sm_of s') = 0 \<and> shared s' = shared s2 \<and> p25_cc_freq (core s') = p25_cc_freq (core s)
       else tetra_sm_get_state s' = sm_rest_state s' \<and> followed (sm_of s') = zero_grant \<and> core s' = core s2 \<and>
         (if r = RESULT_PENDING
          then pending_request_id (sm_of s') = k \<and> k \<noteq> 0 \<and> pending_kind (sm_of s') = SM_PENDING_RETURN \<and>
            rb_state (pending_prev (sm_of s')) = TETRA_SM_TUNED \<and>
            rb_followed (pending_prev (sm_of s')) = followed (sm_of s) \<and>
            rb_tuning (pending_prev (sm_of s')) = shared s \<and> shared s' = shared s2
          else pending_request_id (sm_of s') = 0 \<and> shared s' = (shared s2)\<lparr>trunk_is_tuned := 0\<rparr>))"
proof -
  have ok: "sm_ok (sm_of s) (confirm_of s)"
    using session_reachable_ok [OF assms(2,1)] sm_ok_zero(2) by (simp add: session_ok_def tetra_st_peek_def split: option.splits)
  have armed: "0 < t_tune_m (sm_of s)" using ok assms(3,4) by (auto simp: sm_ok_def tetra_sm_get_state_def)
  obtain ts where ts: "tetra s = Some ts"
    using assms(3) by (cases "tetra s") (auto simp: tetra_sm_get_state_def tetra_st_peek_def zero_tetra_def zero_sm_def)
  have s2: "tetra s2 = Some ts"
    using hook_request_keeps [of "return_to_cc_request hooks"] assms(1,8) ts by (auto simp: hook_return_to_cc_def hooks_keep_tetra_def)
  have k0: "k \<noteq> 0" if "r = RESULT_PENDING"
    using assms(8) that by (auto simp: hook_return_to_cc_def dest: hook_request_pending_nonzero)
  obtain b s3 t3 where rel3: "sm_release hooks w s t = (b, s3, t3)" by (cases "sm_release hooks w s t")
  have "tetra_sm_tick hooks w aged s t = (fold tetra_sm_retire_call aged (effect CALLS_TICK s3), t3)"
    using tick_releases [OF assms(3) [unfolded tetra_sm_get_state_def] assms(4-6) armed assms(7), of hooks aged t] rel3 by simp
  then have s': "s' = fold tetra_sm_retire_call aged (effect CALLS_TICK s3)" and rel: "sm_release hooks w s t = (b, s3, t')"
    using assms(9) rel3 by simp_all
  note keep = s' tetra_sm_get_state_def retire_all_keeps effect_keeps shared_released shared_on tetra_set_state
  let ?cc = "trunk_cc_freq (core s)" and ?p = "on_sm (followed_update (\<lambda>_. zero_grant)) (sm_stage_pending SM_PENDING_RETURN k (sm_capture s) s2)"
  have k: "pending_request_id (sm ts) = 0" and st: "sm_state (sm ts) = TETRA_SM_TUNED"
    using assms(3,4) ts by (simp_all add: peek_Some tetra_sm_get_state_def)
  show ?thesis
  proof (cases "?cc \<le> 0 \<or> freq_hz (followed (sm_of s)) = ?cc")
    case True
    let ?u = "sm_unfollow True (sm_release_shared_tuning s)"
    have r: "s3 = sm_set_state (sm_rest_state ?u) ?u" "t' = t" using rel assms(5) True by (auto simp: sm_release_def Let_def)
    have "tetra s3 = Some (ts\<lparr>sm := (sm ts)\<lparr>followed := zero_grant, t_tune_m := 0, t_voice_m := 0, sm_state := sm_rest_state ?u\<rparr>,
        confirm := (confirm ts)\<lparr>followed_call := False\<rparr>\<rparr>)"
      using ts by (simp add: r(1) tetra_set_state ok_unfollow tetra_micro)
    then show ?thesis using True k r by (simp add: keep peek_Some)
  next
    case False
    have refused: ?thesis if "\<not> tune_result_is_ok r"
    proof -
      have "s3 = s2\<lparr>core := (core s2)\<lparr>p25_cc_freq := p25_cc_freq (core s)\<rparr>\<rparr>" "t' = t2"
        using rel assms(5,8) False that by (auto simp: sm_release_def Let_def)
      then show ?thesis using False that k st ts s2 by (simp add: keep peek_Some)
    qed
    have staged: ?thesis if "r = RESULT_PENDING"
    proof -
      have r: "s3 = sm_set_state (sm_rest_state ?p) ?p" "t' = t2"
        using rel assms(5,8) False that by (auto simp: sm_release_def Let_def tune_result_is_ok_def)
      have "tetra s3 = Some (ts\<lparr>sm := (sm ts)\<lparr>followed := zero_grant, pending_prev := sm_capture s, pending_request_id := k,
          pending_kind := SM_PENDING_RETURN, sm_state := sm_rest_state ?p\<rparr>\<rparr>)"
        using s2 by (simp add: r(1) tetra_set_state tetra_on tetra_micro)
      then show ?thesis
        using False that k0 r ts st by (simp add: keep peek_Some tune_result_is_ok_def sm_capture_def)
    qed
    have settled: ?thesis if "tune_result_is_ok r" "r \<noteq> RESULT_PENDING"
    proof -
      let ?u = "sm_return_completed s2"
      have r: "s3 = sm_set_state (sm_rest_state ?u) ?u" "t' = t2"
        using rel assms(5,8) False that by (auto simp: sm_release_def Let_def)
      have "pending_request_id (sm_of s3) = 0 \<and> followed (sm_of s3) = zero_grant \<and> sm_state (sm_of s3) = sm_rest_state ?u"
        using s2 k by (simp add: r(1) tetra_set_state tetra_return_completed tetra_st_peek_def)
      then show ?thesis using False that r by (simp add: keep)
    qed
    show ?thesis using refused staged settled by blast
  qed
qed

theorem tick_lets_go_witness:
  "let x = tetra_sm_tick example_hooks (example_world 5000000000) [] example_tuned initial_tuning
   in tetra_sm_get_state example_tuned = TETRA_SM_TUNED \<and> tetra_sm_get_state (fst x) \<noteq> TETRA_SM_TUNED \<and>
      pending_kind (sm_of (fst x)) = SM_PENDING_RETURN \<and> pending_request_id (sm_of (fst x)) = 1 \<and>
      rb_followed (pending_prev (sm_of (fst x))) = example_grant"
proof -
  let ?w = "example_world 5000000000"
  let ?x = "tetra_sm_tick example_hooks ?w [] example_tuned initial_tuning"
  let ?h = "hook_return_to_cc example_hooks (mono_ns ?w) (example_tuned\<lparr>core := (core example_tuned)\<lparr>p25_cc_freq := 0\<rparr>\<rparr>) initial_tuning"
  have w: "now_m ?w = 5" by (simp add: now_m_def ns_to_s_def example_world_def)
  have v: "t_voice_m (sm_of example_tuned) = 0" "t_tune_m (sm_of example_tuned) + TETRA_SM_GRANT_TIMEOUT_S \<le> 5" by code_simp+
  have b: "if t_voice_m (sm_of example_tuned) > 0
     then now_m ?w \<ge> t_voice_m (sm_of example_tuned) + TETRA_SM_SPEECH_GAP_S + max 0 (trunk_hangtime example_tuned)
     else now_m ?w \<ge> t_tune_m (sm_of example_tuned) + TETRA_SM_GRANT_TIMEOUT_S" using v by (simp add: w)
  have f: "tetra_sm_get_state example_tuned = TETRA_SM_TUNED" "pending_request_id (sm_of example_tuned) = 0"
    "trunk_enable example_tuned = 1" "trunk_is_tuned (shared example_tuned) = 1" by code_simp+
  have g: "\<not> (trunk_cc_freq (core example_tuned) \<le> 0 \<or> freq_hz (followed (sm_of example_tuned)) = trunk_cc_freq (core example_tuned))"
    "fst ?h = RESULT_PENDING" "fst (snd ?h) = 1" "followed (sm_of example_tuned) = example_grant" by code_simp+
  have "?h = (fst ?h, fst (snd ?h), fst (snd (snd ?h)), snd (snd (snd ?h)))" "?x = (fst ?x, snd ?x)" by simp_all
  from tick_lets_go [OF example_hooks_keep(1) example_tuned_reachable f b this] show ?thesis
    using g f(1) rest_not_tuned by (simp add: Let_def tune_result_is_ok_def)
qed

text \<open>
  C37. A return to the control channel that fails after it was accepted puts back the shared tuning
  state, the carrier evidence and the followed call, but not the P25 control channel: the machine
  clears it before the return, restores it when the return is refused at once, and leaves it cleared
  when the failure comes later.
\<close>

theorem failed_return_drops_p25_cc:
  assumes "hooks_keep_tetra hooks" "return_hook_keeps_p25_cc hooks" "session_reachable hooks s"
    "tetra_sm_get_state s = TETRA_SM_TUNED" "pending_request_id (sm_of s) = 0"
    "tetra_sm_on_release hooks w cid s t = (s1, t1)" "pending_request_id (sm_of s1) = k" "k \<noteq> 0"
    "fst (request_status k t2) = r" "r \<noteq> RESULT_OK" "r \<noteq> RESULT_PENDING" "tetra_sm_settle w2 s1 t2 = (b2, s2, t3)"
  shows "shared s2 = shared s \<and> confirm_of s2 = confirm_of s \<and>
    sm_of s2 = (sm_of s)\<lparr>pending_prev := pending_prev (sm_of s2)\<rparr> \<and> p25_cc_freq (core s2) = 0"
proof -
  obtain ts where ts: "tetra s = Some ts"
    using assms(4) by (cases "tetra s") (auto simp: tetra_sm_get_state_def tetra_st_peek_def zero_tetra_def zero_sm_def)
  have ok: "settled_ok s" using session_reachable_ok [OF assms(3,1)] assms(5) by (simp add: settled_ok_def)
  have k0: "pending_request_id (sm ts) = 0" using assms(5) ts by (simp add: peek_Some)
  obtain q j s' t' where hk: "hook_return_to_cc hooks (mono_ns w) (s\<lparr>core := (core s)\<lparr>p25_cc_freq := 0\<rparr>\<rparr>) t = (q, j, s', t')"
    by (cases "hook_return_to_cc hooks (mono_ns w) (s\<lparr>core := (core s)\<lparr>p25_cc_freq := 0\<rparr>\<rparr>) t")
  have s': "tetra s' = Some ts"
    using hook_request_keeps [of "return_to_cc_request hooks"] assms(1) hk ts by (auto simp: hook_return_to_cc_def hooks_keep_tetra_def)
  have p25: "p25_cc_freq (core s') = 0" using hook_request_p25_cc [OF assms(2) hk] by simp
  let ?s3 = "on_sm (followed_update (\<lambda>_. zero_grant)) (sm_stage_pending SM_PENDING_RETURN j (sm_capture s) s')"
  have s1: "s1 = sm_set_state (sm_rest_state ?s3) ?s3"
    using assms(5-8) ts s' k0 hk
    by (auto simp: tetra_sm_on_release_def settle_nothing sm_release_def Let_def session_simps ok_unfollow tetra_return_completed
        tetra_st_peek_def split: if_splits)
  obtain ts1 where ts1: "tetra s1 = Some ts1" "pending_prev (sm ts1) = sm_capture s"
      "confirm ts1 = (confirm ts)\<lparr>followed_call := followed_call (confirm ts)\<rparr>" "pending_request_id (sm ts1) = k"
    using s' assms(7) by (simp add: s1 session_simps tetra_st_peek_def)
  have c: "core s1 = core s'" by (simp add: s1 session_simps sm_stage_pending_def)
  have e: "s2 = sm_restore (pending_prev (sm ts1))
      (on_sm (\<lambda>m. m\<lparr>pending_request_id := 0, pending_kind := SM_PENDING_NONE\<rparr>) s1)"
    using settle_failed [OF ts1(1), of t2 r w2] ts1(4) assms(8-12) by simp
  show ?thesis
    using restore_staged [OF ts ok ts1(1-3) c e] p25 by simp
qed

theorem failed_return_drops_p25_cc_witness:
  "let x = tetra_sm_on_release example_hooks (example_world 3) 7 example_tuned initial_tuning;
       y = tetra_sm_settle (example_world 9) (fst x) (request_publish 8 1 RESULT_FAILED (snd x))
   in p25_cc_freq (core example_tuned) = 851000000 \<and> shared (fst (snd y)) = shared example_tuned \<and>
      p25_cc_freq (core (fst (snd y))) = 0"
proof -
  let ?x = "tetra_sm_on_release example_hooks (example_world 3) 7 example_tuned initial_tuning"
  let ?t = "request_publish 8 1 RESULT_FAILED (snd ?x)"
  let ?y = "tetra_sm_settle (example_world 9) (fst ?x) ?t"
  have f: "tetra_sm_get_state example_tuned = TETRA_SM_TUNED" "pending_request_id (sm_of example_tuned) = 0"
    "pending_request_id (sm_of (fst ?x)) = 1" "fst (request_status 1 ?t) = RESULT_FAILED"
    "p25_cc_freq (core example_tuned) = 851000000" by code_simp+
  have "?x = (fst ?x, snd ?x)" "?y = (fst ?y, fst (snd ?y), snd (snd ?y))" by simp_all
  from failed_return_drops_p25_cc [OF example_hooks_keep example_tuned_reachable f(1,2) this(1) f(3) _ f(4) _ _ this(2)]
  show ?thesis using f(5) by (simp add: Let_def)
qed

text \<open>
  C32. The frame gate and the state machine agree, whatever the backend reports for the machine's
  request. While it reports the request pending, settling says so, changes nothing, and no frame
  passes. Once it reports anything else, settling takes the request off the machine. A failure that
  waits for the machine keeps the gate closed; settling it puts the captured tuning state, followed
  call and machine state back and gives up exactly the request's own hold on the gate.
\<close>

theorem settle_opens_gate_last:
  assumes "tuning_reachable n (t, ids)" "pending_request_id (sm_of s) = k" "k \<noteq> 0"
    "tetra_sm_settle w s t = (b, s', t')"
  shows "(fst (request_status k t) = RESULT_PENDING \<longrightarrow> \<not> b \<and> s' = s \<and> t' = t \<and> \<not> frame_is_current g t) \<and>
    (fst (request_status k t) \<noteq> RESULT_PENDING \<longrightarrow> b \<and> pending_request_id (sm_of s') = 0) \<and>
    (gated_failure k t \<longrightarrow> b \<and> \<not> frame_is_current g t \<and> shared s' = rb_tuning (pending_prev (sm_of s)) \<and>
       followed (sm_of s') = rb_followed (pending_prev (sm_of s)) \<and> tetra_sm_get_state s' = rb_state (pending_prev (sm_of s)) \<and>
       unresolved_count t' = unresolved_count t - 1 \<and> \<not> gated_failure k t')"
proof -
  have wf: "tuning_wf t" by (rule reachable_facts(1) [OF assms(1)])
  obtain ts where ts: "tetra s = Some ts" "pending_request_id (sm ts) = k"
    using assms(2,3) by (cases "tetra s") (auto simp: tetra_st_peek_def zero_tetra_def zero_sm_def)
  have waiting: "\<not> b \<and> s' = s \<and> t' = t" if "request_result k t = RESULT_PENDING"
    using that assms(3,4) ts
    by (auto simp: tetra_sm_settle_def sm_settle_pending_def Let_def peek_Some request_result_def split: if_splits prod.splits)
  have answered: "b \<and> pending_request_id (sm_of s') = 0" if "request_result k t \<noteq> RESULT_PENDING"
    using that assms(3,4) ts
    by (auto simp: tetra_sm_settle_def sm_settle_pending_def Let_def peek_Some request_result_def settled_clears
        split: if_splits prod.splits)
  have "b \<and> s' = sm_restore (pending_prev (sm ts)) (on_sm (\<lambda>m. m\<lparr>pending_request_id := 0, pending_kind := SM_PENDING_NONE\<rparr>) s)
      \<and> t' = request_complete (mono_ns w) k (request_result k t) t" if "gated_failure k t"
    using settle_failed [OF ts(1), of t "request_result k t" w] ts(2) assms(3,4) ledger.waits_open [OF wf that]
    by (simp add: request_result_def)
  then show ?thesis
    using waiting answered ledger.closed_until_rolled_back [OF wf] ledger.own_hold_released [OF wf _ assms(3)] ts(1)
    by (auto simp: request_result_def sm_restore_def Let_def session_simps peek_Some tetra_sm_get_state_def
        tetra_confirm_restore_followed_call_def)
qed

theorem settle_opens_gate_last_witness:
  "let s = example_session 390000000;
       x = tetra_sm_on_grant example_hooks (example_world 1) example_grant s initial_tuning;
       t = request_publish 8 1 RESULT_FAILED (snd (request_begin initial_tuning));
       y = tetra_sm_settle (example_world 9) (fst (snd x)) t
   in gated_failure 1 t \<and> \<not> frame_is_current 1 t \<and> unresolved_count (snd (snd y)) = unresolved_count t - 1"
proof -
  let ?x = "tetra_sm_on_grant example_hooks (example_world 1) example_grant (example_session 390000000) initial_tuning"
  let ?t = "request_publish 8 1 RESULT_FAILED (snd (request_begin initial_tuning))"
  let ?y = "tetra_sm_settle (example_world 9) (fst (snd ?x)) ?t"
  have "tuning_run (Suc 2) (initial_tuning, []) (?t, [])" by (rule tuning_run.step [OF request_begin_run tuning_step.publish])
  then have t: "tuning_reachable (Suc 2) (?t, [])" by (simp add: tuning_reachable_def)
  have f: "pending_request_id (sm_of (fst (snd ?x))) = 1" "gated_failure 1 ?t" by code_simp+
  have "?y = (fst ?y, fst (snd ?y), snd (snd ?y))" by simp
  from settle_opens_gate_last [OF t f(1) _ this] show ?thesis using f by (simp add: Let_def)
qed

end
