(* ===== verification/Tetra_Fec.thy ===== *)
theory Tetra_Fec
  imports Bit_Words
begin

text \<open>
  TETRA channel coding, \<open>src/protocol/tetra/tetra_fec.c\<close>: puncturing of the convolutional codes,
  interleaving, scrambling, the 16-state Viterbi decoder, the SCH/HU and speech channels. A soft cost
  is a 16-bit number, here a natural number up to 65535; metrics are natural numbers with the 32-bit
  arithmetic of the source written out. Bits are natural numbers of which the code reads the lowest
  bit. A function that fills an output array returns it, an error return is \<open>None\<close>. The vector kernels
  are left out: the scalar loop is the one they are held to.
\<close>

section \<open>Puncturing\<close>

datatype tetra_punct_i = PUNCT_I_EQUALS_J | PUNCT_I_SKIP_65 | PUNCT_I_SKIP_35

record tetra_puncturer =
  punct_P :: "nat list"
  punct_t :: nat
  punct_period :: nat
  punct_i_rule :: tetra_punct_i

definition k_p_2_3 :: "nat list" where "k_p_2_3 = [1, 2, 5]"
definition k_p_1_3 :: "nat list" where "k_p_1_3 = [1, 2, 3, 5, 6, 7]"
definition k_p_8_12 :: "nat list" where "k_p_8_12 = [1, 2, 4]"
definition k_p_8_18 :: "nat list" where "k_p_8_18 = [1, 2, 3, 4, 5, 7, 8, 10, 11]"
definition k_p_8_17 :: "nat list" where "k_p_8_17 = [1, 2, 3, 4, 5, 7, 8, 10, 11, 13, 14, 16, 17, 19, 20, 22, 23]"

definition k_puncturers :: "tetra_puncturer list" where
  "k_puncturers =
    [\<lparr>punct_P = k_p_2_3, punct_t = 3, punct_period = 8, punct_i_rule = PUNCT_I_EQUALS_J\<rparr>,
     \<lparr>punct_P = k_p_1_3, punct_t = 6, punct_period = 8, punct_i_rule = PUNCT_I_EQUALS_J\<rparr>,
     \<lparr>punct_P = k_p_2_3, punct_t = 3, punct_period = 8, punct_i_rule = PUNCT_I_SKIP_65\<rparr>,
     \<lparr>punct_P = k_p_1_3, punct_t = 6, punct_period = 8, punct_i_rule = PUNCT_I_SKIP_35\<rparr>,
     \<lparr>punct_P = k_p_8_12, punct_t = 3, punct_period = 6, punct_i_rule = PUNCT_I_EQUALS_J\<rparr>,
     \<lparr>punct_P = k_p_8_18, punct_t = 9, punct_period = 12, punct_i_rule = PUNCT_I_EQUALS_J\<rparr>,
     \<lparr>punct_P = k_p_8_17, punct_t = 17, punct_period = 24, punct_i_rule = PUNCT_I_EQUALS_J\<rparr>]"

definition TETRA_RCPC_PUNCT_2_3 :: int where "TETRA_RCPC_PUNCT_2_3 = 0"
definition TETRA_RCPC_PUNCT_SPEECH_8_12 :: int where "TETRA_RCPC_PUNCT_SPEECH_8_12 = 4"
definition TETRA_RCPC_PUNCT_SPEECH_8_18 :: int where "TETRA_RCPC_PUNCT_SPEECH_8_18 = 5"
definition TETRA_RCPC_PUNCT_SPEECH_8_17 :: int where "TETRA_RCPC_PUNCT_SPEECH_8_17 = 6"

definition TETRA_SOFT_NEUTRAL :: nat where "TETRA_SOFT_NEUTRAL = 0x7FFF"
definition TETRA_CRC16_OK :: u16 where "TETRA_CRC16_OK = 0x1D0F"

definition tetra_puncturer_of :: "int \<Rightarrow> tetra_puncturer option" where
  "tetra_puncturer_of punct_id =
     (if punct_id < 0 \<or> punct_id \<ge> int (length k_puncturers) then None else Some (k_puncturers ! nat punct_id))"

definition tetra_puncturer_k :: "tetra_puncturer \<Rightarrow> nat \<Rightarrow> nat" where
  "tetra_puncturer_k p j =
     (if j = 0 then 0
      else let i = (case punct_i_rule p of
                      PUNCT_I_SKIP_65 \<Rightarrow> j + (j - 1) div 65
                    | PUNCT_I_SKIP_35 \<Rightarrow> j + (j - 1) div 35
                    | PUNCT_I_EQUALS_J \<Rightarrow> j);
               block = (i - 1) div punct_t p
           in punct_period p * block + punct_P p ! ((i - 1) - punct_t p * block))"

definition tetra_rcpc_map_j_to_k :: "int \<Rightarrow> nat \<Rightarrow> int" where
  "tetra_rcpc_map_j_to_k punct_id j =
     (case tetra_puncturer_of punct_id of
        None \<Rightarrow> -1
      | Some p \<Rightarrow> if j = 0 \<or> j > 0xFFFFFF then -1 else int (tetra_puncturer_k p j))"

definition tetra_rcpc_depuncture_by_id :: "int \<Rightarrow> nat list \<Rightarrow> int \<Rightarrow> int \<Rightarrow> nat list option" where
  "tetra_rcpc_depuncture_by_id punct_id in_costs in_len out_len =
     (case tetra_puncturer_of punct_id of
        None \<Rightarrow> None
      | Some p \<Rightarrow>
          if in_len < 0 \<or> out_len < 0 then None
          else Some (fold (\<lambda>j out. let k = tetra_puncturer_k p j
                       in if k \<ge> 1 \<and> k \<le> nat out_len then out[k - 1 := in_costs ! (j - 1)] else out)
                 [1..<nat in_len + 1] (replicate (nat out_len) TETRA_SOFT_NEUTRAL)))"

definition tetra_rcpc_puncture_by_id :: "int \<Rightarrow> nat list \<Rightarrow> int \<Rightarrow> int \<Rightarrow> nat list option" where
  "tetra_rcpc_puncture_by_id punct_id mother mother_len out_len =
     (case tetra_puncturer_of punct_id of
        None \<Rightarrow> None
      | Some p \<Rightarrow>
          if mother_len < 0 \<or> out_len < 0 then None
          else Some (map (\<lambda>j. let k = tetra_puncturer_k p j
                       in if k \<ge> 1 \<and> k \<le> nat mother_len then mother ! (k - 1) else 0xFF)
                 [1..<nat out_len + 1]))"

section \<open>Interleaving and scrambling\<close>

definition tetra_block_interleave :: "nat list \<Rightarrow> int \<Rightarrow> int \<Rightarrow> nat list \<Rightarrow> nat list" where
  "tetra_block_interleave in_bits len a out =
     (if len \<le> 0 \<or> a \<le> 0 then out
      else fold (\<lambda>i out. out[(nat a * i) mod nat len := in_bits ! (i - 1)]) [1..<nat len + 1] out)"

definition tetra_block_deinterleave_soft :: "nat list \<Rightarrow> int \<Rightarrow> int \<Rightarrow> nat list \<Rightarrow> nat list" where
  "tetra_block_deinterleave_soft in_costs len a out =
     (if len \<le> 0 \<or> a \<le> 0 then out
      else fold (\<lambda>i out. out[i - 1 := in_costs ! ((nat a * i) mod nat len)]) [1..<nat len + 1] out)"

definition tetra_speech_deinterleave_soft :: "nat list \<Rightarrow> nat list \<Rightarrow> nat list" where
  "tetra_speech_deinterleave_soft in_costs out =
     fold (\<lambda>column out. fold (\<lambda>line out. out[line * 18 + column := in_costs ! (column * 24 + line)]) [0..<24] out)
       [0..<18] out"

definition tetra_lfsr32_next :: "u32 \<Rightarrow> bool \<times> u32" where
  "tetra_lfsr32_next s =
     (let b = (s XOR drop_bit 6 s XOR drop_bit 9 s XOR drop_bit 10 s XOR drop_bit 16 s XOR drop_bit 20 s XOR drop_bit 21 s
               XOR drop_bit 22 s XOR drop_bit 24 s XOR drop_bit 25 s XOR drop_bit 27 s XOR drop_bit 28 s XOR drop_bit 30 s
               XOR drop_bit 31 s) AND 1
      in (b \<noteq> 0, drop_bit 1 s OR push_bit 31 b))"

primrec descramble_loop :: "nat list \<Rightarrow> u32 \<Rightarrow> nat list" where
  "descramble_loop [] st = []"
| "descramble_loop (c # cs) st =
     (case tetra_lfsr32_next st of (b, st') \<Rightarrow>
        (if b \<and> c \<noteq> TETRA_SOFT_NEUTRAL then 0xFFFF - c else c) # descramble_loop cs st')"

definition tetra_descramble_soft :: "nat list \<Rightarrow> int \<Rightarrow> u32 \<Rightarrow> nat list" where
  "tetra_descramble_soft costs len lfsr_init =
     (if len \<le> 0 then costs
      else descramble_loop (take (nat len) costs) (if lfsr_init \<noteq> 0 then lfsr_init else 3) @ drop (nat len) costs)"

definition tetra_hard_bits_to_soft :: "nat list \<Rightarrow> nat list" where
  "tetra_hard_bits_to_soft bs = map (\<lambda>b. if odd b then 0xFFFF else 0) bs"

definition tetra_crc16_ccitt_bits :: "nat list \<Rightarrow> int \<Rightarrow> u16" where
  "tetra_crc16_ccitt_bits bs len =
     (if len \<le> 0 then 0xFFFF
      else fold (\<lambda>i crc. let crc = crc XOR push_bit 15 (of_bool (odd (bs ! i)))
                    in if crc AND 0x8000 \<noteq> 0 then push_bit 1 crc XOR 0x1021 else push_bit 1 crc) [0..<nat len] 0xFFFF)"

definition tetra_compute_scramb_seed :: "u16 \<Rightarrow> u16 \<Rightarrow> u8 \<Rightarrow> u32" where
  "tetra_compute_scramb_seed mcc mnc colour =
     (let s = ucast (colour AND 0x3F) OR push_bit 6 (ucast (mnc AND 0x3FFF)) OR push_bit 20 (ucast (mcc AND 0x3FF))
      in push_bit 2 s OR 3)"

section \<open>The Viterbi decoder\<close>

definition TETRA_VITERBI_MAX_BITS :: nat where "TETRA_VITERBI_MAX_BITS = 512"
definition TETRA_VITERBI_STATES :: nat where "TETRA_VITERBI_STATES = 16"

record tetra_conv_code =
  lanes :: nat
  taps :: "nat list"
  shift_up :: bool
  incoming :: "nat list"

definition k_signalling_code :: tetra_conv_code where
  "k_signalling_code = \<lparr>lanes = 4, taps = [0x19, 0x1E, 0x1B, 0x1D], shift_up = True,
     incoming = [0, 15, 13, 2, 6, 9, 11, 4, 10, 5, 7, 8, 12, 3, 1, 14]\<rparr>"

definition k_speech_code :: tetra_conv_code where
  "k_speech_code = \<lparr>lanes = 3, taps = [0x1F, 0x1B, 0x15, 0x00], shift_up = False,
     incoming = [0, 3, 5, 6, 3, 0, 6, 5, 7, 4, 2, 1, 4, 7, 1, 2]\<rparr>"

definition parity5 :: "nat \<Rightarrow> nat" where
  "parity5 v =
     (let v = v XOR drop_bit 4 v; v = v XOR drop_bit 2 v; v = v XOR drop_bit 1 v in v AND 1)"

definition conv_next_state :: "tetra_conv_code \<Rightarrow> nat \<Rightarrow> nat \<Rightarrow> nat" where
  "conv_next_state code st b =
     (if shift_up code then (push_bit 1 st AND 0xE) OR b else push_bit 3 b OR drop_bit 1 st)"

definition conv_input_of :: "tetra_conv_code \<Rightarrow> nat \<Rightarrow> nat" where
  "conv_input_of code next_state = (if shift_up code then next_state AND 1 else drop_bit 3 next_state)"

definition TETRA_VITERBI_INF :: nat where "TETRA_VITERBI_INF = (2 ^ 32 - 1) div 4"

definition add32 :: "nat \<Rightarrow> nat \<Rightarrow> nat" where "add32 x y = (x + y) mod 2 ^ 32"
definition sub32 :: "nat \<Rightarrow> nat \<Rightarrow> nat" where "sub32 x y = (x + 2 ^ 32 - y) mod 2 ^ 32"

text \<open>The branch metric of every edge from a lower predecessor, summed lane by lane.\<close>

definition acs_branch :: "tetra_conv_code \<Rightarrow> nat list \<Rightarrow> nat list" where
  "acs_branch code costs =
     fold (\<lambda>lane branch.
         let zero = costs ! lane; one = sub32 65535 zero
         in map (\<lambda>to. add32 (branch ! to) (if odd (drop_bit lane (incoming code ! to)) then one else zero))
              [0..<TETRA_VITERBI_STATES])
       [0..<lanes code] (replicate TETRA_VITERBI_STATES 0)"

definition acs_low :: "tetra_conv_code \<Rightarrow> nat \<Rightarrow> nat" where
  "acs_low code to = (if shift_up code then drop_bit 1 to else push_bit 1 to AND 15)"

definition acs_high :: "tetra_conv_code \<Rightarrow> nat \<Rightarrow> nat" where
  "acs_high code to = acs_low code to + (if shift_up code then 8 else 1)"

definition acs_select :: "tetra_conv_code \<Rightarrow> nat list \<Rightarrow> nat list \<Rightarrow> nat \<Rightarrow> nat \<times> nat" where
  "acs_select code prev branch to =
     (let complement = (lanes code * 65535) mod 2 ^ 32;
          low = acs_low code to;
          high = acs_high code to;
          a = add32 (prev ! low) (branch ! to);
          b = add32 (prev ! high) (sub32 complement (branch ! to));
          best = (if b < a then b else a)
      in (if best < TETRA_VITERBI_INF then best else TETRA_VITERBI_INF,
          if best < TETRA_VITERBI_INF then (if b < a then high else low) else 0))"

definition conv_acs_step :: "tetra_conv_code \<Rightarrow> nat list \<Rightarrow> nat list \<Rightarrow> nat list \<times> nat list" where
  "conv_acs_step code prev costs =
     (let branch = acs_branch code costs
      in (map (\<lambda>to. fst (acs_select code prev branch to)) [0..<TETRA_VITERBI_STATES],
          map (\<lambda>to. snd (acs_select code prev branch to)) [0..<TETRA_VITERBI_STATES]))"

text \<open>The metrics and the rows of predecessors after \<open>nsteps\<close> steps.\<close>

primrec conv_acs_run_scalar :: "tetra_conv_code \<Rightarrow> nat list \<Rightarrow> nat list \<Rightarrow> nat \<Rightarrow> nat list \<times> nat list list" where
  "conv_acs_run_scalar code metric costs 0 = (metric, [])"
| "conv_acs_run_scalar code metric costs (Suc pos) =
     (case conv_acs_run_scalar code metric costs pos of (m, rows) \<Rightarrow>
      case conv_acs_step code m (drop (pos * lanes code) costs) of (m', row) \<Rightarrow> (m', rows @ [row]))"

primrec traceback :: "tetra_conv_code \<Rightarrow> nat list list \<Rightarrow> nat \<Rightarrow> nat \<Rightarrow> nat list" where
  "traceback code rows 0 st = []"
| "traceback code rows (Suc pos) st = traceback code rows pos (rows ! pos ! st) @ [conv_input_of code st]"

definition conv_viterbi :: "tetra_conv_code \<Rightarrow> nat list \<Rightarrow> nat \<Rightarrow> nat list" where
  "conv_viterbi code costs nbits =
     (let metric = map (\<lambda>st. if st = 0 then 0 else TETRA_VITERBI_INF) [0..<TETRA_VITERBI_STATES]
      in case conv_acs_run_scalar code metric costs nbits of (metric, rows) \<Rightarrow>
        let st = (if metric ! 0 = TETRA_VITERBI_INF
                  then fold (\<lambda>candidate st. if metric ! candidate < metric ! st then candidate else st)
                         [1..<TETRA_VITERBI_STATES] 0
                  else 0)
        in traceback code rows nbits st)"

primrec conv_encode_loop :: "tetra_conv_code \<Rightarrow> nat \<Rightarrow> nat list \<Rightarrow> nat list" where
  "conv_encode_loop code st [] = []"
| "conv_encode_loop code st (x # xs) =
     (let b = x AND 1; involved = push_bit 4 b OR st
      in map (\<lambda>lane. parity5 (involved AND taps code ! lane)) [0..<lanes code] @
         conv_encode_loop code (conv_next_state code st b) xs)"

definition conv_encode :: "tetra_conv_code \<Rightarrow> nat list \<Rightarrow> nat list" where
  "conv_encode code bs = conv_encode_loop code 0 bs"

definition tetra_viterbi_decode_soft :: "nat list \<Rightarrow> int \<Rightarrow> int \<Rightarrow> nat list option" where
  "tetra_viterbi_decode_soft depunc depunc_len out_bits_len =
     (if depunc_len \<le> 0 \<or> depunc_len mod 4 \<noteq> 0 then None
      else let nbits = nat depunc_len div 4
           in if nbits > TETRA_VITERBI_MAX_BITS \<or> out_bits_len < int nbits then None
              else Some (conv_viterbi k_signalling_code depunc nbits))"

definition tetra_sch_hu_decode :: "nat list \<Rightarrow> nat list option" where
  "tetra_sch_hu_decode type4 =
     (let deint = tetra_block_deinterleave_soft type4 168 13 (replicate 168 0)
      in case tetra_rcpc_depuncture_by_id TETRA_RCPC_PUNCT_2_3 deint 168 (112 * 4) of
           None \<Rightarrow> None
         | Some depunc \<Rightarrow>
             (case tetra_viterbi_decode_soft depunc (112 * 4) 112 of
                None \<Rightarrow> None
              | Some decoded \<Rightarrow>
                  if length decoded < 112 \<or> tetra_crc16_ccitt_bits decoded (92 + 16) \<noteq> TETRA_CRC16_OK then None
                  else Some (take 92 decoded)))"

section \<open>Speech channels\<close>

record tetra_speech_layout =
  coded :: nat
  class0 :: nat
  class1 :: nat
  class2 :: nat
  parity :: nat
  class2_punct :: int

definition TETRA_SPEECH_TAIL :: nat where "TETRA_SPEECH_TAIL = 4"

definition k_speech_full :: tetra_speech_layout where
  "k_speech_full = \<lparr>coded = 432, class0 = 102, class1 = 112, class2 = 60, parity = 8,
     class2_punct = TETRA_RCPC_PUNCT_SPEECH_8_18\<rparr>"

definition k_speech_half :: tetra_speech_layout where
  "k_speech_half = \<lparr>coded = 216, class0 = 51, class1 = 56, class2 = 30, parity = 4,
     class2_punct = TETRA_RCPC_PUNCT_SPEECH_8_17\<rparr>"

definition speech_coded_inputs :: "tetra_speech_layout \<Rightarrow> nat" where
  "speech_coded_inputs lay = class1 lay + class2 lay + parity lay + TETRA_SPEECH_TAIL"

definition speech_class1_coded :: "tetra_speech_layout \<Rightarrow> nat" where
  "speech_class1_coded lay = (class1 lay * 3) div 2"

text \<open>The results of the puncturing calls are not looked at; the schemes used exist.\<close>

definition speech_coded :: "tetra_speech_layout \<Rightarrow> nat list \<Rightarrow> nat list" where
  "speech_coded lay inputs =
     (let mother = conv_encode k_speech_code (take (speech_coded_inputs lay) inputs);
          c1_mother = class1 lay * 3;
          c1_coded = speech_class1_coded lay;
          c2_mother = (speech_coded_inputs lay - class1 lay) * 3;
          c2_coded = coded lay - class0 lay - c1_coded
      in the (tetra_rcpc_puncture_by_id TETRA_RCPC_PUNCT_SPEECH_8_12 mother (int c1_mother) (int c1_coded)) @
         the (tetra_rcpc_puncture_by_id (class2_punct lay) (drop c1_mother mother) (int c2_mother) (int c2_coded)))"

definition speech_mismatches :: "tetra_speech_layout \<Rightarrow> nat list \<Rightarrow> nat list \<Rightarrow> nat" where
  "speech_mismatches lay deint inputs =
     (let code = speech_coded lay inputs
      in fold (\<lambda>i bad. let got = (if deint ! (class0 lay + i) > TETRA_SOFT_NEUTRAL then 1 else 0)
                 in if got \<noteq> code ! i then bad + 1 else bad) [0..<coded lay - class0 lay] 0)"

definition speech_crc :: "nat list \<Rightarrow> nat \<Rightarrow> nat \<Rightarrow> u8 \<Rightarrow> u8" where
  "speech_crc bs len degree low =
     (let top = push_bit (degree - 1) 1; msk = push_bit degree 1 - 1
      in fold (\<lambda>i reg. let feedback = ((reg AND top \<noteq> 0) \<noteq> odd (bs ! i));
                          reg = push_bit 1 reg AND msk
                      in if feedback then reg XOR low else reg) (rev [0..<len]) 0)"

definition speech_parity_matches :: "nat list \<Rightarrow> nat \<Rightarrow> u8 \<Rightarrow> bool" where
  "speech_parity_matches sent count computed = list_all (\<lambda>i. odd (sent ! i) = bit computed i) [0..<count]"

definition speech_full_crc_ok :: "nat list \<Rightarrow> bool" where
  "speech_full_crc_ok cls2 =
     (if \<not> speech_parity_matches (drop 60 cls2) 7 (speech_crc cls2 60 7 0x09) then False
      else fold (\<lambda>i s. s \<noteq> odd (cls2 ! i)) [0..<67] False = odd (cls2 ! 67))"

definition speech_half_crc_ok :: "nat list \<Rightarrow> bool" where
  "speech_half_crc_ok cls2 = speech_parity_matches (drop 30 cls2) 4 (speech_crc cls2 30 4 0x03)"

definition speech_decode :: "tetra_speech_layout \<Rightarrow> nat list \<Rightarrow> nat list" where
  "speech_decode lay deint =
     (let c1_mother = class1 lay * 3;
          c1_coded = speech_class1_coded lay;
          c2_mother = (speech_coded_inputs lay - class1 lay) * 3;
          c2_coded = coded lay - class0 lay - c1_coded;
          cls0 = map (\<lambda>i. if deint ! i > TETRA_SOFT_NEUTRAL then 1 else 0) [0..<class0 lay];
          mother = the (tetra_rcpc_depuncture_by_id TETRA_RCPC_PUNCT_SPEECH_8_12 (drop (class0 lay) deint)
                          (int c1_coded) (int c1_mother)) @
                   the (tetra_rcpc_depuncture_by_id (class2_punct lay) (drop (class0 lay + c1_coded) deint)
                          (int c2_coded) (int c2_mother))
      in cls0 @ conv_viterbi k_speech_code mother (speech_coded_inputs lay))"

text \<open>The type-1 bits, whether the CRC passes and the number of mismatches.\<close>

definition tetra_speech_full_decode :: "nat list \<Rightarrow> nat list \<times> bool \<times> nat" where
  "tetra_speech_full_decode deinterleaved =
     (let type2 = speech_decode k_speech_full deinterleaved
      in (take 274 type2, speech_full_crc_ok (drop (class0 k_speech_full + class1 k_speech_full) type2),
          speech_mismatches k_speech_full deinterleaved (drop (class0 k_speech_full) type2)))"

definition tetra_speech_half_decode :: "nat list \<Rightarrow> nat list \<times> bool \<times> nat" where
  "tetra_speech_half_decode deinterleaved =
     (let type2 = speech_decode k_speech_half deinterleaved
      in (take 137 type2, speech_half_crc_ok (drop (class0 k_speech_half + class1 k_speech_half) type2),
          speech_mismatches k_speech_half deinterleaved (drop (class0 k_speech_half) type2)))"

section \<open>Paths through the trellis\<close>

definition conv_state :: "tetra_conv_code \<Rightarrow> nat list \<Rightarrow> nat" where
  "conv_state code us = foldl (conv_next_state code) 0 us"

definition out_bit :: "tetra_conv_code \<Rightarrow> nat \<Rightarrow> nat \<Rightarrow> nat \<Rightarrow> nat" where
  "out_bit code st u lane = parity5 ((push_bit 4 u OR st) AND taps code ! lane)"

definition bit_cost :: "nat \<Rightarrow> nat \<Rightarrow> nat" where
  "bit_cost b c = (if odd b then 65535 - c else c)"

definition edge_cost :: "tetra_conv_code \<Rightarrow> nat list \<Rightarrow> nat \<Rightarrow> nat \<Rightarrow> nat" where
  "edge_cost code cs st u = (\<Sum>lane<lanes code. bit_cost (out_bit code st u lane) (cs ! lane))"

definition soft_distance :: "tetra_conv_code \<Rightarrow> nat list \<Rightarrow> nat list \<Rightarrow> nat" where
  "soft_distance code costs us =
     (\<Sum>pos<length us. edge_cost code (drop (pos * lanes code) costs) (conv_state code (take pos us)) (us ! pos))"

definition trellis_checks :: "tetra_conv_code \<Rightarrow> bool" where
  "trellis_checks code \<longleftrightarrow> lanes code \<le> 4 \<and> conv_next_state code 0 0 = 0 \<and>
     (\<forall>q \<in> set [0..<16]. acs_low code q < 16 \<and> acs_high code q < 16 \<and> conv_input_of code q < 2 \<and>
        conv_next_state code (acs_low code q) (conv_input_of code q) = q \<and>
        conv_next_state code (acs_high code q) (conv_input_of code q) = q \<and>
        (\<forall>lane \<in> set [0..<lanes code].
           odd (drop_bit lane (incoming code ! q)) = odd (out_bit code (acs_low code q) (conv_input_of code q) lane) \<and>
           odd (out_bit code (acs_high code q) (conv_input_of code q) lane) =
             even (out_bit code (acs_low code q) (conv_input_of code q) lane))) \<and>
     (\<forall>p \<in> set [0..<16]. \<forall>u \<in> set [0..<2]. conv_next_state code p u < 16 \<and>
        conv_input_of code (conv_next_state code p u) = u \<and>
        (p = acs_low code (conv_next_state code p u) \<or> p = acs_high code (conv_next_state code p u))) \<and>
     0 < lanes code \<and> (\<forall>p \<in> set [0..<16]. odd (out_bit code p 0 0) \<noteq> odd (out_bit code p 1 0)) \<and>
     (\<forall>p \<in> set [0..<16]. foldl (conv_next_state code) p [0, 0, 0, 0] = 0)"

lemma soft_distance_snoc:
  "soft_distance code costs (us @ [u]) =
     soft_distance code costs us + edge_cost code (drop (length us * lanes code) costs) (conv_state code us) u"
proof -
  have "(\<Sum>pos<length us. edge_cost code (drop (pos * lanes code) costs) (conv_state code (take pos (us @ [u]))) ((us @ [u]) ! pos))
      = (\<Sum>pos<length us. edge_cost code (drop (pos * lanes code) costs) (conv_state code (take pos us)) (us ! pos))"
    by (rule sum.cong) (auto simp: nth_append)
  then show ?thesis by (simp add: soft_distance_def)
qed

lemma conv_state_snoc [simp]: "conv_state code (us @ [u]) = conv_next_state code (conv_state code us) u"
  by (simp add: conv_state_def)

lemma conv_state_Nil [simp]: "conv_state code [] = 0"
  by (simp add: conv_state_def)

definition costs_ok :: "nat list \<Rightarrow> bool" where
  "costs_ok cs \<longleftrightarrow> (\<forall>c \<in> set cs. c \<le> 65535)"

lemma sub32_cost: "c \<le> 65535 \<Longrightarrow> sub32 65535 c = 65535 - c"
  by (simp add: sub32_def mod_if)

lemma sub32_eq: "x + y = n \<Longrightarrow> n < 2 ^ 32 \<Longrightarrow> sub32 n x = y"
proof -
  assume h: "x + y = n" "n < 2 ^ 32"
  then have "n + 2 ^ 32 - x = y + 2 ^ 32" by simp
  then show ?thesis using h unfolding sub32_def by (metis add_lessD1 add.commute mod_add_self2 mod_less)
qed

lemma bit_cost_le: "c \<le> 65535 \<Longrightarrow> bit_cost b c \<le> 65535"
  by (simp add: bit_cost_def)

locale trellis =
  fixes code :: tetra_conv_code
  assumes checks: "trellis_checks code"
begin

lemma lanes_le: "lanes code \<le> 4"
  using checks by (simp add: trellis_checks_def)

lemma state_lt: "bits us \<Longrightarrow> conv_state code us < 16"
proof (induction us rule: rev_induct)
  case (snoc u us)
  then show ?case using checks by (simp add: trellis_checks_def)
qed simp

lemma preds:
  assumes "q < 16"
  shows "acs_low code q < 16" "acs_high code q < 16" "conv_input_of code q < 2"
    "conv_next_state code (acs_low code q) (conv_input_of code q) = q"
    "conv_next_state code (acs_high code q) (conv_input_of code q) = q"
    "lane < lanes code \<Longrightarrow> odd (drop_bit lane (incoming code ! q)) = odd (out_bit code (acs_low code q) (conv_input_of code q) lane)"
    "lane < lanes code \<Longrightarrow> odd (out_bit code (acs_high code q) (conv_input_of code q) lane) =
             even (out_bit code (acs_low code q) (conv_input_of code q) lane)"
  using checks assms by (simp_all add: trellis_checks_def)

lemma succs:
  assumes "p < 16" "u < 2"
  shows "conv_next_state code p u < 16" "conv_input_of code (conv_next_state code p u) = u"
    "p = acs_low code (conv_next_state code p u) \<or> p = acs_high code (conv_next_state code p u)"
proof -
  have "p \<in> set [0..<16]" "u \<in> set [0..<2]" using assms by simp_all
  then show "conv_next_state code p u < 16" "conv_input_of code (conv_next_state code p u) = u"
    "p = acs_low code (conv_next_state code p u) \<or> p = acs_high code (conv_next_state code p u)"
    using checks unfolding trellis_checks_def by blast+
qed

lemma edge_le: "costs_ok cs \<Longrightarrow> lanes code \<le> length cs \<Longrightarrow> edge_cost code cs p u \<le> lanes code * 65535"
proof -
  assume c: "costs_ok cs" "lanes code \<le> length cs"
  have "edge_cost code cs p u \<le> (\<Sum>lane<lanes code. 65535)"
    unfolding edge_cost_def using c by (intro sum_mono bit_cost_le) (auto simp: costs_ok_def)
  then show ?thesis by simp
qed

lemma acs_branch_eq:
  assumes c: "costs_ok cs" "lanes code \<le> length cs" and q: "q < 16"
  shows "acs_branch code cs ! q = edge_cost code cs (acs_low code q) (conv_input_of code q)"
proof -
  let ?f = "\<lambda>lane branch. map (\<lambda>to. add32 (branch ! to) (if odd (drop_bit lane (incoming code ! to)) then sub32 65535 (cs ! lane) else cs ! lane)) [0..<16]"
  have "fold ?f [0..<k] (replicate 16 0) ! q = (\<Sum>lane<k. bit_cost (out_bit code (acs_low code q) (conv_input_of code q) lane) (cs ! lane))
      \<and> fold ?f [0..<k] (replicate 16 0) ! q \<le> k * 65535" if "k \<le> lanes code" for k
    using that
  proof (induction k)
    case 0
    then show ?case using q by simp
  next
    case (Suc k)
    let ?b = "bit_cost (out_bit code (acs_low code q) (conv_input_of code q) k) (cs ! k)"
    have ck: "cs ! k \<le> 65535" using c Suc.prems by (auto simp: costs_ok_def)
    have b: "(if odd (drop_bit k (incoming code ! q)) then sub32 65535 (cs ! k) else cs ! k) = ?b"
      using preds(6) [OF q, of k] Suc.prems ck by (simp add: bit_cost_def sub32_cost)
    have k4: "k * 65535 + 65535 < 2 ^ 32" using Suc.prems lanes_le by simp
    have h: "fold ?f [0..<k] (replicate 16 0) ! q = (\<Sum>lane<k. bit_cost (out_bit code (acs_low code q) (conv_input_of code q) lane) (cs ! lane))"
        "fold ?f [0..<k] (replicate 16 0) ! q \<le> k * 65535" "?b \<le> 65535"
      using Suc.IH Suc.prems bit_cost_le [OF ck] by simp_all
    have "fold ?f [0..<Suc k] (replicate 16 0) ! q = add32 (fold ?f [0..<k] (replicate 16 0) ! q) ?b"
      using q b by simp
    also have "\<dots> = fold ?f [0..<k] (replicate 16 0) ! q + ?b"
      using h(2,3) k4 by (simp add: add32_def)
    finally have e: "fold ?f [0..<Suc k] (replicate 16 0) ! q = fold ?f [0..<k] (replicate 16 0) ! q + ?b" .
    have "fold ?f [0..<k] (replicate 16 0) ! q + ?b \<le> Suc k * 65535" using h(2,3) by simp
    then show ?case unfolding e by (simp add: h(1))
  qed
  from this [of "lanes code"] show ?thesis
    by (simp add: acs_branch_def Let_def TETRA_VITERBI_STATES_def edge_cost_def)
qed

lemma edge_high:
  assumes c: "costs_ok cs" "lanes code \<le> length cs" and q: "q < 16"
  shows "edge_cost code cs (acs_low code q) (conv_input_of code q) + edge_cost code cs (acs_high code q) (conv_input_of code q)
    = lanes code * 65535"
proof -
  have "(\<Sum>lane<lanes code. bit_cost (out_bit code (acs_low code q) (conv_input_of code q) lane) (cs ! lane) +
      bit_cost (out_bit code (acs_high code q) (conv_input_of code q) lane) (cs ! lane)) = (\<Sum>lane<lanes code. 65535)"
  proof (rule sum.cong [OF refl])
    fix lane assume "lane \<in> {..<lanes code}"
    then have "lane < lanes code" "cs ! lane \<le> 65535" using c by (auto simp: costs_ok_def)
    then show "bit_cost (out_bit code (acs_low code q) (conv_input_of code q) lane) (cs ! lane) +
      bit_cost (out_bit code (acs_high code q) (conv_input_of code q) lane) (cs ! lane) = 65535"
      using preds(7) [OF q] by (simp add: bit_cost_def)
  qed
  then show ?thesis by (simp add: edge_cost_def sum.distrib)
qed

text \<open>One selection, with no sum that wraps: the better of the two predecessors, clamped.\<close>

lemma acs_select_eq:
  assumes c: "costs_ok cs" "lanes code \<le> length cs" and q: "q < 16" and m: "\<forall>p < 16. m ! p \<le> TETRA_VITERBI_INF"
  defines "a \<equiv> m ! acs_low code q + edge_cost code cs (acs_low code q) (conv_input_of code q)"
    and "b \<equiv> m ! acs_high code q + edge_cost code cs (acs_high code q) (conv_input_of code q)"
  shows "fst (acs_select code m (acs_branch code cs) q) = min TETRA_VITERBI_INF (min a b)"
    "min a b < TETRA_VITERBI_INF \<Longrightarrow> snd (acs_select code m (acs_branch code cs) q) = (if b < a then acs_high code q else acs_low code q)"
    "a < 2 ^ 31" "b < 2 ^ 31"
proof -
  have l: "lanes code * 65535 \<le> 4 * 65535" using lanes_le by simp
  have le: "edge_cost code cs p u \<le> lanes code * 65535" for p u by (rule edge_le [OF c])
  have inf: "TETRA_VITERBI_INF = 1073741823" by (simp add: TETRA_VITERBI_INF_def)
  have ml: "m ! acs_low code q \<le> 1073741823" "m ! acs_high code q \<le> 1073741823" using m preds(1,2) [OF q] inf by auto
  have sub: "sub32 (lanes code * 65535) (edge_cost code cs (acs_low code q) (conv_input_of code q)) =
      edge_cost code cs (acs_high code q) (conv_input_of code q)"
    using edge_high [OF c q] l by (intro sub32_eq) simp_all
  have le4: "edge_cost code cs p u \<le> 262140" for p u using le [of p u] l by linarith
  show bounds: "a < 2 ^ 31" "b < 2 ^ 31"
    using ml le4 [of "acs_low code q" "conv_input_of code q"] le4 [of "acs_high code q" "conv_input_of code q"]
    unfolding a_def b_def by simp_all
  have "add32 (m ! acs_low code q) (acs_branch code cs ! q) = a"
      "add32 (m ! acs_high code q) (sub32 ((lanes code * 65535) mod 2 ^ 32) (acs_branch code cs ! q)) = b"
    using bounds l by (simp_all add: acs_branch_eq [OF c q] add32_def a_def [symmetric] sub b_def [symmetric])
  then show "fst (acs_select code m (acs_branch code cs) q) = min TETRA_VITERBI_INF (min a b)"
    "min a b < TETRA_VITERBI_INF \<Longrightarrow> snd (acs_select code m (acs_branch code cs) q) = (if b < a then acs_high code q else acs_low code q)"
    by (auto simp: acs_select_def Let_def min_def)
qed

definition start_metric :: "nat list" where
  "start_metric = map (\<lambda>st. if st = 0 then 0 else TETRA_VITERBI_INF) [0..<TETRA_VITERBI_STATES]"

text \<open>
  What the decoder knows after \<open>k\<close> steps: no metric is above the cost of a path into its state, a
  metric below the bound is the cost of the path its predecessors trace, and all stay within the bound.
\<close>

definition survivors :: "nat list \<Rightarrow> nat \<Rightarrow> nat list \<times> nat list list \<Rightarrow> bool" where
  "survivors costs k mr = (case mr of (m, rows) \<Rightarrow> length m = 16 \<and> length rows = k \<and>
     (\<forall>q < 16. m ! q \<le> TETRA_VITERBI_INF) \<and>
     (\<forall>us. length us = k \<longrightarrow> bits us \<longrightarrow> m ! conv_state code us \<le> soft_distance code costs us) \<and>
     (\<forall>q < 16. m ! q < TETRA_VITERBI_INF \<longrightarrow>
        conv_state code (traceback code rows k q) = q \<and> bits (traceback code rows k q) \<and>
        soft_distance code costs (traceback code rows k q) = m ! q))"

lemma traceback_append: "k \<le> length rows \<Longrightarrow> traceback code (rows @ xs) k q = traceback code rows k q"
  by (induction k arbitrary: q) (simp_all add: nth_append)

lemma length_traceback [simp]: "length (traceback code rows k q) = k"
  by (induction k arbitrary: q) simp_all

lemma survivors_start: "survivors costs 0 (start_metric, [])"
  by (auto simp: survivors_def start_metric_def TETRA_VITERBI_STATES_def soft_distance_def TETRA_VITERBI_INF_def)

lemma survivors_step:
  assumes s: "survivors costs k (m, rows)" and c: "costs_ok costs" "Suc k * lanes code \<le> length costs"
    and e: "conv_acs_step code m (drop (k * lanes code) costs) = (m', row)"
  shows "survivors costs (Suc k) (m', rows @ [row])"
proof -
  let ?cs = "drop (k * lanes code) costs"
  have cs: "costs_ok ?cs" "lanes code \<le> length ?cs" using c by (auto simp: costs_ok_def dest: in_set_dropD)
  have m: "\<forall>p < 16. m ! p \<le> TETRA_VITERBI_INF" and n: "length rows = k" using s by (auto simp: survivors_def)
  let ?a = "\<lambda>q. m ! acs_low code q + edge_cost code ?cs (acs_low code q) (conv_input_of code q)"
  let ?b = "\<lambda>q. m ! acs_high code q + edge_cost code ?cs (acs_high code q) (conv_input_of code q)"
  note sel = acs_select_eq [OF cs _ m]
  have m': "m' ! q = min TETRA_VITERBI_INF (min (?a q) (?b q))"
    and row: "min (?a q) (?b q) < TETRA_VITERBI_INF \<Longrightarrow> row ! q = (if ?b q < ?a q then acs_high code q else acs_low code q)"
    if "q < 16" for q
    using e that sel(1,2) [OF that] by (auto simp: conv_acs_step_def Let_def TETRA_VITERBI_STATES_def)
  have len: "length m' = 16" "\<forall>q < 16. m' ! q \<le> TETRA_VITERBI_INF"
    using e m' by (auto simp: conv_acs_step_def Let_def TETRA_VITERBI_STATES_def)
  have lower: "m' ! conv_state code us \<le> soft_distance code costs us" if us: "length us = Suc k" "bits us" for us
  proof -
    obtain vs u where v: "us = vs @ [u]" using us(1) by (cases us rule: rev_cases) auto
    let ?p = "conv_state code vs" and ?q = "conv_state code us"
    have p: "?p < 16" "u < 2" using state_lt us(2) by (auto simp: v)
    have q: "?q < 16" "conv_input_of code ?q = u" "?p = acs_low code ?q \<or> ?p = acs_high code ?q"
      using succs [OF p] by (simp_all add: v)
    have "m' ! ?q \<le> m ! ?p + edge_cost code ?cs ?p u" using m' [OF q(1)] q(2,3) by auto
    also have "\<dots> \<le> soft_distance code costs vs + edge_cost code ?cs ?p u" using s us by (simp add: survivors_def v)
    also have "\<dots> = soft_distance code costs us" using us(1) by (simp add: v soft_distance_snoc)
    finally show ?thesis .
  qed
  have traced: "conv_state code (traceback code (rows @ [row]) (Suc k) q) = q \<and> bits (traceback code (rows @ [row]) (Suc k) q) \<and>
      soft_distance code costs (traceback code (rows @ [row]) (Suc k) q) = m' ! q"
    if q: "q < 16" and less: "m' ! q < TETRA_VITERBI_INF" for q
  proof -
    have le: "min (?a q) (?b q) < TETRA_VITERBI_INF" and mq: "m' ! q = min (?a q) (?b q)" using less m' [OF q] by auto
    define p where "p = row ! q"
    have p: "p = (if ?b q < ?a q then acs_high code q else acs_low code q)" using row [OF q le] by (simp add: p_def)
    have p16: "p < 16" and nxt: "conv_next_state code p (conv_input_of code q) = q" using p preds(1,2,4,5) [OF q] by auto
    have mp: "m ! p + edge_cost code ?cs p (conv_input_of code q) = m' ! q" using mq by (auto simp: p min_def)
    then have lt: "m ! p < TETRA_VITERBI_INF" using less by linarith
    have "\<forall>q < 16. m ! q < TETRA_VITERBI_INF \<longrightarrow>
        conv_state code (traceback code rows k q) = q \<and> bits (traceback code rows k q) \<and>
        soft_distance code costs (traceback code rows k q) = m ! q" using s by (simp add: survivors_def)
    from this [rule_format, OF p16 lt]
    have IH: "conv_state code (traceback code rows k p) = p" "bits (traceback code rows k p)"
        "soft_distance code costs (traceback code rows k p) = m ! p" by blast+
    have t: "traceback code (rows @ [row]) (Suc k) q = traceback code rows k p @ [conv_input_of code q]"
      by (simp add: n [symmetric] traceback_append p_def)
    show ?thesis unfolding t soft_distance_snoc conv_state_snoc IH(1) IH(3) nxt using mp IH(2) preds(3) [OF q] by simp
  qed
  show ?thesis unfolding survivors_def prod.case using len lower traced n by simp
qed

lemma survivors_run:
  assumes "costs_ok costs" "n * lanes code \<le> length costs"
  shows "survivors costs n (conv_acs_run_scalar code start_metric costs n)"
  using assms(2)
proof (induction n)
  case 0
  show ?case by (simp add: survivors_start)
next
  case (Suc n)
  obtain m rows m' row where e: "conv_acs_run_scalar code start_metric costs n = (m, rows)"
      "conv_acs_step code m (drop (n * lanes code) costs) = (m', row)"
    by (metis prod.exhaust)
  have "survivors costs n (m, rows)" using Suc e by simp
  from survivors_step [OF this assms(1) Suc.prems e(2)] show ?case by (simp add: e)
qed

lemma zero_path: "conv_state code (replicate n 0) = 0"
proof (induction n)
  case (Suc n)
  have "replicate (Suc n) (0::nat) = replicate n 0 @ [0]" by (simp add: replicate_append_same)
  moreover have "conv_next_state code 0 0 = 0" using checks by (simp add: trellis_checks_def)
  ultimately show ?case using Suc.IH by (simp del: replicate_Suc)
qed simp

lemma tail_state:
  assumes "bits us"
  shows "conv_state code (us @ [0, 0, 0, 0]) = 0"
proof -
  have "conv_state code us \<in> set [0..<16]" using state_lt [OF assms] by simp
  then show ?thesis using checks unfolding trellis_checks_def conv_state_def foldl_append by blast
qed

lemma soft_distance_le:
  assumes "costs_ok costs" "length us * lanes code \<le> length costs"
  shows "soft_distance code costs us \<le> length us * (lanes code * 65535)"
proof -
  have "edge_cost code (drop (pos * lanes code) costs) p u \<le> lanes code * 65535" if "pos < length us" for pos p u
  proof (rule edge_le)
    show "costs_ok (drop (pos * lanes code) costs)" using assms(1) by (auto simp: costs_ok_def dest: in_set_dropD)
    have "Suc pos * lanes code \<le> length us * lanes code" using that by (intro mult_right_mono) simp_all
    then show "lanes code \<le> length (drop (pos * lanes code) costs)" using assms(2) by simp
  qed
  then have "soft_distance code costs us \<le> (\<Sum>pos<length us. lanes code * 65535)"
    unfolding soft_distance_def by (intro sum_mono) simp
  then show ?thesis by simp
qed

text \<open>The decoded bits are a path back to state 0 of least soft distance, and the fallback to another state is dead code.\<close>

lemma viterbi_optimal:
  assumes c: "costs_ok costs" "n * lanes code \<le> length costs" "n \<le> TETRA_VITERBI_MAX_BITS"
  defines "us \<equiv> conv_viterbi code costs n"
  shows "length us = n" "bits us" "conv_state code us = 0"
    "\<And>vs. length vs = n \<Longrightarrow> bits vs \<Longrightarrow> conv_state code vs = 0 \<Longrightarrow> soft_distance code costs us \<le> soft_distance code costs vs"
proof -
  obtain m rows where e: "conv_acs_run_scalar code start_metric costs n = (m, rows)" by (cases "conv_acs_run_scalar code start_metric costs n")
  have s: "survivors costs n (m, rows)" using survivors_run [OF c(1,2)] e by simp
  have "m ! conv_state code (replicate n 0) \<le> soft_distance code costs (replicate n 0)" using s by (simp add: survivors_def)
  then have "m ! 0 \<le> soft_distance code costs (replicate n 0)" by (simp add: zero_path)
  also have "\<dots> \<le> n * (lanes code * 65535)" using soft_distance_le [OF c(1), of "replicate n 0"] c(2) by simp
  also have "\<dots> \<le> 512 * (4 * 65535)" using c(3) lanes_le by (intro mult_mono) (simp_all add: TETRA_VITERBI_MAX_BITS_def)
  also have "\<dots> < TETRA_VITERBI_INF" by (simp add: TETRA_VITERBI_INF_def)
  finally have less: "m ! 0 < TETRA_VITERBI_INF" .
  have us: "us = traceback code rows n 0"
    unfolding us_def conv_viterbi_def start_metric_def [symmetric] using e less by (simp add: Let_def)
  have t: "conv_state code us = 0 \<and> bits us \<and> soft_distance code costs us = m ! 0"
    using s less unfolding survivors_def prod.case us by simp
  then show "length us = n" "bits us" "conv_state code us = 0" by (simp_all add: us)
  show "soft_distance code costs us \<le> soft_distance code costs vs"
    if "length vs = n" "bits vs" "conv_state code vs = 0" for vs
    using s that t unfolding survivors_def prod.case by metis
qed

section \<open>Recovery of a clean or punctured code word\<close>

text \<open>
  Costs that agree with a code word: every cost is that of the coded bit or neutral, and the first
  lane is never neutral.
\<close>

definition agrees :: "nat list \<Rightarrow> nat list \<Rightarrow> bool" where
  "agrees us costs \<longleftrightarrow> length costs = length us * lanes code \<and>
     (\<forall>pos < length us. \<forall>lane < lanes code.
        costs ! (pos * lanes code + lane) = (if odd (out_bit code (conv_state code (take pos us)) (us ! pos) lane) then 65535 else 0) \<or>
        lane \<noteq> 0 \<and> costs ! (pos * lanes code + lane) = TETRA_SOFT_NEUTRAL)"

lemma index_lt: "pos < n \<Longrightarrow> lane < lanes code \<Longrightarrow> pos * lanes code + lane < n * lanes code"
proof -
  assume "pos < n" "lane < lanes code"
  then have "pos * lanes code + lane < Suc pos * lanes code" by simp
  also have "\<dots> \<le> n * lanes code" using \<open>pos < n\<close> by (intro mult_right_mono) simp_all
  finally show ?thesis .
qed

lemma index_split: "x < n * lanes code \<Longrightarrow> \<exists>pos < n. \<exists>lane < lanes code. x = pos * lanes code + lane"
proof -
  assume x: "x < n * lanes code"
  then have l: "0 < lanes code" by (cases "lanes code") auto
  have "x div lanes code < n" using x l by (simp add: less_mult_imp_div_less)
  moreover have "x mod lanes code < lanes code" "x = x div lanes code * lanes code + x mod lanes code" using l by simp_all
  ultimately show ?thesis by blast
qed

lemma agrees_nth:
  assumes "agrees us costs" "pos < length us" "lane < lanes code"
  shows "costs ! (pos * lanes code + lane) = (if odd (out_bit code (conv_state code (take pos us)) (us ! pos) lane) then 65535 else 0) \<or>
    lane \<noteq> 0 \<and> costs ! (pos * lanes code + lane) = TETRA_SOFT_NEUTRAL"
  using assms unfolding agrees_def by blast

lemma agrees_costs_ok:
  assumes "agrees us costs"
  shows "costs_ok costs"
proof -
  have "costs ! x \<le> 65535" if "x < length costs" for x
  proof -
    have "x < length us * lanes code" using that assms by (simp add: agrees_def)
    then obtain pos lane where "pos < length us" "lane < lanes code" "x = pos * lanes code + lane" using index_split by blast
    then show ?thesis using agrees_nth [OF assms, of pos lane] by (auto simp: TETRA_SOFT_NEUTRAL_def split: if_splits)
  qed
  then show ?thesis by (auto simp: costs_ok_def in_set_conv_nth)
qed

definition lane_cost :: "nat list \<Rightarrow> nat list \<Rightarrow> nat \<Rightarrow> nat \<Rightarrow> nat" where
  "lane_cost costs us pos lane =
     bit_cost (out_bit code (conv_state code (take pos us)) (us ! pos) lane) (costs ! (pos * lanes code + lane))"

lemma soft_distance_lanes:
  assumes "length us * lanes code \<le> length costs"
  shows "soft_distance code costs us = (\<Sum>pos<length us. \<Sum>lane<lanes code. lane_cost costs us pos lane)"
  unfolding soft_distance_def edge_cost_def lane_cost_def
  using assms index_lt [of _ "length us"] by (intro sum.cong refl) (fastforce intro!: arg_cong2 [where f = bit_cost] nth_drop)

definition floor_cost :: "nat list \<Rightarrow> nat \<Rightarrow> nat \<Rightarrow> nat" where
  "floor_cost costs pos lane = (if costs ! (pos * lanes code + lane) = TETRA_SOFT_NEUTRAL then TETRA_SOFT_NEUTRAL else 0)"

lemma floor_le_lane: "floor_cost costs pos lane \<le> lane_cost costs us pos lane"
  by (simp add: floor_cost_def lane_cost_def bit_cost_def TETRA_SOFT_NEUTRAL_def)

lemma agrees_lane:
  assumes "agrees us costs" "pos < length us" "lane < lanes code"
  shows "lane_cost costs us pos lane \<le> floor_cost costs pos lane + 1"
  using agrees_nth [OF assms] by (auto simp: lane_cost_def floor_cost_def bit_cost_def TETRA_SOFT_NEUTRAL_def)

lemma agrees_upper:
  assumes "agrees us costs"
  shows "soft_distance code costs us \<le> (\<Sum>pos<length us. \<Sum>lane<lanes code. floor_cost costs pos lane) + length us * lanes code"
proof -
  have len: "length us * lanes code \<le> length costs" using assms by (simp add: agrees_def)
  have "soft_distance code costs us \<le> (\<Sum>pos<length us. \<Sum>lane<lanes code. floor_cost costs pos lane + 1)"
    unfolding soft_distance_lanes [OF len] by (intro sum_mono agrees_lane [OF assms]) simp_all
  also have "\<dots> = (\<Sum>pos<length us. \<Sum>lane<lanes code. floor_cost costs pos lane) + length us * lanes code"
    unfolding sum.distrib by simp
  finally show ?thesis .
qed

lemma other_lower:
  assumes a: "agrees us costs" and v: "length vs = length us" "bits vs" "bits us" "vs \<noteq> us"
  shows "(\<Sum>pos<length us. \<Sum>lane<lanes code. floor_cost costs pos lane) + 65535 \<le> soft_distance code costs vs"
proof -
  have len: "length vs * lanes code \<le> length costs" using a v(1) by (simp add: agrees_def)
  have l: "0 < lanes code" and split: "\<forall>p < 16. odd (out_bit code p 0 0) \<noteq> odd (out_bit code p 1 0)"
    using checks by (simp_all add: trellis_checks_def)
  have "\<exists>i. i < length us \<and> vs ! i \<noteq> us ! i" using v(1,4) by (auto simp: list_eq_iff_nth_eq)
  then obtain i where i: "i < length us" "vs ! i \<noteq> us ! i" and least: "\<forall>j < i. \<not> (j < length us \<and> vs ! j \<noteq> us ! j)"
    unfolding exists_least_iff [of "\<lambda>i. i < length us \<and> vs ! i \<noteq> us ! i"] by blast
  have before: "vs ! j = us ! j" if "j < i" for j using least that i(1) by auto
  have pre: "take i vs = take i us" using before i(1) v(1) by (intro nth_equalityI) simp_all
  let ?p = "conv_state code (take i us)"
  have p: "?p < 16" using state_lt v(3) by simp
  have "vs ! i < 2" "us ! i < 2" using v i(1) by (simp_all add: bits_nth)
  then have "vs ! i = 0 \<and> us ! i = 1 \<or> vs ! i = 1 \<and> us ! i = 0" using i(2) by linarith
  then have "odd (out_bit code ?p (vs ! i) 0) \<noteq> odd (out_bit code ?p (us ! i) 0)"
    using split [rule_format, OF p] by (elim disjE conjE) simp_all
  moreover have cost: "costs ! (i * lanes code) = (if odd (out_bit code ?p (us ! i) 0) then 65535 else 0)"
    using agrees_nth [OF a i(1) l] by simp
  ultimately have big: "lane_cost costs vs i 0 = 65535" "floor_cost costs i 0 = 0"
    by (simp_all add: lane_cost_def floor_cost_def bit_cost_def pre TETRA_SOFT_NEUTRAL_def)
  let ?f = "\<lambda>pos. \<Sum>lane<lanes code. floor_cost costs pos lane" and ?g = "\<lambda>pos. \<Sum>lane<lanes code. lane_cost costs vs pos lane"
  have at: "?f i + 65535 \<le> ?g i"
  proof -
    have "?f i = (\<Sum>lane \<in> {..<lanes code} - {0}. floor_cost costs i lane)"
      using l big(2) by (simp add: sum.remove [of "{..<lanes code}" 0])
    also have "\<dots> \<le> (\<Sum>lane \<in> {..<lanes code} - {0}. lane_cost costs vs i lane)" by (intro sum_mono floor_le_lane)
    also have "\<dots> + 65535 = ?g i" using l big(1) by (simp add: sum.remove [of "{..<lanes code}" 0])
    finally show ?thesis by simp
  qed
  have "(\<Sum>pos \<in> {..<length us} - {i}. ?f pos) \<le> (\<Sum>pos \<in> {..<length us} - {i}. ?g pos)" by (intro sum_mono floor_le_lane)
  moreover have "(\<Sum>pos<length us. ?f pos) = ?f i + (\<Sum>pos \<in> {..<length us} - {i}. ?f pos)"
      "(\<Sum>pos<length us. ?g pos) = ?g i + (\<Sum>pos \<in> {..<length us} - {i}. ?g pos)"
    using i(1) by (simp_all add: sum.remove [of "{..<length us}" i])
  ultimately show ?thesis using at unfolding soft_distance_lanes [OF len] v(1) by linarith
qed

lemma viterbi_recovers:
  assumes a: "agrees us costs" and us: "bits us" "conv_state code us = 0" "length us \<le> TETRA_VITERBI_MAX_BITS"
  shows "conv_viterbi code costs (length us) = us"
proof (rule ccontr)
  let ?v = "conv_viterbi code costs (length us)"
  assume ne: "?v \<noteq> us"
  have len: "length us * lanes code \<le> length costs" using a by (simp add: agrees_def)
  note v = viterbi_optimal [OF agrees_costs_ok [OF a] len us(3)]
  have "soft_distance code costs ?v \<le> soft_distance code costs us" using v(4) us by simp
  moreover note agrees_upper [OF a] other_lower [OF a v(1,2) us(1) ne]
  moreover have "length us * lanes code \<le> 512 * 4" using us(3) lanes_le by (intro mult_mono) (simp_all add: TETRA_VITERBI_MAX_BITS_def)
  ultimately show False by linarith
qed

lemma encode_loop_nth:
  assumes "pos < length us" "lane < lanes code" "bits us"
  shows "conv_encode_loop code st us ! (pos * lanes code + lane) =
    out_bit code (foldl (conv_next_state code) st (take pos us)) (us ! pos) lane"
  using assms
proof (induction us arbitrary: st pos)
  case (Cons x xs)
  have x: "x AND 1 = x" using Cons.prems(3) by (simp add: and_one_bit)
  show ?case
  proof (cases pos)
    case 0
    then show ?thesis using Cons.prems(2) x by (simp add: nth_append out_bit_def Let_def)
  next
    case (Suc k)
    have "lanes code + k * lanes code + lane - lanes code = k * lanes code + lane" by simp
    then show ?thesis using Cons.IH [of k "conv_next_state code st x"] Cons.prems Suc x
      by (simp add: nth_append Let_def)
  qed
qed simp

lemma length_conv_encode: "length (conv_encode_loop code st us) = length us * lanes code"
  by (induction us arbitrary: st) (simp_all add: Let_def)

lemma agrees_encoded:
  assumes "bits us" "length costs = length us * lanes code"
    "\<And>x. x < length costs \<Longrightarrow> costs ! x = (if odd (conv_encode code us ! x) then 65535 else 0) \<or>
       x mod lanes code \<noteq> 0 \<and> costs ! x = TETRA_SOFT_NEUTRAL"
  shows "agrees us costs"
proof -
  have "costs ! (pos * lanes code + lane) = (if odd (out_bit code (conv_state code (take pos us)) (us ! pos) lane) then 65535 else 0) \<or>
        lane \<noteq> 0 \<and> costs ! (pos * lanes code + lane) = TETRA_SOFT_NEUTRAL" if "pos < length us" "lane < lanes code" for pos lane
    using assms(3) [of "pos * lanes code + lane"] index_lt [OF that] encode_loop_nth [OF that assms(1), of 0] that assms(2)
    by (auto simp: conv_encode_def conv_state_def)
  then show ?thesis using assms(2) by (simp add: agrees_def)
qed

end

lemma upto_16: "[0..<16] = [0, 1, 2, 3, 4, 5, 6, 7, 8, 9, 10, 11, 12, 13, 14, 15 :: nat]"
  by (simp add: upt_rec)

lemma upto_small: "[0..<2] = [0, 1 :: nat]" "[0..<3] = [0, 1, 2 :: nat]" "[0..<4] = [0, 1, 2, 3 :: nat]"
  by (simp_all add: upt_rec)

lemma signalling_checks: "trellis_checks k_signalling_code"
  unfolding trellis_checks_def k_signalling_code_def tetra_conv_code.select_convs upto_16 upto_small list.set
  by (simp add: acs_low_def acs_high_def conv_input_of_def conv_next_state_def out_bit_def parity5_def Let_def even_xor_iff)

lemma speech_checks: "trellis_checks k_speech_code"
  unfolding trellis_checks_def k_speech_code_def tetra_conv_code.select_convs upto_16 upto_small list.set
  by (simp add: numeral_3_eq_3 [symmetric] even_or_iff even_and_iff acs_low_def acs_high_def conv_input_of_def conv_next_state_def out_bit_def parity5_def Let_def even_xor_iff)

interpretation signalling: trellis k_signalling_code
  by unfold_locales (rule signalling_checks)

interpretation speech: trellis k_speech_code
  by unfold_locales (rule speech_checks)

section \<open>Puncturing and interleaving undone\<close>

text \<open>A scheme that sends \<open>n\<close> bits of a mother code word of \<open>m\<close> bits keeps each at most once.\<close>

definition scheme_ok :: "tetra_puncturer \<Rightarrow> nat \<Rightarrow> nat \<Rightarrow> bool" where
  "scheme_ok p n m \<longleftrightarrow> distinct (map (tetra_puncturer_k p) [1..<n + 1]) \<and>
     list_all (\<lambda>j. 1 \<le> tetra_puncturer_k p j \<and> tetra_puncturer_k p j \<le> m) [1..<n + 1]"

lemma puncture_nth:
  assumes "tetra_puncturer_of pid = Some p" "scheme_ok p n m" "1 \<le> j" "j \<le> n"
  shows "the (tetra_rcpc_puncture_by_id pid mother (int m) (int n)) ! (j - 1) = mother ! (tetra_puncturer_k p j - 1)"
proof -
  have "j \<in> set [1..<n + 1]" using assms(3,4) by (simp del: upt_Suc)
  then have "1 \<le> tetra_puncturer_k p j \<and> tetra_puncturer_k p j \<le> m" using assms(2) unfolding scheme_ok_def list_all_iff by blast
  moreover have "[1..<n + 1] ! (j - 1) = j" using assms(3,4) by (subst nth_upt) simp_all
  ultimately show ?thesis using assms(1,3,4) by (simp add: tetra_rcpc_puncture_by_id_def Let_def del: upt_Suc)
qed

lemma length_puncture [simp]:
  "tetra_puncturer_of pid = Some p \<Longrightarrow> length (the (tetra_rcpc_puncture_by_id pid mother (int m) (int n))) = n"
  by (simp add: tetra_rcpc_puncture_by_id_def)

lemma depuncture_eq:
  assumes "tetra_puncturer_of pid = Some p" "scheme_ok p n m"
  shows "tetra_rcpc_depuncture_by_id pid cs (int n) (int m) =
    Some (fold (\<lambda>j out. out[tetra_puncturer_k p j - 1 := cs ! (j - 1)]) [1..<n + 1] (replicate m TETRA_SOFT_NEUTRAL))"
proof -
  have "fold (\<lambda>j out. let k = tetra_puncturer_k p j in if k \<ge> 1 \<and> k \<le> m then out[k - 1 := cs ! (j - 1)] else out) js xs =
      fold (\<lambda>j out. out[tetra_puncturer_k p j - 1 := cs ! (j - 1)]) js xs"
    if "list_all (\<lambda>j. 1 \<le> tetra_puncturer_k p j \<and> tetra_puncturer_k p j \<le> m) js" for js xs
    using that by (induction js arbitrary: xs) (simp_all add: Let_def)
  then show ?thesis using assms by (simp add: tetra_rcpc_depuncture_by_id_def scheme_ok_def del: upt_Suc)
qed

lemma depuncture_nth:
  fixes cs :: "nat list"
  assumes p: "tetra_puncturer_of pid = Some p" "scheme_ok p n m"
  defines "out \<equiv> the (tetra_rcpc_depuncture_by_id pid cs (int n) (int m))"
  shows "length out = m"
    "\<And>j. 1 \<le> j \<Longrightarrow> j \<le> n \<Longrightarrow> out ! (tetra_puncturer_k p j - 1) = cs ! (j - 1)"
    "\<And>y. y < m \<Longrightarrow> Suc y \<notin> set (map (tetra_puncturer_k p) [1..<n + 1]) \<Longrightarrow> out ! y = TETRA_SOFT_NEUTRAL"
proof -
  have out: "out = fold (\<lambda>j out. out[tetra_puncturer_k p j - 1 := cs ! (j - 1)]) [1..<n + 1] (replicate m TETRA_SOFT_NEUTRAL)"
    by (simp add: out_def depuncture_eq [OF p])
  have k: "1 \<le> tetra_puncturer_k p j \<and> tetra_puncturer_k p j \<le> m" if "j \<in> set [1..<n + 1]" for j
    using p(2) that unfolding scheme_ok_def list_all_iff by blast
  have "inj_on (\<lambda>j. tetra_puncturer_k p j - 1) (set [1..<n + 1])"
  proof (rule inj_onI)
    fix i j assume h: "i \<in> set [1..<n + 1]" "j \<in> set [1..<n + 1]" "tetra_puncturer_k p i - 1 = tetra_puncturer_k p j - 1"
    then have "tetra_puncturer_k p i = tetra_puncturer_k p j" using k [OF h(1)] k [OF h(2)] by linarith
    then show "i = j" using p(2) h(1,2) unfolding scheme_ok_def distinct_map inj_on_def by blast
  qed
  then have d: "distinct (map (\<lambda>j. tetra_puncturer_k p j - 1) [1..<n + 1])" by (simp add: distinct_map del: upt_Suc)
  show "length out = m" by (simp add: out)
  show "out ! (tetra_puncturer_k p j - 1) = cs ! (j - 1)" if "1 \<le> j" "j \<le> n" for j
  proof -
    have j: "j \<in> set [1..<n + 1]" using that by (simp del: upt_Suc)
    show ?thesis unfolding out using k [OF j]
      by (intro fold_writes_nth [OF d j]) (simp, linarith)
  qed
  show "out ! y = TETRA_SOFT_NEUTRAL" if y: "y < m" "Suc y \<notin> set (map (tetra_puncturer_k p) [1..<n + 1])" for y
  proof -
    have "y \<notin> (\<lambda>j. tetra_puncturer_k p j - 1) ` set [1..<n + 1]"
    proof
      assume "y \<in> (\<lambda>j. tetra_puncturer_k p j - 1) ` set [1..<n + 1]"
      then obtain j where "j \<in> set [1..<n + 1]" "y = tetra_puncturer_k p j - 1" by blast
      then have "Suc y = tetra_puncturer_k p j" using k by fastforce
      then show False using y(2) \<open>j \<in> set [1..<n + 1]\<close> by (metis image_eqI set_map)
    qed
    from fold_writes_outside [OF this, of "\<lambda>j. cs ! (j - 1)" "replicate m TETRA_SOFT_NEUTRAL"] show ?thesis
      unfolding out using y(1) by (simp del: upt_Suc)
  qed
qed

text \<open>What a sent bit leaves after depuncturing is its own cost, all else is neutral.\<close>

lemma depuncture_puncture:
  assumes p: "tetra_puncturer_of pid = Some p" "scheme_ok p n m" and y: "y < m"
    and cs: "\<And>j. j < n \<Longrightarrow> cs ! j = (if odd (the (tetra_rcpc_puncture_by_id pid mother (int m) (int n)) ! j) then 65535 else 0)"
  defines "out \<equiv> the (tetra_rcpc_depuncture_by_id pid cs (int n) (int m))"
  shows "out ! y = (if odd (mother ! y) then 65535 else 0) \<or>
    Suc y \<notin> set (map (tetra_puncturer_k p) [1..<n + 1]) \<and> out ! y = TETRA_SOFT_NEUTRAL"
proof (cases "Suc y \<in> set (map (tetra_puncturer_k p) [1..<n + 1])")
  case True
  then obtain j where j: "1 \<le> j" "j \<le> n" "Suc y = tetra_puncturer_k p j" by fastforce
  then have "out ! y = cs ! (j - 1)" unfolding out_def using depuncture_nth(2) [OF p j(1,2), of cs] by (metis diff_Suc_1)
  moreover have "cs ! (j - 1) = (if odd (mother ! y) then 65535 else 0)"
    using cs [of "j - 1"] puncture_nth [OF p j(1,2), of mother] j by (metis Suc_diff_le Suc_le_eq diff_Suc_1)
  ultimately show ?thesis by simp
next
  case False
  then show ?thesis unfolding out_def using depuncture_nth(3) [OF p y False] by simp
qed

lemma deinterleave_interleave:
  fixes h :: "nat \<Rightarrow> nat"
  assumes d: "distinct (map (\<lambda>i. (a * i) mod n) [1..<n + 1])" and n: "0 < n" "0 < a" "length xs = n"
  defines "sent \<equiv> tetra_block_interleave xs (int n) (int a) (replicate n 0)"
  shows "tetra_block_deinterleave_soft (map h sent) (int n) (int a) (replicate n 0) = map h xs" "length sent = n"
proof -
  have s: "sent = fold (\<lambda>i out. out[(a * i) mod n := xs ! (i - 1)]) [1..<n + 1] (replicate n 0)"
    using n by (simp add: sent_def tetra_block_interleave_def del: upt_Suc)
  then show len: "length sent = n" by simp
  have at: "sent ! ((a * Suc x) mod n) = xs ! x" if "x < n" for x
    unfolding s using fold_writes_nth [OF d, of "Suc x" "replicate n 0" "\<lambda>i. xs ! (i - 1)"] that n by (simp del: upt_Suc)
  let ?r = "fold (\<lambda>i out. out[i - 1 := map h sent ! ((a * i) mod n)]) [1..<n + 1] (replicate n 0)"
  have r: "?r ! x = map h sent ! ((a * Suc x) mod n)" if "x < n" for x
  proof -
    have "distinct (map (\<lambda>i. i - 1) [1..<n + 1])" by (auto simp: distinct_map inj_on_def simp del: upt_Suc)
    from fold_writes_nth [OF this, of "Suc x" "replicate n 0" "\<lambda>i. map h sent ! ((a * i) mod n)"] that show ?thesis
      by (simp del: upt_Suc)
  qed
  have "?r = map h xs"
  proof (rule nth_equalityI)
    fix x assume "x < length ?r"
    then have x: "x < n" by simp
    then show "?r ! x = map h xs ! x" unfolding r [OF x] using at [OF x] n len by simp
  qed (simp add: n)
  then show "tetra_block_deinterleave_soft (map h sent) (int n) (int a) (replicate n 0) = map h xs"
    using n by (simp add: tetra_block_deinterleave_soft_def del: upt_Suc)
qed

section \<open>The SCH/HU block and the speech block\<close>

text \<open>
  The schemes with \<open>i = j\<close> send bit \<open>punct_P p ! r\<close> of every period, in rising order, and always the
  first of the \<open>l\<close> bits of a trellis step.
\<close>

definition rising_scheme :: "tetra_puncturer \<Rightarrow> nat \<Rightarrow> bool" where
  "rising_scheme p l \<longleftrightarrow> punct_i_rule p = PUNCT_I_EQUALS_J \<and> punct_t p = length (punct_P p) \<and> punct_P p \<noteq> [] \<and>
     sorted_wrt (<) (punct_P p) \<and> list_all (\<lambda>x. 1 \<le> x \<and> x \<le> punct_period p) (punct_P p) \<and>
     0 < l \<and> l dvd punct_period p \<and> list_all (\<lambda>x. x mod l = 0 \<longrightarrow> Suc x \<in> set (punct_P p)) [0..<punct_period p]"

lemma puncturer_k_rising:
  assumes "rising_scheme p l"
  shows "tetra_puncturer_k p (Suc x) = punct_period p * (x div punct_t p) + punct_P p ! (x mod punct_t p)"
  using assms by (simp add: tetra_puncturer_k_def rising_scheme_def Let_def minus_mult_div_eq_mod)

lemma puncturer_k_mono:
  assumes "rising_scheme p l"
  shows "strict_mono (\<lambda>x. tetra_puncturer_k p (Suc x))"
proof (rule strict_mono_Suc_iff [THEN iffD2], rule allI)
  fix x
  let ?P = "punct_P p" and ?t = "punct_t p"
  have t: "?t = length ?P" "0 < ?t" "sorted_wrt (<) ?P" using assms by (auto simp: rising_scheme_def)
  have le: "1 \<le> ?P ! r" "?P ! r \<le> punct_period p" if "r < ?t" for r
    using assms that by (auto simp: rising_scheme_def list_all_iff)
  show "tetra_puncturer_k p (Suc x) < tetra_puncturer_k p (Suc (Suc x))"
  proof (cases "Suc (x mod ?t) = ?t")
    case True
    then have "punct_period p * (x div ?t) + ?P ! (x mod ?t) < punct_period p * Suc (x div ?t) + ?P ! 0"
      using le(2) [of "x mod ?t"] le(1) [of 0] t(2) by simp
    then show ?thesis using True by (simp add: puncturer_k_rising [OF assms] div_Suc mod_Suc)
  next
    case False
    then have "?P ! (x mod ?t) < ?P ! Suc (x mod ?t)" using t sorted_wrt_nth_less [OF t(3), of "x mod ?t" "Suc (x mod ?t)"]
      by (metis Suc_lessI lessI mod_less_divisor)
    then show ?thesis using False by (simp add: puncturer_k_rising [OF assms] div_Suc mod_Suc)
  qed
qed

lemma rising_scheme_ok:
  assumes r: "rising_scheme p l" and n: "0 < n" "tetra_puncturer_k p n \<le> m"
  shows "scheme_ok p n m"
proof -
  let ?k = "\<lambda>x. tetra_puncturer_k p (Suc x)"
  note mono = puncturer_k_mono [OF r]
  have "inj_on (tetra_puncturer_k p) {1..n}"
  proof (rule inj_onI)
    fix i j assume "i \<in> {1..n}" "j \<in> {1..n}" "tetra_puncturer_k p i = tetra_puncturer_k p j"
    then show "i = j" using strict_mono_eq [OF mono, of "i - 1" "j - 1"] by auto
  qed
  moreover have "tetra_puncturer_k p j \<le> m" if "1 \<le> j" "j \<le> n" for j
    using strict_mono_less_eq [OF mono, of "j - 1" "n - 1"] that n by auto
  moreover have "1 \<le> tetra_puncturer_k p j" if "1 \<le> j" for j
  proof -
    have "punct_P p ! 0 \<in> set (punct_P p)" using r by (simp add: rising_scheme_def)
    then have "0 < ?k 0" using r by (auto simp: puncturer_k_rising [OF r] rising_scheme_def list_all_iff Suc_le_eq)
    then show ?thesis using strict_mono_less_eq [OF mono, of 0 "j - 1"] that by auto
  qed
  moreover have "{1..<n + 1} = {1..n}" by auto
  ultimately show ?thesis unfolding scheme_ok_def distinct_map list_all_iff set_upt by simp
qed

lemma first_lane_sent:
  assumes r: "rising_scheme p l" and n: "m < tetra_puncturer_k p (Suc n)"
    and y: "y < m" "Suc y \<notin> set (map (tetra_puncturer_k p) [1..<n + 1])"
  shows "y mod l \<noteq> 0"
proof
  assume z: "y mod l = 0"
  let ?t = "punct_t p" and ?x = "y mod punct_period p" and ?q = "y div punct_period p"
  have t: "?t = length (punct_P p)" "0 < ?t" and per: "0 < punct_period p" "l dvd punct_period p"
    using r by (auto simp: rising_scheme_def list_all_iff intro: Suc_le_lessD dest!: hd_in_set)
  have "?x mod l = 0" using z per(2) by (simp add: mod_mod_cancel)
  moreover have "?x < punct_period p" using per(1) by simp
  ultimately have "Suc ?x \<in> set (punct_P p)" using r by (simp add: rising_scheme_def list_all_iff)
  then obtain i where i: "i < ?t" "punct_P p ! i = Suc ?x" using t by (auto simp: in_set_conv_nth)
  define j where "j = ?t * ?q + i"
  have "j div ?t = ?q" "j mod ?t = i" using i(1) by (simp_all add: j_def)
  then have k: "tetra_puncturer_k p (Suc j) = Suc y" using i(2) by (simp add: puncturer_k_rising [OF r])
  then have "j < n" using strict_mono_less [OF puncturer_k_mono [OF r], of j n] n y(1) by auto
  then have "Suc j \<in> set [1..<n + 1]" by (simp del: upt_Suc)
  then show False using y(2) k by (metis image_eqI set_map)
qed

lemma bits_conv_encode_loop: "bits (conv_encode_loop code st us)"
proof (induction us arbitrary: st)
  case (Cons x xs)
  have "parity5 v < 2" for v by (simp add: parity5_def Let_def and_one_eq)
  then show ?case using Cons.IH by (auto simp: Let_def bits_def)
qed (simp add: bits_def)

lemma bits_conv_encode: "bits (conv_encode code us)"
  unfolding conv_encode_def by (rule bits_conv_encode_loop)

text \<open>The SCH/HU block: 112 trellis inputs, rate 2/3, 168 sent bits.\<close>

abbreviation "sch_hu_scheme \<equiv> k_puncturers ! 0"

lemma sch_hu_puncturer: "tetra_puncturer_of TETRA_RCPC_PUNCT_2_3 = Some sch_hu_scheme"
  by (simp add: tetra_puncturer_of_def TETRA_RCPC_PUNCT_2_3_def k_puncturers_def)

lemma sch_hu_rising: "rising_scheme sch_hu_scheme 4"
  by (simp add: rising_scheme_def k_puncturers_def k_p_2_3_def upt_rec)

lemma sch_hu_scheme_ok: "scheme_ok sch_hu_scheme 168 448"
  by (rule rising_scheme_ok [OF sch_hu_rising]) (simp_all add: tetra_puncturer_k_def k_puncturers_def k_p_2_3_def)

lemma sch_hu_next: "448 < tetra_puncturer_k sch_hu_scheme (Suc 168)"
  by (simp add: tetra_puncturer_k_def k_puncturers_def k_p_2_3_def)

lemma sch_hu_interleaver: "distinct (map (\<lambda>i. (13 * i) mod 168) [1..<168 + 1 :: nat])"
proof -
  have inv: "(13 * ((13 * i) mod 168)) mod 168 = i mod 168" for i :: nat
  proof -
    have "(13 * ((13 * i) mod 168)) mod 168 = (13 * (13 * i)) mod 168" by (rule mod_mult_right_eq)
    also have "13 * (13 * i) = i + 168 * i" by simp
    finally show ?thesis by (simp only: mod_mult_self2)
  qed
  have "i = j" if ij: "1 \<le> i" "i \<le> 168" "1 \<le> j" "j \<le> 168" "(13 * i) mod 168 = (13 * j) mod 168" for i j :: nat
  proof -
    have "i mod 168 = j mod 168" using inv [of i] inv [of j] ij(5) by simp
    then show ?thesis using ij(1-4) by (cases "i = 168"; cases "j = 168") simp_all
  qed
  then show ?thesis unfolding distinct_map inj_on_def set_upt by (simp del: upt_Suc)
qed

text \<open>
  C15. The SCH/HU chain is undone by the decoder. A block of 92 type-1 bits, 16 bits that leave the
  CRC remainder and four tail bits, encoded by \<open>conv_encode\<close>, punctured at rate 2/3, interleaved and
  turned into hard costs, decodes to its 92 bits: the Viterbi decoder fills in the punctured bits.
\<close>

theorem sch_hu_roundtrip:
  fixes us :: "nat list"
  assumes us: "length us = 112" "bits us" "drop 108 us = [0, 0, 0, 0]" and crc: "tetra_crc16_ccitt_bits us 108 = TETRA_CRC16_OK"
  defines "type3 \<equiv> the (tetra_rcpc_puncture_by_id TETRA_RCPC_PUNCT_2_3 (conv_encode k_signalling_code us) 448 168)"
  shows "tetra_sch_hu_decode (tetra_hard_bits_to_soft (tetra_block_interleave type3 168 13 (replicate 168 0))) = Some (take 92 us)"
proof -
  note p = sch_hu_puncturer sch_hu_scheme_ok
  let ?m = "conv_encode k_signalling_code us"
  have len: "length type3 = 168" unfolding type3_def using length_puncture [OF p(1), of ?m 448 168] by simp
  let ?soft = "\<lambda>b. if odd b then 65535 else (0 :: nat)"
  let ?sent = "tetra_block_interleave type3 168 13 (replicate 168 0)"
  have deint: "tetra_block_deinterleave_soft (tetra_hard_bits_to_soft ?sent) 168 13 (replicate 168 0) = map ?soft type3"
    using deinterleave_interleave(1) [OF sch_hu_interleaver _ _ len, of ?soft] by (simp add: tetra_hard_bits_to_soft_def)
  define out where "out = the (tetra_rcpc_depuncture_by_id TETRA_RCPC_PUNCT_2_3 (map ?soft type3) (int 168) (int 448))"
  have dep: "tetra_rcpc_depuncture_by_id TETRA_RCPC_PUNCT_2_3 (map ?soft type3) 168 448 = Some out"
    using depuncture_eq [OF p, of "map ?soft type3"] by (simp add: out_def)
  have lo: "length out = 448" unfolding out_def by (rule depuncture_nth(1) [OF p])
  have "signalling.agrees us out"
  proof (rule signalling.agrees_encoded)
    show "length out = length us * lanes k_signalling_code" using lo us by (simp add: k_signalling_code_def)
    fix x assume "x < length out"
    then have x: "x < 448" using lo by simp
    have "out ! x = ?soft (?m ! x) \<or>
        Suc x \<notin> set (map (tetra_puncturer_k sch_hu_scheme) [1..<168 + 1]) \<and> out ! x = TETRA_SOFT_NEUTRAL"
      unfolding out_def using len by (intro depuncture_puncture [OF p x]) (simp add: type3_def)
    moreover have "x mod 4 \<noteq> 0" if "Suc x \<notin> set (map (tetra_puncturer_k sch_hu_scheme) [1..<168 + 1])"
      using first_lane_sent [OF sch_hu_rising sch_hu_next x that] .
    ultimately show "out ! x = (if odd (conv_encode k_signalling_code us ! x) then 65535 else 0) \<or>
        x mod lanes k_signalling_code \<noteq> 0 \<and> out ! x = TETRA_SOFT_NEUTRAL"
      by (auto simp: k_signalling_code_def)
  qed (rule us(2))
  from signalling.viterbi_recovers [OF this us(2)] have "conv_viterbi k_signalling_code out 112 = us"
    using us signalling.tail_state [of "take 108 us"] append_take_drop_id [of 108 us] by (simp add: TETRA_VITERBI_MAX_BITS_def)
  then show ?thesis using us crc by (simp add: tetra_sch_hu_decode_def deint dep tetra_viterbi_decode_soft_def TETRA_VITERBI_MAX_BITS_def)
qed

lemma sch_hu_roundtrip_witness:
  defines "us \<equiv> concat (replicate 30 [1, 0, 0]) @ [1, 0] @ [0, 1, 0, 1, 0, 1, 0, 0, 0, 1, 0, 1, 1, 0, 0, 1] @ [0, 0, 0, 0]"
  shows "tetra_sch_hu_decode (tetra_hard_bits_to_soft (tetra_block_interleave
      (the (tetra_rcpc_puncture_by_id TETRA_RCPC_PUNCT_2_3 (conv_encode k_signalling_code us) 448 168)) 168 13 (replicate 168 0)))
    = Some (concat (replicate 30 [1, 0, 0]) @ [1, 0])"
proof -
  have us: "length us = 112" "drop 108 us = [0, 0, 0, 0]" "take 92 us = concat (replicate 30 [1, 0, 0]) @ [1, 0]"
    by (simp_all add: us_def numeral_eq_Suc)
  have "bits us" unfolding us_def by code_simp
  moreover have "tetra_crc16_ccitt_bits us 108 = TETRA_CRC16_OK" unfolding us_def by code_simp
  ultimately show ?thesis using sch_hu_roundtrip [of us] us by simp
qed

text \<open>A speech block: two parts of one code word, each with its own scheme.\<close>

lemma mother_part:
  assumes p: "tetra_puncturer_of pid = Some p" "rising_scheme p l" "0 < n" "tetra_puncturer_k p n \<le> m" "m < tetra_puncturer_k p (Suc n)"
    and y: "y < m" and cs: "\<And>j. j < n \<Longrightarrow> cs ! j = (if odd (the (tetra_rcpc_puncture_by_id pid mother (int m) (int n)) ! j) then 65535 else 0)"
  defines "out \<equiv> the (tetra_rcpc_depuncture_by_id pid cs (int n) (int m))"
  shows "out ! y = (if odd (mother ! y) then 65535 else 0) \<or> y mod l \<noteq> 0 \<and> out ! y = TETRA_SOFT_NEUTRAL"
  using depuncture_puncture [OF p(1) rising_scheme_ok [OF p(2-4)] y cs] first_lane_sent [OF p(2,5) y] unfolding out_def by blast

text \<open>What the schemes of a layout have to fit.\<close>

definition fits :: "int \<Rightarrow> nat \<Rightarrow> nat \<Rightarrow> bool" where
  "fits pid n m = (case tetra_puncturer_of pid of None \<Rightarrow> False
     | Some p \<Rightarrow> rising_scheme p 3 \<and> 0 < n \<and> tetra_puncturer_k p n \<le> m \<and> m < tetra_puncturer_k p (Suc n))"

definition layout_ok :: "tetra_speech_layout \<Rightarrow> bool" where
  "layout_ok lay \<longleftrightarrow> fits TETRA_RCPC_PUNCT_SPEECH_8_12 (speech_class1_coded lay) (class1 lay * 3) \<and>
     fits (class2_punct lay) (coded lay - class0 lay - speech_class1_coded lay) ((speech_coded_inputs lay - class1 lay) * 3) \<and>
     class0 lay + speech_class1_coded lay \<le> coded lay \<and> speech_coded_inputs lay \<le> TETRA_VITERBI_MAX_BITS"

lemma speech_layouts_ok: "layout_ok k_speech_full" "layout_ok k_speech_half"
  unfolding layout_ok_def fits_def
  by (simp_all add: rising_scheme_def tetra_puncturer_of_def tetra_puncturer_k_def k_puncturers_def k_p_8_12_def k_p_8_18_def
      k_p_8_17_def k_speech_full_def k_speech_half_def speech_class1_coded_def speech_coded_inputs_def TETRA_SPEECH_TAIL_def
      TETRA_RCPC_PUNCT_SPEECH_8_12_def TETRA_RCPC_PUNCT_SPEECH_8_18_def TETRA_RCPC_PUNCT_SPEECH_8_17_def
      TETRA_VITERBI_MAX_BITS_def upt_rec)

lemma fitsE:
  assumes "fits pid n m"
  obtains p where "tetra_puncturer_of pid = Some p" "rising_scheme p 3" "0 < n" "tetra_puncturer_k p n \<le> m" "m < tetra_puncturer_k p (Suc n)"
  using assms by (auto simp: fits_def split: option.splits)

lemma fits_part:
  assumes f: "fits pid n m" and y: "y < m"
    and cs: "\<And>j. j < n \<Longrightarrow> cs ! j = (if odd (the (tetra_rcpc_puncture_by_id pid mother (int m) (int n)) ! j) then 65535 else 0)"
  defines "out \<equiv> the (tetra_rcpc_depuncture_by_id pid cs (int n) (int m))"
  shows "out ! y = (if odd (mother ! y) then 65535 else 0) \<or> y mod 3 \<noteq> 0 \<and> out ! y = TETRA_SOFT_NEUTRAL"
  using f unfolding out_def by (elim fitsE) (rule mother_part [OF _ _ _ _ _ y cs])

lemma fits_lengths:
  assumes "fits pid n m"
  shows "length (the (tetra_rcpc_depuncture_by_id pid cs (int n) (int m))) = m"
    "length (the (tetra_rcpc_puncture_by_id pid mother (int m) (int n))) = n"
    "m \<le> length mother \<Longrightarrow> bits mother \<Longrightarrow> bits (the (tetra_rcpc_puncture_by_id pid mother (int m) (int n)))"
proof -
  from assms obtain p where p: "tetra_puncturer_of pid = Some p" "scheme_ok p n m" by (elim fitsE) (rule that, assumption, rule rising_scheme_ok)
  show "length (the (tetra_rcpc_depuncture_by_id pid cs (int n) (int m))) = m" by (rule depuncture_nth(1) [OF p])
  show l: "length (the (tetra_rcpc_puncture_by_id pid mother (int m) (int n))) = n" by (rule length_puncture [OF p(1)])
  show "bits (the (tetra_rcpc_puncture_by_id pid mother (int m) (int n)))" if b: "m \<le> length mother" "bits mother"
  proof -
    have "the (tetra_rcpc_puncture_by_id pid mother (int m) (int n)) ! x < 2" if "x < n" for x
    proof -
      have "Suc x \<in> set [1..<n + 1]" using that by (simp del: upt_Suc)
      then have k: "1 \<le> tetra_puncturer_k p (Suc x) \<and> tetra_puncturer_k p (Suc x) \<le> m" using p(2) unfolding scheme_ok_def list_all_iff by blast
      have "tetra_puncturer_k p (Suc x) - 1 < length mother" using k b(1) by linarith
      then show ?thesis using puncture_nth [OF p, of "Suc x" mother] that b(2) by (simp add: bits_nth)
    qed
    then show ?thesis unfolding bits_def using l by (metis in_set_conv_nth)
  qed
qed

lemma speech_lanes: "lanes k_speech_code = 3"
  by (simp add: k_speech_code_def)

lemma length_speech_coded:
  assumes "layout_ok lay"
  shows "length (speech_coded lay us) = coded lay - class0 lay"
proof -
  have "fits TETRA_RCPC_PUNCT_SPEECH_8_12 (speech_class1_coded lay) (class1 lay * 3)"
    "fits (class2_punct lay) (coded lay - class0 lay - speech_class1_coded lay) ((speech_coded_inputs lay - class1 lay) * 3)"
    using assms by (simp_all add: layout_ok_def)
  then show ?thesis unfolding speech_coded_def Let_def length_append using assms by (simp only: fits_lengths(2) layout_ok_def) linarith
qed

lemma bits_speech_coded:
  assumes "layout_ok lay" "length us = speech_coded_inputs lay"
  shows "bits (speech_coded lay us)"
proof -
  let ?m = "conv_encode k_speech_code us"
  have l: "length ?m = speech_coded_inputs lay * 3" using assms(2) by (simp add: conv_encode_def speech.length_conv_encode speech_lanes)
  have "class1 lay \<le> speech_coded_inputs lay" by (simp add: speech_coded_inputs_def)
  then have le: "class1 lay * 3 \<le> length ?m" "(speech_coded_inputs lay - class1 lay) * 3 \<le> length (drop (class1 lay * 3) ?m)"
    by (simp_all add: l diff_mult_distrib)
  have "bits ?m" by (rule bits_conv_encode)
  moreover have "bits (drop (class1 lay * 3) ?m)" using bits_conv_encode by (simp add: bits_drop)
  moreover have "fits TETRA_RCPC_PUNCT_SPEECH_8_12 (speech_class1_coded lay) (class1 lay * 3)"
    "fits (class2_punct lay) (coded lay - class0 lay - speech_class1_coded lay) ((speech_coded_inputs lay - class1 lay) * 3)"
    using assms by (simp_all add: layout_ok_def)
  moreover have "take (speech_coded_inputs lay) us = us" using assms(2) by simp
  ultimately show ?thesis using le unfolding speech_coded_def Let_def bits_append by (simp only: fits_lengths(3))
qed

text \<open>The trellis inputs of a clean block come back from the two depunctured parts.\<close>

lemma speech_decode_clean:
  fixes us cls0 :: "nat list"
  assumes lay: "layout_ok lay" and us: "length us = speech_coded_inputs lay" "bits us" "conv_state k_speech_code us = 0"
    and c0: "length cls0 = class0 lay" "bits cls0"
  shows "speech_decode lay (tetra_hard_bits_to_soft (cls0 @ speech_coded lay us)) = cls0 @ us"
proof -
  let ?deint = "tetra_hard_bits_to_soft (cls0 @ speech_coded lay us)" and ?m = "conv_encode k_speech_code us"
  define c1 m1 where "c1 = speech_class1_coded lay" and "m1 = class1 lay * 3"
  define c2 m2 where "c2 = coded lay - class0 lay - c1" and "m2 = (speech_coded_inputs lay - class1 lay) * 3"
  note names = c1_def [symmetric] m1_def [symmetric] c2_def [symmetric] m2_def [symmetric]
  have fits: "fits TETRA_RCPC_PUNCT_SPEECH_8_12 c1 m1" "fits (class2_punct lay) c2 m2" and n: "speech_coded_inputs lay \<le> TETRA_VITERBI_MAX_BITS"
    using lay unfolding layout_ok_def names by blast+
  define s1 where "s1 = the (tetra_rcpc_puncture_by_id TETRA_RCPC_PUNCT_SPEECH_8_12 ?m (int m1) (int c1))"
  define s2 where "s2 = the (tetra_rcpc_puncture_by_id (class2_punct lay) (drop m1 ?m) (int m2) (int c2))"
  have sc: "speech_coded lay us = s1 @ s2"
    using us(1) unfolding speech_coded_def Let_def names s1_def s2_def by simp
  have l1: "length s1 = c1" and l2: "length s2 = c2" unfolding s1_def s2_def using fits_lengths(2) fits by blast+
  define o1 where "o1 = the (tetra_rcpc_depuncture_by_id TETRA_RCPC_PUNCT_SPEECH_8_12 (drop (class0 lay) ?deint) (int c1) (int m1))"
  define o2 where "o2 = the (tetra_rcpc_depuncture_by_id (class2_punct lay) (drop (class0 lay + c1) ?deint) (int c2) (int m2))"
  have lo: "length o1 = m1" "length o2 = m2" unfolding o1_def o2_def using fits_lengths(1) fits by blast+
  have o1: "o1 ! y = (if odd (?m ! y) then 65535 else 0) \<or> y mod 3 \<noteq> 0 \<and> o1 ! y = TETRA_SOFT_NEUTRAL" if "y < m1" for y
    unfolding o1_def by (rule fits_part [OF fits(1) that])
      (simp add: s1_def [symmetric] tetra_hard_bits_to_soft_def sc nth_append c0 l1)
  have o2: "o2 ! y = (if odd (drop m1 ?m ! y) then 65535 else 0) \<or> y mod 3 \<noteq> 0 \<and> o2 ! y = TETRA_SOFT_NEUTRAL" if "y < m2" for y
    unfolding o2_def by (rule fits_part [OF fits(2) that])
      (simp add: s2_def [symmetric] tetra_hard_bits_to_soft_def sc nth_append c0 l1 l2)
  have le: "class1 lay \<le> speech_coded_inputs lay" by (simp add: speech_coded_inputs_def)
  have lm: "length ?m = m1 + m2"
    using us(1) le by (simp add: conv_encode_def speech.length_conv_encode speech_lanes diff_mult_distrib m1_def m2_def)
  have "speech.agrees us (o1 @ o2)"
  proof (rule speech.agrees_encoded [OF us(2)])
    show "length (o1 @ o2) = length us * lanes k_speech_code" using lo us(1) le by (simp add: speech_lanes diff_mult_distrib m1_def m2_def)
    fix x assume x: "x < length (o1 @ o2)"
    show "(o1 @ o2) ! x = (if odd (?m ! x) then 65535 else 0) \<or> x mod lanes k_speech_code \<noteq> 0 \<and> (o1 @ o2) ! x = TETRA_SOFT_NEUTRAL"
    proof (cases "x < m1")
      case True
      then show ?thesis using o1 [OF True] lo by (simp add: nth_append speech_lanes)
    next
      case False
      then obtain y where y: "x = m1 + y" by (metis le_add_diff_inverse not_less)
      then have "y < m2" using x lo by simp
      from o2 [OF this] show ?thesis using lm lo by (simp add: y nth_append speech_lanes m1_def)
    qed
  qed
  from speech.viterbi_recovers [OF this us(2,3)] have v: "conv_viterbi k_speech_code (o1 @ o2) (speech_coded_inputs lay) = us"
    using us(1) n by simp
  have "map (\<lambda>i. if ?deint ! i > TETRA_SOFT_NEUTRAL then 1 else 0) [0..<class0 lay] = cls0"
  proof (rule nth_equalityI)
    fix i assume "i < length (map (\<lambda>i. if ?deint ! i > TETRA_SOFT_NEUTRAL then 1 else (0 :: nat)) [0..<class0 lay])"
    then have i: "i < class0 lay" by simp
    then have "cls0 ! i < 2" using c0 by (simp add: bits_nth)
    then show "map (\<lambda>i. if ?deint ! i > TETRA_SOFT_NEUTRAL then 1 else 0) [0..<class0 lay] ! i = cls0 ! i"
      using i c0(1) by (auto simp: tetra_hard_bits_to_soft_def nth_append TETRA_SOFT_NEUTRAL_def less_2_cases_iff)
  qed (simp add: c0)
  then show ?thesis unfolding speech_decode_def Let_def names o1_def [symmetric] o2_def [symmetric] v by simp
qed

lemma speech_no_mismatch:
  assumes lay: "layout_ok lay" "length us = speech_coded_inputs lay" "length cls0 = class0 lay"
  shows "speech_mismatches lay (tetra_hard_bits_to_soft (cls0 @ speech_coded lay us)) us = 0"
proof -
  let ?d = "tetra_hard_bits_to_soft (cls0 @ speech_coded lay us)" and ?c = "speech_coded lay us"
  have "(if ?d ! (class0 lay + i) > TETRA_SOFT_NEUTRAL then 1 else 0) = ?c ! i" if "i < coded lay - class0 lay" for i
  proof -
    have "?c ! i < 2" using bits_speech_coded [OF lay(1,2)] that by (simp add: bits_nth length_speech_coded [OF lay(1)])
    then show ?thesis using that lay(3) length_speech_coded [OF lay(1)]
      by (auto simp: tetra_hard_bits_to_soft_def TETRA_SOFT_NEUTRAL_def less_2_cases_iff nth_append)
  qed
  then have "fold (\<lambda>i bad. let got = (if ?d ! (class0 lay + i) > TETRA_SOFT_NEUTRAL then 1 else 0)
      in if got \<noteq> ?c ! i then bad + 1 else bad) js (0 :: nat) = 0" if "\<forall>i \<in> set js. i < coded lay - class0 lay" for js
    using that by (induction js) (simp_all add: Let_def)
  then show ?thesis by (simp add: speech_mismatches_def Let_def)
qed

text \<open>
  C16. both speech channels decode what was sent. For class 0 bits and trellis inputs that end in the
  four tail bits, the block that the re-encoding of \<open>speech_mismatches\<close> defines comes back with all
  its type-1 bits, no mismatch, and the CRC verdict of the bits sent.
\<close>

theorem speech_roundtrip:
  fixes cls0 us :: "nat list"
  assumes c0: "length cls0 = class0 lay" "bits cls0"
    and us: "length us = speech_coded_inputs lay" "bits us" "drop (speech_coded_inputs lay - 4) us = [0, 0, 0, 0]"
  defines "sent \<equiv> tetra_hard_bits_to_soft (cls0 @ speech_coded lay us)"
  shows "(lay = k_speech_full \<longrightarrow> tetra_speech_full_decode sent = (cls0 @ take 172 us, speech_full_crc_ok (drop 112 us), 0)) \<and>
    (lay = k_speech_half \<longrightarrow> tetra_speech_half_decode sent = (cls0 @ take 86 us, speech_half_crc_ok (drop 56 us), 0))"
proof -
  have "conv_state k_speech_code (take (speech_coded_inputs lay - 4) us @ [0, 0, 0, 0]) = 0"
    using us(2) by (intro speech.tail_state) simp
  then have st: "conv_state k_speech_code us = 0" using append_take_drop_id [of "speech_coded_inputs lay - 4" us] us(3) by simp
  have decoded: "speech_decode lay sent = cls0 @ us" "speech_mismatches lay sent us = 0" if "layout_ok lay"
    unfolding sent_def using speech_decode_clean [OF that us(1,2) st c0] speech_no_mismatch [OF that us(1) c0(1)] by simp_all
  show ?thesis
  proof (intro conjI impI)
    assume l: "lay = k_speech_full"
    then have c: "length cls0 = 102" "class0 lay = 102" "class1 lay = 112" using c0(1) by (simp_all add: k_speech_full_def)
    then show "tetra_speech_full_decode sent = (cls0 @ take 172 us, speech_full_crc_ok (drop 112 us), 0)"
      using decoded speech_layouts_ok(1) unfolding l tetra_speech_full_decode_def Let_def by simp
  next
    assume l: "lay = k_speech_half"
    then have c: "length cls0 = 51" "class0 lay = 51" "class1 lay = 56" using c0(1) by (simp_all add: k_speech_half_def)
    then show "tetra_speech_half_decode sent = (cls0 @ take 86 us, speech_half_crc_ok (drop 56 us), 0)"
      using decoded speech_layouts_ok(2) unfolding l tetra_speech_half_decode_def Let_def by simp
  qed
qed

lemma speech_full_crc_ok_zero: "speech_full_crc_ok (replicate 72 0)"
proof -
  have "fold (\<lambda>i reg. let feedback = ((reg AND t \<noteq> 0) \<noteq> odd (replicate 72 (0 :: nat) ! i)); reg = push_bit 1 reg AND msk
      in if feedback then reg XOR low else reg) js (0 :: u8) = 0" if "\<forall>i \<in> set js. i < 72" for js t msk low
    using that by (induction js) (simp_all add: Let_def)
  then have "speech_crc (replicate 72 0) 60 7 9 = 0" unfolding speech_crc_def Let_def by simp
  moreover have "\<not> fold (\<lambda>i s. s \<noteq> odd (replicate 72 (0 :: nat) ! i)) js False" if "\<forall>i \<in> set js. i < 72" for js
    using that by (induction js) simp_all
  ultimately show ?thesis unfolding speech_full_crc_ok_def by (simp add: speech_parity_matches_def list_all_iff)
qed

lemma speech_roundtrip_witness:
  "tetra_speech_full_decode (tetra_hard_bits_to_soft (replicate 102 1 @ speech_coded k_speech_full (replicate 180 0 @ [0, 0, 0, 0])))
     = (replicate 102 1 @ replicate 172 0, True, 0)"
proof -
  have "drop 112 (replicate 180 0 @ [0, 0, 0, 0]) = replicate 72 (0 :: nat)"
    using replicate_add [of 68 4 "0 :: nat"] by (simp add: numeral_eq_Suc)
  then have "speech_full_crc_ok (drop 112 (replicate 180 0 @ [0, 0, 0, 0]))" by (simp add: speech_full_crc_ok_zero)
  moreover have "speech_coded_inputs k_speech_full = 184" "class0 k_speech_full = 102"
    by (simp_all add: speech_coded_inputs_def k_speech_full_def TETRA_SPEECH_TAIL_def)
  ultimately show ?thesis using speech_roundtrip [of "replicate 102 1" k_speech_full "replicate 180 0 @ [0, 0, 0, 0]"] by simp
qed

text \<open>
  C14. The Viterbi decoder is a maximum-likelihood decoder and its 32-bit arithmetic is safe. For
  every input of valid length the 16-bit costs give a bit string that returns the encoder to state 0
  and whose soft distance no other such string of that length undercuts; the fallback to another
  state is never taken.
\<close>

theorem viterbi_maximum_likelihood:
  assumes "costs_ok costs" "0 < n" "n \<le> TETRA_VITERBI_MAX_BITS" "length costs = 4 * n"
  shows "\<exists>us. tetra_viterbi_decode_soft costs (int (4 * n)) (int n) = Some us \<and> length us = n \<and> bits us \<and>
    conv_state k_signalling_code us = 0 \<and>
    (\<forall>vs. length vs = n \<longrightarrow> bits vs \<longrightarrow> conv_state k_signalling_code vs = 0 \<longrightarrow>
       soft_distance k_signalling_code costs us \<le> soft_distance k_signalling_code costs vs)"
proof -
  have len: "n * lanes k_signalling_code \<le> length costs" using assms(4) by (simp add: k_signalling_code_def)
  have "tetra_viterbi_decode_soft costs (int (4 * n)) (int n) = Some (conv_viterbi k_signalling_code costs n)"
    using assms by (simp add: tetra_viterbi_decode_soft_def nat_mult_distrib)
  then show ?thesis using signalling.viterbi_optimal [OF assms(1) len assms(3)] by blast
qed

lemma viterbi_maximum_likelihood_witness:
  "\<exists>us. tetra_viterbi_decode_soft (replicate 8 0 @ [0, 65535, 0, 100] @ replicate 8 0) 20 5 = Some us \<and> length us = 5 \<and>
     conv_state k_signalling_code us = 0"
proof -
  let ?c = "replicate 8 0 @ [0, 65535, 0, 100] @ replicate 8 (0 :: nat)"
  have "costs_ok ?c" by (simp add: costs_ok_def)
  from viterbi_maximum_likelihood [OF this, of 5] show ?thesis by (auto simp: TETRA_VITERBI_MAX_BITS_def)
qed

end
