(* ===== verification/Tetra_Rm.thy ===== *)
theory Tetra_Rm
  imports Bit_Words Syndrome_Code
begin

text \<open>
  The shortened (30,14) Reed-Muller code of TETRA access assignments, the last part of
  \<open>src/protocol/tetra/tetra_fec.c\<close>. Words have the widths of the source. The search for an error
  pattern keeps the three nested loops and their early returns; a result is the error word and its
  weight. The distance of the code comes from the locale of systematic codes that \<open>fec.c\<close> uses too.
\<close>

definition RM3014_BITS :: nat where "RM3014_BITS = 30"
definition RM3014_INFO_BITS :: nat where "RM3014_INFO_BITS = 14"

definition k_rm3014_parity :: "u16 list" where
  "k_rm3014_parity =
    [0x9B60, 0x2DE0, 0xFC20, 0xE03C, 0x983A, 0x5436, 0x2C2E,
     0xFFDF, 0x8339, 0x42B5, 0x21AD, 0x1273, 0x096B, 0x04E7]"

definition rm3014_parity :: "u16 \<Rightarrow> u16" where
  "rm3014_parity info =
     fold (\<lambda>i par. if drop_bit (RM3014_INFO_BITS - 1 - i) info AND 1 \<noteq> 0 then par XOR k_rm3014_parity ! i else par)
       [0..<RM3014_INFO_BITS] 0"

definition rm3014_bit_syndrome :: "nat \<Rightarrow> u16" where
  "rm3014_bit_syndrome k = (if k \<ge> 16 then k_rm3014_parity ! (RM3014_BITS - 1 - k) else push_bit k 1)"

definition tetra_rm3014_encode :: "u16 \<Rightarrow> u32" where
  "tetra_rm3014_encode info =
     (let info = info AND (push_bit RM3014_INFO_BITS 1 - 1) in push_bit 16 (ucast info) OR ucast (rm3014_parity info))"

text \<open>A loop over \<open>xs\<close> whose body may return.\<close>

primrec for_each :: "('a \<Rightarrow> 'b option) \<Rightarrow> 'a list \<Rightarrow> 'b option" where
  "for_each body [] = None"
| "for_each body (x # xs) = (case body x of Some r \<Rightarrow> Some r | None \<Rightarrow> for_each body xs)"

definition rm3014_error_for :: "u16 \<Rightarrow> (u32 \<times> nat) option" where
  "rm3014_error_for s =
     for_each (\<lambda>a. let sa = rm3014_bit_syndrome a in
         if sa = s then Some (push_bit a 1, 1)
         else for_each (\<lambda>b. let sab = sa XOR rm3014_bit_syndrome b in
             if sab = s then Some (push_bit a 1 OR push_bit b 1, 2)
             else for_each (\<lambda>c. if sab XOR rm3014_bit_syndrome c = s
                    then Some (push_bit a 1 OR push_bit b 1 OR push_bit c 1, 3) else None)
                  [b + 1..<RM3014_BITS])
           [a + 1..<RM3014_BITS])
       [0..<RM3014_BITS]"

text \<open>The information bits and the number of bits corrected.\<close>

definition tetra_rm3014_decode :: "u32 \<Rightarrow> (u16 \<times> nat) option" where
  "tetra_rm3014_decode received =
     (if drop_bit RM3014_BITS received \<noteq> 0 then None
      else let s = rm3014_parity (ucast (drop_bit 16 received)) XOR ucast (received AND 0xFFFF)
           in case (if s = 0 then Some (0, 0) else rm3014_error_for s) of
                None \<Rightarrow> None
              | Some (error, corrected) \<Rightarrow> Some (ucast (drop_bit 16 (received XOR error)), corrected))"

section \<open>The code as a parity check matrix\<close>

definition rm_matrix :: "nat list" where
  "rm_matrix = map (\<lambda>x. of_bool (bit (rm3014_bit_syndrome (29 - x mod 30)) (15 - x div 30))) [0..<480]"

lemma rm_matrix_nth:
  assumes "i < 16" "j < 30"
  shows "rm_matrix ! (30 * i + j) = of_bool (bit (rm3014_bit_syndrome (29 - j)) (15 - i))"
proof -
  have "30 * i + j < 480" "(30 * i + j) mod 30 = j" "(30 * i + j) div 30 = i" using assms by simp_all
  then show ?thesis by (simp add: rm_matrix_def)
qed

definition rm_columns :: "bool list list" where
  "rm_columns = map (\<lambda>g. map (\<lambda>i. bit g (15 - i)) [0..<16]) k_rm3014_parity"

lemma info_syndrome: "p < 14 \<Longrightarrow> rm3014_bit_syndrome (29 - p) = k_rm3014_parity ! p"
  by (auto simp: rm3014_bit_syndrome_def RM3014_BITS_def)

lemma length_rm_parity: "length k_rm3014_parity = 14"
  by (simp add: k_rm3014_parity_def)

lemma rm_message_columns: "message_columns 30 16 14 rm_matrix = rm_columns"
proof -
  have "message_columns 30 16 14 rm_matrix = map (\<lambda>p. map (\<lambda>i. bit (k_rm3014_parity ! p) (15 - i)) [0..<16]) [0..<14]"
    unfolding message_columns_def by (intro map_cong refl) (simp add: rm_matrix_nth info_syndrome)
  also have "\<dots> = map (\<lambda>g. map (\<lambda>i. bit g (15 - i)) [0..<16]) (map ((!) k_rm3014_parity) [0..<length k_rm3014_parity])"
    by (simp only: map_map comp_def length_rm_parity)
  finally show ?thesis by (simp only: map_nth rm_columns_def)
qed

lemma rm_columns_eq:
  "rm_columns =
    [[True, False, False, True, True, False, True, True, False, True, True, False, False, False, False, False],
     [False, False, True, False, True, True, False, True, True, True, True, False, False, False, False, False],
     [True, True, True, True, True, True, False, False, False, False, True, False, False, False, False, False],
     [True, True, True, False, False, False, False, False, False, False, True, True, True, True, False, False],
     [True, False, False, True, True, False, False, False, False, False, True, True, True, False, True, False],
     [False, True, False, True, False, True, False, False, False, False, True, True, False, True, True, False],
     [False, False, True, False, True, True, False, False, False, False, True, False, True, True, True, False],
     [True, True, True, True, True, True, True, True, True, True, False, True, True, True, True, True],
     [True, False, False, False, False, False, True, True, False, False, True, True, True, False, False, True],
     [False, True, False, False, False, False, True, False, True, False, True, True, False, True, False, True],
     [False, False, True, False, False, False, False, True, True, False, True, False, True, True, False, True],
     [False, False, False, True, False, False, True, False, False, True, True, True, False, False, True, True],
     [False, False, False, False, True, False, False, True, False, True, True, False, True, False, True, True],
     [False, False, False, False, False, True, False, False, True, True, True, False, False, True, True, True]]"
  by (simp add: rm_columns_def k_rm3014_parity_def upt_rec)

lemma rm_distance: "min_distance rm_columns 7"
  unfolding rm_columns_eq by code_simp

lemma rm_identity: "identity_part 30 16 14 rm_matrix"
  unfolding identity_part_def
proof (intro ballI)
  fix i l assume "i \<in> set [0..<16]" "l \<in> set [0..<16]"
  then have il: "i < 16" "l < 16" by simp_all
  then have "rm_matrix ! (30 * i + (14 + l)) = of_bool (bit (rm3014_bit_syndrome (15 - l)) (15 - i))"
    using rm_matrix_nth [of i "14 + l"] by simp
  also have "\<dots> = (if l = i then 1 else 0)"
    using il by (auto simp: rm3014_bit_syndrome_def bit_simps)
  finally show "rm_matrix ! (30 * i + (14 + l)) = (if l = i then 1 else 0)" .
qed

lemma length_rm_matrix: "length rm_matrix = 480"
  by (simp add: rm_matrix_def)

lemma bits_rm_matrix: "bits rm_matrix"
  by (auto simp: rm_matrix_def bits_def)

interpretation rm: systematic_code 30 16 14 rm_matrix 7
  by unfold_locales (simp_all add: rm_message_columns rm_distance rm_identity length_rm_matrix bits_rm_matrix)

section \<open>Syndromes\<close>

text \<open>The syndrome of a 30-bit word: the sum of the syndromes of its bits.\<close>

definition xor_over :: "(nat \<Rightarrow> u16) \<Rightarrow> nat list \<Rightarrow> u16" where
  "xor_over f ks = foldr (\<lambda>k acc. f k XOR acc) ks 0"

definition word_syndrome :: "u32 \<Rightarrow> u16" where
  "word_syndrome w = xor_over (\<lambda>k. if bit w k then rm3014_bit_syndrome k else 0) [0..<30]"

lemma xor_over_simps [simp]:
  "xor_over f [] = 0" "xor_over f (k # ks) = f k XOR xor_over f ks"
  "xor_over f (js @ ks) = xor_over f js XOR xor_over f ks"
  by (induction js) (simp_all add: xor_over_def ac_simps)

lemma xor_over_xor: "xor_over (\<lambda>k. f k XOR g k) ks = xor_over f ks XOR xor_over g ks"
  by (induction ks) (simp_all add: ac_simps xor.left_commute)

lemma xor_over_cong: "(\<And>k. k \<in> set ks \<Longrightarrow> f k = g k) \<Longrightarrow> xor_over f ks = xor_over g ks"
  by (induction ks) simp_all

lemma xor_over_rev: "xor_over f (rev ks) = xor_over f ks"
  by (induction ks) (simp_all add: ac_simps)

lemma xor_over_map: "xor_over f (map h ks) = xor_over (\<lambda>k. f (h k)) ks"
  by (induction ks) simp_all

lemma fold_xor: "fold (\<lambda>i acc. if c i then acc XOR f i else acc) ks x = x XOR xor_over (\<lambda>i. if c i then f i else 0) ks" for f :: "nat \<Rightarrow> u16"
  by (induction ks arbitrary: x) (simp_all add: ac_simps)

lemma bit_xor_over: "bit (xor_over f ks) q \<longleftrightarrow> odd (\<Sum>k\<leftarrow>ks. of_bool (bit (f k) q) :: nat)"
  by (induction ks) (simp_all add: bit_xor_iff)

lemma word_syndrome_xor: "word_syndrome (v XOR w) = word_syndrome v XOR word_syndrome w"
proof -
  have "(if bit (v XOR w) k then rm3014_bit_syndrome k else 0) =
      (if bit v k then rm3014_bit_syndrome k else 0) XOR (if bit w k then rm3014_bit_syndrome k else 0)" for k
    by (simp add: bit_xor_iff)
  then show ?thesis unfolding word_syndrome_def xor_over_xor [symmetric] by simp
qed

lemma low_syndrome: "n \<le> 16 \<Longrightarrow> xor_over (\<lambda>k. if bit w k then push_bit k 1 else 0) [0..<n] = ucast (take_bit n (w :: u32))"
proof (induction n)
  case (Suc n)
  have "ucast (take_bit n w) XOR (if bit w n then push_bit n 1 else 0 :: u16) = ucast (take_bit (Suc n) w)"
    using Suc.prems by (intro bit_word_eqI) (auto simp: bit_simps less_Suc_eq)
  then show ?case using Suc by simp
qed simp

lemma high_syndrome: "xor_over (\<lambda>k. if bit w k then rm3014_bit_syndrome k else 0) [16..<30] = rm3014_parity (ucast (drop_bit 16 (w :: u32)))"
proof -
  have up: "[16..<30] = rev (map (\<lambda>i. 29 - i) [0..<14])" by (simp add: upt_rec)
  show ?thesis unfolding up xor_over_rev xor_over_map rm3014_parity_def fold_xor RM3014_INFO_BITS_def
    by (simp, rule xor_over_cong) (auto simp: rm3014_bit_syndrome_def RM3014_BITS_def and_one_of_bool bit_simps)
qed

lemma syndrome_eq: "rm3014_parity (ucast (drop_bit 16 w)) XOR ucast (w AND 0xFFFF) = word_syndrome w"
proof -
  have up: "[0..<30] = [0..<16] @ [16..<30]" using upt_add_eq_append [of 0 16 14] by simp
  have "xor_over (\<lambda>k. if bit w k then rm3014_bit_syndrome k else 0) [0..<16] = xor_over (\<lambda>k. if bit w k then push_bit k 1 else 0) [0..<16]"
    by (rule xor_over_cong) (simp add: rm3014_bit_syndrome_def)
  also have "\<dots> = ucast (w AND 0xFFFF)" using low_syndrome [of 16 w] by (simp add: take_bit_eq_mask mask_eq_exp_minus_1)
  finally show ?thesis unfolding word_syndrome_def up xor_over_simps(3) high_syndrome by (simp add: ac_simps)
qed

lemma word_syndrome_zero:
  fixes w :: u32
  assumes high: "\<And>k. bit w k \<Longrightarrow> k < 30" and few: "card {k. bit w k} < 7" and zero: "word_syndrome w = 0"
  shows "w = 0"
proof -
  let ?E = "(\<lambda>k. 29 - k) ` {k. bit w k}"
  have mem: "j \<in> ?E \<longleftrightarrow> bit w (29 - j)" if "j < 30" for j
  proof
    assume "j \<in> ?E"
    then obtain k where k: "bit w k" "j = 29 - k" by blast
    then have "29 - j = k" using high [OF k(1)] by simp
    then show "bit w (29 - j)" using k by simp
  next
    assume "bit w (29 - j)"
    moreover have "j = 29 - (29 - j)" using that by simp
    ultimately show "j \<in> ?E" by blast
  qed
  have "{k. bit w k} \<subseteq> {..<30}" using high by blast
  then have fin: "finite {k. bit w k}" by (rule finite_subset) simp
  have "?E = {}"
  proof (rule rm.zero_sum_small)
    show "?E \<subseteq> {..<30}" by auto
    show "card ?E < 7" using card_image_le [OF fin, of "\<lambda>k. 29 - k"] few by simp
    fix i :: nat assume i: "i < 16"
    have "(\<Sum>j<30. if j \<in> ?E then rm_matrix ! (30 * i + j) else 0) =
        (\<Sum>j<30. of_bool (bit (if bit w (29 - j) then rm3014_bit_syndrome (29 - j) else 0) (15 - i)))"
      using i by (intro sum.cong refl) (simp add: rm_matrix_nth mem)
    also have "\<dots> = (\<Sum>k<30. of_bool (bit (if bit w k then rm3014_bit_syndrome k else 0) (15 - i)))"
      by (rule sum.reindex_bij_witness [of _ "\<lambda>k. 29 - k" "\<lambda>j. 29 - j"]) auto
    also have "\<dots> = (\<Sum>k\<leftarrow>[0..<30]. of_bool (bit (if bit w k then rm3014_bit_syndrome k else 0) (15 - i)))"
      by (simp add: interv_sum_list_conv_sum_set_nat atLeast0LessThan)
    finally show "even (\<Sum>j<30. if j \<in> ?E then rm_matrix ! (30 * i + j) else 0)"
      using zero bit_xor_over [of "\<lambda>k. if bit w k then rm3014_bit_syndrome k else 0" "[0..<30]" "15 - i"]
      by (simp add: word_syndrome_def)
  qed
  then show ?thesis by (auto intro: bit_word_eqI)
qed

text \<open>Two words of 30 bits and at most three set bits with one syndrome are equal.\<close>

definition light :: "u32 \<Rightarrow> bool" where
  "light w \<longleftrightarrow> (\<forall>k. bit w k \<longrightarrow> k < 30) \<and> card {k. bit w k} \<le> 3"

lemma syndrome_unique:
  assumes "light v" "light w" "word_syndrome v = word_syndrome w"
  shows "v = w"
proof -
  have fin: "finite {k. bit x k}" for x :: u32 by (rule finite_subset [of _ "{..<32}"]) (auto dest: bit_imp_le_length)
  have "{k. bit (v XOR w) k} \<subseteq> {k. bit v k} \<union> {k. bit w k}" by (auto simp: bit_xor_iff)
  then have "card {k. bit (v XOR w) k} \<le> card ({k. bit v k} \<union> {k. bit w k})" using fin by (intro card_mono) simp_all
  also have "\<dots> \<le> card {k. bit v k} + card {k. bit w k}" by (rule card_Un_le)
  finally have "card {k. bit (v XOR w) k} < 7" using assms(1,2) by (simp add: light_def)
  moreover have "k < 30" if "bit (v XOR w) k" for k using that assms(1,2) by (auto simp: light_def bit_xor_iff)
  ultimately have "v XOR w = 0" using assms(3) by (intro word_syndrome_zero) (simp_all add: word_syndrome_xor)
  then have "(v XOR w) XOR w = w" by simp
  then show ?thesis by (simp add: xor.assoc)
qed

section \<open>The search\<close>

lemma for_each_Some: "for_each body xs = Some r \<Longrightarrow> \<exists>x \<in> set xs. body x = Some r"
  by (induction xs) (auto split: option.splits)

lemma for_each_None: "for_each body xs = None \<longleftrightarrow> (\<forall>x \<in> set xs. body x = None)"
  by (induction xs) (auto split: option.splits)

definition pattern_word :: "nat list \<Rightarrow> u32" where
  "pattern_word ks = foldr (\<lambda>k w. push_bit k 1 OR w) ks 0"

definition pattern_syndrome :: "nat list \<Rightarrow> u16" where
  "pattern_syndrome ks = xor_over rm3014_bit_syndrome ks"

lemma bit_pattern_word: "bit (pattern_word ks) k \<longleftrightarrow> k \<in> set ks \<and> k < 32"
  by (induction ks) (auto simp: pattern_word_def bit_simps)

lemma word_syndrome_single: "k < 30 \<Longrightarrow> word_syndrome (push_bit k 1) = rm3014_bit_syndrome k"
proof -
  assume k: "k < 30"
  then have up: "[0..<30] = [0..<k] @ k # [Suc k..<30]"
    by (metis append_Cons append_Nil less_imp_le_nat upt_add_eq_append upt_conv_Cons le0 le_add_diff_inverse plus_nat.add_0)
  have "xor_over (\<lambda>j. if bit (push_bit k 1 :: u32) j then rm3014_bit_syndrome j else 0) js = 0" if "k \<notin> set js" for js
    using that by (induction js) (auto simp: bit_simps)
  then show ?thesis unfolding word_syndrome_def up using k by (simp add: bit_simps)
qed

lemma pattern_word_syndrome:
  "sorted_wrt (<) ks \<Longrightarrow> \<forall>k \<in> set ks. k < 30 \<Longrightarrow> word_syndrome (pattern_word ks) = pattern_syndrome ks"
proof (induction ks)
  case Nil
  have "xor_over (\<lambda>k. 0) js = 0" for js by (induction js) simp_all
  then show ?case by (simp add: pattern_word_def pattern_syndrome_def word_syndrome_def)
next
  case (Cons k ks)
  have "k \<notin> set ks" using Cons.prems(1) by auto
  then have "pattern_word (k # ks) = push_bit k 1 XOR pattern_word ks"
    by (intro bit_word_eqI) (auto simp: bit_pattern_word bit_simps)
  moreover have "word_syndrome (push_bit k 1) = rm3014_bit_syndrome k" using Cons.prems(2) by (intro word_syndrome_single) simp
  ultimately show ?case using Cons by (simp only: word_syndrome_xor) (simp add: pattern_syndrome_def)
qed

text \<open>The patterns the loops visit: rising positions, at most three.\<close>

definition visited :: "nat list \<Rightarrow> bool" where
  "visited ks \<longleftrightarrow> sorted_wrt (<) ks \<and> (\<forall>k \<in> set ks. k < 30) \<and> ks \<noteq> [] \<and> length ks \<le> 3"

lemma light_visited: "visited ks \<Longrightarrow> light (pattern_word ks) \<and> card {k. bit (pattern_word ks) k} = length ks"
proof -
  assume v: "visited ks"
  then have e: "{k. bit (pattern_word ks) k} = set ks" by (auto simp: bit_pattern_word visited_def)
  have "distinct ks" using v by (simp add: visited_def strict_sorted_iff)
  then have "card (set ks) = length ks" by (rule distinct_card)
  then show ?thesis using v e by (auto simp: light_def visited_def bit_pattern_word)
qed

text \<open>The bodies of the three loops.\<close>

definition third :: "u16 \<Rightarrow> nat \<Rightarrow> nat \<Rightarrow> nat \<Rightarrow> (u32 \<times> nat) option" where
  "third s a b c = (if pattern_syndrome [a, b, c] = s then Some (pattern_word [a, b, c], 3) else None)"

definition second :: "u16 \<Rightarrow> nat \<Rightarrow> nat \<Rightarrow> (u32 \<times> nat) option" where
  "second s a b = (if pattern_syndrome [a, b] = s then Some (pattern_word [a, b], 2) else for_each (third s a b) [b + 1..<30])"

definition first :: "u16 \<Rightarrow> nat \<Rightarrow> (u32 \<times> nat) option" where
  "first s a = (if pattern_syndrome [a] = s then Some (pattern_word [a], 1) else for_each (second s a) [a + 1..<30])"

lemma error_for_eq: "rm3014_error_for s = for_each (first s) [0..<30]"
  unfolding rm3014_error_for_def first_def [abs_def] second_def [abs_def] third_def [abs_def] pattern_syndrome_def pattern_word_def
    RM3014_BITS_def Let_def xor_over_simps foldr.simps comp_def id_def xor.assoc xor.comm_neutral or.right_neutral
  by (rule refl)

lemma error_for_sound:
  assumes "rm3014_error_for s = Some (e, n)"
  shows "\<exists>ks. visited ks \<and> pattern_syndrome ks = s \<and> e = pattern_word ks \<and> n = length ks"
proof -
  let ?ok = "\<lambda>ks. visited ks \<and> pattern_syndrome ks = s \<and> e = pattern_word ks \<and> n = length ks"
  obtain a where a: "a < 30" "first s a = Some (e, n)"
    using assms for_each_Some [of "first s" "[0..<30]"] by (auto simp: error_for_eq simp del: upt.simps)
  then consider "?ok [a]" | "for_each (second s a) [a + 1..<30] = Some (e, n)"
    by (auto simp: first_def visited_def split: if_splits)
  then show ?thesis
  proof cases
    case 2
    then obtain b where b: "a < b" "b < 30" "second s a b = Some (e, n)"
      using for_each_Some [OF 2] by (auto simp: Suc_le_eq simp del: upt.simps)
    then consider "?ok [a, b]" | "for_each (third s a b) [b + 1..<30] = Some (e, n)"
      by (auto simp: second_def visited_def split: if_splits)
    then show ?thesis
    proof cases
      case 2
      then obtain c where "b < c" "c < 30" "third s a b c = Some (e, n)"
        using for_each_Some [OF 2] by (auto simp: Suc_le_eq simp del: upt.simps)
      then have "?ok [a, b, c]" using b by (auto simp: third_def visited_def split: if_splits)
      then show ?thesis by blast
    qed blast
  qed blast
qed

lemma error_for_complete:
  assumes "visited ks"
  shows "rm3014_error_for (pattern_syndrome ks) \<noteq> None"
proof -
  let ?s = "pattern_syndrome ks"
  consider a where "ks = [a]" | a b where "ks = [a, b]" | a b c where "ks = [a, b, c]"
    using assms by (auto simp: visited_def length_Suc_conv le_Suc_eq numeral_3_eq_3)
  then have "\<exists>a < 30. first ?s a \<noteq> None"
  proof cases
    case (1 a)
    then have "first ?s a \<noteq> None" by (simp add: first_def)
    then show ?thesis using 1 assms by (auto simp: visited_def)
  next
    case (2 a b)
    then have "second ?s a b \<noteq> None" "b \<in> set [a + 1..<30]" using assms by (auto simp: second_def visited_def)
    then have "first ?s a \<noteq> None" unfolding first_def using for_each_None [of "second ?s a" "[a + 1..<30]"] by auto
    then show ?thesis using 2 assms by (auto simp: visited_def)
  next
    case (3 a b c)
    then have "third ?s a b c \<noteq> None" "c \<in> set [b + 1..<30]" using assms by (auto simp: third_def visited_def)
    then have "second ?s a b \<noteq> None" unfolding second_def using for_each_None [of "third ?s a b" "[b + 1..<30]"] by auto
    moreover have "b \<in> set [a + 1..<30]" using 3 assms by (auto simp: visited_def)
    ultimately have "first ?s a \<noteq> None" unfolding first_def using for_each_None [of "second ?s a" "[a + 1..<30]"] by auto
    then show ?thesis using 3 assms by (auto simp: visited_def)
  qed
  then obtain a where "a \<in> set [0..<30]" "first ?s a \<noteq> None" by auto
  then have "for_each (first ?s) [0..<30] \<noteq> None" using bspec [OF for_each_None [THEN iffD1]] by metis
  then show ?thesis by (simp only: error_for_eq not_False_eq_True)
qed

section \<open>Correctness of the decoder\<close>

lemma light_pattern:
  assumes "light w" "w \<noteq> 0"
  shows "\<exists>ks. visited ks \<and> w = pattern_word ks"
proof -
  let ?S = "{k. bit w k}"
  have sub: "?S \<subseteq> {..<30}" using assms(1) by (auto simp: light_def)
  then have fin: "finite ?S" by (rule finite_subset) simp
  let ?ks = "sorted_list_of_set ?S"
  have "?S \<noteq> {}" using assms(2) by (auto intro: bit_word_eqI)
  then have "visited ?ks" using sub fin assms(1)
    by (auto simp: visited_def light_def length_sorted_list_of_set)
  moreover have "w = pattern_word ?ks" using fin sub by (intro bit_word_eqI) (auto simp: bit_pattern_word)
  ultimately show ?thesis by blast
qed

lemma low14: "bit (16383 :: 'a::semiring_bit_operations) n \<longleftrightarrow> possible_bit TYPE('a) n \<and> n < 14" if "16383 = (mask 14 :: 'a)"
  unfolding that by (rule bit_mask_iff)

lemma low16: "bit (65535 :: 'a::semiring_bit_operations) n \<longleftrightarrow> possible_bit TYPE('a) n \<and> n < 16" if "65535 = (mask 16 :: 'a)"
  unfolding that by (rule bit_mask_iff)

lemmas low_masks = low14 [where 'a = int, simplified mask_eq_exp_minus_1, simplified]
  low16 [where 'a = int, simplified mask_eq_exp_minus_1, simplified]

text \<open>A parity word has 16 bits.\<close>

lemma word16_high: "16 \<le> n \<Longrightarrow> \<not> bit (w :: u16) n"
  by (auto dest: bit_imp_le_length)

lemma bit_below: "w < 16384 \<Longrightarrow> bit (w :: u16) n \<Longrightarrow> n < 14"
proof -
  assume w: "w < 16384" "bit w n"
  then have "take_bit 14 (unat w) = unat w" by (simp add: word_less_nat_alt take_bit_nat_eq_self_iff)
  moreover have "bit (unat w) n" using w(2) by (simp add: bit_unsigned_iff bit_imp_le_length)
  ultimately show "n < 14" by (metis bit_take_bit_iff)
qed

lemma encode_high: "bit (tetra_rm3014_encode info) k \<Longrightarrow> k < 30"
  by (auto simp: tetra_rm3014_encode_def RM3014_INFO_BITS_def Let_def bit_simps low_masks dest!: bit_imp_le_length)

lemma encode_info: "info < 2 ^ 14 \<Longrightarrow> ucast (drop_bit 16 (tetra_rm3014_encode info)) = info"
  by (rule bit_word_eqI)
    (auto simp: tetra_rm3014_encode_def RM3014_INFO_BITS_def Let_def low_masks bit_simps word16_high dest: bit_below)

lemma encode_syndrome: "word_syndrome (tetra_rm3014_encode info) = 0"
proof -
  let ?i = "info AND (push_bit 14 1 - 1)"
  have "ucast (drop_bit 16 (tetra_rm3014_encode info)) = ?i" "ucast (tetra_rm3014_encode info AND 0xFFFF) = rm3014_parity ?i"
    by (rule bit_word_eqI, auto simp: tetra_rm3014_encode_def RM3014_INFO_BITS_def Let_def low_masks bit_simps word16_high)+
  then show ?thesis unfolding syndrome_eq [symmetric] by simp
qed

lemma decode_eq:
  assumes "\<And>k. bit r k \<Longrightarrow> k < 30"
  shows "tetra_rm3014_decode r = (case (if word_syndrome r = 0 then Some (0, 0) else rm3014_error_for (word_syndrome r)) of
    None \<Rightarrow> None | Some (error, corrected) \<Rightarrow> Some (ucast (drop_bit 16 (r XOR error)), corrected))"
proof -
  have "drop_bit 30 r = 0" using assms by (intro bit_word_eqI) (auto simp: bit_simps)
  then show ?thesis unfolding tetra_rm3014_decode_def syndrome_eq Let_def RM3014_BITS_def by simp
qed

text \<open>
  C17. The Reed-Muller decoder corrects every error of up to three bits. A code word of 14 information
  bits, with any at most three of its 30 bits flipped, decodes to those bits and reports how many
  bits were wrong; the order of the search does not matter.
\<close>

theorem rm3014_corrects:
  assumes i: "info < 2 ^ 14" and e: "light e"
  shows "tetra_rm3014_decode (tetra_rm3014_encode info XOR e) = Some (info, card {k. bit e k})"
proof -
  let ?c = "tetra_rm3014_encode info"
  have s: "word_syndrome (?c XOR e) = word_syndrome e" by (simp add: word_syndrome_xor encode_syndrome)
  have high: "k < 30" if "bit (?c XOR e) k" for k
    using that e encode_high by (auto simp: light_def bit_xor_iff)
  have zero: "word_syndrome (0 :: u32) = 0" using word_syndrome_xor [of 0 0] by simp
  show ?thesis
  proof (cases "e = 0")
    case True
    then show ?thesis using decode_eq [OF high] s zero encode_info [OF i] by simp
  next
    case False
    obtain ks where ks: "visited ks" "e = pattern_word ks" using light_pattern [OF e False] by blast
    then have sk: "word_syndrome e = pattern_syndrome ks" by (simp add: pattern_word_syndrome visited_def)
    have ne: "word_syndrome e \<noteq> 0" using syndrome_unique [OF e, of 0] zero False by (auto simp: light_def)
    obtain e' n where f: "rm3014_error_for (word_syndrome e) = Some (e', n)" using error_for_complete [OF ks(1)] by (auto simp: sk)
    obtain js where js: "visited js" "pattern_syndrome js = word_syndrome e" "e' = pattern_word js" "n = length js"
      using error_for_sound [OF f] by blast
    then have "e' = e" using light_visited [OF js(1)] e by (intro syndrome_unique) (simp_all add: pattern_word_syndrome visited_def)
    moreover have "n = card {k. bit e k}" using light_visited [OF js(1)] js \<open>e' = e\<close> by simp
    ultimately show ?thesis using decode_eq [OF high] s ne f encode_info [OF i] by (simp add: xor.assoc)
  qed
qed

lemma rm3014_corrects_witness:
  "tetra_rm3014_decode (tetra_rm3014_encode 0x1234 XOR pattern_word [0, 17, 29]) = Some (0x1234, 3)"
proof -
  have "visited [0, 17, 29]" by (simp add: visited_def)
  from light_visited [OF this] show ?thesis using rm3014_corrects [where info = "0x1234" and e = "pattern_word [0, 17, 29]"] by simp
qed

end
