(* ===== verification/P25p2_Mac.thy ===== *)
theory P25p2_Mac
  imports Bit_Words "HOL-Library.Monad_Syntax"
begin

text \<open>
  The MAC parser of P25 phase 2, \<open>src/protocol/p25/phase2/p25p2_mac_parse.c\<close>, with the length table of
  \<open>p25p2_mac_tables.c\<close>: how a MAC PDU of 24 octets splits into structures, and which call identity the
  voice structures carry. An octet is a natural number, an offset in the PDU too (it is never
  negative), lengths are integers with \<open>-1\<close> for none. Reading an octet outside the PDU is \<open>None\<close>, so
  that a result \<open>Some\<close> says that every read was inside.
\<close>

section \<open>Lengths of the structures\<close>

text \<open>The tables list their non-zero entries.\<close>

definition mac_table_entry :: "(nat \<times> nat) list \<Rightarrow> nat \<Rightarrow> nat" where
  "mac_table_entry entries opcode = (case map_of entries opcode of Some n \<Rightarrow> n | None \<Rightarrow> 0)"

definition standard_mac_msg_len :: "(nat \<times> nat) list" where
  "standard_mac_msg_len =
    [(0x01, 7), (0x02, 8), (0x03, 7), (0x05, 16), (0x21, 14), (0x22, 15), (0x25, 15), (0x30, 5), (0x31, 7),
     (0x40, 9), (0x41, 7), (0x42, 9), (0x43, 9), (0x44, 9), (0x45, 10), (0x46, 9), (0x48, 10), (0x49, 10),
     (0x4A, 7), (0x4C, 10), (0x52, 8), (0x53, 9), (0x54, 9), (0x55, 7), (0x58, 10), (0x5A, 7), (0x5C, 10),
     (0x5D, 8), (0x5E, 14), (0x5F, 7), (0x60, 9), (0x61, 9), (0x64, 9), (0x67, 9), (0x68, 10), (0x6A, 7),
     (0x6B, 10), (0x6C, 10), (0x6D, 7), (0x6F, 9), (0x70, 9), (0x71, 18), (0x72, 9), (0x73, 9), (0x74, 9),
     (0x75, 9), (0x76, 10), (0x77, 13), (0x78, 9), (0x79, 9), (0x7A, 9), (0x7B, 11), (0x7C, 9), (0x7D, 9),
     (0x88, 5), (0x90, 7), (0xC0, 11), (0xC3, 8), (0xC4, 15), (0xC5, 14), (0xC6, 15), (0xC7, 18), (0xC8, 12),
     (0xC9, 12), (0xCB, 18), (0xCC, 14), (0xCD, 18), (0xCE, 18), (0xCF, 18), (0xD6, 9), (0xD8, 14), (0xD9, 18),
     (0xDA, 11), (0xDB, 18), (0xDC, 14), (0xDE, 18), (0xDF, 11), (0xE0, 18), (0xE4, 17), (0xE5, 14), (0xE8, 16),
     (0xE9, 8), (0xEA, 11), (0xEC, 13), (0xF1, 18), (0xF2, 16), (0xF3, 14), (0xFA, 11), (0xFB, 13), (0xFC, 11),
     (0xFE, 15)]"

definition motorola_mac_msg_len :: "(nat \<times> nat) list" where
  "motorola_mac_msg_len =
    [(0x80, 8), (0x81, 17), (0x83, 7), (0x84, 11), (0x85, 9), (0x89, 17), (0x91, 17), (0x95, 17), (0xA0, 16),
     (0xA3, 11), (0xA4, 13), (0xA5, 11), (0xA6, 11), (0xA7, 11), (0xA8, 10)]"

definition harris_mac_msg_len :: "(nat \<times> nat) list" where
  "harris_mac_msg_len = [(0xA0, 9), (0xAA, 17), (0xAC, 12)]"

definition tait_mac_msg_len :: "(nat \<times> nat) list" where
  "tait_mac_msg_len = [(0xB5, 5)]"

definition base_len_for :: "nat \<Rightarrow> nat" where
  "base_len_for opcode = mac_table_entry standard_mac_msg_len opcode"

definition is_vendor_partition_opcode :: "nat \<Rightarrow> bool" where
  "is_vendor_partition_opcode opcode \<longleftrightarrow> opcode \<ge> 0x80 \<and> opcode \<le> 0xBF"

definition is_known_vendor_mfid :: "nat \<Rightarrow> bool" where
  "is_known_vendor_mfid mfid \<longleftrightarrow> mfid = 0x90 \<or> mfid = 0xA4 \<or> mfid = 0xD8"

definition vendor_len_for :: "nat \<Rightarrow> nat \<Rightarrow> nat" where
  "vendor_len_for mfid opcode =
     (if mfid = 0x90 then mac_table_entry motorola_mac_msg_len opcode
      else if mfid = 0xA4 then mac_table_entry harris_mac_msg_len opcode
      else if mfid = 0xD8 then mac_table_entry tait_mac_msg_len opcode
      else 0)"

definition p25p2_mac_len_for :: "nat \<Rightarrow> nat \<Rightarrow> int" where
  "p25p2_mac_len_for mfid opcode =
     (let vendor = vendor_len_for mfid opcode
      in if vendor \<noteq> 0 then int vendor
         else if is_vendor_partition_opcode opcode \<and> is_known_vendor_mfid mfid then 0
         else int (base_len_for opcode))"

section \<open>Splitting a PDU\<close>

definition P25P2_MAC_MAX_SEGMENTS :: nat where "P25P2_MAC_MAX_SEGMENTS = 3"

record p25p2_mac_segment =
  seg_offset :: nat
  seg_length :: int

record p25p2_mac_result =
  mac_type :: int
  mac_mfid :: nat
  mac_opcode :: nat
  segment_count :: nat
  segments :: "p25p2_mac_segment list"

definition p25p2_mac_octet :: "u64 list \<Rightarrow> nat \<Rightarrow> nat option" where
  "p25p2_mac_octet mac pos = (if pos < 24 then Some (unat (mac ! pos AND 0xFF)) else None)"

definition p25p2_mac_capacity :: "int \<Rightarrow> int" where
  "p25p2_mac_capacity type = (if type = 1 then 19 else 16)"

definition p25p2_clamp_int :: "int \<Rightarrow> int \<Rightarrow> int \<Rightarrow> int" where
  "p25p2_clamp_int value low high = (if value < low then low else if value > high then high else value)"

definition p25p2_mac_guess_len_b :: "int \<Rightarrow> u64 list \<Rightarrow> int \<Rightarrow> int" where
  "p25p2_mac_guess_len_b type mac capacity =
     (let mco = int (unat (mac ! 1 AND 0x3F))
      in if mco \<le> 0 then -1
         else if mac ! 0 = 0 \<and> type \<noteq> 1 then -1
         else p25p2_clamp_int (mco - 1) 0 capacity)"

definition p25p2_mac_positive_len :: "int \<Rightarrow> int" where
  "p25p2_mac_positive_len len = (if len > 0 then len else -1)"

definition p25p2_mac_is_fill_remaining :: "nat \<Rightarrow> bool" where
  "p25p2_mac_is_fill_remaining opcode \<longleftrightarrow> opcode = 0 \<or> (opcode \<ge> 0x80 \<and> opcode \<le> 0xBF)"

definition p25p2_mac_length_coded_tdma_len :: "nat \<Rightarrow> int \<Rightarrow> int" where
  "p25p2_mac_length_coded_tdma_len opcode len =
     (if opcode = 0x08 \<or> opcode = 0x10 then p25p2_mac_positive_len len else -1)"

definition p25p2_mac_motorola_payload_len :: "nat \<Rightarrow> int \<Rightarrow> int" where
  "p25p2_mac_motorola_payload_len opcode len =
     (if opcode \<in> {0x81, 0x82, 0x85, 0x8B, 0x89, 0x8F, 0x91, 0x95} then p25p2_mac_positive_len len
      else if opcode = 0xBF then (if len > 0 then len else 3)
      else -1)"

definition p25p2_mac_harris_payload_len :: "nat \<Rightarrow> int \<Rightarrow> int" where
  "p25p2_mac_harris_payload_len opcode len =
     (let fixed_len = p25p2_mac_len_for 0xA4 opcode
      in if fixed_len > 0 then fixed_len else p25p2_mac_positive_len len)"

definition p25p2_mac_vendor_payload_len :: "nat \<Rightarrow> nat \<Rightarrow> int \<Rightarrow> int" where
  "p25p2_mac_vendor_payload_len mfid opcode len =
     (if mfid = 0x90 then p25p2_mac_motorola_payload_len opcode len
      else if mfid = 0xA4 then p25p2_mac_harris_payload_len opcode len
      else if mfid = 0xD8 then (if opcode \<noteq> 0xB5 then p25p2_mac_positive_len len else -1)
      else -1)"

definition p25p2_mac_payload_len_override :: "u64 list \<Rightarrow> nat \<Rightarrow> int option" where
  "p25p2_mac_payload_len_override mac opcode_pos =
     (if opcode_pos + 2 \<ge> 24 then Some (-1)
      else do {
        opcode \<leftarrow> p25p2_mac_octet mac opcode_pos;
        mfid \<leftarrow> p25p2_mac_octet mac (opcode_pos + 1);
        len_octet \<leftarrow> p25p2_mac_octet mac (opcode_pos + 2);
        let length_coded_tdma_len = p25p2_mac_length_coded_tdma_len opcode (int (mfid AND 0x3F));
        if opcode = 0x11 then Some (2 + 2 * int ((mfid AND 3) + 1))
        else if opcode = 0x12 then Some (2 + 3 * int ((mfid AND 3) + 1))
        else if length_coded_tdma_len \<ge> 0 then Some length_coded_tdma_len
        else if opcode = 0x80 \<and> mfid = 0xAA \<and> len_octet = 0xA4 \<and> opcode_pos + 4 < 24
        then do {
          shifted_len \<leftarrow> p25p2_mac_octet mac (opcode_pos + 3);
          Some (if shifted_len AND 0x3F > 0 then int (shifted_len AND 0x3F) else 17)
        }
        else if opcode \<ge> 0x80 \<and> opcode \<le> 0xBF
        then Some (p25p2_mac_vendor_payload_len mfid opcode (int (len_octet AND 0x3F)))
        else Some (-1)
      })"

text \<open>What is left to try once the length octet of a structure decided nothing.\<close>

definition resolve_by_table :: "int \<Rightarrow> u64 list \<Rightarrow> nat \<Rightarrow> int \<Rightarrow> nat \<Rightarrow> int \<Rightarrow> int" where
  "resolve_by_table type mac offset capacity opcode table_len =
     (if table_len > 0 then table_len
      else let guess = (if offset = 0 then p25p2_mac_guess_len_b type mac capacity else -1)
           in if guess \<ge> 0 then guess
              else if p25p2_mac_is_fill_remaining opcode then capacity - int offset
              else if offset > 0 then capacity - int offset
              else 0)"

definition p25p2_mac_resolve_segment_len :: "int \<Rightarrow> u64 list \<Rightarrow> nat \<Rightarrow> int \<Rightarrow> int option" where
  "p25p2_mac_resolve_segment_len type mac offset capacity =
     (let opcode_pos = 1 + offset
      in if opcode_pos \<ge> 24 \<or> int offset \<ge> capacity then Some 0
         else do {
           opcode \<leftarrow> p25p2_mac_octet mac opcode_pos;
           len \<leftarrow> p25p2_mac_payload_len_override mac opcode_pos;
           if len \<ge> 0 then Some len
           else do {
             table_len \<leftarrow> (if opcode_pos + 1 < 24
               then do {
                 mfid \<leftarrow> p25p2_mac_octet mac (opcode_pos + 1);
                 op \<leftarrow> p25p2_mac_octet mac opcode_pos;
                 Some (p25p2_mac_len_for mfid op)
               }
               else Some len);
             Some (resolve_by_table type mac offset capacity opcode table_len)
           }
         })"

text \<open>The loop over the structures, with the number of segments it may still fill.\<close>

primrec parse_segments_loop :: "nat \<Rightarrow> int \<Rightarrow> u64 list \<Rightarrow> int \<Rightarrow> nat \<Rightarrow> p25p2_mac_result \<Rightarrow> p25p2_mac_result option" where
  "parse_segments_loop 0 type mac capacity offset out = Some out"
| "parse_segments_loop (Suc n) type mac capacity offset out =
     (if \<not> int offset < capacity then Some out
      else do {
        len \<leftarrow> p25p2_mac_resolve_segment_len type mac offset capacity;
        if len \<le> 0 then Some out
        else if offset > 0 \<and> len > capacity - int offset then Some out
        else let out' = out\<lparr>segments := (segments out)[segment_count out := \<lparr>seg_offset = offset, seg_length = len\<rparr>],
                            segment_count := segment_count out + 1\<rparr>
             in if len > capacity - int offset then Some out'
                else parse_segments_loop n type mac capacity (offset + nat len) out'
      })"

definition p25p2_mac_parse_segments :: "int \<Rightarrow> u64 list \<Rightarrow> p25p2_mac_result \<Rightarrow> p25p2_mac_result option" where
  "p25p2_mac_parse_segments type mac out =
     parse_segments_loop P25P2_MAC_MAX_SEGMENTS type mac (p25p2_mac_capacity type) 0 out"

definition p25p2_mac_parse :: "int \<Rightarrow> u64 list \<Rightarrow> p25p2_mac_result option" where
  "p25p2_mac_parse type mac =
     p25p2_mac_parse_segments type mac
       \<lparr>mac_type = type, mac_mfid = unat (mac ! 2) mod 256, mac_opcode = unat (mac ! 1) mod 256, segment_count = 0,
        segments = replicate P25P2_MAC_MAX_SEGMENTS \<lparr>seg_offset = 0, seg_length = 0\<rparr>\<rparr>"

section \<open>The identity of a call\<close>

record p25p2_mac_voice_identity =
  tg :: int
  dst :: int
  src :: int
  is_group :: bool
  svc_bits :: int
  source_optional :: bool

text \<open>Two and three octets as a number, the most significant first.\<close>

definition octets2 :: "u64 list \<Rightarrow> nat \<Rightarrow> int option" where
  "octets2 mac pos = do {
     a \<leftarrow> p25p2_mac_octet mac pos;
     b \<leftarrow> p25p2_mac_octet mac (pos + 1);
     Some (int (push_bit 8 a OR b))
   }"

definition octets3 :: "u64 list \<Rightarrow> nat \<Rightarrow> int option" where
  "octets3 mac pos = do {
     a \<leftarrow> p25p2_mac_octet mac pos;
     b \<leftarrow> p25p2_mac_octet mac (pos + 1);
     c \<leftarrow> p25p2_mac_octet mac (pos + 2);
     Some (int (push_bit 16 a OR push_bit 8 b OR c))
   }"

definition octet1 :: "u64 list \<Rightarrow> nat \<Rightarrow> int option" where
  "octet1 mac pos = map_option int (p25p2_mac_octet mac pos)"

text \<open>The functions below return whether they found an identity, and the identity afterwards.\<close>

definition p25p2_mac_motorola_voice_identity_segment ::
  "u64 list \<Rightarrow> p25p2_mac_segment \<Rightarrow> p25p2_mac_voice_identity \<Rightarrow> (bool \<times> p25p2_mac_voice_identity) option" where
  "p25p2_mac_motorola_voice_identity_segment mac segment out = do {
     let pos = 1 + seg_offset segment;
     opcode \<leftarrow> p25p2_mac_octet mac pos;
     if seg_length segment < 8 then Some (False, out)
     else do {
       mfid \<leftarrow> p25p2_mac_octet mac (pos + 1);
       if mfid \<noteq> 0x90 then Some (False, out)
       else if opcode = 0x80
       then do {
         t \<leftarrow> octets2 mac (pos + 3);
         s \<leftarrow> octets3 mac (pos + 5);
         v \<leftarrow> octet1 mac (pos + 2);
         Some (True, out\<lparr>tg := t, src := s, svc_bits := v, dst := 0, is_group := True, source_optional := False\<rparr>)
       }
       else if opcode = 0xA0 \<and> seg_length segment \<ge> 9
       then do {
         t \<leftarrow> octets2 mac (pos + 4);
         s \<leftarrow> octets3 mac (pos + 6);
         v \<leftarrow> octet1 mac (pos + 3);
         Some (True, out\<lparr>tg := t, src := s, svc_bits := v, dst := 0, is_group := True, source_optional := False\<rparr>)
       }
       else Some (False, out)
     }
   }"

definition p25p2_mac_telephone_voice_identity_segment ::
  "u64 list \<Rightarrow> p25p2_mac_segment \<Rightarrow> p25p2_mac_voice_identity \<Rightarrow> (bool \<times> p25p2_mac_voice_identity) option" where
  "p25p2_mac_telephone_voice_identity_segment mac segment out = do {
     let pos = 1 + seg_offset segment;
     opcode \<leftarrow> p25p2_mac_octet mac pos;
     if opcode \<noteq> 0x03 \<or> seg_length segment < 7 then Some (False, out)
     else do {
       d \<leftarrow> octets3 mac (pos + 4);
       v \<leftarrow> octet1 mac (pos + 1);
       Some (True, out\<lparr>tg := 0, dst := d, src := 0, is_group := False, svc_bits := v, source_optional := True\<rparr>)
     }
   }"

definition p25p2_mac_voice_identity_segment ::
  "u64 list \<Rightarrow> p25p2_mac_segment \<Rightarrow> p25p2_mac_voice_identity \<Rightarrow> (bool \<times> p25p2_mac_voice_identity) option" where
  "p25p2_mac_voice_identity_segment mac segment out = do {
     let pos = 1 + seg_offset segment;
     opcode \<leftarrow> p25p2_mac_octet mac pos;
     if (opcode = 0x01 \<and> seg_length segment \<ge> 7) \<or> (opcode = 0x21 \<and> seg_length segment \<ge> 14)
     then do {
       t \<leftarrow> octets2 mac (pos + 2);
       s \<leftarrow> octets3 mac (pos + 4);
       s \<leftarrow> (if opcode = 0x21 then octets3 mac (pos + 11) else Some s);
       v \<leftarrow> octet1 mac (pos + 1);
       Some (True, out\<lparr>tg := t, dst := 0, src := s, is_group := True, svc_bits := v, source_optional := False\<rparr>)
     }
     else if (opcode = 0x02 \<and> seg_length segment \<ge> 8) \<or> (opcode = 0x22 \<and> seg_length segment \<ge> 15)
     then do {
       d \<leftarrow> octets3 mac (pos + 2);
       s \<leftarrow> octets3 mac (pos + 5);
       s \<leftarrow> (if opcode = 0x22 then octets3 mac (pos + 12) else Some s);
       v \<leftarrow> octet1 mac (pos + 1);
       Some (True, out\<lparr>tg := 0, dst := d, src := s, is_group := False, svc_bits := v, source_optional := False\<rparr>)
     }
     else do {
       (found, out) \<leftarrow> p25p2_mac_telephone_voice_identity_segment mac segment out;
       if found then Some (True, out)
       else do {
         regroup \<leftarrow> (if opcode = 0x90 \<and> seg_length segment \<ge> 7
           then map_option (\<lambda>mfid. mfid \<le> 1) (p25p2_mac_octet mac (pos + 1)) else Some False);
         if regroup
         then do {
           t \<leftarrow> octets2 mac (pos + 2);
           s \<leftarrow> octets3 mac (pos + 4);
           Some (True, out\<lparr>tg := t, dst := 0, src := s, is_group := True, svc_bits := -1, source_optional := False\<rparr>)
         }
         else p25p2_mac_motorola_voice_identity_segment mac segment out
       }
     }
   }"

text \<open>The loop over the segments: the last identity found stays.\<close>

primrec voice_identity_loop ::
  "u64 list \<Rightarrow> p25p2_mac_segment list \<Rightarrow> bool \<times> p25p2_mac_voice_identity \<Rightarrow> (bool \<times> p25p2_mac_voice_identity) option" where
  "voice_identity_loop mac [] st = Some st"
| "voice_identity_loop mac (segment # rest) st = do {
     (hit, out) \<leftarrow> p25p2_mac_voice_identity_segment mac segment (snd st);
     voice_identity_loop mac rest (fst st \<or> hit, out)
   }"

definition p25p2_mac_decode_voice_identity :: "int \<Rightarrow> u64 list \<Rightarrow> (bool \<times> p25p2_mac_voice_identity) option" where
  "p25p2_mac_decode_voice_identity type mac = do {
     result \<leftarrow> p25p2_mac_parse type mac;
     voice_identity_loop mac (take (segment_count result) (segments result))
       (False, \<lparr>tg = 0, dst = 0, src = 0, is_group = True, svc_bits = -1, source_optional = False\<rparr>)
   }"

section \<open>Band plan updates\<close>

record p25p2_iden_update =
  iden :: nat
  chan_type :: nat
  bw_vu :: nat
  bandwidth :: int
  trans_off :: int
  chan_spac :: int
  base_freq :: int

definition p25p2_signed_offset_units :: "bool \<Rightarrow> int \<Rightarrow> int" where
  "p25p2_signed_offset_units sign_bit raw_offset = (if sign_bit then raw_offset else - raw_offset)"

definition p25p2_mac_decode_iden_standard :: "u64 list \<Rightarrow> int \<Rightarrow> p25p2_iden_update option option" where
  "p25p2_mac_decode_iden_standard mac pos =
     (if pos < 0 \<or> pos + 7 \<ge> 24 then Some None
      else do {
        let pos = nat pos;
        b0 \<leftarrow> p25p2_mac_octet mac pos;
        b1 \<leftarrow> p25p2_mac_octet mac (pos + 1);
        b2 \<leftarrow> p25p2_mac_octet mac (pos + 2);
        b3 \<leftarrow> p25p2_mac_octet mac (pos + 3);
        b4 \<leftarrow> p25p2_mac_octet mac (pos + 4);
        b5 \<leftarrow> p25p2_mac_octet mac (pos + 5);
        b6 \<leftarrow> p25p2_mac_octet mac (pos + 6);
        b7 \<leftarrow> p25p2_mac_octet mac (pos + 7);
        let sign_bit = odd (drop_bit 2 b1);
        let tx_raw = int (push_bit 6 (b1 AND 3) OR drop_bit 2 b2);
        Some (Some \<lparr>iden = drop_bit 4 b0 AND 0xF, chan_type = 1, bw_vu = 0,
          bandwidth = int (push_bit 5 (b0 AND 0xF) OR drop_bit 3 (b1 AND 0xF8)),
          trans_off = p25p2_signed_offset_units sign_bit tx_raw,
          chan_spac = int (push_bit 8 (b2 AND 3) OR b3),
          base_freq = int (push_bit 24 b4 OR push_bit 16 b5 OR push_bit 8 b6 OR b7)\<rparr>)
      })"

definition p25p2_mac_decode_iden_vuhf :: "u64 list \<Rightarrow> int \<Rightarrow> p25p2_iden_update option option" where
  "p25p2_mac_decode_iden_vuhf mac pos =
     (if pos < 0 \<or> pos + 7 \<ge> 24 then Some None
      else do {
        let pos = nat pos;
        b0 \<leftarrow> p25p2_mac_octet mac pos;
        b1 \<leftarrow> p25p2_mac_octet mac (pos + 1);
        b2 \<leftarrow> p25p2_mac_octet mac (pos + 2);
        b3 \<leftarrow> p25p2_mac_octet mac (pos + 3);
        b4 \<leftarrow> p25p2_mac_octet mac (pos + 4);
        b5 \<leftarrow> p25p2_mac_octet mac (pos + 5);
        b6 \<leftarrow> p25p2_mac_octet mac (pos + 6);
        b7 \<leftarrow> p25p2_mac_octet mac (pos + 7);
        let sign_bit = odd (drop_bit 7 b1);
        let tx_raw = int (push_bit 6 (b1 AND 0x7F) OR drop_bit 2 b2);
        Some (Some \<lparr>iden = drop_bit 4 b0 AND 0xF, chan_type = 1, bw_vu = b0 AND 0xF,
          bandwidth = 0,
          trans_off = p25p2_signed_offset_units sign_bit tx_raw,
          chan_spac = int (push_bit 8 (b2 AND 3) OR b3),
          base_freq = int (push_bit 24 b4 OR push_bit 16 b5 OR push_bit 8 b6 OR b7)\<rparr>)
      })"

definition p25p2_mac_decode_iden_tdma :: "u64 list \<Rightarrow> int \<Rightarrow> p25p2_iden_update option option" where
  "p25p2_mac_decode_iden_tdma mac pos =
     map_option (map_option (\<lambda>out. out\<lparr>chan_type := bw_vu out AND 0xF, bw_vu := 0\<rparr>))
       (p25p2_mac_decode_iden_vuhf mac pos)"

section \<open>The segments tile the PDU\<close>

text \<open>Successive segments from an offset on: each starts where the one before ended, and every one but a
  lone first segment lies inside the capacity.\<close>

fun tiles :: "int \<Rightarrow> nat \<Rightarrow> p25p2_mac_segment list \<Rightarrow> bool" where
  "tiles capacity pos [] \<longleftrightarrow> True"
| "tiles capacity pos (s # ss) \<longleftrightarrow> seg_offset s = pos \<and> 0 < seg_length s \<and> int pos < capacity
     \<and> ((pos = 0 \<and> ss = []) \<or> int pos + seg_length s \<le> capacity)
     \<and> tiles capacity (pos + nat (seg_length s)) ss"

definition octet_at :: "u64 list \<Rightarrow> nat \<Rightarrow> nat" where
  "octet_at mac pos = unat (mac ! pos AND 0xFF)"

lemma octet_inside: "pos < 24 \<Longrightarrow> p25p2_mac_octet mac pos = Some (octet_at mac pos)"
  by (simp add: p25p2_mac_octet_def octet_at_def)

lemma octet_at_less: "octet_at mac pos < 256"
proof -
  have "x AND 0xFF = take_bit 8 x" for x :: u64
    using take_bit_eq_mask [of 8 x] by (simp add: mask_eq_exp_minus_1)
  then show ?thesis
    using take_bit_nat_less_exp [of 8 "unat (mac ! pos)"] by (simp add: octet_at_def unsigned_take_bit_eq)
qed

lemma resolve_some: "\<exists>len. p25p2_mac_resolve_segment_len type mac pos capacity = Some len"
proof -
  have "\<exists>len. p25p2_mac_payload_len_override mac p = Some len" for p
    by (simp add: p25p2_mac_payload_len_override_def octet_inside Let_def)
  then obtain len where "p25p2_mac_payload_len_override mac (Suc pos) = Some len" by blast
  then show ?thesis by (simp add: p25p2_mac_resolve_segment_len_def octet_inside)
qed

text \<open>The loop leaves the segments it found before it alone and appends a tiling from its offset.\<close>

definition extends :: "int \<Rightarrow> nat \<Rightarrow> nat \<Rightarrow> p25p2_mac_result \<Rightarrow> p25p2_mac_result \<Rightarrow> bool" where
  "extends capacity n pos out r \<longleftrightarrow>
     segment_count out \<le> segment_count r \<and> segment_count r \<le> segment_count out + n
     \<and> length (segments r) = length (segments out)
     \<and> take (segment_count out) (segments r) = take (segment_count out) (segments out)
     \<and> tiles capacity pos (drop (segment_count out) (take (segment_count r) (segments r)))"

lemma extends_refl: "extends capacity n pos out out"
  by (simp add: extends_def)

lemma nth_from_take: "take m xs = take m ys \<Longrightarrow> i < m \<Longrightarrow> xs ! i = ys ! i"
  by (metis nth_take)

lemma extends_segment:
  fixes out :: p25p2_mac_result
  defines "c \<equiv> segment_count out"
  defines "s \<equiv> \<lambda>pos len. \<lparr>seg_offset = pos, seg_length = len\<rparr>"
  assumes ext: "extends capacity n (pos + nat len)
      (out\<lparr>segments := (segments out)[c := s pos len], segment_count := c + 1\<rparr>) r"
    and fits: "0 < len" "int pos < capacity" "c < length (segments out)"
    and last: "segment_count r = c + 1 \<and> pos = 0 \<or> int pos + len \<le> capacity"
  shows "extends capacity (Suc n) pos out r"
proof -
  define out' where "out' = out\<lparr>segments := (segments out)[c := s pos len], segment_count := c + 1\<rparr>"
  have len: "length (segments r) = length (segments out)"
    and keep: "take (Suc c) (segments r) = take (Suc c) ((segments out)[c := s pos len])"
    and count: "Suc c \<le> segment_count r" "segment_count r \<le> c + Suc n"
    and rest: "tiles capacity (pos + nat len) (drop (Suc c) (take (segment_count r) (segments r)))"
    using ext by (auto simp: extends_def)
  have at: "segments r ! c = s pos len"
    using nth_from_take [OF keep, of c] fits by simp
  have before: "take c (segments r) = take c (segments out)"
    using arg_cong [OF keep, of "take c"] by (simp add: min_def)
  have "c < length (take (segment_count r) (segments r))" using count fits len by simp
  then have split: "drop c (take (segment_count r) (segments r))
      = s pos len # drop (Suc c) (take (segment_count r) (segments r))"
    using Cons_nth_drop_Suc [of c "take (segment_count r) (segments r)"] at count by (simp add: nth_take)
  have "tiles capacity pos (drop c (take (segment_count r) (segments r)))"
    unfolding split using rest fits last by (auto simp: s_def)
  then show ?thesis using len before count unfolding extends_def c_def by simp
qed

lemma parse_segments_loop_extends:
  assumes "segment_count out + n \<le> length (segments out)"
  shows "\<exists>r. parse_segments_loop n type mac capacity pos out = Some r \<and> extends capacity n pos out r
    \<and> mac_type r = mac_type out \<and> mac_mfid r = mac_mfid out \<and> mac_opcode r = mac_opcode out"
  using assms
proof (induction n arbitrary: pos out)
  case 0
  then show ?case by (simp add: extends_refl)
next
  case (Suc n)
  obtain len where len: "p25p2_mac_resolve_segment_len type mac pos capacity = Some len"
    using resolve_some by blast
  define c where "c = segment_count out"
  define out' where "out' = out\<lparr>segments := (segments out)[c := \<lparr>seg_offset = pos, seg_length = len\<rparr>],
    segment_count := c + 1\<rparr>"
  have fields: "mac_type out' = mac_type out" "mac_mfid out' = mac_mfid out" "mac_opcode out' = mac_opcode out"
    by (simp_all add: out'_def)
  consider (stop) "\<not> int pos < capacity \<or> len \<le> 0 \<or> (0 < pos \<and> capacity - int pos < len)"
    | (lone) "int pos < capacity" "0 < len" "pos = 0" "capacity - int pos < len"
    | (more) "int pos < capacity" "0 < len" "int pos + len \<le> capacity"
    by linarith
  then show ?case
  proof cases
    case stop
    then show ?thesis using len by (auto simp: extends_refl)
  next
    case lone
    then have "extends capacity (Suc n) pos out out'"
      using extends_segment [where r = out' and n = n and out = out and pos = pos and len = len] extends_refl [of capacity n _ out'] Suc.prems
      by (auto simp: out'_def c_def)
    then show ?thesis using len lone fields by (simp add: out'_def c_def)
  next
    case more
    have "segment_count out' + n \<le> length (segments out')" using Suc.prems by (simp add: out'_def c_def)
    from Suc.IH [OF this, of "pos + nat len"] obtain r where
      r: "parse_segments_loop n type mac capacity (pos + nat len) out' = Some r"
        "extends capacity n (pos + nat len) out' r"
        "mac_type r = mac_type out'" "mac_mfid r = mac_mfid out'" "mac_opcode r = mac_opcode out'"
      by blast
    have "extends capacity (Suc n) pos out r"
      using extends_segment [of capacity n pos len out r] r(2) more Suc.prems by (simp add: out'_def c_def)
    then show ?thesis using len more r fields by (simp add: out'_def c_def Let_def)
  qed
qed

lemma parse_tiles:
  "\<exists>r. p25p2_mac_parse type mac = Some r
     \<and> mac_type r = type \<and> mac_mfid r = unat (mac ! 2) mod 256 \<and> mac_opcode r = unat (mac ! 1) mod 256
     \<and> length (segments r) = P25P2_MAC_MAX_SEGMENTS \<and> segment_count r \<le> P25P2_MAC_MAX_SEGMENTS
     \<and> tiles (p25p2_mac_capacity type) 0 (take (segment_count r) (segments r))"
proof -
  let ?out = "\<lparr>mac_type = type, mac_mfid = unat (mac ! 2) mod 256, mac_opcode = unat (mac ! 1) mod 256,
    segment_count = 0, segments = replicate P25P2_MAC_MAX_SEGMENTS \<lparr>seg_offset = 0, seg_length = 0\<rparr>\<rparr>"
  show ?thesis
    using parse_segments_loop_extends [where out = ?out and n = P25P2_MAC_MAX_SEGMENTS and type = type and mac = mac
        and capacity = "p25p2_mac_capacity type" and pos = 0]
    by (auto simp: p25p2_mac_parse_def p25p2_mac_parse_segments_def extends_def)
qed

text \<open>
  C10. Parsing a PDU reads only the PDU and always returns. What it returns is the header and at most
  three segments, and the segments tile the PDU: each has a positive length, starts where the one
  before ended and lies inside the capacity of the channel, 19 octets on SACCH and 16 on FACCH; only a
  lone first segment may be longer.
\<close>

theorem mac_parse_tiles:
  "\<exists>r. p25p2_mac_parse type mac = Some r
     \<and> mac_type r = type \<and> mac_mfid r = unat (mac ! 2) mod 256 \<and> mac_opcode r = unat (mac ! 1) mod 256
     \<and> length (segments r) = P25P2_MAC_MAX_SEGMENTS \<and> segment_count r \<le> P25P2_MAC_MAX_SEGMENTS
     \<and> tiles (p25p2_mac_capacity type) 0 (take (segment_count r) (segments r))"
  by (rule parse_tiles)

section \<open>The identity is well formed\<close>

text \<open>What the callers rely on: the talkgroup of a group call, or the target of a private one, never both.\<close>

definition good_identity :: "p25p2_mac_voice_identity \<Rightarrow> bool" where
  "good_identity v \<longleftrightarrow> tg v \<in> {0..<2 ^ 16} \<and> src v \<in> {0..<2 ^ 24} \<and> dst v \<in> {0..<2 ^ 24} \<and> svc_bits v \<in> {-1..<2 ^ 8}
     \<and> (if is_group v then dst v = 0 \<and> \<not> source_optional v else tg v = 0)"

text \<open>The last octet of the segment, and how far the longest structure that starts there reads.\<close>

definition reach :: "p25p2_mac_segment \<Rightarrow> bool" where
  "reach s \<longleftrightarrow> seg_offset s = 0 \<or> int (seg_offset s) + seg_length s \<le> 19"

lemma tiles_reach:
  "tiles capacity pos ss \<Longrightarrow> capacity \<le> 19 \<Longrightarrow> s \<in> set ss \<Longrightarrow> 0 < seg_length s \<and> reach s \<and> seg_offset s < 19"
  by (induction capacity pos ss rule: tiles.induct) (auto simp: reach_def)

lemma or_less_nat: "a < 2 ^ n \<Longrightarrow> b < 2 ^ n \<Longrightarrow> a OR b < (2 ^ n :: nat)"
  by (metis take_bit_nat_eq_self take_bit_or take_bit_nat_less_exp)

lemma octets2_inside:
  "pos + 1 < 24 \<Longrightarrow> \<exists>v. octets2 mac pos = Some v \<and> v \<in> {0..<2 ^ 16}"
  using octet_at_less [of mac pos] octet_at_less [of mac "pos + 1"] or_less_nat [of "push_bit 8 (octet_at mac pos)" 16 "octet_at mac (pos + 1)"]
  by (simp add: octets2_def octet_inside push_bit_eq_mult)

lemma octets3_inside:
  "pos + 2 < 24 \<Longrightarrow> \<exists>v. octets3 mac pos = Some v \<and> v \<in> {0..<2 ^ 24}"
  using octet_at_less [of mac pos] octet_at_less [of mac "pos + 1"] octet_at_less [of mac "pos + 2"]
    or_less_nat [of "push_bit 16 (octet_at mac pos)" 24 "push_bit 8 (octet_at mac (pos + 1))"]
    or_less_nat [of "push_bit 16 (octet_at mac pos) OR push_bit 8 (octet_at mac (pos + 1))" 24 "octet_at mac (pos + 2)"]
  by (simp add: octets3_def octet_inside push_bit_eq_mult or.assoc)

lemma octet1_inside:
  "pos < 24 \<Longrightarrow> \<exists>v. octet1 mac pos = Some v \<and> v \<in> {0..<2 ^ 8}"
  using octet_at_less [of mac pos] by (simp add: octet1_def octet_inside)

definition returns_good :: "(bool \<times> p25p2_mac_voice_identity) option \<Rightarrow> bool" where
  "returns_good r \<longleftrightarrow> (case r of None \<Rightarrow> False | Some (_, v) \<Rightarrow> good_identity v)"

lemma returns_good_Some [simp]: "returns_good (Some (b, v)) \<longleftrightarrow> good_identity v"
  by (simp add: returns_good_def)

lemma returns_good_octets2:
  "pos + 1 < 24 \<Longrightarrow> (\<And>v. v \<in> {0..<2 ^ 16} \<Longrightarrow> returns_good (f v)) \<Longrightarrow> returns_good (octets2 mac pos \<bind> f)"
  using octets2_inside [of pos mac] by auto

lemma returns_good_octets3:
  "pos + 2 < 24 \<Longrightarrow> (\<And>v. v \<in> {0..<2 ^ 24} \<Longrightarrow> returns_good (f v)) \<Longrightarrow> returns_good (octets3 mac pos \<bind> f)"
  using octets3_inside [of pos mac] by auto

lemma returns_good_octet1:
  "pos < 24 \<Longrightarrow> (\<And>v. v \<in> {0..<2 ^ 8} \<Longrightarrow> returns_good (f v)) \<Longrightarrow> returns_good (octet1 mac pos \<bind> f)"
  using octet1_inside [of pos mac] by auto

lemma returns_good_octet:
  "pos < 24 \<Longrightarrow> (\<And>v. returns_good (f v)) \<Longrightarrow> returns_good (p25p2_mac_octet mac pos \<bind> f)"
  by (simp add: octet_inside)

lemma returns_good_if:
  "(c \<Longrightarrow> returns_good a) \<Longrightarrow> (\<not> c \<Longrightarrow> returns_good b) \<Longrightarrow> returns_good (if c then a else b)"
  by simp

lemma returns_good_later:
  "(c \<Longrightarrow> pos + 2 < 24) \<Longrightarrow> s \<in> {0..<2 ^ 24} \<Longrightarrow> (\<And>v. v \<in> {0..<2 ^ 24} \<Longrightarrow> returns_good (f v)) \<Longrightarrow>
     returns_good ((if c then octets3 mac pos else Some s) \<bind> f)"
  using octets3_inside [of pos mac] by auto

lemma returns_good_test:
  "(c \<Longrightarrow> pos < 24) \<Longrightarrow> (\<And>b. (b \<Longrightarrow> c) \<Longrightarrow> returns_good (f b)) \<Longrightarrow>
     returns_good ((if c then map_option p (p25p2_mac_octet mac pos) else Some False) \<bind> f)"
  by (simp add: octet_inside)

lemmas returns_good_intros =
  returns_good_octets2 returns_good_octets3 returns_good_octet1 returns_good_octet returns_good_if
  returns_good_later returns_good_test

lemma motorola_good:
  assumes "reach s" "seg_offset s < 19" "good_identity v"
  shows "returns_good (p25p2_mac_motorola_voice_identity_segment mac s v)"
  using assms unfolding p25p2_mac_motorola_voice_identity_segment_def
  by (auto intro!: returns_good_intros simp: reach_def good_identity_def)

lemma telephone_good:
  assumes "reach s" "seg_offset s < 19" "good_identity v"
  shows "returns_good (p25p2_mac_telephone_voice_identity_segment mac s v)"
  using assms unfolding p25p2_mac_telephone_voice_identity_segment_def
  by (auto intro!: returns_good_intros simp: reach_def good_identity_def)

lemma voice_identity_segment_good:
  assumes "reach s" "seg_offset s < 19" "good_identity v"
  shows "returns_good (p25p2_mac_voice_identity_segment mac s v)"
proof -
  obtain hit v' where tel: "p25p2_mac_telephone_voice_identity_segment mac s v = Some (hit, v')" "good_identity v'"
    using telephone_good [OF assms, of mac] by (auto simp: returns_good_def split: option.splits)
  have room: "seg_offset s + k \<le> 19" if "int k \<le> seg_length s" "k \<le> 19" for k
    using assms(1) that by (auto simp: reach_def)
  have "returns_good (p25p2_mac_motorola_voice_identity_segment mac s v')"
    using motorola_good assms(1,2) tel(2) by blast
  then show ?thesis
    using assms tel unfolding p25p2_mac_voice_identity_segment_def
    apply (simp only: Let_def tel(1) bind.bind_lunit prod.case)
    apply (intro returns_good_intros)
    using room [of 7] room [of 8] room [of 14] room [of 15]
    apply (auto simp: good_identity_def octet_inside)
    done
qed

lemma voice_identity_loop_good:
  assumes "\<forall>s\<in>set ss. reach s \<and> seg_offset s < 19" "good_identity v"
  shows "returns_good (voice_identity_loop mac ss (b, v))"
  using assms
proof (induction ss arbitrary: b v)
  case (Cons s ss)
  have "returns_good (p25p2_mac_voice_identity_segment mac s v)"
    using voice_identity_segment_good Cons.prems by simp
  then obtain hit v' where "p25p2_mac_voice_identity_segment mac s v = Some (hit, v')" "good_identity v'"
    by (auto simp: returns_good_def split: option.splits)
  then show ?case using Cons by simp
qed simp

text \<open>
  C2. Decoding the identity of a call reads only the PDU, whatever its octets are, and what it hands
  back is well typed: the talkgroup has 16 bits, source and target 24, the service options eight or are
  absent, a group call has no private target and a private call no talkgroup.
\<close>

theorem voice_identity_typed:
  "\<exists>found v. p25p2_mac_decode_voice_identity type mac = Some (found, v) \<and> good_identity v"
proof -
  obtain r where r: "p25p2_mac_parse type mac = Some r"
      "tiles (p25p2_mac_capacity type) 0 (take (segment_count r) (segments r))"
    using parse_tiles by blast
  have "p25p2_mac_capacity type \<le> 19" by (simp add: p25p2_mac_capacity_def)
  then have "\<forall>s\<in>set (take (segment_count r) (segments r)). reach s \<and> seg_offset s < 19"
    using tiles_reach [OF r(2)] by blast
  then have "returns_good (p25p2_mac_decode_voice_identity type mac)"
    using voice_identity_loop_good by (simp add: p25p2_mac_decode_voice_identity_def r(1) good_identity_def)
  then show ?thesis by (auto simp: returns_good_def split: option.splits)
qed

end
