(* ===== verification/M17_Algorithms.thy ===== *)
theory M17_Algorithms
  imports Golay Bit_Words
begin

text \<open>
  The signal layer of M17, \<open>src/protocol/m17/m17_algorithms.c\<close> with the tables of \<open>m17_tables.c\<close>: the CRC,
  callsigns in base 40, the test sequence and its receiver, the scrambler, packets, the convolutional
  encoder with its puncturing, interleaving and randomizing, the link information channel, and the
  frames of symbols. A bit array is a list of natural numbers; a function that fills an output array
  returns what it writes. The null-pointer guards are left out.
\<close>

section \<open>Cyclic redundancy check\<close>

definition crc16_bit :: "u32 \<Rightarrow> u32" where
  "crc16_bit crc =
     (let crc = push_bit 1 crc
      in if crc AND 0x10000 \<noteq> 0 then (crc XOR 0x5935) AND 0xFFFF else crc)"

definition m17_crc16 :: "u8 list \<Rightarrow> u16" where
  "m17_crc16 inp = ucast (fold (\<lambda>x crc. (crc16_bit ^^ 8) (crc XOR push_bit 8 (ucast x))) inp 0xFFFF AND 0xFFFF)"

section \<open>Callsigns\<close>

definition m17_base40_alphabet :: string where
  "m17_base40_alphabet = '' ABCDEFGHIJKLMNOPQRSTUVWXYZ0123456789-/.''"

text \<open>A C string is a list of characters that ends at its first zero character or at its end.\<close>

primrec callsign_len :: "nat \<Rightarrow> string \<Rightarrow> nat" where
  "callsign_len 0 csd = 0"
| "callsign_len (Suc n) csd =
     (case csd of [] \<Rightarrow> 0 | c # cs \<Rightarrow> if c = CHR 0x00 then 0 else Suc (callsign_len n cs))"

definition m17_callsign_len_max9 :: "string \<Rightarrow> nat" where
  "m17_callsign_len_max9 csd = callsign_len 9 csd"

definition m17_upper_ascii :: "char \<Rightarrow> char" where
  "m17_upper_ascii c =
     (let n = of_char c :: nat
      in if n \<ge> 97 \<and> n \<le> 122 then char_of (n - (97 - 65)) else c)"

definition m17_base40_value :: "char \<Rightarrow> nat" where
  "m17_base40_value c =
     (let uc = m17_upper_ascii c
      in case find (\<lambda>i. uc = m17_base40_alphabet ! i) [0..<40] of Some i \<Rightarrow> i | None \<Rightarrow> 0)"

definition m17_encode_b40_callsign :: "u64 \<Rightarrow> string option \<Rightarrow> u64" where
  "m17_encode_b40_callsign val csd =
     (case csd of
        None \<Rightarrow> val
      | Some s \<Rightarrow>
          if val \<ge> 0xEE6B28000000 then val
          else fold (\<lambda>n v. v * 40 + of_nat (m17_base40_value (s ! (n - 1)))) (rev [1..<m17_callsign_len_max9 s + 1]) val)"

section \<open>The test sequence\<close>

definition M17_PRBS9_MASK :: u16 where "M17_PRBS9_MASK = 0x1FF"
definition M17_PRBS9_LOCK_BITS :: u16 where "M17_PRBS9_LOCK_BITS = 18"
definition M17_PRBS9_RESYNC_WINDOW_BITS :: u16 where "M17_PRBS9_RESYNC_WINDOW_BITS = 128"
definition M17_PRBS9_RESYNC_ERROR_THRESHOLD :: u16 where "M17_PRBS9_RESYNC_ERROR_THRESHOLD = 18"

definition prbs9_feedback :: "u16 \<Rightarrow> u16" where
  "prbs9_feedback state = (drop_bit 8 state XOR drop_bit 4 state) AND 1"

definition m17_prbs9_next_bit :: "u16 \<Rightarrow> u16 \<times> u16" where
  "m17_prbs9_next_bit lfsr =
     (let state = lfsr AND M17_PRBS9_MASK;
          state = (if state = 0 then 1 else state);
          b = prbs9_feedback state
      in (b, (push_bit 1 state OR b) AND M17_PRBS9_MASK))"

primrec m17_prbs9_fill_bits :: "nat \<Rightarrow> u16 \<Rightarrow> u8 list \<times> u16" where
  "m17_prbs9_fill_bits 0 lfsr = ([], lfsr)"
| "m17_prbs9_fill_bits (Suc n) lfsr =
     (case m17_prbs9_next_bit lfsr of (b, lfsr') \<Rightarrow>
        case m17_prbs9_fill_bits n lfsr' of (bs, lfsr'') \<Rightarrow> (ucast b # bs, lfsr''))"

record m17_prbs9_rx_state =
  rx_lfsr :: u16
  lock_count :: u16
  window_bits :: u16
  window_errors :: u16
  total_bits :: u32
  total_errors :: u32
  resync_count :: u32
  locked :: u8

definition m17_prbs9_rx_init :: "u16 \<Rightarrow> m17_prbs9_rx_state" where
  "m17_prbs9_rx_init initial_state =
     (let lfsr = initial_state AND M17_PRBS9_MASK
      in \<lparr>rx_lfsr = (if lfsr = 0 then 1 else lfsr), lock_count = 0, window_bits = 0, window_errors = 0,
          total_bits = 0, total_errors = 0, resync_count = 0, locked = 0\<rparr>)"

text \<open>The branch of a locked receiver, and the one that still looks for the sequence.\<close>

definition rx_push_locked :: "m17_prbs9_rx_state \<Rightarrow> u8 \<Rightarrow> int \<times> m17_prbs9_rx_state" where
  "rx_push_locked rx b =
     (case m17_prbs9_next_bit (rx_lfsr rx) of (expected, lfsr) \<Rightarrow>
        let error = expected \<noteq> ucast b;
            rx = rx\<lparr>rx_lfsr := lfsr, total_bits := total_bits rx + 1, window_bits := window_bits rx + 1\<rparr>;
            rx = (if error then rx\<lparr>total_errors := total_errors rx + 1, window_errors := window_errors rx + 1\<rparr> else rx);
            rx = (if window_bits rx \<ge> M17_PRBS9_RESYNC_WINDOW_BITS
                  then (if window_errors rx > M17_PRBS9_RESYNC_ERROR_THRESHOLD
                        then rx\<lparr>locked := 0, lock_count := 0, resync_count := resync_count rx + 1\<rparr> else rx)
                         \<lparr>window_bits := 0, window_errors := 0\<rparr>
                  else rx)
        in (if error then -1 else 1, rx))"

definition rx_push_searching :: "m17_prbs9_rx_state \<Rightarrow> u8 \<Rightarrow> m17_prbs9_rx_state" where
  "rx_push_searching rx b =
     (let expected = prbs9_feedback (rx_lfsr rx);
          rx = rx\<lparr>lock_count := (if expected = ucast b then lock_count rx + 1 else 0),
                  rx_lfsr := (push_bit 1 (rx_lfsr rx) OR ucast b) AND M17_PRBS9_MASK\<rparr>
      in if lock_count rx \<ge> M17_PRBS9_LOCK_BITS then rx\<lparr>locked := 1, window_bits := 0, window_errors := 0\<rparr> else rx)"

definition m17_prbs9_rx_push_bit :: "m17_prbs9_rx_state \<Rightarrow> u8 \<Rightarrow> int \<times> m17_prbs9_rx_state" where
  "m17_prbs9_rx_push_bit rx b =
     (let b = b AND 1;
          rx = (if rx_lfsr rx = 0 then rx\<lparr>rx_lfsr := 1\<rparr> else rx)
      in if locked rx \<noteq> 0 then rx_push_locked rx b else (0, rx_push_searching rx b))"

section \<open>The scrambler\<close>

definition M17_STREAM_PAYLOAD_BITS :: nat where "M17_STREAM_PAYLOAD_BITS = 128"

definition m17_scrambler_mask_for_subtype :: "nat \<Rightarrow> u32" where
  "m17_scrambler_mask_for_subtype subtype =
     (if subtype = 0 then 0xFF else if subtype = 1 then 0xFFFF else if subtype = 2 then 0xFFFFFF else 0)"

definition m17_scrambler_next_bit :: "nat \<Rightarrow> u32 \<Rightarrow> u8 \<times> u32" where
  "m17_scrambler_next_bit subtype lfsr =
     (let mask = m17_scrambler_mask_for_subtype subtype;
          state = lfsr AND mask
      in if mask = 0 \<or> state = 0 then (0, state)
         else let b = (if subtype = 0 then (drop_bit 7 state XOR drop_bit 5 state XOR drop_bit 4 state XOR drop_bit 3 state) AND 1
                       else if subtype = 1
                       then (drop_bit 15 state XOR drop_bit 14 state XOR drop_bit 12 state XOR drop_bit 3 state) AND 1
                       else if subtype = 2
                       then (drop_bit 23 state XOR drop_bit 22 state XOR drop_bit 21 state XOR drop_bit 16 state) AND 1
                       else 0);
                  state = (push_bit 1 state OR b) AND mask
              in (ucast b, state))"

definition m17_scrambler_advance_state :: "nat \<Rightarrow> u32 \<Rightarrow> nat \<Rightarrow> u32 option" where
  "m17_scrambler_advance_state subtype seed bit_count =
     (let mask = m17_scrambler_mask_for_subtype subtype; state = seed AND mask
      in if mask = 0 \<or> state = 0 then None
         else Some (((\<lambda>s. snd (m17_scrambler_next_bit subtype s)) ^^ bit_count) state))"

primrec scramble_loop :: "nat \<Rightarrow> u8 list \<Rightarrow> u32 \<Rightarrow> u8 list" where
  "scramble_loop subtype [] state = []"
| "scramble_loop subtype (x # xs) state =
     (case m17_scrambler_next_bit subtype state of (b, state') \<Rightarrow>
        ((x XOR b) AND 1) # scramble_loop subtype xs state')"

definition m17_scrambler_apply_bits :: "nat \<Rightarrow> u32 \<Rightarrow> u16 \<Rightarrow> u8 list \<Rightarrow> u8 list option" where
  "m17_scrambler_apply_bits subtype seed frame_number input_bits =
     map_option (scramble_loop subtype input_bits)
       (m17_scrambler_advance_state subtype seed (unat (frame_number AND 0x7FFF) * M17_STREAM_PAYLOAD_BITS))"

definition m17_aes_key_bytes_for_subtype :: "nat \<Rightarrow> nat" where
  "m17_aes_key_bytes_for_subtype subtype =
     (if subtype = 0 then 16 else if subtype = 1 then 24 else if subtype = 2 then 32 else 0)"

definition m17_aes_build_counter :: "u8 list \<Rightarrow> u16 \<Rightarrow> u8 list" where
  "m17_aes_build_counter nonce frame_number =
     (let fn = frame_number AND 0x7FFF
      in take 14 nonce @ [ucast (drop_bit 8 fn AND 0x7F), ucast (fn AND 0xFF)])"

section \<open>Packets\<close>

definition M17_PACKET_CHUNK_BYTES :: nat where "M17_PACKET_CHUNK_BYTES = 25"
definition M17_PACKET_CRC_BYTES :: nat where "M17_PACKET_CRC_BYTES = 2"
definition M17_PACKET_MIN_FRAMES :: nat where "M17_PACKET_MIN_FRAMES = 1"
definition M17_PACKET_MAX_FRAMES :: nat where "M17_PACKET_MAX_FRAMES = 33"
definition M17_PACKET_MAX_APPLICATION_BYTES :: nat where "M17_PACKET_MAX_APPLICATION_BYTES = 823"
definition M17_PACKET_MAX_TOTAL_BYTES :: nat where
  "M17_PACKET_MAX_TOTAL_BYTES = M17_PACKET_MAX_APPLICATION_BYTES + M17_PACKET_CRC_BYTES"
definition M17_PACKET_CHUNK_BITS :: nat where "M17_PACKET_CHUNK_BITS = 200"

text \<open>The number of frames and the bytes in the last one. Nothing here comes near sixteen bits.\<close>

definition m17_packet_frame_count_for_app_bytes :: "nat \<Rightarrow> (nat \<times> nat) option" where
  "m17_packet_frame_count_for_app_bytes app_bytes =
     (if app_bytes > M17_PACKET_MAX_APPLICATION_BYTES then None
      else let total = app_bytes + M17_PACKET_CRC_BYTES;
               frames = (total + M17_PACKET_CHUNK_BYTES - 1) div M17_PACKET_CHUNK_BYTES;
               frames = (if frames < M17_PACKET_MIN_FRAMES then M17_PACKET_MIN_FRAMES else frames)
           in if frames > M17_PACKET_MAX_FRAMES then None
              else let last_bytes = total mod M17_PACKET_CHUNK_BYTES
                   in Some (frames, if last_bytes = 0 then M17_PACKET_CHUNK_BYTES else last_bytes))"

record m17_sms_packet =
  sms_packed :: "u8 list"
  sms_full_bits :: "u8 list"
  sms_app_len :: nat
  sms_frame_count :: nat
  sms_last_frame_bytes :: nat
  sms_crc :: u16

primrec text_len_max :: "nat \<Rightarrow> u8 list \<Rightarrow> nat" where
  "text_len_max 0 txt = 0"
| "text_len_max (Suc n) txt = (case txt of [] \<Rightarrow> 0 | c # cs \<Rightarrow> if c = 0 then 0 else Suc (text_len_max n cs))"

definition m17_packet_prepare_sms_payload :: "u8 list \<Rightarrow> m17_sms_packet option" where
  "m17_packet_prepare_sms_payload txt =
     (let text_len = text_len_max (M17_PACKET_MAX_APPLICATION_BYTES - 2) txt;
          packed = replicate M17_PACKET_MAX_TOTAL_BYTES 0;
          packed = packed[0 := 0x05];
          packed = copy_into packed 1 (take text_len txt);
          app_len = 1 + text_len + 1;
          crc = m17_crc16 (take app_len packed);
          packed = packed[app_len := ucast (drop_bit 8 crc), app_len + 1 := ucast (crc AND 0xFF)]
      in case m17_packet_frame_count_for_app_bytes app_len of
           None \<Rightarrow> None
         | Some (frame_count, last_bytes) \<Rightarrow>
             let padded_bytes = frame_count * M17_PACKET_CHUNK_BYTES
             in Some \<lparr>sms_packed = packed,
                  sms_full_bits = copy_into (replicate (M17_PACKET_MAX_FRAMES * M17_PACKET_CHUNK_BITS) 0) 0
                    (concat (map (\<lambda>byte. map (\<lambda>bit. drop_bit (7 - bit) (packed ! byte) AND 1) [0..<8]) [0..<padded_bytes])),
                  sms_app_len = app_len, sms_frame_count = frame_count, sms_last_frame_bytes = last_bytes, sms_crc = crc\<rparr>)"

definition m17_packet_app_bytes_from_eof :: "nat \<Rightarrow> nat \<Rightarrow> nat option" where
  "m17_packet_app_bytes_from_eof full_frames last_frame_bytes =
     (if full_frames \<ge> M17_PACKET_MAX_FRAMES \<or> last_frame_bytes = 0 \<or> last_frame_bytes > M17_PACKET_CHUNK_BYTES then None
      else let total = full_frames * M17_PACKET_CHUNK_BYTES + last_frame_bytes
           in if total < M17_PACKET_CRC_BYTES then None else Some (total - M17_PACKET_CRC_BYTES))"

definition m17_packet_metadata_byte :: "u8 \<Rightarrow> u8 \<Rightarrow> u8 option" where
  "m17_packet_metadata_byte eof val =
     (let eof = eof AND 1
      in if (eof = 0 \<and> val > 31) \<or> (eof \<noteq> 0 \<and> (val = 0 \<or> val > 25)) then None
         else Some (push_bit 7 eof OR push_bit 2 (val AND 0x1F)))"

definition m17_packet_parse_metadata_byte :: "u8 \<Rightarrow> (u8 \<times> u8) option" where
  "m17_packet_parse_metadata_byte metadata_byte =
     (if metadata_byte AND 3 \<noteq> 0 then None
      else let eof = drop_bit 7 metadata_byte AND 1; val = drop_bit 2 metadata_byte AND 0x1F
           in if eof \<noteq> 0 \<and> (val = 0 \<or> val > 25) then None else Some (eof, val))"

section \<open>Convolution and puncturing\<close>

definition M17_PAYLOAD_BITS :: nat where "M17_PAYLOAD_BITS = 368"

text \<open>The loop of the encoder over the register \<open>d1\<close> to \<open>d4\<close>.\<close>

primrec convolution_loop :: "bit_array \<Rightarrow> nat \<Rightarrow> nat \<Rightarrow> nat \<Rightarrow> nat \<Rightarrow> bit_array" where
  "convolution_loop [] d1 d2 d3 d4 = []"
| "convolution_loop (x # xs) d1 d2 d3 d4 =
     (let d = x AND 1
      in ((d + d3 + d4) AND 1) # ((d + d1 + d2 + d4) AND 1) # convolution_loop xs d d1 d2 d3)"

definition m17_convolution_encode_bits :: "bit_array \<Rightarrow> nat \<Rightarrow> bit_array" where
  "m17_convolution_encode_bits input_bits bit_count = convolution_loop (take bit_count input_bits) 0 0 0 0"

text \<open>Returns the bits kept and how many were read.\<close>

definition m17_puncture_bits :: "bit_array \<Rightarrow> nat \<Rightarrow> nat list \<Rightarrow> nat \<Rightarrow> bit_array \<times> nat" where
  "m17_puncture_bits input_bits input_bits_len puncture_pattern output_capacity =
     (if length puncture_pattern = 0 then ([], 0)
      else fold (\<lambda>i (out, consumed).
             (if puncture_pattern ! (i mod length puncture_pattern) \<noteq> 0 \<and> length out < output_capacity
              then out @ [input_bits ! i AND 1] else out, i + 1))
           [0..<input_bits_len] ([], 0))"

definition m17_puncture_pattern_1 :: "nat list" where
  "m17_puncture_pattern_1 =
    [1, 1, 0, 1, 1, 1, 0, 1, 1, 1, 0, 1, 1, 1, 0, 1, 1, 1, 0, 1, 1, 1, 0, 1, 1, 1, 0, 1, 1, 1, 0,
     1, 1, 1, 0, 1, 1, 1, 0, 1, 1, 1, 0, 1, 1, 1, 0, 1, 1, 1, 0, 1, 1, 1, 0, 1, 1, 1, 0, 1, 1]"

definition m17_puncture_pattern_2 :: "nat list" where
  "m17_puncture_pattern_2 = [1, 1, 1, 1, 1, 1, 1, 1, 1, 1, 1, 0]"

definition m17_puncture_pattern_3 :: "nat list" where
  "m17_puncture_pattern_3 = [1, 1, 1, 1, 1, 1, 1, 0]"

section \<open>Interleaving and randomizing\<close>

definition interleave_index :: "nat \<Rightarrow> nat" where
  "interleave_index i = (45 * i + 92 * i * i) mod M17_PAYLOAD_BITS"

definition m17_interleave_368_bits :: "bit_array \<Rightarrow> bit_array \<Rightarrow> bit_array" where
  "m17_interleave_368_bits input_bits output_bits =
     fold (\<lambda>i out. out[interleave_index i := input_bits ! i AND 1]) [0..<M17_PAYLOAD_BITS] output_bits"

definition m17_deinterleave_368_bits :: "bit_array \<Rightarrow> bit_array \<Rightarrow> bit_array" where
  "m17_deinterleave_368_bits input_bits output_bits =
     fold (\<lambda>i out. out[i := input_bits ! interleave_index i AND 1]) [0..<M17_PAYLOAD_BITS] output_bits"

text \<open>The array has 369 cells and 368 initialisers.\<close>

definition m17_scramble :: "nat list" where
  "m17_scramble =
    [1, 1, 0, 1, 0, 1, 1, 0, 1, 0, 1, 1, 0, 1, 0, 1, 1, 1, 1, 0, 0, 0, 1, 0, 0, 0, 1, 1, 0, 0, 0, 0, 1, 0, 0, 0, 0, 0, 1, 0,
     1, 1, 1, 1, 1, 1, 1, 1, 1, 0, 0, 0, 0, 1, 0, 0, 0, 1, 1, 0, 0, 0, 1, 0, 1, 0, 1, 1, 1, 0, 1, 0, 0, 1, 0, 0, 1, 1, 1, 0,
     1, 0, 0, 1, 0, 1, 1, 0, 1, 0, 0, 1, 0, 0, 0, 0, 1, 1, 0, 1, 1, 0, 0, 0, 1, 0, 0, 1, 1, 0, 0, 0, 1, 1, 0, 1, 1, 1, 0, 1,
     0, 1, 0, 1, 1, 1, 0, 1, 0, 0, 0, 0, 1, 1, 0, 0, 1, 1, 0, 0, 1, 0, 0, 0, 0, 1, 0, 1, 0, 0, 1, 0, 0, 1, 0, 0, 0, 0, 1, 1,
     1, 0, 0, 1, 0, 0, 0, 1, 0, 0, 0, 1, 1, 1, 0, 1, 1, 1, 1, 1, 1, 0, 0, 0, 0, 1, 1, 0, 1, 1, 1, 0, 0, 1, 1, 0, 1, 0, 0, 0,
     0, 0, 1, 0, 1, 1, 1, 1, 0, 0, 1, 1, 0, 1, 0, 1, 1, 1, 0, 1, 1, 0, 1, 0, 0, 0, 0, 1, 0, 1, 0, 0, 1, 1, 1, 0, 1, 0, 1, 0,
     1, 1, 0, 0, 1, 1, 0, 1, 0, 1, 1, 1, 0, 1, 1, 0, 0, 0, 0, 1, 1, 0, 0, 1, 1, 0, 0, 0, 1, 1, 0, 1, 1, 1, 0, 1, 0, 1, 0, 1,
     1, 0, 0, 0, 0, 0, 0, 0, 1, 1, 0, 1, 0, 0, 0, 1, 0, 0, 1, 1, 0, 0, 1, 1, 1, 0, 0, 0, 0, 1, 1, 1, 0, 0, 0, 1, 0, 0, 1, 1,
     0, 1, 0, 1, 0, 1, 1, 1, 0, 0, 0, 1, 1, 0, 0, 0, 0, 0, 1, 0, 1, 1, 0, 1, 0, 0, 1, 0, 1, 0, 0, 1, 0, 1, 1, 1, 1, 0, 0, 0,
     1, 1, 0, 0, 0, 0, 1, 1, 0]"

definition m17_randomize_368_bits :: "bit_array \<Rightarrow> bit_array \<Rightarrow> bit_array" where
  "m17_randomize_368_bits input_bits output_bits =
     fold (\<lambda>i out. out[i := (input_bits ! i XOR m17_scramble ! i) AND 1]) [0..<M17_PAYLOAD_BITS] output_bits"

definition m17_payload_encode_bits :: "bit_array \<Rightarrow> bit_array" where
  "m17_payload_encode_bits decoded_bits =
     m17_randomize_368_bits (m17_interleave_368_bits decoded_bits (replicate M17_PAYLOAD_BITS 0)) (replicate M17_PAYLOAD_BITS 0)"

definition m17_payload_decode_bits :: "bit_array \<Rightarrow> bit_array" where
  "m17_payload_decode_bits randomized_bits =
     m17_deinterleave_368_bits (m17_randomize_368_bits randomized_bits (replicate M17_PAYLOAD_BITS 0)) (replicate M17_PAYLOAD_BITS 0)"

section \<open>The link information channel\<close>

definition M17_LICH_CHUNKS :: nat where "M17_LICH_CHUNKS = 6"
definition M17_LICH_CHUNK_BITS :: nat where "M17_LICH_CHUNK_BITS = 40"
definition M17_LICH_RESERVED_BITS :: nat where "M17_LICH_RESERVED_BITS = 5"
definition M17_LICH_GOLAY_BLOCKS :: nat where "M17_LICH_GOLAY_BLOCKS = 4"
definition M17_LICH_GOLAY_DATA_BITS :: nat where "M17_LICH_GOLAY_DATA_BITS = 12"
definition M17_LICH_GOLAY_CODE_BITS :: nat where "M17_LICH_GOLAY_CODE_BITS = 24"

definition m17_golay24_encode12_bits :: "bit_array \<Rightarrow> bit_array" where
  "m17_golay24_encode12_bits data_bits =
     map (\<lambda>x. x AND 1) (Golay_24_12_encode (map (\<lambda>i. data_bits ! i AND 1) [0..<M17_LICH_GOLAY_DATA_BITS]))"

text \<open>The correction table is the one \<open>Golay_24_12_init\<close> builds. Returns whether the word decoded, and the data.\<close>

definition m17_golay24_decode24_bits :: "bit_array \<Rightarrow> bool \<times> bit_array" where
  "m17_golay24_decode24_bits encoded_bits =
     (case Golay_24_12_decode Golay_24_12_init (map (\<lambda>i. encoded_bits ! i AND 1) [0..<M17_LICH_GOLAY_CODE_BITS]) of
        (ok, rx) \<Rightarrow> (ok, map (\<lambda>i. rx ! i AND 1) [0..<M17_LICH_GOLAY_DATA_BITS]))"

definition m17_lich_build_content :: "bit_array \<Rightarrow> nat \<Rightarrow> bit_array option" where
  "m17_lich_build_content lsf_bits lich_cnt =
     (if lich_cnt \<ge> M17_LICH_CHUNKS then None
      else Some (map (\<lambda>i. lsf_bits ! (lich_cnt * M17_LICH_CHUNK_BITS + i) AND 1) [0..<M17_LICH_CHUNK_BITS]
             @ [drop_bit 2 lich_cnt AND 1, drop_bit 1 lich_cnt AND 1, lich_cnt AND 1]
             @ replicate M17_LICH_RESERVED_BITS 0))"

text \<open>Returns whether the count is a chunk, the count and the reserved field.\<close>

definition m17_lich_parse_content :: "bit_array \<Rightarrow> bool \<times> nat \<times> nat" where
  "m17_lich_parse_content lich_content =
     (let cnt = push_bit 2 (lich_content ! 40 AND 1) OR push_bit 1 (lich_content ! 41 AND 1) OR (lich_content ! 42 AND 1);
          rsv = fold (\<lambda>i rsv. push_bit 1 rsv OR (lich_content ! (43 + i) AND 1)) [0..<M17_LICH_RESERVED_BITS] 0
      in (cnt < M17_LICH_CHUNKS, cnt, rsv))"

definition m17_lich_encode_bits :: "bit_array \<Rightarrow> bit_array" where
  "m17_lich_encode_bits lich_content =
     concat (map (\<lambda>block. m17_golay24_encode12_bits (drop (block * M17_LICH_GOLAY_DATA_BITS) lich_content)) [0..<M17_LICH_GOLAY_BLOCKS])"

definition m17_lich_decode_bits :: "bit_array \<Rightarrow> bool \<times> bit_array" where
  "m17_lich_decode_bits encoded_bits =
     fold (\<lambda>block (ok, lich_content).
             case m17_golay24_decode24_bits (drop (block * M17_LICH_GOLAY_CODE_BITS) encoded_bits) of
               (good, data) \<Rightarrow> (ok \<and> good, lich_content @ data))
       [0..<M17_LICH_GOLAY_BLOCKS] (True, [])"

section \<open>Frames\<close>

definition M17_LSF_TYPE1_FLUSH_BITS :: nat where "M17_LSF_TYPE1_FLUSH_BITS = 244"
definition M17_LSF_TYPE2_BITS :: nat where "M17_LSF_TYPE2_BITS = 488"
definition M17_STREAM_FN_BITS :: nat where "M17_STREAM_FN_BITS = 16"
definition M17_STREAM_TYPE1_FLUSH_BITS :: nat where "M17_STREAM_TYPE1_FLUSH_BITS = 148"
definition M17_STREAM_TYPE2_BITS :: nat where "M17_STREAM_TYPE2_BITS = 296"
definition M17_STREAM_PUNCTURED_BITS :: nat where "M17_STREAM_PUNCTURED_BITS = 272"
definition M17_STREAM_PAYLOAD_HALF_BITS :: nat where "M17_STREAM_PAYLOAD_HALF_BITS = 64"
definition M17_LICH_BITS :: nat where "M17_LICH_BITS = 96"
definition M17_BERT_PAYLOAD_BITS :: nat where "M17_BERT_PAYLOAD_BITS = 197"
definition M17_BERT_FLUSH_BITS :: nat where "M17_BERT_FLUSH_BITS = 4"
definition M17_BERT_TYPE1_FLUSH_BITS :: nat where "M17_BERT_TYPE1_FLUSH_BITS = 201"
definition M17_BERT_TYPE2_BITS :: nat where "M17_BERT_TYPE2_BITS = 402"
definition M17_PACKET_METADATA_BITS :: nat where "M17_PACKET_METADATA_BITS = 6"
definition M17_PACKET_TYPE1_FLUSH_BITS :: nat where "M17_PACKET_TYPE1_FLUSH_BITS = 210"
definition M17_PACKET_TYPE2_BITS :: nat where "M17_PACKET_TYPE2_BITS = 420"

text \<open>The encoders return the randomized frame, the number of bits punctured into it and of those read.\<close>

definition m17_lsf_encode_type1_bits :: "bit_array \<Rightarrow> bit_array \<times> nat \<times> nat" where
  "m17_lsf_encode_type1_bits type1_flush_bits =
     (let encoded = m17_convolution_encode_bits type1_flush_bits M17_LSF_TYPE1_FLUSH_BITS
      in case m17_puncture_bits encoded M17_LSF_TYPE2_BITS m17_puncture_pattern_1 M17_PAYLOAD_BITS of
           (out, consumed) \<Rightarrow>
             (m17_payload_encode_bits (copy_into (replicate M17_PAYLOAD_BITS 0) 0 out), length out, consumed))"

definition m17_stream_build_type1_bits :: "u16 \<Rightarrow> bit_array option \<Rightarrow> bit_array" where
  "m17_stream_build_type1_bits frame_number payload_bits =
     (let out = replicate M17_STREAM_TYPE1_FLUSH_BITS 0;
          out = fold (\<lambda>i out. out[i := unat (drop_bit (M17_STREAM_FN_BITS - 1 - i) frame_number AND 1)]) [0..<M17_STREAM_FN_BITS] out
      in case payload_bits of
           None \<Rightarrow> out
         | Some payload \<Rightarrow>
             fold (\<lambda>i out. out[M17_STREAM_FN_BITS + i := payload ! i AND 1]) [0..<M17_STREAM_PAYLOAD_BITS] out)"

definition m17_stream_parse_type1_bits :: "bit_array \<Rightarrow> u16 \<times> bit_array" where
  "m17_stream_parse_type1_bits type1_bits =
     (fold (\<lambda>i fn. push_bit 1 fn OR of_nat (type1_bits ! i AND 1)) [0..<M17_STREAM_FN_BITS] 0,
      map (\<lambda>i. type1_bits ! (M17_STREAM_FN_BITS + i) AND 1) [0..<M17_STREAM_PAYLOAD_BITS])"

definition m17_stream_next_frame_counter :: "u16 \<Rightarrow> u16" where
  "m17_stream_next_frame_counter frame_counter = (frame_counter + 1) AND 0x7FFF"

definition m17_stream_pack_payload_halves :: "bit_array option \<Rightarrow> bit_array option \<Rightarrow> bit_array" where
  "m17_stream_pack_payload_halves first_half_bits second_half_bits =
     (let half = (\<lambda>h. map (\<lambda>i. case h of Some xs \<Rightarrow> xs ! i AND 1 | None \<Rightarrow> 0) [0..<M17_STREAM_PAYLOAD_HALF_BITS])
      in half first_half_bits @ half second_half_bits)"

definition m17_stream_encode_type1_bits :: "bit_array \<Rightarrow> bit_array" where
  "m17_stream_encode_type1_bits type1_flush_bits =
     fst (m17_puncture_bits (m17_convolution_encode_bits type1_flush_bits M17_STREAM_TYPE1_FLUSH_BITS)
       M17_STREAM_TYPE2_BITS m17_puncture_pattern_2 M17_STREAM_PUNCTURED_BITS)"

definition m17_stream_combine_frame_bits :: "bit_array \<Rightarrow> bit_array \<Rightarrow> bit_array" where
  "m17_stream_combine_frame_bits lich_bits stream_punctured_bits =
     map (\<lambda>i. lich_bits ! i AND 1) [0..<M17_LICH_BITS] @ map (\<lambda>i. stream_punctured_bits ! i AND 1) [0..<M17_STREAM_PUNCTURED_BITS]"

definition m17_bert_encode_type1_bits :: "bit_array \<Rightarrow> bit_array \<times> nat \<times> nat" where
  "m17_bert_encode_type1_bits type1_flush_bits =
     (let encoded = m17_convolution_encode_bits type1_flush_bits M17_BERT_TYPE1_FLUSH_BITS
      in case m17_puncture_bits encoded M17_BERT_TYPE2_BITS m17_puncture_pattern_2 M17_PAYLOAD_BITS of
           (out, consumed) \<Rightarrow>
             (m17_payload_encode_bits (copy_into (replicate M17_PAYLOAD_BITS 0) 0 out), length out, consumed))"

definition m17_packet_build_type1_bits :: "bit_array option \<Rightarrow> u8 \<Rightarrow> bit_array" where
  "m17_packet_build_type1_bits chunk_bits metadata_byte =
     (let out = replicate M17_PACKET_TYPE1_FLUSH_BITS 0;
          out = (case chunk_bits of None \<Rightarrow> out
                 | Some chunk \<Rightarrow> fold (\<lambda>i out. out[i := chunk ! i AND 1]) [0..<M17_PACKET_CHUNK_BITS] out)
      in fold (\<lambda>i out. out[M17_PACKET_CHUNK_BITS + i := unat (drop_bit (7 - i) metadata_byte AND 1)])
           [0..<M17_PACKET_METADATA_BITS] out)"

definition m17_packet_encode_type1_bits :: "bit_array \<Rightarrow> bit_array \<times> nat \<times> nat" where
  "m17_packet_encode_type1_bits type1_flush_bits =
     (let encoded = m17_convolution_encode_bits type1_flush_bits M17_PACKET_TYPE1_FLUSH_BITS
      in case m17_puncture_bits encoded M17_PACKET_TYPE2_BITS m17_puncture_pattern_3 M17_PAYLOAD_BITS of
           (out, consumed) \<Rightarrow>
             (m17_payload_encode_bits (copy_into (replicate M17_PAYLOAD_BITS 0) 0 out), length out, consumed))"

section \<open>Symbols\<close>

definition M17_FRAME_SYMBOLS :: nat where "M17_FRAME_SYMBOLS = 192"
definition M17_SYNC_SYMBOLS :: nat where "M17_SYNC_SYMBOLS = 8"
definition M17_PAYLOAD_SYMBOLS :: nat where "M17_PAYLOAD_SYMBOLS = 184"

definition m17_symbol_from_dibit :: "nat \<Rightarrow> int" where
  "m17_symbol_from_dibit dibit = [1, 3, -1, -3] ! (dibit AND 3)"

definition m17_dibit_from_word_pair :: "u16 \<Rightarrow> nat \<Rightarrow> nat" where
  "m17_dibit_from_word_pair w bit_index =
     (let msb = unat (drop_bit (15 - bit_index) w AND 1); lsb = unat (drop_bit (14 - bit_index) w AND 1)
      in push_bit 1 msb OR lsb)"

definition m17_fill_repeating_16bit_dibits :: "u16 \<Rightarrow> nat list" where
  "m17_fill_repeating_16bit_dibits pattern =
     map (\<lambda>i. m17_dibit_from_word_pair pattern (i * 2 mod 16)) [0..<M17_FRAME_SYMBOLS]"

definition m17_fill_sync_dibits_from_word :: "u16 \<Rightarrow> nat list" where
  "m17_fill_sync_dibits_from_word sync_word = map (\<lambda>i. m17_dibit_from_word_pair sync_word (i * 2)) [0..<M17_SYNC_SYMBOLS]"

definition m17_frame_build_dibits :: "u16 \<Rightarrow> bit_array \<Rightarrow> nat list" where
  "m17_frame_build_dibits sync_word randomized_bits =
     m17_fill_sync_dibits_from_word sync_word
     @ map (\<lambda>i. push_bit 1 (randomized_bits ! (i * 2) AND 1) OR (randomized_bits ! (i * 2 + 1) AND 1)) [0..<M17_PAYLOAD_SYMBOLS]"

end
