(* ===== verification/M17_Parse.thy ===== *)
theory M17_Parse
  imports M17_Algorithms Bit_Packing Complex_Main
begin

text \<open>
  The parsers of M17, \<open>src/protocol/m17/m17_parse.c\<close>: addresses, the link setup frame, metadata and its
  text blocks, the stream signature, positions and packet protocol identifiers. A parser returns
  \<open>Inl\<close> its negative code or \<open>Inr\<close> the result. A buffer of text is the list of the bytes before its
  terminator; the degrees, metres and speeds of a position, floating point in the source, are rational.
\<close>

section \<open>Labels and counters\<close>

definition m17_packet_protocol_labels :: "(u32 \<times> string) list" where
  "m17_packet_protocol_labels =
    [(0x00, ''Raw''), (0x01, ''AX.25''), (0x02, ''APRS''), (0x03, ''6LoWPAN''), (0x04, ''IPv4''), (0x05, ''SMS''),
     (0x06, ''Winlink''), (0x07, ''TLE''), (0x69, ''OTA Key Delivery''), (0x80, ''Meta Text Data V2''),
     (0x81, ''Meta GNSS Position Data''), (0x82, ''Meta Extended CSD''), (0x83, ''Meta Text Data V3''),
     (0x89, ''1600 Arbitrary Data''), (0x91, ''PDU GNSS Position Data''), (0x99, ''1600 Arbitrary Data'')]"

definition m17_packet_protocol_name_u32 :: "u32 \<Rightarrow> string option" where
  "m17_packet_protocol_name_u32 protocol = map_of m17_packet_protocol_labels protocol"

definition m17_stream_signature_frame_index :: "u16 \<Rightarrow> int" where
  "m17_stream_signature_frame_index frame_number =
     (if frame_number = 0x7FFC then 0 else if frame_number = 0x7FFD then 1
      else if frame_number = 0x7FFE then 2 else if frame_number = 0xFFFF then 3 else -1)"

section \<open>The stream signature\<close>

definition M17_SIGNATURE_DIGEST_BYTES :: nat where "M17_SIGNATURE_DIGEST_BYTES = 16"

definition m17_signature_digest_update :: "u8 list \<Rightarrow> u8 list \<Rightarrow> u8 list" where
  "m17_signature_digest_update digest payload =
     (let digest = fold (\<lambda>i d. d[i := d ! i XOR payload ! i]) [0..<M17_SIGNATURE_DIGEST_BYTES] digest;
          first = digest ! 0;
          digest = copy_into digest 0 (take (M17_SIGNATURE_DIGEST_BYTES - 1) (drop 1 digest))
      in digest[M17_SIGNATURE_DIGEST_BYTES - 1 := first])"

record m17_signature_collector =
  signature :: "u8 list"
  received_mask :: u8
  sig_complete :: bool
  bad_sequence :: bool

definition m17_signature_collector_push ::
  "m17_signature_collector \<Rightarrow> u16 \<Rightarrow> u8 list \<Rightarrow> int \<times> m17_signature_collector" where
  "m17_signature_collector_push collector frame_number payload =
     (let index = m17_stream_signature_frame_index frame_number
      in if index < 0 \<or> index > 3 then (-2, collector)
         else let i = nat index;
                  c = (if i > 0 \<and> received_mask collector AND push_bit (i - 1) 1 = 0
                       then collector\<lparr>bad_sequence := True\<rparr> else collector);
                  c = c\<lparr>signature := copy_into (signature c) (i * M17_SIGNATURE_DIGEST_BYTES) (take M17_SIGNATURE_DIGEST_BYTES payload),
                        received_mask := received_mask c OR push_bit i 1\<rparr>
              in if i = 3 \<and> received_mask c = 0x0F then (1, c\<lparr>sig_complete := True\<rparr>)
                 else (if bad_sequence c then -3 else 0, c))"

definition m17_stream_1600_arbitrary_assemble :: "u8 list \<Rightarrow> u16 \<Rightarrow> u8 list \<Rightarrow> u8 list option \<times> u8 list" where
  "m17_stream_1600_arbitrary_assemble accumulator frame_number chunk =
     (let slot = unat frame_number mod 6;
          accumulator = copy_into accumulator (slot * 8) (take 8 chunk)
      in if slot \<noteq> 5 then (None, accumulator) else (Some (0x99 # take 48 accumulator), replicate 48 0))"

section \<open>Text in the metadata\<close>

definition M17_META_BYTES :: nat where "M17_META_BYTES = 14"
definition M17_TEXT_BLOCK_BYTES :: nat where "M17_TEXT_BLOCK_BYTES = 13"
definition M17_TEXT_MAX_BLOCKS :: nat where "M17_TEXT_MAX_BLOCKS = 4"
definition M17_TEXT_MAX_BYTES :: nat where "M17_TEXT_MAX_BYTES = M17_TEXT_BLOCK_BYTES * M17_TEXT_MAX_BLOCKS"

definition m17_meta_text_v2_bitmap_len :: "u8 \<Rightarrow> nat" where
  "m17_meta_text_v2_bitmap_len bitmap =
     (if bitmap = 1 then 1 else if bitmap = 3 then 2 else if bitmap = 7 then 3 else if bitmap = 0xF then 4 else 0)"

definition m17_meta_text_v2_bitmap_segment :: "u8 \<Rightarrow> nat" where
  "m17_meta_text_v2_bitmap_segment bitmap =
     (if bitmap = 1 then 0 else if bitmap = 2 then 1 else if bitmap = 4 then 2 else if bitmap = 8 then 3 else 0xFF)"

definition m17_meta_text_v2_bitmap_for_index :: "nat \<Rightarrow> u8" where
  "m17_meta_text_v2_bitmap_for_index block_index = push_bit block_index 1"

text \<open>Number and length of a segment.\<close>

definition m17_meta_text_segment_info :: "u8 \<Rightarrow> u8 \<Rightarrow> int + (nat \<times> nat)" where
  "m17_meta_text_segment_info protocol control =
     (if protocol = 0x80
      then if control = 0 then Inr (0, 0)
           else let len = m17_meta_text_v2_bitmap_len (drop_bit 4 control);
                    index = m17_meta_text_v2_bitmap_segment (control AND 0xF)
                in if len = 0 \<or> index = 0xFF \<or> index \<ge> len then Inl (-3) else Inr (index + 1, len)
      else if protocol = 0x83 then Inr (unat (control AND 0xF), unat (drop_bit 4 control AND 0xF))
      else Inl (-2))"

record m17_meta_text_block =
  has_text :: bool
  total_blocks :: nat
  block_index :: nat
  length_bitmap :: u8
  block_bitmap :: u8
  block_text :: "u8 list"

definition empty_text_block :: m17_meta_text_block where
  "empty_text_block =
     \<lparr>has_text = False, total_blocks = 0, block_index = 0, length_bitmap = 0, block_bitmap = 0,
      block_text = replicate M17_TEXT_BLOCK_BYTES 0\<rparr>"

definition m17_meta_text_parse_block :: "u8 list \<Rightarrow> int + m17_meta_text_block" where
  "m17_meta_text_parse_block meta =
     (if meta ! 0 = 0 then Inr empty_text_block
      else let lb = drop_bit 4 (meta ! 0); bb = meta ! 0 AND 0xF;
               blocks = m17_meta_text_v2_bitmap_len lb; index = m17_meta_text_v2_bitmap_segment bb
           in if blocks = 0 \<or> index = 0xFF \<or> index \<ge> blocks then Inl (-2)
              else Inr \<lparr>has_text = True, total_blocks = blocks, block_index = index, length_bitmap = lb, block_bitmap = bb,
                        block_text = take M17_TEXT_BLOCK_BYTES (drop 1 meta)\<rparr>)"

record m17_meta_text_assembler =
  control_or :: u8
  expected_bitmap :: u8
  received_bitmap :: u8
  asm_text :: "u8 list"

definition empty_assembler :: m17_meta_text_assembler where
  "empty_assembler =
     \<lparr>control_or = 0, expected_bitmap = 0, received_bitmap = 0, asm_text = replicate M17_TEXT_MAX_BYTES 0\<rparr>"

definition m17_meta_text_block_is_usable :: "m17_meta_text_block \<Rightarrow> bool" where
  "m17_meta_text_block_is_usable block \<longleftrightarrow>
     total_blocks block \<noteq> 0 \<and> total_blocks block \<le> M17_TEXT_MAX_BLOCKS \<and> block_index block < total_blocks block
     \<and> length_bitmap block \<noteq> 0 \<and> block_bitmap block = m17_meta_text_v2_bitmap_for_index (block_index block)"

definition m17_meta_text_assembler_complete :: "m17_meta_text_assembler \<Rightarrow> bool" where
  "m17_meta_text_assembler_complete assembler \<longleftrightarrow>
     drop_bit 4 (control_or assembler) = control_or assembler AND 0xF
     \<and> received_bitmap assembler = expected_bitmap assembler"

text \<open>The loop that drops trailing spaces.\<close>

fun trim_len :: "u8 list \<Rightarrow> nat \<Rightarrow> nat" where
  "trim_len txt 0 = 0"
| "trim_len txt (Suc len) = (if txt ! len = 0x20 then trim_len txt len else Suc len)"

definition m17_meta_text_copy_trimmed :: "m17_meta_text_assembler \<Rightarrow> nat \<Rightarrow> u8 list" where
  "m17_meta_text_copy_trimmed assembler blocks =
     (let len = trim_len (asm_text assembler) (blocks * M17_TEXT_BLOCK_BYTES);
          len = (if len > M17_TEXT_MAX_BYTES then M17_TEXT_MAX_BYTES else len)
      in take len (asm_text assembler))"

text \<open>Returns the code, the assembler afterwards and the text, empty unless it is complete.\<close>

definition m17_meta_text_assembler_push ::
  "m17_meta_text_assembler \<Rightarrow> m17_meta_text_block \<Rightarrow> int \<times> m17_meta_text_assembler \<times> u8 list" where
  "m17_meta_text_assembler_push assembler block =
     (if \<not> has_text block then (0, empty_assembler, [])
      else if \<not> m17_meta_text_block_is_usable block then (-2, assembler, [])
      else let a = (if expected_bitmap assembler \<noteq> 0 \<and> expected_bitmap assembler \<noteq> length_bitmap block
                    then empty_assembler else assembler);
               a = a\<lparr>expected_bitmap := length_bitmap block,
                     received_bitmap := received_bitmap a OR block_bitmap block,
                     control_or := control_or a OR push_bit 4 (length_bitmap block) OR block_bitmap block,
                     asm_text := copy_into (asm_text a) (block_index block * M17_TEXT_BLOCK_BYTES)
                       (take M17_TEXT_BLOCK_BYTES (block_text block))\<rparr>
           in if \<not> m17_meta_text_assembler_complete a then (0, a, [])
              else (1, a, m17_meta_text_copy_trimmed a (total_blocks block)))"

section \<open>Addresses\<close>

definition M17_ADDRESS_STANDARD_MAX :: u64 where "M17_ADDRESS_STANDARD_MAX = 0xEE6B27FFFFFF"
definition M17_ADDRESS_EXTENDED_MAX :: u64 where "M17_ADDRESS_EXTENDED_MAX = 0xFFFFFFFFFFFE"

datatype m17_address_kind = M17_ADDRESS_RESERVED | M17_ADDRESS_STANDARD | M17_ADDRESS_EXTENDED | M17_ADDRESS_BROADCAST_KIND

definition m17_address_classify :: "u64 \<Rightarrow> m17_address_kind" where
  "m17_address_classify address =
     (if address = 0 then M17_ADDRESS_RESERVED
      else if address \<le> M17_ADDRESS_STANDARD_MAX then M17_ADDRESS_STANDARD
      else if address \<le> M17_ADDRESS_EXTENDED_MAX then M17_ADDRESS_EXTENDED
      else M17_ADDRESS_BROADCAST_KIND)"

primrec decode_csd_loop :: "nat \<Rightarrow> u64 \<Rightarrow> string" where
  "decode_csd_loop 0 address = []"
| "decode_csd_loop (Suc n) address =
     (if address = 0 then []
      else m17_base40_alphabet ! unat (address mod 40) # decode_csd_loop n (address div 40))"

text \<open>The code and the buffer of ten characters.\<close>

definition m17_address_decode_csd :: "u64 \<Rightarrow> int \<times> string" where
  "m17_address_decode_csd address =
     (let out_csd = replicate 10 (CHR 0x00)
      in if m17_address_classify address \<noteq> M17_ADDRESS_STANDARD then (-2, out_csd)
         else (0, copy_into out_csd 0 (decode_csd_loop 9 address)))"

section \<open>The link setup frame\<close>

record m17_lsf_result =
  lsf_dst :: u64
  lsf_src :: u64
  type_word :: u16
  version :: nat
  packet_stream :: u8
  dt :: u8
  et :: u8
  es :: u8
  cn :: u8
  rs :: u8
  lsf_signature :: u8
  meta_is_iv :: bool
  dst_address_kind :: m17_address_kind
  src_address_kind :: m17_address_kind
  dst_is_valid :: bool
  src_is_valid :: bool
  type_reserved_valid :: bool
  dst_csd :: string
  src_csd :: string
  has_meta :: bool
  lsf_meta :: "u8 list"

definition m17_lsf_type_reserved_bits_valid :: "m17_lsf_result \<Rightarrow> bool" where
  "m17_lsf_type_reserved_bits_valid lsf =
     (if rs lsf \<noteq> 0 then False
      else if packet_stream lsf = 0 \<and> (dt lsf \<noteq> 0 \<or> et lsf \<noteq> 0 \<or> es lsf \<noteq> 0 \<or> lsf_signature lsf \<noteq> 0) then False
      else if packet_stream lsf \<noteq> 0 \<and> et lsf = 3 then False
      else if packet_stream lsf \<noteq> 0 \<and> et lsf \<noteq> 0 \<and> es lsf = 3 then False
      else True)"

definition m17_null_meta_protocol_for_subtype :: "nat \<Rightarrow> u8" where
  "m17_null_meta_protocol_for_subtype subtype =
     (if subtype = 0 then 0x80 else if subtype = 1 then 0x81 else if subtype = 2 then 0x82 else 0)"

definition m17_can_filter_allows :: "int \<Rightarrow> u8 \<Rightarrow> bool" where
  "m17_can_filter_allows configured_can received_can =
     (if configured_can < 0 then True else if configured_can > 15 then False
      else word_of_int configured_can = received_can AND 0xF)"

text \<open>The metadata and the sum of its octets.\<close>

definition m17_extract_meta_bytes :: "u8 list \<Rightarrow> u8 list \<times> u32" where
  "m17_extract_meta_bytes lsf_bits =
     (let meta = map (\<lambda>i. ucast (convert_bits_into_output (drop (i * 8 + 112) lsf_bits) 8)) [0..<M17_META_BYTES]
      in (meta, fold (\<lambda>m sum. sum + ucast m) meta 0))"

definition m17_parse_lsf :: "u8 list \<Rightarrow> nat \<Rightarrow> int + m17_lsf_result" where
  "m17_parse_lsf lsf_bits bit_len =
     (if bit_len < 240 then Inl (-2)
      else let dst = convert_bits_into_output lsf_bits 48;
               src = convert_bits_into_output (drop 48 lsf_bits) 48;
               type = ucast (convert_bits_into_output (drop 96 lsf_bits) 16) :: u16;
               dst_kind = m17_address_classify dst;
               src_kind = m17_address_classify src;
               et = ucast (drop_bit 3 type AND 3);
               out = \<lparr>lsf_dst = dst, lsf_src = src, type_word = type, version = 2,
                 packet_stream = ucast (type AND 1), dt = ucast (drop_bit 1 type AND 3), et = et,
                 es = ucast (drop_bit 5 type AND 3), cn = ucast (drop_bit 7 type AND 0xF),
                 rs = ucast (drop_bit 12 type AND 0xF), lsf_signature = ucast (drop_bit 11 type AND 1),
                 meta_is_iv = (et = 2),
                 dst_address_kind = dst_kind, src_address_kind = src_kind,
                 dst_is_valid = (dst_kind \<noteq> M17_ADDRESS_RESERVED), src_is_valid = (src_kind = M17_ADDRESS_STANDARD),
                 type_reserved_valid = False,
                 dst_csd = snd (m17_address_decode_csd dst), src_csd = snd (m17_address_decode_csd src),
                 has_meta = False, lsf_meta = replicate M17_META_BYTES 0\<rparr>;
               out = out\<lparr>type_reserved_valid := m17_lsf_type_reserved_bits_valid out\<rparr>
           in case m17_extract_meta_bytes lsf_bits of
                (meta, meta_sum) \<Rightarrow>
                  Inr (if meta_sum \<noteq> 0 then out\<lparr>has_meta := True, lsf_meta := meta\<rparr> else out))"

section \<open>Positions\<close>

record m17_gnss_result =
  data_source :: u8
  station_type :: u8
  validity :: u8
  radius_exponent :: u8
  bearing_deg :: u16
  latitude_deg :: rat
  longitude_deg :: rat
  radius_m :: rat
  speed_kmh :: rat
  altitude_m :: rat
  reserved :: u16
  invalid_zero_fields :: u8

record m17_gnss_raw_fields =
  latitude_raw :: u32
  longitude_raw :: u32
  raw_altitude :: u16
  raw_speed :: u16

definition M17_GNSS_VALID_LATLON :: u8 where "M17_GNSS_VALID_LATLON = 8"
definition M17_GNSS_VALID_ALTITUDE :: u8 where "M17_GNSS_VALID_ALTITUDE = 4"
definition M17_GNSS_VALID_VELOCITY :: u8 where "M17_GNSS_VALID_VELOCITY = 2"
definition M17_GNSS_VALID_RADIUS :: u8 where "M17_GNSS_VALID_RADIUS = 1"

definition m17_s24_to_i32 :: "u32 \<Rightarrow> int" where
  "m17_s24_to_i32 raw =
     (let raw = raw AND 0xFFFFFF
      in if raw AND 0x800000 = 0 then sint raw else - sint ((NOT raw AND 0xFFFFFF) + 1))"

definition empty_gnss :: m17_gnss_result where
  "empty_gnss = \<lparr>data_source = 0, station_type = 0, validity = 0, radius_exponent = 0, bearing_deg = 0, latitude_deg = 0,
     longitude_deg = 0, radius_m = 0, speed_kmh = 0, altitude_m = 0, reserved = 0, invalid_zero_fields = 0\<rparr>"

definition be16 :: "u8 \<Rightarrow> u8 \<Rightarrow> u16" where
  "be16 a b = push_bit 8 (ucast a) OR ucast b"

definition be24 :: "u8 \<Rightarrow> u8 \<Rightarrow> u8 \<Rightarrow> u32" where
  "be24 a b c = push_bit 16 (ucast a) OR push_bit 8 (ucast b) OR ucast c"

definition m17_read_gnss_v2_fields :: "u8 list \<Rightarrow> m17_gnss_result \<Rightarrow> m17_gnss_result \<times> m17_gnss_raw_fields" where
  "m17_read_gnss_v2_fields input out =
     (let raw = \<lparr>latitude_raw = be24 (input ! 4) (input ! 5) (input ! 6),
                 longitude_raw = be24 (input ! 7) (input ! 8) (input ! 9),
                 raw_altitude = be16 (input ! 10) (input ! 11),
                 raw_speed = push_bit 4 (ucast (input ! 12)) OR ucast (drop_bit 4 (input ! 13))\<rparr>
      in (out\<lparr>data_source := drop_bit 4 (input ! 1), station_type := input ! 1 AND 0xF,
             validity := drop_bit 4 (input ! 2), radius_exponent := drop_bit 1 (input ! 2) AND 7,
             bearing_deg := be16 (input ! 2 AND 1) (input ! 3),
             latitude_deg := of_int (m17_s24_to_i32 (latitude_raw raw)) * 90 / 8388607,
             longitude_deg := of_int (m17_s24_to_i32 (longitude_raw raw)) * 180 / 8388607,
             reserved := be16 (input ! 13 AND 0xF) (input ! 14)\<rparr>, raw))"

text \<open>The code and the record with the fields that should be zero and are not.\<close>

definition m17_validate_gnss_v2_fields :: "m17_gnss_result \<Rightarrow> m17_gnss_raw_fields \<Rightarrow> int \<times> m17_gnss_result" where
  "m17_validate_gnss_v2_fields out raw =
     (if reserved out \<noteq> 0 then (-4, out)
      else if validity out AND M17_GNSS_VALID_VELOCITY \<noteq> 0 \<and> bearing_deg out > 359 then (-5, out)
      else let add = (\<lambda>flag wrong out. if validity out AND flag = 0 \<and> wrong
                 then out\<lparr>invalid_zero_fields := invalid_zero_fields out OR flag\<rparr> else out);
               out = add M17_GNSS_VALID_LATLON (latitude_raw raw \<noteq> 0 \<or> longitude_raw raw \<noteq> 0) out;
               out = add M17_GNSS_VALID_ALTITUDE (raw_altitude raw \<noteq> 0) out;
               out = add M17_GNSS_VALID_VELOCITY (bearing_deg out \<noteq> 0 \<or> raw_speed raw \<noteq> 0) out;
               out = add M17_GNSS_VALID_RADIUS (radius_exponent out \<noteq> 0) out
           in (0, out))"

definition m17_apply_gnss_v2_validity :: "m17_gnss_result \<Rightarrow> m17_gnss_raw_fields \<Rightarrow> m17_gnss_result" where
  "m17_apply_gnss_v2_validity out raw =
     (let out = out\<lparr>radius_m := 2 ^ unat (radius_exponent out), speed_kmh := of_nat (unat (raw_speed raw)) / 2,
                    altitude_m := of_nat (unat (raw_altitude raw)) / 2 - 500\<rparr>;
          out = (if validity out AND M17_GNSS_VALID_LATLON = 0 then out\<lparr>latitude_deg := 0, longitude_deg := 0\<rparr> else out);
          out = (if validity out AND M17_GNSS_VALID_ALTITUDE = 0 then out\<lparr>altitude_m := 0\<rparr> else out);
          out = (if validity out AND M17_GNSS_VALID_VELOCITY = 0 then out\<lparr>bearing_deg := 0, speed_kmh := 0\<rparr> else out);
          out = (if validity out AND M17_GNSS_VALID_RADIUS = 0 then out\<lparr>radius_m := 0\<rparr> else out)
      in out)"

definition m17_parse_gnss_v2 :: "u8 list \<Rightarrow> nat \<Rightarrow> int + m17_gnss_result" where
  "m17_parse_gnss_v2 input len =
     (if len < 15 then Inl (-2)
      else if input ! 0 \<noteq> 0x81 \<and> input ! 0 \<noteq> 0x91 then Inl (-3)
      else case m17_read_gnss_v2_fields input empty_gnss of
             (out, raw) \<Rightarrow>
               case m17_validate_gnss_v2_fields out raw of
                 (validation, out) \<Rightarrow> if validation \<noteq> 0 then Inl validation else Inr (m17_apply_gnss_v2_validity out raw))"

section \<open>Extended callsigns and packet protocols\<close>

record m17_extended_callsign_result =
  field1 :: u64
  field2 :: u64
  has_field2 :: bool
  field1_csd :: string
  field2_csd :: string

definition m17_read_be48 :: "u8 list \<Rightarrow> u64" where
  "m17_read_be48 bytes =
     push_bit 40 (ucast (bytes ! 0)) OR push_bit 32 (ucast (bytes ! 1)) OR push_bit 24 (ucast (bytes ! 2))
     OR push_bit 16 (ucast (bytes ! 3)) OR push_bit 8 (ucast (bytes ! 4)) OR ucast (bytes ! 5)"

definition m17_parse_extended_callsign_meta :: "u8 list \<Rightarrow> nat \<Rightarrow> int + m17_extended_callsign_result" where
  "m17_parse_extended_callsign_meta input len =
     (if len < 15 then Inl (-2)
      else if input ! 0 \<noteq> 0x82 then Inl (-3)
      else if input ! 13 \<noteq> 0 \<or> input ! 14 \<noteq> 0 then Inl (-4)
      else let f1 = m17_read_be48 (drop 1 input); f2 = m17_read_be48 (drop 7 input)
           in if m17_address_classify f1 \<noteq> M17_ADDRESS_STANDARD then Inl (-5)
              else if f2 \<noteq> 0 \<and> m17_address_classify f2 \<noteq> M17_ADDRESS_STANDARD then Inl (-6)
              else Inr \<lparr>field1 = f1, field2 = f2, has_field2 = (f2 \<noteq> 0), field1_csd = snd (m17_address_decode_csd f1),
                       field2_csd = (if f2 \<noteq> 0 then snd (m17_address_decode_csd f2) else replicate 10 (CHR 0x00))\<rparr>)"

definition M17_PACKET_PROTOCOL_MAX :: u32 where "M17_PACKET_PROTOCOL_MAX = 0x1FFFFF"

definition m17_packet_continuation_valid :: "u8 \<Rightarrow> bool" where
  "m17_packet_continuation_valid byte \<longleftrightarrow> byte AND 0xC0 = 0x80"

text \<open>The loop over the continuation octets.\<close>

fun continuation_loop :: "u8 list \<Rightarrow> u32 \<Rightarrow> u32 option" where
  "continuation_loop [] val = Some val"
| "continuation_loop (b # bs) val =
     (if \<not> m17_packet_continuation_valid b then None
      else continuation_loop bs (push_bit 6 val OR ucast (b AND 0x3F)))"

text \<open>The identifier and its length.\<close>

definition m17_packet_protocol_decode :: "u8 list \<Rightarrow> int + (u32 \<times> nat)" where
  "m17_packet_protocol_decode input =
     (if length input = 0 then Inl (-2)
      else let b0 = input ! 0
           in if b0 < 0x80 then Inr (ucast b0, 1)
              else let head =
                     (if b0 AND 0xE0 = 0xC0 then Some (2, ucast (b0 AND 0x1F), 0x80)
                      else if b0 AND 0xF0 = 0xE0 then Some (3, ucast (b0 AND 0x0F), 0x800)
                      else if b0 AND 0xF8 = 0xF0 then Some (4, ucast (b0 AND 0x07), 0x10000)
                      else None)
                   in case head of
                        None \<Rightarrow> Inl (-3)
                      | Some (need, val, min_value) \<Rightarrow>
                          if length input < need then Inl (-2)
                          else (case continuation_loop (take (need - 1) (drop 1 input)) val of
                                  None \<Rightarrow> Inl (-4)
                                | Some val' \<Rightarrow>
                                    if val' < min_value \<or> val' > M17_PACKET_PROTOCOL_MAX then Inl (-5) else Inr (val', need)))"

section \<open>Callsigns come back\<close>

text \<open>The digits of a number in base 40, the least significant first.\<close>

primrec digits40 :: "nat \<Rightarrow> nat \<Rightarrow> nat list" where
  "digits40 0 a = []"
| "digits40 (Suc n) a = (if a = 0 then [] else a mod 40 # digits40 n (a div 40))"

definition val40 :: "nat list \<Rightarrow> nat" where
  "val40 ds = foldr (\<lambda>d v. v * 40 + d) ds 0"

lemma val40_simps [simp]: "val40 [] = 0" "val40 (d # ds) = val40 ds * 40 + d"
  by (simp_all add: val40_def)

lemma val40_digits40: "a < 40 ^ n \<Longrightarrow> val40 (digits40 n a) = a"
  by (induction n arbitrary: a) (auto simp: less_mult_imp_div_less mult.commute)

lemma val40_less: "\<forall>d\<in>set ds. d < 40 \<Longrightarrow> val40 ds < 40 ^ length ds"
proof (induction ds)
  case (Cons d ds)
  then have "val40 ds + 1 \<le> 40 ^ length ds" "d < 40" by auto
  then show ?case by simp
qed simp

lemma digits40_val40:
  "\<forall>d\<in>set ds. d < 40 \<Longrightarrow> ds = [] \<or> last ds \<noteq> 0 \<Longrightarrow> length ds \<le> n \<Longrightarrow> digits40 n (val40 ds) = ds"
proof (induction n arbitrary: ds)
  case (Suc n)
  show ?case
  proof (cases ds)
    case (Cons d es)
    have es: "es = [] \<or> last es \<noteq> 0" using Suc.prems(2) Cons by (cases es) auto
    have "val40 ds \<noteq> 0"
    proof
      assume "val40 ds = 0"
      then have "val40 es = 0" "d = 0" using Cons by auto
      moreover have "digits40 n (val40 es) = es" using Suc Cons es by simp
      moreover have "digits40 n 0 = []" by (cases n) simp_all
      ultimately show False using Suc.prems(2) Cons by simp
    qed
    then show ?thesis using Suc Cons es by simp
  qed simp
qed simp

text \<open>The text a callsign stands for: upper case, unknown characters as spaces, trailing spaces dropped.\<close>

definition base40_char :: "char \<Rightarrow> char" where
  "base40_char c = (if m17_upper_ascii c \<in> set m17_base40_alphabet then m17_upper_ascii c else CHR '' '')"

definition drop_trailing_spaces :: "string \<Rightarrow> string" where
  "drop_trailing_spaces s = rev (dropWhile (\<lambda>c. c = CHR '' '') (rev s))"

definition callsign_text :: "string \<Rightarrow> string" where
  "callsign_text s = drop_trailing_spaces (map base40_char (take (m17_callsign_len_max9 s) s))"

lemma length_alphabet: "length m17_base40_alphabet = 40"
  by (simp add: m17_base40_alphabet_def)

lemma distinct_alphabet: "distinct m17_base40_alphabet"
  unfolding m17_base40_alphabet_def by code_simp

lemma alphabet_space: "m17_base40_alphabet ! 0 = CHR '' ''"
  by (simp add: m17_base40_alphabet_def)

lemma base40_value_less: "m17_base40_value c < 40"
  by (auto simp: m17_base40_value_def Let_def split: option.splits dest: find_upt_Some)

lemma alphabet_base40_value: "m17_base40_alphabet ! m17_base40_value c = base40_char c"
proof (cases "find (\<lambda>i. m17_upper_ascii c = m17_base40_alphabet ! i) [0..<40]")
  case None
  then have "m17_upper_ascii c \<notin> set m17_base40_alphabet"
    by (auto simp: find_upt_None in_set_conv_nth length_alphabet)
  then show ?thesis using None by (simp add: m17_base40_value_def base40_char_def alphabet_space)
next
  case (Some i)
  then have "m17_upper_ascii c = m17_base40_alphabet ! i" "i < 40" using find_upt_Some [OF Some] by auto
  then show ?thesis using Some by (simp add: m17_base40_value_def base40_char_def length_alphabet)
qed

lemma callsign_len_le: "callsign_len n s \<le> n \<and> callsign_len n s \<le> length s"
  by (induction n arbitrary: s) (auto split: list.splits)

lemma map_upt_from_one: "len \<le> length s \<Longrightarrow> map (\<lambda>n. f (s ! (n - 1))) [1..<len + 1] = map f (take len s)"
  by (rule nth_equalityI) (simp_all del: upt_Suc)

lemma unat_encode_fold:
  fixes ds :: "nat list"
  assumes "\<forall>d\<in>set ds. d < 40" "length ds \<le> 9"
  shows "unat (foldr (\<lambda>d v. v * 40 + of_nat d) ds (0 :: u64)) = val40 ds"
proof -
  have "foldr (\<lambda>d v. v * 40 + of_nat d) ds (0 :: u64) = of_nat (val40 ds)"
    by (induction ds) simp_all
  moreover have "val40 ds < 40 ^ length ds" using assms(1) by (rule val40_less)
  moreover have "(40::nat) ^ length ds \<le> 40 ^ 9" using assms(2) by (intro power_increasing) simp_all
  ultimately show ?thesis by (simp add: unsigned_of_nat take_bit_nat_eq_self)
qed

lemma encode_val40:
  "unat (m17_encode_b40_callsign 0 (Some s)) = val40 (map m17_base40_value (take (m17_callsign_len_max9 s) s))"
proof -
  let ?n = "m17_callsign_len_max9 s"
  have n: "?n \<le> 9" "?n \<le> length s" using callsign_len_le by (simp_all add: m17_callsign_len_max9_def)
  have "m17_encode_b40_callsign 0 (Some s)
      = foldr (\<lambda>d v. v * 40 + of_nat d) (map (\<lambda>n. m17_base40_value (s ! (n - 1))) [1..<?n + 1]) 0"
    by (simp add: m17_encode_b40_callsign_def foldr_conv_fold rev_map fold_map comp_def del: upt_Suc)
  also have "\<dots> = foldr (\<lambda>d v. v * 40 + of_nat d) (map m17_base40_value (take ?n s)) 0"
    by (simp only: map_upt_from_one [OF n(2)])
  finally show ?thesis using n by (simp add: unat_encode_fold base40_value_less)
qed

lemma decode_csd_loop_digits: "decode_csd_loop n a = map ((!) m17_base40_alphabet) (digits40 n (unat a))"
  by (induction n arbitrary: a) (auto simp: unat_mod unat_div unat_eq_0)

lemma space_value: "m17_base40_value c = 0 \<longleftrightarrow> base40_char c = CHR '' ''"
  using alphabet_base40_value [of c] distinct_alphabet alphabet_space base40_value_less [of c]
    nth_eq_iff_index_eq [of m17_base40_alphabet "m17_base40_value c" 0]
  by (auto simp: length_alphabet)

lemma val40_append_zeros: "val40 (ds @ replicate k 0) = val40 ds"
  by (induction ds) (simp, induction k, simp_all)

lemma split_trailing:
  "\<exists>k. xs = rev (dropWhile P (rev xs)) @ k \<and> (\<forall>x\<in>set k. P x)"
proof -
  have "xs = rev (dropWhile P (rev xs)) @ rev (takeWhile P (rev xs))"
    by (metis rev_append rev_rev_ident takeWhile_dropWhile_id)
  then show ?thesis by (metis set_rev set_takeWhileD)
qed

text \<open>A callsign without its trailing spaces is the digits of its number.\<close>

lemma callsign_digits:
  fixes s :: string
  assumes "length s \<le> 9"
  shows "digits40 9 (val40 (map m17_base40_value s)) = map m17_base40_value (rev (dropWhile (\<lambda>c. m17_base40_value c = 0) (rev s)))"
proof -
  define t where "t = rev (dropWhile (\<lambda>c. m17_base40_value c = 0) (rev s))"
  obtain k where k: "s = t @ k" "\<forall>c\<in>set k. m17_base40_value c = 0"
    using split_trailing [of s "\<lambda>c. m17_base40_value c = 0"] by (auto simp: t_def)
  have "map m17_base40_value k = replicate (length k) 0" using k(2) by (simp add: map_replicate_const [symmetric])
  then have same: "val40 (map m17_base40_value s) = val40 (map m17_base40_value t)" by (simp add: k(1) val40_append_zeros)
  have "t = [] \<or> m17_base40_value (last t) \<noteq> 0"
  proof (cases "t = []")
    case False
    then have "dropWhile (\<lambda>c. m17_base40_value c = 0) (rev s) \<noteq> []" by (simp add: t_def)
    then show ?thesis using hd_dropWhile [of "\<lambda>c. m17_base40_value c = 0" "rev s"] by (simp only: t_def last_rev) simp
  qed simp
  then have "digits40 9 (val40 (map m17_base40_value t)) = map m17_base40_value t"
    using assms k(1) digits40_val40 [of "map m17_base40_value t" 9] by (cases "t = []") (simp_all add: base40_value_less last_map)
  then show ?thesis by (simp only: same t_def [symmetric])
qed

lemma drop_spaces_map:
  "drop_trailing_spaces (map base40_char s) = map base40_char (rev (dropWhile (\<lambda>c. m17_base40_value c = 0) (rev s)))"
  by (simp add: drop_trailing_spaces_def rev_map dropWhile_map comp_def space_value)

lemma decode_encode_text:
  "decode_csd_loop 9 (m17_encode_b40_callsign 0 (Some s)) = callsign_text s"
proof -
  let ?t = "take (m17_callsign_len_max9 s) s"
  have "length ?t \<le> 9" using callsign_len_le [of 9 s] by (simp add: m17_callsign_len_max9_def)
  then show ?thesis
    by (simp add: decode_csd_loop_digits encode_val40 callsign_digits callsign_text_def drop_spaces_map alphabet_base40_value comp_def)
qed

lemma encode_bound: "unat (m17_encode_b40_callsign 0 (Some s)) < 40 ^ 9"
proof -
  let ?t = "take (m17_callsign_len_max9 s) s"
  have "length ?t \<le> 9" using callsign_len_le [of 9 s] by (simp add: m17_callsign_len_max9_def)
  then have "(40::nat) ^ length ?t \<le> 40 ^ 9" by (intro power_increasing) simp_all
  moreover have "val40 (map m17_base40_value ?t) < 40 ^ length (map m17_base40_value ?t)"
    by (rule val40_less) (simp add: base40_value_less)
  ultimately show ?thesis by (simp add: encode_val40)
qed

lemma classify_standard_iff: "m17_address_classify a = M17_ADDRESS_STANDARD \<longleftrightarrow> 0 < unat a \<and> unat a < 40 ^ 9"
proof -
  have "a \<le> M17_ADDRESS_STANDARD_MAX \<longleftrightarrow> unat a < 40 ^ 9"
    unfolding M17_ADDRESS_STANDARD_MAX_def word_le_nat_alt by simp linarith
  then show ?thesis by (auto simp: m17_address_classify_def unat_gt_0)
qed

lemma alphabet_upper: "c \<in> set m17_base40_alphabet \<Longrightarrow> m17_upper_ascii c = c \<and> c \<noteq> CHR 0x00"
proof -
  have "\<forall>c\<in>set m17_base40_alphabet. m17_upper_ascii c = c \<and> c \<noteq> CHR 0x00"
    unfolding m17_base40_alphabet_def by code_simp
  then show "c \<in> set m17_base40_alphabet \<Longrightarrow> m17_upper_ascii c = c \<and> c \<noteq> CHR 0x00" by blast
qed

lemma base40_value_alphabet: "d < 40 \<Longrightarrow> m17_base40_value (m17_base40_alphabet ! d) = d"
  using alphabet_base40_value [of "m17_base40_alphabet ! d"] base40_value_less [of "m17_base40_alphabet ! d"]
    nth_eq_iff_index_eq [OF distinct_alphabet, of "m17_base40_value (m17_base40_alphabet ! d)" d] alphabet_upper
  by (simp add: base40_char_def length_alphabet)

lemma callsign_len_padded:
  "\<forall>c\<in>set t. c \<noteq> CHR 0x00 \<Longrightarrow> length t \<le> n \<Longrightarrow> callsign_len n (t @ CHR 0x00 # k) = length t"
proof (induction n arbitrary: t)
  case (Suc n)
  then show ?case by (cases t) auto
qed simp

lemma digits40_less: "\<forall>d\<in>set (digits40 n a). d < 40"
  by (induction n arbitrary: a) auto

lemma length_digits40: "length (digits40 n a) \<le> n"
  by (induction n arbitrary: a) auto

lemma csd_buffer:
  "length t \<le> 9 \<Longrightarrow> copy_into (replicate 10 (CHR 0x00)) 0 t = t @ CHR 0x00 # replicate (9 - length t) (CHR 0x00)"
  by (simp add: copy_into_def Suc_diff_le flip: replicate_Suc)

lemma encode_decoded:
  assumes "m17_address_classify a = M17_ADDRESS_STANDARD"
  shows "m17_encode_b40_callsign 0 (Some (snd (m17_address_decode_csd a))) = a"
proof -
  define ds where "ds = digits40 9 (unat a)"
  define t where "t = map ((!) m17_base40_alphabet) ds"
  have ds: "\<forall>d\<in>set ds. d < 40" "length ds \<le> 9" by (simp_all add: ds_def digits40_less length_digits40)
  have chars: "\<forall>c\<in>set t. c \<noteq> CHR 0x00"
    using ds(1) alphabet_upper by (auto simp: t_def length_alphabet)
  have buffer: "snd (m17_address_decode_csd a) = t @ CHR 0x00 # replicate (9 - length t) (CHR 0x00)"
    using assms ds(2) csd_buffer [of t] by (simp add: m17_address_decode_csd_def decode_csd_loop_digits ds_def t_def)
  have "m17_callsign_len_max9 (snd (m17_address_decode_csd a)) = length t"
    using chars ds(2) callsign_len_padded [of t 9] by (simp add: buffer m17_callsign_len_max9_def t_def)
  then have "unat (m17_encode_b40_callsign 0 (Some (snd (m17_address_decode_csd a)))) = val40 (map m17_base40_value t)"
    by (simp add: encode_val40 buffer)
  also have "map m17_base40_value t = ds"
    using ds(1) by (simp add: t_def base40_value_alphabet map_idI)
  also have "val40 ds = unat a"
    using assms by (simp add: ds_def val40_digits40 classify_standard_iff)
  finally show ?thesis by (simp add: word_unat_eq_iff)
qed

text \<open>
  C18. Callsigns and standard addresses stand for each other. Decoding the address of a callsign gives
  the callsign back in upper case, with characters outside the alphabet read as spaces and trailing
  spaces dropped; and encoding the decoded text of any standard address gives the address.
\<close>

theorem callsign_roundtrip:
  assumes "callsign_text s \<noteq> []" "m17_address_classify a = M17_ADDRESS_STANDARD"
  shows "m17_address_decode_csd (m17_encode_b40_callsign 0 (Some s))
      = (0, callsign_text s @ replicate (10 - length (callsign_text s)) (CHR 0x00))
    \<and> m17_encode_b40_callsign 0 (Some (snd (m17_address_decode_csd a))) = a"
proof
  let ?e = "m17_encode_b40_callsign 0 (Some s)"
  have csd: "decode_csd_loop 9 ?e = callsign_text s" by (rule decode_encode_text)
  have "?e \<noteq> 0" using assms(1) csd by (auto simp: eval_nat_numeral)
  then have "m17_address_classify ?e = M17_ADDRESS_STANDARD"
    using encode_bound by (simp add: classify_standard_iff unat_gt_0)
  moreover have "length (callsign_text s) \<le> 9"
    using length_digits40 [of 9 "unat ?e"] by (simp add: decode_csd_loop_digits flip: csd)
  ultimately show "m17_address_decode_csd ?e = (0, callsign_text s @ replicate (10 - length (callsign_text s)) (CHR 0x00))"
    by (simp add: m17_address_decode_csd_def csd csd_buffer Suc_diff_le flip: replicate_Suc)
  show "m17_encode_b40_callsign 0 (Some (snd (m17_address_decode_csd a))) = a"
    by (rule encode_decoded) (rule assms(2))
qed

theorem callsign_roundtrip_witness:
  "m17_address_decode_csd (m17_encode_b40_callsign 0 (Some ''ab1c '')) = (0, ''AB1C'' @ replicate 6 (CHR 0x00))
    \<and> m17_encode_b40_callsign 0 (Some (snd (m17_address_decode_csd 0x9FDD51))) = 0x9FDD51"
proof -
  have "callsign_text ''ab1c '' = ''AB1C''" by code_simp
  moreover have "m17_address_classify 0x9FDD51 = M17_ADDRESS_STANDARD"
    by (simp add: m17_address_classify_def M17_ADDRESS_STANDARD_MAX_def)
  ultimately show ?thesis using callsign_roundtrip [of "''ab1c ''" "0x9FDD51"] by simp
qed

end
