(* ===== verification/M17_Text.thy ===== *)
theory M17_Text
  imports M17_Parse
begin

text \<open>
  The text messages in the metadata of M17: the blocks of a text, pushed into the assembler of
  \<open>M17_Parse\<close> in any order and any number of times, come out as the text with its last missing block.
\<close>

section \<open>The blocks of a text\<close>

definition length_mask :: "nat \<Rightarrow> u8" where
  "length_mask n = mask n"

text \<open>The octets of block \<open>i\<close> of a text of \<open>n\<close> blocks, and what the parser makes of them.\<close>

definition block_octets :: "nat \<Rightarrow> u8 list \<Rightarrow> nat \<Rightarrow> u8 list" where
  "block_octets n txt i = (push_bit 4 (length_mask n) OR push_bit i 1) # take 13 (drop (13 * i) txt)"

definition text_block :: "nat \<Rightarrow> u8 list \<Rightarrow> nat \<Rightarrow> m17_meta_text_block" where
  "text_block n txt i =
     \<lparr>has_text = True, total_blocks = n, block_index = i, length_bitmap = length_mask n, block_bitmap = push_bit i 1,
      block_text = take 13 (drop (13 * i) txt)\<rparr>"

lemma parse_block_octets:
  assumes "1 \<le> n" "n \<le> 4" "i < n"
  shows "m17_meta_text_parse_block (block_octets n txt i) = Inr (text_block n txt i)"
proof -
  have "\<forall>n\<in>{1, 2, 3, 4}. \<forall>i\<in>{0..<n}.
      push_bit 4 (length_mask n) OR push_bit i 1 \<noteq> 0
      \<and> drop_bit 4 (push_bit 4 (length_mask n) OR push_bit i 1) = length_mask n
      \<and> (push_bit 4 (length_mask n) OR push_bit i 1) AND 0xF = push_bit i 1
      \<and> m17_meta_text_v2_bitmap_len (length_mask n) = n \<and> m17_meta_text_v2_bitmap_segment (push_bit i 1) = i"
    by code_simp
  moreover have "n \<in> {1, 2, 3, 4}" "i \<in> {0..<n}" using assms by auto
  ultimately have
    "push_bit 4 (length_mask n) OR push_bit i 1 \<noteq> 0"
    "drop_bit 4 (push_bit 4 (length_mask n) OR push_bit i 1) = length_mask n"
    "(push_bit 4 (length_mask n) OR push_bit i 1) AND 0xF = push_bit i 1"
    "m17_meta_text_v2_bitmap_len (length_mask n) = n" "m17_meta_text_v2_bitmap_segment (push_bit i 1) = i"
    by blast+
  then show ?thesis using assms
    by (simp del: push_bit_of_1 push_bit_or drop_bit_or add: m17_meta_text_parse_block_def block_octets_def text_block_def Let_def M17_TEXT_BLOCK_BYTES_def)
qed

section \<open>What the assembler holds\<close>

definition holds_blocks :: "nat \<Rightarrow> u8 list \<Rightarrow> nat set \<Rightarrow> m17_meta_text_assembler \<Rightarrow> bool" where
  "holds_blocks n txt S a \<longleftrightarrow>
     length (asm_text a) = M17_TEXT_MAX_BYTES
     \<and> expected_bitmap a = (if S = {} then 0 else length_mask n)
     \<and> (\<forall>j < 8. bit (received_bitmap a) j \<longleftrightarrow> j \<in> S)
     \<and> (\<forall>j < 8. bit (control_or a) j \<longleftrightarrow> j \<in> S \<or> (4 \<le> j \<and> j - 4 < n \<and> S \<noteq> {}))
     \<and> (\<forall>j \<in> S. \<forall>k < 13. asm_text a ! (13 * j + k) = txt ! (13 * j + k))"

lemma holds_nothing: "holds_blocks n txt {} empty_assembler"
  by (simp add: holds_blocks_def empty_assembler_def)

lemma nth_copy_into:
  assumes "pos + length src \<le> length dst" "i < length dst"
  shows "copy_into dst pos src ! i = (if pos \<le> i \<and> i < pos + length src then src ! (i - pos) else dst ! i)"
  using assms by (auto simp: copy_into_def nth_append not_less)

lemma complete_iff:
  assumes "holds_blocks n txt S a" "S \<subseteq> {..<n}" "S \<noteq> {}" "n \<le> 4"
  shows "m17_meta_text_assembler_complete a \<longleftrightarrow> S = {..<n}"
proof
  assume "m17_meta_text_assembler_complete a"
  then have "received_bitmap a = mask n"
    using assms(1,3) by (simp add: m17_meta_text_assembler_complete_def holds_blocks_def length_mask_def)
  then have "j \<in> S" if "j < n" for j
    using assms(1,4) that by (auto simp: holds_blocks_def bit_mask_iff dest!: spec [where x = j])
  then show "S = {..<n}" using assms(2) by auto
next
  assume S: "S = {..<n}"
  have "received_bitmap a = mask n"
    using assms(1,4) by (intro bit_word_eqI) (auto simp: holds_blocks_def bit_mask_iff S)
  moreover have "drop_bit 4 (control_or a) = control_or a AND mask 4"
  proof (rule bit_word_eqI)
    fix j assume j: "j < LENGTH(8)"
    have c: "bit (control_or a) i \<longleftrightarrow> i < n \<or> (4 \<le> i \<and> i - 4 < n)" if "i < 8" for i
      using assms(1,3) that by (simp add: holds_blocks_def S)
    have "\<not> bit (control_or a) i" if "\<not> i < 8" for i
      using that by (auto dest: bit_imp_le_length)
    then have "bit (control_or a) (4 + j) \<longleftrightarrow> 4 + j < 8 \<and> j < n"
      using c [of "4 + j"] assms(4) by (cases "4 + j < 8") auto
    then show "bit (drop_bit 4 (control_or a)) j \<longleftrightarrow> bit (control_or a AND mask 4) j"
      using c [of j] j assms(4) by (auto simp: bit_drop_bit_eq bit_and_iff bit_mask_iff)
  qed
  ultimately show "m17_meta_text_assembler_complete a"
    using assms(1,3) by (simp add: m17_meta_text_assembler_complete_def holds_blocks_def length_mask_def mask_eq_exp_minus_1)
qed

section \<open>Trailing spaces\<close>

lemma trim_len_le: "trim_len txt len \<le> len"
  by (induction len) auto

lemma take_trim_len:
  "len \<le> length txt \<Longrightarrow> take (trim_len txt len) txt = rev (dropWhile (\<lambda>c. c = 0x20) (rev (take len txt)))"
  by (induction len) (auto simp: take_Suc_conv_app_nth)

section \<open>Pushing blocks\<close>

lemma bits_of_position: "j < 8 \<Longrightarrow> bit (push_bit i 1 :: u8) j \<longleftrightarrow> j = i"
  by (auto simp: bit_push_bit_iff bit_1_iff simp del: push_bit_of_1)

lemma bits_of_length: "j < 8 \<Longrightarrow> bit (push_bit 4 (length_mask n)) j \<longleftrightarrow> 4 \<le> j \<and> j - 4 < n"
  by (auto simp: bit_push_bit_iff length_mask_def bit_mask_iff)

lemma length_mask_nonzero: "0 < n \<Longrightarrow> length_mask n \<noteq> 0"
  by (auto simp: length_mask_def bit_eq_iff bit_mask_iff intro!: exI [of _ 0])

definition assembled :: "m17_meta_text_assembler \<Rightarrow> nat \<Rightarrow> u8 list \<Rightarrow> nat \<Rightarrow> m17_meta_text_assembler" where
  "assembled a n txt i =
     a\<lparr>expected_bitmap := length_mask n, received_bitmap := received_bitmap a OR push_bit i 1,
       control_or := control_or a OR push_bit 4 (length_mask n) OR push_bit i 1,
       asm_text := copy_into (asm_text a) (13 * i) (take 13 (drop (13 * i) txt))\<rparr>"

lemma assembled_text:
  assumes len: "length (asm_text a) = 52" and n: "n \<le> 4" "i < n" "length txt = 13 * n"
    and held: "j \<in> S \<Longrightarrow> asm_text a ! (13 * j + k) = txt ! (13 * j + k)" and j: "j \<in> insert i S" "j < n" "k < 13"
  shows "copy_into (asm_text a) (13 * i) (take 13 (drop (13 * i) txt)) ! (13 * j + k) = txt ! (13 * j + k)"
proof -
  have src: "length (take 13 (drop (13 * i) txt)) = 13" using n by simp
  have room: "13 * i + length (take 13 (drop (13 * i) txt)) \<le> length (asm_text a)" using n unfolding len src by simp
  have at: "13 * j + k < length (asm_text a)" using j n(1) by (simp add: len)
  show ?thesis
  proof (cases "j = i")
    case True
    then show ?thesis using j n by (subst nth_copy_into [OF room at]) (simp add: src)
  next
    case False
    then have "13 * j + k < 13 * i \<or> 13 * i + 13 \<le> 13 * j + k" using j(3) by (cases "j < i") auto
    then show ?thesis using j False held by (subst nth_copy_into [OF room at]) (auto simp: src)
  qed
qed

lemma assembled_holds:
  assumes holds: "holds_blocks n txt S a" and S: "S \<subseteq> {..<n}" and n: "n \<le> 4" "i < n" "length txt = 13 * n"
  shows "holds_blocks n txt (insert i S) (assembled a n txt i)"
proof -
  have len: "length (asm_text a) = 52"
    using holds by (simp add: holds_blocks_def M17_TEXT_MAX_BYTES_def M17_TEXT_BLOCK_BYTES_def M17_TEXT_MAX_BLOCKS_def)
  have "length (asm_text (assembled a n txt i)) = length (asm_text a)"
    using n by (simp add: assembled_def length_copy_into len)
  moreover have "expected_bitmap (assembled a n txt i) = length_mask n" by (simp add: assembled_def)
  moreover have "bit (received_bitmap (assembled a n txt i)) j \<longleftrightarrow> j \<in> insert i S" if "j < 8" for j
    using holds that by (auto simp: assembled_def holds_blocks_def bit_or_iff bits_of_position simp del: push_bit_of_1)
  moreover have "bit (control_or (assembled a n txt i)) j \<longleftrightarrow> j \<in> insert i S \<or> (4 \<le> j \<and> j - 4 < n)" if "j < 8" for j
    using holds that by (auto simp: assembled_def holds_blocks_def bit_or_iff bits_of_position bits_of_length simp del: push_bit_of_1)
  moreover have "asm_text (assembled a n txt i) ! (13 * j + k) = txt ! (13 * j + k)" if "j \<in> insert i S" "k < 13" for j k
  proof -
    have "j < n" using that(1) S n(2) by auto
    then show ?thesis
      using assembled_text [OF len n, of j S k] holds that by (simp add: assembled_def holds_blocks_def)
  qed
  ultimately show ?thesis using holds by (auto simp: holds_blocks_def)
qed

lemma push_text_block:
  assumes holds: "holds_blocks n txt S a" and S: "S \<subseteq> {..<n}" and n: "n \<le> 4" "i < n" "length txt = 13 * n"
  shows "m17_meta_text_assembler_push a (text_block n txt i) =
    (if insert i S = {..<n} then (1, assembled a n txt i, rev (dropWhile (\<lambda>c. c = 0x20) (rev txt)))
     else (0, assembled a n txt i, []))"
proof -
  let ?a = "assembled a n txt i"
  have kept: "expected_bitmap a = 0 \<or> expected_bitmap a = length_mask n" using holds by (auto simp: holds_blocks_def)
  have usable: "m17_meta_text_block_is_usable (text_block n txt i)"
    using n length_mask_nonzero [of n]
    by (simp add: m17_meta_text_block_is_usable_def text_block_def M17_TEXT_MAX_BLOCKS_def m17_meta_text_v2_bitmap_for_index_def)
  have holds': "holds_blocks n txt (insert i S) ?a" by (rule assembled_holds [OF holds S n])
  have push: "m17_meta_text_assembler_push a (text_block n txt i) =
      (if \<not> m17_meta_text_assembler_complete ?a then (0, ?a, []) else (1, ?a, m17_meta_text_copy_trimmed ?a n))"
    using kept usable
    by (auto simp: m17_meta_text_assembler_push_def text_block_def assembled_def Let_def M17_TEXT_BLOCK_BYTES_def mult.commute)
  have complete: "m17_meta_text_assembler_complete ?a \<longleftrightarrow> insert i S = {..<n}"
    using complete_iff [OF holds'] S n by auto
  have "m17_meta_text_copy_trimmed ?a n = rev (dropWhile (\<lambda>c. c = 0x20) (rev txt))" if all: "insert i S = {..<n}"
  proof -
    have len: "length (asm_text ?a) = 52"
      using holds' by (simp add: holds_blocks_def M17_TEXT_MAX_BYTES_def M17_TEXT_BLOCK_BYTES_def M17_TEXT_MAX_BLOCKS_def)
    have "take (13 * n) (asm_text ?a) = txt"
    proof (rule nth_equalityI)
      fix p assume "p < length (take (13 * n) (asm_text ?a))"
      then have "p div 13 \<in> insert i S" "p mod 13 < 13" "p < 13 * n" unfolding all by auto
      then have "asm_text ?a ! (13 * (p div 13) + p mod 13) = txt ! (13 * (p div 13) + p mod 13)"
        using holds' unfolding holds_blocks_def by blast
      then show "take (13 * n) (asm_text ?a) ! p = txt ! p" using \<open>p < 13 * n\<close> by simp
    qed (use n len in simp)
    then show ?thesis
      using trim_len_le [of "asm_text ?a" "n * 13"] take_trim_len [of "n * 13" "asm_text ?a"] n len
      by (simp add: m17_meta_text_copy_trimmed_def M17_TEXT_MAX_BYTES_def M17_TEXT_BLOCK_BYTES_def M17_TEXT_MAX_BLOCKS_def mult.commute)
  qed
  then show ?thesis by (simp add: push complete)
qed

section \<open>Property\<close>

text \<open>The assembler after blocks of a text were received, from the beginning.\<close>

definition after_blocks :: "nat \<Rightarrow> u8 list \<Rightarrow> nat list \<Rightarrow> m17_meta_text_assembler" where
  "after_blocks n txt is =
     fold (\<lambda>i a. case m17_meta_text_parse_block (block_octets n txt i) of
              Inl _ \<Rightarrow> a | Inr b \<Rightarrow> fst (snd (m17_meta_text_assembler_push a b))) is empty_assembler"

lemma after_blocks_holds:
  assumes "1 \<le> n" "n \<le> 4" "length txt = 13 * n"
  shows "set is \<subseteq> {..<n} \<Longrightarrow> holds_blocks n txt (set is) (after_blocks n txt is)"
proof (induction "is" rule: rev_induct)
  case Nil
  then show ?case by (simp add: after_blocks_def holds_nothing)
next
  case (snoc i "is")
  then have h: "holds_blocks n txt (set is) (after_blocks n txt is)" and i: "i < n" "set is \<subseteq> {..<n}" by auto
  have "after_blocks n txt (is @ [i]) = assembled (after_blocks n txt is) n txt i"
    using parse_block_octets [OF assms(1,2) i(1)] push_text_block [OF h i(2) assms(2) i(1) assms(3)]
    by (simp add: after_blocks_def)
  then show ?case using assembled_holds [OF h i(2) assms(2) i(1) assms(3)] by simp
qed

text \<open>
  C39. A text message of one to four blocks is put together whatever the order in which its blocks are
  received, and however often: each block parses, the push of a block reports the text exactly when
  every block has been received, and then the text is the one sent without its trailing spaces.
\<close>

theorem text_reassembled:
  assumes "1 \<le> n" "n \<le> 4" "length txt = 13 * n" "set is \<subseteq> {..<n}" "i < n"
  shows "\<exists>b a. m17_meta_text_parse_block (block_octets n txt i) = Inr b
    \<and> m17_meta_text_assembler_push (after_blocks n txt is) b =
        (if insert i (set is) = {..<n} then (1, a, rev (dropWhile (\<lambda>c. c = 0x20) (rev txt))) else (0, a, []))"
  using parse_block_octets [OF assms(1,2,5)]
    push_text_block [OF after_blocks_holds [OF assms(1,2,3,4)] assms(4,2,5,3)] by auto

theorem text_reassembled_witness:
  "\<exists>b a. m17_meta_text_parse_block (block_octets 2 (replicate 15 0x41 @ replicate 11 0x20) 0) = Inr b
    \<and> m17_meta_text_assembler_push (after_blocks 2 (replicate 15 0x41 @ replicate 11 0x20) [1, 1]) b = (1, a, replicate 15 0x41)"
proof -
  have "insert 0 (set [1, 1]) = {..<2 :: nat}" by auto
  moreover have "rev (dropWhile (\<lambda>c. c = 0x20) (rev (replicate 15 0x41 @ replicate 11 (0x20 :: u8)))) = replicate 15 0x41"
    by (simp add: dropWhile_append)
  ultimately show ?thesis
    using text_reassembled [of 2 "replicate 15 0x41 @ replicate 11 0x20" "[1, 1]" 0] by simp
qed

end
