(* ===== verification/M17_Frames.thy ===== *)
theory M17_Frames
  imports M17_Algorithms
begin

text \<open>
  What the signal layer of M17 promises: the link information channel corrects three errors in each of
  its words, and the receiver of the test sequence locks onto any sender.
\<close>

section \<open>The link information channel\<close>

lemma upt_blocks: "[0..<4] = [0, 1, 2, 3 :: nat]" "[0..<5] = [0, 1, 2, 3, 4 :: nat]"
  by code_simp+

lemma map_low_bits: "bits xs \<Longrightarrow> n \<le> length xs \<Longrightarrow> map (\<lambda>i. xs ! i AND 1) [0..<n] = take n xs"
  by (rule nth_equalityI) (simp_all add: and_one_bit bits_nth)

lemma map_and_one: "bits xs \<Longrightarrow> map (\<lambda>x. x AND 1) xs = xs"
  by (rule nth_equalityI) (simp_all add: and_one_bit bits_nth)

lemma encode12: "bits d \<Longrightarrow> 12 \<le> length d \<Longrightarrow> m17_golay24_encode12_bits d = Golay_24_12_encode (take 12 d)"
  by (simp only: m17_golay24_encode12_bits_def M17_LICH_GOLAY_DATA_BITS_def map_low_bits map_and_one bits_encode)

lemma decode24:
  assumes "bits d" "length d = 12" "positions 24 ps" "length ps \<le> 3" "bits rest"
  shows "m17_golay24_decode24_bits (flips ps (Golay_24_12_encode d) @ rest) = (True, d)"
proof -
  let ?w = "flips ps (Golay_24_12_encode d)"
  have "map (\<lambda>i. (?w @ rest) ! i AND 1) [0..<24] = ?w"
    using assms(5) by (subst map_low_bits) simp_all
  moreover have "Golay_24_12_decode Golay_24_12_init ?w = (True, Golay_24_12_encode d)"
    by (rule Golay_24_12_corrects) (simp_all add: assms encode_codeword)
  ultimately show ?thesis
    using encode_systematic [OF assms(1,2)] map_low_bits [of "Golay_24_12_encode d" 12]
    by (simp add: m17_golay24_decode24_bits_def M17_LICH_GOLAY_DATA_BITS_def M17_LICH_GOLAY_CODE_BITS_def)
qed

text \<open>What is received when the words of the channel suffer the errors \<open>es\<close>.\<close>

definition received_lich :: "(nat \<Rightarrow> nat list) \<Rightarrow> bit_array \<Rightarrow> bit_array" where
  "received_lich es sent = concat (map (\<lambda>b. flips (es b) (take 24 (drop (24 * b) sent))) [0..<4])"

lemma lich_decodes:
  assumes "bits c" "length c = 48" "\<forall>b < 4. positions 24 (es b) \<and> length (es b) \<le> 3"
  shows "m17_lich_decode_bits (received_lich es (m17_lich_encode_bits c)) = (True, c)"
proof -
  define d where "d b = take 12 (drop (12 * b) c)" for b
  define g where "g b = Golay_24_12_encode (d b)" for b
  have d: "bits (d b)" "length (d b) = 12" if "b < 4" for b using assms(1,2) that by (simp_all add: d_def)
  have enc: "m17_golay24_encode12_bits (drop (b * 12) c) = g b" if "b < 4" for b
    using assms(1,2) that by (subst encode12) (simp_all add: g_def d_def mult.commute)
  have sent: "m17_lich_encode_bits c = g 0 @ g 1 @ g 2 @ g 3"
    using enc [of 0] enc [of 1] enc [of 2] enc [of 3]
    by (simp add: m17_lich_encode_bits_def M17_LICH_GOLAY_BLOCKS_def M17_LICH_GOLAY_DATA_BITS_def upt_blocks)
  have len: "length (g b) = 24" for b by (simp add: g_def)
  let ?w = "\<lambda>b. flips (es b) (g b)"
  have received: "received_lich es (m17_lich_encode_bits c) = ?w 0 @ ?w 1 @ ?w 2 @ ?w 3"
    by (simp add: received_lich_def sent upt_blocks len)
  have word: "m17_golay24_decode24_bits (?w b @ rest) = (True, d b)" if "b < 4" "bits rest" for b rest
    unfolding g_def by (rule decode24) (use d assms(3) that in auto)
  have bw: "bits (?w b)" for b by (simp add: g_def)
  have "c = d 0 @ d 1 @ d 2 @ d 3"
  proof -
    have "take 12 c @ drop 12 c = c" "take 12 (drop 12 c) @ drop 24 c = drop 12 c" "take 12 (drop 24 c) @ drop 36 c = drop 24 c"
      using append_take_drop_id [of 12 "drop 12 c"] append_take_drop_id [of 12 "drop 24 c"] by simp_all
    then have "c = take 12 c @ take 12 (drop 12 c) @ take 12 (drop 24 c) @ drop 36 c" by simp
    then show ?thesis using assms(2) by (simp add: d_def)
  qed
  then show ?thesis
    unfolding received m17_lich_decode_bits_def M17_LICH_GOLAY_BLOCKS_def M17_LICH_GOLAY_CODE_BITS_def
    using word [of 0 "?w 1 @ ?w 2 @ ?w 3"] word [of 1 "?w 2 @ ?w 3"] word [of 2 "?w 3"] word [of 3 "[]"] bw
    by (simp add: upt_blocks len)
qed

lemma lich_content_parses:
  assumes "cnt < 6"
  shows "\<exists>c. m17_lich_build_content lsf cnt = Some c \<and> bits c \<and> length c = 48
    \<and> take 40 c = map (\<lambda>i. lsf ! (cnt * 40 + i) AND 1) [0..<40] \<and> m17_lich_parse_content c = (True, cnt, 0)"
proof -
  define m where "m = map (\<lambda>i. lsf ! (cnt * 40 + i) AND 1) [0..<40]"
  define c where "c = m @ [drop_bit 2 cnt AND 1, drop_bit 1 cnt AND 1, cnt AND 1, 0, 0, 0, 0, 0]"
  have m: "length m = 40" "bits m" by (auto simp: m_def bits_def and_one_eq)
  have "m17_lich_build_content lsf cnt = Some c"
    using assms
    by (simp add: m17_lich_build_content_def M17_LICH_CHUNKS_def M17_LICH_CHUNK_BITS_def M17_LICH_RESERVED_BITS_def m_def c_def
        numeral_eq_Suc)
  moreover have "m17_lich_parse_content c = (True, cnt, 0)"
  proof -
    have "cnt \<in> {0, 1, 2, 3, 4, 5}" using assms by auto
    moreover have "c ! 40 = drop_bit 2 cnt AND 1" "c ! 41 = drop_bit 1 cnt AND 1" "c ! 42 = cnt AND 1"
      "c ! 43 = 0" "c ! 44 = 0" "c ! 45 = 0" "c ! 46 = 0" "c ! 47 = 0"
      using m(1) by (simp_all add: nth_append c_def)
    ultimately show ?thesis
      unfolding m17_lich_parse_content_def M17_LICH_RESERVED_BITS_def M17_LICH_CHUNKS_def Let_def
      by (auto simp: upt_blocks)
  qed
  ultimately show ?thesis using m by (intro exI [of _ c]) (auto simp: m_def c_def bits_def and_one_eq)
qed

text \<open>
  C33. A chunk of a link setup frame survives the link information channel: the content built for chunk
  \<open>cnt\<close>, encoded and received with up to three wrong bits in each of its four words, decodes without an
  error report to the content sent, which carries the forty bits of the chunk and parses to its number.
\<close>

theorem lich_roundtrip:
  assumes "cnt < 6" "\<forall>b < 4. positions 24 (es b) \<and> length (es b) \<le> 3"
  shows "\<exists>c. m17_lich_build_content lsf cnt = Some c
    \<and> m17_lich_decode_bits (received_lich es (m17_lich_encode_bits c)) = (True, c)
    \<and> take 40 c = map (\<lambda>i. lsf ! (cnt * 40 + i) AND 1) [0..<40] \<and> m17_lich_parse_content c = (True, cnt, 0)"
proof -
  obtain c where "m17_lich_build_content lsf cnt = Some c" "bits c" "length c = 48"
    "take 40 c = map (\<lambda>i. lsf ! (cnt * 40 + i) AND 1) [0..<40]" "m17_lich_parse_content c = (True, cnt, 0)"
    using lich_content_parses [OF assms(1)] by blast
  then show ?thesis using lich_decodes [OF _ _ assms(2)] by blast
qed

theorem lich_roundtrip_witness:
  "\<exists>c. m17_lich_build_content (replicate 240 1) 5 = Some c
    \<and> m17_lich_decode_bits (received_lich (\<lambda>b. [b, 9, 23]) (m17_lich_encode_bits c)) = (True, c)
    \<and> take 40 c = map (\<lambda>i. replicate 240 1 ! (5 * 40 + i) AND 1) [0..<40] \<and> m17_lich_parse_content c = (True, 5, 0)"
  using lich_roundtrip [of 5 "\<lambda>b. [b, 9, 23]"] by (simp add: positions_def)

section \<open>The test sequence\<close>

lemma prbs9_mask: "M17_PRBS9_MASK = mask 9"
  by (simp add: M17_PRBS9_MASK_def mask_eq_exp_minus_1)

text \<open>The register of the sender: its output bit, and the register after it.\<close>

definition prbs_out :: "u16 \<Rightarrow> bool" where
  "prbs_out s \<longleftrightarrow> bit s 8 \<noteq> bit s 4"

definition prbs_shift :: "bool \<Rightarrow> u16 \<Rightarrow> u16" where
  "prbs_shift b s = (push_bit 1 s OR of_bool b) AND mask 9"

definition prbs_state :: "u16 \<Rightarrow> bool" where
  "prbs_state s \<longleftrightarrow> s AND mask 9 = s \<and> s \<noteq> 0"

lemma bit_prbs_shift: "bit (prbs_shift b s) i \<longleftrightarrow> i < 9 \<and> (if i = 0 then b else bit s (i - 1))"
  using bit_msb_shift [of b s i] unfolding msb_shift_def prbs_shift_def
  by (auto simp: bit_and_iff bit_mask_iff simp del: push_bit_of_1)

lemma prbs9_feedback_out: "prbs9_feedback s = of_bool (prbs_out s)"
proof -
  have "x AND 1 = of_bool (bit x 0)" for x :: u16 by (simp add: and_one_eq mod_2_eq_odd bit_0)
  then show ?thesis by (simp add: prbs9_feedback_def prbs_out_def bit_xor_iff bit_drop_bit_eq)
qed

lemma prbs_state_bits: "s AND mask 9 = s \<longleftrightarrow> (\<forall>i. bit s i \<longrightarrow> i < 9)" for s :: u16
proof
  assume masked: "s AND mask 9 = s"
  show "\<forall>i. bit s i \<longrightarrow> i < 9"
  proof (intro allI impI)
    fix i assume "bit s i"
    then have "bit (s AND mask 9) i" by (simp only: masked)
    then show "i < 9" by (simp add: bit_and_iff bit_mask_iff)
  qed
qed (auto intro!: bit_eqI simp: bit_and_iff bit_mask_iff dest: bit_imp_le_length)

lemma prbs_state_next:
  assumes "prbs_state s"
  shows "prbs_state (prbs_shift (prbs_out s) s)"
proof -
  have "prbs_shift (prbs_out s) s \<noteq> 0"
  proof
    assume "prbs_shift (prbs_out s) s = 0"
    then have no: "\<not> bit (prbs_shift (prbs_out s) s) i" for i by simp
    have low: "\<not> bit s i" if "i < 8" for i using no [of "Suc i"] that by (simp add: bit_prbs_shift)
    then have "\<not> bit s 8" using no [of 0] by (simp add: bit_prbs_shift prbs_out_def)
    then have "\<not> bit s i" for i
      using low [of i] assms by (cases i "8 :: nat" rule: linorder_cases) (auto simp: prbs_state_def prbs_state_bits)
    then show False using assms by (simp add: prbs_state_def bit_eq_iff)
  qed
  then show ?thesis by (simp add: prbs_state_def prbs_shift_def)
qed

lemma next_bit_state: "prbs_state s \<Longrightarrow> m17_prbs9_next_bit s = (of_bool (prbs_out s), prbs_shift (prbs_out s) s)"
  by (simp add: m17_prbs9_next_bit_def prbs_state_def prbs9_mask prbs9_feedback_out prbs_shift_def Let_def)

section \<open>The receiver while it searches\<close>

text \<open>
  The registers agree in their low bits; and the phase of the search after \<open>n\<close> bits: in step, or still
  shifting in, or shifting in again after the receiver found its register empty and put a one in it.
\<close>

definition agree :: "nat \<Rightarrow> u16 \<Rightarrow> u16 \<Rightarrow> bool" where
  "agree k l s \<longleftrightarrow> (\<forall>i < k. bit l i = bit s i)"

definition phase :: "nat \<Rightarrow> u16 \<Rightarrow> u16 \<Rightarrow> bool" where
  "phase n l s \<longleftrightarrow> l = s \<or> (n \<le> 8 \<and> agree n l s) \<or> (\<exists>m \<le> 8. bit l m \<and> agree m l s \<and> n \<le> m + 8)"

lemma agree_shift: "agree k l s \<Longrightarrow> agree (Suc k) (prbs_shift b l) (prbs_shift b s)"
  by (auto simp: agree_def bit_prbs_shift)

lemma agree_all:
  assumes "agree 9 l s" "l AND mask 9 = l" "s AND mask 9 = s"
  shows "l = s"
proof (rule bit_eqI)
  show "bit l n = bit s n" for n using assms by (cases "n < 9") (auto simp: agree_def prbs_state_bits)
qed

lemma shift_masked [simp]: "prbs_shift b l AND mask 9 = prbs_shift b l"
  by (simp add: prbs_shift_def)

text \<open>One more bit. The receiver replaces an empty register by one before it shifts.\<close>

lemma phase_step:
  assumes ph: "phase n l s" and s: "prbs_state s" and n: "l = 0 \<Longrightarrow> 0 < n"
  defines "b \<equiv> prbs_out s"
  shows "phase (Suc n) (prbs_shift b (if l = 0 then 1 else l)) (prbs_shift b s)"
proof -
  consider (same) "l = s" | (first) "n \<le> 8" "agree n l s" "l \<noteq> 0" | (empty) "n \<le> 8" "l = 0"
    | (again) m where "m \<le> 8" "bit l m" "agree m l s" "n \<le> m + 8"
    using ph by (auto simp: phase_def)
  then show ?thesis
  proof cases
    case same
    then show ?thesis using s by (simp add: phase_def prbs_state_def)
  next
    case first
    have "agree (Suc n) (prbs_shift b l) (prbs_shift b s)" by (rule agree_shift) (rule first(2))
    moreover have "prbs_shift b l = prbs_shift b s" if "n = 8"
      using agree_all [OF _ shift_masked shift_masked] calculation that by simp
    ultimately show ?thesis using first by (auto simp: phase_def)
  next
    case empty
    have "bit (prbs_shift b 1) 1" "agree 1 (prbs_shift b 1) (prbs_shift b s)"
      by (simp_all add: bit_prbs_shift agree_def bit_1_iff)
    then show ?thesis using empty unfolding phase_def by (intro disjI2 exI [of _ 1]) simp
  next
    case again
    then have l: "l \<noteq> 0" by auto
    have a: "agree (Suc m) (prbs_shift b l) (prbs_shift b s)" by (rule agree_shift) (rule again(3))
    show ?thesis
    proof (cases "m = 8")
      case True
      then have "prbs_shift b l = prbs_shift b s"
        using agree_all [OF _ shift_masked shift_masked] a by simp
      then show ?thesis using l by (simp add: phase_def)
    next
      case False
      then have "bit (prbs_shift b l) (Suc m)" using again by (simp add: bit_prbs_shift)
      then show ?thesis using again False a l unfolding phase_def by (intro disjI2 exI [of _ "Suc m"]) simp
    qed
  qed
qed

lemma phase_in_step: "phase n l s \<Longrightarrow> 17 \<le> n \<Longrightarrow> l = s"
  by (auto simp: phase_def)

section \<open>The receiver locks\<close>

definition rx_run :: "u8 list \<Rightarrow> m17_prbs9_rx_state \<Rightarrow> m17_prbs9_rx_state" where
  "rx_run bs rx = fold (\<lambda>b rx. snd (m17_prbs9_rx_push_bit rx b)) bs rx"

text \<open>After \<open>n\<close> bits of a sender that now holds \<open>s\<close>.\<close>

definition rx_inv :: "nat \<Rightarrow> u16 \<Rightarrow> m17_prbs9_rx_state \<Rightarrow> bool" where
  "rx_inv n s rx \<longleftrightarrow> total_errors rx = 0 \<and>
     (locked rx = 0 \<and> unat (lock_count rx) < 18 \<and> unat (lock_count rx) \<le> n \<and> n - 17 \<le> unat (lock_count rx)
        \<and> phase n (rx_lfsr rx) s \<and> (n = 0 \<longrightarrow> rx_lfsr rx \<noteq> 0)
      \<or> locked rx = 1 \<and> 18 \<le> n \<and> rx_lfsr rx = s \<and> window_errors rx = 0)"

lemma bit_masks: "of_bool b AND 1 = (of_bool b :: u8)" "ucast (of_bool b :: u8) = (of_bool b :: u16)"
  by (cases b; simp)+

lemma count_up:
  assumes "unat c < 18"
  shows "unat (c + 1 :: u16) = unat c + 1" "c + 1 \<ge> M17_PRBS9_LOCK_BITS \<longleftrightarrow> unat c = 17"
proof -
  show u: "unat (c + 1) = unat c + 1" using assms by (simp add: unat_word_ariths)
  show "c + 1 \<ge> M17_PRBS9_LOCK_BITS \<longleftrightarrow> unat c = 17"
    using assms by (simp add: M17_PRBS9_LOCK_BITS_def word_le_nat_alt u) linarith
qed

lemma push_searching:
  "rx_push_searching rx (of_bool b) =
    (let count = (if prbs_out (rx_lfsr rx) = b then lock_count rx + 1 else 0);
         rx = rx\<lparr>lock_count := count, rx_lfsr := prbs_shift b (rx_lfsr rx)\<rparr>
     in if count \<ge> M17_PRBS9_LOCK_BITS then rx\<lparr>locked := 1, window_bits := 0, window_errors := 0\<rparr> else rx)"
proof -
  have "(of_bool a :: u16) = of_bool b \<longleftrightarrow> a = b" for a by (cases a; cases b) simp_all
  then show ?thesis
    by (simp add: rx_push_searching_def prbs9_feedback_out bit_masks prbs_shift_def prbs9_mask Let_def del: push_bit_of_1)
qed

lemma searching_step:
  assumes inv: "rx_inv n s rx" "locked rx = 0" and s: "prbs_state s"
  shows "rx_inv (Suc n) (prbs_shift (prbs_out s) s) (snd (m17_prbs9_rx_push_bit rx (of_bool (prbs_out s))))"
proof -
  define l where "l = (if rx_lfsr rx = 0 then 1 else rx_lfsr rx)"
  define b where "b = prbs_out s"
  define hit where "hit = (prbs_out l = b)"
  have i: "unat (lock_count rx) < 18" "unat (lock_count rx) \<le> n" "n - 17 \<le> unat (lock_count rx)" "phase n (rx_lfsr rx) s"
    "n = 0 \<longrightarrow> rx_lfsr rx \<noteq> 0" "total_errors rx = 0"
    using inv by (simp_all add: rx_inv_def)
  have ph: "phase (Suc n) (prbs_shift b l) (prbs_shift b s)"
    unfolding b_def l_def by (rule phase_step [OF i(4) s]) (use i(5) in auto)
  have known: "hit" if "17 \<le> n"
    using phase_in_step [OF i(4) that] s by (simp add: hit_def l_def b_def prbs_state_def)
  have push: "snd (m17_prbs9_rx_push_bit rx (of_bool b)) = rx_push_searching (rx\<lparr>rx_lfsr := l\<rparr>) (of_bool b)"
    using inv(2) by (simp add: m17_prbs9_rx_push_bit_def l_def bit_masks Let_def)
  note count = count_up [OF i(1)]
  consider (miss) "\<not> hit" | (counted) "hit" "unat (lock_count rx) \<noteq> 17" | (locks) "hit" "unat (lock_count rx) = 17"
    by blast
  then show ?thesis
  proof cases
    case miss
    then have "n < 17" using known by (meson not_le)
    moreover have "\<not> (0 :: u16) \<ge> M17_PRBS9_LOCK_BITS" by (simp add: M17_PRBS9_LOCK_BITS_def)
    ultimately show ?thesis
      using miss ph i inv(2) unfolding b_def [symmetric] push push_searching
      by (simp add: hit_def rx_inv_def Let_def)
  next
    case counted
    then show ?thesis
      using ph i inv(2) count unfolding b_def [symmetric] push push_searching
      by (simp add: hit_def rx_inv_def Let_def)
  next
    case locks
    then have "17 \<le> n" using i by simp
    then have "prbs_shift b l = prbs_shift b s" using phase_in_step [OF ph] by simp
    then show ?thesis
      using locks \<open>17 \<le> n\<close> i count unfolding b_def [symmetric] push push_searching
      by (simp add: hit_def rx_inv_def Let_def)
  qed
qed

lemma locked_step:
  assumes inv: "rx_inv n s rx" "locked rx \<noteq> 0" and s: "prbs_state s"
  shows "rx_inv (Suc n) (prbs_shift (prbs_out s) s) (snd (m17_prbs9_rx_push_bit rx (of_bool (prbs_out s))))
    \<and> fst (m17_prbs9_rx_push_bit rx (of_bool (prbs_out s))) = 1"
proof -
  have i: "locked rx = 1" "18 \<le> n" "rx_lfsr rx = s" "window_errors rx = 0" "total_errors rx = 0"
    using inv by (auto simp: rx_inv_def)
  have "s \<noteq> 0" using s by (simp add: prbs_state_def)
  moreover have "\<not> (0 :: u16) > M17_PRBS9_RESYNC_ERROR_THRESHOLD" by simp
  ultimately show ?thesis
    using i by (simp add: m17_prbs9_rx_push_bit_def rx_push_locked_def next_bit_state [OF s] bit_masks Let_def rx_inv_def)
qed

lemma rx_step:
  "rx_inv n s rx \<Longrightarrow> prbs_state s \<Longrightarrow>
    rx_inv (Suc n) (prbs_shift (prbs_out s) s) (snd (m17_prbs9_rx_push_bit rx (of_bool (prbs_out s))))"
  using searching_step locked_step by blast

lemma rx_run_inv:
  "rx_inv k s rx \<Longrightarrow> prbs_state s \<Longrightarrow>
    rx_inv (k + n) (snd (m17_prbs9_fill_bits n s)) (rx_run (fst (m17_prbs9_fill_bits n s)) rx)
    \<and> prbs_state (snd (m17_prbs9_fill_bits n s))"
proof (induction n arbitrary: k s rx)
  case (Suc n)
  let ?s = "prbs_shift (prbs_out s) s"
  let ?rx = "snd (m17_prbs9_rx_push_bit rx (of_bool (prbs_out s)))"
  have "ucast (of_bool b :: u16) = (of_bool b :: u8)" for b by (cases b) simp_all
  then have "m17_prbs9_fill_bits (Suc n) s = (of_bool (prbs_out s) # fst (m17_prbs9_fill_bits n ?s), snd (m17_prbs9_fill_bits n ?s))"
    by (simp add: next_bit_state [OF Suc.prems(2)] split: prod.splits)
  moreover have "rx_inv (Suc k) ?s ?rx" "prbs_state ?s"
    using rx_step [OF Suc.prems] prbs_state_next [OF Suc.prems(2)] by simp_all
  ultimately show ?case using Suc.IH [of "Suc k" ?s ?rx] by (simp add: rx_run_def)
qed (simp add: rx_run_def)

text \<open>Every register counts as one that is not empty.\<close>

definition prbs_seed :: "u16 \<Rightarrow> u16" where
  "prbs_seed s = (if s AND mask 9 = 0 then 1 else s AND mask 9)"

lemma prbs_seed_state: "prbs_state (prbs_seed s)"
proof -
  have "(1 :: u16) AND mask 9 = 1" by (simp add: mask_eq_exp_minus_1)
  then show ?thesis by (simp add: prbs_state_def prbs_seed_def and.assoc)
qed

lemma fill_bits_seed: "0 < n \<Longrightarrow> m17_prbs9_fill_bits n (prbs_seed s) = m17_prbs9_fill_bits n s"
proof (cases n)
  case (Suc k)
  have "m17_prbs9_next_bit (prbs_seed s) = m17_prbs9_next_bit s"
    using prbs_seed_state [of s] by (simp add: m17_prbs9_next_bit_def prbs9_mask prbs_state_def prbs_seed_def Let_def)
  then show ?thesis by (simp add: Suc)
qed simp

lemma rx_init_inv: "rx_inv 0 s (m17_prbs9_rx_init l)"
  by (simp add: rx_inv_def m17_prbs9_rx_init_def Let_def phase_def agree_def)

text \<open>
  C34. The receiver of the test sequence locks. Whatever the registers of sender and receiver hold at
  the start, after thirty-five or more bits of the sender's sequence the receiver is locked, holds the
  sender's register, has counted no error, and reports the sender's next bit as correct.
\<close>

theorem prbs9_rx_locks:
  assumes "35 \<le> n"
  shows "locked (rx_run (fst (m17_prbs9_fill_bits n s)) (m17_prbs9_rx_init l)) = 1
    \<and> rx_lfsr (rx_run (fst (m17_prbs9_fill_bits n s)) (m17_prbs9_rx_init l)) = snd (m17_prbs9_fill_bits n s)
    \<and> total_errors (rx_run (fst (m17_prbs9_fill_bits n s)) (m17_prbs9_rx_init l)) = 0
    \<and> fst (m17_prbs9_rx_push_bit (rx_run (fst (m17_prbs9_fill_bits n s)) (m17_prbs9_rx_init l))
        (ucast (fst (m17_prbs9_next_bit (snd (m17_prbs9_fill_bits n s)))))) = 1"
proof -
  let ?s = "prbs_seed s"
  let ?t = "snd (m17_prbs9_fill_bits n ?s)" and ?rx = "rx_run (fst (m17_prbs9_fill_bits n ?s)) (m17_prbs9_rx_init l)"
  have same: "m17_prbs9_fill_bits n s = m17_prbs9_fill_bits n ?s" using assms by (simp add: fill_bits_seed)
  have inv: "rx_inv n ?t ?rx" "prbs_state ?t"
    using rx_run_inv [OF rx_init_inv prbs_seed_state, of n s l] by simp_all
  then have on: "locked ?rx = 1" "rx_lfsr ?rx = ?t" "total_errors ?rx = 0" using assms by (auto simp: rx_inv_def)
  have "fst (m17_prbs9_rx_push_bit ?rx (of_bool (prbs_out ?t))) = 1" using locked_step [OF inv(1) _ inv(2)] on by simp
  moreover have "ucast (of_bool b :: u16) = (of_bool b :: u8)" for b by (cases b) simp_all
  ultimately show ?thesis using on by (simp add: same next_bit_state [OF inv(2)])
qed

theorem prbs9_rx_locks_witness:
  "locked (rx_run (fst (m17_prbs9_fill_bits 35 0)) (m17_prbs9_rx_init 0x100)) = 1"
  using prbs9_rx_locks [of 35 0 "0x100"] by simp

end
