(* ===== verification/M17_Trellis.thy ===== *)
theory M17_Trellis
  imports Nxdn_Convolution M17_Algorithms Bit_Packing
begin

text \<open>
  How M17 reads its convolutional code, \<open>src/protocol/m17/m17.c\<close>: every twelfth coded bit is not sent and
  is handed to the decoder of \<open>Nxdn_Convolution\<close> as a received zero. Shown by a potential over the states
  of the code and the phase of the puncturing: such a frame still decodes, and from a clean start even
  with one wrong bit.
\<close>

section \<open>Reading a frame\<close>

definition m17_depuncture_p2_hard :: "bit_array \<Rightarrow> nat \<Rightarrow> bit_array" where
  "m17_depuncture_p2_hard punctured depunc_bits =
     fst (fold (\<lambda>i (depunc, bit_in).
            if m17_puncture_pattern_2 ! (i mod length m17_puncture_pattern_2) = 1 \<and> bit_in < M17_PAYLOAD_BITS
            then (depunc @ [punctured ! bit_in], bit_in + 1) else (depunc @ [0], bit_in))
          [0..<depunc_bits] ([], 0))"

definition m17_decode_bert_payload_bits :: "bit_array \<Rightarrow> conv \<Rightarrow> bit_array \<times> conv" where
  "m17_decode_bert_payload_bits m17_bits st =
     (let depunc = m17_depuncture_p2_hard m17_bits M17_BERT_TYPE2_BITS;
          temp = map (\<lambda>x. push_bit 1 x mod 256) depunc;
          st = CNXDNConvolution_start st;
          st = fold (\<lambda>i. CNXDNConvolution_decode (temp ! (2 * i)) (temp ! (2 * i + 1)))
                 [0..<M17_BERT_PAYLOAD_BITS + M17_BERT_FLUSH_BITS] st;
          (m_data, st) = CNXDNConvolution_chainback (replicate 25 0) M17_BERT_PAYLOAD_BITS st;
          decoded_bits = the (snd (dsd_unpack_bytes_to_bits (Some m_data) 25 (Some (replicate 200 0)) 200 25))
      in (map unat (take M17_BERT_PAYLOAD_BITS decoded_bits), st))"

text \<open>The part of \<open>M17prepareStream\<close> up to the bits of the frame.\<close>

definition stream_depuncture :: "bit_array \<Rightarrow> bit_array" where
  "stream_depuncture m17_punc =
     concat (map (\<lambda>i. take 11 (drop (11 * i) m17_punc) @ [0]) [0..<25])"

definition stream_trellis :: "bit_array \<Rightarrow> conv \<Rightarrow> bit_array \<times> conv" where
  "stream_trellis m17_bits st =
     (let m17_punc = map (\<lambda>i. m17_bits ! (i + 96)) [0..<272] @ replicate 3 0;
          temp = map (\<lambda>x. push_bit 1 x mod 256) (take 296 (stream_depuncture m17_punc));
          st = CNXDNConvolution_start st;
          st = fold (\<lambda>i. CNXDNConvolution_decode (temp ! (2 * i)) (temp ! (2 * i + 1))) [0..<148] st;
          (m_data, st) = CNXDNConvolution_chainback (replicate 28 0) 144 st;
          trellis_buf = the (snd (dsd_unpack_bytes_to_bits (Some m_data) 28 (Some (replicate 144 0)) 144 18))
      in (map unat trellis_buf, st))"

section \<open>The cost of a wrong path\<close>

text \<open>
  The steps whose second bit is not sent: one in six, and the last one where the frame is cut short. The
  gain of a difference word in a step is how many received bits tell it from the word sent, less the bits
  it can win back where a zero stands for an unsent one.
\<close>

definition unsent :: "bool \<Rightarrow> nat \<Rightarrow> nat \<Rightarrow> bool" where
  "unsent short N t \<longleftrightarrow> t mod 6 = 5 \<or> (short \<and> t + 1 = N)"

definition gain :: "bool \<Rightarrow> bool \<times> bool \<Rightarrow> int" where
  "gain missing p = of_bool (fst p) + (if missing then - of_bool (snd p) else of_bool (snd p))"

text \<open>The least total gain of a path from a state to the end of the frame, by phase of the puncturing.\<close>

definition potential_table :: "int list list" where
  "potential_table =
    [[0, 3, 2, 2, 3, 2, 3, 4, 2, 3, 2, 3, 3, 2, 1, 4],
     [0, 2, 2, 3, 1, 2, 2, 3, 2, 2, 2, 2, 1, 3, 3, 3],
     [0, 3, 3, 1, 3, 1, 3, 2, 0, 3, 3, 2, 3, 2, 2, 2],
     [0, 3, 2, 2, 2, 2, 1, 2, 2, 3, 2, 1, 2, 3, 1, 2],
     [0, 3, 3, 2, 1, 3, 2, 1, 1, 3, 3, 2, 1, 1, 1, 1],
     [0, 1, 2, 3, 2, 2, 2, 2, 0, 1, 1, 3, 1, 2, 2, 0]]"

definition potential :: "nat \<Rightarrow> nat \<Rightarrow> int" where
  "potential p q = potential_table ! p ! q"

lemma potential_edge:
  assumes "p < 6"
  shows "potential p (nibble a b c d) \<le> gain (p = 5) (sent a b c d u) + potential ((p + 1) mod 6) (nibble b c d u)"
proof -
  have "\<forall>p\<in>set [0..<6]. \<forall>a\<in>{False, True}. \<forall>b\<in>{False, True}. \<forall>c\<in>{False, True}. \<forall>d\<in>{False, True}. \<forall>u\<in>{False, True}.
      potential p (nibble a b c d) \<le> gain (p = 5) (sent a b c d u) + potential ((p + 1) mod 6) (nibble b c d u)"
    by code_simp
  moreover have "x \<in> {False, True}" for x by simp
  moreover have "p \<in> set [0..<6]" using assms by simp
  ultimately show ?thesis by blast
qed

lemma potential_start: "0 < q \<Longrightarrow> q < 16 \<Longrightarrow> 1 \<le> potential 0 q"
proof -
  have "\<forall>q\<in>set [1..<16]. 1 \<le> potential 0 q" by code_simp
  moreover assume "0 < q" "q < 16"
  ultimately show ?thesis by simp
qed

lemma potential_diverge: "p < 6 \<Longrightarrow> 3 \<le> gain (p = 5) (sent False False False False True) + potential ((p + 1) mod 6) 1"
proof -
  have "\<forall>p\<in>set [0..<6]. 3 \<le> gain (p = 5) (sent False False False False True) + potential ((p + 1) mod 6) 1" by code_simp
  then show "p < 6 \<Longrightarrow> ?thesis" by simp
qed

lemma potential_end: "p < 6 \<Longrightarrow> potential p 0 = 0" "potential 2 8 = 0"
proof -
  have "\<forall>p\<in>set [0..<6]. potential p 0 = 0" by code_simp
  then show "p < 6 \<Longrightarrow> potential p 0 = 0" by simp
  show "potential 2 8 = 0" by code_simp
qed

text \<open>The gain from step \<open>k\<close> on is at least the potential there.\<close>

definition gain_from :: "bool \<Rightarrow> nat \<Rightarrow> bool list \<Rightarrow> nat \<Rightarrow> int" where
  "gain_from short N e k = (\<Sum>t = k..<N. gain (unsent short N t) (code_pair e t))"

lemma gain_from_step: "k < N \<Longrightarrow> gain_from short N e k = gain (unsent short N k) (code_pair e k) + gain_from short N e (k + 1)"
  by (simp add: gain_from_def sum.atLeast_Suc_lessThan)

lemma state4_shift:
  "state4 e k = nibble (e ! k) (e ! (k + 1)) (e ! (k + 2)) (e ! (k + 3))"
  "state4 e (k + 1) = nibble (e ! (k + 1)) (e ! (k + 2)) (e ! (k + 3)) (e ! (k + 4))"
  by (simp add: state4_def) (rule state4_next)

lemma gain_from_potential:
  assumes tail: "\<forall>j \<in> {N..<N + 4}. \<not> e ! j" and short: "short \<Longrightarrow> N mod 6 = 3 \<and> k < N" and k: "k \<le> N"
  shows "potential (k mod 6) (state4 e k) \<le> gain_from short N e k"
proof -
  define M where "M = (if short then N - 1 else N)"
  have "k \<le> M" using short k by (auto simp: M_def)
  then show ?thesis
  proof (induction k rule: inc_induct)
    case base
    show ?case
    proof (cases short)
      case False
      have "state4 e N = 0" using tail by (simp add: state4_shift nibble_def)
      then show ?thesis using False by (simp add: M_def gain_from_def potential_end)
    next
      case True
      define m where "m = N - 1"
      have N: "N mod 6 = 3" "N = m + 1" using True short by (auto simp: m_def)
      have m: "m mod 6 = 2" using N by presburger
      have tail': "\<not> e ! (m + 1)" "\<not> e ! (m + 2)" "\<not> e ! (m + 3)" "\<not> e ! (m + 4)"
        using tail unfolding N(2) by auto
      have state: "state4 e m = (if e ! m then 8 else 0)" using tail' by (simp add: state4_shift(1) nibble_def)
      have pair: "code_pair e m = (e ! m, e ! m)" using tail' by (simp add: code_pair_def sent_def)
      have "gain_from short N e m = gain True (code_pair e m)"
        using True by (simp add: gain_from_def N(2) unsent_def)
      then have "gain_from short N e m = 0" by (simp add: pair gain_def)
      moreover have "potential 2 (state4 e m) = 0" by (simp add: state potential_end)
      moreover have "M = m" using True by (simp add: M_def m_def)
      ultimately show ?thesis by (simp add: m)
    qed
  next
    case (step n)
    have n: "n < N" "unsent short N n \<longleftrightarrow> n mod 6 = 5" using step.hyps by (auto simp: M_def unsent_def split: if_splits)
    have "potential (n mod 6) (state4 e n)
        \<le> gain (n mod 6 = 5) (code_pair e n) + potential ((n mod 6 + 1) mod 6) (state4 e (n + 1))"
      unfolding code_pair_def state4_next by (subst state4_def) (rule potential_edge, simp)
    moreover have "(n mod 6 + 1) mod 6 = (n + 1) mod 6" by (simp add: mod_simps)
    ultimately show ?case using step.IH gain_from_step [OF n(1), of short e] n(2) by simp
  qed
qed

text \<open>A wrong path gains, from the start state of the right one at least three.\<close>

lemma gain_diverging:
  assumes tail: "\<forall>j \<in> {N..<N + 4}. \<not> e ! j" and short: "short \<Longrightarrow> N mod 6 = 3"
    and start: "\<forall>j < 4. \<not> e ! j" and wrong: "j < N" "e ! j"
  shows "3 \<le> gain_from short N e 0"
proof -
  define f where "f = (LEAST j. e ! j)"
  have f: "e ! f" "\<And>i. i < f \<Longrightarrow> \<not> e ! i" "f \<le> j"
    using wrong(2) by (auto simp: f_def intro: LeastI Least_le dest: not_less_Least)
  have "4 \<le> f" using f(1) start by (meson not_le)
  then obtain t where t: "f = t + 4" by (metis add.commute le_Suc_ex)
  have before: "gain_from short N e 0 = gain_from short N e t"
  proof -
    have "gain (unsent short N i) (code_pair e i) = 0" if "i < t" for i
      using f(2) that t by (simp add: code_pair_def sent_def gain_def)
    moreover have "t \<le> N" using f(3) wrong(1) t by simp
    ultimately show ?thesis
      unfolding gain_from_def using sum.atLeastLessThan_concat [of 0 t N "\<lambda>i. gain (unsent short N i) (code_pair e i)"]
      by simp
  qed
  have room: "t + 4 < N" using f(3) wrong(1) t by simp
  have zeros: "\<not> e ! t" "\<not> e ! (t + 1)" "\<not> e ! (t + 2)" "\<not> e ! (t + 3)" "e ! (t + 4)" using f t by auto
  have pair: "code_pair e t = sent False False False False True" using zeros by (simp add: code_pair_def)
  have state: "state4 e (t + 1) = 1" unfolding state4_next using zeros by (simp add: nibble_def)
  have "potential ((t + 1) mod 6) 1 \<le> gain_from short N e (t + 1)"
    using gain_from_potential [OF tail, of short "t + 1"] short room unfolding state by simp
  moreover have "3 \<le> gain (t mod 6 = 5) (sent False False False False True) + potential ((t mod 6 + 1) mod 6) 1"
    by (rule potential_diverge) simp
  moreover have "(t mod 6 + 1) mod 6 = (t + 1) mod 6" by (simp add: mod_simps)
  moreover have "unsent short N t \<longleftrightarrow> t mod 6 = 5" using room by (simp add: unsent_def)
  ultimately show ?thesis using gain_from_step [of t N short e] room by (simp add: before pair)
qed

section \<open>Distances\<close>

text \<open>What is received of a word: the coded bits with the errors \<open>E\<close>, and zero for the unsent ones.\<close>

definition received_word :: "bool \<Rightarrow> nat \<Rightarrow> nat set \<Rightarrow> bool list \<Rightarrow> (nat \<times> nat) list" where
  "received_word short N E w =
     map (\<lambda>t. (symbol (fst (code_pair w t) \<noteq> (2 * t \<in> E)),
               if unsent short N t then 0 else symbol (snd (code_pair w t) \<noteq> (2 * t + 1 \<in> E)))) [0..<N]"

definition differences :: "bool list \<Rightarrow> bool list \<Rightarrow> bool list" where
  "differences w v = map2 (\<noteq>) w v"

lemma code_pair_differences:
  assumes "length w = N + 4" "length v = N + 4" "t < N"
  shows "fst (code_pair (differences w v) t) \<longleftrightarrow> fst (code_pair w t) \<noteq> fst (code_pair v t)"
    "snd (code_pair (differences w v) t) \<longleftrightarrow> snd (code_pair w t) \<noteq> snd (code_pair v t)"
  using assms by (auto simp: code_pair_def sent_def differences_def)

lemma symbol_costs:
  "int (abs_diff (symbol (x \<noteq> f)) (symbol y)) - int (abs_diff (symbol (x \<noteq> f)) (symbol x))
    \<ge> 2 * of_bool (x \<noteq> y) - 4 * of_bool f"
  "int (abs_diff 0 (symbol y)) - int (abs_diff 0 (symbol x)) \<ge> - 2 * of_bool (x \<noteq> y)"
  by (cases x; cases y; cases f; simp add: symbol_def abs_diff_def)+

lemma frame_distance_gain:
  assumes len: "length w = N + 4" "length v = N + 4" and E: "finite E"
  shows "int (frame_distance (received_word short N E w) v) - int (frame_distance (received_word short N E w) w)
    \<ge> 2 * gain_from short N (differences w v) 0 - 4 * int (card E)"
proof -
  let ?obs = "received_word short N E w" and ?e = "differences w v"
  let ?hit = "\<lambda>t. of_bool (2 * t \<in> E) + of_bool (2 * t + 1 \<in> E) :: int"
  have obs: "length ?obs = N" by (simp add: received_word_def)
  have step: "int (pair_distance (?obs ! t) (code_pair v t)) - int (pair_distance (?obs ! t) (code_pair w t))
      \<ge> 2 * gain (unsent short N t) (code_pair ?e t) - 4 * ?hit t" if "t < N" for t
    using symbol_costs(1) [of "fst (code_pair w t)" "fst (code_pair v t)" "2 * t \<in> E"]
      symbol_costs(1) [of "snd (code_pair w t)" "snd (code_pair v t)" "2 * t + 1 \<in> E"]
      symbol_costs(2) [of "snd (code_pair w t)" "snd (code_pair v t)"] that
    by (simp add: pair_distance_def received_word_def gain_def code_pair_differences [OF len])
  have "(\<Sum>t < N. ?hit t) \<le> int (card E)"
  proof -
    have "(\<Sum>t < N. ?hit t) = (\<Sum>t < N. \<Sum>j \<in> {t * 2..<t * 2 + 2}. of_bool (j \<in> E))"
      by (rule sum.cong) (simp_all add: numeral_2_eq_2 mult.commute)
    also have "\<dots> = (\<Sum>j < N * 2. of_bool (j \<in> E))" by (rule sum.nat_group)
    also have "\<dots> = int (card (E \<inter> {..<N * 2}))" by (simp add: of_bool_def sum.If_cases Int_commute)
    also have "\<dots> \<le> int (card E)" using E by (simp add: card_mono)
    finally show ?thesis .
  qed
  moreover have "(\<Sum>t < N. 2 * gain (unsent short N t) (code_pair ?e t) - 4 * ?hit t)
      \<le> (\<Sum>t < N. int (pair_distance (?obs ! t) (code_pair v t)) - int (pair_distance (?obs ! t) (code_pair w t)))"
    by (rule sum_mono) (use step in simp)
  moreover have "(\<Sum>t < N. 2 * gain (unsent short N t) (code_pair ?e t) - 4 * ?hit t) = 2 * gain_from short N ?e 0 - 4 * (\<Sum>t < N. ?hit t)"
    by (simp only: sum_subtractf sum_distrib_left [symmetric] gain_from_def atLeast0LessThan)
  moreover have "(\<Sum>t < N. int (pair_distance (?obs ! t) (code_pair v t)) - int (pair_distance (?obs ! t) (code_pair w t)))
      = int (frame_distance ?obs v) - int (frame_distance ?obs w)"
    by (simp add: frame_distance_def obs sum_subtractf)
  ultimately show ?thesis by linarith
qed

text \<open>
  A frame decodes to its bits when the metrics the decoder starts with favour the empty register by more
  than the errors can win: a fresh decoder and no error, or a lead of more than two and one error.
\<close>

lemma hard_frame_corrects:
  assumes ok: "conv_ok st" "\<forall>q < 16. m_metrics1 st ! q \<le> A" "A + 4 * (length us + 4) < 2 ^ 16"
    and len: "length us + 4 \<le> 2400" "length us \<le> 8 * length out"
    and short: "short \<Longrightarrow> (length us + 4) mod 6 = 3"
    and E: "finite E" "card E \<le> 1" "\<forall>q \<in> {1..<16}. m_metrics1 st ! 0 + 4 * card E < m_metrics1 st ! q + 2"
  shows "hard_frame out (received_word short (length us + 4) E (frame_word [False, False, False, False] us)) st = us"
proof (rule ccontr)
  let ?N = "length us + 4" and ?w = "frame_word [False, False, False, False] us"
  let ?obs = "received_word short ?N E ?w"
  define res where "res = hard_frame out ?obs st"
  assume "hard_frame out ?obs st \<noteq> us"
  then have wrong: "res \<noteq> us" by (simp add: res_def)
  have n: "length ?obs = ?N" by (simp add: received_word_def)
  have lr: "length res = length us" by (simp add: res_def hard_frame_def Let_def frame_bits_def n)
  have symbols: "\<forall>(s0, s1) \<in> set ?obs. s0 \<le> 2 \<and> s1 \<le> 2" by (auto simp: received_word_def symbol_def)
  obtain start where s: "length start = 4"
    "frame_weight st ?obs (frame_word start res) \<le> frame_weight st ?obs ?w"
    using hard_frame_minimal [OF ok(1) symbols _ _ _ ok(2), of out] ok(3) len unfolding n res_def by force
  let ?v = "frame_word start res" and ?e = "differences ?w (frame_word start res)"
  have lens: "length ?w = ?N + 4" "length ?v = ?N + 4" by (simp_all add: frame_word_def s(1) lr)
  have e: "?e ! j \<longleftrightarrow> ?w ! j \<noteq> ?v ! j" if "j < ?N + 4" for j using that lens by (simp add: differences_def)
  have tail: "\<forall>j \<in> {?N..<?N + 4}. \<not> ?e ! j"
  proof
    fix j assume j: "j \<in> {?N..<?N + 4}"
    then obtain k where k: "j = ?N + k" "k < 4" by (metis atLeastLessThan_iff le_Suc_ex nat_add_left_cancel_less)
    have "?w ! j = [False, False, False, False] ! k" "?v ! j = [False, False, False, False] ! k"
      using k(2) unfolding k(1) frame_word_def by (simp_all add: nth_append s(1) lr)
    then show "\<not> ?e ! j" using e j by simp
  qed
  have heads: "?w ! j = False" "?v ! j = start ! j" if "j < 4" for j
    using that s(1) by (auto simp: frame_word_def nth_append less_Suc_eq eval_nat_numeral)
  have bits: "?w ! (j + 4) = us ! j" "?v ! (j + 4) = res ! j" if "j < length us" for j
    using that s(1) lr by (simp_all add: frame_word_def nth_append)
  have w0: "state4 ?w 0 = 0" by (simp add: state4_def nibble_def heads(1))
  have start_state: "state4 ?v 0 = state4 ?e 0"
    using heads e by (simp add: state4_def)
  have more: "int (m_metrics1 st ! state4 ?v 0) - int (m_metrics1 st ! 0) + 2 * gain_from short ?N ?e 0 - 4 * int (card E) \<le> 0"
    using s(2) frame_distance_gain [OF lens E(1), of short] by (simp add: frame_weight_def w0)
  show False
  proof (cases "state4 ?v 0 = 0")
    case True
    have "\<not> start ! j" if "j < 4" for j
      using True that heads(2) [of 0] heads(2) [of 1] heads(2) [of 2] heads(2) [of 3]
      by (auto simp: state4_def nibble_def less_Suc_eq eval_nat_numeral of_bool_def split: if_splits)
    then have "\<forall>j < 4. \<not> ?e ! j" using heads e by simp
    moreover obtain j where "j < length us" "us ! j \<noteq> res ! j" using wrong lr nth_equalityI [of res us] by metis
    then have "j + 4 < ?N" "?e ! (j + 4)" using e bits by simp_all
    ultimately have "3 \<le> gain_from short ?N ?e 0" using gain_diverging [OF tail short] by blast
    then show False using more E(2) True by simp
  next
    case False
    then have q: "state4 ?v 0 \<in> {1..<16}" using nibble_lt by (simp add: state4_def)
    then have "1 \<le> potential 0 (state4 ?e 0)" using potential_start by (simp add: start_state)
    then have "1 \<le> gain_from short ?N ?e 0" using gain_from_potential [OF tail, of short 0] short by auto
    moreover have "m_metrics1 st ! 0 + 4 * card E < m_metrics1 st ! state4 ?v 0 + 2" using E(3) q by blast
    ultimately show False using more by linarith
  qed
qed

section \<open>The encoder sends the word\<close>

lemma convolution_loop_word:
  "j < 2 * length xs \<Longrightarrow> convolution_loop (map of_bool xs) (of_bool d) (of_bool c) (of_bool b) (of_bool a) ! j =
    of_bool ((if even j then fst else snd) (code_pair ([a, b, c, d] @ xs) (j div 2)))"
proof (induction xs arbitrary: a b c d j)
  case (Cons x xs)
  have low: "(of_bool u :: nat) AND 1 = of_bool u" for u by (cases u) simp_all
  have out: "(of_bool x + of_bool b + of_bool a :: nat) AND 1 = of_bool (fst (sent a b c d x))"
    "(of_bool x + of_bool d + of_bool c + of_bool a :: nat) AND 1 = of_bool (snd (sent a b c d x))"
    by (cases x; cases a; cases b; cases c; cases d; simp add: sent_def)+
  have pair: "code_pair ([a, b, c, d] @ x # xs) 0 = sent a b c d x"
    "code_pair ([a, b, c, d] @ x # xs) (Suc t) = code_pair ([b, c, d, x] @ xs) t" for t
    by (simp_all add: code_pair_def)
  have loop: "convolution_loop (map of_bool (x # xs)) (of_bool d) (of_bool c) (of_bool b) (of_bool a) =
      of_bool (fst (sent a b c d x)) # of_bool (snd (sent a b c d x))
      # convolution_loop (map of_bool xs) (of_bool x) (of_bool d) (of_bool c) (of_bool b)"
    by (simp only: list.map convolution_loop.simps Let_def low out)
  consider "j = 0" | "j = 1" | k where "j = Suc (Suc k)" by (metis One_nat_def not0_implies_Suc)
  then show ?case
  proof cases
    case (3 k)
    then have "k < 2 * length xs" using Cons.prems by simp
    from Cons.IH [OF this, of x d c b] show ?thesis
      unfolding loop 3 using pair(2) [of "k div 2"] by simp
  qed (simp_all only: loop pair, simp_all add: pair(1) [simplified])
qed simp

lemma length_convolution_loop: "length (convolution_loop xs d1 d2 d3 d4) = 2 * length xs"
  by (induction xs arbitrary: d1 d2 d3 d4) (simp_all add: Let_def)

section \<open>Puncturing and its inverse\<close>

definition sent_at :: "nat \<Rightarrow> bool" where
  "sent_at j \<longleftrightarrow> j mod 12 \<noteq> 11"

lemma pattern_2: "m17_puncture_pattern_2 ! (j mod length m17_puncture_pattern_2) = (if sent_at j then 1 else 0)"
proof -
  have "\<forall>i\<in>set [0..<12]. m17_puncture_pattern_2 ! i = (if i \<noteq> 11 then 1 else 0)" by code_simp
  then have "m17_puncture_pattern_2 ! (j mod 12) = (if j mod 12 \<noteq> 11 then 1 else 0)" by simp
  then show ?thesis by (simp add: sent_at_def m17_puncture_pattern_2_def)
qed

text \<open>The place of a coded bit among those sent.\<close>

definition place :: "nat \<Rightarrow> nat" where
  "place j = j - j div 12"

lemma place_Suc: "place (Suc j) = (if sent_at j then Suc (place j) else place j)"
proof -
  have "Suc j div 12 = (if j mod 12 = 11 then Suc (j div 12) else j div 12)" by presburger
  moreover have "j div 12 \<le> j" by simp
  ultimately show ?thesis by (auto simp: place_def sent_at_def)
qed

lemma place_mono: "i \<le> j \<Longrightarrow> place i \<le> place j"
  by (induction j rule: dec_induct) (auto simp: place_Suc)

lemma place_inj: "sent_at i \<Longrightarrow> sent_at j \<Longrightarrow> place i = place j \<Longrightarrow> i = j"
  using place_mono [of "Suc i" j] place_mono [of "Suc j" i] by (cases i j rule: linorder_cases) (auto simp: place_Suc)

lemma puncture_2:
  "m17_puncture_bits xs n m17_puncture_pattern_2 cap =
    (take cap (map (\<lambda>j. xs ! j AND 1) (filter sent_at [0..<n])), n)
   \<and> length (filter sent_at [0..<n]) = place n"
proof -
  have "length m17_puncture_pattern_2 \<noteq> 0" by (simp add: m17_puncture_pattern_2_def)
  moreover have "fold (\<lambda>i (out, consumed).
             (if m17_puncture_pattern_2 ! (i mod length m17_puncture_pattern_2) \<noteq> 0 \<and> length out < cap
              then out @ [xs ! i AND 1] else out, i + 1)) [0..<n] ([], 0)
      = (take cap (map (\<lambda>j. xs ! j AND 1) (filter sent_at [0..<n])), n) \<and> length (filter sent_at [0..<n]) = place n"
    by (induction n) (auto simp: pattern_2 place_Suc place_def [of 0] split: if_splits)
  ultimately show ?thesis by (simp add: m17_puncture_bits_def)
qed

lemma nth_filter_sent: "sent_at j \<Longrightarrow> j < n \<Longrightarrow> filter sent_at [0..<n] ! place j = j"
proof (induction n)
  case (Suc n)
  have len: "length (filter sent_at [0..<n]) = place n" using puncture_2 by blast
  show ?case
  proof (cases "j = n")
    case True
    then show ?thesis using Suc.prems len by (simp add: nth_append)
  next
    case False
    then have "place j < place n" using Suc.prems place_mono [of "Suc j" n] by (simp add: place_Suc)
    then show ?thesis using Suc False len by (simp add: nth_append)
  qed
qed simp

lemma depuncture_2:
  "m17_depuncture_p2_hard ys n = map (\<lambda>j. if sent_at j \<and> place j < M17_PAYLOAD_BITS then ys ! place j else 0) [0..<n]"
proof -
  have "fold (\<lambda>i (depunc, bit_in).
            if m17_puncture_pattern_2 ! (i mod length m17_puncture_pattern_2) = 1 \<and> bit_in < M17_PAYLOAD_BITS
            then (depunc @ [ys ! bit_in], bit_in + 1) else (depunc @ [0], bit_in)) [0..<n] ([], 0)
      = (map (\<lambda>j. if sent_at j \<and> place j < M17_PAYLOAD_BITS then ys ! place j else 0) [0..<n], min (place n) M17_PAYLOAD_BITS)"
    by (induction n) (auto simp: pattern_2 place_Suc place_def [of 0] min_def)
  then show ?thesis by (simp add: m17_depuncture_p2_hard_def)
qed

lemma stream_depuncture_nth:
  assumes "length ys = 275" "j < 300"
  shows "stream_depuncture ys ! j = (if sent_at j then ys ! place j else 0)"
proof -
  have block: "length (take 11 (drop (11 * i) ys) @ [0]) = 12" if "i < 25" for i using assms(1) that by simp
  have len: "length (concat (map (\<lambda>i. take 11 (drop (11 * i) ys) @ [0]) [0..<n])) = 12 * n" if "n \<le> 25" for n
    using that
  proof (induction n)
    case (Suc n)
    then show ?case using block [of n] by simp
  qed simp
  have "concat (map (\<lambda>i. take 11 (drop (11 * i) ys) @ [0]) [0..<n]) ! k = (if sent_at k then ys ! place k else 0)"
    if "k < 12 * n" "n \<le> 25" for n k
    using that
  proof (induction n)
    case (Suc n)
    show ?case
    proof (cases "k < 12 * n")
      case True
      then show ?thesis using Suc len [of n] by (simp add: nth_append)
    next
      case False
      define r where "r = k - 12 * n"
      have r: "k = 12 * n + r" "r < 12" using False Suc.prems(1) by (simp_all add: r_def)
      have "place k = 11 * n + r" "sent_at k \<longleftrightarrow> r < 11" using r by (auto simp: place_def sent_at_def)
      then show ?thesis using r len [of n] Suc.prems assms(1) by (auto simp: nth_append)
    qed
  qed simp
  from this [of j 25] show ?thesis using assms(2) by (simp add: stream_depuncture_def)
qed

section \<open>Interleaving and randomizing undone\<close>

lemma interleave_index_inj:
  assumes "i < 368" "j < 368" "interleave_index i = interleave_index j"
  shows "i = j"
proof -
  define s where "s = int i + int j"
  define y where "y = 45 + 92 * s"
  have "int ((45 * i + 92 * i * i) mod 368) = int ((45 * j + 92 * j * j) mod 368)"
    using assms(3) by (simp add: interleave_index_def M17_PAYLOAD_BITS_def)
  then have "(45 * int i + 92 * int i * int i) mod 368 = (45 * int j + 92 * int j * int j) mod 368"
    by (simp add: zmod_int)
  then have "368 dvd (45 * int i + 92 * int i * int i) - (45 * int j + 92 * int j * int j)"
    by (simp only: mod_eq_dvd_iff)
  also have "(45 * int i + 92 * int i * int i) - (45 * int j + 92 * int j * int j) = (int i - int j) * y"
    by (simp add: y_def s_def algebra_simps)
  finally have "368 dvd (int i - int j) * y * (y * y * y)" by (rule dvd_mult2)
  also have "(int i - int j) * y * (y * y * y) = (int i - int j)
      + 368 * ((int i - int j) * (11143 + 91125 * s + 279450 * (s * s) + 380880 * (s * s * s) + 194672 * (s * s * s * s)))"
    by (simp add: y_def algebra_simps)
  finally have "368 dvd int i - int j" by (simp add: dvd_add_left_iff)
  then obtain k where k: "int i - int j = 368 * k" by (rule dvdE)
  have "int i < 368" "int j < 368" using assms(1,2) by simp_all
  with k have "k = 0" by linarith
  then show ?thesis using k by simp
qed

lemma interleave_index_less: "interleave_index i < 368"
  by (simp add: interleave_index_def M17_PAYLOAD_BITS_def)

lemma randomize_map:
  "m17_randomize_368_bits xs (replicate 368 0) = map (\<lambda>i. (xs ! i XOR m17_scramble ! i) AND 1) [0..<368]"
  using pack_loop [of 368 "replicate 368 0" "\<lambda>i. (xs ! i XOR m17_scramble ! i) AND 1"]
  by (simp add: m17_randomize_368_bits_def M17_PAYLOAD_BITS_def)

lemma deinterleave_map:
  "m17_deinterleave_368_bits xs (replicate 368 0) = map (\<lambda>i. xs ! interleave_index i AND 1) [0..<368]"
  using pack_loop [of 368 "replicate 368 0" "\<lambda>i. xs ! interleave_index i AND 1"]
  by (simp add: m17_deinterleave_368_bits_def M17_PAYLOAD_BITS_def)

lemma interleave_nth:
  assumes "i < 368"
  shows "m17_interleave_368_bits xs (replicate 368 0) ! interleave_index i = xs ! i AND 1"
  unfolding m17_interleave_368_bits_def M17_PAYLOAD_BITS_def
  by (rule fold_writes_nth)
    (use assms in \<open>auto simp: distinct_map inj_on_def interleave_index_less dest: interleave_index_inj\<close>)

text \<open>
  Errors on the air move with the bits: the frame decodes to the bits sent with one bit flipped for each
  error.
\<close>

definition wrong_bits :: "nat set \<Rightarrow> bit_array \<Rightarrow> bit_array" where
  "wrong_bits R xs = map (\<lambda>i. if i \<in> R then xs ! i XOR 1 else xs ! i) [0..<length xs]"

definition origin :: "nat set \<Rightarrow> nat set" where
  "origin R = {i. i < 368 \<and> interleave_index i \<in> R}"

lemma payload_roundtrip:
  assumes "bits xs" "length xs = 368"
  shows "m17_payload_decode_bits (wrong_bits R (m17_payload_encode_bits xs)) = wrong_bits (origin R) xs"
proof (rule nth_equalityI)
  have len: "length (m17_payload_encode_bits xs) = 368"
    unfolding m17_payload_encode_bits_def M17_PAYLOAD_BITS_def by (simp add: randomize_map)
  show "length (m17_payload_decode_bits (wrong_bits R (m17_payload_encode_bits xs))) = length (wrong_bits (origin R) xs)"
    unfolding m17_payload_decode_bits_def M17_PAYLOAD_BITS_def by (simp add: deinterleave_map wrong_bits_def assms)
  fix i assume "i < length (m17_payload_decode_bits (wrong_bits R (m17_payload_encode_bits xs)))"
  then have i: "i < 368" unfolding m17_payload_decode_bits_def M17_PAYLOAD_BITS_def by (simp add: deinterleave_map)
  let ?x = "interleave_index i"
  have x: "?x < 368" by (rule interleave_index_less)
  have sent: "m17_payload_encode_bits xs ! ?x = ((xs ! i AND 1) XOR m17_scramble ! ?x) AND 1"
    unfolding m17_payload_encode_bits_def M17_PAYLOAD_BITS_def randomize_map using x i by (simp add: interleave_nth)
  have "m17_payload_decode_bits (wrong_bits R (m17_payload_encode_bits xs)) ! i
      = ((wrong_bits R (m17_payload_encode_bits xs) ! ?x XOR m17_scramble ! ?x) AND 1) AND 1"
    unfolding m17_payload_decode_bits_def M17_PAYLOAD_BITS_def deinterleave_map randomize_map using x i by simp
  also have "wrong_bits R (m17_payload_encode_bits xs) ! ?x
      = (((xs ! i AND 1) XOR m17_scramble ! ?x) AND 1) XOR of_bool (?x \<in> R)"
    using x len by (simp add: wrong_bits_def sent)
  also have "((((((xs ! i AND 1) XOR m17_scramble ! ?x) AND 1) XOR of_bool (?x \<in> R)) XOR m17_scramble ! ?x) AND 1) AND 1
      = (xs ! i AND 1) XOR of_bool (?x \<in> R)"
    by (rule bit_eqI) (auto simp: bit_simps even_xor_iff)
  also have "xs ! i AND 1 = xs ! i" using assms i by (simp add: and_one_bit bits_nth)
  finally show "m17_payload_decode_bits (wrong_bits R (m17_payload_encode_bits xs)) ! i = wrong_bits (origin R) xs ! i"
    using i assms(2) by (simp add: wrong_bits_def origin_def)
qed

lemma card_origin: "finite R \<Longrightarrow> card (origin R) \<le> card R"
  by (rule card_inj_on_le [where f = interleave_index]) (auto simp: origin_def inj_on_def dest: interleave_index_inj)

lemma finite_origin: "finite (origin R)"
  by (simp add: origin_def)

section \<open>From the received bits to the decoder\<close>

text \<open>The symbols a decoder reads, and the bits it unpacks, are those of \<open>hard_frame\<close>.\<close>

definition observed :: "bit_array \<Rightarrow> nat \<Rightarrow> (nat \<times> nat) list" where
  "observed depunc N = map (\<lambda>t. (2 * depunc ! (2 * t), 2 * depunc ! (2 * t + 1))) [0..<N]"

lemma bits_of_octets:
  "k < 8 * length out \<Longrightarrow> concat (map unpack_octet out) ! k = of_bool (READ_BIT1 out k)"
proof -
  assume k: "k < 8 * length out"
  then have i: "k div 8 < length out" by simp
  have "concat (map unpack_octet out) ! k = drop (8 * (k div 8)) (concat (map unpack_octet out) @ []) ! (k mod 8)"
    using k by simp
  also have "\<dots> = unpack_octet (out ! (k div 8)) ! (k mod 8)"
    unfolding drop_concat_octets [OF i] by (simp add: nth_append)
  also have "\<dots> = of_bool (bit (out ! (k div 8)) (7 - k mod 8))"
  proof -
    have "\<forall>r < 8. unpack_octet x ! r = of_bool (bit x (7 - r))" for x
      by (simp add: unpack_octet_def and_one_of_bool bit_drop_bit_eq less_Suc_eq eval_nat_numeral all_conj_distrib)
    then show ?thesis by simp
  qed
  finally show ?thesis by (simp add: READ_BIT1_iff)
qed

lemma fold_decode_observed:
  assumes "bits depunc" "length depunc = 2 * N"
  shows "fold (\<lambda>i. CNXDNConvolution_decode (map (\<lambda>x. push_bit 1 x mod 256) depunc ! (2 * i))
        (map (\<lambda>x. push_bit 1 x mod 256) depunc ! (2 * i + 1))) [0..<N] st
    = fold (\<lambda>(s0, s1). CNXDNConvolution_decode s0 s1) (observed depunc N) st"
proof -
  have twice: "map (\<lambda>x. push_bit 1 x mod 256) depunc ! j = 2 * depunc ! j" if "j < 2 * N" for j
    using bits_nth [OF assms(1), of j] that assms(2) by (simp add: push_bit_eq_mult)
  show ?thesis unfolding observed_def fold_map by (rule fold_cong) (use twice in \<open>auto simp: fun_eq_iff\<close>)
qed

lemma unpacked_frame:
  assumes "n \<le> 8 * k" "k \<le> m" "8 * k \<le> cap" "length out = m"
  shows "take n (the (snd (dsd_unpack_bytes_to_bits (Some out) m (Some (replicate cap 0)) cap k)))
    = take n (concat (map unpack_octet (take k out)))"
proof -
  have "k \<le> cap div 8" using assms(3) by simp
  then show ?thesis
    using assms unpack_loop [of k out "replicate cap 0"]
    by (simp add: dsd_unpack_bytes_to_bits_def unpack_bounded_def min_def Let_def)
qed

lemma length_chainback: "length (fst (CNXDNConvolution_chainback out n st)) = length out"
proof -
  have "length (fst (chainback_loop n state out st)) = length out" for state
    by (induction n state out st rule: chainback_loop.induct) (simp_all add: Let_def)
  then show ?thesis by (simp add: CNXDNConvolution_chainback_def)
qed

lemma bert_frame_decoder:
  assumes "bits (m17_depuncture_p2_hard xs 402)"
  shows "fst (m17_decode_bert_payload_bits xs st)
    = map of_bool (hard_frame (replicate 25 0) (observed (m17_depuncture_p2_hard xs 402) 201) st)"
proof -
  let ?d = "m17_depuncture_p2_hard xs 402"
  let ?st = "fold (\<lambda>(s0, s1). CNXDNConvolution_decode s0 s1) (observed ?d 201) (CNXDNConvolution_start st)"
  let ?r = "CNXDNConvolution_chainback (replicate 25 0) 197 ?st"
  have len: "length ?d = 2 * 201" by (simp add: depuncture_2)
  have lo: "length (fst ?r) = 25" by (simp add: length_chainback)
  have "fst (m17_decode_bert_payload_bits xs st)
      = map unat (take 197 (the (snd (dsd_unpack_bytes_to_bits (Some (fst ?r)) 25 (Some (replicate 200 0)) 200 25))))"
    unfolding m17_decode_bert_payload_bits_def M17_BERT_TYPE2_BITS_def M17_BERT_PAYLOAD_BITS_def M17_BERT_FLUSH_BITS_def Let_def
    using fold_decode_observed [OF assms len, of "CNXDNConvolution_start st"] by (simp add: case_prod_beta)
  also have "\<dots> = map unat (take 197 (concat (map unpack_octet (fst ?r))))"
    by (subst unpacked_frame) (simp_all add: lo)
  also have "\<dots> = map of_bool (map (READ_BIT1 (fst ?r)) [0..<197])"
    by (rule nth_equalityI) (simp_all add: lo bits_of_octets)
  finally show ?thesis by (simp add: hard_frame_def frame_bits_def observed_def Let_def)
qed

text \<open>The coded bit of a word, and the symbols received of it when the depunctured bits are known.\<close>

definition coded_bit :: "bool list \<Rightarrow> nat \<Rightarrow> bool" where
  "coded_bit w j = (if even j then fst else snd) (code_pair w (j div 2))"

lemma encoded_bits:
  assumes "length us + 4 = N" "j < 2 * N"
  shows "m17_convolution_encode_bits (map of_bool us @ [0, 0, 0, 0]) N ! j
      = of_bool (coded_bit (frame_word [False, False, False, False] us) j)"
    "length (m17_convolution_encode_bits (map of_bool us @ [0, 0, 0, 0]) N) = 2 * N"
proof -
  have xs: "take N (map of_bool us @ [0, 0, 0, 0]) = map of_bool (us @ [False, False, False, False])"
    using assms(1) by simp
  show "m17_convolution_encode_bits (map of_bool us @ [0, 0, 0, 0]) N ! j
      = of_bool (coded_bit (frame_word [False, False, False, False] us) j)"
    using convolution_loop_word [of j "us @ [False, False, False, False]" False False False False] assms
    unfolding m17_convolution_encode_bits_def xs coded_bit_def frame_word_def by simp
  show "length (m17_convolution_encode_bits (map of_bool us @ [0, 0, 0, 0]) N) = 2 * N"
    using assms(1) unfolding m17_convolution_encode_bits_def xs by (simp add: length_convolution_loop)
qed

lemma observed_received:
  assumes "\<And>j. j < 2 * N \<Longrightarrow> depunc ! j = (if odd j \<and> unsent short N (j div 2) then 0 else of_bool (coded_bit w j \<noteq> (j \<in> E)))"
  shows "observed depunc N = received_word short N E w"
proof -
  have "2 * of_bool b = symbol b" for b by (simp add: symbol_def)
  then show ?thesis
    using assms by (simp add: observed_def received_word_def coded_bit_def symbol_def)
qed

lemma punctured_nth:
  assumes "sent_at j" "j < n" "place j < cap"
  shows "fst (m17_puncture_bits xs n m17_puncture_pattern_2 cap) ! place j = xs ! j AND 1"
    "place n \<ge> cap \<Longrightarrow> length (fst (m17_puncture_bits xs n m17_puncture_pattern_2 cap)) = cap"
  using assms nth_filter_sent [OF assms(1,2)] puncture_2 [of xs n cap] place_mono [of "Suc j" n]
  by (simp_all add: place_Suc)

text \<open>Errors in the sent bits as errors in the coded bits.\<close>

definition coded_errors :: "nat \<Rightarrow> nat set \<Rightarrow> nat set" where
  "coded_errors n P = {j. j < n \<and> sent_at j \<and> place j \<in> P}"

lemma coded_errors:
  assumes "finite P"
  shows "finite (coded_errors n P)" "card (coded_errors n P) \<le> card P"
  using assms by (auto simp: coded_errors_def inj_on_def intro!: card_inj_on_le [where f = place] dest: place_inj)

lemma wrong_bits_nth: "i < length xs \<Longrightarrow> bits xs \<Longrightarrow> wrong_bits R xs ! i = of_bool ((xs ! i = 1) \<noteq> (i \<in> R))"
  using bits_nth [of xs i] by (auto simp: wrong_bits_def less_2_cases_iff)

lemma bits_wrong_bits: "bits xs \<Longrightarrow> bits (wrong_bits R xs)"
  by (auto simp: bits_def wrong_bits_def xor_one_bit)

lemma odd_place_sent:
  assumes "j < 402"
  shows "odd j \<and> unsent True 201 (j div 2) \<longleftrightarrow> \<not> (sent_at j \<and> place j < 368)"
proof -
  have "odd j \<and> (j div 2) mod 6 = 5 \<longleftrightarrow> j mod 12 = 11" by presburger
  moreover have "odd j \<and> j div 2 + 1 = 201 \<longleftrightarrow> j = 401" by presburger
  moreover have "place j < 368" if "j \<noteq> 401"
    using place_mono [of j 400] assms that by (simp add: place_def [of 400])
  moreover have "\<not> place 401 < 368" by (simp add: place_def)
  ultimately show ?thesis unfolding unsent_def sent_at_def by blast
qed

lemma bert_frame_observed:
  fixes us :: "bool list"
  defines "w \<equiv> frame_word [False, False, False, False] us"
  defines "air \<equiv> fst (m17_puncture_bits (m17_convolution_encode_bits (map of_bool us @ [0, 0, 0, 0]) 201) 402 m17_puncture_pattern_2 368)"
  assumes "length us = 197"
  shows "observed (m17_depuncture_p2_hard (wrong_bits P air) 402) 201 = received_word True 201 (coded_errors 402 P) w"
    "bits air" "length air = 368"
proof -
  let ?c = "m17_convolution_encode_bits (map of_bool us @ [0, 0, 0, 0]) 201"
  have low: "(of_bool b :: nat) AND 1 = of_bool b" for b by (cases b) simp_all
  have place: "place 402 = 369" by (simp add: place_def)
  show b: "bits air"
    unfolding air_def puncture_2 [THEN conjunct1] fst_conv by (rule bits_take) (auto simp: bits_def and_one_eq)
  show len: "length air = 368"
    using puncture_2 [of ?c 402 368] by (simp add: air_def place)
  have nth: "air ! place j = of_bool (coded_bit w j)" if "j < 402" "sent_at j" "place j < 368" for j
    using punctured_nth(1) [OF that(2,1,3), of ?c] encoded_bits(1) [of us 201 j] that(1) assms(3)
    by (simp add: air_def w_def low)
  show "observed (m17_depuncture_p2_hard (wrong_bits P air) 402) 201 = received_word True 201 (coded_errors 402 P) w"
  proof (rule observed_received)
    fix j :: nat assume "j < 2 * 201"
    then have j: "j < 402" by simp
    show "m17_depuncture_p2_hard (wrong_bits P air) 402 ! j
        = (if odd j \<and> unsent True 201 (j div 2) then 0 else of_bool (coded_bit w j \<noteq> (j \<in> coded_errors 402 P)))"
      unfolding odd_place_sent [OF j] depuncture_2
      using j nth [OF j] b len wrong_bits_nth [of "place j" air P]
      by (auto simp: M17_PAYLOAD_BITS_def coded_errors_def)
  qed
qed

lemma lead_shrinks:
  assumes "\<forall>q \<in> {1..<16}. m ! 0 + 4 * k < m ! q + (2 :: nat)" "l \<le> k"
  shows "\<forall>q \<in> {1..<16}. m ! 0 + 4 * l < m ! q + 2"
  using assms by (meson add_le_mono1 add_left_mono le_less_trans mult_le_mono2 order.refl add_le_mono)

lemma bert_frame_received:
  fixes us :: "bool list"
  defines "air \<equiv> fst (m17_puncture_bits (m17_convolution_encode_bits (map of_bool us @ [0, 0, 0, 0]) 201) 402 m17_puncture_pattern_2 368)"
  assumes "length us = 197"
  shows "m17_payload_decode_bits (wrong_bits R (fst (m17_bert_encode_type1_bits (map of_bool us @ [0, 0, 0, 0])))) = wrong_bits (origin R) air"
    "bits (m17_depuncture_p2_hard (wrong_bits P air) 402)"
proof -
  note air = bert_frame_observed(2,3) [OF assms(2), folded air_def]
  have "fst (m17_bert_encode_type1_bits (map of_bool us @ [0, 0, 0, 0])) = m17_payload_encode_bits air"
    using air(2) by (simp add: air_def m17_bert_encode_type1_bits_def M17_BERT_TYPE1_FLUSH_BITS_def M17_BERT_TYPE2_BITS_def
        M17_PAYLOAD_BITS_def copy_into_all Let_def case_prod_beta)
  then show "m17_payload_decode_bits (wrong_bits R (fst (m17_bert_encode_type1_bits (map of_bool us @ [0, 0, 0, 0])))) = wrong_bits (origin R) air"
    by (simp add: payload_roundtrip [OF air])
  show "bits (m17_depuncture_p2_hard (wrong_bits P air) 402)"
    using bits_wrong_bits [OF air(1), of P] air(2)
    by (auto simp: depuncture_2 bits_def M17_PAYLOAD_BITS_def wrong_bits_def [of _ air])
qed

lemma bert_frame_corrects:
  assumes "length us = 197" "finite R" "card R \<le> 1"
    and "conv_ok st" "\<forall>q < 16. m_metrics1 st ! q \<le> A" "A + 804 < 2 ^ 16"
    and "\<forall>q \<in> {1..<16}. m_metrics1 st ! 0 + 4 * card R < m_metrics1 st ! q + 2"
  shows "fst (m17_decode_bert_payload_bits
      (m17_payload_decode_bits (wrong_bits R (fst (m17_bert_encode_type1_bits (map of_bool us @ [0, 0, 0, 0]))))) st)
    = map of_bool us"
proof -
  let ?air = "fst (m17_puncture_bits (m17_convolution_encode_bits (map of_bool us @ [0, 0, 0, 0]) 201) 402 m17_puncture_pattern_2 368)"
  let ?E = "coded_errors 402 (origin R)"
  note air = bert_frame_observed [OF assms(1)] bert_frame_received [OF assms(1)]
  have E: "finite ?E" "card ?E \<le> card R"
    using coded_errors [OF finite_origin, of 402 R] card_origin [OF assms(2)] by simp_all
  have "fst (m17_decode_bert_payload_bits (wrong_bits (origin R) ?air) st)
      = map of_bool (hard_frame (replicate 25 0) (received_word True 201 ?E (frame_word [False, False, False, False] us)) st)"
    by (simp add: bert_frame_decoder air)
  also have "hard_frame (replicate 25 0) (received_word True 201 ?E (frame_word [False, False, False, False] us)) st = us"
    using hard_frame_corrects [of st A us "replicate 25 0" True ?E] assms E lead_shrinks [OF assms(7) E(2)] by simp
  finally show ?thesis by (simp only: air)
qed

text \<open>
  C27. A test frame comes through: 197 bits, encoded, punctured, interleaved and randomized, received with
  at most one wrong bit among the 368, decode to themselves. The decoder may start with any metrics that
  fit, as long as the empty register leads every other by more than the error can win: a fresh decoder
  qualifies for a frame without error.
\<close>

theorem bert_frame_decodes:
  assumes "length us = 197" "finite R" "card R \<le> 1"
    and "conv_ok st" "\<forall>q < 16. m_metrics1 st ! q \<le> A" "A + 804 < 2 ^ 16"
    and "\<forall>q \<in> {1..<16}. m_metrics1 st ! 0 + 4 * card R < m_metrics1 st ! q + 2"
  shows "fst (m17_decode_bert_payload_bits
      (m17_payload_decode_bits (wrong_bits R (fst (m17_bert_encode_type1_bits (map of_bool us @ [0, 0, 0, 0]))))) st)
    = map of_bool us"
  by (rule bert_frame_corrects [OF assms])

theorem bert_frame_decodes_witness:
  "fst (m17_decode_bert_payload_bits
      (m17_payload_decode_bits (wrong_bits {} (fst (m17_bert_encode_type1_bits (map of_bool (replicate 197 True) @ [0, 0, 0, 0])))))
      (CNXDNConvolution_init \<lparr>m_metrics1 = [], m_metrics2 = [], m_decisions = [], m_old1 = False, m_dp = 9\<rparr>))
    = map of_bool (replicate 197 True)"
  by (rule bert_frame_decodes [where A = 0]) (simp_all add: CNXDNConvolution_init_def conv_ok_def)

section \<open>A stream frame\<close>

definition stream_bits :: "u16 \<Rightarrow> bit_array \<Rightarrow> bool list" where
  "stream_bits fn payload = msb_bits 16 fn @ map odd payload"

lemma build_stream_bits:
  assumes "bits payload" "length payload = 128"
  shows "m17_stream_build_type1_bits fn (Some payload) = map of_bool (stream_bits fn payload) @ [0, 0, 0, 0]"
proof (rule nth_equalityI)
  let ?out = "fold (\<lambda>i out. out[i := unat (drop_bit (15 - i) fn AND 1)]) [0..<16] (replicate 148 0)"
  let ?all = "fold (\<lambda>i out. out[16 + i := payload ! i AND 1]) [0..<128] ?out"
  have built: "m17_stream_build_type1_bits fn (Some payload) = ?all"
    by (simp add: m17_stream_build_type1_bits_def M17_STREAM_TYPE1_FLUSH_BITS_def M17_STREAM_FN_BITS_def M17_STREAM_PAYLOAD_BITS_def Let_def)
  have pad: "[0, 0, 0, 0 :: nat] = replicate 4 0" by (simp add: numeral_eq_Suc)
  have out: "?out = map (\<lambda>i. unat (drop_bit (15 - i) fn AND 1)) [0..<16] @ replicate 132 0"
    using pack_loop [of 16 "replicate 148 0" "\<lambda>i. unat (drop_bit (15 - i) fn AND 1)"] by simp
  show "length (m17_stream_build_type1_bits fn (Some payload)) = length (map of_bool (stream_bits fn payload) @ [0, 0, 0, 0 :: nat])"
    unfolding built by (simp add: stream_bits_def assms(2))
  fix j assume "j < length (m17_stream_build_type1_bits fn (Some payload))"
  then have "j < 148" unfolding built by simp
  then consider "j < 16" | "144 \<le> j" "j < 148" | "16 \<le> j" "j < 144" by linarith
  then show "m17_stream_build_type1_bits fn (Some payload) ! j = (map of_bool (stream_bits fn payload) @ [0, 0, 0, 0]) ! j"
  proof cases
    case 1
    have bit: "unat (x AND 1 :: u16) = of_bool (bit x 0)" for x
      by (cases "bit x 0") (simp_all add: and_one_eq bit_0 mod_2_eq_odd)
    have "j \<notin> (\<lambda>i. 16 + i) ` set [0..<128]" using 1 by auto
    then have "?all ! j = ?out ! j" by (rule fold_writes_outside)
    also have "\<dots> = unat (drop_bit (15 - j) fn AND 1)"
      unfolding out using 1 by (subst nth_append) (simp del: upt_rec_numeral)
    also have "\<dots> = of_bool (bit fn (15 - j))" by (simp only: bit bit_drop_bit_eq o_def add_0_right)
    also have "\<dots> = map of_bool (stream_bits fn payload) ! j"
      using 1 assms(2) by (simp add: stream_bits_def nth_append msb_bits_nth)
    finally show ?thesis unfolding built using 1 assms(2) by (simp add: nth_append stream_bits_def)
  next
    case 2
    then have "j \<notin> (\<lambda>i. 16 + i) ` set [0..<128]" by auto
    then have "?all ! j = ?out ! j" by (rule fold_writes_outside)
    also have "\<dots> = 0" unfolding out using 2 by (subst nth_append) (simp del: upt_rec_numeral)
    also have "\<dots> = replicate 4 0 ! (j - 144)" using 2 by simp
    finally have "?all ! j = replicate 4 0 ! (j - 144)" .
    moreover have "\<not> j - 16 < 128" "\<not> j < 144" using 2 by simp_all
    ultimately show ?thesis unfolding built pad using assms(2) by (simp add: nth_append stream_bits_def del: nth_replicate)
  next
    case 3
    define i where "i = j - 16"
    have i: "j = 16 + i" "i < 128" using 3 by (simp_all add: i_def)
    have "payload ! i < 2" using assms i by (simp add: bits_nth)
    then have "payload ! i AND 1 = of_bool (odd (payload ! i))" by (auto simp: less_2_cases_iff)
    then show ?thesis unfolding built i(1)
      using fold_writes_nth [of "\<lambda>i. 16 + i" "[0..<128]" i ?out "\<lambda>i. payload ! i AND 1"] i assms(2)
      by (simp add: distinct_map inj_on_def stream_bits_def nth_append)
  qed
qed

text \<open>The decoder of a stream frame runs over the 148 steps of its coded bits.\<close>

definition stream_coded :: "bit_array \<Rightarrow> bit_array" where
  "stream_coded xs = take 296 (stream_depuncture (map (\<lambda>i. xs ! (i + 96)) [0..<272] @ replicate 3 0))"

lemma stream_coded_nth:
  assumes "j < 296"
  shows "stream_coded xs ! j = (if sent_at j then xs ! (place j + 96) else 0)"
proof -
  have "place j < 272" if "sent_at j" using place_mono [of "Suc j" 296] assms that by (simp add: place_Suc place_def [of 296])
  then show ?thesis using assms by (auto simp: stream_coded_def stream_depuncture_nth nth_append simp del: upt_rec_numeral)
qed

lemma length_stream_coded: "length (stream_coded xs) = 296"
proof -
  have "length (stream_depuncture ys) = 300" if "length ys = 275" for ys
  proof -
    have "length (concat (map (\<lambda>i. take 11 (drop (11 * i) ys) @ [0]) [0..<n])) = 12 * n" if "n \<le> 25" for n
      using that by (induction n) (use \<open>length ys = 275\<close> in simp_all)
    from this [of 25] show ?thesis by (simp only: stream_depuncture_def)
  qed
  then show ?thesis by (simp add: stream_coded_def del: upt_rec_numeral)
qed

lemma stream_frame_decoder:
  assumes "bits (stream_coded xs)"
  shows "fst (stream_trellis xs st) = map of_bool (hard_frame (replicate 28 0) (observed (stream_coded xs) 148) st)"
proof -
  let ?st = "fold (\<lambda>(s0, s1). CNXDNConvolution_decode s0 s1) (observed (stream_coded xs) 148) (CNXDNConvolution_start st)"
  let ?r = "CNXDNConvolution_chainback (replicate 28 0) 144 ?st"
  have len: "length (stream_coded xs) = 2 * 148" by (simp add: length_stream_coded)
  have lo: "length (fst ?r) = 28" by (simp add: length_chainback)
  have "fst (stream_trellis xs st)
      = map unat (the (snd (dsd_unpack_bytes_to_bits (Some (fst ?r)) 28 (Some (replicate 144 0)) 144 18)))"
    unfolding stream_trellis_def stream_coded_def [symmetric] Let_def
    using fold_decode_observed [OF assms len, of "CNXDNConvolution_start st"] by (simp add: case_prod_beta)
  also have "the (snd (dsd_unpack_bytes_to_bits (Some (fst ?r)) 28 (Some (replicate 144 0)) 144 18))
      = concat (map unpack_octet (take 18 (fst ?r)))"
    using lo unpack_loop [of 18 "fst ?r" "replicate 144 0"]
    by (simp add: dsd_unpack_bytes_to_bits_def unpack_bounded_def Let_def)
  also have "map unat (concat (map unpack_octet (take 18 (fst ?r)))) = map of_bool (map (READ_BIT1 (fst ?r)) [0..<144])"
  proof (rule nth_equalityI)
    fix j assume "j < length (map unat (concat (map unpack_octet (take 18 (fst ?r)))))"
    then have j: "j < 144" by (simp add: lo)
    then have "READ_BIT1 (take 18 (fst ?r)) j = READ_BIT1 (fst ?r) j" by (simp add: READ_BIT1_def)
    then show "map unat (concat (map unpack_octet (take 18 (fst ?r)))) ! j = map of_bool (map (READ_BIT1 (fst ?r)) [0..<144]) ! j"
      using j by (simp add: lo bits_of_octets del: upt_rec_numeral)
  qed (simp add: lo)
  finally show ?thesis by (simp add: hard_frame_def frame_bits_def observed_def Let_def)
qed

lemma stream_frame_observed:
  fixes us :: "bool list" and lich :: bit_array
  defines "w \<equiv> frame_word [False, False, False, False] us"
  defines "air \<equiv> m17_stream_combine_frame_bits lich (m17_stream_encode_type1_bits (map of_bool us @ [0, 0, 0, 0]))"
  assumes "length us = 144"
  shows "observed (stream_coded (wrong_bits P air)) 148 = received_word False 148 (coded_errors 296 {p. p + 96 \<in> P}) w"
    "bits air" "length air = 368" "bits (stream_coded (wrong_bits P air))"
proof -
  let ?c = "m17_convolution_encode_bits (map of_bool us @ [0, 0, 0, 0]) 148"
  have low: "(of_bool b :: nat) AND 1 = of_bool b" for b by (cases b) simp_all
  show b: "bits air" by (auto simp: air_def m17_stream_combine_frame_bits_def bits_def and_one_eq)
  show len: "length air = 368"
    by (simp add: air_def m17_stream_combine_frame_bits_def M17_LICH_BITS_def M17_STREAM_PUNCTURED_BITS_def)
  have room: "place j < 272" if "j < 296" "sent_at j" for j
    using place_mono [of "Suc j" 296] that by (simp add: place_Suc place_def [of 296])
  have nth: "air ! (place j + 96) = of_bool (coded_bit w j)" if "j < 296" "sent_at j" for j
    using punctured_nth(1) [OF that(2,1) room [OF that], of ?c] encoded_bits(1) [of us 148 j] that(1) assms(3) room [OF that]
    by (simp add: air_def w_def low m17_stream_combine_frame_bits_def m17_stream_encode_type1_bits_def nth_append
        M17_LICH_BITS_def M17_STREAM_PUNCTURED_BITS_def M17_STREAM_TYPE1_FLUSH_BITS_def M17_STREAM_TYPE2_BITS_def
        del: upt_rec_numeral)
  have coded: "stream_coded (wrong_bits P air) ! j
      = (if odd j \<and> unsent False 148 (j div 2) then 0 else of_bool (coded_bit w j \<noteq> (j \<in> coded_errors 296 {p. p + 96 \<in> P})))"
    if "j < 296" for j
  proof -
    have "odd j \<and> (j div 2) mod 6 = 5 \<longleftrightarrow> \<not> sent_at j" unfolding sent_at_def by presburger
    then show ?thesis
      using that nth [OF that] b len room [OF that] wrong_bits_nth [of "place j + 96" air P]
      by (auto simp: stream_coded_nth coded_errors_def unsent_def)
  qed
  then show "observed (stream_coded (wrong_bits P air)) 148 = received_word False 148 (coded_errors 296 {p. p + 96 \<in> P}) w"
    by (intro observed_received) simp
  have "stream_coded (wrong_bits P air) ! j < 2" if "j < 296" for j using coded [OF that] by simp
  then show "bits (stream_coded (wrong_bits P air))"
    by (auto simp: bits_def in_set_conv_nth length_stream_coded)
qed

lemma parse_stream_bits:
  assumes "bits payload" "length payload = 128"
  shows "m17_stream_parse_type1_bits (map of_bool (stream_bits fn payload)) = (fn, payload)"
proof -
  let ?x = "map of_bool (stream_bits fn payload) :: bit_array"
  have bit: "of_nat (of_bool b AND 1) = (of_bool b :: u16)" for b by (cases b) simp_all
  have "fold (\<lambda>i fn. push_bit 1 fn OR of_nat (?x ! i AND 1)) [0..<16] 0 = (fold (\<lambda>i. msb_shift (msb_bits 16 fn ! i)) [0..<16] 0 :: u16)"
    by (rule fold_cong) (auto simp: fun_eq_iff msb_shift_def stream_bits_def nth_append bit assms(2) simp del: upt_rec_numeral)
  also have "\<dots> = msb_word (map (\<lambda>i. msb_bits 16 fn ! i) [0..<16])"
    by (simp only: msb_word_def fold_map comp_def)
  also have "map (\<lambda>i. msb_bits 16 fn ! i) [0..<16] = msb_bits 16 fn"
    by (rule nth_equalityI) (simp_all del: upt_rec_numeral)
  also have "msb_word (msb_bits 16 fn) = fn" by (simp add: msb_word_msb_bits take_bit_word_eq_self)
  finally have fn: "fold (\<lambda>i fn. push_bit 1 fn OR of_nat (?x ! i AND 1)) [0..<16] 0 = fn" .
  have "of_bool (odd v) AND 1 = v" if "v < 2" for v :: nat using that by (auto simp: less_2_cases_iff)
  then have "map (\<lambda>i. ?x ! (16 + i) AND 1) [0..<128] = payload"
    using assms by (intro nth_equalityI) (simp_all add: stream_bits_def nth_append bits_nth del: upt_rec_numeral)
  then show ?thesis
    using fn by (simp only: m17_stream_parse_type1_bits_def M17_STREAM_FN_BITS_def M17_STREAM_PAYLOAD_BITS_def)
qed

lemma card_shifted: "finite P \<Longrightarrow> finite {p. p + 96 \<in> P} \<and> card {p. p + (96 :: nat) \<in> P} \<le> card P"
proof -
  assume P: "finite P"
  have "inj_on (\<lambda>p. p + 96) {p. p + (96 :: nat) \<in> P}" "(\<lambda>p. p + 96) ` {p. p + 96 \<in> P} \<subseteq> P" by (auto simp: inj_on_def)
  then show ?thesis using P by (meson card_inj_on_le inj_on_finite)
qed

text \<open>
  C38. A stream frame comes through: its sixteen-bit frame number and 128 payload bits, built, encoded,
  punctured, joined to any 96 bits of link information, interleaved and randomized, and received with at
  most one wrong bit among the 368, are read back. The decoder may start with any metrics that fit, as
  long as the empty register leads every other by more than the error can win.
\<close>

theorem stream_frame_decodes:
  assumes "bits payload" "length payload = 128" "finite R" "card R \<le> 1"
    and "conv_ok st" "\<forall>q < 16. m_metrics1 st ! q \<le> A" "A + 592 < 2 ^ 16"
    and "\<forall>q \<in> {1..<16}. m_metrics1 st ! 0 + 4 * card R < m_metrics1 st ! q + 2"
  shows "m17_stream_parse_type1_bits (fst (stream_trellis (m17_payload_decode_bits (wrong_bits R (m17_payload_encode_bits
      (m17_stream_combine_frame_bits lich (m17_stream_encode_type1_bits (m17_stream_build_type1_bits fn (Some payload))))))) st))
    = (fn, payload)"
proof -
  let ?us = "stream_bits fn payload"
  let ?air = "m17_stream_combine_frame_bits lich (m17_stream_encode_type1_bits (map of_bool ?us @ [0, 0, 0, 0]))"
  let ?E = "coded_errors 296 {p. p + 96 \<in> origin R}"
  have len: "length ?us = 144" by (simp add: stream_bits_def assms(2))
  note air = stream_frame_observed [OF len, where lich = lich]
  have E: "finite ?E" "card ?E \<le> card R"
    using coded_errors [of "{p. p + 96 \<in> origin R}" 296] card_shifted [OF finite_origin, of R] card_origin [OF assms(3)] by simp_all
  have "fst (stream_trellis (wrong_bits (origin R) ?air) st)
      = map of_bool (hard_frame (replicate 28 0) (received_word False 148 ?E (frame_word [False, False, False, False] ?us)) st)"
    by (simp add: stream_frame_decoder air)
  also have "hard_frame (replicate 28 0) (received_word False 148 ?E (frame_word [False, False, False, False] ?us)) st = ?us"
    using hard_frame_corrects [of st A ?us "replicate 28 0" False ?E] assms(4-7) len E lead_shrinks [OF assms(8) E(2)] by simp
  finally show ?thesis
    by (simp only: build_stream_bits [OF assms(1,2)] payload_roundtrip [OF air(2,3)] parse_stream_bits [OF assms(1,2)])
qed

text \<open>A receiver whose metrics lead: one wrong bit is repaired.\<close>

theorem stream_frame_decodes_witness:
  "m17_stream_parse_type1_bits (fst (stream_trellis (m17_payload_decode_bits (wrong_bits {7} (m17_payload_encode_bits
      (m17_stream_combine_frame_bits [] (m17_stream_encode_type1_bits (m17_stream_build_type1_bits 0x8003 (Some (replicate 128 1))))))))
      \<lparr>m_metrics1 = 0 # replicate 15 3, m_metrics2 = replicate 16 0, m_decisions = replicate 2400 0, m_old1 = True, m_dp = 0\<rparr>))
    = (0x8003, replicate 128 1)"
proof (rule stream_frame_decodes [where A = 3])
  show "\<forall>q \<in> {1..<16}. m_metrics1 \<lparr>m_metrics1 = 0 # replicate 15 3, m_metrics2 = replicate 16 0,
      m_decisions = replicate 2400 0, m_old1 = True, m_dp = 0\<rparr> ! 0 + 4 * card {7 :: nat}
    < m_metrics1 \<lparr>m_metrics1 = 0 # replicate 15 3, m_metrics2 = replicate 16 0,
      m_decisions = replicate 2400 0, m_old1 = True, m_dp = 0\<rparr> ! q + 2"
    by (auto simp: nth_Cons')
  show "\<forall>q < 16. m_metrics1 \<lparr>m_metrics1 = 0 # replicate 15 3, m_metrics2 = replicate 16 0,
      m_decisions = replicate 2400 0, m_old1 = True, m_dp = 0\<rparr> ! q \<le> 3"
    by (auto simp: nth_Cons')
qed (simp_all add: bits_def conv_ok_def)

end
