(* ===== verification/M17_Metrics.thy ===== *)
theory M17_Metrics
  imports M17_Trellis
begin

text \<open>
  What the decoder of \<open>src/protocol/nxdn/nxdn_convolution.c\<close> carries from one test frame of M17 to the
  next. \<open>CNXDNConvolution_start\<close> rewinds the pointers and leaves the metrics. A test frame takes 201
  steps, an odd number, so the array the next frame starts from holds the metrics of the last step but
  one, where the empty register need not lead. Shown: the metrics a frame starts from and the path it
  takes, computed; and two frames on a clean channel, the second of which decodes wrongly.
\<close>

section \<open>Metrics and paths, computed\<close>

definition relax_all :: "(nat \<Rightarrow> nat) \<Rightarrow> nat list \<Rightarrow> nat list" where
  "relax_all m old = map (relax CNXDNConvolution_M m old) [0..<16]"

definition metrics_after :: "(nat \<times> nat) list \<Rightarrow> nat list \<Rightarrow> nat list" where
  "metrics_after obs a = fold (\<lambda>(s0, s1). relax_all (hard_metric s0 s1)) obs a"

lemma length_relax_all [simp]: "length (relax_all m old) = 16"
  by (simp add: relax_all_def)

lemma length_metrics_after: "length a = 16 \<Longrightarrow> length (metrics_after obs a) = 16"
  by (induction obs arbitrary: a) (auto simp: metrics_after_def)

lemma metrics_after_best:
  assumes "length a = 16" "q < 16"
  shows "metrics_after obs a ! q = best CNXDNConvolution_M a (rev (map (\<lambda>(s0, s1). hard_metric s0 s1) obs)) q"
  using assms(2)
proof (induction obs arbitrary: q rule: rev_induct)
  case (snoc x obs)
  obtain s0 s1 where x: "x = (s0, s1)" by (cases x)
  have "metrics_after (obs @ [x]) a ! q = relax CNXDNConvolution_M (hard_metric s0 s1) (metrics_after obs a) q"
    using snoc.prems by (simp add: metrics_after_def x relax_all_def del: upt_rec_numeral)
  also have "\<dots> = best CNXDNConvolution_M a (rev (map (\<lambda>(s0, s1). hard_metric s0 s1) (obs @ [x]))) q"
    using snoc.prems by (simp add: relax_def snoc.IH prev_lt x)
  finally show ?case .
qed (simp add: metrics_after_def)

text \<open>The path traced back, with the metrics before each step at hand; the latest step first.\<close>

fun history :: "nat list \<Rightarrow> (nat \<times> nat) list \<Rightarrow> ((nat \<Rightarrow> nat) \<times> nat list) list \<Rightarrow> ((nat \<Rightarrow> nat) \<times> nat list) list" where
  "history a [] acc = acc"
| "history a ((s0, s1) # obs) acc = history (relax_all (hard_metric s0 s1) a) obs ((hard_metric s0 s1, a) # acc)"

fun trace_back :: "((nat \<Rightarrow> nat) \<times> nat list) list \<Rightarrow> nat \<Rightarrow> bool list" where
  "trace_back [] q = []"
| "trace_back ((m, old) # hs) q = (let d = decides CNXDNConvolution_M m old q in d # trace_back hs (prev q d))"

lemma history_append: "history a (obs @ [(s0, s1)]) acc = (hard_metric s0 s1, metrics_after obs a) # history a obs acc"
  by (induction a obs acc rule: history.induct) (simp_all add: metrics_after_def)

lemma trace_back_traced:
  assumes "length a = 16" "q < 16"
  shows "trace_back (history a obs []) q
    = traced CNXDNConvolution_M a (rev (map (\<lambda>(s0, s1). hard_metric s0 s1) obs)) q"
  using assms(2)
proof (induction obs arbitrary: q rule: rev_induct)
  case (snoc x obs)
  obtain s0 s1 where x: "x = (s0, s1)" by (cases x)
  have "decides CNXDNConvolution_M (hard_metric s0 s1) (metrics_after obs a) q
      = choice CNXDNConvolution_M a (rev (map (\<lambda>(s0, s1). hard_metric s0 s1) obs)) (hard_metric s0 s1) q"
    using snoc.prems by (simp add: decides_def choice_def metrics_after_best [OF assms(1)] prev_lt)
  then show ?case using snoc.IH [OF prev_lt [OF snoc.prems]] by (simp add: x history_append Let_def)
qed simp

text \<open>
  Zeros on the air. Metrics that stand still stay; and a path that ends in the empty register stays in it,
  once no other state is ahead of it by more than two.
\<close>

lemma metrics_standing:
  assumes "relax_all (hard_metric 0 0) b = b"
  shows "metrics_after (replicate n (0, 0)) b = b"
  by (induction n) (simp_all add: metrics_after_def assms)

definition near :: "nat \<Rightarrow> nat list \<Rightarrow> bool" where
  "near c b \<longleftrightarrow> b ! 0 = c + 2 \<and> (\<forall>q < 16. c \<le> b ! q)"

lemma zero_metric: "hard_metric 0 0 0 = 0"
  by (simp add: hard_metric_def abs_diff_def CNXDNConvolution_BRANCH_TABLE1_def CNXDNConvolution_BRANCH_TABLE2_def)

lemma near_zeros:
  assumes "near c b"
  shows "near c (relax_all (hard_metric 0 0) b)" "\<not> decides CNXDNConvolution_M (hard_metric 0 0) b 0"
proof -
  have "c \<le> b ! prev q d" if "q < 16" for q d using assms prev_lt [OF that, of d] by (simp add: near_def)
  then have "c \<le> relax CNXDNConvolution_M (hard_metric 0 0) b q" if "q < 16" for q
    using that by (simp add: relax_def min_def trans_le_add1)
  moreover have b8: "c \<le> b ! 8" "b ! 0 = c + 2" using assms by (simp_all add: near_def)
  then have "relax CNXDNConvolution_M (hard_metric 0 0) b 0 = c + 2"
    by (simp add: relax_def prev_def branch_def zero_metric CNXDNConvolution_M_def)
  ultimately show "near c (relax_all (hard_metric 0 0) b)" by (simp add: near_def relax_all_def del: upt_rec_numeral)
  show "\<not> decides CNXDNConvolution_M (hard_metric 0 0) b 0"
    using b8 by (simp add: decides_def prev_def branch_def zero_metric CNXDNConvolution_M_def)
qed

lemma trace_back_snoc:
  "trace_back (history a (obs @ [(s0, s1)]) []) q =
    (let d = decides CNXDNConvolution_M (hard_metric s0 s1) (metrics_after obs a) q
     in d # trace_back (history a obs []) (prev q d))"
  by (simp only: history_append trace_back.simps)

lemma trace_back_zeros:
  assumes "near c (metrics_after obs a)"
  shows "near c (metrics_after (obs @ replicate n (0, 0)) a)
    \<and> trace_back (history a (obs @ replicate n (0, 0)) []) 0 = replicate n False @ trace_back (history a obs []) 0"
proof (induction n)
  case (Suc n)
  have more: "obs @ replicate (Suc n) (0, 0) = (obs @ replicate n (0, 0)) @ [(0, 0)]"
    by (simp add: replicate_append_same)
  have "metrics_after ((obs @ replicate n (0, 0)) @ [(0, 0)]) a = relax_all (hard_metric 0 0) (metrics_after (obs @ replicate n (0, 0)) a)"
    by (simp add: metrics_after_def)
  then show ?case
    using Suc near_zeros [of c "metrics_after (obs @ replicate n (0, 0)) a"]
    unfolding more trace_back_snoc by (simp add: prev_def)
qed (simp add: assms)

section \<open>From one frame to the next\<close>

lemma chainback_keeps:
  "m_metrics1 (snd (CNXDNConvolution_chainback out n st)) = m_metrics1 st"
  "conv_ok (snd (CNXDNConvolution_chainback out n st)) = conv_ok st"
proof -
  have ok: "conv_ok (s\<lparr>m_dp := k\<rparr>) = conv_ok s" for s k by (simp add: conv_ok_def)
  have "m_metrics1 (snd (chainback_loop n state out st)) = m_metrics1 st
      \<and> conv_ok (snd (chainback_loop n state out st)) = conv_ok st" for state
    by (induction n arbitrary: state out st) (simp_all add: Let_def ok)
  then show "m_metrics1 (snd (CNXDNConvolution_chainback out n st)) = m_metrics1 st"
    "conv_ok (snd (CNXDNConvolution_chainback out n st)) = conv_ok st"
    by (simp_all add: CNXDNConvolution_chainback_def)
qed

text \<open>After an odd number of steps the first array holds the metrics of the step before.\<close>

lemma metrics1_after_odd:
  assumes "conv_ok st" "\<forall>(s0, s1) \<in> set (obs @ [x]). s0 \<le> 2 \<and> s1 \<le> 2" "length obs < 2400" "even (length obs)"
    "\<forall>q < 16. m_metrics1 st ! q \<le> A" "A + 4 * (length obs + 1) < 2 ^ 16"
  shows "m_metrics1 (fold (\<lambda>(s0, s1). CNXDNConvolution_decode s0 s1) (obs @ [x]) (CNXDNConvolution_start st))
      = metrics_after obs (m_metrics1 st)"
    "conv_ok (fold (\<lambda>(s0, s1). CNXDNConvolution_decode s0 s1) (obs @ [x]) (CNXDNConvolution_start st))"
proof -
  let ?run = "\<lambda>obs. fold (\<lambda>(s0, s1). CNXDNConvolution_decode s0 s1) obs (CNXDNConvolution_start st)"
  let ?ms = "map (\<lambda>(s0, s1). hard_metric s0 s1)"
  have start: "conv_ok (CNXDNConvolution_start st)" "m_dp (CNXDNConvolution_start st) = 0"
    "\<forall>q < 16. m_oldMetrics (CNXDNConvolution_start st) ! q \<le> A" using assms(1,5) by simp_all
  have room: "A + CNXDNConvolution_M * length obs < 2 ^ 16" "A + CNXDNConvolution_M * length (obs @ [x]) < 2 ^ 16"
    using assms(6) by (simp_all add: CNXDNConvolution_M_def)
  have valid: "\<forall>s \<in> set obs. case s of (s0, s1) \<Rightarrow> s0 \<le> 2 \<and> s1 \<le> 2" using assms(2) by simp
  have run: "decoded CNXDNConvolution_M (?ms obs) (m_metrics1 st) (?run obs)"
    using hard.run [OF start(1,2) valid _ start(3) room(1)] assms(3) by simp
  have whole: "decoded CNXDNConvolution_M (?ms (obs @ [x])) (m_metrics1 st) (?run (obs @ [x]))"
    using hard.run [OF start(1,2) assms(2) _ start(3) room(2)] assms(3) by simp
  then show "conv_ok (?run (obs @ [x]))" by (simp add: decoded_def)
  have old1: "m_old1 (?run xs) = even (length xs)" for xs
    by (induction xs rule: rev_induct)
      (auto simp: CNXDNConvolution_start_def CNXDNConvolution_decode_def finish_step_def)
  have len: "length (m_metrics1 (?run obs)) = 16" "length (m_metrics1 st) = 16"
    using run assms(1) by (simp_all add: decoded_def conv_ok_def)
  have "m_metrics1 (?run obs) = metrics_after obs (m_metrics1 st)"
  proof (rule nth_equalityI)
    fix q assume "q < length (m_metrics1 (?run obs))"
    then have q: "q < 16" by (simp add: len)
    have "m_metrics1 (?run obs) = m_oldMetrics (?run obs)" using old1 [of obs] assms(4) by (simp add: m_oldMetrics_def)
    then show "m_metrics1 (?run obs) ! q = metrics_after obs (m_metrics1 st) ! q"
      using run q by (simp add: decoded_def metrics_after_best len)
  qed (simp add: len length_metrics_after)
  moreover have "m_metrics1 (?run (obs @ [x])) = m_metrics1 (?run obs)"
    using old1 [of obs] assms(4) by (cases x) (simp add: CNXDNConvolution_decode_def finish_step_def)
  ultimately show "m_metrics1 (?run (obs @ [x])) = metrics_after obs (m_metrics1 st)" by simp
qed

section \<open>Two frames on a clean channel\<close>

definition clean_frame :: "bool list \<Rightarrow> bit_array" where
  "clean_frame us = m17_payload_decode_bits (fst (m17_bert_encode_type1_bits (map of_bool us @ [0, 0, 0, 0])))"

definition first_frame :: "bool list" where
  "first_frame = replicate 196 False @ [True]"

definition second_frame :: "bool list" where
  "second_frame = [False, True, False, False, False, False, False, False, False, True] @ replicate 187 False"

lemma no_wrong_bits: "wrong_bits {} xs = xs" "origin {} = {}" "coded_errors n {} = {}"
  by (simp_all add: wrong_bits_def origin_def coded_errors_def map_nth)

lemma clean_frame_observed:
  assumes "length us = 197"
  shows "observed (m17_depuncture_p2_hard (clean_frame us) 402) 201
      = received_word True 201 {} (frame_word [False, False, False, False] us)"
    "bits (m17_depuncture_p2_hard (clean_frame us) 402)"
  using bert_frame_received(1) [OF assms, of "{}"] bert_frame_received(2) [OF assms, of "{}"]
    bert_frame_observed(1) [OF assms, of "{}"]
  by (simp_all add: clean_frame_def no_wrong_bits)

text \<open>The state after a test frame, apart from the decisions.\<close>

lemma bert_frame_state:
  assumes "bits (m17_depuncture_p2_hard xs 402)"
  shows "snd (m17_decode_bert_payload_bits xs st) = snd (CNXDNConvolution_chainback (replicate 25 0) 197
    (fold (\<lambda>(s0, s1). CNXDNConvolution_decode s0 s1) (observed (m17_depuncture_p2_hard xs 402) 201) (CNXDNConvolution_start st)))"
proof -
  have len: "length (m17_depuncture_p2_hard xs 402) = 2 * 201" by (simp add: depuncture_2)
  show ?thesis
    unfolding m17_decode_bert_payload_bits_def M17_BERT_TYPE2_BITS_def M17_BERT_PAYLOAD_BITS_def M17_BERT_FLUSH_BITS_def Let_def
    using fold_decode_observed [OF assms len, of "CNXDNConvolution_start st"] by (simp add: case_prod_beta)
qed

text \<open>The symbols of the two frames.\<close>

lemma received_word_nth:
  "t < N \<Longrightarrow> received_word short N {} w ! t
    = (symbol (fst (code_pair w t)), if unsent short N t then 0 else symbol (snd (code_pair w t)))"
  by (simp add: received_word_def)

lemma sent_nothing: "sent False False False False False = (False, False)"
  by (simp add: sent_def)

lemma first_symbols:
  "received_word True 201 {} (frame_word [False, False, False, False] first_frame)
    = replicate 196 (0, 0) @ [(2, 2), (0, 0), (0, 2), (2, 0), (2, 0)]"
proof (rule nth_equalityI)
  let ?w = "frame_word [False, False, False, False] first_frame"
  have w: "?w ! j \<longleftrightarrow> j = 200" if "j < 205" for j
    using that by (auto simp: frame_word_def first_frame_def nth_append nth_Cons' less_Suc_eq)
  show "length (received_word True 201 {} ?w) = length (replicate 196 (0, 0) @ [(2, 2), (0, 0), (0, 2), (2, 0), (2, 0 :: nat)])"
    by (simp add: received_word_def)
  fix t assume "t < length (received_word True 201 {} ?w)"
  then have t: "t < 201" by (simp add: received_word_def)
  then consider "t < 196" | "t = 196" | "t = 197" | "t = 198" | "t = 199" | "t = 200" by linarith
  then show "received_word True 201 {} ?w ! t = (replicate 196 (0, 0) @ [(2, 2), (0, 0), (0, 2), (2, 0), (2, 0)]) ! t"
    by cases (simp_all add: received_word_nth code_pair_def w nth_append sent_def symbol_def unsent_def)
qed

definition second_head :: "(nat \<times> nat) list" where
  "second_head = [(0, 0), (2, 2), (0, 2), (0, 2), (2, 0), (2, 0), (0, 0), (0, 0), (0, 0), (2, 2), (0, 2), (0, 0), (2, 0), (2, 2)]"

lemma length_second_head: "length second_head = 14"
  by (simp add: second_head_def)

lemma second_symbols:
  "received_word True 201 {} (frame_word [False, False, False, False] second_frame) = second_head @ replicate 187 (0, 0)"
proof (rule nth_equalityI)
  let ?w = "frame_word [False, False, False, False] second_frame"
  have w: "?w ! j \<longleftrightarrow> j = 5 \<or> j = 13" if "j < 205" for j
    using that by (auto simp: frame_word_def second_frame_def nth_append nth_Cons' less_Suc_eq)
  show "length (received_word True 201 {} ?w) = length (second_head @ replicate 187 (0, 0 :: nat))"
    by (simp add: received_word_def second_head_def)
  fix t assume "t < length (received_word True 201 {} ?w)"
  then have t: "t < 201" by (simp add: received_word_def)
  show "received_word True 201 {} ?w ! t = (second_head @ replicate 187 (0, 0)) ! t"
  proof (cases "t < 14")
    case True
    let ?w5 = "\<lambda>j. j = 5 \<or> j = (13 :: nat)"
    have "\<forall>t < 14. (symbol (fst (sent (?w5 t) (?w5 (t + 1)) (?w5 (t + 2)) (?w5 (t + 3)) (?w5 (t + 4)))),
        if t mod 6 = 5 then 0 else symbol (snd (sent (?w5 t) (?w5 (t + 1)) (?w5 (t + 2)) (?w5 (t + 3)) (?w5 (t + 4)))))
      = second_head ! t" by code_simp
    then have "second_head ! t = (symbol (fst (sent (?w5 t) (?w5 (t + 1)) (?w5 (t + 2)) (?w5 (t + 3)) (?w5 (t + 4)))),
        if t mod 6 = 5 then 0 else symbol (snd (sent (?w5 t) (?w5 (t + 1)) (?w5 (t + 2)) (?w5 (t + 3)) (?w5 (t + 4)))))"
      using True by metis
    also have "\<dots> = received_word True 201 {} ?w ! t"
      using True by (simp add: received_word_nth code_pair_def w unsent_def)
    finally show ?thesis using True by (simp add: nth_append length_second_head)
  next
    case False
    then show ?thesis
      using t by (simp add: received_word_nth code_pair_def w nth_append sent_nothing symbol_def second_head_def nth_Cons')
  qed
qed

text \<open>A step on a list of metrics, and the branch metrics of the symbols of a clean channel.\<close>

lemma relax_all_list:
  "relax_all m [a0, a1, a2, a3, a4, a5, a6, a7, a8, a9, a10, a11, a12, a13, a14, a15] =
    [min (a0 + m 0) (a8 + (4 - m 0)), min (a0 + (4 - m 0)) (a8 + m 0),
     min (a1 + m 1) (a9 + (4 - m 1)), min (a1 + (4 - m 1)) (a9 + m 1),
     min (a2 + m 2) (a10 + (4 - m 2)), min (a2 + (4 - m 2)) (a10 + m 2),
     min (a3 + m 3) (a11 + (4 - m 3)), min (a3 + (4 - m 3)) (a11 + m 3),
     min (a4 + m 4) (a12 + (4 - m 4)), min (a4 + (4 - m 4)) (a12 + m 4),
     min (a5 + m 5) (a13 + (4 - m 5)), min (a5 + (4 - m 5)) (a13 + m 5),
     min (a6 + m 6) (a14 + (4 - m 6)), min (a6 + (4 - m 6)) (a14 + m 6),
     min (a7 + m 7) (a15 + (4 - m 7)), min (a7 + (4 - m 7)) (a15 + m 7)]"
proof -
  have "[0..<16] = [0, 1, 2, 3, 4, 5, 6, 7, 8, 9, 10, 11, 12, 13, 14, 15 :: nat]" by code_simp
  then show ?thesis by (simp add: relax_all_def relax_def prev_def branch_def CNXDNConvolution_M_def)
qed

lemma hard_metric_zero:
  "hard_metric 0 0 0 = 0" "hard_metric 0 0 (Suc 0) = 2" "hard_metric 0 0 2 = 2" "hard_metric 0 0 3 = 0"
  "hard_metric 0 0 4 = 2" "hard_metric 0 0 5 = 4" "hard_metric 0 0 6 = 4" "hard_metric 0 0 7 = 2"
  by (simp_all add: hard_metric_def abs_diff_def CNXDNConvolution_BRANCH_TABLE1_def CNXDNConvolution_BRANCH_TABLE2_def)

lemma hard_metric_second:
  "hard_metric 0 2 0 = 2" "hard_metric 0 2 (Suc 0) = 0" "hard_metric 0 2 2 = 0" "hard_metric 0 2 3 = 2"
  "hard_metric 0 2 4 = 4" "hard_metric 0 2 5 = 2" "hard_metric 0 2 6 = 2" "hard_metric 0 2 7 = 4"
  by (simp_all add: hard_metric_def abs_diff_def CNXDNConvolution_BRANCH_TABLE1_def CNXDNConvolution_BRANCH_TABLE2_def)

lemma hard_metric_first:
  "hard_metric 2 0 0 = 2" "hard_metric 2 0 (Suc 0) = 4" "hard_metric 2 0 2 = 4" "hard_metric 2 0 3 = 2"
  "hard_metric 2 0 4 = 0" "hard_metric 2 0 5 = 2" "hard_metric 2 0 6 = 2" "hard_metric 2 0 7 = 0"
  by (simp_all add: hard_metric_def abs_diff_def CNXDNConvolution_BRANCH_TABLE1_def CNXDNConvolution_BRANCH_TABLE2_def)

lemma hard_metric_both:
  "hard_metric 2 2 0 = 4" "hard_metric 2 2 (Suc 0) = 2" "hard_metric 2 2 2 = 2" "hard_metric 2 2 3 = 4"
  "hard_metric 2 2 4 = 2" "hard_metric 2 2 5 = 0" "hard_metric 2 2 6 = 0" "hard_metric 2 2 7 = 2"
  by (simp_all add: hard_metric_def abs_diff_def CNXDNConvolution_BRANCH_TABLE1_def CNXDNConvolution_BRANCH_TABLE2_def)

lemmas step_values = relax_all_list hard_metric_zero hard_metric_second hard_metric_first hard_metric_both

text \<open>The metrics the first frame leaves to the second, and those the zeros of each settle to.\<close>

definition settled :: "nat list" where
  "settled = [0, 4, 6, 6, 8, 8, 6, 8, 10, 10, 6, 8, 10, 6, 10, 10]"

definition stale :: "nat list" where
  "stale = [8, 8, 8, 6, 10, 8, 10, 10, 2, 6, 8, 8, 6, 6, 4, 6]"

lemma settled_standing: "relax_all (hard_metric 0 0) settled = settled"
  by (simp add: settled_def step_values)

lemma first_metrics: "metrics_after (replicate 196 (0, 0) @ [(2, 2), (0, 0), (0, 2), (2, 0)]) (replicate 16 0) = stale"
proof -
  have "replicate 13 x = [x, x, x, x, x, x, x, x, x, x, x, x, x]"
    "replicate 16 y = [y, y, y, y, y, y, y, y, y, y, y, y, y, y, y, y]" for x :: "nat \<times> nat" and y :: nat
    by (simp_all add: numeral_eq_Suc)
  then have "metrics_after (replicate 13 (0, 0)) (replicate 16 0) = settled"
    by (simp add: metrics_after_def settled_def step_values)
  then have "metrics_after (replicate (183 + 13) (0, 0)) (replicate 16 0) = settled"
    using metrics_standing [OF settled_standing, of 183]
    unfolding metrics_after_def add.commute [of 183] replicate_add fold_append by simp
  moreover have "metrics_after [(2, 2), (0, 0), (0, 2), (2, 0)] settled = stale"
    by (simp add: metrics_after_def settled_def stale_def step_values)
  ultimately show ?thesis by (simp add: metrics_after_def)
qed

lemma second_metrics: "near 8 (metrics_after second_head stale)"
proof -
  have "metrics_after second_head stale = [10, 14, 10, 10, 14, 14, 12, 10, 12, 12, 14, 14, 12, 8, 14, 14]"
    by (simp add: metrics_after_def second_head_def stale_def step_values)
  then show ?thesis by (auto simp: near_def nth_Cons')
qed

lemma third_last_choice:
  "trace_back (history a (((obs @ [(s0, s1)]) @ [(t0, t1)]) @ [(u0, u1)]) []) q ! 2 \<longleftrightarrow>
    (let d = decides CNXDNConvolution_M (hard_metric u0 u1) (metrics_after ((obs @ [(s0, s1)]) @ [(t0, t1)]) a) q;
         e = decides CNXDNConvolution_M (hard_metric t0 t1) (metrics_after (obs @ [(s0, s1)]) a) (prev q d)
     in decides CNXDNConvolution_M (hard_metric s0 s1) (metrics_after obs a) (prev (prev q d) e))"
  by (simp only: trace_back_snoc Let_def) simp

lemma second_trace: "trace_back (history stale second_head []) 0 ! 2"
proof -
  let ?obs = "[(0, 0), (2, 2), (0, 2), (0, 2), (2, 0), (2, 0), (0, 0), (0, 0), (0, 0), (2, 2), (0, 2)]"
  let ?m = "\<lambda>obs. metrics_after obs stale"
  have m: "?m ?obs = [12, 12, 8, 12, 12, 12, 10, 10, 10, 12, 8, 8, 10, 10, 8, 12]"
    "?m (?obs @ [(0, 0)]) = [12, 10, 14, 14, 10, 10, 12, 8, 12, 12, 10, 12, 8, 10, 12, 12]"
    "?m ((?obs @ [(0, 0)]) @ [(2, 0)]) = [14, 14, 12, 10, 10, 14, 14, 14, 10, 8, 12, 12, 14, 14, 8, 12]"
    by (simp_all add: metrics_after_def stale_def step_values)
  have eq: "second_head = ((?obs @ [(0, 0)]) @ [(2, 0)]) @ [(2, 2)]" by (simp add: second_head_def)
  show ?thesis
    unfolding eq third_last_choice Let_def m by (simp add: decides_def prev_def branch_def step_values CNXDNConvolution_M_def)
qed

definition after_first :: "conv \<Rightarrow> conv" where
  "after_first st = snd (m17_decode_bert_payload_bits (clean_frame first_frame) (CNXDNConvolution_init st))"

text \<open>
  C11. The decoder carries metrics from one test frame to the next, and they can cost the second frame.
  After a reset two frames are received without a single wrong bit: the first decodes, the second does
  not, although it would if the metrics were cleared before it.
\<close>

theorem stale_metrics_misread:
  "fst (m17_decode_bert_payload_bits (clean_frame first_frame) (CNXDNConvolution_init st)) = map of_bool first_frame
    \<and> fst (m17_decode_bert_payload_bits (clean_frame second_frame) (after_first st)) \<noteq> map of_bool second_frame
    \<and> fst (m17_decode_bert_payload_bits (clean_frame second_frame) (CNXDNConvolution_init (after_first st))) = map of_bool second_frame"
proof (intro conjI)
  let ?init = "CNXDNConvolution_init st"
  have len: "length first_frame = 197" "length second_frame = 197" by (simp_all add: first_frame_def second_frame_def)
  have fresh: "conv_ok (CNXDNConvolution_init s)" "m_metrics1 (CNXDNConvolution_init s) = replicate 16 0" for s
    by (simp_all add: CNXDNConvolution_init_def conv_ok_def)
  have clean: "fst (m17_decode_bert_payload_bits (clean_frame us) (CNXDNConvolution_init s)) = map of_bool us" if "length us = 197" for us s
    using bert_frame_corrects [OF that, where R = "{}" and st = "CNXDNConvolution_init s" and A = 0] by (simp add: fresh clean_frame_def no_wrong_bits)
  show "fst (m17_decode_bert_payload_bits (clean_frame first_frame) ?init) = map of_bool first_frame"
    "fst (m17_decode_bert_payload_bits (clean_frame second_frame) (CNXDNConvolution_init (after_first st))) = map of_bool second_frame"
    by (rule clean, rule len)+
  let ?obs = "replicate 196 (0, 0) @ [(2, 2), (0, 0), (0, 2), (2, 0)]" and ?last = "(2, 0) :: nat \<times> nat"
  have "observed (m17_depuncture_p2_hard (clean_frame first_frame) 402) 201 = ?obs @ [?last]"
    by (simp add: clean_frame_observed(1) [OF len(1)] first_symbols)
  then have after: "conv_ok (after_first st)" "m_metrics1 (after_first st) = stale"
    using metrics1_after_odd [where st = ?init and obs = ?obs and x = ?last and A = 0] first_metrics fresh(1) [of st]
    by (simp_all add: after_first_def bert_frame_state clean_frame_observed(2) len fresh(2) chainback_keeps)
  let ?second = "second_head @ replicate 187 (0, 0 :: nat)"
  let ?run = "fold (\<lambda>(s0, s1). CNXDNConvolution_decode s0 s1) ?second (CNXDNConvolution_start (after_first st))"
  have symbols: "\<forall>s \<in> set ?second. case s of (s0, s1) \<Rightarrow> s0 \<le> 2 \<and> s1 \<le> 2" by (auto simp: second_head_def)
  have bound: "\<forall>q < 16. m_metrics1 (after_first st) ! q \<le> 10" by (auto simp: after(2) stale_def nth_Cons')
  have l16: "length stale = 16" by (simp add: stale_def)
  have "rev (frame_bits 197 (CNXDNConvolution_chainback (replicate 25 0) 197 ?run))
      = take 197 (trace_back (history stale ?second []) 0)"
    using hard.frame_bits_traced [OF after(1) symbols _ _ _ bound, of 197 "replicate 25 0"] trace_back_traced [OF l16, of 0 ?second]
    by (simp add: length_second_head after(2) CNXDNConvolution_M_def)
  also have "trace_back (history stale ?second []) 0 = replicate 187 False @ trace_back (history stale second_head []) 0"
    using trace_back_zeros [OF second_metrics, of 187] by simp
  finally have "rev (frame_bits 197 (CNXDNConvolution_chainback (replicate 25 0) 197 ?run)) ! 189"
    using second_trace by (simp add: nth_append)
  then have seven: "frame_bits 197 (CNXDNConvolution_chainback (replicate 25 0) 197 ?run) ! 7"
    by (simp add: rev_nth frame_bits_def)
  have "fst (m17_decode_bert_payload_bits (clean_frame second_frame) (after_first st))
      = map of_bool (frame_bits 197 (CNXDNConvolution_chainback (replicate 25 0) 197 ?run))"
    using bert_frame_decoder [OF clean_frame_observed(2) [OF len(2)], of "after_first st"]
    by (simp add: clean_frame_observed(1) [OF len(2)] second_symbols hard_frame_def length_second_head)
  moreover have "\<not> second_frame ! 7" by (simp add: second_frame_def)
  ultimately show "fst (m17_decode_bert_payload_bits (clean_frame second_frame) (after_first st)) \<noteq> map of_bool second_frame"
    using seven by (auto dest: map_injective simp: inj_def)
qed

end
