(* ===== verification/Spec2Isabelle.thy ===== *)
theory Spec2Isabelle
  imports Bptc Late_Entry Dmr_Utils P25_Crc Cc_Candidates Enc_Lockout Dmr_Confidence P25_Patch_Text Nxdn_Convolution Aes Des Rc4
    Tetra_Trunk Tetra_Fec Tetra_Rm P25p2_Mac M17_Text M17_Frames M17_Metrics
begin

text \<open>
  A verification development for the integer core of dsd-neo, a decoder for digital voice
  radio protocols (DMR, P25, NXDN, TETRA and others).

  \<^bold>\<open>The program.\<close> Samples from a radio, file or socket are demodulated into symbols, a frame
  synchroniser finds the protocol, and a protocol decoder turns the bits of each frame into
  messages: it undoes the interleaving, corrects errors with block codes, checks cyclic
  redundancy codes and interprets the fields. The messages drive state shared by the trunking
  logic and the user interface: which control channels to try next, which talkgroups are locked
  out because they are encrypted, which supergroups patch which talkgroups, which colour code a
  carrier is trusted with, which system the carrier on air belongs to, which tune is in flight and
  which frames it makes stale. The modelled parts are the codes and checks, which every message
  passes, the ciphers that open protected ones, these state components, and one trunking state
  machine, TETRA's, with the tuning layer under it.

  \<^bold>\<open>Theories and sources.\<close> Paths are below \<open>src/\<close> of the repository.

  \<^item> \<open>Prelude\<close>: machine types, bit arrays, \<open>memcpy\<close>, and the locale \<open>run_invariant\<close>, the
    interface of a component whose operations keep an invariant.
  \<^item> \<open>Syndrome_Code\<close>, \<open>Hamming\<close>, \<open>Golay\<close>: \<open>fec/fec.c\<close>. A systematic code is given by its parity
    matrix as the source lists it; the init functions fill the correction tables, the decoders
    look the syndrome up. Locales \<open>systematic_code\<close>, \<open>hamming_code\<close>, \<open>golay_code\<close>,
    \<open>pattern_table\<close> and \<open>correcting_code\<close> carry the proofs and are interpreted on the tables
    the code builds. Shown: correction up to the designed distance, detection beyond it,
    encode and decode as inverses, and the block loops with their early exit.
  \<^item> \<open>Fec_Tables\<close>, \<open>Bptc\<close>: \<open>fec/bptc.c\<close>. De-interleaving as a permutation, and the
    row and column decoders of the product codes (196,96), (128,77) and (16x2). Shown for (196,96):
    an error pattern that its rows and columns correct together leaves the payload as sent.
  \<^item> \<open>Rs_Field\<close>, \<open>Rs_12_9\<close>: \<open>fec/rs-12-9.c\<close>. The field of 256 elements from the exponent and
    logarithm tables (locale \<open>byte_field\<close>), syndromes, root search and correction of the
    Reed-Solomon (12,9) code. Shown: one wrong symbol is restored; a reported
    correction is a codeword within one symbol; no access is out of range.
  \<^item> \<open>Bit_Words\<close>, \<open>Crc\<close>: shift-register CRCs at any width and the equivalent buffer division
    (locales \<open>crc_register\<close>, \<open>crc_divider\<close>), linearity and detection of every burst up to
    the register width.
  \<^item> \<open>Bit_Packing\<close>: \<open>core/util/bit_packing.c\<close>; \<open>P25_Crc\<close>: \<open>protocol/p25/p25_crc.c\<close>;
    \<open>Dmr_Utils\<close>: \<open>protocol/dmr/dmr_utils.c\<close>; \<open>Late_Entry\<close>: \<open>fec/dmr_late_entry.c\<close>. Packing round
    trips with capacities, the CRC routines as instances of the register, the checks built
    from them, and the late-entry decoder against a sender described bit by bit.
  \<^item> \<open>Nxdn_Convolution\<close>: \<open>protocol/nxdn/nxdn_convolution.c\<close>. The Viterbi decoder NXDN and M17
    share. Its hard and soft steps are instances of the locale \<open>viterbi\<close>, in which the chained
    back bits are proved to belong to a path of least cost; for hard symbols that is the closest
    code word, and an error-free frame comes back. Two defects are shown on concrete inputs.
  \<^item> \<open>Aes\<close>: \<open>crypto/crypt-aes.c\<close>. The block cipher, its inverse, the key schedule and the counter,
    output-feedback and block modes. Shown: the inverse cipher undoes the cipher, the
    schedule is the recurrence of the standard, counter mode encrypts a 128-bit counter.
  \<^item> \<open>Des\<close>: \<open>crypto/crypt-des.c\<close>. Bit permutations on bytes, the key schedule, the sixteen rounds
    (locale \<open>feistel\<close>) and the three keystream modes. Shown: decryption and encryption are
    inverse, the byte-wise schedule picks the bits of the standard, triple encryption
    degenerates to single encryption.
  \<^item> \<open>Rc4\<close>: \<open>crypto/crypt-rc4.c\<close>. Two copies of the generator with one keystream; its table is always
    a permutation.
  \<^item> \<open>Lfsr\<close>: \<open>protocol/p25/p25_lfsr.c\<close>, \<open>protocol/nxdn/nxdn_lfsr.c\<close>, \<open>crypto/dmr_mi.c\<close>,
    \<open>crypto/nxdn_keystream.c\<close>. Feedback registers (locales \<open>shift_register\<close> and
    \<open>feedback_register\<close>): agreement of the expansions of a message indicator, injectivity of
    its advance, and the voice scrambler.
  \<^item> \<open>Cc_Candidates\<close>: \<open>runtime/trunk_cc_candidates.c\<close>. The list of control-channel candidates
    with cooldowns: a step relation with its invariant, round-robin progress, and refinement
    of a bounded first-in first-out set (locale \<open>bounded_fifo\<close>).
  \<^item> \<open>Enc_Lockout\<close>: \<open>core/util/enc_lockout.c\<close>. The ledger of encrypted targets with key epochs
    and least-recently-confirmed eviction; runs implement a per-target specification.
  \<^item> \<open>Received_Identity\<close>, \<open>Rxid_Invariant\<close>, \<open>Rxid_Epoch\<close>, \<open>Rxid_Notes\<close>:
    \<open>core/util/received_identity.c\<close>. The record of the system a carrier named: the model, its
    consistency over all 31 operations, the meaning of the epoch, and the effect of one note.
  \<^item> \<open>Dmr_Confidence\<close>: \<open>protocol/dmr/dmr_confidence.c\<close>. The colour-code gate as a state machine
    with the history it observed (\<open>gate_run\<close>); its evidence reaches the identity record through
    the interface \<open>identity_sink\<close>.
  \<^item> \<open>P25_Patch\<close>, \<open>P25_Patch_Text\<close>: \<open>protocol/p25/p25_patch.c\<close>. The table of supergroups with
    membership, key policy and sweep, and its one-line summary in a bounded buffer.
  \<^item> \<open>Trunk_Tuning\<close>: \<open>runtime/trunk_tuning_hooks.c\<close>. Requests to the tuner, which the owner and the
    backend complete in either order, and the gate that keeps frames of the old channel out. Runs
    interleave all callers (\<open>tuning_step\<close>); shown: the count of unresolved requests is exact, the
    lock-free gate is linearizable, no stale frame passes. What an owner relies on is the locale
    \<open>tune_ledger\<close>.
  \<^item> \<open>Tetra_Confirm\<close>, \<open>Tetra_Trunk\<close>: \<open>protocol/tetra/tetra_confirm.c\<close>, \<open>tetra_trunk_sm.c\<close> and the
    state they keep (\<open>tetra_state.h\<close>). The machine that follows a granted channel: its invariant over
    all interleavings with the tuner (\<open>session_step\<close>), what a failed tune puts back, how a followed
    channel is let go of for each answer of the tuner, and that the frame gate opens only on a settled
    machine.
  \<^item> \<open>Tetra_Fec\<close>, \<open>Tetra_Rm\<close>: \<open>protocol/tetra/tetra_fec.c\<close>. Puncturing, interleaving and the Viterbi
    decoder, which the locale \<open>trellis\<close> shows to return a path of least soft distance for both
    codes, so that SCH/HU and speech blocks come back; the (30,14) Reed-Muller code as an instance
    of \<open>systematic_code\<close>, correcting three errors.
  \<^item> \<open>P25p2_Mac\<close>: \<open>protocol/p25/phase2/p25p2_mac_parse.c\<close>, \<open>p25p2_mac_tables.c\<close>. The split of a MAC PDU
    into structures and the identity of a call. Reads outside the PDU are \<open>None\<close>; shown: none happens,
    the structures tile the PDU, the identity is well typed.
  \<^item> \<open>M17_Algorithms\<close>, \<open>M17_Frames\<close>: \<open>protocol/m17/m17_algorithms.c\<close>, \<open>m17_tables.c\<close>. The signal layer
    of M17. Shown: a chunk of link information survives three errors in each of its Golay words; the
    receiver of the test sequence locks onto any sender within 35 bits.
  \<^item> \<open>M17_Parse\<close>, \<open>M17_Text\<close>: \<open>protocol/m17/m17_parse.c\<close>. Addresses, the link setup frame, positions and
    text. Shown: callsigns and addresses stand for each other; a text is put together from its
    blocks in any order.
  \<^item> \<open>M17_Trellis\<close>, \<open>M17_Metrics\<close>: the receiving side of the convolutional code in \<open>protocol/m17/m17.c\<close>,
    over the decoder of \<open>Nxdn_Convolution\<close>. A potential on the states of the code shows that test and
    stream frames come back with one wrong bit; what the decoder carries from frame to frame is
    computed, with a frame it costs.
  \<^item> This theory: agreement of the three CRC-CCITT routines of the program.

  \<^bold>\<open>Correspondence.\<close> Definitions keep the names of the C functions. A struct, or the fields of
  the decoder state a file owns, is a record; a function that writes through its state pointer
  returns the new state. Bit arrays are lists of natural numbers, values whose width matters are
  words of that width; counters that saturate in the source are natural numbers with the
  saturation written out. Loops over a fixed range are folds or structural recursions over the
  index list, so every function is total and no fuel is needed. Reads of the decode clock are
  arguments of the operation that makes them.

  \<^bold>\<open>Bounds.\<close> The lockout ledger is proved for fewer than \<open>2\<^sup>6\<^sup>4 - 2\<close> operations, the number at
  which a counter could wrap; the epoch of the identity record for fewer than \<open>2\<^sup>3\<^sup>0\<close> operations
  between two readings, since one operation moves it at most four steps of its 32 bits. The
  convolutional decoder is proved while its metrics leave room for the frame in sixteen bits,
  and for frames its 2400 decision words hold. The tuning layer is proved for fewer than \<open>2\<^sup>6\<^sup>4\<close>
  steps, before which no request identifier and no generation repeats. The TETRA decoder is proved for
  all 512 steps it takes, in which no 32-bit metric wraps; its soft costs are natural numbers up to
  65535. The frames of M17 are proved for a decoder whose metrics start at or below 64731 (test frames)
  or 64943 (stream frames) and favour the empty register, as a reset decoder's do for a frame without
  error. Lengths and block counts are natural numbers, so an unsigned sum of a length and a checksum width
  (\<open>p25_crc.c\<close>) does not wrap and a count of cipher blocks (\<open>crypt-des.c\<close>) is not cut to sixteen bits.
  Times of the decode clock, and the degrees and metres of an M17 position, are rational
  numbers, where the source has doubles.

  \<^bold>\<open>Not modelled.\<close> Radio, audio, file and network I/O and the device drivers (\<open>io/\<close>), which wrap
  third-party libraries; the floating-point signal processing and frame synchronisation (\<open>dsp/\<close>);
  the vocoder interface, which calls a library outside the repository; the terminal and Qt
  frontends, the command queue and the configuration parser; the large message handlers of
  \<open>protocol/\<close>, whose state is the whole decoder; threads and locks, except that an operation under
  the spin lock of the tuning layer is one step and its atomic reads are separate ones. Of the
  modelled files, the null-pointer guards, diagnostic prints and debug dumps are left out, and so are
  the vector kernels of \<open>tetra_fec.c\<close>, whose reference is the scalar loop, and the soft path of \<open>m17.c\<close>. The call records and
  the publication that the TETRA machine notifies are a list of effects. Next in line are the
  trellis decoders (\<open>protocol/dmr/dmr_34_viterbi.c\<close>, \<open>protocol/p25/p25_12.c\<close>) and the remaining
  ciphers under \<open>crypto/\<close>.
\<close>

section \<open>One CRC, three routines\<close>

text \<open>
  C40. The CRC-CCITT of DMR, the one of P25 and the shared bit-packing routine agree on every
  80-bit payload, and all three are the sixteen-bit shift register fed with the payload and
  complemented; so a frame one of them accepts is accepted by the others.
\<close>

theorem ccitt_routines_agree:
  assumes "80 \<le> length buf"
  shows "ComputeCrcCCITT buf = ComputeCrcCCITT16b buf 80 \<and>
    ComputeCrcCCITT buf = dsd_crc_ccitt16_bits (Some buf) 80 \<and>
    ComputeCrcCCITT buf = NOT (crc_feed 16 0x1021 (map odd (take 80 buf)) 0)"
proof -
  have "(0xFFFF :: u16) = mask 16" by (simp add: mask_eq_exp_minus_1)
  then have "x XOR 0xFFFF = NOT x" for x :: u16 by (auto simp: bit_eq_iff bit_simps)
  then show ?thesis
    by (simp add: ComputeCrcCCITT_feed [OF assms] ComputeCrcCCITT16b_feed [OF assms] dsd_crc_ccitt16_bits_feed [OF assms])
qed

theorem ccitt_routines_agree_witness:
  "ComputeCrcCCITT (replicate 96 1) = dsd_crc_ccitt16_bits (Some (replicate 96 1)) 80"
  by (rule ccitt_routines_agree [THEN conjunct2, THEN conjunct1]) simp

end
